(* ===== verification/Float32.thy ===== *)
theory Float32
  imports Lsql_Prelude
begin

text \<open>
  The \<open>float\<close> of the C++ program: IEEE 754 binary32 with round-to-nearest-even, as far as lsql
  uses it. A number is a signed NaN, a signed infinity, a signed zero or a finite non-zero
  rational; \<open>f32_of_rat\<close> rounds a rational to the nearest binary32 number. The invalid operations
  give the negative quiet NaN of x86-64. \<open>show_f32\<close> is \<open>std::to_string(float)\<close> (the format %f
  with six digits), \<open>show_g_f32\<close> the default format of a stream (%g), \<open>strtof\<close> the C function.
\<close>

datatype partial_ordering = PLess | PEquivalent | PGreater | PUnordered

datatype f32 = F_NaN bool | F_Inf bool | F_Zero bool | F_Fin rat

section \<open>Rounding\<close>

definition pow2 :: "int \<Rightarrow> rat" where
  "pow2 e = (if 0 \<le> e then 2 ^ nat e else 1 / 2 ^ nat (- e))"

definition round_half_even :: "rat \<Rightarrow> int" where
  "round_half_even q =
     (let f = \<lfloor>q\<rfloor>; d = q - of_int f in
      if d < 1 / 2 then f else if 1 / 2 < d then f + 1 else if even f then f else f + 1)"

text \<open>The exponent of a positive rational: the largest \<open>e\<close> with \<open>pow2 e \<le> q\<close>.\<close>

definition ilog2 :: "rat \<Rightarrow> int" where
  "ilog2 q =
     (let n = nat (fst (quotient_of q)); d = nat (snd (quotient_of q));
          e = int (floorlog 2 n) - int (floorlog 2 d)
      in if pow2 e \<le> q then e else e - 1)"

text \<open>Rounding of a positive magnitude with 24 bits, exponent at least \<open>-126\<close>.\<close>

definition round_mag :: "rat \<Rightarrow> rat" where
  "round_mag q = (let u = pow2 (max (ilog2 q) (-126) - 23) in of_int (round_half_even (q / u)) * u)"

definition f32_round :: "bool \<Rightarrow> rat \<Rightarrow> f32" where
  "f32_round s q =
     (if q = 0 then F_Zero s
      else let r = round_mag q in
           if r = 0 then F_Zero s
           else if 2 ^ 128 \<le> r then F_Inf s
           else F_Fin (if s then - r else r))"

definition f32_of_rat :: "rat \<Rightarrow> f32" where
  "f32_of_rat q = f32_round (q < 0) \<bar>q\<bar>"

definition f32_of_int :: "int \<Rightarrow> f32" where
  "f32_of_int i = f32_of_rat (of_int i)"

section \<open>Arithmetic\<close>

fun f32_neg :: "f32 \<Rightarrow> bool" where
  "f32_neg (F_NaN s) = s"
| "f32_neg (F_Inf s) = s"
| "f32_neg (F_Zero s) = s"
| "f32_neg (F_Fin q) = (q < 0)"

fun f32_add :: "f32 \<Rightarrow> f32 \<Rightarrow> f32" where
  "f32_add (F_NaN s) _ = F_NaN s"
| "f32_add _ (F_NaN s) = F_NaN s"
| "f32_add (F_Inf s) (F_Inf t) = (if s = t then F_Inf s else F_NaN True)"
| "f32_add (F_Inf s) _ = F_Inf s"
| "f32_add _ (F_Inf t) = F_Inf t"
| "f32_add (F_Zero s) (F_Zero t) = F_Zero (s \<and> t)"
| "f32_add (F_Zero _) y = y"
| "f32_add x (F_Zero _) = x"
| "f32_add (F_Fin p) (F_Fin q) = f32_of_rat (p + q)"

fun f32_minus :: "f32 \<Rightarrow> f32" where
  "f32_minus (F_NaN s) = F_NaN s"
| "f32_minus (F_Inf s) = F_Inf (\<not> s)"
| "f32_minus (F_Zero s) = F_Zero (\<not> s)"
| "f32_minus (F_Fin q) = F_Fin (- q)"

definition f32_sub :: "f32 \<Rightarrow> f32 \<Rightarrow> f32" where
  "f32_sub x y = f32_add x (f32_minus y)"

fun f32_mul :: "f32 \<Rightarrow> f32 \<Rightarrow> f32" where
  "f32_mul (F_NaN s) _ = F_NaN s"
| "f32_mul _ (F_NaN s) = F_NaN s"
| "f32_mul (F_Inf s) (F_Zero _) = F_NaN True"
| "f32_mul (F_Zero _) (F_Inf t) = F_NaN True"
| "f32_mul (F_Fin p) (F_Fin q) = f32_round ((p < 0) \<noteq> (q < 0)) \<bar>p * q\<bar>"
| "f32_mul (F_Inf s) y = F_Inf (s \<noteq> f32_neg y)"
| "f32_mul x (F_Inf t) = F_Inf (f32_neg x \<noteq> t)"
| "f32_mul (F_Zero s) y = F_Zero (s \<noteq> f32_neg y)"
| "f32_mul x (F_Zero t) = F_Zero (f32_neg x \<noteq> t)"

fun f32_div :: "f32 \<Rightarrow> f32 \<Rightarrow> f32" where
  "f32_div (F_NaN s) _ = F_NaN s"
| "f32_div _ (F_NaN s) = F_NaN s"
| "f32_div (F_Inf s) (F_Inf t) = F_NaN True"
| "f32_div (F_Zero s) (F_Zero t) = F_NaN True"
| "f32_div (F_Fin p) (F_Fin q) = f32_round ((p < 0) \<noteq> (q < 0)) \<bar>p / q\<bar>"
| "f32_div (F_Inf s) y = F_Inf (s \<noteq> f32_neg y)"
| "f32_div x (F_Inf t) = F_Zero (f32_neg x \<noteq> t)"
| "f32_div (F_Zero s) y = F_Zero (s \<noteq> f32_neg y)"
| "f32_div x (F_Zero t) = F_Inf (f32_neg x \<noteq> t)"

section \<open>Comparison\<close>

fun f32_nan :: "f32 \<Rightarrow> bool" where
  "f32_nan (F_NaN _) = True"
| "f32_nan _ = False"

fun f32_finite :: "f32 \<Rightarrow> bool" where
  "f32_finite (F_Zero _) = True"
| "f32_finite (F_Fin _) = True"
| "f32_finite _ = False"

fun f32_rat :: "f32 \<Rightarrow> rat" where
  "f32_rat (F_Fin q) = q"
| "f32_rat _ = 0"

text \<open>A class of an extended rational: \<open>-1\<close> for minus infinity, \<open>1\<close> for plus infinity.\<close>

fun f32_side :: "f32 \<Rightarrow> int" where
  "f32_side (F_Inf s) = (if s then -1 else 1)"
| "f32_side _ = 0"

definition f32_lt :: "f32 \<Rightarrow> f32 \<Rightarrow> bool" where
  "f32_lt x y \<longleftrightarrow> \<not> f32_nan x \<and> \<not> f32_nan y \<and>
     (f32_side x < f32_side y \<or> f32_side x = f32_side y \<and> f32_rat x < f32_rat y)"

definition f32_eq :: "f32 \<Rightarrow> f32 \<Rightarrow> bool" where
  "f32_eq x y \<longleftrightarrow> \<not> f32_nan x \<and> \<not> f32_nan y \<and> f32_side x = f32_side y \<and> f32_rat x = f32_rat y"

definition f32_cmp :: "f32 \<Rightarrow> f32 \<Rightarrow> partial_ordering" where
  "f32_cmp x y = (if f32_lt x y then PLess else if f32_lt y x then PGreater
                  else if f32_eq x y then PEquivalent else PUnordered)"

lemma f32_eq_refl [simp]: "f32_eq x x \<longleftrightarrow> \<not> f32_nan x"
  by (simp add: f32_eq_def)

lemma f32_eq_sym: "f32_eq x y = f32_eq y x"
  by (auto simp: f32_eq_def)

lemma f32_eq_trans: "f32_eq x y \<Longrightarrow> f32_eq y z \<Longrightarrow> f32_eq x z"
  by (auto simp: f32_eq_def)

lemma f32_lt_irrefl [simp]: "\<not> f32_lt x x"
  by (simp add: f32_lt_def)

lemma f32_lt_trans: "f32_lt x y \<Longrightarrow> f32_lt y z \<Longrightarrow> f32_lt x z"
  by (auto simp: f32_lt_def)

lemma f32_lt_cases: "\<not> f32_nan x \<Longrightarrow> \<not> f32_nan y \<Longrightarrow> f32_lt x y \<or> f32_eq x y \<or> f32_lt y x"
  by (auto simp: f32_lt_def f32_eq_def)

lemma f32_eq_lt: "f32_eq x y \<Longrightarrow> \<not> f32_lt x y"
  by (auto simp: f32_lt_def f32_eq_def)

lemma f32_lt_eq_trans: "f32_lt x y \<Longrightarrow> f32_eq y z \<Longrightarrow> f32_lt x z"
  by (auto simp: f32_lt_def f32_eq_def)

lemma f32_eq_lt_trans: "f32_eq x y \<Longrightarrow> f32_lt y z \<Longrightarrow> f32_lt x z"
  by (auto simp: f32_lt_def f32_eq_def)

section \<open>Conversions\<close>

text \<open>\<open>int64_t(f)\<close>: truncation; a value that does not fit is undefined behaviour.\<close>

definition rat_trunc :: "rat \<Rightarrow> int" where
  "rat_trunc q = (if q < 0 then - \<lfloor>- q\<rfloor> else \<lfloor>q\<rfloor>)"

definition f32_to_i64 :: "f32 \<Rightarrow> int res" where
  "f32_to_i64 x =
     (if f32_finite x \<and> - (2 ^ 63) \<le> rat_trunc (f32_rat x) \<and> rat_trunc (f32_rat x) < 2 ^ 63
      then Inr (rat_trunc (f32_rat x)) else Inl Undefined)"

definition pad_left :: "nat \<Rightarrow> string \<Rightarrow> string" where
  "pad_left n s = replicate (n - length s) (CHR ''0'') @ s"

definition sign_str :: "bool \<Rightarrow> string" where
  "sign_str s = (if s then ''-'' else '''')"

definition show_f_mag :: "rat \<Rightarrow> string" where
  "show_f_mag q = (let n = nat (round_half_even (q * 10 ^ 6))
                   in show_nat (n div 10 ^ 6) @ ''.'' @ pad_left 6 (show_nat (n mod 10 ^ 6)))"

fun show_f32 :: "f32 \<Rightarrow> string" where
  "show_f32 (F_NaN s) = sign_str s @ ''nan''"
| "show_f32 (F_Inf s) = sign_str s @ ''inf''"
| "show_f32 (F_Zero s) = sign_str s @ ''0.000000''"
| "show_f32 (F_Fin q) = sign_str (q < 0) @ show_f_mag \<bar>q\<bar>"

text \<open>The decimal exponent of a positive rational below one, by repeated scaling.\<close>

fun ilog10_small :: "nat \<Rightarrow> rat \<Rightarrow> int" where
  "ilog10_small 0 q = 0"
| "ilog10_small (Suc n) q = (if 1 \<le> q then 0 else ilog10_small n (q * 10) - 1)"

definition ilog10 :: "rat \<Rightarrow> int" where
  "ilog10 q = (if 1 \<le> q then int (floorlog 10 (nat \<lfloor>q\<rfloor>)) - 1 else ilog10_small 60 q)"

definition pow10 :: "int \<Rightarrow> rat" where
  "pow10 e = (if 0 \<le> e then 10 ^ nat e else 1 / 10 ^ nat (- e))"

definition strip_zeros :: "string \<Rightarrow> string" where
  "strip_zeros s = rev (dropWhile (\<lambda>c. c = CHR ''0'') (rev s))"

definition with_fraction :: "string \<Rightarrow> string \<Rightarrow> string" where
  "with_fraction i f = (let f' = strip_zeros f in if f' = [] then i else i @ ''.'' @ f')"

definition show_g_mag :: "rat \<Rightarrow> string" where
  "show_g_mag q =
     (let e0 = ilog10 q;
          n0 = nat (round_half_even (q / pow10 (e0 - 5)));
          e = (if n0 = 10 ^ 6 then e0 + 1 else e0);
          n = (if n0 = 10 ^ 6 then 10 ^ 5 else n0);
          ds = show_nat n
      in if e < -4 \<or> 6 \<le> e
         then with_fraction (take 1 ds) (drop 1 ds) @ ''e'' @ (if e < 0 then ''-'' else ''+'')
              @ pad_left 2 (show_nat (nat \<bar>e\<bar>))
         else if 0 \<le> e then with_fraction (take (nat e + 1) ds) (drop (nat e + 1) ds)
         else with_fraction ''0'' (replicate (nat (- e) - 1) (CHR ''0'') @ ds))"

fun show_g_f32 :: "f32 \<Rightarrow> string" where
  "show_g_f32 (F_NaN s) = sign_str s @ ''nan''"
| "show_g_f32 (F_Inf s) = sign_str s @ ''inf''"
| "show_g_f32 (F_Zero s) = sign_str s @ ''0''"
| "show_g_f32 (F_Fin q) = sign_str (q < 0) @ show_g_mag \<bar>q\<bar>"

section \<open>strtof\<close>

definition is_space :: "char \<Rightarrow> bool" where
  "is_space c \<longleftrightarrow> c = CHR '' '' \<or> (9 \<le> (of_char c :: nat) \<and> (of_char c :: nat) \<le> 13)"

definition to_lower :: "char \<Rightarrow> char" where
  "to_lower c = (if 65 \<le> (of_char c :: nat) \<and> (of_char c :: nat) \<le> 90 then char_of ((of_char c :: nat) + 32) else c)"

definition is_hex :: "char \<Rightarrow> bool" where
  "is_hex c \<longleftrightarrow> is_digit c \<or> (97 \<le> (of_char (to_lower c) :: nat) \<and> (of_char (to_lower c) :: nat) \<le> 102)"

definition hex_val :: "char \<Rightarrow> nat" where
  "hex_val c = (if is_digit c then digit_val c else of_char (to_lower c) - 87)"

definition radix_val :: "nat \<Rightarrow> (char \<Rightarrow> nat) \<Rightarrow> string \<Rightarrow> nat" where
  "radix_val b v s = foldl (\<lambda>a c. b * a + v c) 0 s"

text \<open>An optional exponent \<open>e[+-]digits\<close>: its value and the number of characters it takes.\<close>

definition read_exponent :: "char \<Rightarrow> string \<Rightarrow> int \<times> nat" where
  "read_exponent mark s =
     (case s of [] \<Rightarrow> (0, 0)
      | c # r \<Rightarrow>
        if to_lower c \<noteq> mark then (0, 0)
        else let sg = (case r of x # _ \<Rightarrow> if x = CHR ''-'' \<or> x = CHR ''+'' then 1 else 0 | [] \<Rightarrow> 0);
                 ds = takeWhile is_digit (drop sg r);
                 e = int (digits_val ds)
             in if ds = [] then (0, 0)
                else (if take sg r = ''-'' then - e else e, 1 + sg + length ds))"

text \<open>
  A mantissa in the given radix with an optional point and exponent: None when there is no digit;
  otherwise the magnitude and the number of characters it takes.
\<close>

definition read_number :: "nat \<Rightarrow> (char \<Rightarrow> bool) \<Rightarrow> (char \<Rightarrow> nat) \<Rightarrow> char \<Rightarrow> rat \<Rightarrow> string \<Rightarrow> (rat \<times> nat) option" where
  "read_number b isd v mark eb s =
     (let i = takeWhile isd s;
          r = drop (length i) s;
          f = (case r of [] \<Rightarrow> [] | c # r' \<Rightarrow> if c = CHR ''.'' then takeWhile isd r' else []);
          dot = (case r of [] \<Rightarrow> 0 | c # _ \<Rightarrow> if c = CHR ''.'' then 1 else 0);
          n = length i + dot + length f
      in if i = [] \<and> f = [] then None
         else let (e, k) = read_exponent mark (drop n s);
                  m = rat_of_nat (radix_val b v (i @ f)) / rat_of_nat b ^ length f
              in Some (if 0 \<le> e then m * eb ^ nat e else m / eb ^ nat (- e), n + k))"

definition starts_ci :: "string \<Rightarrow> string \<Rightarrow> bool" where
  "starts_ci p s \<longleftrightarrow> map to_lower (take (length p) s) = p"

definition read_nan_tail :: "string \<Rightarrow> nat" where
  "read_nan_tail s =
     (case s of [] \<Rightarrow> 0
      | c # r \<Rightarrow> if c \<noteq> CHR ''('' then 0
                else let w = takeWhile (\<lambda>x. x = CHR ''_'' \<or> is_digit x \<or> (97 \<le> (of_char (to_lower x) :: nat) \<and> (of_char (to_lower x) :: nat) \<le> 122)) r
                     in if take 1 (drop (length w) r) = '')'' then length w + 2 else 0)"

text \<open>
  \<open>strtof\<close> on the bytes from the pointer on (a NUL or the end of the list ends the text): the
  number of characters converted, the value, and whether \<open>errno\<close> became ERANGE (overflow, or an
  inexact result that is tiny after rounding, as glibc reports it).
\<close>

definition f32_range_error :: "rat \<Rightarrow> bool" where
  "f32_range_error q \<longleftrightarrow>
     q \<noteq> 0 \<and> (2 ^ 128 \<le> round_mag q \<or>
       (let u = pow2 (ilog2 q - 23) in of_int (round_half_even (q / u)) * u < pow2 (-126)) \<and> round_mag q \<noteq> q)"

definition strtof :: "string \<Rightarrow> nat \<times> f32 \<times> bool" where
  "strtof s0 =
     (let s1 = takeWhile (\<lambda>c. c \<noteq> CHR 0x00) s0;
          ws = length (takeWhile is_space s1);
          s2 = drop ws s1;
          sg = (case s2 of x # _ \<Rightarrow> if x = CHR ''-'' \<or> x = CHR ''+'' then 1 else 0 | [] \<Rightarrow> 0);
          neg = (take sg s2 = ''-'');
          s = drop sg s2;
          pre = ws + sg
      in if starts_ci ''infinity'' s then (pre + 8, F_Inf neg, False)
         else if starts_ci ''inf'' s then (pre + 3, F_Inf neg, False)
         else if starts_ci ''nan'' s then (pre + 3 + read_nan_tail (drop 3 s), F_NaN neg, False)
         else case (if starts_ci ''0x'' s then read_number 16 is_hex hex_val (CHR ''p'') 2 (drop 2 s) else None) of
                Some (q, n) \<Rightarrow> (pre + 2 + n, f32_round neg q, f32_range_error q)
              | None \<Rightarrow>
                (case read_number 10 is_digit digit_val (CHR ''e'') 10 s of
                   Some (q, n) \<Rightarrow> (pre + n, f32_round neg q, f32_range_error q)
                 | None \<Rightarrow> (0, F_Zero False, False)))"

end
