(* ===== verification/Values.thy ===== *)
theory Values
  imports Float32 "HOL-Library.Product_Lexorder" "HOL-Library.List_Lexorder"
begin

text \<open>
  src/core/value: the value type enumeration, pinned strings, the variant \<open>Value\<close> with its
  equality, three-way comparison, hash, substring and printing, and the cast between types with
  the strict number parsers of util/string_cast.h. Then the laws a hash container and a sort need:
  equality is an equivalence on values other than NaN, the hash agrees with it, the order is a
  strict weak order, and the cast has the target type.
\<close>

section \<open>ValueType.h\<close>

datatype ValueType = Null | Boolean | Integer | Floating | String

type_synonym i64 = "64 word"

section \<open>PinnedString.h, PinnedString.cpp\<close>

text \<open>
  \<open>pin\<close> (\<open>pin_\<close>) is the memory from the pinned pointer to the end of the buffer that holds it;
  \<open>pin_size\<close> (\<open>size_\<close>) characters of it are the string.
\<close>

record PinnedString =
  pin :: string
  pin_size :: nat

definition pinned_wf :: "PinnedString \<Rightarrow> bool" where
  "pinned_wf p \<longleftrightarrow> pin_size p \<le> length (pin p)"

definition view :: "PinnedString \<Rightarrow> string" where
  "view p = take (pin_size p) (pin p)"

text \<open>\<open>std::string::substr\<close>, with its \<open>std::out_of_range\<close>.\<close>

definition std_substr :: "string \<Rightarrow> nat \<Rightarrow> nat \<Rightarrow> string res" where
  "std_substr s pos len = (if pos \<le> length s then Inr (take len (drop pos s)) else Inl Out_Of_Range)"

text \<open>\<open>subview\<close> keeps the buffer: the view starts at \<open>pos\<close> of this string's view.\<close>

definition subview :: "PinnedString \<Rightarrow> nat \<Rightarrow> nat \<Rightarrow> PinnedString" where
  "subview p pos n = \<lparr>pin = drop pos (pin p), pin_size = n\<rparr>"

definition pinned_substr :: "PinnedString \<Rightarrow> nat \<Rightarrow> nat \<Rightarrow> PinnedString res" where
  "pinned_substr p pos len =
     rbind (std_substr (view p) pos len) (\<lambda>v. Inr (subview p pos (length v)))"

section \<open>Value.h, Value.cpp\<close>

datatype Value =
    VNull
  | VInt i64
  | VFloat f32
  | VBool bool
  | VString string
  | VPinned PinnedString

abbreviation vnull :: Value where
  "vnull \<equiv> VNull"

fun type :: "Value \<Rightarrow> ValueType" where
  "type VNull = Null"
| "type (VInt _) = Integer"
| "type (VFloat _) = Floating"
| "type (VBool _) = Boolean"
| "type (VString _) = String"
| "type (VPinned _) = String"

text \<open>\<open>std::variant::index()\<close> of the storage.\<close>

fun storage_index :: "Value \<Rightarrow> nat" where
  "storage_index VNull = 0"
| "storage_index (VInt _) = 1"
| "storage_index (VFloat _) = 2"
| "storage_index (VBool _) = 3"
| "storage_index (VString _) = 4"
| "storage_index (VPinned _) = 5"

text \<open>\<open>Value::get<T>()\<close>.\<close>

fun get_bool :: "Value \<Rightarrow> bool res" where
  "get_bool (VBool b) = Inr b"
| "get_bool _ = Inl Bad_Variant"

fun get_int :: "Value \<Rightarrow> i64 res" where
  "get_int (VInt i) = Inr i"
| "get_int _ = Inl Bad_Variant"

fun get_float :: "Value \<Rightarrow> f32 res" where
  "get_float (VFloat f) = Inr f"
| "get_float _ = Inl Bad_Variant"

fun get_string :: "Value \<Rightarrow> string res" where
  "get_string (VString s) = Inr s"
| "get_string (VPinned p) = Inr (view p)"
| "get_string _ = Inl Panic"

text \<open>\<open>operator==\<close>.\<close>

fun val_eq :: "Value \<Rightarrow> Value \<Rightarrow> bool" where
  "val_eq VNull VNull = True"
| "val_eq (VInt a) (VInt b) = (a = b)"
| "val_eq (VFloat a) (VFloat b) = f32_eq a b"
| "val_eq (VBool a) (VBool b) = (a = b)"
| "val_eq (VString a) (VString b) = (a = b)"
| "val_eq (VPinned a) (VPinned b) = (view a = view b)"
| "val_eq (VPinned a) (VString b) = (view a = b)"
| "val_eq (VString a) (VPinned b) = (a = view b)"
| "val_eq _ _ = False"

text \<open>Three-way comparisons of the alternatives; \<open>std::string_view\<close> compares unsigned bytes.\<close>

definition int_cmp :: "int \<Rightarrow> int \<Rightarrow> partial_ordering" where
  "int_cmp a b = (if a < b then PLess else if a = b then PEquivalent else PGreater)"

fun str_cmp :: "string \<Rightarrow> string \<Rightarrow> partial_ordering" where
  "str_cmp [] [] = PEquivalent"
| "str_cmp [] (_ # _) = PLess"
| "str_cmp (_ # _) [] = PGreater"
| "str_cmp (a # s) (b # t) =
     (if (of_char a :: nat) < of_char b then PLess
      else if (of_char b :: nat) < of_char a then PGreater else str_cmp s t)"

text \<open>\<open>operator<=>\<close>.\<close>

fun val_cmp :: "Value \<Rightarrow> Value \<Rightarrow> partial_ordering" where
  "val_cmp VNull VNull = PEquivalent"
| "val_cmp (VInt a) (VInt b) = int_cmp (sint a) (sint b)"
| "val_cmp (VFloat a) (VFloat b) = f32_cmp a b"
| "val_cmp (VBool a) (VBool b) = int_cmp (if a then 1 else 0) (if b then 1 else 0)"
| "val_cmp (VString a) (VString b) = str_cmp a b"
| "val_cmp (VPinned a) (VPinned b) = str_cmp (view a) (view b)"
| "val_cmp (VPinned a) (VString b) = str_cmp (view a) b"
| "val_cmp (VString a) (VPinned b) = str_cmp a (view b)"
| "val_cmp l r = int_cmp (int (storage_index l)) (int (storage_index r))"

definition val_less :: "Value \<Rightarrow> Value \<Rightarrow> bool" where
  "val_less a b \<longleftrightarrow> val_cmp a b = PLess"

text \<open>
  \<open>std::vector<Value>\<close> comparison: lexicographic three-way, stopping at the first element that is
  not equivalent; \<open>a < b\<close> is \<open>(a <=> b) < 0\<close>.
\<close>

fun key_cmp :: "Value list \<Rightarrow> Value list \<Rightarrow> partial_ordering" where
  "key_cmp [] [] = PEquivalent"
| "key_cmp [] (_ # _) = PLess"
| "key_cmp (_ # _) [] = PGreater"
| "key_cmp (a # s) (b # t) = (if val_cmp a b = PEquivalent then key_cmp s t else val_cmp a b)"

definition key_less :: "Value list \<Rightarrow> Value list \<Rightarrow> bool" where
  "key_less a b \<longleftrightarrow> key_cmp a b = PLess"

definition key_eq :: "Value list \<Rightarrow> Value list \<Rightarrow> bool" where
  "key_eq = list_all2 val_eq"

text \<open>
  \<open>std::hash\<close> of the standard library: one function per type. Its documented contract is that
  equal arguments have equal hashes; it is used as the hypothesis \<open>std_hash_ok\<close>.
\<close>

record std_hash =
  hash_i64 :: "i64 \<Rightarrow> 64 word"
  hash_float :: "f32 \<Rightarrow> 64 word"
  hash_bool :: "bool \<Rightarrow> 64 word"
  hash_sv :: "string \<Rightarrow> 64 word"
  hash_size :: "64 word \<Rightarrow> 64 word"

definition std_hash_ok :: "std_hash \<Rightarrow> bool" where
  "std_hash_ok H \<longleftrightarrow> (\<forall>a b. f32_eq a b \<longrightarrow> hash_float H a = hash_float H b)"

definition hash_mix :: "64 word \<Rightarrow> 64 word \<Rightarrow> 64 word" where
  "hash_mix seed v = xor seed (v + 0x9e3779b9 + push_bit 6 seed + drop_bit 2 seed)"

fun hash_alt :: "std_hash \<Rightarrow> Value \<Rightarrow> 64 word" where
  "hash_alt H VNull = 0x9e3779b9"
| "hash_alt H (VInt i) = hash_i64 H i"
| "hash_alt H (VFloat f) = hash_float H f"
| "hash_alt H (VBool b) = hash_bool H b"
| "hash_alt H (VString s) = hash_sv H s"
| "hash_alt H (VPinned p) = hash_sv H (view p)"

definition val_hash :: "std_hash \<Rightarrow> Value \<Rightarrow> 64 word" where
  "val_hash H v = hash_mix (hash_alt H v) (hash_size H (of_nat (min (storage_index v) 4)))"

definition key_hash :: "std_hash \<Rightarrow> Value list \<Rightarrow> 64 word" where
  "key_hash H vs = foldl (\<lambda>seed v. hash_mix seed (val_hash H v)) (of_nat (length vs)) vs"

fun val_substr :: "Value \<Rightarrow> nat \<Rightarrow> nat \<Rightarrow> Value res" where
  "val_substr (VString s) pos len = rbind (std_substr s pos len) (\<lambda>t. Inr (VString t))"
| "val_substr (VPinned p) pos len = rbind (pinned_substr p pos len) (\<lambda>q. Inr (VPinned q))"
| "val_substr _ _ _ = Inl Panic"

fun val_to_string :: "Value \<Rightarrow> string" where
  "val_to_string VNull = ''null''"
| "val_to_string (VBool b) = (if b then ''true'' else ''false'')"
| "val_to_string (VInt i) = show_int (sint i)"
| "val_to_string (VFloat f) = show_f32 f"
| "val_to_string (VString s) = s"
| "val_to_string (VPinned p) = view p"

section \<open>util/string_cast.h\<close>

text \<open>
  \<open>std::from_chars\<close> on the whole view: an optional minus, at least one digit, nothing after, and
  a value of the type.
\<close>

definition parseInt64Strict :: "string \<Rightarrow> i64 option" where
  "parseInt64Strict s =
     (let neg = (take 1 s = ''-'');
          ds = (if neg then drop 1 s else s);
          v = (if neg then - int (digits_val ds) else int (digits_val ds))
      in if ds = [] \<or> \<not> list_all is_digit ds \<or> v < - (2 ^ 63) \<or> 2 ^ 63 \<le> v then None
         else Some (word_of_int v))"

text \<open>
  \<open>parseFloatStrict\<close> hands the bare pointer to \<open>strtof\<close>: it reads the memory behind the view
  (\<open>mem\<close>), not only its \<open>n\<close> characters.
\<close>

definition parseFloatStrict :: "string \<Rightarrow> nat \<Rightarrow> f32 option" where
  "parseFloatStrict mem n =
     (let (used, v, erange) = strtof mem
      in if used \<noteq> n then None else if erange then None
         else if \<not> f32_finite v then None else Some v)"

text \<open>The memory a string value's data pointer can be read from, and the view's size.\<close>

fun val_memory :: "Value \<Rightarrow> string \<times> nat" where
  "val_memory (VString s) = (s, length s)"
| "val_memory (VPinned p) = (pin p, pin_size p)"
| "val_memory _ = ([], 0)"

section \<open>cast.cpp\<close>

fun cast :: "Value \<Rightarrow> ValueType \<Rightarrow> Value option res" where
  "cast VNull _ = Inr (Some vnull)"
| "cast (VInt i) to =
     (case to of
        String \<Rightarrow> Inr (Some (VString (show_int (sint i))))
      | Integer \<Rightarrow> Inr (Some (VInt i))
      | Boolean \<Rightarrow> Inr (Some (VBool (i \<noteq> 0)))
      | Floating \<Rightarrow> Inr (Some (VFloat (f32_of_int (sint i))))
      | Null \<Rightarrow> Inr (Some vnull))"
| "cast (VFloat f) to =
     (case to of
        String \<Rightarrow> Inr (Some (VString (show_f32 f)))
      | Integer \<Rightarrow> rbind (f32_to_i64 f) (\<lambda>i. Inr (Some (VInt (word_of_int i))))
      | Boolean \<Rightarrow> Inr (Some (VBool (\<not> f32_eq f (F_Zero False))))
      | Floating \<Rightarrow> Inr (Some (VFloat f))
      | Null \<Rightarrow> Inr (Some vnull))"
| "cast (VBool b) to =
     (case to of
        String \<Rightarrow> Inr (Some (VString (if b then ''true'' else ''false'')))
      | Integer \<Rightarrow> Inr (Some (VInt (if b then 1 else 0)))
      | Boolean \<Rightarrow> Inr (Some (VBool b))
      | Floating \<Rightarrow> Inr (Some (VFloat (if b then F_Fin 1 else F_Zero False)))
      | Null \<Rightarrow> Inr (Some vnull))"
| "cast v to =
     (case to of
        String \<Rightarrow> Inr (Some v)
      | Integer \<Rightarrow> rbind (get_string v) (\<lambda>s. Inr (map_option VInt (parseInt64Strict s)))
      | Boolean \<Rightarrow> rbind (get_string v) (\<lambda>s. Inr (Some (VBool (s \<noteq> []))))
      | Floating \<Rightarrow> Inr (map_option VFloat (parseFloatStrict (fst (val_memory v)) (snd (val_memory v))))
      | Null \<Rightarrow> Inr (Some vnull))"

section \<open>Order and equality\<close>

fun val_nan :: "Value \<Rightarrow> bool" where
  "val_nan (VFloat f) = f32_nan f"
| "val_nan _ = False"

abbreviation no_nan :: "Value list \<Rightarrow> bool" where
  "no_nan k \<equiv> \<forall>v \<in> set k. \<not> val_nan v"

text \<open>A rank in a linear order that the comparison of values other than NaN follows.\<close>

fun val_rank :: "Value \<Rightarrow> nat \<times> int \<times> rat \<times> nat list" where
  "val_rank VNull = (0, 0, 0, [])"
| "val_rank (VInt i) = (1, sint i, 0, [])"
| "val_rank (VFloat f) = (2, f32_side f, f32_rat f, [])"
| "val_rank (VBool b) = (3, if b then 1 else 0, 0, [])"
| "val_rank (VString s) = (4, 0, 0, map of_char s)"
| "val_rank (VPinned p) = (4, 0, 0, map of_char (view p))"

definition po_of :: "'a::linorder \<Rightarrow> 'a \<Rightarrow> partial_ordering" where
  "po_of a b = (if a < b then PLess else if a = b then PEquivalent else PGreater)"

lemma po_of_simps [simp]:
  "po_of a b = PLess \<longleftrightarrow> a < b"
  "po_of a b = PEquivalent \<longleftrightarrow> a = b"
  "po_of a b = PGreater \<longleftrightarrow> b < a"
  "po_of a b \<noteq> PUnordered"
  by (auto simp: po_of_def)

lemma sint_eq [simp]: "sint a = sint b \<longleftrightarrow> a = b"
  by (auto intro: signed_word_eqI)

lemma map_of_char_eq [simp]: "map (of_char :: char \<Rightarrow> nat) s = map of_char t \<longleftrightarrow> s = t"
  by (rule inj_map_eq_map) (simp add: inj_def)

lemma str_cmp_po: "str_cmp s t = po_of (map (of_char :: char \<Rightarrow> nat) s) (map of_char t)"
  by (induction s t rule: str_cmp.induct) (auto simp: po_of_def)

lemma int_cmp_po: "int_cmp a b = po_of a b"
  by (simp add: int_cmp_def po_of_def)

lemma f32_cmp_po:
  "\<not> f32_nan a \<Longrightarrow> \<not> f32_nan b \<Longrightarrow> f32_cmp a b = po_of (f32_side a, f32_rat a) (f32_side b, f32_rat b)"
  by (auto simp: f32_cmp_def f32_lt_def f32_eq_def po_of_def)

lemma val_cmp_po:
  assumes "\<not> val_nan a" "\<not> val_nan b"
  shows "val_cmp a b = po_of (val_rank a) (val_rank b)"
  using assms
  by (induction a b rule: val_cmp.induct)
    (auto simp: str_cmp_po int_cmp_po f32_cmp_po po_of_def)

lemma val_eq_rank:
  assumes "\<not> val_nan a" "\<not> val_nan b"
  shows "val_eq a b \<longleftrightarrow> val_rank a = val_rank b"
  using assms by (induction a b rule: val_eq.induct) (auto simp: f32_eq_def split: if_splits)

lemma f32_cmp_equivalent: "f32_cmp a b = PEquivalent \<longleftrightarrow> f32_eq a b"
  by (auto simp: f32_cmp_def f32_lt_def f32_eq_def)

lemma val_cmp_equivalent: "val_cmp a b = PEquivalent \<longleftrightarrow> val_eq a b"
  by (induction a b rule: val_eq.induct)
    (auto simp: str_cmp_po int_cmp_po f32_cmp_equivalent split: if_splits)

lemma key_cmp_po:
  assumes "no_nan a" "no_nan b"
  shows "key_cmp a b = po_of (map val_rank a) (map val_rank b)"
  using assms
proof (induction a b rule: key_cmp.induct)
  case (4 a s b t)
  then show ?case by (cases "val_rank a = val_rank b") (auto simp: val_cmp_po po_of_def)
qed (auto simp: po_of_def)

lemma key_less_rank: "no_nan a \<Longrightarrow> no_nan b \<Longrightarrow> key_less a b \<longleftrightarrow> map val_rank a < map val_rank b"
  by (simp add: key_less_def key_cmp_po)

lemma key_eq_rank:
  "no_nan a \<Longrightarrow> no_nan b \<Longrightarrow> key_eq a b \<longleftrightarrow> map val_rank a = map val_rank b"
proof (induction a arbitrary: b)
  case Nil
  then show ?case by (auto simp: key_eq_def)
next
  case (Cons x xs)
  then show ?case by (cases b) (auto simp: key_eq_def val_eq_rank)
qed

lemma val_eq_nan: "val_eq a b \<Longrightarrow> \<not> val_nan a \<and> \<not> val_nan b"
  by (induction a b rule: val_eq.induct) (auto simp: f32_eq_def)

lemma val_eq_refl [simp]: "val_eq a a \<longleftrightarrow> \<not> val_nan a"
  by (cases a) auto

lemma val_eq_sym: "val_eq a b = val_eq b a"
  using val_eq_nan val_eq_rank by metis

lemma val_eq_trans: "val_eq a b \<Longrightarrow> val_eq b c \<Longrightarrow> val_eq a c"
  using val_eq_nan val_eq_rank by metis

lemma val_eq_null [simp]: "val_eq v VNull \<longleftrightarrow> v = VNull" "val_eq VNull v \<longleftrightarrow> v = VNull"
  by (cases v; simp)+

lemma val_eq_type: "val_eq a b \<Longrightarrow> type a = type b"
  by (induction a b rule: val_eq.induct) auto

lemma val_eq_hash: "std_hash_ok H \<Longrightarrow> val_eq a b \<Longrightarrow> val_hash H a = val_hash H b"
  by (induction a b rule: val_eq.induct) (auto simp: val_hash_def std_hash_ok_def)

lemma key_eq_hash: "std_hash_ok H \<Longrightarrow> key_eq a b \<Longrightarrow> key_hash H a = key_hash H b"
proof -
  assume H: "std_hash_ok H"
  have "list_all2 val_eq a b \<Longrightarrow>
    foldl (\<lambda>seed v. hash_mix seed (val_hash H v)) s a = foldl (\<lambda>seed v. hash_mix seed (val_hash H v)) s b" for s
    by (induction arbitrary: s rule: list_all2_induct) (auto simp: val_eq_hash [OF H])
  moreover assume "key_eq a b"
  ultimately show ?thesis
    by (auto simp: key_eq_def key_hash_def list_all2_lengthD)
qed

section \<open>Casts\<close>

lemma type_Null [simp]: "type v = Null \<longleftrightarrow> v = VNull"
  by (cases v) auto

lemma cast_same_type: "type v = t \<Longrightarrow> cast v t = Inr (Some v)"
  by (cases v) auto

lemma get_string_type: "type v = String \<Longrightarrow> \<exists>s. get_string v = Inr s"
  by (cases v) auto

lemma cast_type: "cast v t = Inr (Some w) \<Longrightarrow> type w = t \<or> w = VNull"
  by (cases v; cases t) auto

lemma show_int_ne [simp]: "show_int i \<noteq> []"
  by (simp add: show_int_def)

lemma parse_show_int:
  assumes "- (2 ^ 63) \<le> i" "i < 2 ^ 63"
  shows "parseInt64Strict (show_int i) = Some (word_of_int i)"
proof (cases "i < 0")
  case True
  with assms show ?thesis
    by (simp add: parseInt64Strict_def show_int_def show_nat_digits Let_def)
next
  case False
  have "hd (show_nat (nat i)) \<noteq> CHR ''-''"
    using hd_show_nat [of "nat i"] by auto
  then have "take 1 (show_nat (nat i)) \<noteq> ''-''"
    by (cases "show_nat (nat i)") auto
  with False assms show ?thesis
    by (simp add: parseInt64Strict_def show_int_def show_nat_digits Let_def)
qed

lemma sint_i64_range: "- (2 ^ 63) \<le> sint (i :: i64)" "sint (i :: i64) < 2 ^ 63"
  using sint_greater_eq [of i] sint_less [of i] by simp_all

section \<open>Properties\<close>

text \<open>C38: Keys that compare equal have equal hashes, also when a string is owned on one side and
  pinned in a file page on the other; the hash containers of the joins and groups rely on it.\<close>

theorem key_hash_respects_equality:
  assumes "std_hash_ok H" and "key_eq a b"
  shows "key_hash H a = key_hash H b"
  by (rule key_eq_hash [OF assms])

theorem key_hash_respects_equality_witness:
  "key_hash \<lparr>hash_i64 = (\<lambda>i. i), hash_float = (\<lambda>f. if f32_eq f (F_Zero False) then 0 else 1), hash_bool = (\<lambda>b. 0),
      hash_sv = (\<lambda>s. of_nat (length s)), hash_size = (\<lambda>w. w)\<rparr> [VString ''ab'', VFloat (F_Zero True)] =
   key_hash \<lparr>hash_i64 = (\<lambda>i. i), hash_float = (\<lambda>f. if f32_eq f (F_Zero False) then 0 else 1), hash_bool = (\<lambda>b. 0),
      hash_sv = (\<lambda>s. of_nat (length s)), hash_size = (\<lambda>w. w)\<rparr>
      [VPinned \<lparr>pin = ''abc'', pin_size = 2\<rparr>, VFloat (F_Zero False)]"
  by (rule key_hash_respects_equality) (auto simp: std_hash_ok_def key_eq_def view_def f32_eq_def f32_lt_def)

text \<open>On keys without NaN the lexicographic comparison is a strict weak order whose
  incomparable keys are the equal ones, which the sort and the queue of TopK need.\<close>

theorem key_less_strict_weak_order:
  assumes "no_nan a" "no_nan b" "no_nan c"
  shows "(key_less a b \<longrightarrow> \<not> key_less b a) \<and> (key_less a b \<and> key_less b c \<longrightarrow> key_less a c) \<and>
    (\<not> key_less a b \<and> \<not> key_less b a \<longleftrightarrow> key_eq a b)"
  using assms by (auto simp: key_less_rank key_eq_rank)

theorem key_less_strict_weak_order_witness: "key_less [VInt 1] [VString ''b'']"
proof -
  have "key_less [VInt 1] [VString ''a''] \<and> key_less [VString ''a''] [VString ''b'']"
    by (simp add: key_less_def int_cmp_def)
  moreover have "no_nan [VInt 1]" "no_nan [VString ''a'']" "no_nan [VString ''b'']" by simp_all
  ultimately show ?thesis
    using key_less_strict_weak_order [of "[VInt 1]" "[VString ''a'']" "[VString ''b'']"] by blast
qed

text \<open>Casting an integer to a string and the string back gives the integer, at every 64-bit value.\<close>

theorem cast_int_string_roundtrip:
  "rbind (cast (VInt i) String) (\<lambda>r. case r of Some w \<Rightarrow> cast w Integer | None \<Rightarrow> Inr None) = Inr (Some (VInt i))"
  using parse_show_int [OF sint_i64_range, of i] by simp

end
