(* ===== verification/Functions.thy ===== *)
theory Functions
  imports Values
begin

text \<open>
  src/core/function and src/core/time_formats: the built-in functions, the executors of the scalar
  ones, the aggregators of the aggregate ones, and the two builders that select them by type.
  Regular expressions (reflex), JSON access (simdjson) and the C library's \<open>mktime\<close> are not code of
  the repository: they are the fields of \<open>ext\<close>, a parameter of every definition that uses them.
\<close>

section \<open>Parameters: third-party code\<close>

datatype json_type = J_String | J_Number | J_Boolean | J_Array | J_Object | J_Null

record tm =
  tm_year :: int
  tm_mon :: int
  tm_mday :: int
  tm_hour :: int
  tm_min :: int
  tm_sec :: int

text \<open>
  \<open>rx_ok\<close>: the pattern compiles; \<open>rx_matches\<close>/\<open>rx_find\<close>: \<open>Matcher::matches\<close> and the first and
  size of \<open>Matcher::find\<close>. The JSON fields are \<open>at_pointer\<close> (text, pointer) followed by the
  accessor, None for an error code. \<open>mktime\<close> depends on the time zone of the process.
\<close>

record ext =
  rx_ok :: "string \<Rightarrow> bool"
  rx_matches :: "string \<Rightarrow> string \<Rightarrow> bool"
  rx_find :: "string \<Rightarrow> string \<Rightarrow> (nat \<times> nat) option"
  json_type_at :: "string \<Rightarrow> string \<Rightarrow> json_type option"
  json_string_at :: "string \<Rightarrow> string \<Rightarrow> string option"
  json_token_at :: "string \<Rightarrow> string \<Rightarrow> string option"
  json_bool_at :: "string \<Rightarrow> string \<Rightarrow> bool option"
  json_raw_at :: "string \<Rightarrow> string \<Rightarrow> string option"
  mktime :: "tm \<Rightarrow> i64"

section \<open>time_formats.h, time_formats/*.cpp\<close>

datatype TimeFormat = SQL | ORACLE | ISO8601

text \<open>A class escape repeated: a backslash, the letter of the class and a count in braces.\<close>

definition rx_class :: "char \<Rightarrow> string \<Rightarrow> string" where
  "rx_class c n = CHR 0x5C # c # ''{'' @ n @ ''}''"

definition rx_d :: "string \<Rightarrow> string" where
  "rx_d = rx_class (CHR ''d'')"

fun timeFormatRegex :: "TimeFormat \<Rightarrow> string" where
  "timeFormatRegex SQL = rx_d ''4'' @ ''-'' @ rx_d ''2'' @ ''-'' @ rx_d ''2'' @ '' ''
     @ rx_d ''2'' @ '':'' @ rx_d ''2'' @ '':'' @ rx_d ''2''"
| "timeFormatRegex ORACLE = rx_d ''4'' @ ''-'' @ rx_class (CHR ''w'') ''3'' @ ''-'' @ rx_d ''2'' @ '' ''
     @ rx_d ''2'' @ '':'' @ rx_d ''2'' @ '':'' @ rx_d ''2''"
| "timeFormatRegex ISO8601 = rx_d ''4'' @ ''-'' @ rx_d ''2'' @ ''-'' @ rx_d ''2'' @ ''T''
     @ rx_d ''2'' @ '':'' @ rx_d ''2'' @ '':'' @ rx_d ''2''"

text \<open>\<open>char\<close> is signed on the supported platforms.\<close>

definition char_int :: "char \<Rightarrow> int" where
  "char_int c = (let n = of_char c in if n < 128 then n else n - 256)"

text \<open>\<open>(s[i] - '0') * 10 + (s[i + 1] - '0')\<close>.\<close>

definition digit_at :: "string \<Rightarrow> nat \<Rightarrow> int" where
  "digit_at s i = char_int (s ! i) - 48"

definition two_at :: "string \<Rightarrow> nat \<Rightarrow> int" where
  "two_at s i = digit_at s i * 10 + digit_at s (i + 1)"

definition year_at :: "string \<Rightarrow> int" where
  "year_at s = digit_at s 0 * 1000 + digit_at s 1 * 100 + digit_at s 2 * 10 + digit_at s 3 - 1900"

definition tm_numeric :: "string \<Rightarrow> tm" where
  "tm_numeric s = \<lparr>tm_year = year_at s, tm_mon = two_at s 5 - 1, tm_mday = two_at s 8,
     tm_hour = two_at s 11, tm_min = two_at s 14, tm_sec = two_at s 17\<rparr>"

definition month_names :: "string list" where
  "month_names = [''Jan'', ''Feb'', ''Mar'', ''Apr'', ''May'', ''Jun'',
                  ''Jul'', ''Aug'', ''Sep'', ''Oct'', ''Nov'', ''Dec'']"

fun month_index :: "string list \<Rightarrow> string \<Rightarrow> int \<Rightarrow> int" where
  "month_index [] m i = -1"
| "month_index (n # ns) m i = (if n = m then i else month_index ns m (i + 1))"

definition tm_oracle :: "string \<Rightarrow> tm" where
  "tm_oracle s = \<lparr>tm_year = year_at s, tm_mon = month_index month_names [s ! 5, s ! 6, s ! 7] 0,
     tm_mday = two_at s 9, tm_hour = two_at s 12, tm_min = two_at s 15, tm_sec = two_at s 18\<rparr>"

text \<open>Indexing a string view past its end is undefined; the size checks exist in debug builds only.\<close>

fun timestampFromString :: "ext \<Rightarrow> string \<Rightarrow> TimeFormat \<Rightarrow> i64 res" where
  "timestampFromString X s ORACLE = (if 20 \<le> length s then Inr (mktime X (tm_oracle s)) else Inl Undefined)"
| "timestampFromString X s f = (if 19 \<le> length s then Inr (mktime X (tm_numeric s)) else Inl Undefined)"

section \<open>Function.h\<close>

datatype Function =
    Lower_fn
  | SplitPart_fn char nat
  | Substr_fn nat nat
  | Coalesce_fn
  | RSubstr_fn string
  | Like_fn string
  | Cast_fn ValueType
  | JSONValue_fn string
  | ParseTimestamp_fn TimeFormat
  | BooleanNegate_fn
  | Equal_fn
  | NotEqual_fn
  | Less_fn ValueType
  | Greater_fn ValueType
  | LessEqual_fn ValueType
  | GreaterEqual_fn ValueType
  | And_fn
  | Or_fn
  | Divide_fn ValueType
  | Add_fn ValueType
  | Subtract_fn ValueType
  | Percentile_fn "f32 list" ValueType
  | CountNonNull_fn
  | CountAll_fn
  | Min_fn ValueType
  | Max_fn ValueType
  | Sum_fn ValueType

fun isScalar :: "Function \<Rightarrow> bool" where
  "isScalar (Percentile_fn _ _) = False"
| "isScalar CountNonNull_fn = False"
| "isScalar CountAll_fn = False"
| "isScalar (Min_fn _) = False"
| "isScalar (Max_fn _) = False"
| "isScalar (Sum_fn _) = False"
| "isScalar _ = True"

section \<open>Concepts.h\<close>

definition Dividable :: "ValueType \<Rightarrow> bool" where
  "Dividable t \<longleftrightarrow> t = Integer \<or> t = Floating"

definition Addable :: "ValueType \<Rightarrow> bool" where
  "Addable t \<longleftrightarrow> t = Integer \<or> t = Floating \<or> t = String"

definition Subtractable :: "ValueType \<Rightarrow> bool" where
  "Subtractable t \<longleftrightarrow> t = Integer \<or> t = Floating"

definition Comparable :: "ValueType \<Rightarrow> bool" where
  "Comparable t \<longleftrightarrow> t = Integer \<or> t = Floating \<or> t = String"

section \<open>build/*.h: the scalar executors\<close>

text \<open>
  \<open>value.get<T>()\<close> for the type a template is instantiated at, as a value of exactly that type
  (a string view copied into a string).
\<close>

fun get_as :: "ValueType \<Rightarrow> Value \<Rightarrow> Value res" where
  "get_as Null v = (if v = VNull then Inr VNull else Inl Bad_Variant)"
| "get_as Boolean v = rbind (get_bool v) (\<lambda>b. Inr (VBool b))"
| "get_as Integer v = rbind (get_int v) (\<lambda>i. Inr (VInt i))"
| "get_as Floating v = rbind (get_float v) (\<lambda>f. Inr (VFloat f))"
| "get_as String v = rbind (get_string v) (\<lambda>s. Inr (VString s))"

text \<open>Signed 64-bit arithmetic: overflow is undefined behaviour.\<close>

definition i64_of :: "int \<Rightarrow> i64 res" where
  "i64_of i = (if - (2 ^ 63) \<le> i \<and> i < 2 ^ 63 then Inr (word_of_int i) else Inl Undefined)"

definition trunc_div :: "int \<Rightarrow> int \<Rightarrow> int" where
  "trunc_div a b = sgn a * sgn b * (\<bar>a\<bar> div \<bar>b\<bar>)"

fun add_T :: "Value \<Rightarrow> Value \<Rightarrow> Value res" where
  "add_T (VInt a) (VInt b) = rbind (i64_of (sint a + sint b)) (\<lambda>i. Inr (VInt i))"
| "add_T (VFloat a) (VFloat b) = Inr (VFloat (f32_add a b))"
| "add_T (VString a) (VString b) = Inr (VString (a @ b))"
| "add_T _ _ = Inl Bad_Variant"

fun sub_T :: "Value \<Rightarrow> Value \<Rightarrow> Value res" where
  "sub_T (VInt a) (VInt b) = rbind (i64_of (sint a - sint b)) (\<lambda>i. Inr (VInt i))"
| "sub_T (VFloat a) (VFloat b) = Inr (VFloat (f32_sub a b))"
| "sub_T _ _ = Inl Bad_Variant"

fun div_T :: "Value \<Rightarrow> Value \<Rightarrow> Value res" where
  "div_T (VInt a) (VInt b) =
     (if b = 0 then Inr vnull else rbind (i64_of (trunc_div (sint a) (sint b))) (\<lambda>i. Inr (VInt i)))"
| "div_T (VFloat a) (VFloat b) =
     (if f32_eq b (F_Zero False) then Inr vnull else Inr (VFloat (f32_div a b)))"
| "div_T _ _ = Inl Bad_Variant"

text \<open>The null check and the two typed reads the arithmetic executors share.\<close>

definition null_or2 :: "ValueType \<Rightarrow> (Value \<Rightarrow> Value \<Rightarrow> Value res) \<Rightarrow> Value \<Rightarrow> Value \<Rightarrow> Value res" where
  "null_or2 T op l r =
     (if val_eq l vnull \<or> val_eq r vnull then Inr vnull
      else rbind (get_as T l) (\<lambda>a. rbind (get_as T r) (\<lambda>b. op a b)))"

definition AddExecutor :: "ValueType \<Rightarrow> Value \<Rightarrow> Value \<Rightarrow> Value res" where
  "AddExecutor T l r = null_or2 T add_T l r"

definition SubtractExecutor :: "ValueType \<Rightarrow> Value \<Rightarrow> Value \<Rightarrow> Value res" where
  "SubtractExecutor T l r = null_or2 T sub_T l r"

definition DivideExecutor :: "ValueType \<Rightarrow> Value \<Rightarrow> Value \<Rightarrow> Value res" where
  "DivideExecutor T l r = null_or2 T div_T l r"

definition AndExecutor :: "Value \<Rightarrow> Value \<Rightarrow> Value res" where
  "AndExecutor a b = rbind (get_bool a) (\<lambda>x. if x then rbind (get_bool b) (\<lambda>y. Inr (VBool y)) else Inr (VBool False))"

definition OrExecutor :: "Value \<Rightarrow> Value \<Rightarrow> Value res" where
  "OrExecutor a b = rbind (get_bool a) (\<lambda>x. if x then Inr (VBool True) else rbind (get_bool b) (\<lambda>y. Inr (VBool y)))"

definition BooleanNegateExecutor :: "Value \<Rightarrow> Value res" where
  "BooleanNegateExecutor v = rbind (get_bool v) (\<lambda>b. Inr (VBool (\<not> b)))"

definition EqualExecutor :: "Value \<Rightarrow> Value \<Rightarrow> Value res" where
  "EqualExecutor a b = Inr (VBool (val_eq a b))"

definition NotEqualExecutor :: "Value \<Rightarrow> Value \<Rightarrow> Value res" where
  "NotEqualExecutor a b = Inr (VBool (\<not> val_eq a b))"

text \<open>The relational operators on two values of one comparable type.\<close>

definition compareExecutor :: "(partial_ordering \<Rightarrow> bool) \<Rightarrow> ValueType \<Rightarrow> Value \<Rightarrow> Value \<Rightarrow> Value res" where
  "compareExecutor test T l r =
     rbind (get_as T l) (\<lambda>a. rbind (get_as T r) (\<lambda>b. Inr (VBool (test (val_cmp a b)))))"

definition LessExecutor :: "ValueType \<Rightarrow> Value \<Rightarrow> Value \<Rightarrow> Value res" where
  "LessExecutor = compareExecutor (\<lambda>c. c = PLess)"

definition GreaterExecutor :: "ValueType \<Rightarrow> Value \<Rightarrow> Value \<Rightarrow> Value res" where
  "GreaterExecutor = compareExecutor (\<lambda>c. c = PGreater)"

definition LessEqualExecutor :: "ValueType \<Rightarrow> Value \<Rightarrow> Value \<Rightarrow> Value res" where
  "LessEqualExecutor = compareExecutor (\<lambda>c. c = PLess \<or> c = PEquivalent)"

definition GreaterEqualExecutor :: "ValueType \<Rightarrow> Value \<Rightarrow> Value \<Rightarrow> Value res" where
  "GreaterEqualExecutor = compareExecutor (\<lambda>c. c = PGreater \<or> c = PEquivalent)"

definition CastExecutor :: "ValueType \<Rightarrow> Value \<Rightarrow> Value res" where
  "CastExecutor t v = rbind (cast v t) (\<lambda>r. Inr (case r of None \<Rightarrow> vnull | Some w \<Rightarrow> w))"

fun CoalesceExecutor :: "Value list \<Rightarrow> Value res" where
  "CoalesceExecutor [] = Inr vnull"
| "CoalesceExecutor (v # vs) = (if \<not> val_eq v vnull then Inr v else CoalesceExecutor vs)"

definition LowerExecutor :: "Value \<Rightarrow> Value res" where
  "LowerExecutor v =
     (if val_eq v vnull then Inr vnull
      else rbind (get_string v) (\<lambda>s. Inr (VString (map to_lower s))))"

text \<open>The loop of SplitPart: skip \<open>index\<close> separators; None when one is missing.\<close>

fun split_skip :: "char \<Rightarrow> nat \<Rightarrow> string \<Rightarrow> nat \<Rightarrow> (string \<times> nat) option" where
  "split_skip sep 0 cur offset = Some (cur, offset)"
| "split_skip sep (Suc i) cur offset =
     (case find_char sep cur of
        None \<Rightarrow> None
      | Some p \<Rightarrow> split_skip sep i (drop (p + 1) cur) (offset + p + 1))"

definition SplitPartExecutor :: "char \<Rightarrow> nat \<Rightarrow> Value \<Rightarrow> Value res" where
  "SplitPartExecutor sep index v =
     (if val_eq v vnull then Inr vnull
      else rbind (get_string v) (\<lambda>s.
        case split_skip sep index s 0 of
          None \<Rightarrow> Inr vnull
        | Some (cur, offset) \<Rightarrow>
            val_substr v offset (case find_char sep cur of None \<Rightarrow> 2 ^ 64 - 1 | Some p \<Rightarrow> p)))"

definition SubstrExecutor :: "nat \<Rightarrow> nat \<Rightarrow> Value \<Rightarrow> Value res" where
  "SubstrExecutor from len v = val_substr v from len"

definition LikeExecutor :: "ext \<Rightarrow> string \<Rightarrow> Value \<Rightarrow> Value res" where
  "LikeExecutor X regex v = rbind (get_string v) (\<lambda>s. Inr (VBool (rx_matches X regex s)))"

definition RSubstrExecutor :: "ext \<Rightarrow> string \<Rightarrow> Value \<Rightarrow> Value res" where
  "RSubstrExecutor X regex v =
     rbind (get_string v) (\<lambda>s.
       case rx_find X regex s of None \<Rightarrow> Inr vnull | Some (first, n) \<Rightarrow> val_substr v first n)"

definition ParseTimestampExecutor :: "ext \<Rightarrow> TimeFormat \<Rightarrow> Value \<Rightarrow> Value res" where
  "ParseTimestampExecutor X f v =
     (if val_eq v vnull then Inr vnull
      else rbind (get_string v) (\<lambda>s. rbind (timestampFromString X s f) (\<lambda>t. Inr (VInt t))))"

text \<open>\<open>substr(0, find_last_not_of(whitespace) + 1)\<close>.\<close>

definition trim_right :: "string \<Rightarrow> string" where
  "trim_right s = rev (dropWhile (\<lambda>c. c \<in> {CHR '' '', CHR 0x09, CHR 0x0D, CHR 0x0A}) (rev s))"

definition str_or_null :: "string option \<Rightarrow> Value" where
  "str_or_null r = (case r of None \<Rightarrow> vnull | Some s \<Rightarrow> VString s)"

definition JSONValueExecutor :: "ext \<Rightarrow> string \<Rightarrow> Value \<Rightarrow> Value res" where
  "JSONValueExecutor X path v =
     (if val_eq v vnull then Inr vnull
      else rbind (get_string v) (\<lambda>json. Inr (
        case json_type_at X json path of
          None \<Rightarrow> vnull
        | Some J_String \<Rightarrow> str_or_null (json_string_at X json path)
        | Some J_Number \<Rightarrow> str_or_null (map_option trim_right (json_token_at X json path))
        | Some J_Boolean \<Rightarrow>
            str_or_null (map_option (\<lambda>b. if b then ''true'' else ''false'') (json_bool_at X json path))
        | Some J_Array \<Rightarrow> str_or_null (json_raw_at X json path)
        | Some J_Object \<Rightarrow> str_or_null (json_raw_at X json path)
        | Some J_Null \<Rightarrow> vnull)))"

section \<open>build.h, Executor.h\<close>

datatype executor =
    UnaryExecutor "Value \<Rightarrow> Value res"
  | BinaryExecutor "Value \<Rightarrow> Value \<Rightarrow> Value res"
  | NaryExecutor "Value list \<Rightarrow> Value res"

text \<open>
  \<open>buildScalar\<close>: the executor of a scalar function; a type outside the concept is an un-covered
  dispatch (panic), an aggregate function too, and a pattern that does not compile throws.
\<close>

fun buildScalar :: "ext \<Rightarrow> Function \<Rightarrow> executor res" where
  "buildScalar X Lower_fn = Inr (UnaryExecutor LowerExecutor)"
| "buildScalar X (SplitPart_fn sep i) = Inr (UnaryExecutor (SplitPartExecutor sep i))"
| "buildScalar X (Substr_fn from len) = Inr (UnaryExecutor (SubstrExecutor from len))"
| "buildScalar X Coalesce_fn = Inr (NaryExecutor CoalesceExecutor)"
| "buildScalar X (RSubstr_fn re) = require (rx_ok X re) (Inr (UnaryExecutor (RSubstrExecutor X re)))"
| "buildScalar X (Like_fn re) = require (rx_ok X re) (Inr (UnaryExecutor (LikeExecutor X re)))"
| "buildScalar X (Cast_fn t) = Inr (UnaryExecutor (CastExecutor t))"
| "buildScalar X (JSONValue_fn path) = Inr (UnaryExecutor (JSONValueExecutor X path))"
| "buildScalar X (ParseTimestamp_fn f) = Inr (UnaryExecutor (ParseTimestampExecutor X f))"
| "buildScalar X BooleanNegate_fn = Inr (UnaryExecutor BooleanNegateExecutor)"
| "buildScalar X Equal_fn = Inr (BinaryExecutor EqualExecutor)"
| "buildScalar X NotEqual_fn = Inr (BinaryExecutor NotEqualExecutor)"
| "buildScalar X (Less_fn T) = verify (Comparable T) (Inr (BinaryExecutor (LessExecutor T)))"
| "buildScalar X (Greater_fn T) = verify (Comparable T) (Inr (BinaryExecutor (GreaterExecutor T)))"
| "buildScalar X (LessEqual_fn T) = verify (Comparable T) (Inr (BinaryExecutor (LessEqualExecutor T)))"
| "buildScalar X (GreaterEqual_fn T) = verify (Comparable T) (Inr (BinaryExecutor (GreaterEqualExecutor T)))"
| "buildScalar X And_fn = Inr (BinaryExecutor AndExecutor)"
| "buildScalar X Or_fn = Inr (BinaryExecutor OrExecutor)"
| "buildScalar X (Divide_fn T) = verify (Dividable T) (Inr (BinaryExecutor (DivideExecutor T)))"
| "buildScalar X (Add_fn T) = verify (Addable T) (Inr (BinaryExecutor (AddExecutor T)))"
| "buildScalar X (Subtract_fn T) = verify (Subtractable T) (Inr (BinaryExecutor (SubtractExecutor T)))"
| "buildScalar X _ = Inl Panic"

fun execute :: "executor \<Rightarrow> Value list \<Rightarrow> Value res" where
  "execute (NaryExecutor e) vs = e vs"
| "execute (UnaryExecutor e) vs = verify (length vs = 1) (e (vs ! 0))"
| "execute (BinaryExecutor e) vs = verify (length vs = 2) (e (vs ! 0) (vs ! 1))"

section \<open>build/*.h: the aggregators\<close>

datatype Aggregator =
    CountAllAggregator i64
  | CountNonNullAggregator i64
  | MinAggregator ValueType "Value option"
  | MaxAggregator ValueType "Value option"
  | SumAggregator ValueType Value
  | PercentileAggregator ValueType "f32 list" "Value list"

text \<open>\<open>std::max(a, b)\<close> is \<open>a < b ? b : a\<close>, \<open>std::min(a, b)\<close> is \<open>b < a ? b : a\<close>.\<close>

definition std_max :: "Value \<Rightarrow> Value \<Rightarrow> Value" where
  "std_max a b = (if val_less a b then b else a)"

definition std_min :: "Value \<Rightarrow> Value \<Rightarrow> Value" where
  "std_min a b = (if val_less b a then b else a)"

fun feed_nullary :: "Aggregator \<Rightarrow> Aggregator res" where
  "feed_nullary (CountAllAggregator n) = rbind (i64_of (sint n + 1)) (\<lambda>m. Inr (CountAllAggregator m))"
| "feed_nullary _ = Inl Panic"

definition countNonNull_feed :: "i64 \<Rightarrow> Value \<Rightarrow> Aggregator res" where
  [simp]: "countNonNull_feed n v =
     rbind (i64_of (sint n + (if val_eq v vnull then 0 else 1))) (\<lambda>m. Inr (CountNonNullAggregator m))"

definition min_feed :: "ValueType \<Rightarrow> Value option \<Rightarrow> Value \<Rightarrow> Aggregator res" where
  [simp]: "min_feed T r v =
     (if val_eq v vnull then Inr (MinAggregator T r)
      else rbind (get_as T v) (\<lambda>next.
        Inr (MinAggregator T (Some (case r of None \<Rightarrow> next | Some cur \<Rightarrow> std_min cur next)))))"

definition max_feed :: "ValueType \<Rightarrow> Value option \<Rightarrow> Value \<Rightarrow> Aggregator res" where
  [simp]: "max_feed T r v =
     (if val_eq v vnull then Inr (MaxAggregator T r)
      else rbind (get_as T v) (\<lambda>next.
        Inr (MaxAggregator T (Some (case r of None \<Rightarrow> next | Some cur \<Rightarrow> std_max cur next)))))"

definition sum_feed :: "ValueType \<Rightarrow> Value \<Rightarrow> Value \<Rightarrow> Aggregator res" where
  [simp]: "sum_feed T acc v =
     (if val_eq v vnull then Inr (SumAggregator T acc)
      else rbind (get_as T v) (\<lambda>next. rbind (add_T acc next) (\<lambda>t. Inr (SumAggregator T t))))"

definition percentile_feed :: "ValueType \<Rightarrow> f32 list \<Rightarrow> Value list \<Rightarrow> Value \<Rightarrow> Aggregator res" where
  [simp]: "percentile_feed T ps vs v =
     (if val_eq v vnull then Inr (PercentileAggregator T ps vs)
      else rbind (get_as T v) (\<lambda>next. Inr (PercentileAggregator T ps (vs @ [next]))))"

fun feed :: "Aggregator \<Rightarrow> Value \<Rightarrow> Aggregator res" where
  "feed (CountNonNullAggregator n) v = countNonNull_feed n v"
| "feed (MinAggregator T r) v = min_feed T r v"
| "feed (MaxAggregator T r) v = max_feed T r v"
| "feed (SumAggregator T acc) v = sum_feed T acc v"
| "feed (PercentileAggregator T ps vs) v = percentile_feed T ps vs v"
| "feed (CountAllAggregator n) v = Inl Panic"

text \<open>\<open>std::nth_element\<close>: the element a sort by \<open><\<close> has at the position.\<close>

fun insert_by :: "('a \<Rightarrow> 'a \<Rightarrow> bool) \<Rightarrow> 'a \<Rightarrow> 'a list \<Rightarrow> 'a list" where
  "insert_by lt x [] = [x]"
| "insert_by lt x (y # ys) = (if lt y x then y # insert_by lt x ys else x # y # ys)"

definition sort_by :: "('a \<Rightarrow> 'a \<Rightarrow> bool) \<Rightarrow> 'a list \<Rightarrow> 'a list" where
  "sort_by lt xs = foldr (insert_by lt) xs []"

definition percentile_threshold :: f32 where
  "percentile_threshold = f32_of_rat (1 / 10 ^ 6)"

fun f32_abs :: "f32 \<Rightarrow> f32" where
  "f32_abs (F_NaN s) = F_NaN False"
| "f32_abs (F_Inf s) = F_Inf False"
| "f32_abs (F_Zero s) = F_Zero False"
| "f32_abs (F_Fin q) = F_Fin \<bar>q\<bar>"

definition percentile_pos :: "nat \<Rightarrow> f32 \<Rightarrow> nat res" where
  "percentile_pos n p =
     (if f32_lt (f32_abs p) percentile_threshold then Inr 0
      else if f32_lt (f32_abs (f32_sub p (F_Fin 1))) percentile_threshold then Inr (n - 1)
      else rbind (f32_to_i64 (f32_mul (f32_of_int (int n)) p)) (\<lambda>i.
        if i < 0 then Inl Undefined else Inr (min (n - 1) (nat i))))"

fun stream_out :: "Value \<Rightarrow> string" where
  "stream_out (VFloat f) = show_g_f32 f"
| "stream_out v = val_to_string v"

fun join_comma :: "string list \<Rightarrow> string" where
  "join_comma [] = []"
| "join_comma [s] = s"
| "join_comma (s # t # ss) = s @ '','' @ join_comma (t # ss)"

definition percentile_get :: "f32 list \<Rightarrow> Value list \<Rightarrow> Value res" where
  "percentile_get ps vs =
     (if vs = [] then Inr vnull
      else rbind (rmap (\<lambda>p. rbind (percentile_pos (length vs) p) (\<lambda>i. Inr (sort_by val_less vs ! i))) ps)
        (\<lambda>r. if r = [] then Inr (VString [])
             else Inr (VString (''['' @ join_comma (map stream_out r) @ '']''))))"

fun get :: "Aggregator \<Rightarrow> Value res" where
  "get (CountAllAggregator n) = Inr (VInt n)"
| "get (CountNonNullAggregator n) = Inr (VInt n)"
| "get (MinAggregator T r) = Inr (case r of None \<Rightarrow> vnull | Some v \<Rightarrow> v)"
| "get (MaxAggregator T r) = Inr (case r of None \<Rightarrow> vnull | Some v \<Rightarrow> v)"
| "get (SumAggregator T acc) = Inr acc"
| "get (PercentileAggregator T ps vs) = percentile_get ps vs"

text \<open>\<open>U()\<close>: the initial sum of a type.\<close>

fun zero_T :: "ValueType \<Rightarrow> Value" where
  "zero_T Integer = VInt 0"
| "zero_T Floating = VFloat (F_Zero False)"
| "zero_T _ = VString []"

text \<open>\<open>buildAggregate\<close> and \<open>aggregator()\<close>: a fresh aggregator, nullary or unary.\<close>

datatype aggregate = NullaryAggregate Aggregator | UnaryAggregate Aggregator

fun buildAggregate :: "Function \<Rightarrow> aggregate res" where
  "buildAggregate CountNonNull_fn = Inr (UnaryAggregate (CountNonNullAggregator 0))"
| "buildAggregate CountAll_fn = Inr (NullaryAggregate (CountAllAggregator 0))"
| "buildAggregate (Percentile_fn ps T) = verify (Comparable T) (Inr (UnaryAggregate (PercentileAggregator T ps [])))"
| "buildAggregate (Min_fn T) = verify (Comparable T) (Inr (UnaryAggregate (MinAggregator T None)))"
| "buildAggregate (Max_fn T) = verify (Comparable T) (Inr (UnaryAggregate (MaxAggregator T None)))"
| "buildAggregate (Sum_fn T) = verify (Addable T) (Inr (UnaryAggregate (SumAggregator T (zero_T T))))"
| "buildAggregate _ = Inl Panic"

fun feed_all :: "Aggregator \<Rightarrow> Value list \<Rightarrow> Aggregator res" where
  "feed_all a [] = Inr a"
| "feed_all a (v # vs) = rbind (feed a v) (\<lambda>b. feed_all b vs)"

section \<open>Typing of scalar functions\<close>

definition has_type :: "Value \<Rightarrow> ValueType \<Rightarrow> bool" where
  "has_type v t \<longleftrightarrow> v = VNull \<or> type v = t"

text \<open>
  The argument and result types the binder accepts for a scalar function
  (front/common/bind/Expressions.h); a null argument is accepted at every type.
\<close>

fun fn_wt :: "Function \<Rightarrow> ValueType list \<Rightarrow> ValueType \<Rightarrow> bool" where
  "fn_wt Lower_fn ts t = (ts = [String] \<and> t = String)"
| "fn_wt (SplitPart_fn _ _) ts t = (ts = [String] \<and> t = String)"
| "fn_wt (Substr_fn _ _) ts t = (ts = [String] \<and> t = String)"
| "fn_wt Coalesce_fn ts t = (\<forall>a \<in> set ts. a = Null \<or> a = t)"
| "fn_wt (RSubstr_fn _) ts t = (ts = [String] \<and> t = String)"
| "fn_wt (Like_fn _) ts t = (ts = [String] \<and> t = Boolean)"
| "fn_wt (Cast_fn c) ts t = (length ts = 1 \<and> t = c)"
| "fn_wt (JSONValue_fn _) ts t = (ts = [String] \<and> t = String)"
| "fn_wt (ParseTimestamp_fn _) ts t = (ts = [String] \<and> t = Integer)"
| "fn_wt BooleanNegate_fn ts t = (ts = [Boolean] \<and> t = Boolean)"
| "fn_wt Equal_fn ts t = (length ts = 2 \<and> t = Boolean)"
| "fn_wt NotEqual_fn ts t = (length ts = 2 \<and> t = Boolean)"
| "fn_wt (Less_fn a) ts t = (ts = [a, a] \<and> t = Boolean)"
| "fn_wt (Greater_fn a) ts t = (ts = [a, a] \<and> t = Boolean)"
| "fn_wt (LessEqual_fn a) ts t = (ts = [a, a] \<and> t = Boolean)"
| "fn_wt (GreaterEqual_fn a) ts t = (ts = [a, a] \<and> t = Boolean)"
| "fn_wt And_fn ts t = (ts = [Boolean, Boolean] \<and> t = Boolean)"
| "fn_wt Or_fn ts t = (ts = [Boolean, Boolean] \<and> t = Boolean)"
| "fn_wt (Divide_fn a) ts t = (ts = [a, a] \<and> t = a)"
| "fn_wt (Add_fn a) ts t = (ts = [a, a] \<and> t = a)"
| "fn_wt (Subtract_fn a) ts t = (ts = [a, a] \<and> t = a)"
| "fn_wt _ ts t = False"

section \<open>Typing lemmas\<close>

lemma has_type_simps [simp]:
  "has_type VNull t"
  "has_type (VInt i) t \<longleftrightarrow> t = Integer"
  "has_type (VFloat f) t \<longleftrightarrow> t = Floating"
  "has_type (VBool b) t \<longleftrightarrow> t = Boolean"
  "has_type (VString s) t \<longleftrightarrow> t = String"
  "has_type (VPinned p) t \<longleftrightarrow> t = String"
  by (auto simp: has_type_def)

lemma has_type_Null [simp]: "has_type v Null \<longleftrightarrow> v = VNull"
  by (cases v) auto

lemma has_type_type: "type v = t \<Longrightarrow> has_type v t"
  by (simp add: has_type_def)

lemma get_as_type: "get_as T v = Inr w \<Longrightarrow> type w = T"
  by (cases T) (auto split: if_splits)

lemma get_as_total: "type v = T \<Longrightarrow> \<exists>w. get_as T v = Inr w"
  by (cases v) auto

lemma add_T_type: "add_T a b = Inr w \<Longrightarrow> type w = type a"
  by (induction a b rule: add_T.induct) auto

lemma sub_T_type: "sub_T a b = Inr w \<Longrightarrow> type w = type a"
  by (induction a b rule: sub_T.induct) auto

lemma div_T_type: "div_T a b = Inr w \<Longrightarrow> w = VNull \<or> type w = type a"
  by (induction a b rule: div_T.induct) (auto split: if_splits)

lemma null_or2_type:
  assumes "null_or2 T f l r = Inr w" "\<And>a b w. f a b = Inr w \<Longrightarrow> w = VNull \<or> type w = type a"
  shows "has_type w T"
  using assms by (auto simp: null_or2_def has_type_def split: if_splits dest!: get_as_type)

lemma arith_executor_type:
  "AddExecutor T l r = Inr w \<Longrightarrow> has_type w T"
  "SubtractExecutor T l r = Inr w \<Longrightarrow> has_type w T"
  "DivideExecutor T l r = Inr w \<Longrightarrow> has_type w T"
  by (auto simp: AddExecutor_def SubtractExecutor_def DivideExecutor_def
      elim!: null_or2_type dest: add_T_type sub_T_type div_T_type)

lemma val_substr_type: "val_substr v p n = Inr w \<Longrightarrow> type w = String"
  by (cases v) auto

lemma str_or_null_type [simp]: "has_type (str_or_null r) String"
  by (cases r) (auto simp: str_or_null_def)

lemma CoalesceExecutor_in: "CoalesceExecutor vs = Inr w \<Longrightarrow> w = VNull \<or> w \<in> set vs"
  by (induction vs) (auto split: if_splits)

lemmas executor_defs =
  AndExecutor_def OrExecutor_def
  BooleanNegateExecutor_def EqualExecutor_def NotEqualExecutor_def compareExecutor_def
  LessExecutor_def GreaterExecutor_def LessEqualExecutor_def GreaterEqualExecutor_def
  CastExecutor_def LowerExecutor_def SplitPartExecutor_def SubstrExecutor_def LikeExecutor_def
  RSubstrExecutor_def ParseTimestampExecutor_def JSONValueExecutor_def

lemma CastExecutor_type: "CastExecutor t v = Inr w \<Longrightarrow> has_type w t"
  by (auto simp: CastExecutor_def has_type_def dest: cast_type split: option.splits)

text \<open>The result of a well-typed scalar function has its declared type, or is null.\<close>

lemma scalar_type_sound:
  assumes "fn_wt f ts t" "list_all2 has_type vs ts" "buildScalar X f = Inr e" "execute e vs = Inr w"
  shows "has_type w t"
proof (cases f)
  case Coalesce_fn
  with assms have "w = VNull \<or> w \<in> set vs" by (auto dest: CoalesceExecutor_in)
  with assms Coalesce_fn show ?thesis
    by (auto simp: list_all2_conv_all_nth in_set_conv_nth has_type_def) (metis nth_mem type_Null)
next
  case (Cast_fn T)
  with assms show ?thesis by (auto split: if_splits dest: CastExecutor_type)
qed (use assms in \<open>auto simp: executor_defs split: if_splits option.splits prod.splits json_type.splits
      dest!: val_substr_type has_type_type arith_executor_type\<close>)

section \<open>SPLITPART against a reference splitting\<close>

text \<open>The pieces of a text between the separators.\<close>

fun split_on :: "char \<Rightarrow> string \<Rightarrow> string list" where
  "split_on sep [] = [[]]"
| "split_on sep (c # cs) =
     (if c = sep then [] # split_on sep cs
      else (case split_on sep cs of [] \<Rightarrow> [[c]] | p # ps \<Rightarrow> (c # p) # ps))"

lemma split_on_ne [simp]: "split_on sep s \<noteq> []"
  by (induction s) (auto split: list.splits)

lemma split_on_no_sep: "sep \<notin> set s \<Longrightarrow> split_on sep s = [s]"
  by (induction s) auto

lemma split_on_append: "sep \<notin> set a \<Longrightarrow> split_on sep (a @ sep # b) = a # split_on sep b"
  by (induction a) auto

lemma split_on_find:
  "split_on sep s = (case find_char sep s of None \<Rightarrow> [s] | Some p \<Rightarrow> take p s # split_on sep (drop (Suc p) s))"
proof (cases "find_char sep s")
  case None
  with find_char_None [of sep s] show ?thesis by (simp add: split_on_no_sep)
next
  case (Some p)
  from find_char_Some [OF Some] have "sep \<notin> set (take p s)" by simp
  from split_on_append [OF this, of "drop (Suc p) s"] find_char_split [OF Some] Some show ?thesis
    by simp
qed

lemma split_skip_spec:
  "split_skip sep i cur off =
     (if i < length (split_on sep cur)
      then (let k = length (concat (take i (split_on sep cur))) + i in Some (drop k cur, off + k)) else None)"
proof (induction i arbitrary: cur off)
  case 0
  then show ?case by (simp add: Let_def)
next
  case (Suc i)
  show ?case
  proof (cases "find_char sep cur")
    case None
    then show ?thesis by (simp add: split_on_find [of sep cur])
  next
    case (Some p)
    from find_char_Some [OF Some] have p: "p < length cur" by simp
    from Some p show ?thesis
      by (simp add: Suc split_on_find [of sep cur] Let_def drop_drop add.commute add.left_commute min_def)
  qed
qed

lemma drop_split_on:
  "i < length (split_on sep s) \<Longrightarrow>
   split_on sep (drop (length (concat (take i (split_on sep s))) + i) s) = drop i (split_on sep s)"
proof (induction i arbitrary: s)
  case 0
  then show ?case by simp
next
  case (Suc i)
  show ?case
  proof (cases "find_char sep s")
    case None
    with Suc.prems show ?thesis by (simp add: split_on_find [of sep s])
  next
    case (Some p)
    from find_char_Some [OF Some] have p: "p < length s" by simp
    let ?r = "drop (Suc p) s"
    have eq: "split_on sep s = take p s # split_on sep ?r"
      using Some by (simp add: split_on_find [of sep s])
    from Suc.prems eq have "i < length (split_on sep ?r)" by simp
    from Suc.IH [OF this] p eq show ?thesis
      by (simp add: min_def add.commute add.left_commute)
  qed
qed

lemma split_piece_len: "i < length (split_on sep s) \<Longrightarrow> length (concat (take i (split_on sep s))) + i \<le> length s"
proof (induction i arbitrary: s)
  case 0
  then show ?case by simp
next
  case (Suc i)
  show ?case
  proof (cases "find_char sep s")
    case None
    with Suc.prems show ?thesis by (simp add: split_on_find [of sep s])
  next
    case (Some p)
    from find_char_Some [OF Some] have p: "p < length s" by simp
    have eq: "split_on sep s = take p s # split_on sep (drop (Suc p) s)"
      using Some by (simp add: split_on_find [of sep s])
    from Suc.prems eq have "i < length (split_on sep (drop (Suc p) s))" by simp
    from Suc.IH [OF this] p eq show ?thesis by simp
  qed
qed

text \<open>SPLITPART selects the piece of that index, or null when there are not so many.\<close>

lemma split_part_spec:
  assumes "length s < 2 ^ 64"
  shows "SplitPartExecutor sep i (VString s) =
    Inr (if i < length (split_on sep s) then VString (split_on sep s ! i) else vnull)"
proof (cases "i < length (split_on sep s)")
  case True
  define k where "k = length (concat (take i (split_on sep s))) + i"
  have k: "k \<le> length s" unfolding k_def by (rule split_piece_len [OF True])
  have d: "split_on sep (drop k s) = drop i (split_on sep s)"
    unfolding k_def by (rule drop_split_on [OF True])
  have hd: "split_on sep s ! i = hd (split_on sep (drop k s))"
    using d True by (simp add: hd_drop_conv_nth)
  show ?thesis
  proof (cases "find_char sep (drop k s)")
    case None
    with hd have "split_on sep s ! i = drop k s" by (simp add: split_on_find [of sep "drop k s"])
    with None True k assms show ?thesis
      by (simp add: SplitPartExecutor_def split_skip_spec Let_def std_substr_def flip: k_def)
  next
    case (Some p)
    with hd have "split_on sep s ! i = take p (drop k s)" by (simp add: split_on_find [of sep "drop k s"])
    with Some True k show ?thesis
      by (simp add: SplitPartExecutor_def split_skip_spec Let_def std_substr_def flip: k_def)
  qed
next
  case False
  then show ?thesis by (simp add: SplitPartExecutor_def split_skip_spec)
qed

section \<open>Aggregators over a column\<close>

lemma feed_all_append: "feed_all a (vs @ ws) = rbind (feed_all a vs) (\<lambda>b. feed_all b ws)"
  by (induction vs arbitrary: a) (auto simp: rbind_assoc)

definition non_null :: "Value list \<Rightarrow> Value list" where
  "non_null = filter (\<lambda>v. v \<noteq> VNull)"

lemma non_null_simps [simp]:
  "non_null [] = []"
  "non_null (v # vs) = (if v = VNull then non_null vs else v # non_null vs)"
  by (simp_all add: non_null_def)

lemma i64_of_ok: "- (2 ^ 63) \<le> i \<Longrightarrow> i < 2 ^ 63 \<Longrightarrow> i64_of i = Inr (word_of_int i)"
  by (simp add: i64_of_def)

lemma sint_word_of_int_i64: "- (2 ^ 63) \<le> i \<Longrightarrow> i < 2 ^ 63 \<Longrightarrow> sint (word_of_int i :: i64) = i"
  by (simp add: signed_of_int signed_take_bit_int_eq_self)

lemma sint_suc_i64: "0 \<le> sint (n :: i64) \<Longrightarrow> sint n + 1 < 2 ^ 63 \<Longrightarrow> sint (n + 1) = sint n + 1"
  using sint_word_of_int_i64 [of "sint n + 1"] by simp

lemma i64_of_sint [simp]: "i64_of (sint n) = Inr n"
  using i64_of_ok [of "sint n"] sint_i64_range [of n] by auto

lemma count_nonnull_spec:
  "0 \<le> sint n \<Longrightarrow> sint n + int (length vs) < 2 ^ 63 \<Longrightarrow>
   feed_all (CountNonNullAggregator n) vs =
     Inr (CountNonNullAggregator (word_of_int (sint n + int (length (non_null vs)))))"
proof (induction vs arbitrary: n)
  case Nil
  then show ?case by simp
next
  case (Cons v vs)
  show ?case
  proof (cases "v = VNull")
    case True
    with Cons show ?thesis by simp
  next
    case False
    from Cons.prems have s: "sint (n + 1) = sint n + 1" by (intro sint_suc_i64) auto
    from Cons.prems have "i64_of (sint n + 1) = Inr (n + 1)" by (subst i64_of_ok) auto
    moreover have "feed_all (CountNonNullAggregator (n + 1)) vs =
        Inr (CountNonNullAggregator (word_of_int (sint (n + 1) + int (length (non_null vs)))))"
      using Cons.prems s by (intro Cons.IH) auto
    ultimately show ?thesis using False by (simp add: s ac_simps)
  qed
qed

section \<open>Properties\<close>

text \<open>C36: A scalar function applied to arguments of the types the binder accepts gives a value of its
  declared type, or null.\<close>

theorem scalar_function_type_sound:
  assumes "fn_wt f ts t" and "list_all2 has_type vs ts" and "buildScalar X f = Inr e" and "execute e vs = Inr w"
  shows "has_type w t"
  by (rule scalar_type_sound [OF assms])

theorem scalar_function_type_sound_witness: "has_type (VInt 5) Integer"
  by (rule scalar_function_type_sound [of "Add_fn Integer" "[Integer, Integer]" Integer "[VInt 2, VInt 3]" undefined
        "BinaryExecutor (AddExecutor Integer)"])
    (simp_all add: AddExecutor_def null_or2_def i64_of_def Addable_def)

text \<open>C37: SPLITPART gives the piece of the text between separators that has the index, counted as the
  reference splitting counts them, or null when there are fewer.\<close>

theorem split_part_correct:
  assumes "length s < 2 ^ 64"
  shows "SplitPartExecutor sep i (VString s) =
    Inr (if i < length (split_on sep s) then VString (split_on sep s ! i) else vnull)"
  by (rule split_part_spec [OF assms])

theorem split_part_correct_witness:
  "SplitPartExecutor (CHR '','') 1 (VString ''a,bc,d'') = Inr (VString ''bc'')"
  by (subst split_part_correct) simp_all

text \<open>COUNT of an expression over a column is the number of its values that are not null, while
  the count fits in 64 bits.\<close>

theorem count_non_null_correct:
  assumes "length vs < 2 ^ 63"
  shows "rbind (feed_all (CountNonNullAggregator 0) vs) get = Inr (VInt (of_nat (length (filter (\<lambda>v. v \<noteq> VNull) vs))))"
  using count_nonnull_spec [of 0 vs] assms by (simp add: non_null_def)

theorem count_non_null_correct_witness:
  "rbind (feed_all (CountNonNullAggregator 0) [VInt 4, VNull, VString ''x'']) get = Inr (VInt 2)"
  by (subst count_non_null_correct) simp_all

end
