(* ===== verification/Schemas.thy ===== *)
theory Schemas
  imports Values
begin

text \<open>
  src/core/schema: the field binding (which names and types the field ids of a query have), the
  field set and the schema (which slot of a record a field has). The first group of lemmas is the
  invariant of the binding and that its two lookups are inverse to each other; the second describes
  a schema by the list of its fields in slot order and gives every operation over that list.
\<close>

section \<open>Field ids\<close>

text \<open>\<open>FieldId\<close> wraps a \<open>uint32_t\<close>; zero is \<open>UnknownFieldId\<close>.\<close>

type_synonym FieldId = "32 word"

definition UnknownFieldId :: FieldId where
  "UnknownFieldId = 0"

text \<open>\<open>emplace\<close> of a map keeps the entry of a key that is already there.\<close>

definition emplace :: "('a \<rightharpoonup> 'b) \<Rightarrow> 'a \<Rightarrow> 'b \<Rightarrow> ('a \<rightharpoonup> 'b)" where
  "emplace m k v = (case m k of None \<Rightarrow> m(k \<mapsto> v) | Some _ \<Rightarrow> m)"

lemma emplace_new [simp]: "m k = None \<Longrightarrow> emplace m k v = m(k \<mapsto> v)"
  by (simp add: emplace_def)

section \<open>The field binding\<close>

record FieldBinding =
  next_id :: FieldId
  names :: "FieldId \<rightharpoonup> string"
  types :: "FieldId \<rightharpoonup> ValueType"
  ids :: "ValueType \<Rightarrow> (string \<rightharpoonup> FieldId)"

definition emptyBinding :: FieldBinding where
  "emptyBinding = \<lparr>next_id = UnknownFieldId + 1, names = Map.empty, types = Map.empty, ids = (\<lambda>_. Map.empty)\<rparr>"

definition hasField :: "FieldBinding \<Rightarrow> string \<Rightarrow> ValueType \<Rightarrow> bool" where
  "hasField b n t = (ids b t n \<noteq> None)"

definition field_id :: "FieldBinding \<Rightarrow> string \<Rightarrow> ValueType \<Rightarrow> FieldId" where
  "field_id b n t = (case ids b t n of Some i \<Rightarrow> i | None \<Rightarrow> UnknownFieldId)"

definition field_name :: "FieldBinding \<Rightarrow> FieldId \<Rightarrow> string res" where
  "field_name b i = (case names b i of Some n \<Rightarrow> Inr n | None \<Rightarrow> Inl Panic)"

definition field_type :: "FieldBinding \<Rightarrow> FieldId \<Rightarrow> ValueType res" where
  "field_type b i = (case types b i of Some t \<Rightarrow> Inr t | None \<Rightarrow> Inl Panic)"

definition addField :: "FieldBinding \<Rightarrow> string \<Rightarrow> ValueType \<Rightarrow> (FieldId \<times> FieldBinding) res" where
  "addField b n t = verify (\<not> hasField b n t)
     (let i = next_id b in
      Inr (i, b\<lparr>next_id := next_id b + 1, names := emplace (names b) i n, types := emplace (types b) i t,
                ids := (ids b)(t := emplace (ids b t) n i)\<rparr>))"

definition anonymous_name :: "string \<Rightarrow> FieldId \<Rightarrow> string" where
  "anonymous_name p i = ''$'' @ p @ ''_'' @ show_nat (unat i)"

definition addAnonymous :: "FieldBinding \<Rightarrow> string \<Rightarrow> ValueType \<Rightarrow> (FieldId \<times> FieldBinding) res" where
  "addAnonymous b p t = addField b (anonymous_name p (next_id b)) t"

definition getOrAdd :: "FieldBinding \<Rightarrow> string \<Rightarrow> ValueType \<Rightarrow> (FieldId \<times> FieldBinding) res" where
  "getOrAdd b n t = (if hasField b n t then Inr (field_id b n t, b) else addField b n t)"

text \<open>The invariant: the two maps by id have the ids below the next one, and the lookup by name and
  type is their inverse. It needs that the counter has not wrapped.\<close>

definition binding_wf :: "FieldBinding \<Rightarrow> bool" where
  "binding_wf b \<longleftrightarrow>
     (\<forall>i. (names b i \<noteq> None \<longleftrightarrow> 0 < unat i \<and> unat i < unat (next_id b)) \<and>
          (types b i \<noteq> None \<longleftrightarrow> names b i \<noteq> None)) \<and>
     (\<forall>t n i. ids b t n = Some i \<longleftrightarrow> names b i = Some n \<and> types b i = Some t)"

lemma binding_wf_empty: "binding_wf emptyBinding"
  by (auto simp: binding_wf_def emptyBinding_def UnknownFieldId_def)

lemma unat_suc32: "unat (i :: FieldId) < 2 ^ 32 - 1 \<Longrightarrow> unat (i + 1) = Suc (unat i)"
  by (simp add: unat_word_ariths)

lemma addField_wf:
  assumes wf: "binding_wf b" and room: "unat (next_id b) < 2 ^ 32 - 1" and pos: "0 < unat (next_id b)"
    and add: "addField b n t = Inr (i, c)"
  shows "binding_wf c" "0 < unat (next_id c)" "names c i = Some n" "types c i = Some t"
proof -
  let ?i = "next_id b"
  from wf have free: "names b ?i = None" "types b ?i = None" by (auto simp: binding_wf_def)
  from add have new: "ids b t n = None" and i: "i = ?i"
    and c: "c = b\<lparr>next_id := ?i + 1, names := (names b)(?i \<mapsto> n), types := (types b)(?i \<mapsto> t),
                  ids := (ids b)(t := (ids b t)(n \<mapsto> ?i))\<rparr>"
    by (auto simp: addField_def hasField_def Let_def free split: if_splits)
  have lt: "unat j < Suc (unat ?i) \<longleftrightarrow> unat j < unat ?i \<or> j = ?i" for j
    by (auto simp: less_Suc_eq intro: unsigned_word_eqI)
  have dom: "names b j \<noteq> None \<longleftrightarrow> 0 < unat j \<and> unat j < unat ?i"
    "types b j \<noteq> None \<longleftrightarrow> names b j \<noteq> None" for j
    using wf by (auto simp: binding_wf_def)
  have inv: "ids b u m = Some j \<longleftrightarrow> names b j = Some m \<and> types b j = Some u" for u m j
    using wf by (simp add: binding_wf_def)
  have nid: "unat (?i + 1) = Suc (unat ?i)" by (rule unat_suc32 [OF room])
  show "binding_wf c"
    unfolding binding_wf_def
  proof (intro conjI allI)
    fix j
    show "(names c j \<noteq> None) = (0 < unat j \<and> unat j < unat (next_id c))"
      using dom(1) [of j] pos by (simp add: c nid lt)
    show "(types c j \<noteq> None) = (names c j \<noteq> None)"
      using dom(2) [of j] by (simp add: c)
  next
    fix u m j
    show "(ids c u m = Some j) = (names c j = Some m \<and> types c j = Some u)"
      using inv [of u m j] inv [of t n j] new free by (auto simp: c)
  qed
  show "0 < unat (next_id c)" by (simp add: c nid)
  show "names c i = Some n" "types c i = Some t" by (simp_all add: c i)
qed

lemma field_lookup:
  assumes "binding_wf b" "hasField b n t"
  shows "field_name b (field_id b n t) = Inr n" "field_type b (field_id b n t) = Inr t"
proof -
  from assms(2) obtain i where i: "ids b t n = Some i" by (auto simp: hasField_def)
  with assms(1) have "names b i = Some n" "types b i = Some t" by (auto simp: binding_wf_def)
  with i show "field_name b (field_id b n t) = Inr n" "field_type b (field_id b n t) = Inr t"
    by (simp_all add: field_id_def field_name_def field_type_def)
qed

lemma getOrAdd_wf:
  assumes "binding_wf b" "unat (next_id b) < 2 ^ 32 - 1" "0 < unat (next_id b)"
  shows "\<exists>i c. getOrAdd b n t = Inr (i, c) \<and> binding_wf c \<and> field_name c i = Inr n \<and> field_type c i = Inr t \<and>
               getOrAdd c n t = Inr (i, c)"
proof (cases "hasField b n t")
  case True
  with field_lookup [OF assms(1) True] assms show ?thesis by (auto simp: getOrAdd_def)
next
  case False
  then obtain i c where a: "addField b n t = Inr (i, c)" by (simp add: addField_def Let_def)
  from addField_wf [OF assms a] have wf: "binding_wf c" and i: "names c i = Some n" "types c i = Some t"
    by auto
  then have "ids c t n = Some i" by (simp add: binding_wf_def)
  with a False wf i show ?thesis
    by (auto simp: getOrAdd_def hasField_def field_id_def field_name_def field_type_def)
qed

text \<open>Names made by \<open>addAnonymous\<close> are distinct for distinct ids.\<close>

lemma show_nat_no_underscore: "CHR ''_'' \<notin> set (show_nat n)"
proof
  assume "CHR ''_'' \<in> set (show_nat n)"
  with show_nat_digits [of n] have "is_digit (CHR ''_'')" by (auto simp: list_all_iff)
  then show False by (simp add: is_digit_def)
qed

lemma append_sep_inj:
  assumes "xs @ c # ys = us @ c # vs" "c \<notin> set ys" "c \<notin> set vs"
  shows "ys = vs"
  using assms by (auto simp: append_eq_append_conv2 Cons_eq_append_conv append_eq_Cons_conv)

lemma anonymous_name_inj: "anonymous_name p i = anonymous_name q j \<Longrightarrow> i = j"
proof -
  assume "anonymous_name p i = anonymous_name q j"
  then have "show_nat (unat i) = show_nat (unat j)"
    using append_sep_inj [of p "CHR ''_''" "show_nat (unat i)" q "show_nat (unat j)"]
    by (simp add: anonymous_name_def show_nat_no_underscore)
  then have "unat i = unat j" using digits_val_show_nat by metis
  then show "i = j" by (rule unsigned_word_eqI)
qed

section \<open>The field set\<close>

text \<open>\<open>FieldSet\<close> holds an \<open>unordered_set\<close>: a set of ids. Where the code iterates over one, the order is
  the argument \<open>order\<close>, of which it relies on what \<open>order_ok\<close> says.\<close>

type_synonym FieldSet = "FieldId set"

definition order_ok :: "(FieldSet \<Rightarrow> FieldId list) \<Rightarrow> bool" where
  "order_ok order \<longleftrightarrow> (\<forall>s. finite s \<longrightarrow> distinct (order s) \<and> set (order s) = s)"

definition fs_intersection :: "FieldSet \<Rightarrow> FieldSet \<Rightarrow> FieldSet" where
  "fs_intersection a b = Set.filter (\<lambda>i. i \<in> b) a"

definition fs_merge :: "FieldSet \<Rightarrow> FieldSet \<Rightarrow> FieldSet" where
  "fs_merge a b = a \<union> b"

section \<open>The schema\<close>

text \<open>The slot map as the list of its entries; the code reads it by key or writes every entry to a
  place of its own, so no result depends on the order.\<close>

record Schema =
  slots :: "(FieldId \<times> nat) list"
  next_slot :: nat

definition emptySchema :: Schema where
  "emptySchema = \<lparr>slots = [], next_slot = 0\<rparr>"

definition contains :: "Schema \<Rightarrow> FieldId \<Rightarrow> bool" where
  "contains s i = (map_of (slots s) i \<noteq> None)"

definition contains_set :: "Schema \<Rightarrow> FieldSet \<Rightarrow> bool" where
  "contains_set s fs = (\<forall>i \<in> fs. contains s i)"

definition slot :: "Schema \<Rightarrow> FieldId \<Rightarrow> nat option" where
  "slot s i = map_of (slots s) i"

definition append_field :: "Schema \<Rightarrow> FieldId \<Rightarrow> Schema res" where
  "append_field s i = verify (\<not> contains s i)
     (Inr \<lparr>slots = slots s @ [(i, next_slot s)], next_slot = (next_slot s + 1) mod 2 ^ 32\<rparr>)"

fun place_fields :: "(FieldId \<times> nat) list \<Rightarrow> FieldId list \<Rightarrow> FieldId list res" where
  "place_fields [] r = Inr r"
| "place_fields ((i, k) # es) r =
     verify (k < length r) (verify (r ! k = UnknownFieldId) (place_fields es (r[k := i])))"

definition fieldIds :: "Schema \<Rightarrow> FieldId list res" where
  "fieldIds s = verify (length (slots s) = next_slot s)
     (place_fields (slots s) (replicate (next_slot s) UnknownFieldId))"

definition fieldSet :: "Schema \<Rightarrow> FieldSet res" where
  "fieldSet s = rbind (fieldIds s) (\<lambda>is. Inr (set is))"

definition columns :: "Schema \<Rightarrow> nat" where
  "columns s = next_slot s"

fun append_fields :: "Schema \<Rightarrow> FieldId list \<Rightarrow> Schema res" where
  "append_fields s [] = Inr s"
| "append_fields s (i # is) = rbind (append_field s i) (\<lambda>t. append_fields t is)"

definition fromFieldSet :: "(FieldSet \<Rightarrow> FieldId list) \<Rightarrow> FieldSet \<Rightarrow> Schema res" where
  "fromFieldSet order fs = append_fields emptySchema (order fs)"

definition concat_schema :: "Schema \<Rightarrow> Schema \<Rightarrow> Schema res" where
  "concat_schema a b = rbind (fieldIds b) (\<lambda>is. append_fields a is)"

definition withField :: "(FieldSet \<Rightarrow> FieldId list) \<Rightarrow> FieldId \<Rightarrow> Schema res" where
  "withField order i = fromFieldSet order {i}"

definition schema_eq :: "Schema \<Rightarrow> Schema \<Rightarrow> bool" where
  "schema_eq a b = (next_slot a = next_slot b \<and> set (slots a) = set (slots b))"

text \<open>The schema of a list of fields in slot order.\<close>

definition schema_of :: "FieldId list \<Rightarrow> Schema" where
  "schema_of is = \<lparr>slots = zip is [0..<length is], next_slot = length is\<rparr>"

definition fields_ok :: "FieldId list \<Rightarrow> bool" where
  "fields_ok is \<longleftrightarrow> distinct is \<and> length is < 2 ^ 32"

lemma schema_of_Nil: "emptySchema = schema_of []"
  by (simp add: emptySchema_def schema_of_def)

lemma slot_schema_of:
  "distinct is \<Longrightarrow> slot (schema_of is) i = Some k \<longleftrightarrow> k < length is \<and> is ! k = i"
  by (auto simp: slot_def schema_of_def map_of_eq_Some_iff in_set_zip)

lemma contains_schema_of [simp]: "contains (schema_of is) i \<longleftrightarrow> i \<in> set is"
  by (force simp: contains_def schema_of_def map_of_eq_None_iff in_set_zip in_set_conv_nth)

lemma append_field_schema_of:
  "length is + 1 < 2 ^ 32 \<Longrightarrow>
   append_field (schema_of is) i = (if i \<in> set is then Inl Panic else Inr (schema_of (is @ [i])))"
  by (simp add: append_field_def) (simp add: schema_of_def)

lemma append_fields_schema_of:
  "length is + length js < 2 ^ 32 \<Longrightarrow> distinct is \<Longrightarrow>
   append_fields (schema_of is) js = (if distinct (is @ js) then Inr (schema_of (is @ js)) else Inl Panic)"
proof (induction js arbitrary: "is")
  case Nil
  then show ?case by simp
next
  case (Cons j js)
  then show ?case by (auto simp: append_field_schema_of)
qed

lemma place_fields_zip:
  "place_fields (zip js [length is..<length is + length js]) (is @ replicate (length js) UnknownFieldId) =
   Inr (is @ js)"
proof (induction js arbitrary: "is")
  case Nil
  then show ?case by simp
next
  case (Cons j js)
  have eq: "[length is..<length is + length (j # js)] = length is # [length (is @ [j])..<length (is @ [j]) + length js]"
    by (subst upt_conv_Cons) simp_all
  have upd: "(is @ replicate (length (j # js)) UnknownFieldId)[length is := j] =
      (is @ [j]) @ replicate (length js) UnknownFieldId"
    by simp
  from Cons [of "is @ [j]"] show ?case
    unfolding eq zip_Cons_Cons place_fields.simps upd by (simp add: nth_append del: upt.simps upt_rec_numeral)
qed

lemma fieldIds_schema_of [simp]: "fieldIds (schema_of is) = Inr is"
  using place_fields_zip [of "is" "[]"] by (simp add: fieldIds_def schema_of_def)

lemma fieldSet_schema_of [simp]: "fieldSet (schema_of is) = Inr (set is)"
  by (simp add: fieldSet_def)

lemma columns_schema_of [simp]: "columns (schema_of is) = length is"
  by (simp add: columns_def schema_of_def)

lemma concat_schema_of:
  "length is + length js < 2 ^ 32 \<Longrightarrow> distinct is \<Longrightarrow>
   concat_schema (schema_of is) (schema_of js) =
     (if distinct (is @ js) then Inr (schema_of (is @ js)) else Inl Panic)"
  by (simp add: concat_schema_def append_fields_schema_of)

lemma fromFieldSet_schema_of:
  "order_ok order \<Longrightarrow> finite fs \<Longrightarrow> card fs < 2 ^ 32 \<Longrightarrow> fromFieldSet order fs = Inr (schema_of (order fs))"
  unfolding fromFieldSet_def schema_of_Nil
  by (subst append_fields_schema_of) (auto simp: order_ok_def distinct_card [symmetric])

lemma schema_of_inj: "schema_of is = schema_of js \<longleftrightarrow> is = js"
  using fieldIds_schema_of by (metis sum.inject(2))

lemma schema_eq_schema_of: "schema_eq (schema_of is) (schema_of js) \<longleftrightarrow> is = js"
proof
  assume e: "schema_eq (schema_of is) (schema_of js)"
  then have l: "length is = length js" by (simp add: schema_eq_def schema_of_def)
  show "is = js"
  proof (rule nth_equalityI [OF l])
    fix k assume "k < length is"
    then have "(is ! k, k) \<in> set (slots (schema_of is))" by (force simp: schema_of_def in_set_zip)
    with e have "(is ! k, k) \<in> set (slots (schema_of js))" by (simp add: schema_eq_def)
    then show "is ! k = js ! k" by (auto simp: schema_of_def in_set_zip)
  qed
qed (simp add: schema_eq_def)

end
