(* ===== verification/IR.thy ===== *)
theory IR
  imports Functions Schemas
begin

text \<open>
  src/ir: the scalar expressions, aggregates and relations a query is lowered to, the structural
  equality (util/equal.h) and hash (util/hash.h) their containers use, and the value an expression
  has on a row. The lemmas: equality is an equivalence on expressions without NaN constants, equal
  expressions have equal hashes, and equal expressions have the same value on every row.
\<close>

section \<open>Scalars.h\<close>

datatype Scalar =
    FieldScalar FieldId (value_type: ValueType)
  | ValueScalar Value (value_type: ValueType)
  | CoalesceScalar "Scalar list" (value_type: ValueType)
  | FnCallScalar Function "Scalar list" (value_type: ValueType)
  | CachedScalar Scalar (value_type: ValueType)

section \<open>Aggregates.h\<close>

datatype AggregateNode =
    FnCallAggregate Function "Scalar list"
  | ConstAggregate Value bool

record Aggregate =
  agg_node :: AggregateNode
  output_field_id :: FieldId
  agg_type :: ValueType

section \<open>Relations.h\<close>

record Projector =
  alias_field_id :: FieldId
  expr :: Scalar

text \<open>\<open>TimeRange\<close> of core/types.h.\<close>

record TimeRange =
  range_from :: i64
  range_to :: i64

datatype Relation =
    EmptyRelation (rel_schema: Schema)
  | ValuesRelation "Value list" FieldId (rel_schema: Schema)
  | ProjectionRelation Relation "Projector list" (rel_schema: Schema)
  | AggregateRelation Relation "Aggregate list" (rel_schema: Schema)
  | GroupRelation Relation "Aggregate list" "Projector list" (rel_schema: Schema)
  | LimitRelation Relation int (rel_schema: Schema)
  | FilterRelation Relation Scalar (rel_schema: Schema)
  | SortRelation Relation "Scalar list" bool (rel_schema: Schema)
  | TopKRelation Relation "Scalar list" bool int (rel_schema: Schema)
  | SemiJoinRelation Relation Relation Scalar FieldId (rel_schema: Schema)
  | MarkJoinRelation Relation Relation Scalar FieldId FieldId (rel_schema: Schema)
  | LeftJoinRelation Relation Relation Scalar Scalar (rel_schema: Schema)
  | UnionAllRelation "Relation list" (rel_schema: Schema)
  | UnionAllSortedByRelation Relation Relation "Scalar list" bool (rel_schema: Schema)
  | FileRelation string "TimeRange option" "TimeFormat option" (rel_schema: Schema)
  | StreamRelation string (rel_schema: Schema)
  | NamedRelationReferenceRelation string (rel_schema: Schema)
  | MaterializeRelation Relation (rel_schema: Schema)

section \<open>tools.cpp\<close>

definition schemaFor_projectors :: "Projector list \<Rightarrow> Schema res" where
  "schemaFor_projectors ps = append_fields emptySchema (map alias_field_id ps)"

definition schemaFor_aggregates :: "Aggregate list \<Rightarrow> Schema res" where
  "schemaFor_aggregates ps = append_fields emptySchema (map output_field_id ps)"

section \<open>Structural equality\<close>

fun fn_eq :: "Function \<Rightarrow> Function \<Rightarrow> bool" where
  "fn_eq (Percentile_fn ps t) (Percentile_fn qs u) = (list_all2 f32_eq ps qs \<and> t = u)"
| "fn_eq f g = (f = g)"

fun scalar_eq :: "Scalar \<Rightarrow> Scalar \<Rightarrow> bool"
and scalars_eq :: "Scalar list \<Rightarrow> Scalar list \<Rightarrow> bool" where
  "scalar_eq (FieldScalar i t) (FieldScalar j u) = (i = j \<and> t = u)"
| "scalar_eq (ValueScalar v t) (ValueScalar w u) = (val_eq v w \<and> t = u)"
| "scalar_eq (CoalesceScalar as t) (CoalesceScalar bs u) = (scalars_eq as bs \<and> t = u)"
| "scalar_eq (FnCallScalar f as t) (FnCallScalar g bs u) = (fn_eq f g \<and> scalars_eq as bs \<and> t = u)"
| "scalar_eq (CachedScalar a t) (CachedScalar b u) = (scalar_eq a b \<and> t = u)"
| "scalar_eq _ _ = False"
| "scalars_eq [] [] = True"
| "scalars_eq (a # as) (b # bs) = (scalar_eq a b \<and> scalars_eq as bs)"
| "scalars_eq _ _ = False"

fun agg_node_eq :: "AggregateNode \<Rightarrow> AggregateNode \<Rightarrow> bool" where
  "agg_node_eq (FnCallAggregate f as) (FnCallAggregate g bs) = (fn_eq f g \<and> scalars_eq as bs)"
| "agg_node_eq (ConstAggregate v n) (ConstAggregate w m) = (val_eq v w \<and> n = m)"
| "agg_node_eq _ _ = False"

definition aggregate_eq :: "Aggregate \<Rightarrow> Aggregate \<Rightarrow> bool" where
  "aggregate_eq a b \<longleftrightarrow> agg_node_eq (agg_node a) (agg_node b) \<and>
     output_field_id a = output_field_id b \<and> agg_type a = agg_type b"

section \<open>Hash\<close>

record ir_hash = std_hash +
  hash_u32 :: "32 word \<Rightarrow> 64 word"
  hash_char :: "char \<Rightarrow> 64 word"
  hash_enum :: "nat \<Rightarrow> 64 word"

definition type_index :: "ValueType \<Rightarrow> nat" where
  "type_index t = (case t of Null \<Rightarrow> 0 | Boolean \<Rightarrow> 1 | Integer \<Rightarrow> 2 | Floating \<Rightarrow> 3 | String \<Rightarrow> 4)"

definition format_index :: "TimeFormat \<Rightarrow> nat" where
  "format_index f = (case f of SQL \<Rightarrow> 0 | ORACLE \<Rightarrow> 1 | ISO8601 \<Rightarrow> 2)"

text \<open>Of an aggregate: the hashes of the members combined from zero; of a vector: the hashes of the
  elements combined from the size; of a variant: the hash of the node combined into the index.\<close>

definition hash_fields :: "64 word list \<Rightarrow> 64 word" where
  "hash_fields hs = foldl hash_mix 0 hs"

definition hash_vector :: "64 word list \<Rightarrow> 64 word" where
  "hash_vector hs = foldl hash_mix (of_nat (length hs)) hs"

definition hash_variant :: "nat \<Rightarrow> 64 word \<Rightarrow> 64 word" where
  "hash_variant i h = hash_mix (of_nat i) h"

fun fn_hash :: "ir_hash \<Rightarrow> Function \<Rightarrow> 64 word" where
  "fn_hash H Lower_fn = hash_variant 0 (hash_fields [])"
| "fn_hash H (SplitPart_fn sep i) = hash_variant 1 (hash_fields [hash_char H sep, hash_size H (of_nat i)])"
| "fn_hash H (Substr_fn from len) = hash_variant 2 (hash_fields [hash_size H (of_nat from), hash_size H (of_nat len)])"
| "fn_hash H Coalesce_fn = hash_variant 3 (hash_fields [])"
| "fn_hash H (RSubstr_fn re) = hash_variant 4 (hash_fields [hash_sv H re])"
| "fn_hash H (Like_fn re) = hash_variant 5 (hash_fields [hash_sv H re])"
| "fn_hash H (Cast_fn t) = hash_variant 6 (hash_fields [hash_enum H (type_index t)])"
| "fn_hash H (JSONValue_fn p) = hash_variant 7 (hash_fields [hash_sv H p])"
| "fn_hash H (ParseTimestamp_fn f) = hash_variant 8 (hash_fields [hash_enum H (format_index f)])"
| "fn_hash H BooleanNegate_fn = hash_variant 9 (hash_fields [])"
| "fn_hash H Equal_fn = hash_variant 10 (hash_fields [])"
| "fn_hash H NotEqual_fn = hash_variant 11 (hash_fields [])"
| "fn_hash H (Less_fn t) = hash_variant 12 (hash_fields [hash_enum H (type_index t)])"
| "fn_hash H (Greater_fn t) = hash_variant 13 (hash_fields [hash_enum H (type_index t)])"
| "fn_hash H (LessEqual_fn t) = hash_variant 14 (hash_fields [hash_enum H (type_index t)])"
| "fn_hash H (GreaterEqual_fn t) = hash_variant 15 (hash_fields [hash_enum H (type_index t)])"
| "fn_hash H And_fn = hash_variant 16 (hash_fields [])"
| "fn_hash H Or_fn = hash_variant 17 (hash_fields [])"
| "fn_hash H (Divide_fn t) = hash_variant 18 (hash_fields [hash_enum H (type_index t)])"
| "fn_hash H (Add_fn t) = hash_variant 19 (hash_fields [hash_enum H (type_index t)])"
| "fn_hash H (Subtract_fn t) = hash_variant 20 (hash_fields [hash_enum H (type_index t)])"
| "fn_hash H (Percentile_fn ps t) =
     hash_variant 21 (hash_fields [hash_vector (map (hash_float H) ps), hash_enum H (type_index t)])"
| "fn_hash H CountNonNull_fn = hash_variant 22 (hash_fields [])"
| "fn_hash H CountAll_fn = hash_variant 23 (hash_fields [])"
| "fn_hash H (Min_fn t) = hash_variant 24 (hash_fields [hash_enum H (type_index t)])"
| "fn_hash H (Max_fn t) = hash_variant 25 (hash_fields [hash_enum H (type_index t)])"
| "fn_hash H (Sum_fn t) = hash_variant 26 (hash_fields [hash_enum H (type_index t)])"

fun scalar_hash :: "ir_hash \<Rightarrow> Scalar \<Rightarrow> 64 word" where
  "scalar_hash H (FieldScalar i t) =
     hash_fields [hash_variant 0 (hash_fields [hash_u32 H i]), hash_enum H (type_index t)]"
| "scalar_hash H (ValueScalar v t) =
     hash_fields [hash_variant 1 (hash_fields [val_hash (std_hash.truncate H) v]), hash_enum H (type_index t)]"
| "scalar_hash H (CoalesceScalar as t) =
     hash_fields [hash_variant 2 (hash_fields [hash_vector (map (scalar_hash H) as)]), hash_enum H (type_index t)]"
| "scalar_hash H (FnCallScalar f as t) =
     hash_fields [hash_variant 3 (hash_fields [fn_hash H f, hash_vector (map (scalar_hash H) as)]),
                  hash_enum H (type_index t)]"
| "scalar_hash H (CachedScalar a t) =
     hash_fields [hash_variant 4 (hash_fields [scalar_hash H a]), hash_enum H (type_index t)]"

lemma scalars_eq_list_all2: "scalars_eq as bs = list_all2 scalar_eq as bs"
  by (induction as arbitrary: bs) (case_tac bs; simp)+

lemma f32s_eq_hash:
  "std_hash_ok (std_hash.truncate H) \<Longrightarrow> list_all2 f32_eq ps qs \<Longrightarrow> map (hash_float H) ps = map (hash_float H) qs"
  by (auto simp: list_all2_conv_all_nth std_hash_ok_def std_hash.defs intro!: nth_equalityI)

lemma fn_eq_hash: "std_hash_ok (std_hash.truncate H) \<Longrightarrow> fn_eq f g \<Longrightarrow> fn_hash H f = fn_hash H g"
  by (induction f g rule: fn_eq.induct) (simp_all add: f32s_eq_hash)

lemma scalar_eq_hash:
  assumes "std_hash_ok (std_hash.truncate H)"
  shows "scalar_eq a b \<Longrightarrow> scalar_hash H a = scalar_hash H b"
    and "scalars_eq as bs \<Longrightarrow> map (scalar_hash H) as = map (scalar_hash H) bs"
  by (induction a b and as bs rule: scalar_eq_scalars_eq.induct)
    (auto dest: fn_eq_hash [OF assms] val_eq_hash [OF assms])

section \<open>Equality is an equivalence\<close>

text \<open>Constants without NaN; an expression with one is not equal to itself.\<close>

fun fn_no_nan :: "Function \<Rightarrow> bool" where
  "fn_no_nan (Percentile_fn ps t) = list_all (\<lambda>p. \<not> f32_nan p) ps"
| "fn_no_nan _ = True"

fun scalar_no_nan :: "Scalar \<Rightarrow> bool" where
  "scalar_no_nan (FieldScalar i t) = True"
| "scalar_no_nan (ValueScalar v t) = (\<not> val_nan v)"
| "scalar_no_nan (CoalesceScalar as t) = list_all scalar_no_nan as"
| "scalar_no_nan (FnCallScalar f as t) = (fn_no_nan f \<and> list_all scalar_no_nan as)"
| "scalar_no_nan (CachedScalar a t) = scalar_no_nan a"

lemma fn_eq_refl [simp]: "fn_eq f f = fn_no_nan f"
  by (cases f) (auto simp: list_all2_same list_all_iff)

lemma fn_eq_sym: "fn_eq f g \<Longrightarrow> fn_eq g f"
proof (induction f g rule: fn_eq.induct)
  case (1 ps t qs u)
  then show ?case by (auto simp: list_all2_conv_all_nth f32_eq_sym)
qed (auto; metis fn_eq.simps)+

lemma fn_eq_not_percentile: "fn_eq f g \<Longrightarrow> f = g \<or> (\<exists>ps qs t. f = Percentile_fn ps t \<and> g = Percentile_fn qs t \<and> list_all2 f32_eq ps qs)"
  by (induction f g rule: fn_eq.induct) auto

lemma fn_eq_trans: "fn_eq f g \<Longrightarrow> fn_eq g h \<Longrightarrow> fn_eq f h"
  by (frule fn_eq_not_percentile [of f g], frule fn_eq_not_percentile [of g h])
    (auto intro: list_all2_trans [of f32_eq f32_eq f32_eq, OF f32_eq_trans])

lemma scalar_eq_refl: "scalar_eq a a = scalar_no_nan a"
  by (induction a) (auto simp: scalars_eq_list_all2 list_all2_same list_all_iff)

lemma scalar_eq_sym:
  "scalar_eq a b \<Longrightarrow> scalar_eq b a"
  "scalars_eq as bs \<Longrightarrow> scalars_eq bs as"
  by (induction a b and as bs rule: scalar_eq_scalars_eq.induct) (auto simp: val_eq_sym dest: fn_eq_sym)

lemma scalar_eq_trans:
  "scalar_eq a b \<Longrightarrow> scalar_eq b c \<Longrightarrow> scalar_eq a c"
  "scalars_eq as bs \<Longrightarrow> scalars_eq bs cs \<Longrightarrow> scalars_eq as cs"
proof (induction a b and as bs arbitrary: c and cs rule: scalar_eq_scalars_eq.induct)
  case (1 i t j u)
  then show ?case by (cases c) auto
next
  case (2 v t w u)
  then show ?case by (cases c) (auto intro: val_eq_trans)
next
  case (3 as t bs u)
  then show ?case by (cases c) auto
next
  case (4 f as t g bs u)
  then show ?case by (cases c) (auto intro: fn_eq_trans)
next
  case (5 a t b u)
  then show ?case by (cases c) auto
next
  case (8 a as b bs)
  then show ?case by (cases cs) auto
qed auto

lemma scalar_eq_type: "scalar_eq a b \<Longrightarrow> value_type a = value_type b"
  by (cases a; cases b) auto

text \<open>
  Constants of which equality leaves one representation: no pinned string and no negative zero.
  The parser makes no other.
\<close>

fun f32_canon :: "f32 \<Rightarrow> bool" where
  "f32_canon (F_Zero s) = (\<not> s)"
| "f32_canon (F_NaN s) = False"
| "f32_canon (F_Inf s) = True"
| "f32_canon (F_Fin q) = (q \<noteq> 0)"

fun val_canon :: "Value \<Rightarrow> bool" where
  "val_canon (VPinned p) = False"
| "val_canon (VFloat f) = f32_canon f"
| "val_canon _ = True"

fun fn_canon :: "Function \<Rightarrow> bool" where
  "fn_canon (Percentile_fn ps t) = list_all f32_canon ps"
| "fn_canon _ = True"

fun scalar_canon :: "Scalar \<Rightarrow> bool" where
  "scalar_canon (FieldScalar i t) = True"
| "scalar_canon (ValueScalar v t) = val_canon v"
| "scalar_canon (CoalesceScalar as t) = list_all scalar_canon as"
| "scalar_canon (FnCallScalar f as t) = (fn_canon f \<and> list_all scalar_canon as)"
| "scalar_canon (CachedScalar a t) = scalar_canon a"

lemma f32_eq_canon: "f32_canon a \<Longrightarrow> f32_canon b \<Longrightarrow> f32_eq a b \<longleftrightarrow> a = b"
  by (cases a; cases b) (auto simp: f32_eq_def)

lemma val_eq_canon: "val_canon v \<Longrightarrow> val_canon w \<Longrightarrow> val_eq v w \<longleftrightarrow> v = w"
  by (cases v; cases w) (auto simp: f32_eq_canon)

lemma f32s_eq_canon: "list_all f32_canon ps \<Longrightarrow> list_all f32_canon qs \<Longrightarrow> list_all2 f32_eq ps qs \<Longrightarrow> ps = qs"
  by (auto simp: list_all2_conv_all_nth list_all_length f32_eq_canon intro!: nth_equalityI)

lemma fn_eq_canon: "fn_canon f \<Longrightarrow> fn_canon g \<Longrightarrow> fn_eq f g \<Longrightarrow> f = g"
  by (drule fn_eq_not_percentile) (auto dest: f32s_eq_canon)

lemma scalar_eq_canon:
  "scalar_canon a \<Longrightarrow> scalar_canon b \<Longrightarrow> scalar_eq a b \<Longrightarrow> a = b"
  "list_all scalar_canon as \<Longrightarrow> list_all scalar_canon bs \<Longrightarrow> scalars_eq as bs \<Longrightarrow> as = bs"
  by (induction a b and as bs rule: scalar_eq_scalars_eq.induct)
    (auto simp: val_eq_canon dest: fn_eq_canon)

lemma scalar_canon_refl: "scalar_canon a \<Longrightarrow> scalar_eq a a"
proof -
  have n: "f32_canon p \<Longrightarrow> \<not> f32_nan p" for p
    by (cases p) auto
  have v: "val_canon v \<Longrightarrow> \<not> val_nan v" for v
    by (cases v) (auto dest: n)
  have f: "fn_canon f \<Longrightarrow> fn_no_nan f" for f
    by (cases f) (auto simp: list_all_iff dest: n)
  assume "scalar_canon a"
  then have "scalar_no_nan a"
    by (induction a) (auto simp: list_all_iff v f)
  then show ?thesis by (simp add: scalar_eq_refl)
qed

section \<open>The value of an expression on a row\<close>

text \<open>\<open>env\<close> gives the value of a field. \<open>COALESCE\<close> stops at the first argument that is not null.\<close>

fun coalesce_res :: "Value res list \<Rightarrow> Value res" where
  "coalesce_res [] = Inr vnull"
| "coalesce_res (m # ms) = rbind m (\<lambda>v. if val_eq v vnull then coalesce_res ms else Inr v)"

fun ir_eval_by :: "(Function \<Rightarrow> executor res) \<Rightarrow> (FieldId \<Rightarrow> Value res) \<Rightarrow> Scalar \<Rightarrow> Value res" where
  "ir_eval_by B env (FieldScalar i t) = env i"
| "ir_eval_by B env (ValueScalar v t) = Inr v"
| "ir_eval_by B env (CoalesceScalar as t) = coalesce_res (map (ir_eval_by B env) as)"
| "ir_eval_by B env (FnCallScalar f as t) =
     rbind (B f) (\<lambda>e. rbind (rmap (ir_eval_by B env) as) (execute e))"
| "ir_eval_by B env (CachedScalar a t) = ir_eval_by B env a"

abbreviation ir_eval :: "ext \<Rightarrow> (FieldId \<Rightarrow> Value res) \<Rightarrow> Scalar \<Rightarrow> Value res" where
  "ir_eval X \<equiv> ir_eval_by (buildScalar X)"

text \<open>The fields an expression reads.\<close>

fun scalar_fields :: "Scalar \<Rightarrow> FieldSet" where
  "scalar_fields (FieldScalar i t) = {i}"
| "scalar_fields (ValueScalar v t) = {}"
| "scalar_fields (CoalesceScalar as t) = \<Union> (set (map scalar_fields as))"
| "scalar_fields (FnCallScalar f as t) = \<Union> (set (map scalar_fields as))"
| "scalar_fields (CachedScalar a t) = scalar_fields a"

lemma ir_eval_cong: "(\<And>i. i \<in> scalar_fields s \<Longrightarrow> env i = env' i) \<Longrightarrow> ir_eval_by B env s = ir_eval_by B env' s"
proof (induction s)
  case (CoalesceScalar as t)
  then have "map (ir_eval_by B env) as = map (ir_eval_by B env') as" by (auto intro!: map_cong)
  then show ?case by (metis ir_eval_by.simps(3))
next
  case (FnCallScalar f as t)
  then have "rmap (ir_eval_by B env) as = rmap (ir_eval_by B env') as" by (intro rmap_cong) auto
  then show ?case by simp
qed auto

end
