(* ===== verification/Exec_Scalars.thy ===== *)
theory Exec_Scalars
  imports IR
begin

text \<open>
  src/back/exec/Record.h, src/back/exec/expr and the scalar part of src/back/exec/plan/plan.cpp:
  records, the executable expressions with the per-record cache of \<open>LazyScalar\<close>, and the planning
  of IR expressions into them. The lemmas show that planned expressions, evaluated one after the
  other on a fresh cache, have the values the IR expressions have on the row.
\<close>

section \<open>Record.h and the records of the operators\<close>

text \<open>A clone of a record is equal to it, so \<open>clone\<close> and \<open>pin\<close> are the identity here.\<close>

datatype Record =
    EmptyRecord
  | VecRecord "Value list"
  | AggregateState "Value list"
  | HashLeftJoinRecord Record "Record option" nat
  | HashMarkJoinRecord Value nat Record
  | ValueRecord Value

text \<open>\<open>Record::value\<close>: the range of a slot is only checked in debug builds.\<close>

fun rec_value :: "Record \<Rightarrow> nat \<Rightarrow> Value res" where
  "rec_value EmptyRecord k = Inr vnull"
| "rec_value (VecRecord vs) k = (if k < length vs then Inr (vs ! k) else Inl Undefined)"
| "rec_value (AggregateState vs) k = (if k < length vs then Inr (vs ! k) else Inl Undefined)"
| "rec_value (HashLeftJoinRecord l r n) k =
     (if k < n then rec_value l k else (case r of Some q \<Rightarrow> rec_value q (k - n) | None \<Rightarrow> Inr vnull))"
| "rec_value (HashMarkJoinRecord v s c) k = (if k = s then Inr v else rec_value c k)"
| "rec_value (ValueRecord v) k = Inr v"

section \<open>ScalarContext.h\<close>

type_synonym ScalarContext = "Value option list"

definition addSlot :: "ScalarContext \<Rightarrow> nat \<times> ScalarContext" where
  "addSlot c = (length c, c @ [None])"

definition ctx_value :: "ScalarContext \<Rightarrow> nat \<Rightarrow> Value option res" where
  "ctx_value c i = (if i < length c then Inr (c ! i) else Inl Out_Of_Range)"

definition reset :: "ScalarContext \<Rightarrow> ScalarContext" where
  "reset c = map (\<lambda>_. None) c"

section \<open>The executable expressions\<close>

datatype exec_scalar =
    IdentifierScalar nat FieldId ValueType
  | ExecValueScalar Value
  | ExecCoalesceScalar ValueType "exec_scalar list"
  | UnaryFnScalar ValueType "Value \<Rightarrow> Value res" exec_scalar
  | BinaryFnScalar ValueType "Value \<Rightarrow> Value \<Rightarrow> Value res" exec_scalar exec_scalar
  | NaryFnScalar ValueType "Value list \<Rightarrow> Value res" "exec_scalar list"
  | LazyScalar nat exec_scalar

text \<open>
  \<open>eval\<close> threads the cache. C++ leaves the order of the two arguments of \<open>BinaryFnScalar\<close> open;
  the model evaluates the left one first.
\<close>

fun eval :: "exec_scalar \<Rightarrow> ScalarContext \<Rightarrow> Record \<Rightarrow> (Value \<times> ScalarContext) res"
and eval_list :: "exec_scalar list \<Rightarrow> ScalarContext \<Rightarrow> Record \<Rightarrow> (Value list \<times> ScalarContext) res"
and eval_coalesce :: "exec_scalar list \<Rightarrow> ScalarContext \<Rightarrow> Record \<Rightarrow> (Value \<times> ScalarContext) res" where
  "eval (IdentifierScalar k i t) c r = rbind (rec_value r k) (\<lambda>v. Inr (v, c))"
| "eval (ExecValueScalar v) c r = Inr (v, c)"
| "eval (ExecCoalesceScalar t es) c r = eval_coalesce es c r"
| "eval (UnaryFnScalar t f e) c r = rbind (eval e c r) (\<lambda>(v, c'). rbind (f v) (\<lambda>w. Inr (w, c')))"
| "eval (BinaryFnScalar t f a b) c r =
     rbind (eval a c r) (\<lambda>(v, c'). rbind (eval b c' r) (\<lambda>(w, c''). rbind (f v w) (\<lambda>u. Inr (u, c''))))"
| "eval (NaryFnScalar t f es) c r = rbind (eval_list es c r) (\<lambda>(vs, c'). rbind (f vs) (\<lambda>w. Inr (w, c')))"
| "eval (LazyScalar i e) c r =
     rbind (ctx_value c i) (\<lambda>m. case m of
       Some v \<Rightarrow> Inr (v, c)
     | None \<Rightarrow> rbind (eval e c r) (\<lambda>(v, c'). Inr (v, c'[i := Some v])))"
| "eval_list [] c r = Inr ([], c)"
| "eval_list (e # es) c r =
     rbind (eval e c r) (\<lambda>(v, c'). rbind (eval_list es c' r) (\<lambda>(vs, c''). Inr (v # vs, c'')))"
| "eval_coalesce [] c r = Inr (vnull, c)"
| "eval_coalesce (e # es) c r =
     rbind (eval e c r) (\<lambda>(v, c'). if val_eq v vnull then eval_coalesce es c' r else Inr (v, c'))"

fun requiredFields :: "exec_scalar \<Rightarrow> FieldSet" where
  "requiredFields (IdentifierScalar k i t) = {i}"
| "requiredFields (ExecValueScalar v) = {}"
| "requiredFields (ExecCoalesceScalar t es) = \<Union> (set (map requiredFields es))"
| "requiredFields (UnaryFnScalar t f e) = requiredFields e"
| "requiredFields (BinaryFnScalar t f a b) = fs_merge (requiredFields a) (requiredFields b)"
| "requiredFields (NaryFnScalar t f es) = \<Union> (set (map requiredFields es))"
| "requiredFields (LazyScalar i e) = requiredFields e"

section \<open>plan.cpp: planning expressions\<close>

record ScalarScope =
  context_slots :: ScalarContext
  expressions :: "(Scalar \<times> nat) list"

definition emptyScope :: ScalarScope where
  "emptyScope = \<lparr>context_slots = [], expressions = []\<rparr>"

text \<open>\<open>ScalarScope::slot\<close>: the map is keyed by the structural equality.\<close>

definition scope_slot :: "ScalarScope \<Rightarrow> Scalar \<Rightarrow> nat \<times> ScalarScope" where
  "scope_slot sc s = (case List.find (\<lambda>(t, _). scalar_eq t s) (expressions sc) of
     Some (_, i) \<Rightarrow> (i, sc)
   | None \<Rightarrow> (let (i, c) = addSlot (context_slots sc) in
              (i, \<lparr>context_slots = c, expressions = expressions sc @ [(s, i)]\<rparr>)))"

fun build_call :: "ValueType \<Rightarrow> executor \<Rightarrow> exec_scalar list \<Rightarrow> exec_scalar res" where
  "build_call t (UnaryExecutor f) es = verify (length es = 1) (Inr (UnaryFnScalar t f (es ! 0)))"
| "build_call t (BinaryExecutor f) es = verify (length es = 2) (Inr (BinaryFnScalar t f (es ! 0) (es ! 1)))"
| "build_call t (NaryExecutor f) es = Inr (NaryFnScalar t f es)"

fun planScalar :: "ext \<Rightarrow> Schema \<Rightarrow> ScalarScope option \<Rightarrow> Scalar \<Rightarrow> (exec_scalar \<times> ScalarScope option) res"
and expressionList ::
  "ext \<Rightarrow> Schema \<Rightarrow> ScalarScope option \<Rightarrow> Scalar list \<Rightarrow> (exec_scalar list \<times> ScalarScope option) res" where
  "planScalar X sch sc (FieldScalar i t) =
     (case slot sch i of None \<Rightarrow> Inl Panic | Some k \<Rightarrow> Inr (IdentifierScalar k i t, sc))"
| "planScalar X sch sc (ValueScalar v t) = Inr (ExecValueScalar v, sc)"
| "planScalar X sch sc (CachedScalar a t) =
     (case sc of
        None \<Rightarrow> planScalar X sch None a
      | Some scope \<Rightarrow> (let (i, scope') = scope_slot scope a in
          rbind (planScalar X sch (Some scope') a) (\<lambda>(e, sc'). Inr (LazyScalar i e, sc'))))"
| "planScalar X sch sc (CoalesceScalar as t) =
     rbind (expressionList X sch sc as) (\<lambda>(es, sc'). Inr (ExecCoalesceScalar t es, sc'))"
| "planScalar X sch sc (FnCallScalar f as t) =
     rbind (expressionList X sch sc as) (\<lambda>(es, sc').
       rbind (buildScalar X f) (\<lambda>ex. rbind (build_call t ex es) (\<lambda>e. Inr (e, sc'))))"
| "expressionList X sch sc [] = Inr ([], sc)"
| "expressionList X sch sc (a # as) =
     rbind (planScalar X sch sc a) (\<lambda>(e, sc').
       rbind (expressionList X sch sc' as) (\<lambda>(es, sc''). Inr (e # es, sc'')))"

section \<open>Planned expressions have the value of the IR expression\<close>

text \<open>\<open>planned F\<close>: the executable expression is one of the plans of the expression when the slots
  are those of \<open>F\<close>.\<close>

inductive planned :: "ext \<Rightarrow> Schema \<Rightarrow> (Scalar \<times> nat) set \<Rightarrow> Scalar \<Rightarrow> exec_scalar \<Rightarrow> bool"
  for X :: ext and sch :: Schema and F :: "(Scalar \<times> nat) set" where
  planned_field: "slot sch i = Some k \<Longrightarrow> planned X sch F (FieldScalar i t) (IdentifierScalar k i t)"
| planned_value: "planned X sch F (ValueScalar v t) (ExecValueScalar v)"
| planned_coalesce: "list_all2 (planned X sch F) as es \<Longrightarrow> planned X sch F (CoalesceScalar as t) (ExecCoalesceScalar t es)"
| planned_call: "list_all2 (planned X sch F) as es \<Longrightarrow> buildScalar X f = Inr ex \<Longrightarrow> build_call t ex es = Inr e \<Longrightarrow>
    planned X sch F (FnCallScalar f as t) e"
| planned_uncached: "planned X sch F a e \<Longrightarrow> planned X sch F (CachedScalar a t) e"
| planned_lazy: "planned X sch F a e \<Longrightarrow> (a, i) \<in> F \<Longrightarrow> planned X sch F (CachedScalar a t) (LazyScalar i e)"
  monos list_all2_mono

lemma planned_mono: "planned X sch F s e \<Longrightarrow> F \<subseteq> G \<Longrightarrow> planned X sch G s e"
proof (induction rule: planned.induct)
  case (planned_coalesce as es t)
  then show ?case by (auto intro!: planned.planned_coalesce elim!: list_all2_mono)
next
  case (planned_call as es f ex t e)
  then show ?case by (auto intro!: planned.planned_call elim!: list_all2_mono)
qed (auto intro: planned.intros)

text \<open>The scope invariant: slot ids are distinct and in range, keys are canonical.\<close>

definition scope_wf :: "ScalarScope \<Rightarrow> bool" where
  "scope_wf sc \<longleftrightarrow> distinct (map snd (expressions sc)) \<and>
     (\<forall>(s, i) \<in> set (expressions sc). scalar_canon s \<and> i < length (context_slots sc))"

definition scope_set :: "ScalarScope option \<Rightarrow> (Scalar \<times> nat) set" where
  "scope_set sc = (case sc of None \<Rightarrow> {} | Some s \<Rightarrow> set (expressions s))"

lemma scope_set_simps [simp]: "scope_set None = {}" "scope_set (Some s) = set (expressions s)"
  by (simp_all add: scope_set_def)

lemma scope_wf_empty [simp]: "scope_wf emptyScope"
  by (simp add: scope_wf_def emptyScope_def)

lemma scope_slot_ok:
  assumes wf: "scope_wf sc" and canon: "scalar_canon s" and sl: "scope_slot sc s = (i, sc')"
  shows "scope_wf sc'" "(s, i) \<in> set (expressions sc')" "set (expressions sc) \<subseteq> set (expressions sc')"
proof -
  have "scope_wf sc' \<and> (s, i) \<in> set (expressions sc') \<and> set (expressions sc) \<subseteq> set (expressions sc')"
  proof (cases "List.find (\<lambda>(t, _). scalar_eq t s) (expressions sc)")
    case None
    with sl have i: "i = length (context_slots sc)"
      and sc': "sc' = \<lparr>context_slots = context_slots sc @ [None], expressions = expressions sc @ [(s, i)]\<rparr>"
      by (auto simp: scope_slot_def addSlot_def)
    with wf canon show ?thesis by (fastforce simp: scope_wf_def)
  next
    case (Some p)
    then obtain t j where p: "p = (t, j)" by force
    with Some have "(t, j) \<in> set (expressions sc)" "scalar_eq t s"
      by (auto simp: find_Some_iff in_set_conv_nth)
    moreover from this wf have "scalar_canon t" by (auto simp: scope_wf_def)
    ultimately have "(s, j) \<in> set (expressions sc)" using canon scalar_eq_canon(1) by blast
    with Some p sl wf show ?thesis by (auto simp: scope_slot_def)
  qed
  then show "scope_wf sc'" "(s, i) \<in> set (expressions sc')" "set (expressions sc) \<subseteq> set (expressions sc')"
    by auto
qed

definition scope_ok :: "ScalarScope option \<Rightarrow> bool" where
  "scope_ok sc = (case sc of None \<Rightarrow> True | Some s \<Rightarrow> scope_wf s)"

lemma scope_ok_simps [simp]: "scope_ok None" "scope_ok (Some s) = scope_wf s"
  by (simp_all add: scope_ok_def)

lemma planScalar_planned:
  "planScalar X sch sc s = Inr (e, sc') \<Longrightarrow> scope_ok sc \<Longrightarrow> scalar_canon s \<Longrightarrow>
     scope_ok sc' \<and> scope_set sc \<subseteq> scope_set sc' \<and> planned X sch (scope_set sc') s e"
  "expressionList X sch sc as = Inr (es, sc') \<Longrightarrow> scope_ok sc \<Longrightarrow> list_all scalar_canon as \<Longrightarrow>
     scope_ok sc' \<and> scope_set sc \<subseteq> scope_set sc' \<and> list_all2 (planned X sch (scope_set sc')) as es"
proof (induction X sch sc s and X sch sc as arbitrary: e sc' and es sc' rule: planScalar_expressionList.induct)
  case (3 X sch sc a t)
  show ?case
  proof (cases sc)
    case None
    with 3 show ?thesis by (auto intro: planned_uncached)
  next
    case (Some scope)
    obtain i scope' where sl: "scope_slot scope a = (i, scope')" by force
    with 3 Some obtain e1 where e1: "planScalar X sch (Some scope') a = Inr (e1, sc')" and e: "e = LazyScalar i e1"
      by auto
    from scope_slot_ok [OF _ _ sl] 3 Some have ok: "scope_wf scope'" "(a, i) \<in> set (expressions scope')"
      "set (expressions scope) \<subseteq> set (expressions scope')"
      by auto
    from 3(2) [OF Some sl [symmetric] refl e1] ok 3
    have "scope_ok sc' \<and> scope_set (Some scope') \<subseteq> scope_set sc' \<and> planned X sch (scope_set sc') a e1"
      by auto
    with ok Some show ?thesis unfolding e by (auto intro: planned_lazy)
  qed
next
  case (5 X sch sc f as t)
  then obtain es ex where es: "expressionList X sch sc as = Inr (es, sc')" and ex: "buildScalar X f = Inr ex"
    and e: "build_call t ex es = Inr e"
    by auto
  from 5(1) [OF es] 5(3,4) have "scope_ok sc' \<and> scope_set sc \<subseteq> scope_set sc' \<and>
      list_all2 (planned X sch (scope_set sc')) as es"
    by auto
  with ex e show ?case by (auto intro: planned_call)
next
  case (7 X sch sc a as)
  then obtain e sc1 es1 where e: "planScalar X sch sc a = Inr (e, sc1)"
    and es: "expressionList X sch sc1 as = Inr (es1, sc')" "es = e # es1"
    by auto
  from 7(1) [OF e] 7 have a: "scope_ok sc1 \<and> scope_set sc \<subseteq> scope_set sc1 \<and> planned X sch (scope_set sc1) a e"
    by auto
  from 7(2) [OF e refl es(1)] a 7 have b: "scope_ok sc' \<and> scope_set sc1 \<subseteq> scope_set sc' \<and>
      list_all2 (planned X sch (scope_set sc')) as es1"
    by auto
  with a es show ?case by (auto intro: planned_mono)
qed (auto intro: planned.intros split: option.splits)

text \<open>The cache invariant: a filled slot has the value of every expression of that slot.\<close>

definition ctx_ok :: "ext \<Rightarrow> (FieldId \<Rightarrow> Value res) \<Rightarrow> (Scalar \<times> nat) set \<Rightarrow> ScalarContext \<Rightarrow> bool" where
  "ctx_ok X env F c \<longleftrightarrow>
     (\<forall>(s, i) \<in> F. i < length c \<and> (\<forall>v. c ! i = Some v \<longrightarrow> ir_eval X env s = Inr v)) \<and>
     (\<forall>(s, i) \<in> F. \<forall>(t, j) \<in> F. i = j \<longrightarrow> s = t)"

definition agrees :: "('b \<Rightarrow> bool) \<Rightarrow> 'a res \<Rightarrow> ('a \<times> 'b) res \<Rightarrow> bool" where
  "agrees P m n = (case m of Inl f \<Rightarrow> n = Inl f | Inr v \<Rightarrow> (\<exists>c. n = Inr (v, c) \<and> P c))"

lemma agrees_simps [simp]:
  "agrees P (Inl f) n \<longleftrightarrow> n = Inl f"
  "agrees P (Inr v) n \<longleftrightarrow> (\<exists>c. n = Inr (v, c) \<and> P c)"
  by (simp_all add: agrees_def)

lemma agrees_rbind:
  assumes "agrees P m n" "\<And>v c. P c \<Longrightarrow> agrees Q (f v) (g (v, c))"
  shows "agrees Q (rbind m f) (rbind n g)"
  using assms by (cases m) auto

lemma agrees_pure: "P c \<Longrightarrow> agrees P m (rbind m (\<lambda>v. Inr (v, c)))"
  by (cases m) auto

lemma eval_list_planned:
  assumes "list_all2 (\<lambda>a e. \<forall>c. ctx_ok X env F c \<longrightarrow> agrees (ctx_ok X env F) (ir_eval X env a) (eval e c r)) as es"
    and "ctx_ok X env F c"
  shows "agrees (ctx_ok X env F) (rmap (ir_eval X env) as) (eval_list es c r)"
    and "agrees (ctx_ok X env F) (coalesce_res (map (ir_eval X env) as)) (eval_coalesce es c r)"
proof -
  show "agrees (ctx_ok X env F) (rmap (ir_eval X env) as) (eval_list es c r)"
    using assms
    by (induction arbitrary: c rule: list_all2_induct)
      (auto intro!: agrees_rbind [where P = "ctx_ok X env F"])
  show "agrees (ctx_ok X env F) (coalesce_res (map (ir_eval X env) as)) (eval_coalesce es c r)"
    using assms
    by (induction arbitrary: c rule: list_all2_induct)
      (auto intro!: agrees_rbind [where P = "ctx_ok X env F"])
qed

lemma build_call_eval:
  assumes "build_call t ex es = Inr e" "agrees P (rmap g as) (eval_list es c r)" "length as = length es"
  shows "agrees P (rbind (rmap g as) (execute ex)) (eval e c r)"
proof (cases ex)
  case (UnaryExecutor f)
  with assms obtain a where es: "es = [a]" and e: "e = UnaryFnScalar t f a"
    by (cases es) (auto split: if_splits)
  from es assms(3) obtain b where "as = [b]" by (cases as) auto
  with es e assms(2) UnaryExecutor show ?thesis
    by (cases "g b"; cases "eval a c r") (auto intro: agrees_pure)
next
  case (BinaryExecutor f)
  with assms obtain a b where es: "es = [a, b]" and e: "e = BinaryFnScalar t f a b"
    by (auto simp: length_Suc_conv numeral_2_eq_2 split: if_splits)
  from es assms(3) obtain a' b' where "as = [a', b']" by (auto simp: length_Suc_conv numeral_2_eq_2)
  with es e assms(2) BinaryExecutor show ?thesis
    by (cases "g a'"; cases "g b'"; cases "eval a c r") (auto simp: rbind_Inl_iff intro: agrees_pure)
next
  case (NaryExecutor f)
  with assms show ?thesis
    by (cases "rmap g as"; cases "eval_list es c r") (auto intro: agrees_pure)
qed

lemma ctx_ok_slot: "ctx_ok X env F c \<Longrightarrow> (a, i) \<in> F \<Longrightarrow> i < length c"
  by (auto simp: ctx_ok_def)

lemma ctx_ok_filled: "ctx_ok X env F c \<Longrightarrow> (a, i) \<in> F \<Longrightarrow> c ! i = Some v \<Longrightarrow> ir_eval X env a = Inr v"
  by (auto simp: ctx_ok_def)

lemma ctx_ok_fill:
  "ctx_ok X env F c \<Longrightarrow> (a, i) \<in> F \<Longrightarrow> ir_eval X env a = Inr v \<Longrightarrow> ctx_ok X env F (c[i := Some v])"
proof -
  assume c: "ctx_ok X env F c" and F: "(a, i) \<in> F" and v: "ir_eval X env a = Inr v"
  have same: "s = a" if "(s, i) \<in> F" for s using c F that by (auto simp: ctx_ok_def)
  have "j < length (c[i := Some v]) \<and> (\<forall>w. c[i := Some v] ! j = Some w \<longrightarrow> ir_eval X env s = Inr w)"
    if "(s, j) \<in> F" for s j
    using ctx_ok_slot [OF c that] ctx_ok_filled [OF c that] same [of s] v that
    by (cases "i = j") auto
  with c show ?thesis by (auto simp: ctx_ok_def)
qed

lemma lazy_eval:
  assumes F: "(a, i) \<in> F" and c: "ctx_ok X env F c"
    and e: "agrees (ctx_ok X env F) (ir_eval X env a) (eval e c r)"
  shows "agrees (ctx_ok X env F) (ir_eval X env (CachedScalar a t)) (eval (LazyScalar i e) c r)"
proof (cases "c ! i")
  case (Some v)
  from ctx_ok_filled [OF c F Some] c ctx_ok_slot [OF c F] Some show ?thesis
    by (simp add: ctx_value_def)
next
  case None
  from ctx_ok_slot [OF c F] None
  have "eval (LazyScalar i e) c r = rbind (eval e c r) (\<lambda>(v, c'). Inr (v, c'[i := Some v]))"
    by (simp add: ctx_value_def)
  with e show ?thesis
    by (cases "ir_eval X env a") (auto dest: ctx_ok_fill [OF _ F])
qed

lemma eval_planned:
  assumes env: "\<And>i k. slot sch i = Some k \<Longrightarrow> env i = rec_value r k"
  shows "planned X sch F s e \<Longrightarrow> ctx_ok X env F c \<Longrightarrow> agrees (ctx_ok X env F) (ir_eval X env s) (eval e c r)"
proof (induction arbitrary: c rule: planned.induct)
  case (planned_field i k t)
  with env [of i k] show ?case by (auto intro: agrees_pure)
next
  case (planned_coalesce as es t)
  then have "list_all2 (\<lambda>a e. \<forall>c. ctx_ok X env F c \<longrightarrow> agrees (ctx_ok X env F) (ir_eval X env a) (eval e c r)) as es"
    by (auto elim: list_all2_mono)
  from eval_list_planned(2) [OF this planned_coalesce(2)] show ?case
    by (metis eval.simps(3) ir_eval_by.simps(3))
next
  case (planned_call as es f ex t e)
  then have "list_all2 (\<lambda>a e. \<forall>c. ctx_ok X env F c \<longrightarrow> agrees (ctx_ok X env F) (ir_eval X env a) (eval e c r)) as es"
    by (auto elim: list_all2_mono)
  from eval_list_planned(1) [OF this planned_call.prems] planned_call show ?case
    by (auto intro!: build_call_eval dest: list_all2_lengthD)
next
  case (planned_lazy a e i t)
  show ?case by (rule lazy_eval [OF planned_lazy.hyps(2) planned_lazy.prems planned_lazy.IH [OF planned_lazy.prems]])
qed (simp_all)

lemma ctx_ok_reset:
  "scope_wf sc \<Longrightarrow> ctx_ok X env (set (expressions sc)) (reset (context_slots sc))"
  by (fastforce simp: ctx_ok_def scope_wf_def reset_def distinct_conv_nth in_set_conv_nth)

text \<open>A list of expressions planned in one scope, evaluated in order on the reset cache.\<close>

lemma planned_list_eval:
  assumes "expressionList X sch (Some emptyScope) as = Inr (es, Some sc)" "list_all scalar_canon as"
    and "\<And>i k. slot sch i = Some k \<Longrightarrow> env i = rec_value r k"
  shows "agrees (ctx_ok X env (set (expressions sc))) (rmap (ir_eval X env) as)
           (eval_list es (reset (context_slots sc)) r)"
proof -
  from planScalar_planned(2) [OF assms(1)] assms(2)
  have wf: "scope_wf sc" and "list_all2 (planned X sch (set (expressions sc))) as es" by auto
  then have "list_all2 (\<lambda>a e. \<forall>c. ctx_ok X env (set (expressions sc)) c \<longrightarrow>
      agrees (ctx_ok X env (set (expressions sc))) (ir_eval X env a) (eval e c r)) as es"
    by (auto elim!: list_all2_mono intro!: eval_planned [OF assms(3)])
  from eval_list_planned(1) [OF this ctx_ok_reset [OF wf]] show ?thesis .
qed

lemma expressionList_scope: 
  "planScalar X sch sc s = Inr (e, sc') \<Longrightarrow> (sc' = None) = (sc = None)"
  "expressionList X sch sc as = Inr (es, sc') \<Longrightarrow> (sc' = None) = (sc = None)"
  by (induction X sch sc s and X sch sc as arbitrary: e sc' and es sc' rule: planScalar_expressionList.induct)
    (auto split: option.splits prod.splits)

section \<open>Properties\<close>

text \<open>C18: The expressions of an operator, planned together with one cache slot per distinct cached
  expression and evaluated in order on the emptied cache, have the values (or the first error) of the
  IR expressions on the row: caching is not observable. Constants have their canonical form.\<close>

theorem planned_evaluation_correct:
  assumes "expressionList X sch (Some emptyScope) as = Inr (es, Some sc)" and "list_all scalar_canon as"
    and "\<forall>i k. slot sch i = Some k \<longrightarrow> env i = rec_value r k"
  shows "rbind (eval_list es (reset (context_slots sc)) r) (\<lambda>(vs, c). Inr vs) = rmap (ir_eval X env) as"
  using planned_list_eval [OF assms(1,2), of env r] assms(3) by (cases "rmap (ir_eval X env) as") auto

theorem planned_evaluation_correct_witness:
  "rbind (eval_list [LazyScalar 0 (UnaryFnScalar String LowerExecutor (IdentifierScalar 0 7 String)),
                     LazyScalar 0 (UnaryFnScalar String LowerExecutor (IdentifierScalar 0 7 String))]
            (reset [None]) (VecRecord [VString ''Ab''])) (\<lambda>(vs, c). Inr vs) = Inr [VString ''ab'', VString ''ab'']"
proof -
  let ?s = "CachedScalar (FnCallScalar Lower_fn [FieldScalar 7 String] String) String"
  let ?sc = "\<lparr>context_slots = [None], expressions = [(FnCallScalar Lower_fn [FieldScalar 7 String] String, 0)]\<rparr>"
  let ?env = "\<lambda>i. rec_value (VecRecord [VString ''Ab'']) 0"
  have plan: "expressionList undefined (schema_of [7]) (Some emptyScope) [?s, ?s] =
      Inr ([LazyScalar 0 (UnaryFnScalar String LowerExecutor (IdentifierScalar 0 7 String)),
            LazyScalar 0 (UnaryFnScalar String LowerExecutor (IdentifierScalar 0 7 String))], Some ?sc)"
    by (simp add: emptyScope_def scope_slot_def addSlot_def slot_def schema_of_def)
  have "rmap (ir_eval undefined ?env) [?s, ?s] = Inr [VString ''ab'', VString ''ab'']"
    by (simp add: LowerExecutor_def) code_simp
  then show ?thesis
    using planned_evaluation_correct [OF plan, of ?env "VecRecord [VString ''Ab'']"]
    by (simp add: slot_def schema_of_def)
qed

end
