(* ===== verification/Phys_Base.thy ===== *)
theory Phys_Base
  imports Exec_Scalars
begin

text \<open>
  src/back/exec/phys/Operation.h and Subscriber.h: the push protocol of the physical operators. An
  operation emits a record, or the end of the stream, to its subscribers and forgets those that
  answer false. The interfaces are two locales: what a subscriber promises (it never asks for more
  after the end of the stream) and what an emitter gives the operation in front of it.
\<close>

section \<open>Subscribers and emitters\<close>

text \<open>
  \<open>consume\<close> on a state; \<open>None\<close> is the null pointer that ends the stream. The Boolean asks for more.
\<close>

type_synonym 's consumer = "'s \<Rightarrow> Record option \<Rightarrow> (bool \<times> 's) res"

text \<open>
  \<open>OperationBase::emit\<close>: subscribers are ids into a shared state \<open>'w\<close>, since several of them can feed
  one operation. \<open>flat_hash_set\<close> fixes no order of the subscribers; the list gives the one of the run.
\<close>

type_synonym 'w out = "nat list \<times> 'w"

fun emit_to :: "(nat \<Rightarrow> 'w consumer) \<Rightarrow> nat list \<Rightarrow> 'w \<Rightarrow> Record option \<Rightarrow> (nat list \<times> 'w) res" where
  "emit_to c [] w r = Inr ([], w)"
| "emit_to c (i # is) w r =
     rbind (c i w r) (\<lambda>(cont, w'). rbind (emit_to c is w' r) (\<lambda>(js, w''). Inr (if cont then i # js else js, w'')))"

definition op_active :: "'w out \<Rightarrow> bool" where
  "op_active d = (fst d \<noteq> [])"

definition op_emit :: "(nat \<Rightarrow> 'w consumer) \<Rightarrow> 'w out consumer" where
  "op_emit c d r = rbind (emit_to c (fst d) (snd d) r) (\<lambda>d'. Inr (op_active d', d'))"

definition subscribe :: "'w out \<Rightarrow> nat \<Rightarrow> 'w out res" where
  "subscribe d i = verify (i \<notin> set (fst d)) (Inr (i # fst d, snd d))"

text \<open>What an operation with one subscriber does to it: feed it until it answers false.\<close>

fun drive :: "'s consumer \<Rightarrow> 's \<Rightarrow> Record option list \<Rightarrow> 's res" where
  "drive c s [] = Inr s"
| "drive c s (e # es) = rbind (c s e) (\<lambda>(cont, s'). if cont then drive c s' es else Inr s')"

text \<open>A stream: its records and then the end.\<close>

abbreviation stream :: "Record list \<Rightarrow> Record option list" where
  "stream rs \<equiv> map Some rs @ [None]"

lemma drive_append_stop:
  "drive c s es = Inr s' \<Longrightarrow> (\<And>e. c s' e = Inr (False, s')) \<Longrightarrow> drive c s (es @ [e]) = Inr s'"
  by (induction es arbitrary: s) (auto split: if_splits)

section \<open>The interfaces\<close>

locale subscriber =
  fixes consume :: "'s consumer"
  assumes consume_eof: "consume s None = Inr (b, s') \<Longrightarrow> \<not> b"
begin

lemma drive_eof: "drive consume s (None # es) = rbind (consume s None) (\<lambda>(b, s'). Inr s')"
  by (cases "consume s None") (auto dest: consume_eof)

end

text \<open>
  \<open>out\<close> emits to the subscribers there still are and answers whether some are left; with none it
  does nothing; none is left after the end of the stream.
\<close>

locale emitter =
  fixes out :: "'o consumer" and live :: "'o \<Rightarrow> bool"
  assumes out_live: "out d r = Inr (b, d') \<Longrightarrow> b = live d'"
    and out_dead: "\<not> live d \<Longrightarrow> out d r = Inr (False, d)"
    and out_eof: "out d None = Inr (b, d') \<Longrightarrow> \<not> live d'"
begin

lemma drive_dead [simp]: "\<not> live d \<Longrightarrow> drive out d es = Inr d"
  by (cases es) (simp_all add: out_dead)

lemma drive_Cons: "drive out d (e # es) = rbind (out d e) (\<lambda>(b, d'). drive out d' es)"
  by (cases "out d e") (auto dest: out_live)

lemma drive_out_append: "drive out d (es @ fs) = rbind (drive out d es) (\<lambda>d'. drive out d' fs)"
proof (induction es arbitrary: d)
  case (Cons e es)
  then show ?case by (cases "out d e") (auto simp: drive_Cons simp del: drive.simps(2))
qed simp

lemma drive_None: "drive out d (None # es) = rbind (out d None) (\<lambda>(b, d'). Inr d')"
  by (cases "out d None") (auto simp: drive_Cons dest: out_eof simp del: drive.simps(2))

end

lemma emit_to_inactive: "fst d = [] \<Longrightarrow> op_emit c d r = Inr (False, d)"
  by (cases d) (simp add: op_emit_def op_active_def)

text \<open>The emitter of an operation meets its contract when its subscribers meet theirs.\<close>

lemma emit_to_eof:
  assumes "\<And>i s b s'. c i s None = Inr (b, s') \<Longrightarrow> \<not> b"
  shows "emit_to c is w None = Inr (js, w') \<Longrightarrow> js = []"
  using assms by (induction "is" arbitrary: w js w') (auto split: if_splits, blast+)

locale subscribers =
  fixes c :: "nat \<Rightarrow> 'w consumer"
  assumes each: "subscriber (c i)"
begin

lemma eof_false: "c i s None = Inr (b, s') \<Longrightarrow> \<not> b"
  using each [of i] by (rule subscriber.consume_eof)

end

lemma emit_live: "op_emit c d r = Inr (b, d') \<Longrightarrow> b = op_active d'"
  by (auto simp: op_emit_def)

lemma emit_dead: "\<not> op_active d \<Longrightarrow> op_emit c d r = Inr (False, d)"
  by (simp add: op_active_def emit_to_inactive)

lemma emit_eof:
  assumes "\<And>i s b s'. c i s None = Inr (b, s') \<Longrightarrow> \<not> b" and "op_emit c d None = Inr (b, d')"
  shows "\<not> op_active d'"
proof -
  from assms(2) have "emit_to c (fst d) (snd d) None = Inr (fst d', snd d')" by (auto simp: op_emit_def)
  from emit_to_eof [OF assms(1) this] show ?thesis by (simp add: op_active_def)
qed

text \<open>No subscriber asks for more after the end of the stream.\<close>

definition ends_at_eof :: "(nat \<Rightarrow> 'w consumer) \<Rightarrow> bool" where
  "ends_at_eof c \<longleftrightarrow> (\<forall>i s b s'. c i s None = Inr (b, s') \<longrightarrow> \<not> b)"

lemma emitter_of:
  assumes "ends_at_eof c"
  shows "emitter (op_emit c) op_active"
proof (unfold_locales, goal_cases)
  case (1 d r b d')
  then show ?case by (rule emit_live)
next
  case (2 d r)
  then show ?case by (rule emit_dead)
next
  case (3 d b d')
  show ?case by (rule emit_eof [OF _ 3]) (use assms in \<open>auto simp: ends_at_eof_def\<close>)
qed

sublocale subscribers \<subseteq> op: emitter "op_emit c" op_active
  by (rule emitter_of) (auto simp: ends_at_eof_def dest: eof_false)

section \<open>The consumer at the top (cli/run.h)\<close>

text \<open>\<open>ConsumerBridge\<close> passes the records to the sink and drops itself at the end of the stream.\<close>

record 'k bridge =
  rec_fields :: "(FieldId \<times> Value) list"
  sink :: 'k

fun bridge_values :: "Record \<Rightarrow> nat \<Rightarrow> (FieldId \<times> Value) list \<Rightarrow> (FieldId \<times> Value) list res" where
  "bridge_values r k [] = Inr []"
| "bridge_values r k ((i, v) # fs) =
     rbind (rec_value r k) (\<lambda>w. rbind (bridge_values r (Suc k) fs) (\<lambda>ws. Inr ((i, w) # ws)))"

text \<open>The sink is the output format: \<open>snk_consume\<close> and \<open>snk_done\<close> on its state.\<close>

definition bridge_init :: "Schema \<Rightarrow> 'k \<Rightarrow> 'k bridge res" where
  "bridge_init sch k = rbind (fieldIds sch) (\<lambda>is. Inr \<lparr>rec_fields = map (\<lambda>i. (i, vnull)) is, sink = k\<rparr>)"

definition bridge_consume :: "('k \<Rightarrow> (FieldId \<times> Value) list \<Rightarrow> 'k) \<Rightarrow> ('k \<Rightarrow> 'k) \<Rightarrow> 'k bridge consumer" where
  "bridge_consume snk_consume snk_done s r = (case r of
     None \<Rightarrow> Inr (False, s\<lparr>sink := snk_done (sink s)\<rparr>)
   | Some rec \<Rightarrow> rbind (bridge_values rec 0 (rec_fields s)) (\<lambda>fs.
       Inr (True, s\<lparr>rec_fields := fs, sink := snk_consume (sink s) fs\<rparr>)))"

lemma bridge_subscriber: "subscriber (bridge_consume f g)"
  by unfold_locales (auto simp: bridge_consume_def)

interpretation bridge: subscribers "\<lambda>i. bridge_consume f g" for f :: "'k \<Rightarrow> (FieldId \<times> Value) list \<Rightarrow> 'k" and g
  by unfold_locales (auto simp: bridge_consume_def)

text \<open>The bridge to a sink that keeps the rows it is given.\<close>

definition rows_bridge :: "(FieldId \<times> Value) list list bridge consumer" where
  "rows_bridge = bridge_consume (\<lambda>rows fs. rows @ [fs]) (\<lambda>rows. rows)"

lemma rows_bridge_ends: "ends_at_eof (\<lambda>i. rows_bridge)"
  by (auto simp: ends_at_eof_def rows_bridge_def bridge_consume_def)

text \<open>The facts that evaluate a run into it.\<close>

lemmas run_rows = op_emit_def op_active_def rows_bridge_def bridge_consume_def

section \<open>Operations that answer each record with a list of records\<close>

text \<open>The part of a state behind its own fields.\<close>

definition behind :: "('x \<times> 'o) res \<Rightarrow> 'o res" where
  "behind m = rbind m (\<lambda>(x, d). Inr d)"

lemma behind_simps [simp]: "behind (Inl f) = Inl f" "behind (Inr (x, d)) = Inr d"
  by (simp_all add: behind_def)

lemma behind_last: "behind (drive c s [e]) = rbind (c s e) (\<lambda>(b, x, d). Inr d)"
  by (cases "c s e") (auto simp: behind_def)

text \<open>Passing a record on while the own fields are \<open>x\<close>.\<close>

definition relay :: "'o consumer \<Rightarrow> 'x \<Rightarrow> 'o \<Rightarrow> Record option \<Rightarrow> (bool \<times> ('x \<times> 'o)) res" where
  "relay emit x d r = rbind (emit d r) (\<lambda>(b, d'). Inr (b, (x, d')))"

context emitter
begin

lemma relay_eof: "relay out x d None = Inr (b, s') \<Longrightarrow> \<not> b"
  by (auto simp: relay_def dest: out_live out_eof)

lemma relay_drive: "relay out x d e = rbind (drive out d [e]) (\<lambda>d'. Inr (live d', (x, d')))"
  by (cases "out d e") (auto simp: relay_def drive_Cons dest: out_live simp del: drive.simps(2))

text \<open>
  \<open>ok\<close> holds of the own fields; on a record the operation emits \<open>f\<close> of it one after the other and
  asks for more if a subscriber is left; the end of the stream is passed on.
\<close>

lemma flat_map_drive:
  assumes step: "\<And>x d r. ok x \<Longrightarrow> r \<in> set rs \<Longrightarrow>
      \<exists>x' b. ok x' \<and> (\<forall>d'. live d' \<longrightarrow> b d') \<and>
             c (x, d) (Some r) = rbind (drive out d (map Some (f r))) (\<lambda>d'. Inr (b d', (x', d')))"
    and eof: "\<And>x d. c (x, d) None = relay out x d None"
    and ok: "ok x"
  shows "behind (drive c (x, d) (stream rs)) = drive out d (stream (concat (map f rs)))"
  using step ok
proof (induction rs arbitrary: x d)
  case Nil
  show ?case
    using drive_None [of d "[]"] by (cases "out d None") (auto simp: eof relay_def split: if_splits)
next
  case (Cons r rs)
  from Cons.prems(1) [OF Cons.prems(2), of r d] obtain x' b where x': "ok x'" and b: "\<forall>d'. live d' \<longrightarrow> b d'"
    and c: "c (x, d) (Some r) = rbind (drive out d (map Some (f r))) (\<lambda>d'. Inr (b d', (x', d')))"
    by auto
  have IH: "behind (drive c (x', d') (stream rs)) = drive out d' (stream (concat (map f rs)))" for d'
    using Cons.prems(1) x' by (intro Cons.IH) auto
  show ?case
  proof (cases "drive out d (map Some (f r))")
    case (Inr d')
    have "behind (if b d' then drive c (x', d') (stream rs) else Inr (x', d')) =
        drive out d' (stream (concat (map f rs)))"
      using b IH [of d'] by (cases "live d'") auto
    with Inr c show ?thesis by (simp add: drive_out_append del: drive.simps(2)) (simp add: c)
  qed (simp add: c drive_out_append)
qed

end

end
