(* ===== verification/Phys_Stream.thy ===== *)
theory Phys_Stream
  imports Phys_Base
begin

text \<open>
  The operators of src/back/exec/phys/ops that answer each record at once: Filter, Limit,
  Projection, the three hash joins (build and probe) and the Values source. Each handler takes the
  emitter of the operation as its first arguments. The lemmas give what the subscribers of the
  operation see when it is fed a whole stream, over the emitter interface.
\<close>

section \<open>Evaluation on a reset cache\<close>

text \<open>What an expression gives on a record depends on the number of cache slots only.\<close>

definition eval_on :: "nat \<Rightarrow> exec_scalar \<Rightarrow> Record \<Rightarrow> Value res" where
  "eval_on n e r = rbind (eval e (replicate n None) r) (\<lambda>(v, c). Inr v)"

lemma eval_length:
  "eval e c r = Inr p \<Longrightarrow> length (snd p) = length c"
  "eval_list es c r = Inr q \<Longrightarrow> length (snd q) = length c"
  "eval_coalesce es c r = Inr p \<Longrightarrow> length (snd p) = length c"
proof (induction e c r and es c r and es c r arbitrary: p and q and p rule: eval_eval_list_eval_coalesce.induct)
  case (7 i e c r)
  then show ?case by (auto simp: ctx_value_def split: if_splits option.splits)
next
  case (11 e es c r)
  from 11(3) obtain v c' where e: "eval e c r = Inr (v, c')"
    and p: "(if val_eq v vnull then eval_coalesce es c' r else Inr (v, c')) = Inr p" by auto
  from 11(1) [OF e] have "length c' = length c" by simp
  with 11(2) [OF e refl] p e show ?case by (auto split: if_splits)
qed auto

lemma length_reset [simp]: "length (reset c) = length c"
  by (simp add: reset_def)

lemma reset_replicate: "reset c = replicate (length c) None"
  by (simp add: reset_def map_replicate_const)

lemma eval_on_Inr: "eval_on n e r = Inr v \<longleftrightarrow> (\<exists>c. eval e (replicate n None) r = Inr (v, c) \<and> length c = n)"
  using eval_length(1) [of e "replicate n None" r] by (force simp: eval_on_def)

text \<open>Expressions planned without a cache leave it alone.\<close>

fun no_lazy :: "exec_scalar \<Rightarrow> bool" where
  "no_lazy (IdentifierScalar k i t) = True"
| "no_lazy (ExecValueScalar v) = True"
| "no_lazy (ExecCoalesceScalar t es) = list_all no_lazy es"
| "no_lazy (UnaryFnScalar t f e) = no_lazy e"
| "no_lazy (BinaryFnScalar t f a b) = (no_lazy a \<and> no_lazy b)"
| "no_lazy (NaryFnScalar t f es) = list_all no_lazy es"
| "no_lazy (LazyScalar i e) = False"

lemma no_lazy_eval_list:
  assumes "\<And>e. e \<in> set es \<Longrightarrow> \<exists>m. \<forall>c. eval e c r = rbind m (\<lambda>v. Inr (v, c))"
  shows "\<exists>m. \<forall>c. eval_list es c r = rbind m (\<lambda>v. Inr (v, c))"
    and "\<exists>m. \<forall>c. eval_coalesce es c r = rbind m (\<lambda>v. Inr (v, c))"
  using assms
proof (induction es)
  case Nil
  { case 1 show ?case by (intro exI [of _ "Inr []"]) simp }
  { case 2 show ?case by (intro exI [of _ "Inr vnull"]) simp }
next
  case (Cons e es)
  { case 1
    then obtain m ms where m: "\<And>c. eval e c r = rbind m (\<lambda>v. Inr (v, c))"
      "\<And>c. eval_list es c r = rbind ms (\<lambda>v. Inr (v, c))"
      using Cons.IH(1) by (metis list.set_intros)
    show ?case
      by (intro exI [of _ "rbind m (\<lambda>v. rbind ms (\<lambda>vs. Inr (v # vs)))"]) (simp add: m rbind_assoc) }
  { case 2
    then obtain m ms where m: "\<And>c. eval e c r = rbind m (\<lambda>v. Inr (v, c))"
      "\<And>c. eval_coalesce es c r = rbind ms (\<lambda>v. Inr (v, c))"
      using Cons.IH(2) by (metis list.set_intros)
    show ?case
      by (intro exI [of _ "rbind m (\<lambda>v. if val_eq v vnull then ms else Inr v)"])
        (auto simp: m rbind_assoc intro: rbind_cong) }
qed

lemma no_lazy_eval: "no_lazy e \<Longrightarrow> \<exists>m. \<forall>c. eval e c r = rbind m (\<lambda>v. Inr (v, c))"
proof (induction e)
  case (ExecCoalesceScalar t es)
  then have "\<exists>m. \<forall>c. eval_coalesce es c r = rbind m (\<lambda>v. Inr (v, c))"
    by (intro no_lazy_eval_list(2)) (auto simp: list_all_iff)
  then show ?case by simp
next
  case (NaryFnScalar t f es)
  then have "\<exists>m. \<forall>c. eval_list es c r = rbind m (\<lambda>v. Inr (v, c))"
    by (intro no_lazy_eval_list(1)) (auto simp: list_all_iff)
  then obtain m where "\<And>c. eval_list es c r = rbind m (\<lambda>v. Inr (v, c))" by blast
  then show ?case by (intro exI [of _ "rbind m f"]) (simp add: rbind_assoc)
next
  case (UnaryFnScalar t f e)
  then obtain m where "\<And>c. eval e c r = rbind m (\<lambda>v. Inr (v, c))" by auto
  then show ?case by (intro exI [of _ "rbind m f"]) (simp add: rbind_assoc)
next
  case (BinaryFnScalar t f a b)
  then obtain m n where "\<And>c. eval a c r = rbind m (\<lambda>v. Inr (v, c))" "\<And>c. eval b c r = rbind n (\<lambda>v. Inr (v, c))"
    by auto
  then show ?case by (intro exI [of _ "rbind m (\<lambda>v. rbind n (f v))"]) (simp add: rbind_assoc)
next
  case (IdentifierScalar k i t)
  then show ?case by (intro exI [of _ "rec_value r k"]) simp
next
  case (ExecValueScalar v)
  then show ?case by (intro exI [of _ "Inr v"]) simp
qed simp

lemma eval_no_lazy:
  assumes "no_lazy e" "eval_on 0 e r = Inr v"
  shows "eval e c r = Inr (v, c)"
proof -
  from no_lazy_eval [OF assms(1)] obtain m where m: "\<And>c. eval e c r = rbind m (\<lambda>v. Inr (v, c))" by blast
  with assms(2) show ?thesis by (auto simp: eval_on_def)
qed

section \<open>Filter.h\<close>

definition filter_consume ::
  "'o consumer \<Rightarrow> ('o \<Rightarrow> bool) \<Rightarrow> exec_scalar \<Rightarrow> (ScalarContext \<times> 'o) consumer" where
  "filter_consume emit active condition s r = (case s of (ctx, d) \<Rightarrow> (case r of
     None \<Rightarrow> relay emit ctx d None
   | Some record \<Rightarrow> rbind (eval condition (reset ctx) record) (\<lambda>(v, ctx').
       rbind (get_bool v) (\<lambda>b. if b then relay emit ctx' d (Some record) else Inr (active d, (ctx', d))))))"

section \<open>Limit.h\<close>

definition limit_consume :: "'o consumer \<Rightarrow> ('o \<Rightarrow> bool) \<Rightarrow> (int \<times> 'o) consumer" where
  "limit_consume emit active s r = (case s of (n, d) \<Rightarrow> (case r of
     None \<Rightarrow> relay emit n d None
   | Some record \<Rightarrow>
       if n = 0 then relay emit n d None
       else rbind (emit d (Some record)) (\<lambda>(cont, d').
         if \<not> cont then Inr (False, (n - 1, d'))
         else if n - 1 = 0 then relay emit (n - 1) d' None
         else Inr (active d', (n - 1, d')))))"

section \<open>Projection.h\<close>

text \<open>The values of the record the operation reuses: a column nobody asked for has no expression.\<close>

fun project_values ::
  "exec_scalar option list \<Rightarrow> ScalarContext \<Rightarrow> Record \<Rightarrow> Value list \<Rightarrow> (Value list \<times> ScalarContext) res" where
  "project_values (Some e # es) c r (v # vs) =
     rbind (eval e c r) (\<lambda>(w, c'). rbind (project_values es c' r vs) (\<lambda>(ws, c''). Inr (w # ws, c'')))"
| "project_values (None # es) c r (v # vs) =
     rbind (project_values es c r vs) (\<lambda>(ws, c'). Inr (v # ws, c'))"
| "project_values _ c r vs = Inr (vs, c)"

definition projection_consume ::
  "'o consumer \<Rightarrow> exec_scalar option list \<Rightarrow> ((ScalarContext \<times> Value list) \<times> 'o) consumer" where
  "projection_consume emit scalars s r = (case s of ((ctx, values), d) \<Rightarrow> (case r of
     None \<Rightarrow> relay emit (ctx, values) d None
   | Some record \<Rightarrow> rbind (project_values scalars (reset ctx) record values) (\<lambda>(values', ctx').
       relay emit (ctx', values') d (Some (VecRecord values')))))"

definition blank_columns :: "exec_scalar option list \<Rightarrow> Value list \<Rightarrow> bool" where
  "blank_columns es vs = list_all2 (\<lambda>e v. e = None \<longrightarrow> v = vnull) es vs"

lemma blank_columns_simps [simp]:
  "blank_columns [] vs \<longleftrightarrow> vs = []"
  "blank_columns (e # es) vs \<longleftrightarrow> (\<exists>w ws. vs = w # ws \<and> (e = None \<longrightarrow> w = vnull) \<and> blank_columns es ws)"
  by (auto simp: blank_columns_def list_all2_Cons1)

lemma blank_columns_replicate [simp]: "blank_columns es (replicate (length es) vnull)"
  by (induction es) auto

lemma project_values_blank:
  "blank_columns es vs \<Longrightarrow> project_values es c r vs = project_values es c r (replicate (length es) vnull)"
proof (induction es arbitrary: vs c)
  case (Cons e es)
  then obtain v vs' where vs: "vs = v # vs'" "e = None \<longrightarrow> v = vnull" "blank_columns es vs'" by auto
  from Cons.IH [OF vs(3)] have IH: "project_values es c r vs' = project_values es c r (replicate (length es) vnull)" for c .
  show ?case by (cases e) (simp_all add: vs IH)
qed simp

lemma project_values_ok:
  "project_values es c r vs = Inr (ws, c') \<Longrightarrow> blank_columns es vs \<Longrightarrow> blank_columns es ws \<and> length c' = length c"
proof (induction es arbitrary: vs ws c)
  case (Cons e es)
  then obtain v vs' where vs: "vs = v # vs'" "e = None \<longrightarrow> v = vnull" "blank_columns es vs'" by auto
  show ?case
  proof (cases e)
    case None
    with Cons.prems vs obtain us where "project_values es c r vs' = Inr (us, c')" "ws = v # us" by auto
    with Cons.IH vs None show ?thesis by auto
  next
    case (Some x)
    with Cons.prems vs obtain w c1 us where e: "eval x c r = Inr (w, c1)"
      and u: "project_values es c1 r vs' = Inr (us, c')" and "ws = w # us" by auto
    moreover from Cons.IH [OF u] vs have "blank_columns es us \<and> length c' = length c1" by simp
    ultimately show ?thesis using eval_length(1) [OF e] Some by simp
  qed
qed simp

section \<open>flat_hash_set and flat_hash_map over values\<close>

text \<open>Keyed by value equality, which the hash respects (\<open>val_eq_hash\<close>).\<close>

definition hs_contains :: "Value list \<Rightarrow> Value \<Rightarrow> bool" where
  "hs_contains s v = list_ex (\<lambda>w. val_eq w v) s"

definition hs_insert :: "Value list \<Rightarrow> Value \<Rightarrow> Value list" where
  "hs_insert s v = (if hs_contains s v then s else s @ [v])"

fun hm_find :: "(Value \<times> 'a) list \<Rightarrow> Value \<Rightarrow> 'a option" where
  "hm_find [] k = None"
| "hm_find ((j, x) # es) k = (if val_eq j k then Some x else hm_find es k)"

text \<open>\<open>rows[key].push_back(x)\<close>.\<close>

fun hm_push :: "(Value \<times> 'a list) list \<Rightarrow> Value \<Rightarrow> 'a \<Rightarrow> (Value \<times> 'a list) list" where
  "hm_push [] k x = [(k, [x])]"
| "hm_push ((j, xs) # es) k x = (if val_eq j k then (j, xs @ [x]) # es else (j, xs) # hm_push es k x)"

section \<open>HashSemiJoin.h, HashMarkJoin.h\<close>

definition semi_build_consume :: "Value list consumer" where
  "semi_build_consume values r = (case r of
     None \<Rightarrow> Inr (False, values)
   | Some record \<Rightarrow> rbind (rec_value record 0) (\<lambda>v. Inr (True, hs_insert values v)))"

definition semi_probe_consume ::
  "'o consumer \<Rightarrow> ('o \<Rightarrow> bool) \<Rightarrow> Value list \<Rightarrow> exec_scalar \<Rightarrow> (ScalarContext \<times> 'o) consumer" where
  "semi_probe_consume emit active values join_key s r = (case s of (ctx, d) \<Rightarrow>
     (if r = None \<or> values = [] then relay emit ctx d None
      else rbind (eval join_key ctx (the r)) (\<lambda>(v, ctx').
        if hs_contains values v then
          rbind (emit d r) (\<lambda>(cont, d'). if \<not> cont then Inr (False, (ctx', d')) else Inr (True, (ctx', d')))
        else if \<not> active d then Inr (False, (ctx', d))
        else Inr (True, (ctx', d)))))"

definition mark_probe_consume ::
  "'o consumer \<Rightarrow> Value list \<Rightarrow> exec_scalar \<Rightarrow> nat \<Rightarrow> (ScalarContext \<times> 'o) consumer" where
  "mark_probe_consume emit values join_key output_slot s r = (case s of (ctx, d) \<Rightarrow> (case r of
     None \<Rightarrow> relay emit ctx d None
   | Some record \<Rightarrow> rbind (eval join_key ctx record) (\<lambda>(v, ctx').
       rbind (emit d (Some (HashMarkJoinRecord (VBool (hs_contains values v)) output_slot record))) (\<lambda>(cont, d').
         if \<not> cont then Inr (False, (ctx', d')) else Inr (True, (ctx', d'))))))"

section \<open>HashLeftJoin.h\<close>

type_synonym join_rows = "(Value \<times> Record list) list"

definition left_build_consume :: "exec_scalar \<Rightarrow> (ScalarContext \<times> join_rows) consumer" where
  "left_build_consume key s r = (case s of (ctx, rows) \<Rightarrow> (case r of
     None \<Rightarrow> Inr (False, s)
   | Some record \<Rightarrow> rbind (eval key ctx record) (\<lambda>(k, ctx').
       if type k \<noteq> Null then Inr (True, (ctx', hm_push rows k record)) else Inr (True, (ctx', rows)))))"

fun emit_joined ::
  "'o consumer \<Rightarrow> nat \<Rightarrow> Record \<Rightarrow> Record list \<Rightarrow> 'o \<Rightarrow> (bool \<times> 'o) res" where
  "emit_joined emit n l [] d = Inr (True, d)"
| "emit_joined emit n l (q # qs) d =
     rbind (emit d (Some (HashLeftJoinRecord l (Some q) n))) (\<lambda>(cont, d').
       if \<not> cont then Inr (False, d') else emit_joined emit n l qs d')"

definition left_probe_consume ::
  "'o consumer \<Rightarrow> join_rows \<Rightarrow> exec_scalar \<Rightarrow> nat \<Rightarrow> (ScalarContext \<times> 'o) consumer" where
  "left_probe_consume emit rows key left_columns s r = (case s of (ctx, d) \<Rightarrow> (case r of
     None \<Rightarrow> relay emit ctx d None
   | Some record \<Rightarrow> rbind (eval key ctx record) (\<lambda>(k, ctx').
       if type k = Null \<or> hm_find rows k = None
       then relay emit ctx' d (Some (HashLeftJoinRecord record None left_columns))
       else rbind (emit_joined emit left_columns record (the (hm_find rows k)) d) (\<lambda>(b, d'). Inr (b, (ctx', d'))))))"

section \<open>Values.h\<close>

fun values_loop :: "'o consumer \<Rightarrow> Value list \<Rightarrow> 'o \<Rightarrow> 'o res" where
  "values_loop emit [] d = rbind (emit d None) (\<lambda>(b, d'). Inr d')"
| "values_loop emit (v # vs) d =
     rbind (emit d (Some (ValueRecord v))) (\<lambda>(cont, d'). if \<not> cont then Inr d' else values_loop emit vs d')"

definition values_push :: "'o consumer \<Rightarrow> ('o \<Rightarrow> bool) \<Rightarrow> Value list \<Rightarrow> 'o \<Rightarrow> 'o res" where
  "values_push emit active vs d = verify (active d) (values_loop emit vs d)"

section \<open>Every handler keeps the subscriber contract\<close>

text \<open>The columns of a projected record: the value of the expression, or null where there is none.\<close>

definition column_on :: "nat \<Rightarrow> exec_scalar option list \<Rightarrow> Record \<Rightarrow> Value list res" where
  "column_on n es r =
     rbind (project_values es (replicate n None) r (replicate (length es) vnull)) (\<lambda>(vs, c). Inr vs)"

text \<open>What a left join gives for a row of its left side.\<close>

definition left_rows :: "join_rows \<Rightarrow> nat \<Rightarrow> (Record \<Rightarrow> Value) \<Rightarrow> Record \<Rightarrow> Record list" where
  "left_rows rows n k l = (case (if k l = VNull then None else hm_find rows (k l)) of
     None \<Rightarrow> [HashLeftJoinRecord l None n]
   | Some qs \<Rightarrow> map (\<lambda>q. HashLeftJoinRecord l (Some q) n) qs)"

lemma relay_None_Inr [simp]: "relay e x d None = Inr (b, s') \<longleftrightarrow> (\<exists>d'. e d None = Inr (b, d') \<and> s' = (x, d'))"
  by (auto simp: relay_def)

context emitter
begin

lemma stop_eof: "out d None = Inr (b, d') \<Longrightarrow> \<not> b"
  by (auto dest: out_live out_eof)

lemma filter_subscriber: "subscriber (filter_consume out live e)"
  by unfold_locales (auto simp: filter_consume_def dest: stop_eof)

lemma limit_subscriber: "subscriber (limit_consume out live)"
  by unfold_locales (auto simp: limit_consume_def dest: stop_eof)

lemma projection_subscriber: "subscriber (projection_consume out es)"
  by unfold_locales (auto simp: projection_consume_def dest: stop_eof)

lemma probe_subscribers:
  "subscriber (semi_probe_consume out live vs e)"
  "subscriber (mark_probe_consume out vs e k)"
  "subscriber (left_probe_consume out rows e k)"
  by (unfold_locales; auto simp: semi_probe_consume_def mark_probe_consume_def left_probe_consume_def dest: stop_eof)+

section \<open>What the subscribers see\<close>

lemma relay_Some: "relay out x d (Some r) = rbind (drive out d (map Some [r])) (\<lambda>d'. Inr (live d', (x, d')))"
  by (simp add: relay_drive)

lemma filter_drive:
  assumes "\<And>r. r \<in> set rs \<Longrightarrow> eval_on (length ctx) e r = Inr (VBool (p r))"
  shows "behind (drive (filter_consume out live e) (ctx, d) (stream rs)) = drive out d (stream (filter p rs))"
proof -
  have "behind (drive (filter_consume out live e) (ctx, d) (stream rs)) =
      drive out d (stream (concat (map (\<lambda>r. if p r then [r] else []) rs)))"
  proof (rule flat_map_drive [where ok = "\<lambda>c. length c = length ctx"])
    fix c :: ScalarContext and d r assume c: "length c = length ctx" and r: "r \<in> set rs"
    from assms [OF r] obtain c' where "eval e (reset c) r = Inr (VBool (p r), c')" "length c' = length ctx"
      by (auto simp: eval_on_Inr reset_replicate c)
    then show "\<exists>x' b. length x' = length ctx \<and> (\<forall>d'. live d' \<longrightarrow> b d') \<and>
        filter_consume out live e (c, d) (Some r) =
        rbind (drive out d (map Some (if p r then [r] else []))) (\<lambda>d'. Inr (b d', (x', d')))"
      by (intro exI [of _ c'] exI [of _ live]) (simp add: filter_consume_def relay_Some)
  qed (simp_all add: filter_consume_def)
  moreover have "concat (map (\<lambda>r. if p r then [r] else []) rs) = filter p rs"
    by (induction rs) auto
  ultimately show ?thesis by simp
qed

lemma limit_drive:
  "behind (drive (limit_consume out live) (int n, d) (stream rs)) = drive out d (stream (take n rs))"
proof (induction rs arbitrary: n d)
  case Nil
  show ?case
    using drive_None [of d "[]"] by (cases "out d None") (auto simp: limit_consume_def relay_def)
next
  case (Cons r rs)
  show ?case
  proof (cases n)
    case 0
    with drive_None [of d "[]"] show ?thesis
      by (cases "out d None") (auto simp: limit_consume_def relay_def dest: stop_eof)
  next
    case (Suc m)
    show ?thesis
    proof (cases "out d (Some r)")
      case (Inl f)
      with Suc show ?thesis by (simp add: limit_consume_def)
    next
      case (Inr p)
      then obtain b d' where o': "out d (Some r) = Inr (b, d')" by (cases p) auto
      with out_live have b: "b = live d'" by blast
      show ?thesis
      proof (cases "live d' \<and> m = 0")
        case True
        with o' b Suc drive_None [of d' "[]"] show ?thesis
          by (cases "out d' None") (auto simp: limit_consume_def relay_def dest: stop_eof)
      next
        case False
        with o' b Suc Cons.IH [of m d'] show ?thesis by (auto simp: limit_consume_def)
      qed
    qed
  qed
qed

lemma projection_drive:
  assumes "\<And>r. r \<in> set rs \<Longrightarrow> column_on (length ctx) es r = Inr (f r)"
  shows "behind (drive (projection_consume out es) ((ctx, replicate (length es) vnull), d) (stream rs)) =
         drive out d (stream (map (\<lambda>r. VecRecord (f r)) rs))"
proof -
  let ?ok = "\<lambda>(c :: ScalarContext, vs). length c = length ctx \<and> blank_columns es vs"
  have "behind (drive (projection_consume out es) ((ctx, replicate (length es) vnull), d) (stream rs)) =
      drive out d (stream (concat (map (\<lambda>r. [VecRecord (f r)]) rs)))"
  proof (rule flat_map_drive [where ok = ?ok])
    fix x d r assume x: "?ok x" and r: "r \<in> set rs"
    obtain c vs where x': "x = (c, vs)" by force
    with x have c: "length c = length ctx" and vs: "blank_columns es vs" by auto
    from assms [OF r] obtain c' where
      "project_values es (replicate (length ctx) None) r (replicate (length es) vnull) = Inr (f r, c')"
      by (auto simp: column_on_def)
    with project_values_blank [OF vs] have p: "project_values es (reset c) r vs = Inr (f r, c')"
      by (simp add: reset_replicate c)
    from project_values_ok [OF p vs] c have "?ok (c', f r)" by simp
    with p show "\<exists>x' b. ?ok x' \<and> (\<forall>d'. live d' \<longrightarrow> b d') \<and>
        projection_consume out es (x, d) (Some r) =
        rbind (drive out d (map Some [VecRecord (f r)])) (\<lambda>d'. Inr (b d', (x', d')))"
      by (intro exI [of _ "(c', f r)"] exI [of _ live]) (simp add: projection_consume_def relay_Some x')
  qed (auto simp: projection_consume_def)
  moreover have "concat (map (\<lambda>r. [VecRecord (f r)]) rs) = map (\<lambda>r. VecRecord (f r)) rs"
    by (induction rs) auto
  ultimately show ?thesis by simp
qed

lemma semi_drive:
  assumes e: "no_lazy e" and k: "\<And>r. r \<in> set rs \<Longrightarrow> eval_on 0 e r = Inr (k r)"
  shows "behind (drive (semi_probe_consume out live vs e) (ctx, d) (stream rs)) =
         drive out d (stream (filter (\<lambda>r. hs_contains vs (k r)) rs))"
proof (cases "vs = []")
  case True
  then have "behind (drive (semi_probe_consume out live vs e) (ctx, d) (r # es)) = drive out d [None]" for r es
    using drive_None [of d "[]"]
    by (cases "out d None") (auto simp: semi_probe_consume_def relay_def dest: stop_eof)
  with True show ?thesis by (cases rs) (simp_all add: hs_contains_def)
next
  case False
  have "behind (drive (semi_probe_consume out live vs e) (ctx, d) (stream rs)) =
      drive out d (stream (concat (map (\<lambda>r. if hs_contains vs (k r) then [r] else []) rs)))"
  proof (rule flat_map_drive [where ok = "\<lambda>c. True"])
    fix c d r assume r: "r \<in> set rs"
    have ev: "eval e c r = Inr (k r, c)" by (rule eval_no_lazy [OF e k [OF r]])
    show "\<exists>x' b. True \<and> (\<forall>d'. live d' \<longrightarrow> b d') \<and>
        semi_probe_consume out live vs e (c, d) (Some r) =
        rbind (drive out d (map Some (if hs_contains vs (k r) then [r] else []))) (\<lambda>d'. Inr (b d', (x', d')))"
      by (rule exI [of _ c], rule exI [of _ live], cases "out d (Some r)")
        (auto simp: semi_probe_consume_def ev False drive_Cons dest: out_live simp del: drive.simps(2))
  qed (simp_all add: semi_probe_consume_def)
  moreover have "concat (map (\<lambda>r. if hs_contains vs (k r) then [r] else []) rs) = filter (\<lambda>r. hs_contains vs (k r)) rs"
    by (induction rs) auto
  ultimately show ?thesis by simp
qed

lemma mark_drive:
  assumes e: "no_lazy e" and k: "\<And>r. r \<in> set rs \<Longrightarrow> eval_on 0 e r = Inr (k r)"
  shows "behind (drive (mark_probe_consume out vs e k0) (ctx, d) (stream rs)) =
         drive out d (stream (map (\<lambda>r. HashMarkJoinRecord (VBool (hs_contains vs (k r))) k0 r) rs))"
proof -
  let ?f = "\<lambda>r. HashMarkJoinRecord (VBool (hs_contains vs (k r))) k0 r"
  have "behind (drive (mark_probe_consume out vs e k0) (ctx, d) (stream rs)) =
      drive out d (stream (concat (map (\<lambda>r. [?f r]) rs)))"
  proof (rule flat_map_drive [where ok = "\<lambda>c. True"])
    fix c d r assume r: "r \<in> set rs"
    have ev: "eval e c r = Inr (k r, c)" by (rule eval_no_lazy [OF e k [OF r]])
    show "\<exists>x' b. True \<and> (\<forall>d'. live d' \<longrightarrow> b d') \<and> mark_probe_consume out vs e k0 (c, d) (Some r) =
        rbind (drive out d (map Some [?f r])) (\<lambda>d'. Inr (b d', (x', d')))"
      by (rule exI [of _ c], rule exI [of _ live], cases "out d (Some (?f r))")
        (auto simp: mark_probe_consume_def ev drive_Cons dest: out_live simp del: drive.simps(2))
  qed (simp_all add: mark_probe_consume_def)
  moreover have "concat (map (\<lambda>r. [?f r]) rs) = map ?f rs" by (induction rs) auto
  ultimately show ?thesis by simp
qed

lemma emit_joined_drive:
  "qs \<noteq> [] \<Longrightarrow> emit_joined out n l qs d =
     rbind (drive out d (map (\<lambda>q. Some (HashLeftJoinRecord l (Some q) n)) qs)) (\<lambda>d'. Inr (live d', d'))"
proof (induction qs arbitrary: d)
  case (Cons q qs)
  then show ?case
    by (cases "out d (Some (HashLeftJoinRecord l (Some q) n))"; cases qs) (auto dest: out_live)
qed simp

lemma left_drive:
  assumes e: "no_lazy e" and k: "\<And>r. r \<in> set rs \<Longrightarrow> eval_on 0 e r = Inr (k r)"
    and ne: "\<And>v qs. hm_find rows v = Some qs \<Longrightarrow> qs \<noteq> []"
  shows "behind (drive (left_probe_consume out rows e n) (ctx, d) (stream rs)) =
         drive out d (stream (concat (map (left_rows rows n k) rs)))"
proof (rule flat_map_drive [where ok = "\<lambda>c. True"])
  fix c d r assume r: "r \<in> set rs"
  have ev: "eval e c r = Inr (k r, c)" by (rule eval_no_lazy [OF e k [OF r]])
  show "\<exists>x' b. True \<and> (\<forall>d'. live d' \<longrightarrow> b d') \<and> left_probe_consume out rows e n (c, d) (Some r) =
      rbind (drive out d (map Some (left_rows rows n k r))) (\<lambda>d'. Inr (b d', (x', d')))"
    by (rule exI [of _ c], rule exI [of _ live])
      (auto simp: left_probe_consume_def ev left_rows_def relay_Some rbind_assoc emit_joined_drive [OF ne] comp_def
        split: option.splits)
qed (simp_all add: left_probe_consume_def)

lemma values_drive: "live d \<Longrightarrow> values_push out live vs d = drive out d (stream (map ValueRecord vs))"
proof -
  have "values_loop out vs d = drive out d (stream (map ValueRecord vs))" for d
  proof (induction vs arbitrary: d)
    case Nil
    show ?case using drive_None [of d "[]"] by simp
  next
    case (Cons v vs)
    then show ?case by (auto intro!: rbind_cong)
  qed
  then show "live d \<Longrightarrow> ?thesis" by (simp add: values_push_def)
qed

end

section \<open>The build sides\<close>

lemma hs_contains_insert [simp]: "hs_contains (hs_insert s v) w \<longleftrightarrow> hs_contains s w \<or> val_eq v w"
  by (auto simp: hs_insert_def hs_contains_def list_ex_iff) (metis val_eq_sym val_eq_trans)+

lemma semi_build_drive:
  assumes "\<And>m. m \<in> set ms \<Longrightarrow> rec_value m 0 = Inr (g m)"
  shows "drive semi_build_consume vs (stream ms) = Inr (foldl hs_insert vs (map g ms))"
  using assms by (induction ms arbitrary: vs) (auto simp: semi_build_consume_def)

lemma hs_contains_foldl: "hs_contains (foldl hs_insert s vs) w \<longleftrightarrow> hs_contains s w \<or> (\<exists>v \<in> set vs. val_eq v w)"
  by (induction vs arbitrary: s) auto

lemma hm_find_push:
  "hm_find (hm_push rows k x) v =
     (if val_eq k v then Some ((case hm_find rows v of None \<Rightarrow> [] | Some xs \<Rightarrow> xs) @ [x]) else hm_find rows v)"
proof (induction rows k x rule: hm_push.induct)
  case (2 j xs es k x)
  then show ?case using val_eq_trans [of j k v] val_eq_trans [of k j v] val_eq_trans [of j v k] by (auto simp: val_eq_sym)
qed auto

lemma left_build_drive:
  assumes e: "no_lazy e" and k: "\<And>m. m \<in> set ms \<Longrightarrow> eval_on 0 e m = Inr (k m)"
  shows "drive (left_build_consume e) (ctx, rows) (stream ms) =
         Inr (ctx, foldl (\<lambda>rows m. if k m = VNull then rows else hm_push rows (k m) m) rows ms)"
  using k
proof (induction ms arbitrary: rows)
  case Nil
  then show ?case by (simp add: left_build_consume_def)
next
  case (Cons m ms)
  then have "eval e ctx m = Inr (k m, ctx)" by (intro eval_no_lazy [OF e]) auto
  with Cons show ?case by (simp add: left_build_consume_def)
qed

lemma hm_find_foldl:
  "v \<noteq> VNull \<Longrightarrow>
   hm_find (foldl (\<lambda>rows m. if k m = VNull then rows else hm_push rows (k m) m) rows ms) v =
     (case (case hm_find rows v of None \<Rightarrow> [] | Some xs \<Rightarrow> xs) @ filter (\<lambda>m. val_eq (k m) v) ms of
        [] \<Rightarrow> hm_find rows v | xs \<Rightarrow> Some xs)"
proof (induction ms arbitrary: rows)
  case Nil
  then show ?case by (auto split: option.splits list.splits)
next
  case (Cons m ms)
  then show ?case by (auto simp: hm_find_push split: option.splits list.splits)
qed

lemma hm_find_null:
  "hm_find rows VNull = None \<Longrightarrow>
   hm_find (foldl (\<lambda>rows m. if k m = VNull then rows else hm_push rows (k m) m) rows ms) VNull = None"
  by (induction ms arbitrary: rows) (auto simp: hm_find_push)

section \<open>Properties\<close>

text \<open>A filter passes exactly the records its condition is true on, in order, and then the end
  of the stream; its subscribers see what they would see if they were fed those records.\<close>

theorem filter_correct:
  assumes "ends_at_eof c"
    and "\<forall>r \<in> set rs. eval_on (length ctx) condition r = Inr (VBool (p r))"
  shows "behind (drive (filter_consume (op_emit c) op_active condition) (ctx, d) (stream rs)) =
         drive (op_emit c) d (stream (filter p rs))"
  by (rule emitter.filter_drive [OF emitter_of]) (use assms in auto)

theorem filter_correct_witness:
  "behind (drive (filter_consume (op_emit (\<lambda>i. rows_bridge)) op_active (IdentifierScalar 0 1 Boolean))
      ([], [0], \<lparr>rec_fields = [(1, vnull)], sink = []\<rparr>)
      (stream [VecRecord [VBool True, VInt 1], VecRecord [VBool False, VInt 2]])) =
   Inr ([], \<lparr>rec_fields = [(1, VBool True)], sink = [[(1, VBool True)]]\<rparr>)"
proof -
  have "eval_on 0 (IdentifierScalar 0 1 Boolean) r = Inr (VBool (rec_value r 0 = Inr (VBool True)))"
    if "r \<in> set [VecRecord [VBool True, VInt 1], VecRecord [VBool False, VInt 2]]" for r
    using that by (auto simp: eval_on_def)
  then show ?thesis
    by (subst filter_correct [OF rows_bridge_ends, where p = "\<lambda>r. rec_value r 0 = Inr (VBool True)"])
      (auto simp: run_rows)
qed

text \<open>A limit passes the first records up to its count and then ends the stream, however many
  records follow.\<close>

theorem limit_correct:
  assumes "ends_at_eof c"
  shows "behind (drive (limit_consume (op_emit c) op_active) (int n, d) (stream rs)) =
         drive (op_emit c) d (stream (take n rs))"
  by (rule emitter.limit_drive [OF emitter_of]) (use assms in auto)

theorem limit_correct_witness:
  "behind (drive (limit_consume (op_emit (\<lambda>i. rows_bridge)) op_active)
      (int 1, [0], \<lparr>rec_fields = [(1, vnull)], sink = []\<rparr>) (stream [ValueRecord (VInt 7), ValueRecord (VInt 8)])) =
   Inr ([], \<lparr>rec_fields = [(1, VInt 7)], sink = [[(1, VInt 7)]]\<rparr>)"
  by (subst limit_correct [OF rows_bridge_ends]) (simp add: run_rows)

text \<open>C16: A semi join, built from the match rows and fed the source rows, passes the source rows
  whose key equals the first column of some match row, in order.\<close>

theorem semi_join_correct:
  assumes "ends_at_eof c"
    and "\<forall>m \<in> set ms. rec_value m 0 = Inr (g m)"
    and "no_lazy e" and "\<forall>r \<in> set rs. eval_on 0 e r = Inr (k r)"
  shows "\<exists>values. drive semi_build_consume [] (stream ms) = Inr values \<and>
     behind (drive (semi_probe_consume (op_emit c) op_active values e) (ctx, d) (stream rs)) =
     drive (op_emit c) d (stream (filter (\<lambda>r. \<exists>m \<in> set ms. val_eq (g m) (k r)) rs))"
proof -
  have "drive semi_build_consume [] (stream ms) = Inr (foldl hs_insert [] (map g ms))"
    by (rule semi_build_drive) (use assms in auto)
  moreover have "behind (drive (semi_probe_consume (op_emit c) op_active (foldl hs_insert [] (map g ms)) e) (ctx, d)
      (stream rs)) = drive (op_emit c) d (stream (filter (\<lambda>r. hs_contains (foldl hs_insert [] (map g ms)) (k r)) rs))"
    by (rule emitter.semi_drive [OF emitter_of]) (use assms in auto)
  ultimately show ?thesis by (simp add: hs_contains_foldl) (simp add: hs_contains_def)
qed

theorem semi_join_correct_witness:
  "\<exists>values. drive semi_build_consume [] (stream [ValueRecord (VString ''a'')]) = Inr values \<and>
     behind (drive (semi_probe_consume (op_emit (\<lambda>i. rows_bridge)) op_active values (IdentifierScalar 0 1 String))
       ([], [0], \<lparr>rec_fields = [(1, vnull)], sink = []\<rparr>) (stream [VecRecord [VString ''b''], VecRecord [VString ''a'']])) =
     Inr ([], \<lparr>rec_fields = [(1, VString ''a'')], sink = [[(1, VString ''a'')]]\<rparr>)"
proof -
  have m: "\<forall>m \<in> set [ValueRecord (VString ''a'')]. rec_value m 0 = Inr (VString ''a'')"
    by simp
  have k: "\<forall>r \<in> set [VecRecord [VString ''b''], VecRecord [VString ''a'']].
      eval_on 0 (IdentifierScalar 0 1 String) r = Inr (case r of VecRecord vs \<Rightarrow> hd vs | _ \<Rightarrow> vnull)"
    by (simp add: eval_on_def)
  show ?thesis
    using semi_join_correct [where c = "\<lambda>i. rows_bridge" and ctx = "[]"
        and d = "([0], \<lparr>rec_fields = [(1, vnull)], sink = []\<rparr>)", OF rows_bridge_ends m _ k]
    by (simp add: run_rows)
qed

text \<open>C17: A left join gives every left row once per matching right row, in the order of the right
  side, and once with nulls when its key is null or matches nothing.\<close>

theorem left_join_correct:
  assumes "ends_at_eof c"
    and "no_lazy e" and "\<forall>m \<in> set ms. eval_on 0 e m = Inr (g m)"
    and "no_lazy e'" and "\<forall>r \<in> set rs. eval_on 0 e' r = Inr (k r)"
  shows "\<exists>rows. drive (left_build_consume e) ([], []) (stream ms) = Inr ([], rows) \<and>
     behind (drive (left_probe_consume (op_emit c) rows e' n) (ctx, d) (stream rs)) =
     drive (op_emit c) d (stream (concat (map (\<lambda>l.
       case filter (\<lambda>m. k l \<noteq> VNull \<and> val_eq (g m) (k l)) ms of
         [] \<Rightarrow> [HashLeftJoinRecord l None n]
       | qs \<Rightarrow> map (\<lambda>q. HashLeftJoinRecord l (Some q) n) qs) rs)))"
proof -
  let ?rows = "foldl (\<lambda>rows m. if g m = VNull then rows else hm_push rows (g m) m) [] ms"
  have find: "hm_find ?rows v = (case filter (\<lambda>m. val_eq (g m) v) ms of [] \<Rightarrow> None | xs \<Rightarrow> Some xs)"
    if "v \<noteq> VNull" for v
    using hm_find_foldl [OF that, of g "[]" ms] by (simp split: list.splits)
  have ne: "qs \<noteq> []" if "hm_find ?rows v = Some qs" for v qs
    using that find [of v] hm_find_null [of "[]" g ms] by (cases "v = VNull") (auto split: list.splits)
  have "behind (drive (left_probe_consume (op_emit c) ?rows e' n) (ctx, d) (stream rs)) =
      drive (op_emit c) d (stream (concat (map (left_rows ?rows n k) rs)))"
    by (rule emitter.left_drive [OF emitter_of]) (use assms ne in auto)
  moreover have "left_rows ?rows n k l = (case filter (\<lambda>m. k l \<noteq> VNull \<and> val_eq (g m) (k l)) ms of
      [] \<Rightarrow> [HashLeftJoinRecord l None n] | qs \<Rightarrow> map (\<lambda>q. HashLeftJoinRecord l (Some q) n) qs)" for l
    by (cases "k l = VNull") (simp_all add: left_rows_def find split: list.splits)
  moreover have "drive (left_build_consume e) ([], []) (stream ms) = Inr ([], ?rows)"
    by (rule left_build_drive) (use assms in auto)
  ultimately show ?thesis by (intro exI [of _ ?rows]) (simp cong: map_cong)
qed

theorem left_join_correct_witness:
  "\<exists>rows. drive (left_build_consume (IdentifierScalar 0 2 Integer)) ([], []) (stream [VecRecord [VInt 1]]) = Inr ([], rows) \<and>
     behind (drive (left_probe_consume (op_emit (\<lambda>i. rows_bridge)) rows (IdentifierScalar 0 1 Integer) 1)
       ([], [0], \<lparr>rec_fields = [(1, vnull), (2, vnull)], sink = []\<rparr>) (stream [VecRecord [VInt 1], VecRecord [VInt 5]])) =
     Inr ([], \<lparr>rec_fields = [(1, VInt 5), (2, VNull)], sink = [[(1, VInt 1), (2, VInt 1)], [(1, VInt 5), (2, VNull)]]\<rparr>)"
proof -
  have m: "\<forall>m \<in> set [VecRecord [VInt 1]]. eval_on 0 (IdentifierScalar 0 2 Integer) m = Inr (VInt 1)"
    by (simp add: eval_on_def)
  have k: "\<forall>r \<in> set [VecRecord [VInt 1], VecRecord [VInt 5]].
      eval_on 0 (IdentifierScalar 0 1 Integer) r = Inr (case r of VecRecord vs \<Rightarrow> hd vs | _ \<Rightarrow> vnull)"
    by (simp add: eval_on_def)
  show ?thesis
    using left_join_correct [where c = "\<lambda>i. rows_bridge" and ctx = "[]" and n = 1
        and d = "([0], \<lparr>rec_fields = [(1, vnull), (2, vnull)], sink = []\<rparr>)", OF rows_bridge_ends _ m _ k]
    by (simp add: run_rows)
qed

end
