(* ===== verification/Phys_Sort.thy ===== *)
theory Phys_Sort
  imports Phys_Stream "HOL-Library.Multiset"
begin

text \<open>
  src/back/exec/phys/ops/Sort.h and TopK.h. \<open>std::sort\<close> and \<open>std::priority_queue\<close> are library code
  whose treatment of ties is left open: the first is a parameter with its contract as a hypothesis,
  the second the locale \<open>priority_queue\<close>, interpreted by a sorted list. The lemmas: Sort emits a
  sorted permutation of its input, TopK a prefix of one.
\<close>

section \<open>Sort keys\<close>

fun eval_key :: "exec_scalar list \<Rightarrow> Record \<Rightarrow> Value list res" where
  "eval_key [] r = Inr []"
| "eval_key (e # es) r = rbind (eval_on 0 e r) (\<lambda>v. rbind (eval_key es r) (\<lambda>vs. Inr (v # vs)))"

definition key_greater :: "Value list \<Rightarrow> Value list \<Rightarrow> bool" where
  "key_greater a b = (key_cmp a b = PGreater)"

type_synonym item = "Record \<times> Value list"

text \<open>The comparator of Sort and the one of the queue of TopK.\<close>

definition sort_less :: "bool \<Rightarrow> item \<Rightarrow> item \<Rightarrow> bool" where
  "sort_less desc l r = (if desc then key_greater (snd l) (snd r) else key_less (snd l) (snd r))"

definition heap_less :: "bool \<Rightarrow> item \<Rightarrow> item \<Rightarrow> bool" where
  "heap_less desc l r = (if desc then key_less (snd r) (snd l) else key_less (snd l) (snd r))"

text \<open>Keys without NaN, on which both are the same strict weak order.\<close>

definition good_items :: "item set" where
  "good_items = {i. no_nan (snd i)}"

lemma key_greater_rank: "no_nan a \<Longrightarrow> no_nan b \<Longrightarrow> key_greater a b \<longleftrightarrow> map val_rank b < map val_rank a"
  by (auto simp: key_greater_def key_cmp_po po_of_def)

lemma sort_heap_less: "a \<in> good_items \<Longrightarrow> b \<in> good_items \<Longrightarrow> sort_less desc a b = heap_less desc a b"
  by (simp add: sort_less_def heap_less_def good_items_def key_greater_rank key_less_rank)

text \<open>A strict weak order on a set: irreflexive, and the negation transitive.\<close>

definition weak_order_on :: "'a set \<Rightarrow> ('a \<Rightarrow> 'a \<Rightarrow> bool) \<Rightarrow> bool" where
  "weak_order_on A lt \<longleftrightarrow>
     (\<forall>a \<in> A. \<forall>b \<in> A. lt a b \<longrightarrow> \<not> lt b a) \<and>
     (\<forall>a \<in> A. \<forall>b \<in> A. \<forall>c \<in> A. \<not> lt b a \<longrightarrow> \<not> lt c b \<longrightarrow> \<not> lt c a)"

lemma weak_orderI:
  assumes "\<And>a b. a \<in> A \<Longrightarrow> b \<in> A \<Longrightarrow> lt a b \<Longrightarrow> \<not> lt b a"
    and "\<And>a b c. a \<in> A \<Longrightarrow> b \<in> A \<Longrightarrow> c \<in> A \<Longrightarrow> \<not> lt b a \<Longrightarrow> \<not> lt c b \<Longrightarrow> \<not> lt c a"
  shows "weak_order_on A lt"
  unfolding weak_order_on_def
proof (intro conjI ballI impI)
  fix a b assume "a \<in> A" "b \<in> A" "lt a b"
  then show "\<not> lt b a" by (rule assms(1))
next
  fix a b c assume "a \<in> A" "b \<in> A" "c \<in> A" "\<not> lt b a" "\<not> lt c b"
  then show "\<not> lt c a" by (rule assms(2))
qed

lemma weak_order_asym: "weak_order_on A lt \<Longrightarrow> a \<in> A \<Longrightarrow> b \<in> A \<Longrightarrow> lt a b \<Longrightarrow> \<not> lt b a"
  unfolding weak_order_on_def by (elim conjE) (drule (1) bspec, drule (1) bspec, erule (1) mp)

lemma weak_order_irrefl: "weak_order_on A lt \<Longrightarrow> a \<in> A \<Longrightarrow> \<not> lt a a"
  using weak_order_asym [of A lt a a] by argo

lemma weak_order_trans:
  assumes "weak_order_on A lt" "a \<in> A" "b \<in> A" "c \<in> A" "\<not> lt b a" "\<not> lt c b"
  shows "\<not> lt c a"
proof -
  from assms(1) have "\<forall>a \<in> A. \<forall>b \<in> A. \<forall>c \<in> A. \<not> lt b a \<longrightarrow> \<not> lt c b \<longrightarrow> \<not> lt c a"
    unfolding weak_order_on_def by (rule conjunct2)
  from this [rule_format, OF assms(2-6)] show ?thesis .
qed

lemma weak_order_subset: "weak_order_on A lt \<Longrightarrow> B \<subseteq> A \<Longrightarrow> weak_order_on B lt"
  by (rule weak_orderI) (erule weak_order_asym weak_order_trans; auto)+

lemma weak_order_rank:
  fixes f :: "'a \<Rightarrow> 'r :: linorder"
  shows "(\<And>a b. a \<in> A \<Longrightarrow> b \<in> A \<Longrightarrow> lt a b \<longleftrightarrow> f a < f b) \<Longrightarrow> weak_order_on A lt"
    and "(\<And>a b. a \<in> A \<Longrightarrow> b \<in> A \<Longrightarrow> lt a b \<longleftrightarrow> f b < f a) \<Longrightarrow> weak_order_on A lt"
  by (rule weak_orderI; force)+

lemma heap_less_weak: "weak_order_on good_items (heap_less desc)"
proof (cases desc)
  case True
  then show ?thesis
    by (intro weak_order_rank(2) [of _ _ "\<lambda>i. map val_rank (snd i)"])
      (simp add: good_items_def heap_less_def key_less_rank)
next
  case False
  then show ?thesis
    by (intro weak_order_rank(1) [of _ _ "\<lambda>i. map val_rank (snd i)"])
      (simp add: good_items_def heap_less_def key_less_rank)
qed

lemma sort_less_weak: "weak_order_on good_items (sort_less desc)"
proof (rule weak_orderI)
  fix a b assume ab: "a \<in> good_items" "b \<in> good_items" "sort_less desc a b"
  then show "\<not> sort_less desc b a"
    using weak_order_asym [OF heap_less_weak ab(1,2), of desc] by (simp add: sort_heap_less)
next
  fix a b c assume abc: "a \<in> good_items" "b \<in> good_items" "c \<in> good_items"
    "\<not> sort_less desc b a" "\<not> sort_less desc c b"
  then show "\<not> sort_less desc c a"
    using weak_order_trans [OF heap_less_weak abc(1-3), of desc] by (simp add: sort_heap_less)
qed

definition ordered :: "('a \<Rightarrow> 'a \<Rightarrow> bool) \<Rightarrow> 'a list \<Rightarrow> bool" where
  "ordered lt xs = sorted_wrt (\<lambda>a b. \<not> lt b a) xs"

text \<open>The documented contract of \<open>std::sort\<close>.\<close>

definition std_sort_ok :: "(('a \<Rightarrow> 'a \<Rightarrow> bool) \<Rightarrow> 'a list \<Rightarrow> 'a list) \<Rightarrow> bool" where
  "std_sort_ok srt \<longleftrightarrow>
     (\<forall>lt xs. weak_order_on (set xs) lt \<longrightarrow> mset (srt lt xs) = mset xs \<and> ordered lt (srt lt xs))"

lemma insert_by_set [simp]: "set (insert_by lt x ys) = insert x (set ys)"
  by (induction ys) auto

lemma insert_by_mset [simp]: "mset (insert_by lt x ys) = add_mset x (mset ys)"
  by (induction ys) auto

lemma insert_by_ordered:
  "weak_order_on (insert x (set ys)) lt \<Longrightarrow> ordered lt ys \<Longrightarrow> ordered lt (insert_by lt x ys)"
proof (induction ys)
  case (Cons y ys)
  then have IH: "ordered lt (insert_by lt x ys)"
    by (auto simp: ordered_def intro: weak_order_subset)
  show ?case
  proof (cases "lt y x")
    case True
    from weak_order_asym [OF Cons.prems(1) _ _ True] have "\<not> lt x y" by simp
    with True IH Cons.prems(2) show ?thesis by (auto simp: ordered_def)
  next
    case False
    have "\<not> lt z x" if z: "z \<in> set ys" for z
    proof -
      from Cons.prems(2) z have "\<not> lt z y" by (auto simp: ordered_def)
      from weak_order_trans [OF Cons.prems(1) _ _ _ False this] z show ?thesis by simp
    qed
    with False Cons.prems(2) show ?thesis by (auto simp: ordered_def)
  qed
qed (simp add: ordered_def)

lemma sort_by_set [simp]: "set (sort_by lt xs) = set xs"
  by (induction xs) (auto simp: sort_by_def)

lemma sort_by_mset [simp]: "mset (sort_by lt xs) = mset xs"
  by (induction xs) (auto simp: sort_by_def)

lemma sort_by_Cons: "sort_by lt (x # xs) = insert_by lt x (sort_by lt xs)"
  by (simp add: sort_by_def)

lemma sort_by_ordered: "weak_order_on (set xs) lt \<Longrightarrow> ordered lt (sort_by lt xs)"
proof (induction xs)
  case (Cons x xs)
  then have "ordered lt (sort_by lt xs)" by (auto intro: weak_order_subset)
  with Cons.prems show ?case by (simp add: sort_by_Cons insert_by_ordered)
qed (simp add: sort_by_def ordered_def)

lemma sort_by_ok: "std_sort_ok sort_by"
  by (simp add: std_sort_ok_def sort_by_ordered)

section \<open>Sort.h\<close>

fun emit_records :: "'o consumer \<Rightarrow> Record list \<Rightarrow> 'o \<Rightarrow> (bool \<times> 'o) res" where
  "emit_records emit [] d = Inr (True, d)"
| "emit_records emit (r # rs) d =
     rbind (emit d (Some r)) (\<lambda>(cont, d'). if \<not> cont then Inr (False, d') else emit_records emit rs d')"

definition sort_create :: "exec_scalar list \<Rightarrow> item list res" where
  "sort_create skeys = require (skeys \<noteq> []) (Inr [])"

definition sort_consume ::
  "((item \<Rightarrow> item \<Rightarrow> bool) \<Rightarrow> item list \<Rightarrow> item list) \<Rightarrow> 'o consumer \<Rightarrow> ('o \<Rightarrow> bool) \<Rightarrow>
   exec_scalar list \<Rightarrow> bool \<Rightarrow> (item list \<times> 'o) consumer" where
  "sort_consume std_sort emit active skeys desc s r = (case s of (records, d) \<Rightarrow> (case r of
     Some record \<Rightarrow> rbind (eval_key skeys record) (\<lambda>k.
       if \<not> active d then Inr (False, ([], d))
       else Inr (True, (records @ [(record, k)], d)))
   | None \<Rightarrow> rbind (emit_records emit (map fst (std_sort (sort_less desc) records)) d) (\<lambda>(cont, d').
       if \<not> cont then Inr (False, ([], d'))
       else relay emit [] d' None)))"

context emitter
begin

lemma emit_records_drive:
  "live d \<Longrightarrow> emit_records out rs d = rbind (drive out d (map Some rs)) (\<lambda>d'. Inr (live d', d'))"
proof (induction rs arbitrary: d)
  case (Cons r rs)
  then show ?case by (cases "out d (Some r)") (auto dest: out_live)
qed simp

lemma emit_records_dead: "\<not> live d \<Longrightarrow> rs \<noteq> [] \<Longrightarrow> emit_records out rs d = Inr (False, d)"
  by (cases rs) (simp_all add: out_dead)

lemma emit_last:
  assumes "live d"
  shows "rbind (rbind (emit_records out rs d) (\<lambda>(cont, d'). if \<not> cont then Inr (False, (x, d')) else relay out y d' None))
     (\<lambda>(b, z, d). Inr d) = drive out d (stream rs)"
proof (cases "drive out d (map Some rs)")
  case (Inr d')
  then show ?thesis
    by (cases "live d'"; cases "out d' None")
      (auto simp: emit_records_drive [OF assms] drive_out_append relay_def drive_None out_dead
        simp del: drive.simps(2))
qed (simp add: emit_records_drive [OF assms] drive_out_append del: drive.simps(2))

lemma sort_drive:
  assumes "\<And>r. r \<in> set rs \<Longrightarrow> eval_key es r = Inr (k r)" and "live d"
  shows "behind (drive (sort_consume srt out live es desc) (xs, d) (stream rs)) =
         drive out d (stream (map fst (srt (sort_less desc) (xs @ map (\<lambda>r. (r, k r)) rs))))"
  using assms
proof (induction rs arbitrary: xs)
  case Nil
  then show ?case
    by (simp add: behind_last sort_consume_def emit_last del: drive.simps(2))
next
  case (Cons r rs)
  then show ?case by (simp add: sort_consume_def)
qed

lemma sort_drive_dead:
  assumes "\<And>r. r \<in> set rs \<Longrightarrow> eval_key es r = Inr (k r)" and "\<not> live d" and "srt (sort_less desc) [] = []"
  shows "behind (drive (sort_consume srt out live es desc) ([], d) (stream rs)) = Inr d"
  using assms by (cases rs) (auto simp: sort_consume_def relay_def out_dead)

lemma sort_subscriber: "subscriber (sort_consume srt out live es desc)"
  by unfold_locales (auto simp: sort_consume_def split: if_splits dest: stop_eof)

end

section \<open>The priority queue\<close>

text \<open>\<open>std::priority_queue\<close>: \<open>top\<close> is an element no other one is greater than.\<close>

record ('i, 'q) pq =
  pq_empty :: 'q
  pq_push :: "'i \<Rightarrow> 'q \<Rightarrow> 'q"
  pq_top :: "'q \<Rightarrow> 'i"
  pq_pop :: "'q \<Rightarrow> 'q"
  pq_size :: "'q \<Rightarrow> nat"

locale priority_queue =
  fixes Q :: "('i, 'q) pq" and items :: "'q \<Rightarrow> 'i multiset" and lt :: "'i \<Rightarrow> 'i \<Rightarrow> bool" and good :: "'i set"
  assumes items_empty [simp]: "items (pq_empty Q) = {#}"
    and items_push [simp]: "items (pq_push Q x q) = add_mset x (items q)"
    and top_in: "items q \<noteq> {#} \<Longrightarrow> pq_top Q q \<in># items q"
    and top_max: "set_mset (items q) \<subseteq> good \<Longrightarrow> x \<in># items q \<Longrightarrow> \<not> lt (pq_top Q q) x"
    and items_pop: "items q \<noteq> {#} \<Longrightarrow> items (pq_pop Q q) = items q - {#pq_top Q q#}"
    and size_items [simp]: "pq_size Q q = size (items q)"
    and lt_weak: "weak_order_on good lt"

section \<open>TopK.h\<close>

datatype Action = Inserted | Replaced | Skipped

text \<open>\<open>BoundedPriorityQueue\<close>: its size limit is fixed when it is made.\<close>

definition bpq_create :: "('i, 'q) pq \<Rightarrow> nat \<Rightarrow> 'q res" where
  "bpq_create Q max_size = verify (max_size > 0) (Inr (pq_empty Q))"

definition bpq_push :: "('i, 'q) pq \<Rightarrow> ('i \<Rightarrow> 'i \<Rightarrow> bool) \<Rightarrow> nat \<Rightarrow> 'q \<Rightarrow> 'i \<Rightarrow> Action \<times> 'q" where
  "bpq_push Q better max_size q x =
     (if pq_size Q q < max_size then (Inserted, pq_push Q x q)
      else if \<not> better x (pq_top Q q) then (Skipped, q)
      else (Replaced, pq_push Q x (pq_pop Q q)))"

text \<open>\<open>drain\<close>: pop until empty, then reverse; the loop runs \<open>size()\<close> times.\<close>

fun drain_loop :: "('i, 'q) pq \<Rightarrow> nat \<Rightarrow> 'q \<Rightarrow> 'i list \<Rightarrow> 'i list \<times> 'q" where
  "drain_loop Q 0 q res = (res, q)"
| "drain_loop Q (Suc n) q res = drain_loop Q n (pq_pop Q q) (res @ [pq_top Q q])"

definition drain :: "('i, 'q) pq \<Rightarrow> 'q \<Rightarrow> 'i list \<times> 'q" where
  "drain Q q = (let (res, q') = drain_loop Q (pq_size Q q) q [] in (rev res, q'))"

context priority_queue
begin

lemma drain_loop_spec:
  "set_mset (items q) \<subseteq> good \<Longrightarrow> size (items q) = n \<Longrightarrow> ordered lt (rev res) \<Longrightarrow>
   (\<And>x y. x \<in># items q \<Longrightarrow> y \<in> set res \<Longrightarrow> \<not> lt y x) \<Longrightarrow>
   (case drain_loop Q n q res of (ys, q') \<Rightarrow>
      mset ys = mset res + items q \<and> ordered lt (rev ys) \<and> items q' = {#})"
proof (induction n arbitrary: q res)
  case 0
  then show ?case by simp
next
  case (Suc n)
  then have ne: "items q \<noteq> {#}" by auto
  let ?t = "pq_top Q q"
  have t: "?t \<in># items q" by (rule top_in [OF ne])
  have pop: "items (pq_pop Q q) = items q - {#?t#}" by (rule items_pop [OF ne])
  have "case drain_loop Q n (pq_pop Q q) (res @ [?t]) of (ys, q') \<Rightarrow>
      mset ys = mset (res @ [?t]) + items (pq_pop Q q) \<and> ordered lt (rev ys) \<and> items q' = {#}"
  proof (rule Suc.IH)
    show "set_mset (items (pq_pop Q q)) \<subseteq> good" using Suc.prems(1) by (auto simp: pop dest: in_diffD)
    show "size (items (pq_pop Q q)) = n" using Suc.prems(2) t by (simp add: pop size_Diff_singleton)
    show "ordered lt (rev (res @ [?t]))" using Suc.prems(3,4) t by (auto simp: ordered_def)
    show "\<not> lt y x" if x: "x \<in># items (pq_pop Q q)" and y: "y \<in> set (res @ [?t])" for x y
    proof -
      from x have "x \<in># items q" by (auto simp: pop dest: in_diffD)
      with y Suc.prems(4) top_max [OF Suc.prems(1)] show ?thesis by auto
    qed
  qed
  then show ?case using t by (auto simp: pop)
qed

lemma drain_spec:
  assumes "set_mset (items q) \<subseteq> good" "drain Q q = (ys, q')"
  shows "mset ys = items q" "ordered lt ys" "items q' = {#}"
  using drain_loop_spec [OF assms(1), of _ "[]"] assms(2)
  by (auto simp: drain_def ordered_def split: prod.splits)

text \<open>The queue holds the best elements seen; \<open>dropped\<close> are the others.\<close>

definition keeps :: "nat \<Rightarrow> 'i multiset \<Rightarrow> 'q \<Rightarrow> bool" where
  "keeps k seen q \<longleftrightarrow> (\<exists>dropped. seen = items q + dropped \<and> min k (size seen) = size (items q) \<and>
     (\<forall>x \<in># items q. \<forall>y \<in># dropped. \<not> lt y x))"

lemma keepsI:
  assumes "seen = items q + dropped" "min k (size seen) = size (items q)"
    and "\<And>x y. x \<in># items q \<Longrightarrow> y \<in># dropped \<Longrightarrow> \<not> lt y x"
  shows "keeps k seen q"
  unfolding keeps_def using assms(1,2) by (intro exI [of _ dropped] conjI ballI assms(3))

lemma keepsE:
  assumes "keeps k seen q"
  obtains dropped where "seen = items q + dropped" "min k (size seen) = size (items q)"
    "\<And>x y. x \<in># items q \<Longrightarrow> y \<in># dropped \<Longrightarrow> \<not> lt y x"
proof -
  from assms obtain dropped where d: "seen = items q + dropped" "min k (size seen) = size (items q)"
    "\<forall>x \<in># items q. \<forall>y \<in># dropped. \<not> lt y x" unfolding keeps_def by (elim exE conjE)
  from d(3) have "x \<in># items q \<Longrightarrow> y \<in># dropped \<Longrightarrow> \<not> lt y x" for x y by blast
  with d(1,2) show thesis by (rule that)
qed

lemma bpq_push_keeps:
  assumes seen: "set_mset (add_mset x seen) \<subseteq> good" and k: "0 < k" and keep: "keeps k seen q"
    and push: "bpq_push Q lt k q x = (a, q')"
  shows "keeps k (add_mset x seen) q'"
proof -
  from keep obtain dropped where eq: "seen = items q + dropped" and sz: "min k (size seen) = size (items q)"
    and best: "\<And>x y. x \<in># items q \<Longrightarrow> y \<in># dropped \<Longrightarrow> \<not> lt y x"
    by (erule keepsE)
  have goodq: "set_mset (items q) \<subseteq> good" and goodd: "set_mset dropped \<subseteq> good" and goodx: "x \<in> good"
    using seen eq by auto
  note trans = weak_order_trans [OF lt_weak] and asym = weak_order_asym [OF lt_weak]
  show ?thesis
  proof (cases "size (items q) < k")
    case True
    with sz eq have d: "dropped = {#}" by (auto simp: min_def split: if_splits)
    from True push have q': "q' = pq_push Q x q" by (simp add: bpq_push_def)
    show ?thesis by (rule keepsI [of _ _ "{#}"]) (use True d eq sz in \<open>simp_all add: q'\<close>)
  next
    case False
    with k have ne: "items q \<noteq> {#}" by auto
    let ?t = "pq_top Q q"
    have t: "?t \<in># items q" by (rule top_in [OF ne])
    have tmax: "y \<in># items q \<Longrightarrow> \<not> lt ?t y" for y by (rule top_max [OF goodq])
    show ?thesis
    proof (cases "lt x ?t")
      case less: False
      have xy: "\<not> lt x y" if "y \<in># items q" for y
        by (rule trans [OF _ _ _ tmax [OF that] less]) (use goodq goodx t that in auto)
      from False less push have q': "q' = q" by (simp add: bpq_push_def)
      show ?thesis
      proof (rule keepsI [of _ _ "add_mset x dropped"])
        show "\<not> lt z y" if y: "y \<in># items q'" and z: "z \<in># add_mset x dropped" for y z
        proof -
          consider "z = x" | "z \<in># dropped" using z by auto
          then show ?thesis using xy best y unfolding q' by cases blast+
        qed
      qed (use False sz eq in \<open>simp_all add: q'\<close>)
    next
      case less: True
      with False push have q': "q' = pq_push Q x (pq_pop Q q)" by (simp add: bpq_push_def)
      have items': "items q' = add_mset x (items q - {#?t#})" by (simp add: q' items_pop [OF ne])
      have tx: "\<not> lt ?t x" by (rule asym [OF _ _ less]) (use goodx goodq t in auto)
      have "\<not> lt d x" if "d \<in># dropped" for d
        by (rule trans [OF _ _ _ tx best [OF t that]]) (use goodx goodq goodd t that in auto)
      note dx = this
      show ?thesis
      proof (rule keepsI [of _ _ "add_mset ?t dropped"])
        show "add_mset x seen = items q' + add_mset ?t dropped" using t by (simp add: items' eq)
        show "min k (size (add_mset x seen)) = size (items q')"
          using False sz t ne by (simp add: items' size_Diff_singleton min_def nonempty_has_size split: if_splits)
        show "\<not> lt z y" if y: "y \<in># items q'" and z: "z \<in># add_mset ?t dropped" for y z
        proof -
          consider "y = x" | "y \<in># items q" using y by (auto simp: items' dest: in_diffD)
          then show ?thesis
          proof cases
            case 1
            consider "z = ?t" | "z \<in># dropped" using z by auto
            then show ?thesis unfolding 1 using tx dx by cases blast+
          next
            case 2
            consider "z = ?t" | "z \<in># dropped" using z by auto
            then show ?thesis using tmax [OF 2] best [OF 2] by cases blast+
          qed
        qed
      qed
    qed
  qed
qed

end

text \<open>A list whose top is the first of its greatest elements is such a queue.\<close>

definition scan_top :: "('i \<Rightarrow> 'i \<Rightarrow> bool) \<Rightarrow> 'i list \<Rightarrow> 'i" where
  "scan_top lt q = foldl (\<lambda>m x. if lt m x then x else m) (hd q) (tl q)"

definition list_pq :: "('i \<Rightarrow> 'i \<Rightarrow> bool) \<Rightarrow> ('i, 'i list) pq" where
  "list_pq lt = \<lparr>pq_empty = [], pq_push = (\<lambda>x q. q @ [x]), pq_top = scan_top lt,
                 pq_pop = (\<lambda>q. remove1 (scan_top lt q) q), pq_size = length\<rparr>"

lemma scan_top_fold:
  "weak_order_on (insert m (set xs)) lt \<Longrightarrow>
   (let t = foldl (\<lambda>m x. if lt m x then x else m) m xs in
    t \<in> insert m (set xs) \<and> (\<forall>x \<in> insert m (set xs). \<not> lt t x))"
proof (induction xs arbitrary: m)
  case Nil
  then show ?case by (auto simp: weak_order_on_def)
next
  case (Cons y ys)
  let ?n = "if lt m y then y else m" and ?t = "foldl (\<lambda>m x. if lt m x then x else m) (if lt m y then y else m) ys"
  have "weak_order_on (insert ?n (set ys)) lt" using Cons.prems by (rule weak_order_subset) auto
  from Cons.IH [OF this] have t: "?t \<in> insert ?n (set ys)" "\<forall>x \<in> insert ?n (set ys). \<not> lt ?t x"
    by (simp_all add: Let_def)
  note w = Cons.prems
  have n: "\<not> lt ?n m" "\<not> lt ?n y"
    using weak_order_asym [OF w, of m y] weak_order_irrefl [OF w] by auto
  have mem: "?t \<in> insert m (set (y # ys))" "?n \<in> insert m (set (y # ys))" using t by auto
  have nt: "\<not> lt ?t ?n" using t(2) by simp
  have "\<not> lt ?t m" "\<not> lt ?t y"
    by (rule weak_order_trans [OF w _ mem(2) mem(1) _ nt]; simp add: n del: if_split)+
  with t mem(1) show ?case by (simp add: Let_def del: if_split)
qed

lemma scan_top_ok:
  "q \<noteq> [] \<Longrightarrow> scan_top lt q \<in> set q"
  "weak_order_on (set q) lt \<Longrightarrow> x \<in> set q \<Longrightarrow> \<not> lt (scan_top lt q) x"
proof -
  have "foldl (\<lambda>m x. if lt m x then x else m) m xs \<in> insert m (set xs)" for m xs
    by (induction xs arbitrary: m) (simp, fastforce)
  then show "q \<noteq> [] \<Longrightarrow> scan_top lt q \<in> set q" by (cases q) (auto simp: scan_top_def)
  show "weak_order_on (set q) lt \<Longrightarrow> x \<in> set q \<Longrightarrow> \<not> lt (scan_top lt q) x"
    using scan_top_fold [of "hd q" "tl q" lt] by (cases q) (auto simp: scan_top_def Let_def)
qed

lemma list_pq_queue: "weak_order_on good lt \<Longrightarrow> priority_queue (list_pq lt) mset lt good"
  by unfold_locales
    (auto simp: list_pq_def scan_top_ok dest: scan_top_ok(2) [OF weak_order_subset])

interpretation topk_queue: priority_queue "list_pq (heap_less desc)" mset "heap_less desc" good_items
  by (rule list_pq_queue [OF heap_less_weak])

section \<open>TopK.h: the operation\<close>

text \<open>The queue is created with \<open>top_count\<close> converted to \<open>size_t\<close>.\<close>

definition topk_create :: "(item, 'q) pq \<Rightarrow> exec_scalar list \<Rightarrow> int \<Rightarrow> 'q res" where
  "topk_create Q skeys top_count =
     rbind (bpq_create Q (nat (top_count mod 2 ^ 64))) (\<lambda>q. require (skeys \<noteq> []) (Inr q))"

definition topk_consume ::
  "(item, 'q) pq \<Rightarrow> 'o consumer \<Rightarrow> ('o \<Rightarrow> bool) \<Rightarrow> exec_scalar list \<Rightarrow> int \<Rightarrow> bool \<Rightarrow> ('q \<times> 'o) consumer" where
  "topk_consume Q emit active skeys top_count desc s r = (case s of (q, d) \<Rightarrow> (case r of
     Some record \<Rightarrow>
       if \<not> active d then Inr (False, (pq_empty Q, d))
       else rbind (eval_key skeys record) (\<lambda>k.
         Inr (True, (snd (bpq_push Q (heap_less desc) (nat (top_count mod 2 ^ 64)) q (record, k)), d)))
   | None \<Rightarrow> (let (items, q') = drain Q q in
       rbind (emit_records emit (map fst items) d) (\<lambda>(cont, d').
         if \<not> cont then Inr (False, (pq_empty Q, d'))
         else verify (pq_size Q q' = 0) (relay emit q' d' None)))))"

fun push_all :: "(item, 'q) pq \<Rightarrow> bool \<Rightarrow> nat \<Rightarrow> 'q \<Rightarrow> item list \<Rightarrow> 'q" where
  "push_all Q desc k q [] = q"
| "push_all Q desc k q (x # xs) = push_all Q desc k (snd (bpq_push Q (heap_less desc) k q x)) xs"

lemma push_all_keeps:
  assumes "priority_queue Q items (heap_less desc) good_items" "0 < k"
  shows "set xs \<subseteq> good_items \<Longrightarrow> set_mset seen \<subseteq> good_items \<Longrightarrow>
    priority_queue.keeps items (heap_less desc) k seen q \<Longrightarrow>
    priority_queue.keeps items (heap_less desc) k (seen + mset xs) (push_all Q desc k q xs)"
proof (induction xs arbitrary: q seen)
  case (Cons x xs)
  obtain a q' where p: "bpq_push Q (heap_less desc) k q x = (a, q')" by force
  from priority_queue.bpq_push_keeps [OF assms(1) _ assms(2) Cons.prems(3) p] Cons.prems
  have "priority_queue.keeps items (heap_less desc) k (add_mset x seen) q'" by simp
  from Cons.IH [OF _ _ this] Cons.prems p show ?case by simp
qed simp

text \<open>What is drained after the records are pushed: the first records of some sorted order.\<close>

lemma push_all_drain:
  assumes Q: "priority_queue Q items (heap_less desc) good_items" and k: "0 < k" and xs: "set xs \<subseteq> good_items"
    and dr: "drain Q (push_all Q desc k (pq_empty Q) xs) = (ys, q')"
  shows "pq_size Q q' = 0"
    and "\<exists>zs. mset zs = mset xs \<and> ordered (heap_less desc) zs \<and> ys = take k zs"
proof -
  note laws = priority_queue.items_empty [OF Q] priority_queue.size_items [OF Q]
  let ?q = "push_all Q desc k (pq_empty Q) xs"
  have "priority_queue.keeps items (heap_less desc) k {#} (pq_empty Q)"
    by (rule priority_queue.keepsI [OF Q, of _ _ "{#}"]) (simp_all add: laws)
  from push_all_keeps [OF Q k xs _ this]
  have keep: "priority_queue.keeps items (heap_less desc) k (mset xs) ?q" by simp
  then obtain dropped where eq: "mset xs = items ?q + dropped" and sz: "min k (size (mset xs)) = size (items ?q)"
    and best: "\<And>x y. x \<in># items ?q \<Longrightarrow> y \<in># dropped \<Longrightarrow> \<not> heap_less desc y x"
    by (erule priority_queue.keepsE [OF Q])
  have "set_mset (items ?q) \<subseteq> set_mset (mset xs)" and dgood: "set_mset dropped \<subseteq> set_mset (mset xs)"
    unfolding eq by auto
  with xs have "set_mset (items ?q) \<subseteq> good_items" by simp
  from priority_queue.drain_spec [OF Q this dr]
  have ys: "mset ys = items ?q" "ordered (heap_less desc) ys" "items q' = {#}" .
  then show "pq_size Q q' = 0" by (simp add: laws)
  obtain ds where ds: "mset ds = dropped" using ex_mset by blast
  with dgood xs have "set ds \<subseteq> good_items" by auto
  then have "ordered (heap_less desc) (sort_by (heap_less desc) ds)"
    by (intro sort_by_ordered weak_order_subset [OF heap_less_weak])
  moreover have "\<not> heap_less desc y x" if "x \<in> set ys" "y \<in> set ds" for x y
  proof (rule best)
    show "x \<in># items ?q" using that(1) ys(1) by (metis set_mset_mset)
    show "y \<in># dropped" using that(2) ds by (metis set_mset_mset)
  qed
  ultimately have "ordered (heap_less desc) (ys @ sort_by (heap_less desc) ds)"
    using ys(2) by (simp add: ordered_def sorted_wrt_append)
  moreover have "mset (ys @ sort_by (heap_less desc) ds) = mset xs"
    by (simp add: ys(1) ds eq)
  moreover have "ys = take k (ys @ sort_by (heap_less desc) ds)"
  proof -
    have len: "length ys = min k (length xs)" using sz ys(1) by (metis size_mset)
    have "length ys + length ds = length xs" using eq ys(1) ds by (metis size_mset size_union)
    with len have "length ys = k \<or> ds = []" "length ys \<le> k" by (auto simp: min_def split: if_splits)
    then show ?thesis by (auto simp: sort_by_def)
  qed
  ultimately show "\<exists>zs. mset zs = mset xs \<and> ordered (heap_less desc) zs \<and> ys = take k zs" by blast
qed

context emitter
begin

lemma topk_drive:
  assumes "\<And>r. r \<in> set rs \<Longrightarrow> eval_key es r = Inr (k r)" and "live d"
    and "\<And>q ys q'. drain Q q = (ys, q') \<Longrightarrow> q \<in> reach \<Longrightarrow> pq_size Q q' = 0"
    and "\<And>xs. set xs \<subseteq> (\<lambda>r. (r, k r)) ` set rs \<Longrightarrow> push_all Q desc (nat (n mod 2 ^ 64)) q xs \<in> reach"
  shows "behind (drive (topk_consume Q out live es n desc) (q, d) (stream rs)) =
         drive out d (stream (map fst (fst (drain Q (push_all Q desc (nat (n mod 2 ^ 64)) q (map (\<lambda>r. (r, k r)) rs))))))"
  using assms
proof (induction rs arbitrary: q)
  case Nil
  obtain ys q' where dr: "drain Q q = (ys, q')" by force
  from Nil.prems(3) [OF dr] Nil.prems(4) [of "[]"] have "pq_size Q q' = 0" by simp
  with dr emit_last [OF Nil.prems(2), of "map fst ys" "pq_empty Q" q'] \<open>pq_size Q q' = 0\<close> show ?case
    by (simp add: behind_last topk_consume_def del: drive.simps(2) cong: if_cong)
next
  case (Cons r rs)
  have "push_all Q desc (nat (n mod 2 ^ 64)) (snd (bpq_push Q (heap_less desc) (nat (n mod 2 ^ 64)) q (r, k r))) xs \<in> reach"
    if "set xs \<subseteq> (\<lambda>r. (r, k r)) ` set rs" for xs
    using Cons.prems(4) [of "(r, k r) # xs"] that by auto
  with Cons show ?case by (simp add: topk_consume_def)
qed

lemma topk_drive_sorted:
  assumes Q: "priority_queue Q items (heap_less desc) good_items" and n: "0 < n" "n < 2 ^ 63"
    and key: "\<And>r. r \<in> set rs \<Longrightarrow> eval_key es r = Inr (k r) \<and> no_nan (k r)" and "live d"
  shows "\<exists>zs. mset zs = mset (map (\<lambda>r. (r, k r)) rs) \<and> ordered (heap_less desc) zs \<and>
    behind (drive (topk_consume Q out live es n desc) (pq_empty Q, d) (stream rs)) =
    drive out d (stream (map fst (take (nat n) zs)))"
proof -
  let ?n = "nat (n mod 2 ^ 64)" and ?xs = "map (\<lambda>r. (r, k r)) rs"
  let ?reach = "{push_all Q desc ?n (pq_empty Q) xs | xs. set xs \<subseteq> (\<lambda>r. (r, k r)) ` set rs}"
  have mod: "n mod 2 ^ 64 = n" using n by (simp add: mod_pos_pos_trivial)
  then have n': "?n = nat n" "0 < ?n" using n by simp_all
  have good: "(\<lambda>r. (r, k r)) ` set rs \<subseteq> good_items" using key by (auto simp: good_items_def)
  obtain ys q' where dr: "drain Q (push_all Q desc ?n (pq_empty Q) ?xs) = (ys, q')" by force
  have "set ?xs \<subseteq> good_items" using good by simp
  from push_all_drain(2) [OF Q n'(2) this dr] obtain zs where
    zs: "mset zs = mset ?xs" "ordered (heap_less desc) zs" "ys = take ?n zs" by blast
  have "behind (drive (topk_consume Q out live es n desc) (pq_empty Q, d) (stream rs)) =
      drive out d (stream (map fst (fst (drain Q (push_all Q desc ?n (pq_empty Q) ?xs)))))"
  proof (rule topk_drive [where reach = ?reach, OF _ \<open>live d\<close>])
    fix q ys q' assume "drain Q q = (ys, q')" "q \<in> ?reach"
    then show "pq_size Q q' = 0" using push_all_drain(1) [OF Q n'(2)] good by blast
  qed (use key in auto)
  with dr zs n'(1) show ?thesis by (intro exI [of _ zs]) simp
qed

lemma topk_subscriber: "subscriber (topk_consume Q out live es n desc)"
  by unfold_locales (auto simp: topk_consume_def Let_def split: if_splits prod.splits dest: stop_eof)

end

section \<open>Properties\<close>

text \<open>C5: Sort emits a permutation of its input that is ordered by the sort key, and then the end of
  the stream, whatever order \<open>std::sort\<close> gives to ties. The keys contain no NaN.\<close>

theorem sort_correct:
  assumes "ends_at_eof c" and "std_sort_ok srt" and "op_active d"
    and "\<forall>r \<in> set rs. eval_key es r = Inr (k r) \<and> no_nan (k r)"
  shows "\<exists>zs. mset zs = mset (map (\<lambda>r. (r, k r)) rs) \<and> ordered (sort_less desc) zs \<and>
     behind (drive (sort_consume srt (op_emit c) op_active es desc) ([], d) (stream rs)) =
     drive (op_emit c) d (stream (map fst zs))"
proof (intro exI conjI)
  let ?xs = "map (\<lambda>r. (r, k r)) rs"
  have "weak_order_on (set ?xs) (sort_less desc)"
    by (rule weak_order_subset [OF sort_less_weak]) (use assms in \<open>auto simp: good_items_def\<close>)
  with assms(2) show "mset (srt (sort_less desc) ?xs) = mset ?xs" "ordered (sort_less desc) (srt (sort_less desc) ?xs)"
    unfolding std_sort_ok_def by blast+
  show "behind (drive (sort_consume srt (op_emit c) op_active es desc) ([], d) (stream rs)) =
      drive (op_emit c) d (stream (map fst (srt (sort_less desc) ?xs)))"
    using emitter.sort_drive [OF emitter_of, of c rs es k d srt desc "[]"] assms by simp
qed

theorem sort_correct_witness:
  "\<exists>zs. mset zs = mset [(ValueRecord (VInt 2), [VInt 2]), (ValueRecord (VInt 1), [VInt 1])] \<and>
     ordered (sort_less True) zs \<and>
     behind (drive (sort_consume sort_by (op_emit (\<lambda>i. rows_bridge)) op_active [IdentifierScalar 0 1 Integer] True)
       ([], [0], \<lparr>rec_fields = [(1, vnull)], sink = []\<rparr>) (stream [ValueRecord (VInt 2), ValueRecord (VInt 1)])) =
     drive (op_emit (\<lambda>i. rows_bridge)) ([0], \<lparr>rec_fields = [(1, vnull)], sink = []\<rparr>) (stream (map fst zs))"
proof -
  have k: "\<forall>r \<in> set [ValueRecord (VInt 2), ValueRecord (VInt 1)].
      eval_key [IdentifierScalar 0 1 Integer] r = Inr (case r of ValueRecord v \<Rightarrow> [v] | _ \<Rightarrow> []) \<and>
      no_nan (case r of ValueRecord v \<Rightarrow> [v] | _ \<Rightarrow> [])"
    by (simp add: eval_on_def)
  show ?thesis
    using sort_correct [OF rows_bridge_ends sort_by_ok _ k,
        of "([0], \<lparr>rec_fields = [(1, vnull)], sink = []\<rparr>)" True]
    by (simp add: op_active_def del: drive.simps)
qed

text \<open>C4: TopK emits the first records, as many as its count, of some ordering of its input by the
  sort key, whatever the queue does with ties: what Sort followed by Limit emits. The keys contain no
  NaN and the count is positive.\<close>

theorem topk_correct:
  assumes "ends_at_eof c" and "priority_queue Q items (heap_less desc) good_items" and "op_active d"
    and "0 < n" "n < 2 ^ 63" and "\<forall>r \<in> set rs. eval_key es r = Inr (k r) \<and> no_nan (k r)"
  shows "\<exists>zs. mset zs = mset (map (\<lambda>r. (r, k r)) rs) \<and> ordered (heap_less desc) zs \<and>
     behind (drive (topk_consume Q (op_emit c) op_active es n desc) (pq_empty Q, d) (stream rs)) =
     drive (op_emit c) d (stream (map fst (take (nat n) zs)))"
  by (rule emitter.topk_drive_sorted [OF emitter_of assms(2)]) (use assms in auto)

theorem topk_correct_witness:
  "\<exists>zs. mset zs = mset [(ValueRecord (VInt 2), [VInt 2]), (ValueRecord (VInt 1), [VInt 1])] \<and>
     ordered (heap_less False) zs \<and>
     behind (drive (topk_consume (list_pq (heap_less False)) (op_emit (\<lambda>i. rows_bridge)) op_active
         [IdentifierScalar 0 1 Integer] 1 False)
       ([], [0], \<lparr>rec_fields = [(1, vnull)], sink = []\<rparr>) (stream [ValueRecord (VInt 2), ValueRecord (VInt 1)])) =
     drive (op_emit (\<lambda>i. rows_bridge)) ([0], \<lparr>rec_fields = [(1, vnull)], sink = []\<rparr>) (stream (map fst (take 1 zs)))"
proof -
  have k: "\<forall>r \<in> set [ValueRecord (VInt 2), ValueRecord (VInt 1)].
      eval_key [IdentifierScalar 0 1 Integer] r = Inr (case r of ValueRecord v \<Rightarrow> [v] | _ \<Rightarrow> []) \<and>
      no_nan (case r of ValueRecord v \<Rightarrow> [v] | _ \<Rightarrow> [])"
    by (simp add: eval_on_def)
  have e: "pq_empty (list_pq (heap_less False)) = []" by (simp add: list_pq_def)
  show ?thesis
    using topk_correct [OF rows_bridge_ends list_pq_queue [OF heap_less_weak] _ _ _ k,
        of "([0], \<lparr>rec_fields = [(1, vnull)], sink = []\<rparr>)" 1 False]
    by (simp add: op_active_def e del: drive.simps)
qed

end
