(* ===== verification/Opt_Scalars.thy ===== *)
theory Opt_Scalars
  imports Exec_Scalars
begin

text \<open>
  The optimizer on expressions: src/optimize/const_scalar_fold.cpp, scalar_simplify.cpp,
  ScalarCostEstimator.h and scalar_cache.cpp, with the settings of src/config. A pass gives the new
  expression and whether it noted a change; the text of the notes is left out. Soundness is a
  refinement: where the expression has a value on a row, the optimized one has the same.
\<close>

section \<open>Settings\<close>

datatype OptimizerSetting =
    Passes
  | CoalesceCostOverhead
  | LowerCostOverhead
  | SplitPartCostOverhead
  | SubstrCostOverhead
  | ParseTimestampCostOverhead
  | JSONValueCostOverhead
  | UnaryOpCostOverhead
  | BinaryOpCostOverhead
  | CastToStringCostOverhead
  | ParseStringCostOverhead
  | RegexCostOverhead
  | ProjectionCostOverhead
  | CachedScalarCostOverhead

type_synonym settings = "OptimizerSetting \<Rightarrow> int"

fun default_setting :: settings where
  "default_setting Passes = 5"
| "default_setting ParseTimestampCostOverhead = 10"
| "default_setting JSONValueCostOverhead = 10"
| "default_setting CastToStringCostOverhead = 2"
| "default_setting ParseStringCostOverhead = 10"
| "default_setting RegexCostOverhead = 4"
| "default_setting ProjectionCostOverhead = 10"
| "default_setting _ = 1"

text \<open>\<open>set\<close> of a setting validates the value.\<close>

definition set_setting :: "settings \<Rightarrow> OptimizerSetting \<Rightarrow> int \<Rightarrow> settings res" where
  "set_setting C s v = require (v \<ge> 0) (Inr (C(s := v)))"

section \<open>Walking an expression\<close>

text \<open>\<open>visit\<close> of the two passes: the children first, then the step on the node itself.\<close>

type_synonym 'a pass = "'a \<Rightarrow> (bool \<times> 'a) res"

fun walk_list :: "'a pass \<Rightarrow> 'a list \<Rightarrow> (bool \<times> 'a list) res" where
  "walk_list f [] = Inr (False, [])"
| "walk_list f (x # xs) =
     rbind (f x) (\<lambda>(b, y). rbind (walk_list f xs) (\<lambda>(c, ys). Inr (b \<or> c, y # ys)))"

lemma walk_list_cong [fundef_cong]:
  "xs = ys \<Longrightarrow> (\<And>x. x \<in> set ys \<Longrightarrow> f x = g x) \<Longrightarrow> walk_list f xs = walk_list g ys"
  by (induction xs arbitrary: ys) (auto intro!: rbind_cong)

lemma walk_list_all2: "walk_list f xs = Inr (b, ys) \<Longrightarrow> list_all2 (\<lambda>x y. \<exists>c. f x = Inr (c, y)) xs ys"
  by (induction xs arbitrary: b ys) auto

definition then_step :: "'a pass \<Rightarrow> (bool \<times> 'a) res \<Rightarrow> (bool \<times> 'a) res" where
  "then_step step m = rbind m (\<lambda>(b, x). rbind (step x) (\<lambda>(c, y). Inr (b \<or> c, y)))"

fun scalar_walk :: "Scalar pass \<Rightarrow> Scalar pass" where
  "scalar_walk step (FieldScalar i t) = then_step step (Inr (False, FieldScalar i t))"
| "scalar_walk step (ValueScalar v t) = then_step step (Inr (False, ValueScalar v t))"
| "scalar_walk step (CoalesceScalar as t) =
     then_step step (rbind (walk_list (scalar_walk step) as) (\<lambda>(b, bs). Inr (b, CoalesceScalar bs t)))"
| "scalar_walk step (FnCallScalar f as t) =
     then_step step (rbind (walk_list (scalar_walk step) as) (\<lambda>(b, bs). Inr (b, FnCallScalar f bs t)))"
| "scalar_walk step (CachedScalar a t) =
     then_step step (rbind (scalar_walk step a) (\<lambda>(b, c). Inr (b, CachedScalar c t)))"

section \<open>const\_scalar\_fold.cpp\<close>

fun const_of :: "Scalar \<Rightarrow> Value option" where
  "const_of (ValueScalar v t) = Some v"
| "const_of _ = None"

fun const_fold_step :: "ext \<Rightarrow> Scalar pass" where
  "const_fold_step X (FnCallScalar f as t) =
     (if \<not> isScalar f then Inr (False, FnCallScalar f as t)
      else if \<not> list_all (\<lambda>a. const_of a \<noteq> None) as then Inr (False, FnCallScalar f as t)
      else rbind (buildScalar X f) (\<lambda>e.
        rbind (execute e (map (\<lambda>a. the (const_of a)) as)) (\<lambda>v. Inr (True, ValueScalar v t))))"
| "const_fold_step X s = Inr (False, s)"

definition constScalarFold_scalar :: "ext \<Rightarrow> Scalar pass" where
  "constScalarFold_scalar X = scalar_walk (const_fold_step X)"

section \<open>scalar\_simplify.cpp\<close>

text \<open>The loop over the two operands: the first that is a Boolean constant decides.\<close>

definition simplifyBooleanBinary :: "Scalar \<Rightarrow> Scalar list \<Rightarrow> bool \<Rightarrow> bool \<times> Scalar" where
  "simplifyBooleanBinary self as conjunction =
     (case (const_of (as ! 0), const_of (as ! 1)) of
        (Some (VBool b), _) \<Rightarrow> (True, if b = conjunction then as ! 1 else as ! 0)
      | (_, Some (VBool b)) \<Rightarrow> (True, if b = conjunction then as ! 0 else as ! 1)
      | _ \<Rightarrow> (False, self))"

fun simplifyDoubleNegation :: "Scalar \<Rightarrow> Scalar list \<Rightarrow> bool \<times> Scalar" where
  "simplifyDoubleNegation self (FnCallScalar BooleanNegate_fn (a # as) t # bs) = (True, a)"
| "simplifyDoubleNegation self as = (False, self)"

text \<open>
  The arguments of a coalesce that are kept: nulls and repeated arguments are skipped, nothing
  follows a constant, and a leading constant is the result.
\<close>

fun coalesce_args :: "Scalar list \<Rightarrow> Scalar list \<Rightarrow> Value + Scalar list" where
  "coalesce_args kept [] = Inr kept"
| "coalesce_args kept (a # as) =
     (case const_of a of
        Some v \<Rightarrow>
          if val_eq v vnull then coalesce_args kept as
          else if kept = [] then Inl v
          else Inr (kept @ [a])
      | None \<Rightarrow>
          if list_ex (\<lambda>p. scalar_eq p a) kept then coalesce_args kept as
          else coalesce_args (kept @ [a]) as)"

definition simplify_coalesce :: "Scalar list \<Rightarrow> ValueType \<Rightarrow> bool \<times> Scalar" where
  "simplify_coalesce as t = (case coalesce_args [] as of
     Inl v \<Rightarrow> (True, ValueScalar v t)
   | Inr kept \<Rightarrow>
       if kept = [] then (True, ValueScalar vnull t)
       else if length kept = 1 then (True, kept ! 0)
       else (length kept \<noteq> length as, CoalesceScalar kept t))"

fun simplify_step :: "Scalar pass" where
  "simplify_step (FnCallScalar (Cast_fn c) as t) =
     Inr (if value_type (as ! 0) = c then (True, as ! 0) else (False, FnCallScalar (Cast_fn c) as t))"
| "simplify_step (FnCallScalar And_fn as t) = Inr (simplifyBooleanBinary (FnCallScalar And_fn as t) as True)"
| "simplify_step (FnCallScalar Or_fn as t) = Inr (simplifyBooleanBinary (FnCallScalar Or_fn as t) as False)"
| "simplify_step (FnCallScalar BooleanNegate_fn as t) =
     Inr (simplifyDoubleNegation (FnCallScalar BooleanNegate_fn as t) as)"
| "simplify_step (FnCallScalar Coalesce_fn as t) = Inr (True, CoalesceScalar as t)"
| "simplify_step (CoalesceScalar as t) = Inr (simplify_coalesce as t)"
| "simplify_step s = Inr (False, s)"

definition scalarSimplify_scalar :: "Scalar pass" where
  "scalarSimplify_scalar = scalar_walk simplify_step"


section \<open>Typing of expressions\<close>

text \<open>An argument of type Null, the null literal, is accepted at every type.\<close>

definition fits :: "ValueType \<Rightarrow> ValueType \<Rightarrow> bool" where
  "fits u t \<longleftrightarrow> u = t \<or> u = Null"

definition fn_types :: "Function \<Rightarrow> ValueType list \<Rightarrow> ValueType \<Rightarrow> bool" where
  "fn_types f us t \<longleftrightarrow> (\<exists>ts. fn_wt f ts t \<and> list_all2 fits us ts)"

fun scalar_wt :: "(FieldId \<rightharpoonup> ValueType) \<Rightarrow> Scalar \<Rightarrow> bool" where
  "scalar_wt \<Gamma> (FieldScalar i t) = (\<exists>u. \<Gamma> i = Some u \<and> fits u t)"
| "scalar_wt \<Gamma> (ValueScalar v t) = has_type v t"
| "scalar_wt \<Gamma> (CoalesceScalar as t) = (\<forall>a \<in> set as. scalar_wt \<Gamma> a \<and> fits (value_type a) t)"
| "scalar_wt \<Gamma> (FnCallScalar f as t) = ((\<forall>a \<in> set as. scalar_wt \<Gamma> a) \<and> fn_types f (map value_type as) t)"
| "scalar_wt \<Gamma> (CachedScalar a t) = (scalar_wt \<Gamma> a \<and> fits (value_type a) t)"

definition env_typed :: "(FieldId \<rightharpoonup> ValueType) \<Rightarrow> (FieldId \<Rightarrow> Value res) \<Rightarrow> bool" where
  "env_typed \<Gamma> env \<longleftrightarrow> (\<forall>i t v. \<Gamma> i = Some t \<longrightarrow> env i = Inr v \<longrightarrow> has_type v t)"

lemma fits_refl [simp]: "fits t t"
  by (simp add: fits_def)

lemma fits_trans: "fits a b \<Longrightarrow> fits b c \<Longrightarrow> fits a c"
  by (auto simp: fits_def)

lemma has_type_fits: "has_type v u \<Longrightarrow> fits u t \<Longrightarrow> has_type v t"
  by (auto simp: fits_def)

lemma list_fits: "list_all2 has_type vs us \<Longrightarrow> list_all2 fits us ts \<Longrightarrow> list_all2 has_type vs ts"
  by (induction arbitrary: ts rule: list_all2_induct) (auto simp: list_all2_Cons1 intro: has_type_fits)

lemma fits_list_trans: "list_all2 fits vs us \<Longrightarrow> list_all2 fits us ts \<Longrightarrow> list_all2 fits vs ts"
  by (induction arbitrary: ts rule: list_all2_induct) (auto simp: list_all2_Cons1 intro: fits_trans)

lemma fn_types_fits: "fn_types f us t \<Longrightarrow> list_all2 fits vs us \<Longrightarrow> fn_types f vs t"
  by (auto simp: fn_types_def intro: fits_list_trans)

text \<open>
  The values of an expression may be taken by any executors that give, where they give a value, the
  one of the executor the code builds.
\<close>

definition restricts :: "ext \<Rightarrow> (Function \<Rightarrow> executor res) \<Rightarrow> bool" where
  "restricts X B \<longleftrightarrow> (\<forall>f e vs w. B f = Inr e \<longrightarrow> execute e vs = Inr w \<longrightarrow>
     (\<exists>e'. buildScalar X f = Inr e' \<and> execute e' vs = Inr w))"

lemma restricts_refl [simp]: "restricts X (buildScalar X)"
  by (simp add: restricts_def)

lemma eval_call:
  assumes "restricts X B" "ir_eval_by B env (FnCallScalar f as t) = Inr v"
  shows "\<exists>e vs. rmap (ir_eval_by B env) as = Inr vs \<and> buildScalar X f = Inr e \<and> execute e vs = Inr v"
proof -
  from assms(2) obtain e vs where "rmap (ir_eval_by B env) as = Inr vs" "B f = Inr e" "execute e vs = Inr v" by auto
  with assms(1) show ?thesis unfolding restricts_def by blast
qed

lemma fn_types_sound:
  assumes "fn_types f us t" "list_all2 has_type vs us" "buildScalar X f = Inr e" "execute e vs = Inr w"
  shows "has_type w t"
proof -
  from assms(1) obtain ts where "fn_wt f ts t" "list_all2 fits us ts" by (auto simp: fn_types_def)
  with scalar_type_sound [OF _ list_fits [OF assms(2)] assms(3,4)] show ?thesis by blast
qed

lemma coalesce_res_in: "coalesce_res ms = Inr v \<Longrightarrow> v = VNull \<or> Inr v \<in> set ms"
  by (induction ms) (auto split: if_splits)

lemma scalar_wt_sound:
  "restricts X B \<Longrightarrow> scalar_wt \<Gamma> s \<Longrightarrow> env_typed \<Gamma> env \<Longrightarrow> ir_eval_by B env s = Inr v \<Longrightarrow> has_type v (value_type s)"
proof (induction s arbitrary: v)
  case (FieldScalar i t)
  then show ?case by (auto simp: env_typed_def intro: has_type_fits)
next
  case (CoalesceScalar as t)
  from CoalesceScalar.prems(4) have "v = VNull \<or> Inr v \<in> set (map (ir_eval_by B env) as)"
    by (auto dest: coalesce_res_in)
  then show ?case
  proof
    assume "Inr v \<in> set (map (ir_eval_by B env) as)"
    then obtain a where a: "a \<in> set as" "ir_eval_by B env a = Inr v" by force
    with CoalesceScalar.IH [OF a(1)] CoalesceScalar.prems have "has_type v (value_type a)" by simp
    with a(1) CoalesceScalar.prems(2) show ?thesis by (auto intro: has_type_fits)
  qed simp
next
  case (FnCallScalar f as t)
  from eval_call [OF FnCallScalar.prems(1,4)] obtain e vs
    where e: "buildScalar X f = Inr e" "rmap (ir_eval_by B env) as = Inr vs" "execute e vs = Inr v" by blast
  have "list_all2 has_type vs (map value_type as)"
    using FnCallScalar.IH FnCallScalar.prems e(2)
    by (fastforce simp: rmap_Inr_iff list_all2_conv_all_nth)
  with FnCallScalar.prems(2) e show ?case by (auto intro: fn_types_sound)
next
  case (CachedScalar a t)
  then show ?case by (auto intro: has_type_fits)
qed auto

section \<open>Soundness of a step\<close>

text \<open>
  \<open>s'\<close> may stand for \<open>s\<close>: it is well typed at the same type (or is a null), reads no other field,
  and has the value of \<open>s\<close> on every row on which \<open>s\<close> has one.
\<close>

definition scalar_sound :: "(Function \<Rightarrow> executor res) \<Rightarrow> (FieldId \<rightharpoonup> ValueType) \<Rightarrow> Scalar \<Rightarrow> Scalar \<Rightarrow> bool" where
  "scalar_sound B \<Gamma> s s' \<longleftrightarrow> scalar_wt \<Gamma> s' \<and> fits (value_type s') (value_type s) \<and>
     scalar_fields s' \<subseteq> scalar_fields s \<and>
     (\<forall>env v. env_typed \<Gamma> env \<longrightarrow> ir_eval_by B env s = Inr v \<longrightarrow> ir_eval_by B env s' = Inr v)"

lemma scalar_sound_refl: "scalar_wt \<Gamma> s \<Longrightarrow> scalar_sound B \<Gamma> s s"
  by (simp add: scalar_sound_def)

lemma scalar_sound_trans: "scalar_sound B \<Gamma> a b \<Longrightarrow> scalar_sound B \<Gamma> b c \<Longrightarrow> scalar_sound B \<Gamma> a c"
  by (auto simp: scalar_sound_def intro: fits_trans)

lemma coalesce_res_mono:
  "list_all2 (\<lambda>m n. \<forall>v. m = Inr v \<longrightarrow> n = Inr v) ms ns \<Longrightarrow> coalesce_res ms = Inr v \<Longrightarrow> coalesce_res ns = Inr v"
  by (induction rule: list_all2_induct) (auto split: if_splits)

lemma rmap_mono:
  "list_all2 (\<lambda>a b. \<forall>v. f a = Inr v \<longrightarrow> g b = Inr v) as bs \<Longrightarrow> rmap f as = Inr vs \<Longrightarrow> rmap g bs = Inr vs"
  by (induction arbitrary: vs rule: list_all2_induct) auto

lemma sound_args:
  assumes "list_all2 (scalar_sound B \<Gamma>) as bs"
  shows "\<forall>b \<in> set bs. scalar_wt \<Gamma> b" "list_all2 fits (map value_type bs) (map value_type as)"
    and "env_typed \<Gamma> env \<Longrightarrow> list_all2 (\<lambda>a b. \<forall>v. ir_eval_by B env a = Inr v \<longrightarrow> ir_eval_by B env b = Inr v) as bs"
    and "\<Union> (scalar_fields ` set bs) \<subseteq> \<Union> (scalar_fields ` set as)"
proof -
  show "\<Union> (scalar_fields ` set bs) \<subseteq> \<Union> (scalar_fields ` set as)"
    using assms by (induction rule: list_all2_induct) (auto simp: scalar_sound_def)
qed (use assms in \<open>auto simp: list_all2_conv_all_nth scalar_sound_def in_set_conv_nth\<close>)

lemma sound_coalesce:
  assumes "list_all2 (scalar_sound B \<Gamma>) as bs" "scalar_wt \<Gamma> (CoalesceScalar as t)"
  shows "scalar_sound B \<Gamma> (CoalesceScalar as t) (CoalesceScalar bs t)"
proof -
  have "\<forall>b \<in> set bs. fits (value_type b) t"
  proof
    fix b assume "b \<in> set bs"
    then obtain i where i: "i < length bs" "b = bs ! i" by (auto simp: in_set_conv_nth)
    from assms(1) i(1) have l: "i < length as" and "scalar_sound B \<Gamma> (as ! i) (bs ! i)"
      by (auto simp: list_all2_conv_all_nth)
    then have "fits (value_type b) (value_type (as ! i))" by (simp add: scalar_sound_def i(2))
    moreover have "fits (value_type (as ! i)) t" using assms(2) nth_mem [OF l] by simp
    ultimately show "fits (value_type b) t" by (rule fits_trans)
  qed
  moreover have "coalesce_res (map (ir_eval_by B env) bs) = Inr v"
    if "env_typed \<Gamma> env" "coalesce_res (map (ir_eval_by B env) as) = Inr v" for env v
    by (rule coalesce_res_mono [OF _ that(2)])
      (use sound_args(3) [OF assms(1) that(1)] in \<open>simp add: list_all2_map1 list_all2_map2\<close>)
  ultimately show ?thesis using sound_args(1,4) [OF assms(1)] by (simp add: scalar_sound_def)
qed

lemma sound_call:
  assumes "list_all2 (scalar_sound B \<Gamma>) as bs" "scalar_wt \<Gamma> (FnCallScalar f as t)"
  shows "scalar_sound B \<Gamma> (FnCallScalar f as t) (FnCallScalar f bs t)"
proof -
  have "fn_types f (map value_type bs) t"
    using sound_args(2) [OF assms(1)] assms(2) by (auto intro: fn_types_fits)
  moreover have "rmap (ir_eval_by B env) bs = Inr vs"
    if "env_typed \<Gamma> env" "rmap (ir_eval_by B env) as = Inr vs" for env vs
    by (rule rmap_mono [OF sound_args(3) [OF assms(1) that(1)] that(2)])
  ultimately show ?thesis
    using sound_args(1,4) [OF assms(1)] by (auto simp: scalar_sound_def)
qed

lemma sound_cached:
  "scalar_sound B \<Gamma> a b \<Longrightarrow> scalar_wt \<Gamma> (CachedScalar a t) \<Longrightarrow> scalar_sound B \<Gamma> (CachedScalar a t) (CachedScalar b t)"
  by (auto simp: scalar_sound_def intro: fits_trans)

text \<open>A step that is sound on the expressions of an invariant it keeps gives a sound walk.\<close>

lemma walk_args:
  assumes w: "walk_list g as = Inr (c, bs)"
    and each: "\<And>a b a'. a \<in> set as \<Longrightarrow> g a = Inr (b, a') \<Longrightarrow> scalar_sound B \<Gamma> a a' \<and> P a'"
  shows "list_all2 (scalar_sound B \<Gamma>) as bs" "\<forall>b \<in> set bs. P b"
proof -
  have "list_all2 (\<lambda>a b. scalar_sound B \<Gamma> a b \<and> P b) as bs"
    by (rule list.rel_mono_strong [OF walk_list_all2 [OF w]]) (use each in blast)
  then show "list_all2 (scalar_sound B \<Gamma>) as bs" "\<forall>b \<in> set bs. P b"
    by (auto simp: list_all2_conv_all_nth in_set_conv_nth)
qed

lemma scalar_walk_sound:
  assumes step: "\<And>s b s'. scalar_wt \<Gamma> s \<Longrightarrow> P s \<Longrightarrow> step s = Inr (b, s') \<Longrightarrow> scalar_sound B \<Gamma> s s' \<and> P s'"
    and parts: "\<And>as t a. P (CoalesceScalar as t) \<longleftrightarrow> (\<forall>a \<in> set as. P a)"
      "\<And>f as t. P (FnCallScalar f as t) \<longleftrightarrow> Q f \<and> (\<forall>a \<in> set as. P a)" "\<And>a t. P (CachedScalar a t) \<longleftrightarrow> P a"
  shows "scalar_wt \<Gamma> s \<Longrightarrow> P s \<Longrightarrow> scalar_walk step s = Inr (b, s') \<Longrightarrow> scalar_sound B \<Gamma> s s' \<and> P s'"
proof (induction s arbitrary: b s')
  case (FieldScalar i t)
  with step show ?case by (force simp: then_step_def)
next
  case (ValueScalar v t)
  with step show ?case by (force simp: then_step_def)
next
  case (CoalesceScalar as t)
  from CoalesceScalar.prems obtain c bs d where w: "walk_list (scalar_walk step) as = Inr (c, bs)"
    and s': "step (CoalesceScalar bs t) = Inr (d, s')" by (auto simp: then_step_def)
  have "scalar_sound B \<Gamma> a a' \<and> P a'" if a: "a \<in> set as" "scalar_walk step a = Inr (b, a')" for a b a'
  proof (rule CoalesceScalar.IH [OF a(1) _ _ a(2)])
    show "scalar_wt \<Gamma> a" using CoalesceScalar.prems(1) a(1) by simp
    show "P a" using CoalesceScalar.prems(2) a(1) by (simp add: parts)
  qed
  note bs = walk_args [OF w this]
  from sound_coalesce [OF bs(1) CoalesceScalar.prems(1)]
  have snd: "scalar_sound B \<Gamma> (CoalesceScalar as t) (CoalesceScalar bs t)" .
  then have "scalar_wt \<Gamma> (CoalesceScalar bs t)" by (simp add: scalar_sound_def)
  moreover have "P (CoalesceScalar bs t)" using bs(2) by (simp add: parts)
  ultimately have "scalar_sound B \<Gamma> (CoalesceScalar bs t) s' \<and> P s'" by (rule step [OF _ _ s'])
  with snd show ?case by (blast intro: scalar_sound_trans)
next
  case (FnCallScalar f as t)
  from FnCallScalar.prems obtain c bs d where w: "walk_list (scalar_walk step) as = Inr (c, bs)"
    and s': "step (FnCallScalar f bs t) = Inr (d, s')" by (auto simp: then_step_def)
  have "scalar_sound B \<Gamma> a a' \<and> P a'" if a: "a \<in> set as" "scalar_walk step a = Inr (b, a')" for a b a'
  proof (rule FnCallScalar.IH [OF a(1) _ _ a(2)])
    show "scalar_wt \<Gamma> a" using FnCallScalar.prems(1) a(1) by simp
    show "P a" using FnCallScalar.prems(2) a(1) by (simp add: parts)
  qed
  note bs = walk_args [OF w this]
  from sound_call [OF bs(1) FnCallScalar.prems(1)]
  have snd: "scalar_sound B \<Gamma> (FnCallScalar f as t) (FnCallScalar f bs t)" .
  then have "scalar_wt \<Gamma> (FnCallScalar f bs t)" by (simp add: scalar_sound_def)
  moreover have "Q f" using FnCallScalar.prems(2) by (simp add: parts)
  then have "P (FnCallScalar f bs t)" using bs(2) by (simp add: parts)
  ultimately have "scalar_sound B \<Gamma> (FnCallScalar f bs t) s' \<and> P s'" by (intro step [OF _ _ s'])
  with snd show ?case by (blast intro: scalar_sound_trans)
next
  case (CachedScalar a t)
  from CachedScalar.prems obtain c a' d where w: "scalar_walk step a = Inr (c, a')"
    and s': "step (CachedScalar a' t) = Inr (d, s')" by (auto simp: then_step_def)
  from CachedScalar.IH [OF _ _ w] CachedScalar.prems have a': "scalar_sound B \<Gamma> a a'" "P a'" by (auto simp: parts)
  from sound_cached [OF a'(1) CachedScalar.prems(1)]
  have snd: "scalar_sound B \<Gamma> (CachedScalar a t) (CachedScalar a' t)" .
  then have "scalar_wt \<Gamma> (CachedScalar a' t)" by (simp add: scalar_sound_def)
  moreover have "P (CachedScalar a' t)" using a'(2) by (simp add: parts)
  ultimately have "scalar_sound B \<Gamma> (CachedScalar a' t) s' \<and> P s'" by (rule step [OF _ _ s'])
  with snd show ?case by (blast intro: scalar_sound_trans)
qed


section \<open>Constant folding is sound\<close>

lemma const_of_Some: "const_of a = Some v \<longleftrightarrow> (\<exists>t. a = ValueScalar v t)"
  by (cases a) auto

lemma const_args:
  "list_all (\<lambda>a. const_of a \<noteq> None) as \<Longrightarrow> rmap (ir_eval_by B env) as = Inr (map (\<lambda>a. the (const_of a)) as)"
  by (induction as) (auto simp: const_of_Some)

lemma const_args_typed:
  "list_all (\<lambda>a. const_of a \<noteq> None) as \<Longrightarrow> \<forall>a \<in> set as. scalar_wt \<Gamma> a \<Longrightarrow>
   list_all2 has_type (map (\<lambda>a. the (const_of a)) as) (map value_type as)"
  by (induction as) (auto simp: const_of_Some)

lemma const_fold_step_sound:
  assumes rs: "restricts X B" and wt: "scalar_wt \<Gamma> s" and st: "const_fold_step X s = Inr (b, s')"
  shows "scalar_sound B \<Gamma> s s'"
proof (cases s)
  case (FnCallScalar f as t)
  show ?thesis
  proof (cases "isScalar f \<and> list_all (\<lambda>a. const_of a \<noteq> None) as")
    case False
    then have "s' = s" using st FnCallScalar by (auto split: if_splits)
    with wt show ?thesis by (simp add: scalar_sound_refl)
  next
    case True
    with st FnCallScalar obtain e v where e: "buildScalar X f = Inr e"
      "execute e (map (\<lambda>a. the (const_of a)) as) = Inr v" and s': "s' = ValueScalar v t"
      by auto
    have "list_all2 has_type (map (\<lambda>a. the (const_of a)) as) (map value_type as)"
      using True wt FnCallScalar by (intro const_args_typed) auto
    moreover have "fn_types f (map value_type as) t" using wt FnCallScalar by simp
    ultimately have "has_type v t" by (blast intro: fn_types_sound e)
    moreover have "w = v" if "ir_eval_by B env s = Inr w" for env w
      using eval_call [OF rs that [unfolded FnCallScalar]] True e by (auto simp: const_args)
    ultimately show ?thesis by (simp add: scalar_sound_def s' FnCallScalar)
  qed
qed (use wt st in \<open>auto simp: scalar_sound_refl\<close>)

lemma const_fold_sound:
  assumes "restricts X B" "scalar_wt \<Gamma> s" "constScalarFold_scalar X s = Inr (b, s')"
  shows "scalar_sound B \<Gamma> s s'"
proof -
  have "scalar_sound B \<Gamma> s s' \<and> True"
  proof (rule scalar_walk_sound [where P = "\<lambda>s. True" and Q = "\<lambda>f. True" and step = "const_fold_step X"])
    show "scalar_sound B \<Gamma> s s' \<and> True"
      if "scalar_wt \<Gamma> s" "True" "const_fold_step X s = Inr (b, s')" for s b s'
      using const_fold_step_sound [OF assms(1) that(1,3)] by simp
  qed (use assms in \<open>auto simp: constScalarFold_scalar_def\<close>)
  then show ?thesis by simp
qed

section \<open>Simplification is sound\<close>

lemma coalesce_res_append:
  "coalesce_res (ms @ ns) = rbind (coalesce_res ms) (\<lambda>v. if v = VNull then coalesce_res ns else Inr v)"
proof (induction ms)
  case (Cons m ms)
  then show ?case by (cases m) auto
qed simp

lemma coalesce_res_null: "coalesce_res ms = Inr VNull \<longleftrightarrow> (\<forall>m \<in> set ms. m = Inr VNull)"
  by (induction ms) (auto split: if_splits)

lemma coalesce_args_sound:
  assumes "coalesce_res (map (ir_eval_by B env) (kept @ as)) = Inr v" "\<forall>a \<in> set (kept @ as). scalar_canon a"
  shows "case coalesce_args kept as of Inl c \<Rightarrow> v = c | Inr ks \<Rightarrow> coalesce_res (map (ir_eval_by B env) ks) = Inr v"
  using assms
proof (induction kept as rule: coalesce_args.induct)
  case (2 kept a as)
  show ?case
  proof (cases "const_of a")
    case (Some c)
    then obtain t where a: "a = ValueScalar c t" by (auto simp: const_of_Some)
    show ?thesis
    proof (cases "c = VNull")
      case True
      with "2.IH" "2.prems" Some a show ?thesis by (simp add: coalesce_res_append cong: if_cong)
    next
      case False
      with "2.IH" "2.prems" Some a show ?thesis by (auto simp: coalesce_res_append split: if_splits)
    qed
  next
    case None
    show ?thesis
    proof (cases "list_ex (\<lambda>p. scalar_eq p a) kept")
      case True
      then obtain p where "p \<in> set kept" "scalar_eq p a" by (auto simp: list_ex_iff)
      with "2.prems"(2) have ak: "a \<in> set kept" using scalar_eq_canon(1) [of p a] by auto
      have "coalesce_res (map (ir_eval_by B env) (kept @ as)) = Inr v"
        using "2.prems"(1) ak by (auto simp: coalesce_res_append coalesce_res_null split: if_splits)
      with "2.IH" "2.prems"(2) None True show ?thesis by simp
    next
      case False
      with "2.IH" "2.prems" None False show ?thesis by simp
    qed
  qed
qed simp

lemma coalesce_args_Inl: "coalesce_args kept as = Inl c \<Longrightarrow> \<exists>t. ValueScalar c t \<in> set as"
proof (induction kept as rule: coalesce_args.induct)
  case (2 kept a as)
  then show ?case by (auto simp: const_of_Some split: option.splits if_splits)
qed simp

lemma coalesce_args_Inr: "coalesce_args kept as = Inr ks \<Longrightarrow> set ks \<subseteq> set kept \<union> set as"
proof (induction kept as rule: coalesce_args.induct)
  case (2 kept a as)
  then show ?case by (auto split: option.splits if_splits)
qed simp

lemma simplify_coalesce_sound:
  assumes wt: "scalar_wt \<Gamma> (CoalesceScalar as t)" and canon: "\<forall>a \<in> set as. scalar_canon a"
    and s': "simplify_coalesce as t = (b, s')"
  shows "scalar_sound B \<Gamma> (CoalesceScalar as t) s' \<and> scalar_canon s'"
proof (cases "coalesce_args [] as")
  case (Inl c)
  from coalesce_args_Inl [OF Inl] obtain u where u: "ValueScalar c u \<in> set as" by blast
  have "has_type c t" using wt u by (fastforce intro: has_type_fits)
  moreover have "scalar_canon (ValueScalar c u)" using canon u by blast
  moreover have "v = c" if "coalesce_res (map (ir_eval_by B env) as) = Inr v" for env v
    using coalesce_args_sound [of B env "[]" as v] that canon Inl by simp
  ultimately show ?thesis using s' Inl by (auto simp: simplify_coalesce_def scalar_sound_def)
next
  case (Inr ks)
  from coalesce_args_Inr [OF Inr] have sub: "set ks \<subseteq> set as" by simp
  have ev: "coalesce_res (map (ir_eval_by B env) ks) = Inr v" if "coalesce_res (map (ir_eval_by B env) as) = Inr v" for env v
    using coalesce_args_sound [of B env "[]" as v] that canon Inr by simp
  consider "ks = []" | k where "ks = [k]" | "ks \<noteq> []" "length ks \<noteq> 1"
    by (cases ks rule: remdups_adj.cases) auto
  then show ?thesis
  proof cases
    case 1
    then show ?thesis using s' Inr ev by (auto simp: simplify_coalesce_def scalar_sound_def)
  next
    case 2
    then have "s' = k" using s' Inr by (simp add: simplify_coalesce_def)
    moreover have "ir_eval_by B env k = Inr v" if "coalesce_res (map (ir_eval_by B env) as) = Inr v" for env v
      using ev [OF that] 2 by (auto split: if_splits)
    ultimately show ?thesis using 2 sub wt canon by (auto simp: scalar_sound_def)
  next
    case 3
    then have "s' = CoalesceScalar ks t" using s' Inr by (simp add: simplify_coalesce_def)
    then show ?thesis using sub wt canon ev by (auto simp: scalar_sound_def list_all_iff)
  qed
qed


lemma get_bool_Inr: "get_bool v = Inr b \<longleftrightarrow> v = VBool b"
  by (cases v) auto

lemma fn_types_simps [simp]:
  "fn_types (Cast_fn c) us t \<longleftrightarrow> length us = 1 \<and> t = c"
  "fn_types And_fn us t \<longleftrightarrow> list_all2 fits us [Boolean, Boolean] \<and> t = Boolean"
  "fn_types Or_fn us t \<longleftrightarrow> list_all2 fits us [Boolean, Boolean] \<and> t = Boolean"
  "fn_types BooleanNegate_fn us t \<longleftrightarrow> list_all2 fits us [Boolean] \<and> t = Boolean"
  "fn_types Coalesce_fn us t \<longleftrightarrow> (\<forall>u \<in> set us. fits u t)"
proof -
  have "\<exists>ts. length ts = 1 \<and> list_all2 fits us ts" if "length us = 1"
    using that by (intro exI [of _ us]) (simp add: list.rel_refl)
  then show "fn_types (Cast_fn c) us t \<longleftrightarrow> length us = 1 \<and> t = c"
    by (auto simp: fn_types_def dest: list_all2_lengthD)
next
  show "fn_types Coalesce_fn us t \<longleftrightarrow> (\<forall>u \<in> set us. fits u t)"
  proof
    assume "fn_types Coalesce_fn us t"
    then obtain ts where ts: "\<forall>a \<in> set ts. fits a t" "list_all2 fits us ts"
      by (auto simp: fn_types_def fits_def)
    from ts(2,1) show "\<forall>u \<in> set us. fits u t"
      by (induction rule: list_all2_induct) (auto intro: fits_trans)
  next
    assume "\<forall>u \<in> set us. fits u t"
    then have "fn_wt Coalesce_fn us t" "list_all2 fits us us" by (auto simp: fits_def list.rel_refl)
    then show "fn_types Coalesce_fn us t" unfolding fn_types_def by blast
  qed
qed (auto simp: fn_types_def)

lemma boolean_binary_sound:
  assumes rs: "restricts X B" and wt: "scalar_wt \<Gamma> (FnCallScalar f as t)" and f: "f = And_fn \<and> cj \<or> f = Or_fn \<and> \<not> cj"
    and canon: "\<forall>a \<in> set as. scalar_canon a"
    and s': "simplifyBooleanBinary (FnCallScalar f as t) as cj = (b, s')"
  shows "scalar_sound B \<Gamma> (FnCallScalar f as t) s' \<and> scalar_canon s'"
proof -
  have "list_all2 fits (map value_type as) [Boolean, Boolean]" and t: "t = Boolean" using wt f by auto
  then obtain l r where as: "as = [l, r]" and lr: "fits (value_type l) Boolean" "fits (value_type r) Boolean"
    by (auto simp: list_all2_Cons2)
  have v: "\<exists>x. ir_eval_by B env l = Inr (VBool x) \<and> (x \<noteq> cj \<longrightarrow> v = VBool x) \<and>
      (x = cj \<longrightarrow> ir_eval_by B env r = Inr v \<and> (\<exists>y. v = VBool y))"
    if "ir_eval_by B env (FnCallScalar f as t) = Inr v" for env v
  proof -
    from eval_call [OF rs that] obtain e vs
      where "rmap (ir_eval_by B env) as = Inr vs" "buildScalar X f = Inr e" "execute e vs = Inr v" by blast
    with f show ?thesis by (auto simp: as AndExecutor_def OrExecutor_def get_bool_Inr split: if_splits)
  qed
  have w: "scalar_wt \<Gamma> l" "scalar_wt \<Gamma> r" "scalar_canon l" "scalar_canon r" and c: "fn_canon f" using wt canon f by (auto simp: as)
  consider x u where "l = ValueScalar (VBool x) u" | y u where "r = ValueScalar (VBool y) u" "\<nexists>x u. l = ValueScalar (VBool x) u"
    | "s' = FnCallScalar f as t"
    using s' by (auto simp: simplifyBooleanBinary_def as const_of_Some split: option.splits Value.splits)
  then show ?thesis
  proof cases
    case (1 x u)
    then have s1: "s' = (if x = cj then r else l)" using s' by (auto simp: simplifyBooleanBinary_def as)
    have "ir_eval_by B env s' = Inr v" if "ir_eval_by B env (FnCallScalar f as t) = Inr v" for env v
      using v [OF that] 1 s1 f by (cases cj) auto
    then show ?thesis using w lr t s1 unfolding scalar_sound_def by (auto simp: as)
  next
    case (2 y u)
    then have s1: "s' = (if y = cj then l else r)" using s'
      by (auto simp: simplifyBooleanBinary_def as const_of_Some split: option.splits Value.splits)
    have "ir_eval_by B env s' = Inr v" if "ir_eval_by B env (FnCallScalar f as t) = Inr v" for env v
      using v [OF that] 2 s1 f by (cases cj) auto
    then show ?thesis using w lr t s1 unfolding scalar_sound_def by (auto simp: as)
  next
    case 3
    then show ?thesis using wt w c by (auto simp: scalar_sound_refl as)
  qed
qed

lemma double_negation_sound:
  assumes rs: "restricts X B" and wt: "scalar_wt \<Gamma> (FnCallScalar BooleanNegate_fn as t)" and canon: "\<forall>a \<in> set as. scalar_canon a"
    and s': "simplifyDoubleNegation (FnCallScalar BooleanNegate_fn as t) as = (b, s')"
  shows "scalar_sound B \<Gamma> (FnCallScalar BooleanNegate_fn as t) s' \<and> scalar_canon s'"
proof -
  consider a bs u cs where "as = FnCallScalar BooleanNegate_fn (a # bs) u # cs" "s' = a"
    | "s' = FnCallScalar BooleanNegate_fn as t"
    using s' by (cases "(FnCallScalar BooleanNegate_fn as t, as)" rule: simplifyDoubleNegation.cases) auto
  then show ?thesis
  proof cases
    case (1 a bs u cs)
    then have e: "as = [FnCallScalar BooleanNegate_fn [a] u]" "fits (value_type a) Boolean" "t = Boolean"
      using wt by (auto simp: list_all2_Cons2)
    have "ir_eval_by B env a = Inr v" if "ir_eval_by B env (FnCallScalar BooleanNegate_fn as t) = Inr v" for env v
    proof -
      from eval_call [OF rs that] obtain w where w: "ir_eval_by B env (FnCallScalar BooleanNegate_fn [a] u) = Inr w"
        "BooleanNegateExecutor w = Inr v" by (auto simp: e)
      from eval_call [OF rs w(1)] obtain x where "ir_eval_by B env a = Inr x" "BooleanNegateExecutor x = Inr w" by auto
      with w(2) show ?thesis by (auto simp: BooleanNegateExecutor_def get_bool_Inr)
    qed
    then show ?thesis using wt canon 1 e unfolding scalar_sound_def by auto
  next
    case 2
    then show ?thesis using wt canon by (auto simp: scalar_sound_refl list_all_iff)
  qed
qed

lemma cast_identity_sound:
  assumes rs: "restricts X B" and wt: "scalar_wt \<Gamma> (FnCallScalar (Cast_fn c) as t)" and "value_type (as ! 0) = c"
  shows "scalar_sound B \<Gamma> (FnCallScalar (Cast_fn c) as t) (as ! 0)"
proof -
  from wt obtain a where as: "as = [a]" by (auto simp: length_Suc_conv)
  with assms have a: "scalar_wt \<Gamma> a" "value_type a = c" "t = c" by auto
  have "ir_eval_by B env a = Inr v"
    if env: "env_typed \<Gamma> env" and "ir_eval_by B env (FnCallScalar (Cast_fn c) as t) = Inr v" for env v
  proof -
    from eval_call [OF rs that(2)] obtain e vs where e: "rmap (ir_eval_by B env) as = Inr vs"
      "buildScalar X (Cast_fn c) = Inr e" "execute e vs = Inr v" by blast
    from e(1) obtain w where "ir_eval_by B env a = Inr w" "vs = [w]" by (auto simp: as)
    moreover from e(2,3) this(2) have "CastExecutor c w = Inr v" by auto
    ultimately have w: "ir_eval_by B env a = Inr w" "CastExecutor c w = Inr v" by blast+
    from scalar_wt_sound [OF rs a(1) env w(1)] a(2) have "w = VNull \<or> type w = c" by (simp add: has_type_def)
    with w(2) have "v = w" by (auto simp: CastExecutor_def cast_same_type)
    with w(1) show ?thesis by simp
  qed
  with a show ?thesis by (auto simp: scalar_sound_def as)
qed

lemma coalesce_res_executor: "rmap f as = Inr vs \<Longrightarrow> coalesce_res (map f as) = CoalesceExecutor vs"
  by (induction as arbitrary: vs) auto

lemma coalesce_node_sound:
  assumes rs: "restricts X B" and wt: "scalar_wt \<Gamma> (FnCallScalar Coalesce_fn as t)"
  shows "scalar_sound B \<Gamma> (FnCallScalar Coalesce_fn as t) (CoalesceScalar as t)"
proof -
  have "coalesce_res (map (ir_eval_by B env) as) = Inr v"
    if "ir_eval_by B env (FnCallScalar Coalesce_fn as t) = Inr v" for env v
    using eval_call [OF rs that] by (auto simp: coalesce_res_executor)
  then show ?thesis using wt by (simp add: scalar_sound_def)
qed

lemma simplify_step_sound:
  assumes rs: "restricts X B" and wt: "scalar_wt \<Gamma> s" and canon: "scalar_canon s" and st: "simplify_step s = Inr (b, s')"
  shows "scalar_sound B \<Gamma> s s' \<and> scalar_canon s'"
proof (cases s rule: simplify_step.cases)
  case (1 c as t)
  with wt obtain a where "as = [a]" by (auto simp: length_Suc_conv)
  with 1 show ?thesis using wt canon st cast_identity_sound [OF rs, of \<Gamma> c as t]
    by (auto simp: scalar_sound_refl split: if_splits)
next
  case (2 as t)
  then show ?thesis using wt canon st boolean_binary_sound [OF rs, of \<Gamma> And_fn as t True b s'] by (simp add: list_all_iff)
next
  case (3 as t)
  then show ?thesis using wt canon st boolean_binary_sound [OF rs, of \<Gamma> Or_fn as t False b s'] by (simp add: list_all_iff)
next
  case (4 as t)
  then show ?thesis using wt canon st double_negation_sound [OF rs, of \<Gamma> as t b s'] by (simp add: list_all_iff)
next
  case (5 as t)
  then show ?thesis using wt canon st coalesce_node_sound [OF rs, of \<Gamma> as t] by (auto simp: list_all_iff)
next
  case (6 as t)
  then show ?thesis using wt canon st simplify_coalesce_sound [of \<Gamma> as t b s' B] by (simp add: list_all_iff)
qed (use wt canon st in \<open>auto simp: scalar_sound_refl\<close>)

lemma simplify_sound:
  assumes "restricts X B" "scalar_wt \<Gamma> s" "scalar_canon s" "scalarSimplify_scalar s = Inr (b, s')"
  shows "scalar_sound B \<Gamma> s s' \<and> scalar_canon s'"
proof (rule scalar_walk_sound [where P = scalar_canon and Q = fn_canon and step = simplify_step])
  show "scalar_sound B \<Gamma> s s' \<and> scalar_canon s'"
    if "scalar_wt \<Gamma> s" "scalar_canon s" "simplify_step s = Inr (b, s')" for s b s'
    by (rule simplify_step_sound [OF assms(1) that])
qed (use assms in \<open>auto simp: scalarSimplify_scalar_def list_all_iff\<close>)


section \<open>ScalarCostEstimator.h\<close>

fun fn_overhead :: "settings \<Rightarrow> Function \<Rightarrow> Scalar list \<Rightarrow> int" where
  "fn_overhead C Lower_fn as = C LowerCostOverhead"
| "fn_overhead C (SplitPart_fn _ _) as = C SplitPartCostOverhead"
| "fn_overhead C (Substr_fn _ _) as = C SubstrCostOverhead"
| "fn_overhead C (ParseTimestamp_fn _) as = C ParseTimestampCostOverhead"
| "fn_overhead C (JSONValue_fn _) as = C JSONValueCostOverhead"
| "fn_overhead C Coalesce_fn as = C CoalesceCostOverhead"
| "fn_overhead C (Cast_fn t) as =
     (if t = String then C CastToStringCostOverhead else 0) +
     (if value_type (as ! 0) = String then C ParseStringCostOverhead else 0)"
| "fn_overhead C (Like_fn _) as = C RegexCostOverhead"
| "fn_overhead C (RSubstr_fn _) as = C RegexCostOverhead"
| "fn_overhead C BooleanNegate_fn as = C UnaryOpCostOverhead"
| "fn_overhead C CountNonNull_fn as = 0"
| "fn_overhead C CountAll_fn as = 0"
| "fn_overhead C (Min_fn _) as = 0"
| "fn_overhead C (Max_fn _) as = 0"
| "fn_overhead C (Sum_fn _) as = 0"
| "fn_overhead C _ as = C BinaryOpCostOverhead"

text \<open>
  \<open>visit\<close> with \<open>cached_\<close> as its state: a cached expression costs its source only where it first
  occurs. The map of costs is keyed by node addresses, so a node's cost is what its visit returns.
\<close>

definition cached_contains :: "Scalar list \<Rightarrow> Scalar \<Rightarrow> bool" where
  "cached_contains K s = list_ex (\<lambda>k. scalar_eq k s) K"

fun scalar_cost :: "settings \<Rightarrow> Scalar list \<Rightarrow> Scalar \<Rightarrow> int \<times> Scalar list"
  and scalars_cost :: "settings \<Rightarrow> Scalar list \<Rightarrow> Scalar list \<Rightarrow> int \<times> Scalar list" where
  "scalar_cost C K (FieldScalar i t) = (0, K)"
| "scalar_cost C K (ValueScalar v t) = (0, K)"
| "scalar_cost C K (CoalesceScalar as t) =
     (let (c, K1) = scalars_cost C K as in (C CoalesceCostOverhead + c, K1))"
| "scalar_cost C K (FnCallScalar f as t) =
     (let (c, K1) = scalars_cost C K as in (c + fn_overhead C f as, K1))"
| "scalar_cost C K (CachedScalar a t) =
     (if cached_contains K a then (C CachedScalarCostOverhead, K)
      else let (c, K1) = scalar_cost C (K @ [a]) a in (c + C CachedScalarCostOverhead, K1))"
| "scalars_cost C K [] = (0, K)"
| "scalars_cost C K (a # as) =
     (let (c, K1) = scalar_cost C K a; (d, K2) = scalars_cost C K1 as in (c + d, K2))"

section \<open>scalar\_cache.cpp\<close>

text \<open>
  A scope is the list of the expressions it holds, in the order of the walk: the expressions of the
  projectors, the arguments of the aggregates, or the one condition of a filter.
\<close>

type_synonym scope = "Scalar list"

definition scopeCost :: "settings \<Rightarrow> scope \<Rightarrow> int" where
  "scopeCost C sc = fst (scalars_cost C [] sc)"

fun strip_cached :: "Scalar \<Rightarrow> Scalar" where
  "strip_cached (CachedScalar a t) = strip_cached a"
| "strip_cached (FieldScalar i t) = FieldScalar i t"
| "strip_cached (ValueScalar v t) = ValueScalar v t"
| "strip_cached (CoalesceScalar as t) = CoalesceScalar (map strip_cached as) t"
| "strip_cached (FnCallScalar f as t) = FnCallScalar f (map strip_cached as) t"

definition stripCache :: "scope \<Rightarrow> scope" where
  "stripCache sc = map strip_cached sc"

record RepeatedExpression =
  re_scalar :: Scalar
  re_count :: nat
  re_cost :: int

fun collect_note :: "settings \<Rightarrow> RepeatedExpression list \<Rightarrow> Scalar \<Rightarrow> RepeatedExpression list" where
  "collect_note C [] s = [\<lparr>re_scalar = s, re_count = 1, re_cost = fst (scalar_cost C [] s)\<rparr>]"
| "collect_note C (e # es) s =
     (if scalar_eq (re_scalar e) s then e\<lparr>re_count := re_count e + 1\<rparr> # es else e # collect_note C es s)"

fun collect :: "settings \<Rightarrow> RepeatedExpression list \<Rightarrow> Scalar \<Rightarrow> RepeatedExpression list"
  and collect_list :: "settings \<Rightarrow> RepeatedExpression list \<Rightarrow> Scalar list \<Rightarrow> RepeatedExpression list" where
  "collect C es (FieldScalar i t) = es"
| "collect C es (ValueScalar v t) = es"
| "collect C es (CoalesceScalar as t) = collect_list C (collect_note C es (CoalesceScalar as t)) as"
| "collect C es (FnCallScalar f as t) = collect_list C (collect_note C es (FnCallScalar f as t)) as"
| "collect C es (CachedScalar a t) = collect C (collect_note C es (CachedScalar a t)) a"
| "collect_list C es [] = es"
| "collect_list C es (a # as) = collect_list C (collect C es a) as"

definition stripped_eq :: "Scalar \<Rightarrow> Scalar \<Rightarrow> bool" where
  "stripped_eq x s = scalar_eq (strip_cached s) x"

fun cache_expression :: "Scalar \<Rightarrow> Scalar \<Rightarrow> Scalar" where
  "cache_expression x (FieldScalar i t) = FieldScalar i t"
| "cache_expression x (ValueScalar v t) = ValueScalar v t"
| "cache_expression x (CoalesceScalar as t) =
     (if stripped_eq x (CoalesceScalar as t) then CachedScalar (CoalesceScalar as t) t
      else CoalesceScalar (map (cache_expression x) as) t)"
| "cache_expression x (FnCallScalar f as t) =
     (if stripped_eq x (FnCallScalar f as t) then CachedScalar (FnCallScalar f as t) t
      else FnCallScalar f (map (cache_expression x) as) t)"
| "cache_expression x (CachedScalar a t) =
     (if stripped_eq x (CachedScalar a t) then CachedScalar (CachedScalar a t) t
      else CachedScalar (cache_expression x a) t)"

definition worth_caching :: "settings \<Rightarrow> RepeatedExpression \<Rightarrow> bool" where
  "worth_caching C e \<longleftrightarrow>
     (let n = int (re_count e) in \<not> (n < 2 \<or> re_cost e * (n - 1) \<le> C CachedScalarCostOverhead * n))"

fun try_cache :: "settings \<Rightarrow> RepeatedExpression list \<Rightarrow> scope \<Rightarrow> int \<Rightarrow> scope" where
  "try_cache C [] sc cost = sc"
| "try_cache C (e # es) sc cost =
     (if \<not> worth_caching C e then try_cache C es sc cost
      else let candidate = map (cache_expression (re_scalar e)) sc;
               c = scopeCost C candidate
        in if c < cost then try_cache C es candidate c else try_cache C es sc cost)"

text \<open>\<open>sort_key\<close> is stable, as \<open>std::stable_sort\<close> is.\<close>

definition buildCache :: "settings \<Rightarrow> scope \<Rightarrow> scope" where
  "buildCache C sc =
     try_cache C (sort_key (\<lambda>e. - re_cost e) (collect_list C [] sc)) sc (scopeCost C sc)"

definition updateCache :: "settings \<Rightarrow> scope \<Rightarrow> bool \<times> scope" where
  "updateCache C sc =
     (let candidate = buildCache C (stripCache sc)
      in if scopeCost C candidate < scopeCost C sc then (True, candidate) else (False, sc))"

section \<open>Caching changes no value\<close>

lemma strip_cached_eval [simp]: "ir_eval_by B env (strip_cached s) = ir_eval_by B env s"
proof (induction s)
  case (FnCallScalar f as t)
  then have "rmap (ir_eval_by B env) (map strip_cached as) = rmap (ir_eval_by B env) as"
    by (simp add: rmap_map cong: rmap_cong)
  then show ?case by simp
next
  case (CoalesceScalar as t)
  then have "map (ir_eval_by B env) (map strip_cached as) = map (ir_eval_by B env) as" by simp
  then show ?case by (metis ir_eval_by.simps(3) strip_cached.simps(4))
qed simp_all

lemma cache_expression_eval [simp]: "ir_eval_by B env (cache_expression x s) = ir_eval_by B env s"
proof (induction s)
  case (FnCallScalar f as t)
  then have "rmap (ir_eval_by B env) (map (cache_expression x) as) = rmap (ir_eval_by B env) as"
    by (simp add: rmap_map cong: rmap_cong)
  then show ?case by simp
next
  case (CoalesceScalar as t)
  then have "map (ir_eval_by B env) (map (cache_expression x) as) = map (ir_eval_by B env) as" by simp
  then show ?case by (metis cache_expression.simps(3) ir_eval_by.simps(3,5))
qed simp_all

lemma try_cache_eval: "map (ir_eval_by B env) (try_cache C es sc cost) = map (ir_eval_by B env) sc"
  by (induction es arbitrary: sc cost) (simp_all add: Let_def o_def)

lemma updateCache_eval:
  "updateCache C sc = (b, sc') \<Longrightarrow> map (ir_eval_by B env) sc' = map (ir_eval_by B env) sc"
  by (auto simp: updateCache_def buildCache_def stripCache_def try_cache_eval o_def Let_def split: if_splits)

lemma updateCache_cost: "updateCache C sc = (b, sc') \<Longrightarrow> scopeCost C sc' \<le> scopeCost C sc"
  by (auto simp: updateCache_def Let_def split: if_splits)

text \<open>Both also keep the type and the fields.\<close>

lemma sound_map:
  "(\<And>a. a \<in> set as \<Longrightarrow> scalar_sound B \<Gamma> a (f a)) \<Longrightarrow> list_all2 (scalar_sound B \<Gamma>) as (map f as)"
  by (simp add: list_all2_map2 list.rel_refl_strong)

lemma sound_wrap:
  "scalar_wt \<Gamma> s \<Longrightarrow> scalar_sound B \<Gamma> s (CachedScalar s (value_type s))"
  by (simp add: scalar_sound_def)

lemma strip_cached_sound: "scalar_wt \<Gamma> s \<Longrightarrow> scalar_sound B \<Gamma> s (strip_cached s)"
proof (induction s)
  case (CoalesceScalar as t)
  then show ?case using sound_coalesce [OF sound_map [of as B \<Gamma> strip_cached] CoalesceScalar.prems] by simp
next
  case (FnCallScalar f as t)
  then show ?case using sound_call [OF sound_map [of as B \<Gamma> strip_cached] FnCallScalar.prems] by simp
next
  case (CachedScalar a t)
  then show ?case by (auto simp: scalar_sound_def intro: fits_trans)
qed (simp_all add: scalar_sound_refl)

lemma cache_expression_sound: "scalar_wt \<Gamma> s \<Longrightarrow> scalar_sound B \<Gamma> s (cache_expression x s)"
proof (induction s)
  case (CoalesceScalar as t)
  then show ?case using sound_coalesce [OF sound_map [of as B \<Gamma> "cache_expression x"] CoalesceScalar.prems]
    sound_wrap [OF CoalesceScalar.prems, of B] by simp
next
  case (FnCallScalar f as t)
  then show ?case using sound_call [OF sound_map [of as B \<Gamma> "cache_expression x"] FnCallScalar.prems]
    sound_wrap [OF FnCallScalar.prems, of B] by simp
next
  case (CachedScalar a t)
  then show ?case using sound_cached [of B \<Gamma> a "cache_expression x a" t] sound_wrap [OF CachedScalar.prems, of B] by simp
qed (simp_all add: scalar_sound_refl)

definition scope_sound :: "(Function \<Rightarrow> executor res) \<Rightarrow> (FieldId \<rightharpoonup> ValueType) \<Rightarrow> scope \<Rightarrow> scope \<Rightarrow> bool" where
  "scope_sound B \<Gamma> = list_all2 (scalar_sound B \<Gamma>)"

lemma scope_sound_refl: "\<forall>s \<in> set sc. scalar_wt \<Gamma> s \<Longrightarrow> scope_sound B \<Gamma> sc sc"
  by (simp add: scope_sound_def list.rel_refl_strong scalar_sound_refl)

lemma scope_sound_trans: "scope_sound B \<Gamma> a b \<Longrightarrow> scope_sound B \<Gamma> b c \<Longrightarrow> scope_sound B \<Gamma> a c"
  unfolding scope_sound_def by (rule list_all2_trans [OF scalar_sound_trans])

lemma scope_sound_wt: "scope_sound B \<Gamma> a b \<Longrightarrow> \<forall>s \<in> set b. scalar_wt \<Gamma> s"
  by (auto simp: scope_sound_def list_all2_conv_all_nth in_set_conv_nth scalar_sound_def)

lemma try_cache_sound:
  "\<forall>s \<in> set sc. scalar_wt \<Gamma> s \<Longrightarrow> scope_sound B \<Gamma> sc (try_cache C es sc cost)"
proof (induction es arbitrary: sc cost)
  case (Cons e es)
  let ?c = "map (cache_expression (re_scalar e)) sc"
  have c: "scope_sound B \<Gamma> sc ?c"
    unfolding scope_sound_def by (rule sound_map) (use Cons.prems cache_expression_sound in blast)
  from Cons.IH [OF scope_sound_wt [OF c], of "scopeCost C ?c"] c
  have "scope_sound B \<Gamma> sc (try_cache C es ?c (scopeCost C ?c))" by (blast intro: scope_sound_trans)
  with Cons.IH [OF Cons.prems, of cost] show ?case by (simp add: Let_def)
qed (simp add: scope_sound_refl)

lemma updateCache_sound:
  assumes "\<forall>s \<in> set sc. scalar_wt \<Gamma> s"
  shows "scope_sound B \<Gamma> sc (snd (updateCache C sc))"
proof -
  have s: "scope_sound B \<Gamma> sc (stripCache sc)"
    unfolding scope_sound_def stripCache_def by (rule sound_map) (use assms strip_cached_sound in blast)
  have "scope_sound B \<Gamma> sc (buildCache C (stripCache sc))"
    unfolding buildCache_def by (rule scope_sound_trans [OF s try_cache_sound [OF scope_sound_wt [OF s]]])
  then show ?thesis using scope_sound_refl [OF assms] by (simp add: updateCache_def Let_def)
qed

section \<open>What the passes leave behind\<close>

fun const_folded :: "Scalar \<Rightarrow> bool" where
  "const_folded (CoalesceScalar as t) = list_all const_folded as"
| "const_folded (FnCallScalar f as t) =
     (\<not> (isScalar f \<and> list_all (\<lambda>a. const_of a \<noteq> None) as) \<and> list_all const_folded as)"
| "const_folded (CachedScalar a t) = const_folded a"
| "const_folded s = True"

lemma walk_list_all:
  assumes "walk_list g as = Inr (c, bs)" "\<And>a b a'. a \<in> set as \<Longrightarrow> g a = Inr (b, a') \<Longrightarrow> P a'"
  shows "list_all P bs"
proof -
  have "list_all2 (\<lambda>a b. P b) as bs"
    by (rule list.rel_mono_strong [OF walk_list_all2 [OF assms(1)]]) (use assms(2) in blast)
  then show ?thesis by (auto simp: list_all2_conv_all_nth list_all_length)
qed

lemma const_folded_fold: "constScalarFold_scalar X s = Inr (b, s') \<Longrightarrow> const_folded s'"
proof (induction s arbitrary: b s')
  case (CoalesceScalar as t)
  then obtain c bs where "walk_list (constScalarFold_scalar X) as = Inr (c, bs)" "s' = CoalesceScalar bs t"
    by (auto simp: constScalarFold_scalar_def then_step_def)
  with walk_list_all [OF this(1), of const_folded] CoalesceScalar.IH show ?case by auto
next
  case (FnCallScalar f as t)
  from FnCallScalar.prems obtain c d bs where w: "walk_list (constScalarFold_scalar X) as = Inr (c, bs)"
    and s': "const_fold_step X (FnCallScalar f bs t) = Inr (d, s')"
    unfolding constScalarFold_scalar_def scalar_walk.simps then_step_def
    by (auto simp del: const_fold_step.simps)
  from walk_list_all [OF w, of const_folded] FnCallScalar.IH have "list_all const_folded bs" by blast
  with s' show ?case by (auto split: if_splits)
qed (auto simp: constScalarFold_scalar_def then_step_def)

lemma simplify_step_total: "\<exists>b s'. simplify_step s = Inr (b, s')"
  by (cases s rule: simplify_step.cases) (auto intro: prod.exhaust)

lemma walk_list_total: "(\<And>a. a \<in> set as \<Longrightarrow> \<exists>b a'. g a = Inr (b, a')) \<Longrightarrow> \<exists>b as'. walk_list g as = Inr (b, as')"
  by (induction as) fastforce+

lemma scalar_walk_total:
  assumes "\<And>s. \<exists>b s'. step s = Inr (b, s')"
  shows "\<exists>b s'. scalar_walk step s = Inr (b, s')"
proof -
  have t: "\<exists>c s'. then_step step (Inr (b, s)) = Inr (c, s')" for b s
    using assms [of s] by (auto simp: then_step_def)
  show ?thesis
  proof (induction s)
    case (CoalesceScalar as t)
    from walk_list_total [of as "scalar_walk step", OF this] obtain b bs where "walk_list (scalar_walk step) as = Inr (b, bs)" by blast
    with t show ?case by simp
  next
    case (FnCallScalar f as u)
    from walk_list_total [of as "scalar_walk step", OF this] obtain b bs where "walk_list (scalar_walk step) as = Inr (b, bs)" by blast
    with t show ?case by simp
  next
    case (CachedScalar a u)
    then obtain b a' where "scalar_walk step a = Inr (b, a')" by blast
    with t show ?case by simp
  qed (simp_all add: t)
qed

section \<open>Properties\<close>

text \<open>C11: constant folding keeps the type of a well-typed expression and its value on every row on
  which it has one, and leaves no scalar call whose arguments are all constants.\<close>

theorem constant_folding_correct:
  assumes "scalar_wt \<Gamma> s" and "env_typed \<Gamma> env"
    and "constScalarFold_scalar X s = Inr (b, s')" and "ir_eval X env s = Inr v"
  shows "ir_eval X env s' = Inr v \<and> scalar_wt \<Gamma> s' \<and> fits (value_type s') (value_type s) \<and> const_folded s'"
  using const_fold_sound [OF restricts_refl assms(1,3)] assms(2,4) const_folded_fold [OF assms(3)]
  by (simp add: scalar_sound_def)

theorem constant_folding_correct_witness:
  "\<forall>X. ir_eval X (\<lambda>i. Inr (VBool True)) (FnCallScalar And_fn [FieldScalar 1 Boolean, ValueScalar (VBool False) Boolean] Boolean)
     = Inr (VBool False)"
proof -
  define a where "a = FieldScalar 1 Boolean"
  define n where "n = FnCallScalar BooleanNegate_fn [ValueScalar (VBool True) Boolean] Boolean"
  have wt: "scalar_wt [1 \<mapsto> Boolean] (FnCallScalar And_fn [a, n] Boolean)" by (simp add: a_def n_def)
  have env: "env_typed [1 \<mapsto> Boolean] (\<lambda>i. Inr (VBool True))" by (simp add: env_typed_def)
  have run: "constScalarFold_scalar X (FnCallScalar And_fn [a, n] Boolean) =
      Inr (True, FnCallScalar And_fn [FieldScalar 1 Boolean, ValueScalar (VBool False) Boolean] Boolean)" for X
    by (simp add: a_def n_def constScalarFold_scalar_def then_step_def BooleanNegateExecutor_def)
  have ev: "ir_eval X (\<lambda>i. Inr (VBool True)) (FnCallScalar And_fn [a, n] Boolean) = Inr (VBool False)" for X
    by (simp add: a_def n_def BooleanNegateExecutor_def AndExecutor_def)
  from constant_folding_correct [OF wt env run ev] show ?thesis by simp
qed

text \<open>C12: simplification always returns, keeps the type of a well-typed expression, and keeps its
  value on every row on which it has one, for expressions whose constants have one representation
  each (no NaN, no negative zero, no pinned string).\<close>

theorem scalar_simplify_correct:
  assumes "scalar_wt \<Gamma> s" and "scalar_canon s" and "env_typed \<Gamma> env" and "ir_eval X env s = Inr v"
  shows "\<exists>b s'. scalarSimplify_scalar s = Inr (b, s') \<and> ir_eval X env s' = Inr v \<and>
    scalar_wt \<Gamma> s' \<and> fits (value_type s') (value_type s) \<and> scalar_canon s'"
proof -
  obtain b s' where run: "scalarSimplify_scalar s = Inr (b, s')"
    using scalar_walk_total [of simplify_step, OF simplify_step_total] unfolding scalarSimplify_scalar_def by blast
  from simplify_sound [OF restricts_refl assms(1,2) run] assms(3,4) run show ?thesis
    by (auto simp: scalar_sound_def)
qed

theorem scalar_simplify_correct_witness:
  "\<forall>X. ir_eval X (\<lambda>i. Inr (VBool True)) (FieldScalar 1 Boolean) = Inr (VBool True)"
proof -
  define n where "n = FnCallScalar And_fn [ValueScalar (VBool True) Boolean,
     FnCallScalar Coalesce_fn [ValueScalar VNull Null, FieldScalar 1 Boolean] Boolean] Boolean"
  have wt: "scalar_wt [1 \<mapsto> Boolean] n" by (simp add: n_def fits_def)
  have canon: "scalar_canon n" by (simp add: n_def)
  have env: "env_typed [1 \<mapsto> Boolean] (\<lambda>i. Inr (VBool True))" by (simp add: env_typed_def)
  have ev: "ir_eval X (\<lambda>i. Inr (VBool True)) n = Inr (VBool True)" for X by (simp add: n_def AndExecutor_def)
  have run: "scalarSimplify_scalar n = Inr (True, FnCallScalar And_fn [FieldScalar 1 Boolean] Boolean)
     \<or> scalarSimplify_scalar n = Inr (True, CoalesceScalar [ValueScalar VNull Null, FieldScalar 1 Boolean] Boolean)"
    by (simp add: n_def scalarSimplify_scalar_def then_step_def simplifyBooleanBinary_def)
  from scalar_simplify_correct [OF wt canon env ev] run show ?thesis by auto
qed

text \<open>C13: the update of a scope's cached expressions changes the value of none of them on any row,
  and the estimated cost of the scope never grows.\<close>

theorem scalar_cache_correct:
  "map (ir_eval X env) (snd (updateCache C sc)) = map (ir_eval X env) sc \<and>
   scopeCost C (snd (updateCache C sc)) \<le> scopeCost C sc \<and>
   fst (updateCache C sc) = (scopeCost C (snd (updateCache C sc)) < scopeCost C sc)"
proof -
  obtain b sc' where u: "updateCache C sc = (b, sc')" by (cases "updateCache C sc")
  have "b = (scopeCost C sc' < scopeCost C sc)"
    using u by (auto simp: updateCache_def Let_def split: if_splits)
  then show ?thesis using updateCache_eval [OF u] updateCache_cost [OF u] by (simp add: u)
qed

end
