(* ===== verification/Rel_Semantics.thy ===== *)
theory Rel_Semantics
  imports Opt_Scalars Phys_Sort
begin

text \<open>
  What a relation of src/ir/Relations.h promises: the results its execution may give, as the
  reference the optimizer's passes are proved against. A row gives the values of the fields of the
  relation's schema. A relation has a set of outcomes, each a list of rows or a fault: a set,
  because the order of UNION ALL, of equal sort keys and of groups is left to the execution.
\<close>

section \<open>Outcomes\<close>

type_synonym row = "FieldId \<rightharpoonup> Value"

type_synonym outcomes = "row list res set"

definition bindo :: "outcomes \<Rightarrow> (row list \<Rightarrow> outcomes) \<Rightarrow> outcomes" where
  "bindo M f = (\<Union>m \<in> M. case m of Inl e \<Rightarrow> {Inl e} | Inr xs \<Rightarrow> f xs)"

fun bind_all :: "outcomes list \<Rightarrow> (row list list \<Rightarrow> outcomes) \<Rightarrow> outcomes" where
  "bind_all [] f = f []"
| "bind_all (M # Ms) f = bindo M (\<lambda>xs. bind_all Ms (\<lambda>xss. f (xs # xss)))"

text \<open>No execution faults; \<open>N\<close> may replace \<open>M\<close>: where \<open>M\<close> cannot fault, \<open>N\<close> gives no new result.\<close>

definition fault_free :: "outcomes \<Rightarrow> bool" where
  "fault_free M \<longleftrightarrow> (\<forall>e. Inl e \<notin> M)"

definition refines :: "outcomes \<Rightarrow> outcomes \<Rightarrow> bool" where
  "refines N M \<longleftrightarrow> fault_free M \<longrightarrow> N \<subseteq> M"

lemma refinesI: "(fault_free M \<Longrightarrow> N \<subseteq> M) \<Longrightarrow> refines N M"
  by (simp add: refines_def)

lemma refines_refl [simp]: "refines M M"
  by (simp add: refines_def)

lemma fault_free_subset: "fault_free M \<Longrightarrow> N \<subseteq> M \<Longrightarrow> fault_free N"
  by (auto simp: fault_free_def)

lemma refines_trans: "refines C B \<Longrightarrow> refines B A \<Longrightarrow> refines C A"
  by (auto simp: refines_def dest: fault_free_subset)

lemma Inr_bindo: "Inr ys \<in> bindo M f \<longleftrightarrow> (\<exists>xs. Inr xs \<in> M \<and> Inr ys \<in> f xs)"
proof -
  have "Inr ys \<in> (case m of Inl e \<Rightarrow> {Inl e} | Inr xs \<Rightarrow> f xs) \<longleftrightarrow> (\<exists>xs. m = Inr xs \<and> Inr ys \<in> f xs)" for m
    by (cases m) auto
  then show ?thesis by (auto simp: bindo_def)
qed

lemma Inl_bindo: "Inl e \<in> bindo M f \<longleftrightarrow> Inl e \<in> M \<or> (\<exists>xs. Inr xs \<in> M \<and> Inl e \<in> f xs)"
proof -
  have "Inl e \<in> (case m of Inl e \<Rightarrow> {Inl e} | Inr xs \<Rightarrow> f xs) \<longleftrightarrow> m = Inl e \<or> (\<exists>xs. m = Inr xs \<and> Inl e \<in> f xs)" for m
    by (cases m) auto
  then show ?thesis by (auto simp: bindo_def)
qed

lemma fault_free_bindo: "fault_free (bindo M f) \<longleftrightarrow> fault_free M \<and> (\<forall>xs. Inr xs \<in> M \<longrightarrow> fault_free (f xs))"
  by (auto simp: fault_free_def Inl_bindo)

lemma bindo_mono:
  assumes "refines N M" "\<And>xs. Inr xs \<in> M \<Longrightarrow> refines (g xs) (f xs)"
  shows "refines (bindo N g) (bindo M f)"
proof (rule refinesI)
  assume "fault_free (bindo M f)"
  then have M: "fault_free M" and f: "\<And>xs. Inr xs \<in> M \<Longrightarrow> fault_free (f xs)" by (auto simp: fault_free_bindo)
  from assms(1) M have NM: "N \<subseteq> M" by (simp add: refines_def)
  show "bindo N g \<subseteq> bindo M f"
  proof
    fix o' assume o': "o' \<in> bindo N g"
    show "o' \<in> bindo M f"
    proof (cases o')
      case (Inl e)
      with o' NM M obtain xs where "Inr xs \<in> M" "Inl e \<in> g xs" by (auto simp: Inl_bindo fault_free_def)
      with assms(2) [of xs] f [of xs] show ?thesis by (auto simp: Inl Inl_bindo refines_def)
    next
      case (Inr ys)
      with o' NM obtain xs where "Inr xs \<in> M" "Inr ys \<in> g xs" by (auto simp: Inr_bindo)
      with assms(2) [of xs] f [of xs] show ?thesis by (auto simp: Inr Inr_bindo refines_def)
    qed
  qed
qed

lemma bindo_single [simp]: "bindo {Inr xs} f = f xs" "bindo {Inl e} f = {Inl e}"
  by (auto simp: bindo_def)

definition ok_rows :: "(row \<Rightarrow> bool) \<Rightarrow> outcomes \<Rightarrow> bool" where
  "ok_rows P M \<longleftrightarrow> (\<forall>xs. Inr xs \<in> M \<longrightarrow> list_all P xs)"

text \<open>Row lists of the inputs that satisfy what the inputs guarantee.\<close>

lemma bind_all_mono:
  assumes "list_all2 refines Ns Ms" "list_all2 ok_rows Ps Ms"
    and "\<And>xss. list_all2 (\<lambda>P xs. list_all P xs) Ps xss \<Longrightarrow> refines (g xss) (f xss)"
  shows "refines (bind_all Ns g) (bind_all Ms f)"
  using assms
proof (induction arbitrary: Ps g f rule: list_all2_induct)
  case (Cons N Ns M Ms)
  then obtain P Qs where Ps: "Ps = P # Qs" "ok_rows P M" "list_all2 ok_rows Qs Ms" by (auto simp: list_all2_Cons2)
  show ?case unfolding bind_all.simps
  proof (rule bindo_mono [OF Cons.hyps(1)])
    fix xs assume "Inr xs \<in> M"
    with Ps(2) have P: "list_all P xs" by (simp add: ok_rows_def)
    show "refines (bind_all Ns (\<lambda>xss. g (xs # xss))) (bind_all Ms (\<lambda>xss. f (xs # xss)))"
      by (rule Cons.IH [OF Ps(3)]) (use Cons.prems(2) P Ps(1) in simp)
  qed
qed simp

lemma bind_all_ok:
  assumes "list_all2 ok_rows Ps Ms" "\<And>xss. list_all2 (\<lambda>P xs. list_all P xs) Ps xss \<Longrightarrow> ok_rows Q (f xss)"
  shows "ok_rows Q (bind_all Ms f)"
  using assms
proof (induction arbitrary: f rule: list_all2_induct)
  case (Cons P Ps M Ms)
  have "ok_rows Q (bind_all Ms (\<lambda>xss. f (xs # xss)))" if "Inr xs \<in> M" for xs
  proof (rule Cons.IH)
    fix xss assume "list_all2 (\<lambda>P xs. list_all P xs) Ps xss"
    moreover have "list_all P xs" using Cons.hyps(1) that by (simp add: ok_rows_def)
    ultimately show "ok_rows Q (f (xs # xss))" by (intro Cons.prems) simp
  qed
  then show ?case by (auto simp: ok_rows_def Inr_bindo)
qed simp


section \<open>Operations on rows\<close>

type_synonym build = "Function \<Rightarrow> executor res"

definition env_of :: "row \<Rightarrow> FieldId \<Rightarrow> Value res" where
  "env_of r i = (case r i of None \<Rightarrow> Inl Panic | Some v \<Rightarrow> Inr v)"

definition row_eval :: "build \<Rightarrow> Scalar \<Rightarrow> row \<Rightarrow> Value res" where
  "row_eval B e r = ir_eval_by B (env_of r) e"

definition row_key :: "build \<Rightarrow> Scalar list \<Rightarrow> row \<Rightarrow> Value list res" where
  "row_key B es r = rmap (\<lambda>e. row_eval B e r) es"

definition row_holds :: "build \<Rightarrow> Scalar \<Rightarrow> row \<Rightarrow> bool res" where
  "row_holds B c r = rbind (row_eval B c r) get_bool"

fun rfilter :: "('a \<Rightarrow> bool res) \<Rightarrow> 'a list \<Rightarrow> 'a list res" where
  "rfilter p [] = Inr []"
| "rfilter p (x # xs) = rbind (p x) (\<lambda>b. rbind (rfilter p xs) (\<lambda>ys. Inr (if b then x # ys else ys)))"

definition row_of :: "FieldId list \<Rightarrow> Value list \<Rightarrow> row" where
  "row_of is vs = map_of (zip is vs)"

definition project :: "build \<Rightarrow> Projector list \<Rightarrow> row \<Rightarrow> row res" where
  "project B ps r = rbind (row_key B (map expr ps) r) (\<lambda>vs. Inr (row_of (map alias_field_id ps) vs))"

subsection \<open>Aggregates\<close>

fun feed_times :: "nat \<Rightarrow> Aggregator \<Rightarrow> Aggregator res" where
  "feed_times 0 a = Inr a"
| "feed_times (Suc n) a = rbind (feed_nullary a) (feed_times n)"

fun agg_node_eval :: "build \<Rightarrow> AggregateNode \<Rightarrow> row list \<Rightarrow> Value res" where
  "agg_node_eval B (ConstAggregate v null_if_empty) rs = Inr (if null_if_empty \<and> rs = [] then vnull else v)"
| "agg_node_eval B (FnCallAggregate f as) rs = rbind (buildAggregate f) (\<lambda>g. case g of
     NullaryAggregate a \<Rightarrow> verify (as = []) (rbind (feed_times (length rs) a) get)
   | UnaryAggregate a \<Rightarrow> verify (length as = 1)
       (rbind (rmap (row_eval B (as ! 0)) rs) (\<lambda>vs. rbind (feed_all a vs) get)))"

definition agg_row :: "build \<Rightarrow> Aggregate list \<Rightarrow> row list \<Rightarrow> row res" where
  "agg_row B as rs = rbind (rmap (\<lambda>a. agg_node_eval B (agg_node a) rs) as)
     (\<lambda>vs. Inr (row_of (map output_field_id as) vs))"

text \<open>The rows of a group, under the first of its equal keys.\<close>

fun group_push :: "(Value list \<times> row list) list \<Rightarrow> Value list \<Rightarrow> row \<Rightarrow> (Value list \<times> row list) list" where
  "group_push [] k r = [(k, [r])]"
| "group_push ((j, rs) # gs) k r = (if key_eq j k then (j, rs @ [r]) # gs else (j, rs) # group_push gs k r)"

fun group_all :: "(Value list \<times> row list) list \<Rightarrow> (Value list \<times> row) list \<Rightarrow> (Value list \<times> row list) list" where
  "group_all gs [] = gs"
| "group_all gs ((k, r) # krs) = group_all (group_push gs k r) krs"

definition with_keys :: "build \<Rightarrow> Scalar list \<Rightarrow> row list \<Rightarrow> (Value list \<times> row) list res" where
  "with_keys B es rs = rmap (\<lambda>r. rbind (row_key B es r) (\<lambda>k. Inr (k, r))) rs"

definition group_row :: "build \<Rightarrow> Aggregate list \<Rightarrow> FieldId list \<Rightarrow> Value list \<times> row list \<Rightarrow> row res" where
  "group_row B as is g = rbind (agg_row B as (snd g)) (\<lambda>r. Inr (r ++ row_of is (fst g)))"

definition group_rows :: "build \<Rightarrow> Aggregate list \<Rightarrow> Projector list \<Rightarrow> row list \<Rightarrow> row list res" where
  "group_rows B as ks rs = rbind (with_keys B (map expr ks) rs)
     (\<lambda>krs. rmap (group_row B as (map alias_field_id ks)) (group_all [] krs))"

definition any_order :: "row list res \<Rightarrow> outcomes" where
  "any_order m = (case m of Inl e \<Rightarrow> {Inl e} | Inr ys \<Rightarrow> {Inr zs | zs. mset zs = mset ys})"

subsection \<open>Order\<close>

type_synonym keyed_row = "Value list \<times> row"

definition keyed :: "build \<Rightarrow> Scalar list \<Rightarrow> row list \<Rightarrow> keyed_row list res" where
  "keyed B es rs = rbind (with_keys B es rs)
     (\<lambda>krs. if \<forall>(k, r) \<in> set krs. no_nan k then Inr krs else Inl Undefined)"

definition before :: "bool \<Rightarrow> keyed_row \<Rightarrow> keyed_row \<Rightarrow> bool" where
  "before desc a b = (if desc then key_greater (fst a) (fst b) else key_less (fst a) (fst b))"

definition sorted_outcomes :: "build \<Rightarrow> Scalar list \<Rightarrow> bool \<Rightarrow> row list \<Rightarrow> outcomes" where
  "sorted_outcomes B es desc rs = (case keyed B es rs of
     Inl e \<Rightarrow> {Inl e}
   | Inr krs \<Rightarrow> {Inr (map snd zs) | zs. mset zs = mset krs \<and> ordered (before desc) zs})"

definition merged_outcomes :: "build \<Rightarrow> Scalar list \<Rightarrow> bool \<Rightarrow> row list \<Rightarrow> row list \<Rightarrow> outcomes" where
  "merged_outcomes B es desc xs ys =
     (case rbind (keyed B es xs) (\<lambda>kxs. rbind (keyed B es ys) (\<lambda>kys. Inr (kxs, kys))) of
       Inl e \<Rightarrow> {Inl e}
     | Inr (kxs, kys) \<Rightarrow> {Inr (map snd zs) | zs. zs \<in> shuffles kxs kys \<and>
         (ordered (before desc) kxs \<longrightarrow> ordered (before desc) kys \<longrightarrow> ordered (before desc) zs)})"

fun interleavings :: "'a list list \<Rightarrow> 'a list set" where
  "interleavings [] = {[]}"
| "interleavings (xs # xss) = (\<Union>ys \<in> interleavings xss. shuffles xs ys)"

subsection \<open>Joins\<close>

definition semi_rows :: "build \<Rightarrow> Scalar \<Rightarrow> FieldId \<Rightarrow> row list \<Rightarrow> row list \<Rightarrow> row list res" where
  "semi_rows B e i rs ms = rbind (rmap (\<lambda>m. env_of m i) ms)
     (\<lambda>vs. rfilter (\<lambda>r. rbind (row_eval B e r) (\<lambda>v. Inr (hs_contains vs v))) rs)"

definition mark_rows :: "build \<Rightarrow> Scalar \<Rightarrow> FieldId \<Rightarrow> FieldId \<Rightarrow> row list \<Rightarrow> row list \<Rightarrow> row list res" where
  "mark_rows B e out i rs ms = rbind (rmap (\<lambda>m. env_of m i) ms)
     (\<lambda>vs. rmap (\<lambda>r. rbind (row_eval B e r) (\<lambda>v. Inr (r(out \<mapsto> VBool (hs_contains vs v))))) rs)"

definition nulls :: "FieldSet \<Rightarrow> row" where
  "nulls F i = (if i \<in> F then Some vnull else None)"

definition left_matches :: "FieldSet \<Rightarrow> (Value \<times> row) list \<Rightarrow> row \<Rightarrow> Value \<Rightarrow> row list" where
  "left_matches F kqs l k =
     (let qs = filter (\<lambda>(j, q). j \<noteq> vnull \<and> val_eq j k) kqs
      in if k = vnull \<or> qs = [] then [l ++ nulls F] else map (\<lambda>(j, q). l ++ q) qs)"

definition left_join_rows :: "build \<Rightarrow> Scalar \<Rightarrow> Scalar \<Rightarrow> FieldSet \<Rightarrow> row list \<Rightarrow> row list \<Rightarrow> row list res" where
  "left_join_rows B lk rk F ls qs =
     rbind (rmap (\<lambda>q. rbind (row_eval B rk q) (\<lambda>k. Inr (k, q))) qs) (\<lambda>kqs.
       rbind (rmap (\<lambda>l. rbind (row_eval B lk l) (\<lambda>k. Inr (left_matches F kqs l k))) ls) (\<lambda>rss. Inr (concat rss)))"

section \<open>The outcomes of a relation\<close>

definition rel_fields :: "Relation \<Rightarrow> FieldSet" where
  "rel_fields r = {i. contains (rel_schema r) i}"

fun children :: "Relation \<Rightarrow> Relation list" where
  "children (ProjectionRelation s ps sch) = [s]"
| "children (AggregateRelation s as sch) = [s]"
| "children (GroupRelation s as ks sch) = [s]"
| "children (LimitRelation s n sch) = [s]"
| "children (FilterRelation s c sch) = [s]"
| "children (SortRelation s es desc sch) = [s]"
| "children (TopKRelation s es desc n sch) = [s]"
| "children (SemiJoinRelation s m e i sch) = [s, m]"
| "children (MarkJoinRelation s m e out i sch) = [s, m]"
| "children (LeftJoinRelation l r lk rk sch) = [l, r]"
| "children (UnionAllRelation ss sch) = ss"
| "children (UnionAllSortedByRelation l r es desc sch) = [l, r]"
| "children (MaterializeRelation s sch) = [s]"
| "children _ = []"

text \<open>What a node makes of the rows of its inputs.\<close>

fun node_op :: "build \<Rightarrow> Relation \<Rightarrow> row list list \<Rightarrow> outcomes" where
  "node_op B (EmptyRelation sch) xss = {Inr []}"
| "node_op B (ValuesRelation vs i sch) xss = {Inr (map (\<lambda>v. [i \<mapsto> v]) vs)}"
| "node_op B (ProjectionRelation s ps sch) xss = {rmap (project B ps) (xss ! 0)}"
| "node_op B (AggregateRelation s as sch) xss = {rbind (agg_row B as (xss ! 0)) (\<lambda>r. Inr [r])}"
| "node_op B (GroupRelation s as ks sch) xss = any_order (group_rows B as ks (xss ! 0))"
| "node_op B (LimitRelation s n sch) xss = {Inr (take (nat n) (xss ! 0))}"
| "node_op B (FilterRelation s c sch) xss = {rfilter (row_holds B c) (xss ! 0)}"
| "node_op B (SortRelation s es desc sch) xss = sorted_outcomes B es desc (xss ! 0)"
| "node_op B (TopKRelation s es desc n sch) xss =
     bindo (sorted_outcomes B es desc (xss ! 0)) (\<lambda>ys. {Inr (take (nat n) ys)})"
| "node_op B (SemiJoinRelation s m e i sch) xss = {semi_rows B e i (xss ! 0) (xss ! 1)}"
| "node_op B (MarkJoinRelation s m e out i sch) xss = {mark_rows B e out i (xss ! 0) (xss ! 1)}"
| "node_op B (LeftJoinRelation l r lk rk sch) xss = {left_join_rows B lk rk (rel_fields r) (xss ! 0) (xss ! 1)}"
| "node_op B (UnionAllRelation ss sch) xss = Inr ` interleavings xss"
| "node_op B (UnionAllSortedByRelation l r es desc sch) xss = merged_outcomes B es desc (xss ! 0) (xss ! 1)"
| "node_op B (MaterializeRelation s sch) xss = {Inr (xss ! 0)}"
| "node_op B _ xss = {Inl Panic}"

text \<open>Files, streams and named relations are given from outside.\<close>

fun is_input :: "Relation \<Rightarrow> bool" where
  "is_input (FileRelation path tr tf sch) = True"
| "is_input (StreamRelation cmd sch) = True"
| "is_input (NamedRelationReferenceRelation n sch) = True"
| "is_input _ = False"

function runs :: "build \<Rightarrow> (Relation \<Rightarrow> outcomes) \<Rightarrow> Relation \<Rightarrow> outcomes" where
  "runs B L r = (if is_input r then L r else bind_all (map (runs B L) (children r)) (node_op B r))"
  by pat_completeness auto

lemma children_size [termination_simp]: "c \<in> set (children r) \<Longrightarrow> size c < size r"
  by (cases r) (auto simp: less_Suc_eq_le intro: size_list_estimation')

termination runs
  by (relation "measure (\<lambda>(B, L, r). size r)") (auto simp: children_size)

declare runs.simps [simp del]


section \<open>Well-typed relations\<close>

text \<open>
  \<open>\<Gamma>\<close> is the type of a field id in the field binding. The schemas are those the lowering builds: of
  a filter, limit or sort the one of its source, of a union the one of every source, and so on.
\<close>

definition exprs_ok :: "(FieldId \<rightharpoonup> ValueType) \<Rightarrow> FieldSet \<Rightarrow> Scalar list \<Rightarrow> bool" where
  "exprs_ok \<Gamma> F es \<longleftrightarrow> (\<forall>e \<in> set es. scalar_wt \<Gamma> e \<and> scalar_fields e \<subseteq> F)"

definition projs_ok :: "(FieldId \<rightharpoonup> ValueType) \<Rightarrow> FieldSet \<Rightarrow> Projector list \<Rightarrow> bool" where
  "projs_ok \<Gamma> F ps \<longleftrightarrow> exprs_ok \<Gamma> F (map expr ps) \<and>
     (\<forall>p \<in> set ps. \<exists>t. \<Gamma> (alias_field_id p) = Some t \<and> fits (value_type (expr p)) t)"

fun agg_fn_wt :: "Function \<Rightarrow> ValueType list \<Rightarrow> ValueType \<Rightarrow> bool" where
  "agg_fn_wt CountNonNull_fn us t = (length us = 1 \<and> t = Integer)"
| "agg_fn_wt CountAll_fn us t = (us = [] \<and> t = Integer)"
| "agg_fn_wt (Min_fn T) us t = (list_all2 fits us [T] \<and> t = T)"
| "agg_fn_wt (Max_fn T) us t = (list_all2 fits us [T] \<and> t = T)"
| "agg_fn_wt (Sum_fn T) us t = (list_all2 fits us [T] \<and> t = T)"
| "agg_fn_wt (Percentile_fn ps T) us t = (list_all2 fits us [T] \<and> t = String)"
| "agg_fn_wt _ us t = False"

fun agg_node_wt :: "(FieldId \<rightharpoonup> ValueType) \<Rightarrow> FieldSet \<Rightarrow> AggregateNode \<Rightarrow> ValueType \<Rightarrow> bool" where
  "agg_node_wt \<Gamma> F (ConstAggregate v null_if_empty) t = has_type v t"
| "agg_node_wt \<Gamma> F (FnCallAggregate f as) t = (exprs_ok \<Gamma> F as \<and> agg_fn_wt f (map value_type as) t)"

definition aggs_ok :: "(FieldId \<rightharpoonup> ValueType) \<Rightarrow> FieldSet \<Rightarrow> Aggregate list \<Rightarrow> bool" where
  "aggs_ok \<Gamma> F as \<longleftrightarrow>
     (\<forall>a \<in> set as. \<Gamma> (output_field_id a) = Some (agg_type a) \<and> agg_node_wt \<Gamma> F (agg_node a) (agg_type a))"

definition has_schema :: "Schema \<Rightarrow> FieldId list \<Rightarrow> bool" where
  "has_schema sch is \<longleftrightarrow> fields_ok is \<and> sch = schema_of is"

fun node_wt :: "(FieldId \<rightharpoonup> ValueType) \<Rightarrow> Relation \<Rightarrow> bool" where
  "node_wt \<Gamma> (EmptyRelation sch) = (\<exists>is. has_schema sch is)"
| "node_wt \<Gamma> (ValuesRelation vs i sch) =
     (has_schema sch [i] \<and> (\<exists>t. \<Gamma> i = Some t \<and> (\<forall>v \<in> set vs. has_type v t)))"
| "node_wt \<Gamma> (ProjectionRelation s ps sch) =
     (projs_ok \<Gamma> (rel_fields s) ps \<and> has_schema sch (map alias_field_id ps))"
| "node_wt \<Gamma> (AggregateRelation s as sch) =
     (aggs_ok \<Gamma> (rel_fields s) as \<and> has_schema sch (map output_field_id as))"
| "node_wt \<Gamma> (GroupRelation s as ks sch) =
     (aggs_ok \<Gamma> (rel_fields s) as \<and> projs_ok \<Gamma> (rel_fields s) ks \<and>
      has_schema sch (map output_field_id as @ map alias_field_id ks))"
| "node_wt \<Gamma> (LimitRelation s n sch) = (0 \<le> n \<and> sch = rel_schema s)"
| "node_wt \<Gamma> (FilterRelation s c sch) =
     (exprs_ok \<Gamma> (rel_fields s) [c] \<and> fits (value_type c) Boolean \<and> sch = rel_schema s)"
| "node_wt \<Gamma> (SortRelation s es desc sch) = (exprs_ok \<Gamma> (rel_fields s) es \<and> sch = rel_schema s)"
| "node_wt \<Gamma> (TopKRelation s es desc n sch) = (exprs_ok \<Gamma> (rel_fields s) es \<and> 0 \<le> n \<and> sch = rel_schema s)"
| "node_wt \<Gamma> (SemiJoinRelation s m e i sch) =
     (exprs_ok \<Gamma> (rel_fields s) [e] \<and> i \<in> rel_fields m \<and> sch = rel_schema s)"
| "node_wt \<Gamma> (MarkJoinRelation s m e out i sch) =
     (exprs_ok \<Gamma> (rel_fields s) [e] \<and> i \<in> rel_fields m \<and> \<Gamma> out = Some Boolean \<and>
      (\<exists>is. rel_schema s = schema_of is \<and> has_schema sch (is @ [out])))"
| "node_wt \<Gamma> (LeftJoinRelation l r lk rk sch) =
     (exprs_ok \<Gamma> (rel_fields l) [lk] \<and> exprs_ok \<Gamma> (rel_fields r) [rk] \<and>
      (\<exists>is js. rel_schema l = schema_of is \<and> rel_schema r = schema_of js \<and> has_schema sch (is @ js)))"
| "node_wt \<Gamma> (UnionAllRelation ss sch) = ((\<exists>is. has_schema sch is) \<and> (\<forall>s \<in> set ss. rel_schema s = sch))"
| "node_wt \<Gamma> (UnionAllSortedByRelation l r es desc sch) =
     (exprs_ok \<Gamma> (rel_fields l) es \<and> rel_schema l = sch \<and> rel_schema r = sch)"
| "node_wt \<Gamma> (MaterializeRelation s sch) = (sch = rel_schema s)"
| "node_wt \<Gamma> r = (\<exists>is. has_schema (rel_schema r) is)"

function rel_wt :: "(FieldId \<rightharpoonup> ValueType) \<Rightarrow> Relation \<Rightarrow> bool" where
  "rel_wt \<Gamma> r = (node_wt \<Gamma> r \<and> list_all (rel_wt \<Gamma>) (children r))"
  by pat_completeness auto

termination rel_wt
  by (relation "measure (\<lambda>(\<Gamma>, r). size r)") (auto simp: children_size)

declare rel_wt.simps [simp del]

definition row_typed :: "(FieldId \<rightharpoonup> ValueType) \<Rightarrow> FieldSet \<Rightarrow> row \<Rightarrow> bool" where
  "row_typed \<Gamma> F r \<longleftrightarrow> dom r = F \<and> (\<forall>i t v. \<Gamma> i = Some t \<longrightarrow> r i = Some v \<longrightarrow> has_type v t)"

definition inputs_typed :: "(FieldId \<rightharpoonup> ValueType) \<Rightarrow> (Relation \<Rightarrow> outcomes) \<Rightarrow> bool" where
  "inputs_typed \<Gamma> L \<longleftrightarrow> (\<forall>r. is_input r \<longrightarrow> ok_rows (row_typed \<Gamma> (rel_fields r)) (L r))"

lemma rel_fields_schema: "rel_schema r = schema_of is \<Longrightarrow> rel_fields r = set is"
  by (simp add: rel_fields_def)

lemma row_typed_env: "row_typed \<Gamma> F r \<Longrightarrow> env_typed \<Gamma> (env_of r)"
  by (auto simp: row_typed_def env_typed_def env_of_def split: option.splits)

lemma row_eval_typed:
  "restricts X B \<Longrightarrow> scalar_wt \<Gamma> e \<Longrightarrow> row_typed \<Gamma> F r \<Longrightarrow> row_eval B e r = Inr v \<Longrightarrow> has_type v (value_type e)"
  unfolding row_eval_def by (rule scalar_wt_sound) (auto dest: row_typed_env)

subsection \<open>Aggregates are typed\<close>

fun agg_inv :: "Aggregator \<Rightarrow> ValueType \<Rightarrow> bool" where
  "agg_inv (CountAllAggregator n) t = (t = Integer)"
| "agg_inv (CountNonNullAggregator n) t = (t = Integer)"
| "agg_inv (MinAggregator T r) t = (t = T \<and> (\<forall>v. r = Some v \<longrightarrow> type v = T))"
| "agg_inv (MaxAggregator T r) t = (t = T \<and> (\<forall>v. r = Some v \<longrightarrow> type v = T))"
| "agg_inv (SumAggregator T acc) t = (t = T \<and> type acc = T)"
| "agg_inv (PercentileAggregator T ps vs) t = (t = String)"

lemma agg_inv_get: "agg_inv a t \<Longrightarrow> get a = Inr v \<Longrightarrow> has_type v t"
  by (cases a) (auto simp: has_type_def percentile_get_def split: option.splits if_splits)

lemma agg_inv_feed: "agg_inv a t \<Longrightarrow> feed a v = Inr b \<Longrightarrow> agg_inv b t"
  by (cases a) (auto simp: std_min_def std_max_def dest!: get_as_type add_T_type split: if_splits option.splits)

lemma agg_inv_feed_all: "agg_inv a t \<Longrightarrow> feed_all a vs = Inr b \<Longrightarrow> agg_inv b t"
  by (induction vs arbitrary: a) (auto dest: agg_inv_feed)

lemma agg_inv_feed_times: "agg_inv a t \<Longrightarrow> feed_times n a = Inr b \<Longrightarrow> agg_inv b t"
proof (induction n arbitrary: a)
  case (Suc n)
  from Suc.prems(2) obtain c where "feed_nullary a = Inr c" "feed_times n c = Inr b" by auto
  moreover from this(1) Suc.prems(1) have "agg_inv c t" by (cases a) auto
  ultimately show ?case using Suc.IH by blast
qed simp

lemma agg_inv_build:
  "agg_fn_wt f us t \<Longrightarrow> buildAggregate f = Inr g \<Longrightarrow>
   (case g of NullaryAggregate a \<Rightarrow> agg_inv a t | UnaryAggregate a \<Rightarrow> agg_inv a t)"
  by (cases f) (auto simp: Addable_def split: if_splits)

lemma agg_node_typed:
  assumes "agg_node_wt \<Gamma> F n t" "agg_node_eval B n rs = Inr v"
  shows "has_type v t"
proof (cases n)
  case (FnCallAggregate f as)
  with assms(2) obtain g where g: "buildAggregate f = Inr g" and v: "(case g of
     NullaryAggregate a \<Rightarrow> verify (as = []) (rbind (feed_times (length rs) a) get)
   | UnaryAggregate a \<Rightarrow> verify (length as = 1)
       (rbind (rmap (row_eval B (as ! 0)) rs) (\<lambda>vs. rbind (feed_all a vs) get))) = Inr v"
    by (auto simp del: One_nat_def)
  from agg_inv_build [OF _ g] assms(1) FnCallAggregate
  have "case g of NullaryAggregate a \<Rightarrow> agg_inv a t | UnaryAggregate a \<Rightarrow> agg_inv a t" by auto
  with v show ?thesis
    by (cases g) (auto split: if_splits dest: agg_inv_feed_all agg_inv_feed_times agg_inv_get)
qed (use assms in \<open>auto split: if_splits\<close>)


subsection \<open>Every operation gives typed rows\<close>

lemma row_of_typed:
  assumes "list_all2 (\<lambda>i v. \<exists>t. \<Gamma> i = Some t \<and> has_type v t) is vs"
  shows "row_typed \<Gamma> (set is) (row_of is vs)"
proof -
  have "dom (row_of is vs) = set is"
    using list_all2_lengthD [OF assms] by (simp add: row_of_def dom_map_of_zip)
  moreover have "has_type v t" if "\<Gamma> i = Some t" "row_of is vs i = Some v" for i t v
  proof -
    from that(2) have "(i, v) \<in> set (zip is vs)" by (auto simp: row_of_def dest: map_of_SomeD)
    with assms that(1) show ?thesis by (auto simp: list_all2_iff)
  qed
  ultimately show ?thesis by (simp add: row_typed_def)
qed

lemma row_typed_add: "row_typed \<Gamma> F a \<Longrightarrow> row_typed \<Gamma> G b \<Longrightarrow> row_typed \<Gamma> (F \<union> G) (a ++ b)"
  by (auto simp: row_typed_def map_add_Some_iff)

lemma rmap_rel:
  assumes "rmap f xs = Inr ys" "\<And>x y. x \<in> set xs \<Longrightarrow> f x = Inr y \<Longrightarrow> R x y"
  shows "list_all2 R xs ys"
  by (rule list.rel_mono_strong [OF assms(1) [unfolded rmap_Inr_iff]]) (use assms(2) in blast)

lemma rmap_all:
  assumes "rmap f xs = Inr ys" "\<And>x y. x \<in> set xs \<Longrightarrow> f x = Inr y \<Longrightarrow> P y"
  shows "list_all P ys"
  using rmap_rel [OF assms(1), of "\<lambda>x. P"] assms(2) by (auto simp: list_all2_conv_all_nth list_all_length)

lemma row_key_typed:
  assumes "restricts X B" "exprs_ok \<Gamma> G es" "row_typed \<Gamma> F r" "row_key B es r = Inr vs"
  shows "list_all2 (\<lambda>e v. has_type v (value_type e)) es vs"
proof (rule rmap_rel [OF assms(4) [unfolded row_key_def]])
  fix e v assume "e \<in> set es" "row_eval B e r = Inr v"
  with assms(2) row_eval_typed [OF assms(1) _ assms(3)] show "has_type v (value_type e)" by (simp add: exprs_ok_def)
qed

lemma project_typed:
  assumes "restricts X B" "projs_ok \<Gamma> G ps" "row_typed \<Gamma> F r" "project B ps r = Inr r'"
  shows "row_typed \<Gamma> (set (map alias_field_id ps)) r'"
proof -
  from assms(4) obtain vs where vs: "row_key B (map expr ps) r = Inr vs" "r' = row_of (map alias_field_id ps) vs"
    by (auto simp: project_def)
  from assms(2) have "exprs_ok \<Gamma> G (map expr ps)" by (simp add: projs_ok_def)
  from row_key_typed [OF assms(1) this assms(3) vs(1)]
  have "list_all2 (\<lambda>i v. \<exists>t. \<Gamma> i = Some t \<and> has_type v t) (map alias_field_id ps) vs"
    using assms(2) by (fastforce simp: list_all2_conv_all_nth projs_ok_def dest: nth_mem has_type_fits)
  then show ?thesis unfolding vs(2) by (rule row_of_typed)
qed

lemma agg_row_typed:
  assumes "aggs_ok \<Gamma> G as" "agg_row B as rs = Inr r"
  shows "row_typed \<Gamma> (set (map output_field_id as)) r"
proof -
  from assms(2) obtain vs where vs: "rmap (\<lambda>a. agg_node_eval B (agg_node a) rs) as = Inr vs"
    "r = row_of (map output_field_id as) vs" by (auto simp: agg_row_def)
  have "list_all2 (\<lambda>i v. \<exists>t. \<Gamma> i = Some t \<and> has_type v t) (map output_field_id as) vs"
    using vs(1) assms(1)
    by (fastforce simp: rmap_Inr_iff list_all2_conv_all_nth aggs_ok_def dest: nth_mem agg_node_typed)
  then show ?thesis unfolding vs(2) by (rule row_of_typed)
qed

lemma group_push_keys: "P k \<Longrightarrow> list_all P (map fst gs) \<Longrightarrow> list_all P (map fst (group_push gs k r))"
  by (induction gs k r rule: group_push.induct) auto

lemma group_all_keys: "list_all P (map fst krs) \<Longrightarrow> list_all P (map fst gs) \<Longrightarrow> list_all P (map fst (group_all gs krs))"
  by (induction gs krs rule: group_all.induct) (auto intro: group_push_keys)

lemma rfilter_subset: "rfilter p xs = Inr ys \<Longrightarrow> set ys \<subseteq> set xs"
  by (induction xs arbitrary: ys) (auto split: if_splits)

lemma with_keys_rows: "with_keys B es rs = Inr krs \<Longrightarrow> map snd krs = rs"
  by (induction rs arbitrary: krs) (auto simp: with_keys_def)

lemma with_keys_key: "with_keys B es rs = Inr krs \<Longrightarrow> (k, r) \<in> set krs \<Longrightarrow> r \<in> set rs \<and> row_key B es r = Inr k"
  by (induction rs arbitrary: krs) (auto simp: with_keys_def)

lemma keyed_rows: "keyed B es rs = Inr krs \<Longrightarrow> map snd krs = rs"
  by (auto simp: keyed_def split: if_splits dest: with_keys_rows)

lemma group_rows_typed:
  assumes "restricts X B" "aggs_ok \<Gamma> G as" "projs_ok \<Gamma> G ks" "list_all (row_typed \<Gamma> F) rs"
    and "group_rows B as ks rs = Inr ys"
  shows "list_all (row_typed \<Gamma> (set (map output_field_id as @ map alias_field_id ks))) ys"
proof -
  let ?K = "\<lambda>k. list_all2 (\<lambda>i v. \<exists>t. \<Gamma> i = Some t \<and> has_type v t) (map alias_field_id ks) k"
  from assms(5) obtain krs where krs: "with_keys B (map expr ks) rs = Inr krs"
    and ys: "rmap (group_row B as (map alias_field_id ks)) (group_all [] krs) = Inr ys"
    by (auto simp: group_rows_def)
  have "?K k" if "(k, r) \<in> set krs" for k r
  proof -
    from with_keys_key [OF krs that] have r: "r \<in> set rs" "row_key B (map expr ks) r = Inr k" by auto
    from r(1) assms(4) have "row_typed \<Gamma> F r" by (simp add: list_all_iff)
    from row_key_typed [OF assms(1) _ this r(2)] assms(3) show ?thesis
      by (fastforce simp: list_all2_conv_all_nth projs_ok_def dest: nth_mem has_type_fits)
  qed
  then have "list_all ?K (map fst (group_all [] krs))"
    by (intro group_all_keys) (auto simp: list_all_iff)
  then have K: "?K (fst g)" if "g \<in> set (group_all [] krs)" for g using that by (auto simp: list_all_iff)
  show ?thesis
  proof (rule rmap_all [OF ys])
    fix g y assume g: "g \<in> set (group_all [] krs)" "group_row B as (map alias_field_id ks) g = Inr y"
    then obtain a where a: "agg_row B as (snd g) = Inr a" "y = a ++ row_of (map alias_field_id ks) (fst g)"
      by (auto simp: group_row_def)
    from row_typed_add [OF agg_row_typed [OF assms(2) a(1)] row_of_typed [OF K [OF g(1)]]]
    show "row_typed \<Gamma> (set (map output_field_id as @ map alias_field_id ks)) y" by (simp add: a(2))
  qed
qed

lemma ok_rows_det: "ok_rows P {m} \<longleftrightarrow> (\<forall>xs. m = Inr xs \<longrightarrow> list_all P xs)"
  by (auto simp: ok_rows_def)

lemma sorted_ok: "list_all P xs \<Longrightarrow> ok_rows P (sorted_outcomes B es desc xs)"
proof (cases "keyed B es xs")
  case (Inr krs)
  assume "list_all P xs"
  then have "list_all P (map snd krs)" by (simp add: keyed_rows [OF Inr])
  then have "list_all P (map snd zs)" if "mset zs = mset krs" for zs
    using mset_eq_setD [OF that] by (auto simp: list_all_iff)
  then show ?thesis by (auto simp: sorted_outcomes_def Inr ok_rows_def)
qed (simp add: sorted_outcomes_def ok_rows_def)

lemma shuffles_set: "zs \<in> shuffles xs ys \<Longrightarrow> set zs = set xs \<union> set ys"
  by (rule set_shuffles)

lemma merged_ok: "list_all P xs \<Longrightarrow> list_all P ys \<Longrightarrow> ok_rows P (merged_outcomes B es desc xs ys)"
proof -
  assume P: "list_all P xs" "list_all P ys"
  have "list_all P (map snd zs)" if k: "keyed B es xs = Inr kxs" "keyed B es ys = Inr kys" "zs \<in> shuffles kxs kys"
    for kxs kys zs
  proof -
    have "set (map snd zs) = set (map snd kxs) \<union> set (map snd kys)" using set_shuffles [OF k(3)] by auto
    with P show ?thesis
      by (simp only: list_all_iff keyed_rows [OF k(1)] keyed_rows [OF k(2)] ball_Un)
  qed
  then show ?thesis
    by (auto simp: merged_outcomes_def ok_rows_def rbind_def split: sum.splits)
qed

lemma interleavings_all: "zs \<in> interleavings xss \<Longrightarrow> list_all (list_all P) xss \<Longrightarrow> list_all P zs"
  by (induction xss arbitrary: zs) (auto simp: list_all_iff dest!: set_shuffles)


lemma semi_rows_subset: "semi_rows B e i rs ms = Inr ys \<Longrightarrow> set ys \<subseteq> set rs"
  by (auto simp: semi_rows_def dest: rfilter_subset)

lemma mark_rows_typed:
  assumes "mark_rows B e out i rs ms = Inr ys" "\<Gamma> out = Some Boolean" "list_all (row_typed \<Gamma> F) rs"
  shows "list_all (row_typed \<Gamma> (insert out F)) ys"
proof -
  from assms(1) obtain vs where
    "rmap (\<lambda>r. rbind (row_eval B e r) (\<lambda>v. Inr (r(out \<mapsto> VBool (hs_contains vs v))))) rs = Inr ys"
    by (auto simp: mark_rows_def)
  then show ?thesis
  proof (rule rmap_all)
    fix r y assume "r \<in> set rs" "rbind (row_eval B e r) (\<lambda>v. Inr (r(out \<mapsto> VBool (hs_contains vs v)))) = Inr y"
    with assms(2,3) show "row_typed \<Gamma> (insert out F) y"
      by (auto simp: list_all_iff row_typed_def split: if_splits)
  qed
qed

lemma nulls_typed: "row_typed \<Gamma> F (nulls F)"
  by (auto simp: row_typed_def nulls_def split: if_splits)

lemma left_matches_typed:
  assumes "row_typed \<Gamma> F l" "\<And>k q. (k, q) \<in> set kqs \<Longrightarrow> row_typed \<Gamma> G q"
  shows "list_all (row_typed \<Gamma> (F \<union> G)) (left_matches G kqs l k)"
  using assms row_typed_add [OF assms(1) nulls_typed]
  by (auto simp: left_matches_def Let_def list_all_iff intro: row_typed_add)

lemma left_join_typed:
  assumes "left_join_rows B lk rk G ls qs = Inr ys"
    and "list_all (row_typed \<Gamma> F) ls" "list_all (row_typed \<Gamma> G) qs"
  shows "list_all (row_typed \<Gamma> (F \<union> G)) ys"
proof -
  from assms(1) obtain kqs rss where kqs: "rmap (\<lambda>q. rbind (row_eval B rk q) (\<lambda>k. Inr (k, q))) qs = Inr kqs"
    and rss: "rmap (\<lambda>l. rbind (row_eval B lk l) (\<lambda>k. Inr (left_matches G kqs l k))) ls = Inr rss"
    and ys: "ys = concat rss" by (auto simp: left_join_rows_def)
  have "list_all (\<lambda>(k, q). row_typed \<Gamma> G q) kqs"
    by (rule rmap_all [OF kqs]) (use assms(3) in \<open>auto simp: list_all_iff\<close>)
  then have q: "row_typed \<Gamma> G q" if "(k, q) \<in> set kqs" for k q using that by (auto simp: list_all_iff)
  have "list_all (list_all (row_typed \<Gamma> (F \<union> G))) rss"
  proof (rule rmap_all [OF rss])
    fix l y assume "l \<in> set ls" "rbind (row_eval B lk l) (\<lambda>k. Inr (left_matches G kqs l k)) = Inr y"
    with assms(2) q show "list_all (row_typed \<Gamma> (F \<union> G)) y"
      by (auto simp: list_all_iff dest!: left_matches_typed [unfolded list_all_iff, rotated])
  qed
  then show ?thesis by (auto simp: ys list_all_iff)
qed

lemma rel_fields_eq: "rel_schema r = rel_schema s \<Longrightarrow> rel_fields r = rel_fields s"
  by (simp add: rel_fields_def)

lemma has_schema_fields: "has_schema (rel_schema r) is \<Longrightarrow> rel_fields r = set is"
  by (simp add: has_schema_def rel_fields_schema)

definition rows_of :: "(FieldId \<rightharpoonup> ValueType) \<Rightarrow> Relation list \<Rightarrow> row list list \<Rightarrow> bool" where
  "rows_of \<Gamma> cs xss \<longleftrightarrow> list_all2 (\<lambda>c xs. list_all (row_typed \<Gamma> (rel_fields c)) xs) cs xss"

lemma rows_of_simps [simp]:
  "rows_of \<Gamma> [] xss \<longleftrightarrow> xss = []"
  "rows_of \<Gamma> (c # cs) xss \<longleftrightarrow> (\<exists>ys yss. xss = ys # yss \<and> list_all (row_typed \<Gamma> (rel_fields c)) ys \<and> rows_of \<Gamma> cs yss)"
  by (auto simp: rows_of_def list_all2_Cons1)

lemma node_op_typed:
  assumes B: "restricts X B" and wt: "node_wt \<Gamma> r" and "\<not> is_input r" and xss: "rows_of \<Gamma> (children r) xss"
  shows "ok_rows (row_typed \<Gamma> (rel_fields r)) (node_op B r xss)"
proof (cases r)
  case (ValuesRelation vs i sch)
  with wt have "rel_fields r = set [i]" by (intro has_schema_fields) simp
  with wt show ?thesis by (auto simp: ValuesRelation ok_rows_det list_all_iff row_typed_def)
next
  case (ProjectionRelation s ps sch)
  with wt have F: "rel_fields r = set (map alias_field_id ps)" by (intro has_schema_fields) simp
  from xss ProjectionRelation obtain xs where x: "xss = [xs]" "list_all (row_typed \<Gamma> (rel_fields s)) xs" by auto
  have "list_all (row_typed \<Gamma> (rel_fields r)) ys" if "rmap (project B ps) xs = Inr ys" for ys
    unfolding F by (rule rmap_all [OF that], rule project_typed [OF B])
      (use wt x ProjectionRelation in \<open>auto simp: list_all_iff\<close>)
  then show ?thesis by (simp add: ProjectionRelation ok_rows_det x)
next
  case (AggregateRelation s as sch)
  with wt have F: "rel_fields r = set (map output_field_id as)" by (intro has_schema_fields) simp
  then show ?thesis using wt by (auto simp: AggregateRelation ok_rows_det dest: agg_row_typed)
next
  case (GroupRelation s as ks sch)
  with wt have F: "rel_fields r = set (map output_field_id as @ map alias_field_id ks)"
    by (intro has_schema_fields) simp
  from xss GroupRelation obtain xs where x: "xss = [xs]" "list_all (row_typed \<Gamma> (rel_fields s)) xs" by auto
  have "list_all (row_typed \<Gamma> (rel_fields r)) zs" if "group_rows B as ks xs = Inr ys" "mset zs = mset ys" for ys zs
    using group_rows_typed [OF B _ _ x(2) that(1)] wt GroupRelation mset_eq_setD [OF that(2)]
    unfolding F by (auto simp: list_all_iff)
  then show ?thesis by (auto simp: GroupRelation x any_order_def ok_rows_def split: sum.splits)
next
  case (LimitRelation s n sch)
  with wt xss show ?thesis
    by (auto simp: ok_rows_det rel_fields_def list_all_iff dest: in_set_takeD)
next
  case (FilterRelation s c sch)
  with wt xss show ?thesis by (auto simp: ok_rows_det rel_fields_def list_all_iff dest!: rfilter_subset)
next
  case (SortRelation s es desc sch)
  with wt xss show ?thesis by (auto simp: rel_fields_def intro: sorted_ok)
next
  case (TopKRelation s es desc n sch)
  with wt xss obtain xs where x: "xss = [xs]" "list_all (row_typed \<Gamma> (rel_fields r)) xs" by (auto simp: rel_fields_def)
  from sorted_ok [OF x(2), of B es desc] show ?thesis
    by (fastforce simp: TopKRelation x(1) ok_rows_def Inr_bindo list_all_iff dest: in_set_takeD)
next
  case (SemiJoinRelation s m e i sch)
  with wt xss show ?thesis by (auto simp: ok_rows_det rel_fields_def list_all_iff dest!: semi_rows_subset)
next
  case (MarkJoinRelation s m e out i sch)
  with wt obtain "is" where "rel_schema s = schema_of is" "has_schema (rel_schema r) (is @ [out])" by auto
  then have F: "rel_fields r = insert out (rel_fields s)"
    by (auto simp: rel_fields_schema dest: has_schema_fields)
  from xss MarkJoinRelation obtain xs ms where "xss = [xs, ms]" "list_all (row_typed \<Gamma> (rel_fields s)) xs" by auto
  with wt show ?thesis unfolding F by (auto simp: MarkJoinRelation ok_rows_det dest: mark_rows_typed)
next
  case (LeftJoinRelation l q lk rk sch)
  with wt obtain "is" js where "rel_schema l = schema_of is" "rel_schema q = schema_of js"
    "has_schema (rel_schema r) (is @ js)" by auto
  then have F: "rel_fields r = rel_fields l \<union> rel_fields q"
    by (auto simp: rel_fields_schema dest: has_schema_fields)
  from xss LeftJoinRelation show ?thesis unfolding F by (auto simp: LeftJoinRelation ok_rows_det dest: left_join_typed)
next
  case (UnionAllRelation ss sch)
  with wt have "rel_fields s = rel_fields r" if "s \<in> set ss" for s using that by (simp add: rel_fields_def)
  with xss UnionAllRelation have "list_all (list_all (row_typed \<Gamma> (rel_fields r))) xss"
    by (fastforce simp: rows_of_def list_all2_conv_all_nth list_all_length dest: nth_mem)
  then show ?thesis by (auto simp: UnionAllRelation ok_rows_def dest: interleavings_all)
next
  case (UnionAllSortedByRelation l q es desc sch)
  with wt xss show ?thesis by (auto simp: rel_fields_def intro: merged_ok)
next
  case (MaterializeRelation s sch)
  with wt xss show ?thesis by (auto simp: ok_rows_det rel_fields_def)
qed (use assms(3) in \<open>auto simp: ok_rows_det\<close>)

lemma ok_rows_children:
  assumes "list_all (\<lambda>c. ok_rows (row_typed \<Gamma> (rel_fields c)) (runs B L c)) cs"
  shows "list_all2 ok_rows (map (\<lambda>c. row_typed \<Gamma> (rel_fields c)) cs) (map (runs B L) cs)"
  using assms by (auto simp: list_all2_conv_all_nth list_all_length)

lemma runs_typed:
  assumes "restricts X B" "inputs_typed \<Gamma> L"
  shows "rel_wt \<Gamma> r \<Longrightarrow> ok_rows (row_typed \<Gamma> (rel_fields r)) (runs B L r)"
proof (induction r rule: measure_induct_rule [of size])
  case (less r)
  show ?case
  proof (cases "is_input r")
    case True
    then show ?thesis using assms(2) by (simp add: runs.simps [of B L r] inputs_typed_def)
  next
    case False
    from less.prems have wt: "node_wt \<Gamma> r" and cs: "list_all (rel_wt \<Gamma>) (children r)"
      by (simp_all add: rel_wt.simps [of \<Gamma> r])
    have "list_all (\<lambda>c. ok_rows (row_typed \<Gamma> (rel_fields c)) (runs B L c)) (children r)"
      using less.IH [OF children_size] cs by (auto simp: list_all_iff)
    from bind_all_ok [OF ok_rows_children [OF this], of "row_typed \<Gamma> (rel_fields r)" "node_op B r"]
      node_op_typed [OF assms(1) wt False] False
    show ?thesis by (simp add: runs.simps [of B L r] rows_of_def list_all2_map1)
  qed
qed

end
