(* ===== verification/Interleave.thy ===== *)
theory Interleave
  imports Phys_Sort
begin

text \<open>
  Interleavings of row lists, for UNION ALL and the sorted merge: they are associative, a filter or
  a limit of one comes from the filtered or limited inputs, also when the result has to be ordered.
\<close>

section \<open>Associativity\<close>

lemma Cons_shufflesE:
  assumes "z # zs \<in> shuffles xs ys"
  obtains xs' where "xs = z # xs'" "zs \<in> shuffles xs' ys" | ys' where "ys = z # ys'" "zs \<in> shuffles xs ys'"
  using assms by (cases xs; cases ys) (auto simp: Cons_in_shuffles_iff)

definition shuffled3 :: "'a list \<Rightarrow> 'a list \<Rightarrow> 'a list \<Rightarrow> 'a list \<Rightarrow> bool" where
  "shuffled3 xs ys zs ws \<longleftrightarrow> (\<exists>us \<in> shuffles xs ys. ws \<in> shuffles us zs)"

lemma shuffled3_Cons:
  "shuffled3 xs ys zs (w # ws) \<longleftrightarrow>
     (\<exists>xs'. xs = w # xs' \<and> shuffled3 xs' ys zs ws) \<or> (\<exists>ys'. ys = w # ys' \<and> shuffled3 xs ys' zs ws) \<or>
     (\<exists>zs'. zs = w # zs' \<and> shuffled3 xs ys zs' ws)" (is "?L \<longleftrightarrow> ?A \<or> ?B \<or> ?C")
proof
  assume ?L
  then obtain us where us: "us \<in> shuffles xs ys" "w # ws \<in> shuffles us zs" by (auto simp: shuffled3_def)
  from us(2) show "?A \<or> ?B \<or> ?C"
  proof (cases rule: Cons_shufflesE)
    case (1 us')
    from us(1) [unfolded 1(1)] show ?thesis
      by (cases rule: Cons_shufflesE) (use 1(2) in \<open>auto simp: shuffled3_def\<close>)
  next
    case 2
    with us(1) show ?thesis by (auto simp: shuffled3_def)
  qed
next
  assume "?A \<or> ?B \<or> ?C"
  then show ?L
    unfolding shuffled3_def using Cons_in_shuffles_leftI Cons_in_shuffles_rightI by metis
qed

lemma shuffled3_rotate: "shuffled3 xs ys zs ws \<longleftrightarrow> shuffled3 zs ys xs ws"
proof (induction ws arbitrary: xs ys zs)
  case (Cons w ws)
  show ?case unfolding shuffled3_Cons using Cons.IH by blast
qed (auto simp: shuffled3_def)

lemma shuffles_assoc:
  "(\<exists>us \<in> shuffles xs ys. ws \<in> shuffles us zs) \<longleftrightarrow> (\<exists>vs \<in> shuffles ys zs. ws \<in> shuffles xs vs)"
  using shuffled3_rotate [of xs ys zs ws] by (simp add: shuffled3_def shuffles_commutes)

lemma mset_shuffles: "zs \<in> shuffles xs ys \<Longrightarrow> mset zs = mset xs + mset ys"
  by (induction xs ys arbitrary: zs rule: shuffles.induct) auto

lemma shuffles_ex: "\<exists>zs. zs \<in> shuffles xs ys"
  using splice_in_shuffles by blast

section \<open>Limits\<close>

lemma take_Cons_eq:
  assumes "take (Suc n) xs0 = take (Suc n) ys" "xs0 = z # xs"
  obtains ys' where "ys = z # ys'" "take n xs = take n ys'"
  using assms by (cases ys) auto

lemma take_less: "take (Suc n) xs = take (Suc n) ys \<Longrightarrow> take n xs = take n ys"
  by (metis Suc_n_not_le_n min_def nat_le_linear take_take)

lemma shuffles_take:
  "take n xs = take n xs' \<Longrightarrow> take n ys = take n ys' \<Longrightarrow> zs \<in> shuffles xs ys \<Longrightarrow>
   \<exists>ws \<in> shuffles xs' ys'. take n ws = take n zs"
proof (induction n arbitrary: xs ys xs' ys' zs)
  case 0
  then show ?case using shuffles_ex by auto
next
  case (Suc n)
  show ?case
  proof (cases zs)
    case Nil
    with Suc.prems have "xs' = []" "ys' = []" by auto
    with Nil show ?thesis by simp
  next
    case (Cons z zs')
    from Suc.prems(3) [unfolded Cons] show ?thesis
    proof (cases rule: Cons_shufflesE)
      case (1 us)
      from take_Cons_eq [OF Suc.prems(1) 1(1)] obtain us' where us': "xs' = z # us'" "take n us = take n us'" .
      from Suc.IH [OF us'(2) take_less [OF Suc.prems(2)] 1(2)]
      obtain ws where "ws \<in> shuffles us' ys'" "take n ws = take n zs'" by blast
      then show ?thesis by (intro bexI [of _ "z # ws"]) (auto simp: Cons us'(1) intro: Cons_in_shuffles_leftI)
    next
      case (2 us)
      from take_Cons_eq [OF Suc.prems(2) 2(1)] obtain us' where us': "ys' = z # us'" "take n us = take n us'" .
      from Suc.IH [OF take_less [OF Suc.prems(1)] us'(2) 2(2)]
      obtain ws where "ws \<in> shuffles xs' us'" "take n ws = take n zs'" by blast
      then show ?thesis by (intro bexI [of _ "z # ws"]) (auto simp: Cons us'(1) intro: Cons_in_shuffles_rightI)
    qed
  qed
qed

section \<open>Ordered interleavings\<close>

lemma ordered_Cons: "ordered lt (x # xs) \<longleftrightarrow> (\<forall>y \<in> set xs. \<not> lt y x) \<and> ordered lt xs"
  by (simp add: ordered_def)

lemma ordered_filter: "ordered lt xs \<Longrightarrow> ordered lt (filter P xs)"
  by (simp add: ordered_def sorted_wrt_filter)

lemma ordered_take: "ordered lt xs \<Longrightarrow> ordered lt (take n xs)"
  by (simp add: ordered_def sorted_wrt_take)

lemma ordered_Nil [simp]: "ordered lt []"
  by (simp add: ordered_def)

text \<open>An ordered list stays one with a smallest element in front, where the rest is at least one that is.\<close>

lemma ordered_front:
  assumes w: "weak_order_on A lt" and A: "insert a (set ys) \<subseteq> A"
    and b: "b \<in> A" "\<not> lt b a" "\<forall>y \<in> set ys. \<not> lt y b"
  shows "\<forall>y \<in> set ys. \<not> lt y a"
proof
  fix y assume "y \<in> set ys"
  with weak_order_trans [OF w, of a b y] A b show "\<not> lt y a" by auto
qed

text \<open>In an ordered interleaving that starts with an element of the left list, no element is smaller
  than the head of that list.\<close>

lemma ordered_head:
  assumes w: "weak_order_on A lt" and A: "insert a (set xs) \<subseteq> A" "b \<in> A"
    and "ordered lt (a # xs)" "z \<in> insert a (set xs)" "ordered lt (z # zs)" "b \<in> set (z # zs)"
  shows "\<not> lt b a"
proof -
  have z: "z \<in> A" using A(1) assms(5) by blast
  have "\<not> lt z a" using assms(1,2,4,5) weak_order_irrefl [OF w, of a] by (auto simp: ordered_Cons)
  moreover have "\<not> lt b z" using assms(6,7) weak_order_irrefl [OF w z] by (auto simp: ordered_Cons)
  ultimately show ?thesis using weak_order_trans [OF w _ z A(2), of a] A(1) by blast
qed

lemma ordered_merge_Cons:
  assumes w: "weak_order_on A lt" and A: "insert a (set xs) \<subseteq> A" "insert b (set ys) \<subseteq> A"
    and o: "ordered lt (a # xs)" "ordered lt (b # ys)" "ordered lt ws"
    and ws: "ws \<in> shuffles xs (b # ys)" and le: "\<not> lt b a"
  shows "ordered lt (a # ws)"
proof -
  have "\<forall>y \<in> set (b # ys). \<not> lt y a"
    using ordered_front [OF w, of a ys b] A o(2) le by (auto simp: ordered_Cons)
  then show ?thesis using o(1,3) set_shuffles [OF ws] by (auto simp: ordered_Cons)
qed

lemma merge_filter:
  assumes w: "weak_order_on A lt"
  shows "set xs \<union> set ys \<subseteq> A \<Longrightarrow> ordered lt xs \<Longrightarrow> ordered lt ys \<Longrightarrow>
    zs \<in> shuffles (filter P xs) (filter P ys) \<Longrightarrow> ordered lt zs \<Longrightarrow>
    \<exists>ws \<in> shuffles xs ys. ordered lt ws \<and> filter P ws = zs"
proof (induction xs ys arbitrary: zs rule: shuffles.induct)
  case (3 a xs b ys)
  have ab: "insert a (set xs) \<subseteq> A" "insert b (set ys) \<subseteq> A" using "3.prems"(1) by auto
  note o = "3.prems"(2,3)
  have left: ?case if le: "\<not> lt b a" and z: "zs = filter P [a] @ zs'" "zs' \<in> shuffles (filter P xs) (filter P (b # ys))" for zs'
  proof -
    from "3.IH"(1) [of zs'] "3.prems" z obtain ws where ws: "ws \<in> shuffles xs (b # ys)" "ordered lt ws" "filter P ws = zs'"
      by (auto simp: ordered_Cons split: if_splits)
    with ordered_merge_Cons [OF w ab o ws(2,1) le] z(1) show ?thesis by (intro bexI [of _ "a # ws"]) auto
  qed
  have right: ?case if le: "\<not> lt a b" and z: "zs = filter P [b] @ zs'" "zs' \<in> shuffles (filter P (a # xs)) (filter P ys)" for zs'
  proof -
    from "3.IH"(2) [of zs'] "3.prems" z obtain ws where ws: "ws \<in> shuffles (a # xs) ys" "ordered lt ws" "filter P ws = zs'"
      by (auto simp: ordered_Cons split: if_splits)
    with ordered_merge_Cons [OF w ab(2,1) o(2,1) ws(2)] le z(1) show ?thesis
      by (intro bexI [of _ "b # ws"]) (auto simp: shuffles_commutes)
  qed
  consider "\<not> P a" "\<not> lt b a" | "\<not> P b" "\<not> lt a b" | "P a \<or> lt b a" "P b \<or> lt a b" by blast
  then show ?case
  proof cases
    case 1
    then show ?thesis using left [of zs] "3.prems"(4) by simp
  next
    case 2
    then show ?thesis using right [of zs] "3.prems"(4) by simp
  next
    case ab': 3
    have asym: "lt a b \<Longrightarrow> \<not> lt b a" using weak_order_asym [OF w, of a b] ab by blast
    with ab' have "P a \<or> P b" by blast
    then obtain z zs' where zs: "zs = z # zs'" using "3.prems"(4) by (cases zs) auto
    have mem: "set (z # zs') = set (filter P (a # xs)) \<union> set (filter P (b # ys))"
      using set_shuffles [OF "3.prems"(4)] zs by simp
    from "3.prems"(4) [unfolded zs] show ?thesis
    proof (cases rule: Cons_shufflesE)
      case (1 us)
      then have "z \<in> set (filter P (a # xs))" by simp
      then have "z \<in> insert a (set xs)" by (auto split: if_splits)
      with ordered_head [OF w ab(1) _ o(1) this "3.prems"(5) [unfolded zs]] mem ab(2)
      have "P b \<Longrightarrow> \<not> lt b a" by auto
      with ab' asym have "\<not> lt b a" "P a" by blast+
      with left [of zs'] 1 zs show ?thesis by simp
    next
      case (2 us)
      then have "z \<in> set (filter P (b # ys))" by simp
      then have "z \<in> insert b (set ys)" by (auto split: if_splits)
      with ordered_head [OF w ab(2) _ o(2) this "3.prems"(5) [unfolded zs]] mem ab(1)
      have "P a \<Longrightarrow> \<not> lt a b" by auto
      with ab' asym have "\<not> lt a b" "P b" by blast+
      with right [of zs'] 2 zs show ?thesis by simp
    qed
  qed
qed auto

lemma merge_ex:
  assumes "weak_order_on A lt" "set xs \<union> set ys \<subseteq> A" "ordered lt xs" "ordered lt ys"
  shows "\<exists>ws \<in> shuffles xs ys. ordered lt ws"
  using merge_filter [OF assms, of "[]" "\<lambda>x. False"] by auto

lemma ordered_merge_front:
  assumes w: "weak_order_on A lt" and ws: "ws \<in> shuffles us vs" "ordered lt ws"
    and uv: "ordered lt (z # us)" "ordered lt vs" "insert z (set us) \<subseteq> A" "set vs \<subseteq> A"
    and z: "vs \<noteq> [] \<Longrightarrow> \<not> lt (hd vs) z"
  shows "ordered lt (z # ws)"
proof (cases vs)
  case Nil
  with ws uv(1) show ?thesis by (simp add: shuffles_commutes)
next
  case (Cons b vs')
  with ordered_merge_Cons [OF w uv(3) _ uv(1) _ ws(2), of b vs'] ws(1) uv(2,4) z show ?thesis by simp
qed

lemma merge_take:
  assumes w: "weak_order_on A lt"
  shows "take n xs = take n xs' \<Longrightarrow> take n ys = take n ys' \<Longrightarrow> set xs' \<union> set ys' \<subseteq> A \<Longrightarrow>
    ordered lt xs' \<Longrightarrow> ordered lt ys' \<Longrightarrow> zs \<in> shuffles xs ys \<Longrightarrow> ordered lt zs \<Longrightarrow>
    \<exists>ws \<in> shuffles xs' ys'. ordered lt ws \<and> take n ws = take n zs"
proof (induction n arbitrary: xs ys xs' ys' zs)
  case 0
  then show ?case using merge_ex [OF w] by auto
next
  case (Suc n)
  show ?case
  proof (cases zs)
    case Nil
    with Suc.prems have "xs' = []" "ys' = []" by auto
    with Nil show ?thesis by simp
  next
    case (Cons z zs')
    have z: "\<forall>y \<in> set zs'. \<not> lt y z" "ordered lt zs'" using Suc.prems(7) by (auto simp: Cons ordered_Cons)
    have hd: "\<not> lt (hd vs') z" if "take (Suc n) vs = take (Suc n) vs'" "vs' \<noteq> []" "set vs \<subseteq> set zs'" for vs vs'
      using that z(1) by (cases vs; cases vs') auto
    from Suc.prems(6) [unfolded Cons] show ?thesis
    proof (cases rule: Cons_shufflesE)
      case (1 us)
      from take_Cons_eq [OF Suc.prems(1) 1(1)] obtain us' where us': "xs' = z # us'" "take n us = take n us'" .
      from Suc.IH [OF us'(2) take_less [OF Suc.prems(2)] _ _ _ 1(2) z(2)] Suc.prems(3-5) us'(1)
      obtain ws where ws: "ws \<in> shuffles us' ys'" "ordered lt ws" "take n ws = take n zs'" by (auto simp: ordered_Cons)
      have "ordered lt (z # ws)"
        by (rule ordered_merge_front [OF w ws(1,2)])
          (use Suc.prems(2-5) us'(1) hd set_shuffles [OF 1(2)] in auto)
      with ws us'(1) show ?thesis by (intro bexI [of _ "z # ws"]) (auto simp: Cons intro: Cons_in_shuffles_leftI)
    next
      case (2 us)
      from take_Cons_eq [OF Suc.prems(2) 2(1)] obtain us' where us': "ys' = z # us'" "take n us = take n us'" .
      from Suc.IH [OF take_less [OF Suc.prems(1)] us'(2) _ _ _ 2(2) z(2)] Suc.prems(3-5) us'(1)
      obtain ws where ws: "ws \<in> shuffles xs' us'" "ordered lt ws" "take n ws = take n zs'" by (auto simp: ordered_Cons)
      have "ordered lt (z # ws)"
        by (rule ordered_merge_front [OF w ws(1) [unfolded shuffles_commutes [of xs']] ws(2)])
          (use Suc.prems(1,3-5) us'(1) hd set_shuffles [OF 2(2)] in auto)
      with ws us'(1) show ?thesis by (intro bexI [of _ "z # ws"]) (auto simp: Cons intro: Cons_in_shuffles_rightI)
    qed
  qed
qed

text \<open>The dropped rows of a sorted result can be put back.\<close>

lemma sorted_filter:
  assumes w: "weak_order_on A lt" and "set xs \<subseteq> A" "mset zs = mset (filter P xs)" "ordered lt zs"
  shows "\<exists>ws. mset ws = mset xs \<and> ordered lt ws \<and> filter P ws = zs"
proof -
  let ?d = "sort_by lt (filter (\<lambda>x. \<not> P x) xs)"
  have d: "ordered lt ?d" by (rule sort_by_ordered [OF weak_order_subset [OF w]]) (use assms(2) in auto)
  have "set zs = set (filter P xs)" by (rule mset_eq_setD [OF assms(3)])
  then have z: "filter P zs = zs" "filter P ?d = []" by (auto simp: filter_id_conv filter_empty_conv)
  have "\<exists>ws \<in> shuffles zs ?d. ordered lt ws \<and> filter P ws = zs"
    by (rule merge_filter [OF w _ assms(4) d]) (use assms(2,4) z \<open>set zs = _\<close> in auto)
  then obtain ws where ws: "ws \<in> shuffles zs ?d" "ordered lt ws" "filter P ws = zs" by blast
  from mset_shuffles [OF ws(1)] have "mset ws = mset xs" using assms(3) by (simp flip: mset_filter) (simp add: multiset_partition [symmetric])
  with ws show ?thesis by blast
qed

end
