(* ===== verification/Opt_Walk.thy ===== *)
theory Opt_Walk
  imports Rel_Semantics
begin

text \<open>
  The walk of the optimizer's passes over a relation (util/TreeWalker.h: the inputs first, then the
  node's own expressions, then the step of the pass), with what it takes for a step to be sound on
  every relation: a sound step on the node gives a sound pass. The passes on expressions are lifted
  to relations here.
\<close>

section \<open>Replacing the inputs of a node\<close>

fun with_children :: "Relation \<Rightarrow> Relation list \<Rightarrow> Relation" where
  "with_children (ProjectionRelation s ps sch) cs = ProjectionRelation (cs ! 0) ps sch"
| "with_children (AggregateRelation s as sch) cs = AggregateRelation (cs ! 0) as sch"
| "with_children (GroupRelation s as ks sch) cs = GroupRelation (cs ! 0) as ks sch"
| "with_children (LimitRelation s n sch) cs = LimitRelation (cs ! 0) n sch"
| "with_children (FilterRelation s c sch) cs = FilterRelation (cs ! 0) c sch"
| "with_children (SortRelation s es desc sch) cs = SortRelation (cs ! 0) es desc sch"
| "with_children (TopKRelation s es desc n sch) cs = TopKRelation (cs ! 0) es desc n sch"
| "with_children (SemiJoinRelation s m e i sch) cs = SemiJoinRelation (cs ! 0) (cs ! 1) e i sch"
| "with_children (MarkJoinRelation s m e out i sch) cs = MarkJoinRelation (cs ! 0) (cs ! 1) e out i sch"
| "with_children (LeftJoinRelation l r lk rk sch) cs = LeftJoinRelation (cs ! 0) (cs ! 1) lk rk sch"
| "with_children (UnionAllRelation ss sch) cs = UnionAllRelation cs sch"
| "with_children (UnionAllSortedByRelation l r es desc sch) cs = UnionAllSortedByRelation (cs ! 0) (cs ! 1) es desc sch"
| "with_children (MaterializeRelation s sch) cs = MaterializeRelation (cs ! 0) sch"
| "with_children r cs = r"

lemma with_children_schema [simp]: "rel_schema (with_children r cs) = rel_schema r"
  by (cases r) auto

lemma with_children_input [simp]: "is_input (with_children r cs) = is_input r"
  by (cases r) auto

lemma length_1: "length cs = Suc 0 \<longleftrightarrow> (\<exists>a. cs = [a])"
  by (cases cs) auto

lemma length_2: "length cs = Suc (Suc 0) \<longleftrightarrow> (\<exists>a b. cs = [a, b])"
  by (cases cs) (auto simp: length_1)

lemma children_with_children: "length cs = length (children r) \<Longrightarrow> children (with_children r cs) = cs"
  by (cases r) (auto simp: length_1 length_2)

lemma node_wt_with_children:
  "map rel_schema cs = map rel_schema (children r) \<Longrightarrow> node_wt \<Gamma> (with_children r cs) = node_wt \<Gamma> r"
proof (cases r)
  case (UnionAllRelation ss sch)
  assume "map rel_schema cs = map rel_schema (children r)"
  then have "(\<forall>x \<in> set (map rel_schema cs). x = sch) \<longleftrightarrow> (\<forall>x \<in> set (map rel_schema ss). x = sch)"
    by (simp only: UnionAllRelation children.simps)
  then show ?thesis by (simp add: UnionAllRelation)
qed (auto simp: Cons_eq_map_conv map_eq_Cons_conv rel_fields_def schema_of_inj)

lemma node_op_with_children:
  "map rel_schema cs = map rel_schema (children r) \<Longrightarrow> node_op B (with_children r cs) = node_op B r"
  by (cases r) (auto simp: map_eq_Cons_conv rel_fields_def fun_eq_iff)

section \<open>Soundness of a replacement\<close>

definition rel_sound ::
  "build \<Rightarrow> (Relation \<Rightarrow> outcomes) \<Rightarrow> (FieldId \<rightharpoonup> ValueType) \<Rightarrow> Relation \<Rightarrow> Relation \<Rightarrow> bool" where
  "rel_sound B L \<Gamma> r r' \<longleftrightarrow> rel_wt \<Gamma> r' \<and> rel_schema r' = rel_schema r \<and> refines (runs B L r') (runs B L r)"

lemma rel_sound_refl: "rel_wt \<Gamma> r \<Longrightarrow> rel_sound B L \<Gamma> r r"
  by (simp add: rel_sound_def)

lemma rel_sound_trans: "rel_sound B L \<Gamma> a b \<Longrightarrow> rel_sound B L \<Gamma> b c \<Longrightarrow> rel_sound B L \<Gamma> a c"
  by (auto simp: rel_sound_def intro: refines_trans)

lemma rel_wt_node: "rel_wt \<Gamma> r \<longleftrightarrow> node_wt \<Gamma> r \<and> (\<forall>c \<in> set (children r). rel_wt \<Gamma> c)"
  by (simp add: rel_wt.simps [of \<Gamma> r] list_all_iff)

lemma runs_node: "\<not> is_input r \<Longrightarrow> runs B L r = bind_all (map (runs B L) (children r)) (node_op B r)"
  by (simp add: runs.simps [of B L r])

text \<open>The context every pass is proved in: executors that restrict the built ones, typed inputs
  of which each gives some result.\<close>

definition run_ok :: "ext \<Rightarrow> build \<Rightarrow> (Relation \<Rightarrow> outcomes) \<Rightarrow> (FieldId \<rightharpoonup> ValueType) \<Rightarrow> bool" where
  "run_ok X B L \<Gamma> \<longleftrightarrow> restricts X B \<and> inputs_typed \<Gamma> L \<and> (\<forall>r. is_input r \<longrightarrow> L r \<noteq> {})"

lemma run_okD: "run_ok X B L \<Gamma> \<Longrightarrow> restricts X B" "run_ok X B L \<Gamma> \<Longrightarrow> inputs_typed \<Gamma> L"
  "run_ok X B L \<Gamma> \<Longrightarrow> is_input r \<Longrightarrow> L r \<noteq> {}"
  by (simp_all add: run_ok_def)

lemma children_ok:
  assumes "run_ok X B L \<Gamma>" "rel_wt \<Gamma> r"
  shows "list_all2 ok_rows (map (\<lambda>c. row_typed \<Gamma> (rel_fields c)) (children r)) (map (runs B L) (children r))"
  by (rule ok_rows_children)
    (use assms runs_typed [OF run_okD(1,2)] in \<open>auto simp: list_all_iff rel_wt_node [of \<Gamma> r]\<close>)

lemma runs_mono:
  assumes ok: "run_ok X B L \<Gamma>" and wt: "rel_wt \<Gamma> r" and inp: "\<not> is_input r" "\<not> is_input r'"
    and cs: "list_all2 (\<lambda>c' c. refines (runs B L c') (runs B L c)) (children r') (children r)"
    and op: "\<And>xss. rows_of \<Gamma> (children r) xss \<Longrightarrow> refines (node_op B r' xss) (node_op B r xss)"
  shows "refines (runs B L r') (runs B L r)"
  unfolding runs_node [OF inp(1)] runs_node [OF inp(2)]
proof (rule bind_all_mono [OF _ children_ok [OF ok wt]])
  show "list_all2 refines (map (runs B L) (children r')) (map (runs B L) (children r))"
    using cs by (simp add: list_all2_map1 list_all2_map2)
  show "refines (node_op B r' xss) (node_op B r xss)"
    if "list_all2 list_all (map (\<lambda>c. row_typed \<Gamma> (rel_fields c)) (children r)) xss" for xss
    by (rule op) (use that in \<open>simp add: rows_of_def list_all2_map1\<close>)
qed

lemma sound_children:
  assumes ok: "run_ok X B L \<Gamma>" and wt: "rel_wt \<Gamma> r" and cs: "list_all2 (rel_sound B L \<Gamma>) (children r) cs"
  shows "rel_sound B L \<Gamma> r (with_children r cs)"
proof (cases "is_input r")
  case True
  then have "with_children r cs = r" by (cases r) auto
  with wt show ?thesis by (simp add: rel_sound_refl)
next
  case False
  have len: "length cs = length (children r)" using cs by (simp add: list_all2_lengthD)
  have sch: "map rel_schema cs = map rel_schema (children r)"
    using cs by (auto simp: list_all2_conv_all_nth rel_sound_def intro!: nth_equalityI)
  have "\<forall>c \<in> set cs. rel_wt \<Gamma> c" using cs by (auto simp: list_all2_conv_all_nth in_set_conv_nth rel_sound_def)
  with wt have "rel_wt \<Gamma> (with_children r cs)"
    by (simp add: rel_wt_node [of \<Gamma> r] rel_wt_node [of \<Gamma> "with_children r cs"] children_with_children [OF len] node_wt_with_children [OF sch])
  moreover have "refines (runs B L (with_children r cs)) (runs B L r)"
  proof (rule runs_mono [OF ok wt False])
    show "list_all2 (\<lambda>c' c. refines (runs B L c') (runs B L c)) (children (with_children r cs)) (children r)"
      using cs unfolding children_with_children [OF len] list_all2_conv_all_nth rel_sound_def by simp
  qed (simp_all add: False node_op_with_children [OF sch])
  ultimately show ?thesis by (simp add: rel_sound_def)
qed

text \<open>A node over the same inputs, whose operation refines the one it replaces.\<close>

lemma sound_node:
  assumes ok: "run_ok X B L \<Gamma>" and wt: "rel_wt \<Gamma> r" and inp: "\<not> is_input r" "\<not> is_input r'"
    and "children r' = children r" "node_wt \<Gamma> r'" "rel_schema r' = rel_schema r"
    and op: "\<And>xss. rows_of \<Gamma> (children r) xss \<Longrightarrow> refines (node_op B r' xss) (node_op B r xss)"
  shows "rel_sound B L \<Gamma> r r'"
proof -
  have "refines (runs B L r') (runs B L r)"
    by (rule runs_mono [OF ok wt inp _ op]) (simp_all add: assms(5) list.rel_refl)
  then show ?thesis using assms(2,5-7) by (simp add: rel_sound_def rel_wt_node [of \<Gamma> r] rel_wt_node [of \<Gamma> r'])
qed

section \<open>The walk\<close>

function rel_walk :: "Relation pass \<Rightarrow> Relation pass" where
  "rel_walk step r =
     then_step step (rbind (walk_list (rel_walk step) (children r)) (\<lambda>(b, cs). Inr (b, with_children r cs)))"
  by pat_completeness auto

termination rel_walk
  by (relation "measure (\<lambda>(step, r). size r)") (auto simp: children_size)

declare rel_walk.simps [simp del]

text \<open>A predicate on relations that holds of a relation if of its node and of its inputs.\<close>

function rel_all :: "(Relation \<Rightarrow> bool) \<Rightarrow> Relation \<Rightarrow> bool" where
  "rel_all N r = (N r \<and> list_all (rel_all N) (children r))"
  by pat_completeness auto

termination rel_all
  by (relation "measure (\<lambda>(N, r). size r)") (auto simp: children_size)

declare rel_all.simps [simp del]

lemma rel_all_node: "rel_all N r \<longleftrightarrow> N r \<and> (\<forall>c \<in> set (children r). rel_all N c)"
  by (simp add: rel_all.simps [of N r] list_all_iff)

definition node_local :: "(Relation \<Rightarrow> bool) \<Rightarrow> bool" where
  "node_local N \<longleftrightarrow> (\<forall>r cs. N (with_children r cs) = N r)"

lemma rel_walk_sound:
  assumes ok: "run_ok X B L \<Gamma>" and loc: "node_local N"
    and step: "\<And>r b r'. rel_wt \<Gamma> r \<Longrightarrow> rel_all N r \<Longrightarrow> step r = Inr (b, r') \<Longrightarrow> rel_sound B L \<Gamma> r r' \<and> rel_all N r'"
  shows "rel_wt \<Gamma> r \<Longrightarrow> rel_all N r \<Longrightarrow> rel_walk step r = Inr (b, r') \<Longrightarrow> rel_sound B L \<Gamma> r r' \<and> rel_all N r'"
proof (induction r arbitrary: b r' rule: measure_induct_rule [of size])
  case (less r)
  from less.prems(3) obtain c cs d where w: "walk_list (rel_walk step) (children r) = Inr (c, cs)"
    and st: "step (with_children r cs) = Inr (d, r')"
    by (auto simp: rel_walk.simps [of step r] then_step_def)
  have "list_all2 (\<lambda>a b. rel_sound B L \<Gamma> a b \<and> rel_all N b) (children r) cs"
  proof (rule list.rel_mono_strong [OF walk_list_all2 [OF w]])
    fix a b assume a: "a \<in> set (children r)" and "\<exists>c. rel_walk step a = Inr (c, b)"
    moreover have "rel_wt \<Gamma> a" "rel_all N a"
      using less.prems(1,2) a by (auto simp: rel_wt_node [of \<Gamma> r] rel_all_node [of N r])
    ultimately show "rel_sound B L \<Gamma> a b \<and> rel_all N b"
      using less.IH [OF children_size] by blast
  qed
  then have cs: "list_all2 (rel_sound B L \<Gamma>) (children r) cs" "\<forall>c \<in> set cs. rel_all N c"
    by (auto simp: list_all2_conv_all_nth in_set_conv_nth)
  from sound_children [OF ok less.prems(1) cs(1)] have s: "rel_sound B L \<Gamma> r (with_children r cs)" .
  have "N (with_children r cs)" using loc less.prems(2) by (simp add: node_local_def rel_all_node [of N r])
  then have "rel_all N (with_children r cs)"
    using cs by (simp add: rel_all_node [of N "with_children r cs"] children_with_children list_all2_lengthD)
  with s step [OF _ _ st] show ?case by (auto simp: rel_sound_def intro: refines_trans)
qed


section \<open>At least as defined\<close>

text \<open>\<open>m'\<close> gives the result of \<open>m\<close> where \<open>m\<close> gives one.\<close>

definition rle :: "'a res \<Rightarrow> 'a res \<Rightarrow> bool" where
  "rle m m' \<longleftrightarrow> (\<forall>x. m = Inr x \<longrightarrow> m' = Inr x)"

named_theorems rle_intros

lemma rle_refl [rle_intros, simp]: "rle m m"
  by (simp add: rle_def)

lemma rleD: "rle m m' \<Longrightarrow> m = Inr x \<Longrightarrow> m' = Inr x"
  by (simp add: rle_def)

lemma rle_bind [rle_intros]: "rle m m' \<Longrightarrow> (\<And>x. m = Inr x \<Longrightarrow> rle (f x) (f' x)) \<Longrightarrow> rle (rbind m f) (rbind m' f')"
  by (auto simp: rle_def)

lemma rle_rmap2: "list_all2 (\<lambda>a b. rle (f a) (g b)) as bs \<Longrightarrow> rle (rmap f as) (rmap g bs)"
  by (induction rule: list_all2_induct) (auto simp: rle_def)

lemma rle_rmap [rle_intros]: "(\<And>x. x \<in> set xs \<Longrightarrow> rle (f x) (g x)) \<Longrightarrow> rle (rmap f xs) (rmap g xs)"
  by (rule rle_rmap2) (simp add: list_all2_same)

lemma rle_rfilter [rle_intros]: "(\<And>x. x \<in> set xs \<Longrightarrow> rle (p x) (q x)) \<Longrightarrow> rle (rfilter p xs) (rfilter q xs)"
proof (induction xs)
  case (Cons x xs)
  show ?case unfolding rfilter.simps by (intro rle_intros) (use Cons in auto)
qed simp

lemma refines_det: "refines {m'} {m} \<longleftrightarrow> rle m m'"
  by (cases m) (auto simp: refines_def fault_free_def rle_def)

lemma refines_any_order: "rle m m' \<Longrightarrow> refines (any_order m') (any_order m)"
  by (cases m) (auto simp: rle_def any_order_def refines_def fault_free_def)

section \<open>Sound expressions on typed rows\<close>

lemma row_eval_rle: "scalar_sound B \<Gamma> e e' \<Longrightarrow> row_typed \<Gamma> F r \<Longrightarrow> rle (row_eval B e r) (row_eval B e' r)"
  by (auto simp: rle_def row_eval_def scalar_sound_def dest: row_typed_env)

lemma row_key_rle:
  "list_all2 (scalar_sound B \<Gamma>) es es' \<Longrightarrow> row_typed \<Gamma> F r \<Longrightarrow> rle (row_key B es r) (row_key B es' r)"
  unfolding row_key_def
  by (rule rle_rmap2, erule list.rel_mono_strong) (blast intro: row_eval_rle)

lemma with_keys_rle:
  "list_all2 (scalar_sound B \<Gamma>) es es' \<Longrightarrow> list_all (row_typed \<Gamma> F) rs \<Longrightarrow> rle (with_keys B es rs) (with_keys B es' rs)"
  unfolding with_keys_def by (intro rle_intros row_key_rle) (auto simp: list_all_iff)

lemma keyed_rle:
  "list_all2 (scalar_sound B \<Gamma>) es es' \<Longrightarrow> list_all (row_typed \<Gamma> F) rs \<Longrightarrow> rle (keyed B es rs) (keyed B es' rs)"
  unfolding keyed_def by (intro rle_intros with_keys_rle)

lemma sorted_refines:
  "rle (keyed B es rs) (keyed B es' rs) \<Longrightarrow> refines (sorted_outcomes B es' desc rs) (sorted_outcomes B es desc rs)"
  by (cases "keyed B es rs") (auto simp: sorted_outcomes_def rle_def refines_def fault_free_def)

lemma merged_refines:
  assumes "rle (keyed B es xs) (keyed B es' xs)" "rle (keyed B es ys) (keyed B es' ys)"
  shows "refines (merged_outcomes B es' desc xs ys) (merged_outcomes B es desc xs ys)"
  using assms
  by (cases "keyed B es xs"; cases "keyed B es ys")
    (auto simp: merged_outcomes_def rle_def refines_def fault_free_def)

lemma agg_node_rle:
  assumes "list_all2 (scalar_sound B \<Gamma>) as bs" "list_all (row_typed \<Gamma> F) rs"
  shows "rle (agg_node_eval B (FnCallAggregate f as) rs) (agg_node_eval B (FnCallAggregate f bs) rs)"
  unfolding agg_node_eval.simps
proof (intro rle_intros)
  fix g
  show "rle (case g of NullaryAggregate a \<Rightarrow> verify (as = []) (rbind (feed_times (length rs) a) get)
     | UnaryAggregate a \<Rightarrow> verify (length as = 1)
         (rbind (rmap (row_eval B (as ! 0)) rs) (\<lambda>vs. rbind (feed_all a vs) get)))
    (case g of NullaryAggregate a \<Rightarrow> verify (bs = []) (rbind (feed_times (length rs) a) get)
     | UnaryAggregate a \<Rightarrow> verify (length bs = 1)
         (rbind (rmap (row_eval B (bs ! 0)) rs) (\<lambda>vs. rbind (feed_all a vs) get)))"
  proof (cases g)
    case (UnaryAggregate a)
    show ?thesis
    proof (cases "length as = 1")
      case True
      with assms(1) have l: "length bs = 1" "scalar_sound B \<Gamma> (as ! 0) (bs ! 0)"
        by (auto simp: list_all2_conv_all_nth)
      have "rle (rbind (rmap (row_eval B (as ! 0)) rs) (\<lambda>vs. rbind (feed_all a vs) get))
        (rbind (rmap (row_eval B (bs ! 0)) rs) (\<lambda>vs. rbind (feed_all a vs) get))"
        by (intro rle_intros row_eval_rle [OF l(2)]) (use assms(2) in \<open>auto simp: list_all_iff\<close>)
      then show ?thesis by (simp add: UnaryAggregate True l(1))
    qed (simp add: UnaryAggregate rle_def)
  qed (use assms(1) in \<open>auto simp: list_all2_conv_all_nth rle_def\<close>)
qed


section \<open>The expressions of a node\<close>

definition agg_args :: "Aggregate \<Rightarrow> Scalar list" where
  "agg_args a = (case agg_node a of FnCallAggregate f as \<Rightarrow> as | ConstAggregate v n \<Rightarrow> [])"

definition set_args :: "Aggregate \<Rightarrow> Scalar list \<Rightarrow> Aggregate" where
  "set_args a es = a\<lparr>agg_node := (case agg_node a of
     FnCallAggregate f as \<Rightarrow> FnCallAggregate f es | ConstAggregate v n \<Rightarrow> ConstAggregate v n)\<rparr>"

definition aggs_args :: "Aggregate list \<Rightarrow> Scalar list" where
  "aggs_args as = concat (map agg_args as)"

fun set_aggs :: "Aggregate list \<Rightarrow> Scalar list \<Rightarrow> Aggregate list" where
  "set_aggs [] es = []"
| "set_aggs (a # as) es =
     (let n = length (agg_args a) in set_args a (take n es) # set_aggs as (drop n es))"

definition set_exprs :: "Projector list \<Rightarrow> Scalar list \<Rightarrow> Projector list" where
  "set_exprs ps es = map2 (\<lambda>p e. p\<lparr>expr := e\<rparr>) ps es"

fun own_scalars :: "Relation \<Rightarrow> Scalar list" where
  "own_scalars (ProjectionRelation s ps sch) = map expr ps"
| "own_scalars (AggregateRelation s as sch) = aggs_args as"
| "own_scalars (GroupRelation s as ks sch) = aggs_args as @ map expr ks"
| "own_scalars (FilterRelation s c sch) = [c]"
| "own_scalars (SortRelation s es desc sch) = es"
| "own_scalars (TopKRelation s es desc n sch) = es"
| "own_scalars (SemiJoinRelation s m e i sch) = [e]"
| "own_scalars (MarkJoinRelation s m e out i sch) = [e]"
| "own_scalars (LeftJoinRelation l r lk rk sch) = [lk, rk]"
| "own_scalars (UnionAllSortedByRelation l r es desc sch) = es"
| "own_scalars _ = []"

fun set_scalars :: "Relation \<Rightarrow> Scalar list \<Rightarrow> Relation" where
  "set_scalars (ProjectionRelation s ps sch) es = ProjectionRelation s (set_exprs ps es) sch"
| "set_scalars (AggregateRelation s as sch) es = AggregateRelation s (set_aggs as es) sch"
| "set_scalars (GroupRelation s as ks sch) es =
     (let n = length (aggs_args as) in GroupRelation s (set_aggs as (take n es)) (set_exprs ks (drop n es)) sch)"
| "set_scalars (FilterRelation s c sch) es = FilterRelation s (es ! 0) sch"
| "set_scalars (SortRelation s xs desc sch) es = SortRelation s es desc sch"
| "set_scalars (TopKRelation s xs desc n sch) es = TopKRelation s es desc n sch"
| "set_scalars (SemiJoinRelation s m e i sch) es = SemiJoinRelation s m (es ! 0) i sch"
| "set_scalars (MarkJoinRelation s m e out i sch) es = MarkJoinRelation s m (es ! 0) out i sch"
| "set_scalars (LeftJoinRelation l r lk rk sch) es = LeftJoinRelation l r (es ! 0) (es ! 1) sch"
| "set_scalars (UnionAllSortedByRelation l r xs desc sch) es = UnionAllSortedByRelation l r es desc sch"
| "set_scalars r es = r"

text \<open>A pass on expressions, on those of a node and on those of a whole relation.\<close>

definition node_scalars :: "Scalar pass \<Rightarrow> Relation pass" where
  "node_scalars f r = rbind (walk_list f (own_scalars r)) (\<lambda>(b, es). Inr (b, set_scalars r es))"

definition scalar_pass :: "Scalar pass \<Rightarrow> Relation pass" where
  "scalar_pass f = rel_walk (node_scalars f)"

lemma own_scalars_with_children [simp]: "own_scalars (with_children r cs) = own_scalars r"
  by (cases r) auto

lemma set_scalars_basic [simp]:
  "children (set_scalars r es) = children r" "rel_schema (set_scalars r es) = rel_schema r"
  "is_input (set_scalars r es) = is_input r"
  by (cases r; simp add: Let_def)+

definition agg_rel :: "(Scalar \<Rightarrow> Scalar \<Rightarrow> bool) \<Rightarrow> Aggregate \<Rightarrow> Aggregate \<Rightarrow> bool" where
  "agg_rel S a b \<longleftrightarrow> (\<exists>es. b = set_args a es \<and> list_all2 S (agg_args a) es)"

lemma set_aggs_rel:
  "list_all2 S (aggs_args as) es \<Longrightarrow> list_all2 (agg_rel S) as (set_aggs as es)"
proof (induction as arbitrary: es)
  case (Cons a as)
  then obtain us vs where "es = us @ vs" "list_all2 S (agg_args a) us" "list_all2 S (aggs_args as) vs"
    by (auto simp: aggs_args_def list_all2_append1)
  with Cons.IH show ?case by (auto simp: Let_def agg_rel_def list_all2_lengthD)
qed simp

lemma own_set_aggs: "length es = length (aggs_args as) \<Longrightarrow> aggs_args (set_aggs as es) = es"
proof (induction as arbitrary: es)
  case (Cons a as)
  then have "agg_args (set_args a (take (length (agg_args a)) es)) = take (length (agg_args a)) es"
    by (auto simp: agg_args_def set_args_def split: AggregateNode.splits)
  with Cons show ?case by (simp add: aggs_args_def Let_def)
qed (simp add: aggs_args_def)

lemma set_exprs_exprs [simp]: "length es = length ps \<Longrightarrow> map expr (set_exprs ps es) = es"
  by (induction ps es rule: list_induct2') (auto simp: set_exprs_def)

lemma set_exprs_aliases [simp]: "length es = length ps \<Longrightarrow> map alias_field_id (set_exprs ps es) = map alias_field_id ps"
  by (induction ps es rule: list_induct2') (auto simp: set_exprs_def)

lemma own_set_scalars: "length es = length (own_scalars r) \<Longrightarrow> own_scalars (set_scalars r es) = es"
  by (cases r) (auto simp: own_set_aggs Let_def length_1 length_2)

section \<open>Sound expressions make a sound node\<close>

lemma exprs_sound_ok:
  assumes "list_all2 (scalar_sound B \<Gamma>) es es'" "exprs_ok \<Gamma> F es"
  shows "exprs_ok \<Gamma> F es'"
  using assms by (fastforce simp: exprs_ok_def list_all2_conv_all_nth in_set_conv_nth scalar_sound_def)

lemma projs_sound_ok:
  assumes "list_all2 (scalar_sound B \<Gamma>) (map expr ps) es" "projs_ok \<Gamma> F ps"
  shows "projs_ok \<Gamma> F (set_exprs ps es)"
proof -
  have len: "length es = length ps" using list_all2_lengthD [OF assms(1)] by simp
  have "exprs_ok \<Gamma> F (map expr (set_exprs ps es))"
    using exprs_sound_ok [OF assms(1)] assms(2) by (simp add: projs_ok_def len)
  moreover have "\<exists>t. \<Gamma> (alias_field_id p) = Some t \<and> fits (value_type (expr p)) t" if "p \<in> set (set_exprs ps es)" for p
  proof -
    from that obtain i where i: "i < length ps" "p = (ps ! i)\<lparr>expr := es ! i\<rparr>"
      by (auto simp: set_exprs_def in_set_conv_nth len)
    from assms(2) i(1) obtain t where "\<Gamma> (alias_field_id (ps ! i)) = Some t" "fits (value_type (expr (ps ! i))) t"
      using nth_mem [OF i(1)] unfolding projs_ok_def by blast
    moreover from assms(1) i(1) have "fits (value_type (es ! i)) (value_type (expr (ps ! i)))"
      by (auto simp: list_all2_conv_all_nth scalar_sound_def)
    ultimately show ?thesis using i(2) by (auto intro: fits_trans)
  qed
  ultimately show ?thesis by (simp add: projs_ok_def)
qed

lemma agg_fn_wt_fits: "agg_fn_wt f us t \<Longrightarrow> list_all2 fits vs us \<Longrightarrow> agg_fn_wt f vs t"
  by (cases f) (auto dest: list_all2_lengthD intro: fits_list_trans)

lemma agg_rel_ok:
  assumes "agg_rel (scalar_sound B \<Gamma>) a b" "agg_node_wt \<Gamma> F (agg_node a) t"
  shows "agg_node_wt \<Gamma> F (agg_node b) t"
proof (cases "agg_node a")
  case (FnCallAggregate f as)
  with assms(1) obtain es where b: "agg_node b = FnCallAggregate f es" and es: "list_all2 (scalar_sound B \<Gamma>) as es"
    by (auto simp: agg_rel_def set_args_def agg_args_def)
  have "list_all2 fits (map value_type es) (map value_type as)" by (rule sound_args(2) [OF es])
  with assms(2) exprs_sound_ok [OF es] show ?thesis by (auto simp: FnCallAggregate b intro: agg_fn_wt_fits)
qed (use assms in \<open>auto simp: agg_rel_def set_args_def\<close>)

lemma agg_rel_ids: "agg_rel S a b \<Longrightarrow> output_field_id b = output_field_id a \<and> agg_type b = agg_type a"
  by (auto simp: agg_rel_def set_args_def)

lemma aggs_rel_ids: "list_all2 (agg_rel S) as bs \<Longrightarrow> map output_field_id bs = map output_field_id as"
  by (induction rule: list_all2_induct) (auto dest: agg_rel_ids)

lemma aggs_rel_ok:
  assumes "list_all2 (agg_rel (scalar_sound B \<Gamma>)) as bs" "aggs_ok \<Gamma> F as"
  shows "aggs_ok \<Gamma> F bs"
  using assms
proof (induction rule: list_all2_induct)
  case (Cons a as b bs)
  from Cons.prems have "agg_node_wt \<Gamma> F (agg_node a) (agg_type a)" "aggs_ok \<Gamma> F as" by (simp_all add: aggs_ok_def)
  from agg_rel_ok [OF Cons.hyps(1) this(1)] Cons.IH [OF this(2)] agg_rel_ids [OF Cons.hyps(1)] Cons.prems
  show ?case by (simp add: aggs_ok_def)
qed simp

lemma agg_row_rle:
  assumes "list_all2 (agg_rel (scalar_sound B \<Gamma>)) as bs" "list_all (row_typed \<Gamma> F) rs"
  shows "rle (agg_row B as rs) (agg_row B bs rs)"
  unfolding agg_row_def aggs_rel_ids [OF assms(1)]
proof (intro rle_bind rle_rmap2 rle_refl list.rel_mono_strong [OF assms(1)])
  fix a b assume ab: "agg_rel (scalar_sound B \<Gamma>) a b"
  show "rle (agg_node_eval B (agg_node a) rs) (agg_node_eval B (agg_node b) rs)"
  proof (cases "agg_node a")
    case (FnCallAggregate f xs)
    with ab agg_node_rle [OF _ assms(2)] show ?thesis by (auto simp: agg_rel_def set_args_def agg_args_def)
  qed (use ab in \<open>auto simp: agg_rel_def set_args_def\<close>)
qed


lemma exprs_ok_pair: "exprs_ok \<Gamma> F [a] \<longleftrightarrow> scalar_wt \<Gamma> a \<and> scalar_fields a \<subseteq> F"
  by (simp add: exprs_ok_def)

lemma scalar_sound_ok: "scalar_sound B \<Gamma> a b \<Longrightarrow> exprs_ok \<Gamma> F [a] \<Longrightarrow> exprs_ok \<Gamma> F [b]"
  by (auto simp: exprs_ok_def scalar_sound_def)

lemma group_split:
  assumes "list_all2 S (aggs_args as @ map expr ks) es"
  obtains us vs where "es = us @ vs" "length us = length (aggs_args as)" "length vs = length ks"
    "list_all2 S (aggs_args as) us" "list_all2 S (map expr ks) vs"
  using assms by (auto simp: list_all2_append1 dest: list_all2_lengthD)

lemma set_scalars_wt:
  assumes "list_all2 (scalar_sound B \<Gamma>) (own_scalars r) es" "node_wt \<Gamma> r"
  shows "node_wt \<Gamma> (set_scalars r es)"
proof (cases r)
  case (ProjectionRelation s ps sch)
  with assms show ?thesis using projs_sound_ok [of B \<Gamma> ps es] by (auto dest: list_all2_lengthD)
next
  case (AggregateRelation s as sch)
  with assms(1) have g: "list_all2 (agg_rel (scalar_sound B \<Gamma>)) as (set_aggs as es)"
    by (intro set_aggs_rel) simp
  show ?thesis using assms(2) aggs_rel_ok [OF g] by (simp add: AggregateRelation aggs_rel_ids [OF g])
next
  case (GroupRelation s as ks sch)
  with assms(1) obtain us vs where es: "es = us @ vs" "length us = length (aggs_args as)" "length vs = length ks"
    "list_all2 (scalar_sound B \<Gamma>) (aggs_args as) us" "list_all2 (scalar_sound B \<Gamma>) (map expr ks) vs"
    by (auto elim: group_split)
  note g = set_aggs_rel [OF es(4)]
  show ?thesis using assms(2) projs_sound_ok [OF es(5)] aggs_rel_ok [OF g] es(1-3)
    by (auto simp: GroupRelation Let_def aggs_rel_ids [OF g])
next
  case (FilterRelation s c sch)
  with assms show ?thesis
    by (auto simp: list_all2_Cons1 scalar_sound_def intro: scalar_sound_ok fits_trans)
next
  case (SortRelation s xs desc sch)
  with assms show ?thesis by (auto intro: exprs_sound_ok)
next
  case (TopKRelation s xs desc n sch)
  with assms show ?thesis by (auto intro: exprs_sound_ok)
next
  case (SemiJoinRelation s m e i sch)
  with assms show ?thesis by (auto simp: list_all2_Cons1 intro: scalar_sound_ok)
next
  case (MarkJoinRelation s m e out i sch)
  with assms show ?thesis by (auto simp: list_all2_Cons1 intro: scalar_sound_ok)
next
  case (LeftJoinRelation l q lk rk sch)
  with assms show ?thesis by (auto simp: list_all2_Cons1 intro: scalar_sound_ok)
next
  case (UnionAllSortedByRelation l q xs desc sch)
  with assms show ?thesis by (auto intro: exprs_sound_ok)
qed (use assms in auto)

lemma project_rle:
  assumes "list_all2 (scalar_sound B \<Gamma>) (map expr ps) es" "row_typed \<Gamma> F r"
  shows "rle (project B ps r) (project B (set_exprs ps es) r)"
  unfolding project_def
  by (intro rle_bind) (use row_key_rle [OF assms] list_all2_lengthD [OF assms(1)] in simp_all)

lemma group_rows_rle:
  assumes "list_all2 (agg_rel (scalar_sound B \<Gamma>)) as bs" "list_all2 (scalar_sound B \<Gamma>) (map expr ks) es"
    and rs: "list_all (row_typed \<Gamma> F) rs"
  shows "rle (group_rows B as ks rs) (group_rows B bs (set_exprs ks es) rs)"
proof -
  have len: "length es = length ks" using list_all2_lengthD [OF assms(2)] by simp
  have mem: "list_all (\<lambda>(k, rs'). list_all (row_typed \<Gamma> F) rs') (group_all gs krs)"
    if "list_all (\<lambda>(k, r). row_typed \<Gamma> F r) krs" "list_all (\<lambda>(k, rs'). list_all (row_typed \<Gamma> F) rs') gs" for gs krs
  proof -
    have push: "list_all (\<lambda>(k, rs'). list_all (row_typed \<Gamma> F) rs') (group_push gs k r)"
      if "row_typed \<Gamma> F r" "list_all (\<lambda>(k, rs'). list_all (row_typed \<Gamma> F) rs') gs" for gs k r
      using that by (induction gs k r rule: group_push.induct) auto
    from that show ?thesis by (induction gs krs rule: group_all.induct) (auto intro: push)
  qed
  show ?thesis
    unfolding group_rows_def set_exprs_exprs [OF len] set_exprs_aliases [OF len]
  proof (intro rle_bind rle_rmap with_keys_rle [OF assms(2) rs])
    fix krs g assume krs: "with_keys B (map expr ks) rs = Inr krs" and g: "g \<in> set (group_all [] krs)"
    have "list_all (\<lambda>(k, r). row_typed \<Gamma> F r) krs" using with_keys_key [OF krs] rs by (auto simp: list_all_iff)
    from mem [OF this, of "[]"] g have "list_all (row_typed \<Gamma> F) (snd g)" by (auto simp: list_all_iff)
    from agg_row_rle [OF assms(1) this]
    show "rle (group_row B as (map alias_field_id ks) g) (group_row B bs (map alias_field_id ks) g)"
      unfolding group_row_def by (intro rle_intros)
  qed
qed

lemma set_scalars_op:
  assumes es: "list_all2 (scalar_sound B \<Gamma>) (own_scalars r) es" and xss: "rows_of \<Gamma> (children r) xss"
  shows "refines (node_op B (set_scalars r es) xss) (node_op B r xss)"
proof (cases r)
  case (ProjectionRelation s ps sch)
  with xss obtain xs where x: "xss = [xs]" "list_all (row_typed \<Gamma> (rel_fields s)) xs" by auto
  have "rle (rmap (project B ps) xs) (rmap (project B (set_exprs ps es)) xs)"
    by (intro rle_rmap project_rle) (use es x ProjectionRelation in \<open>auto simp: list_all_iff\<close>)
  then show ?thesis by (simp add: ProjectionRelation x(1) refines_det)
next
  case (AggregateRelation s as sch)
  with xss obtain xs where x: "xss = [xs]" "list_all (row_typed \<Gamma> (rel_fields s)) xs" by auto
  have "rle (rbind (agg_row B as xs) (\<lambda>r. Inr [r])) (rbind (agg_row B (set_aggs as es) xs) (\<lambda>r. Inr [r]))"
    by (intro rle_bind agg_row_rle [OF set_aggs_rel x(2)] rle_refl) (use es AggregateRelation in simp)
  then show ?thesis by (simp add: AggregateRelation x(1) refines_det)
next
  case (GroupRelation s as ks sch)
  with es obtain us vs where e: "es = us @ vs" "length us = length (aggs_args as)"
    "list_all2 (scalar_sound B \<Gamma>) (aggs_args as) us" "list_all2 (scalar_sound B \<Gamma>) (map expr ks) vs"
    by (auto elim: group_split)
  from xss GroupRelation obtain xs where x: "xss = [xs]" "list_all (row_typed \<Gamma> (rel_fields s)) xs" by auto
  from refines_any_order [OF group_rows_rle [OF set_aggs_rel [OF e(3)] e(4) x(2)]]
  show ?thesis by (simp add: GroupRelation x(1) e(1,2) Let_def)
next
  case (FilterRelation s c sch)
  with xss es obtain xs c' where x: "xss = [xs]" "list_all (row_typed \<Gamma> (rel_fields s)) xs"
    "es = [c']" "scalar_sound B \<Gamma> c c'" by (auto simp: list_all2_Cons1)
  have "rle (rfilter (row_holds B c) xs) (rfilter (row_holds B c') xs)"
    unfolding row_holds_def by (intro rle_intros row_eval_rle [OF x(4)]) (use x(2) in \<open>auto simp: list_all_iff\<close>)
  then show ?thesis by (simp add: FilterRelation x refines_det)
next
  case (SortRelation s xs desc sch)
  with xss es show ?thesis by (auto intro!: sorted_refines keyed_rle)
next
  case (TopKRelation s xs desc n sch)
  with xss es show ?thesis by (auto intro!: bindo_mono sorted_refines keyed_rle)
next
  case (SemiJoinRelation s m e i sch)
  with xss es obtain xs ms e' where x: "xss = [xs, ms]" "list_all (row_typed \<Gamma> (rel_fields s)) xs"
    "es = [e']" "scalar_sound B \<Gamma> e e'" by (auto simp: list_all2_Cons1)
  have "rle (semi_rows B e i xs ms) (semi_rows B e' i xs ms)"
    unfolding semi_rows_def by (intro rle_intros row_eval_rle [OF x(4)]) (use x(2) in \<open>auto simp: list_all_iff\<close>)
  then show ?thesis by (simp add: SemiJoinRelation x refines_det)
next
  case (MarkJoinRelation s m e out i sch)
  with xss es obtain xs ms e' where x: "xss = [xs, ms]" "list_all (row_typed \<Gamma> (rel_fields s)) xs"
    "es = [e']" "scalar_sound B \<Gamma> e e'" by (auto simp: list_all2_Cons1)
  have "rle (mark_rows B e out i xs ms) (mark_rows B e' out i xs ms)"
    unfolding mark_rows_def by (intro rle_intros row_eval_rle [OF x(4)]) (use x(2) in \<open>auto simp: list_all_iff\<close>)
  then show ?thesis by (simp add: MarkJoinRelation x refines_det)
next
  case (LeftJoinRelation l q lk rk sch)
  with xss es obtain xs ys lk' rk' where x: "xss = [xs, ys]" "list_all (row_typed \<Gamma> (rel_fields l)) xs"
    "list_all (row_typed \<Gamma> (rel_fields q)) ys" "es = [lk', rk']" "scalar_sound B \<Gamma> lk lk'" "scalar_sound B \<Gamma> rk rk'"
    by (auto simp: list_all2_Cons1)
  have "rle (left_join_rows B lk rk (rel_fields q) xs ys) (left_join_rows B lk' rk' (rel_fields q) xs ys)"
    unfolding left_join_rows_def by (intro rle_intros row_eval_rle [OF x(5)] row_eval_rle [OF x(6)])
      (use x(2,3) in \<open>auto simp: list_all_iff\<close>)
  then show ?thesis by (simp add: LeftJoinRelation x refines_det)
next
  case (UnionAllSortedByRelation l q xs desc sch)
  with xss es show ?thesis by (auto intro!: merged_refines keyed_rle)
qed auto

lemma set_scalars_sound:
  assumes ok: "run_ok X B L \<Gamma>" and wt: "rel_wt \<Gamma> r" and es: "list_all2 (scalar_sound B \<Gamma>) (own_scalars r) es"
  shows "rel_sound B L \<Gamma> r (set_scalars r es)"
proof (cases "is_input r")
  case True
  then have "set_scalars r es = r" by (cases r) auto
  with wt show ?thesis by (simp add: rel_sound_refl)
next
  case False
  show ?thesis
    by (rule sound_node [OF ok wt False])
      (use wt es False set_scalars_wt [OF es] set_scalars_op [OF es] in \<open>auto simp: rel_wt_node [of \<Gamma> r]\<close>)
qed


lemma walk_scalars:
  assumes w: "walk_list f es = Inr (b, es')" and "\<forall>e \<in> set es. scalar_wt \<Gamma> e \<and> P e"
    and f: "\<And>e b e'. scalar_wt \<Gamma> e \<Longrightarrow> P e \<Longrightarrow> f e = Inr (b, e') \<Longrightarrow> scalar_sound B \<Gamma> e e' \<and> Q e'"
  shows "list_all2 (scalar_sound B \<Gamma>) es es' \<and> (\<forall>e \<in> set es'. Q e)"
proof -
  have "list_all2 (\<lambda>e e'. scalar_sound B \<Gamma> e e' \<and> Q e') es es'"
    by (rule list.rel_mono_strong [OF walk_list_all2 [OF w]]) (use assms(2) f in blast)
  then show ?thesis by (auto simp: list_all2_conv_all_nth in_set_conv_nth)
qed

lemma own_scalars_wt: "node_wt \<Gamma> r \<Longrightarrow> e \<in> set (own_scalars r) \<Longrightarrow> scalar_wt \<Gamma> e"
proof -
  have agg: "scalar_wt \<Gamma> e" if "aggs_ok \<Gamma> F as" "e \<in> set (aggs_args as)" for F as
  proof -
    from that(2) obtain a where a: "a \<in> set as" "e \<in> set (agg_args a)" by (auto simp: aggs_args_def)
    with that(1) have "agg_node_wt \<Gamma> F (agg_node a) (agg_type a)" by (simp add: aggs_ok_def)
    with a(2) show ?thesis by (cases "agg_node a") (auto simp: agg_args_def exprs_ok_def)
  qed
  show "node_wt \<Gamma> r \<Longrightarrow> e \<in> set (own_scalars r) \<Longrightarrow> scalar_wt \<Gamma> e"
    by (cases r) (auto simp: projs_ok_def exprs_ok_def dest: agg)
qed

definition all_scalars :: "(Scalar \<Rightarrow> bool) \<Rightarrow> Relation \<Rightarrow> bool" where
  "all_scalars P r = (\<forall>e \<in> set (own_scalars r). P e)"

lemma all_scalars_local: "node_local (all_scalars P)"
  by (simp add: node_local_def all_scalars_def)

lemma true_local: "node_local (\<lambda>r. True)"
  by (simp add: node_local_def)

lemma rel_all_True: "rel_all (\<lambda>r. True) r"
proof (induction r rule: measure_induct_rule [of size])
  case (less r)
  then show ?case by (auto simp: rel_all_node [of _ r] intro: children_size)
qed

text \<open>A pass whose steps are sound, with no condition on the relation.\<close>

lemma rel_walk_sound_simple:
  assumes ok: "run_ok X B L \<Gamma>" and wt: "rel_wt \<Gamma> r" and w: "rel_walk step r = Inr (b, r')"
    and step: "\<And>r b r'. rel_wt \<Gamma> r \<Longrightarrow> step r = Inr (b, r') \<Longrightarrow> rel_sound B L \<Gamma> r r'"
  shows "rel_sound B L \<Gamma> r r'"
  using rel_walk_sound [OF ok true_local _ wt rel_all_True w] step rel_all_True by blast

lemma scalar_pass_sound:
  assumes ok: "run_ok X B L \<Gamma>"
    and f: "\<And>e b e'. scalar_wt \<Gamma> e \<Longrightarrow> P e \<Longrightarrow> f e = Inr (b, e') \<Longrightarrow> scalar_sound B \<Gamma> e e' \<and> P e'"
    and r: "rel_wt \<Gamma> r" "rel_all (all_scalars P) r" "scalar_pass f r = Inr (b, r')"
  shows "rel_sound B L \<Gamma> r r' \<and> rel_all (all_scalars P) r'"
proof (rule rel_walk_sound [OF ok all_scalars_local _ r(1,2) r(3) [unfolded scalar_pass_def]])
  fix r b r' assume wt: "rel_wt \<Gamma> r" and P: "rel_all (all_scalars P) r" and st: "node_scalars f r = Inr (b, r')"
  from st obtain es where w: "walk_list f (own_scalars r) = Inr (b, es)" and r': "r' = set_scalars r es"
    by (auto simp: node_scalars_def)
  from wt have nwt: "node_wt \<Gamma> r" by (simp add: rel_wt_node [of \<Gamma> r])
  have "\<forall>e \<in> set (own_scalars r). scalar_wt \<Gamma> e \<and> P e"
    using own_scalars_wt [OF nwt] P by (simp add: rel_all_node [of _ r] all_scalars_def)
  from walk_scalars [OF w this f]
  have es: "list_all2 (scalar_sound B \<Gamma>) (own_scalars r) es" "\<forall>e \<in> set es. P e" by auto
  have "all_scalars P r'"
    using es by (simp add: r' all_scalars_def own_set_scalars list_all2_lengthD)
  then show "rel_sound B L \<Gamma> r r' \<and> rel_all (all_scalars P) r'"
    using set_scalars_sound [OF ok wt es(1)] P by (simp add: r' rel_all_node [of _ r] rel_all_node [of _ "set_scalars r es"])
qed

section \<open>constScalarFold, scalarSimplify and scalarCache on relations\<close>

definition constScalarFold :: "ext \<Rightarrow> Relation pass" where
  "constScalarFold X = scalar_pass (constScalarFold_scalar X)"

definition scalarSimplify :: "Relation pass" where
  "scalarSimplify = scalar_pass scalarSimplify_scalar"

text \<open>The scopes of the cache: of a group the aggregates only, of the other nodes none.\<close>

fun cache_step :: "settings \<Rightarrow> Relation pass" where
  "cache_step C (ProjectionRelation s ps sch) =
     (let (b, es) = updateCache C (map expr ps) in Inr (b, ProjectionRelation s (set_exprs ps es) sch))"
| "cache_step C (FilterRelation s c sch) =
     (let (b, es) = updateCache C [c] in Inr (b, FilterRelation s (es ! 0) sch))"
| "cache_step C (AggregateRelation s as sch) =
     (let (b, es) = updateCache C (aggs_args as) in Inr (b, AggregateRelation s (set_aggs as es) sch))"
| "cache_step C (GroupRelation s as ks sch) =
     (let (b, es) = updateCache C (aggs_args as) in Inr (b, GroupRelation s (set_aggs as es) ks sch))"
| "cache_step C r = Inr (False, r)"

definition scalarCache :: "settings \<Rightarrow> Relation pass" where
  "scalarCache C = rel_walk (cache_step C)"

definition canonical :: "Relation \<Rightarrow> bool" where
  "canonical = rel_all (all_scalars scalar_canon)"

lemma rel_all_scalars_True: "rel_all (all_scalars (\<lambda>e. True)) r"
  using rel_all_True [of r] by (simp add: all_scalars_def [abs_def])

lemma constScalarFold_sound:
  assumes "run_ok X B L \<Gamma>" "rel_wt \<Gamma> r" "constScalarFold X r = Inr (b, r')"
  shows "rel_sound B L \<Gamma> r r'"
  using scalar_pass_sound [OF assms(1) _ assms(2) rel_all_scalars_True assms(3) [unfolded constScalarFold_def]]
    const_fold_sound [OF run_okD(1) [OF assms(1)]] by blast

lemma scalarSimplify_sound:
  assumes "run_ok X B L \<Gamma>" "rel_wt \<Gamma> r" "canonical r" "scalarSimplify r = Inr (b, r')"
  shows "rel_sound B L \<Gamma> r r' \<and> canonical r'"
  using scalar_pass_sound [OF assms(1) _ assms(2) assms(3) [unfolded canonical_def] assms(4) [unfolded scalarSimplify_def]]
    simplify_sound [OF run_okD(1) [OF assms(1)]] unfolding canonical_def by blast

lemma cache_scope:
  assumes "updateCache C sc = (b, es)" "\<forall>s \<in> set sc. scalar_wt \<Gamma> s"
  shows "list_all2 (scalar_sound B \<Gamma>) sc es"
  using updateCache_sound [OF assms(2), of B C] assms(1) by (simp add: scope_sound_def)

lemma cache_step_sound:
  assumes ok: "run_ok X B L \<Gamma>" and wt: "rel_wt \<Gamma> r" and st: "cache_step C r = Inr (b, r')"
  shows "rel_sound B L \<Gamma> r r'"
proof -
  from wt have n: "node_wt \<Gamma> r" by (simp add: rel_wt_node [of \<Gamma> r])
  consider es where "list_all2 (scalar_sound B \<Gamma>) (own_scalars r) es" "r' = set_scalars r es" | "r' = r"
  proof (cases r)
    case (ProjectionRelation s ps sch)
    with st obtain es where es: "updateCache C (map expr ps) = (b, es)" "r' = set_scalars r es"
      by (auto simp: Let_def split: prod.splits)
    with cache_scope [OF es(1), of \<Gamma> B] own_scalars_wt [OF n] that(1) [of es] ProjectionRelation show ?thesis by simp
  next
    case (FilterRelation s c sch)
    with st obtain es where es: "updateCache C [c] = (b, es)" "r' = set_scalars r es"
      by (auto simp: Let_def split: prod.splits)
    with cache_scope [OF es(1), of \<Gamma> B] own_scalars_wt [OF n] that(1) [of es] FilterRelation show ?thesis by simp
  next
    case (AggregateRelation s as sch)
    with st obtain es where es: "updateCache C (aggs_args as) = (b, es)" "r' = set_scalars r es"
      by (auto simp: Let_def split: prod.splits)
    with cache_scope [OF es(1), of \<Gamma> B] own_scalars_wt [OF n] that(1) [of es] AggregateRelation show ?thesis by simp
  next
    case (GroupRelation s as ks sch)
    with st obtain es where es: "updateCache C (aggs_args as) = (b, es)" "r' = GroupRelation s (set_aggs as es) ks sch"
      by (auto simp: Let_def split: prod.splits)
    have "\<forall>a \<in> set (aggs_args as @ map expr ks). scalar_wt \<Gamma> a" using own_scalars_wt [OF n] GroupRelation by simp
    then have a: "list_all2 (scalar_sound B \<Gamma>) (aggs_args as) es"
      and k: "list_all2 (scalar_sound B \<Gamma>) (map expr ks) (map expr ks)"
      using cache_scope [OF es(1), of \<Gamma> B] scalar_sound_refl by (auto simp: list_all2_same)
    have "set_exprs ks (map expr ks) = ks" by (induction ks) (simp_all add: set_exprs_def)
    then show ?thesis using that(1) [of "es @ map expr ks"] a k es(2) list_all2_lengthD [OF a]
      by (simp add: GroupRelation list_all2_appendI)
  qed (use st that(2) in auto)
  then show ?thesis
    by cases (use set_scalars_sound [OF ok wt] rel_sound_refl [OF wt] in auto)
qed

lemma scalarCache_sound:
  assumes "run_ok X B L \<Gamma>" "rel_wt \<Gamma> r" "scalarCache C r = Inr (b, r')"
  shows "rel_sound B L \<Gamma> r r'"
  using rel_walk_sound_simple [OF assms(1,2) assms(3) [unfolded scalarCache_def]] cache_step_sound [OF assms(1)]
  by blast

end
