(* ===== verification/Opt_Simplify.thy ===== *)
theory Opt_Simplify
  imports Opt_Walk Interleave
begin

text \<open>
  src/optimize/relation_simplify.cpp and empty_relation_prune.cpp: the steps on a node, and that each
  gives a relation with the schema and some of the results of the one it replaces.
\<close>

section \<open>The steps\<close>

definition isForwardingProjection :: "Projector list \<Rightarrow> Relation \<Rightarrow> Schema \<Rightarrow> bool" where
  "isForwardingProjection ps source self_schema \<longleftrightarrow>
     schema_eq self_schema (rel_schema source) \<and>
     list_all (\<lambda>p. case expr p of FieldScalar i t \<Rightarrow> i = alias_field_id p | _ \<Rightarrow> False) ps"

fun nested_sources :: "Relation \<Rightarrow> Relation list" where
  "nested_sources (UnionAllRelation ss sch) = ss"
| "nested_sources s = [s]"

fun is_union :: "Relation \<Rightarrow> bool" where
  "is_union (UnionAllRelation ss sch) = True"
| "is_union s = False"

fun relation_simplify_step :: "Relation pass" where
  "relation_simplify_step (ProjectionRelation s ps sch) =
     Inr (if isForwardingProjection ps s sch then (True, s) else (False, ProjectionRelation s ps sch))"
| "relation_simplify_step (FilterRelation s c sch) = (case const_of c of
     None \<Rightarrow> Inr (False, FilterRelation s c sch)
   | Some v \<Rightarrow> rbind (get_bool v) (\<lambda>b.
       Inr (True, if val_eq v (VBool True) then s else EmptyRelation sch)))"
| "relation_simplify_step (UnionAllRelation ss sch) =
     Inr (list_ex is_union ss, UnionAllRelation (concat (map nested_sources ss)) sch)"
| "relation_simplify_step r = Inr (False, r)"

definition relationSimplify :: "Relation pass" where
  "relationSimplify = rel_walk relation_simplify_step"

fun isEmpty :: "Relation \<Rightarrow> bool" where
  "isEmpty (EmptyRelation sch) = True"
| "isEmpty r = False"

definition pruneIf :: "bool \<Rightarrow> Relation \<Rightarrow> bool \<times> Relation" where
  "pruneIf b r = (if b then (True, EmptyRelation (rel_schema r)) else (False, r))"

fun prune :: "Relation \<Rightarrow> bool \<times> Relation" where
  "prune (ProjectionRelation s ps sch) = pruneIf (isEmpty s) (ProjectionRelation s ps sch)"
| "prune (GroupRelation s as ks sch) = pruneIf (isEmpty s) (GroupRelation s as ks sch)"
| "prune (FilterRelation s c sch) = pruneIf (isEmpty s) (FilterRelation s c sch)"
| "prune (SortRelation s es desc sch) = pruneIf (isEmpty s) (SortRelation s es desc sch)"
| "prune (MaterializeRelation s sch) = pruneIf (isEmpty s) (MaterializeRelation s sch)"
| "prune (UnionAllRelation ss sch) =
     (let non_empty = filter (\<lambda>s. \<not> isEmpty s) ss
      in if non_empty = [] then (True, EmptyRelation sch)
         else if length non_empty = 1 then (True, non_empty ! 0)
         else (length non_empty \<noteq> length ss, UnionAllRelation non_empty sch))"
| "prune (UnionAllSortedByRelation l r es desc sch) =
     (if isEmpty l \<and> isEmpty r then (True, EmptyRelation sch)
      else if isEmpty l then (True, r)
      else if isEmpty r then (True, l)
      else (False, UnionAllSortedByRelation l r es desc sch))"
| "prune (TopKRelation s es desc n sch) = pruneIf (isEmpty s \<or> n = 0) (TopKRelation s es desc n sch)"
| "prune (LimitRelation s n sch) = pruneIf (isEmpty s \<or> n = 0) (LimitRelation s n sch)"
| "prune (SemiJoinRelation s m e i sch) = pruneIf (isEmpty s \<or> isEmpty m) (SemiJoinRelation s m e i sch)"
| "prune (LeftJoinRelation l r lk rk sch) = pruneIf (isEmpty l) (LeftJoinRelation l r lk rk sch)"
| "prune (MarkJoinRelation s m e out i sch) = pruneIf (isEmpty s) (MarkJoinRelation s m e out i sch)"
| "prune r = (False, r)"

definition emptyRelationPrune :: "Relation pass" where
  "emptyRelationPrune = rel_walk (\<lambda>r. Inr (prune r))"

section \<open>Every relation has an outcome\<close>

lemma before_weak: "weak_order_on {k. no_nan (fst k)} (before desc)"
proof (cases desc)
  case True
  then show ?thesis
    by (intro weak_order_rank(2) [of _ _ "\<lambda>i. map val_rank (fst i)"]) (simp add: before_def key_greater_rank)
next
  case False
  then show ?thesis
    by (intro weak_order_rank(1) [of _ _ "\<lambda>i. map val_rank (fst i)"]) (simp add: before_def key_less_rank)
qed

lemma keyed_no_nan: "keyed B es xs = Inr krs \<Longrightarrow> set krs \<subseteq> {k. no_nan (fst k)}"
  by (force simp: keyed_def split: if_splits)

lemma keyed_weak: "keyed B es xs = Inr krs \<Longrightarrow> weak_order_on (set krs) (before desc)"
  by (rule weak_order_subset [OF before_weak keyed_no_nan])

lemma sorted_ne: "sorted_outcomes B es desc xs \<noteq> {}"
proof (cases "keyed B es xs")
  case (Inr krs)
  have "mset (sort_by (before desc) krs) = mset krs" "ordered (before desc) (sort_by (before desc) krs)"
    using sort_by_ordered [OF keyed_weak [OF Inr]] by auto
  then have "\<exists>zs. mset zs = mset krs \<and> ordered (before desc) zs" by blast
  then show ?thesis by (simp add: sorted_outcomes_def Inr)
qed (simp add: sorted_outcomes_def)

lemma merged_ne: "merged_outcomes B es desc xs ys \<noteq> {}"
proof (cases "keyed B es xs")
  case kx: (Inr kxs)
  show ?thesis
  proof (cases "keyed B es ys")
    case ky: (Inr kys)
    have "\<exists>zs \<in> shuffles kxs kys. ordered (before desc) kxs \<longrightarrow> ordered (before desc) kys \<longrightarrow> ordered (before desc) zs"
      using merge_ex [OF before_weak, of kxs kys desc] keyed_no_nan [OF kx] keyed_no_nan [OF ky] shuffles_ex [of kxs kys]
      by (cases "ordered (before desc) kxs \<and> ordered (before desc) kys") auto
    then show ?thesis by (auto simp: merged_outcomes_def kx ky)
  qed (simp add: merged_outcomes_def kx)
qed (simp add: merged_outcomes_def)

lemma interleavings_ne: "interleavings xss \<noteq> {}"
proof (induction xss)
  case (Cons xs xss)
  then show ?case using shuffles_ex by fastforce
qed simp

lemma bindo_ne: "M \<noteq> {} \<Longrightarrow> (\<And>xs. f xs \<noteq> {}) \<Longrightarrow> bindo M f \<noteq> {}"
  by (auto simp: bindo_def split: sum.splits)

lemma node_op_ne: "node_op B r xss \<noteq> {}"
proof (cases r)
  case (TopKRelation s es desc n sch)
  then show ?thesis using bindo_ne [OF sorted_ne] by simp
qed (auto simp: sorted_ne merged_ne interleavings_ne any_order_def split: sum.splits)

lemma bind_all_ne: "\<forall>M \<in> set Ms. M \<noteq> {} \<Longrightarrow> (\<And>xss. f xss \<noteq> {}) \<Longrightarrow> bind_all Ms f \<noteq> {}"
proof (induction Ms arbitrary: f)
  case (Cons M Ms)
  show ?case unfolding bind_all.simps by (rule bindo_ne) (use Cons in auto)
qed simp

lemma runs_ne: "run_ok X B L \<Gamma> \<Longrightarrow> runs B L r \<noteq> {}"
proof (induction r rule: measure_induct_rule [of size])
  case (less r)
  show ?case
  proof (cases "is_input r")
    case True
    then show ?thesis using run_okD(3) [OF less.prems] by (simp add: runs.simps [of B L r])
  next
    case False
    then show ?thesis
      unfolding runs_node [OF False] by (intro bind_all_ne node_op_ne) (use less children_size in auto)
  qed
qed

section \<open>Replacing a node by its input or by nothing\<close>

lemma rel_wt_schema: "rel_wt \<Gamma> r \<Longrightarrow> \<exists>is. has_schema (rel_schema r) is"
proof (induction r rule: measure_induct_rule [of size])
  case (less r)
  have c: "c \<in> set (children r) \<Longrightarrow> \<exists>is. has_schema (rel_schema c) is" for c
    using less.IH [OF children_size] less.prems by (simp add: rel_wt_node [of \<Gamma> r])
  from less.prems have "node_wt \<Gamma> r" by (simp add: rel_wt_node [of \<Gamma> r])
  then show ?case using c by (cases r) auto
qed

lemma wt_node: "rel_wt \<Gamma> r \<Longrightarrow> node_wt \<Gamma> r"
  by (simp add: rel_wt_node [of \<Gamma> r])

lemma rel_wt_child: "rel_wt \<Gamma> r \<Longrightarrow> c \<in> set (children r) \<Longrightarrow> rel_wt \<Gamma> c"
  by (simp add: rel_wt_node [of \<Gamma> r])

lemma bindo_Inr [simp]: "bindo M (\<lambda>xs. {Inr xs}) = M"
proof (rule set_eqI)
  fix m show "m \<in> bindo M (\<lambda>xs. {Inr xs}) \<longleftrightarrow> m \<in> M" by (cases m) (auto simp: Inr_bindo Inl_bindo)
qed

lemma sound_to_child:
  assumes ok: "run_ok X B L \<Gamma>" and wt: "rel_wt \<Gamma> r" "\<not> is_input r" and s: "children r = [s]" "rel_schema s = rel_schema r"
    and op: "\<And>xs. list_all (row_typed \<Gamma> (rel_fields s)) xs \<Longrightarrow> refines {Inr xs} (node_op B r [xs])"
  shows "rel_sound B L \<Gamma> r s"
proof -
  have ws: "rel_wt \<Gamma> s" using rel_wt_child [OF wt(1)] s(1) by simp
  have "refines (bindo (runs B L s) (\<lambda>xs. {Inr xs})) (bindo (runs B L s) (\<lambda>xs. node_op B r [xs]))"
    by (rule bindo_mono) (use op runs_typed [OF run_okD(1) [OF ok] run_okD(2) [OF ok] ws] in \<open>auto simp: ok_rows_def\<close>)
  then show ?thesis using ws s by (simp add: rel_sound_def runs_node [OF wt(2)])
qed

lemma bind_all_const:
  assumes "\<forall>M \<in> set Ms. M \<noteq> {}"
    and "\<And>xss. list_all2 (\<lambda>M xs. Inr xs \<in> M) Ms xss \<Longrightarrow> refines {Inr ys} (f xss)"
  shows "refines {Inr ys} (bind_all Ms f)"
  using assms
proof (induction Ms arbitrary: f)
  case (Cons M Ms)
  have "refines {Inr ys} (bind_all Ms (\<lambda>xss. f (xs # xss)))" if "Inr xs \<in> M" for xs
    by (rule Cons.IH) (use Cons.prems that in auto)
  then have IH: "fault_free (bind_all Ms (\<lambda>xss. f (xs # xss))) \<Longrightarrow> Inr ys \<in> bind_all Ms (\<lambda>xss. f (xs # xss))"
    if "Inr xs \<in> M" for xs using that by (simp add: refines_def)
  show ?case
  proof (rule refinesI)
    assume "fault_free (bind_all (M # Ms) f)"
    then have M: "fault_free M" and f: "\<And>xs. Inr xs \<in> M \<Longrightarrow> fault_free (bind_all Ms (\<lambda>xss. f (xs # xss)))"
      by (auto simp: fault_free_bindo)
    from Cons.prems(1) obtain m where "m \<in> M" by auto
    with M obtain xs where "Inr xs \<in> M" by (cases m) (auto simp: fault_free_def)
    with IH f show "{Inr ys} \<subseteq> bind_all (M # Ms) f" by (auto simp: Inr_bindo)
  qed
qed simp

lemma bindo_const: "M \<noteq> {} \<Longrightarrow> refines {Inr ys} (bindo M (\<lambda>xs. {Inr ys}))"
  using bind_all_const [of "[M]" ys "\<lambda>xss. {Inr ys}"] by simp

lemma runs_empty [simp]: "runs B L (EmptyRelation sch) = {Inr []}"
  by (simp add: runs.simps [of B L "EmptyRelation sch"])

lemma isEmpty_runs: "isEmpty r \<Longrightarrow> runs B L r = {Inr []}"
  by (cases r) auto

lemma sound_to_empty:
  assumes ok: "run_ok X B L \<Gamma>" and wt: "rel_wt \<Gamma> r" "\<not> is_input r"
    and op: "\<And>xss. list_all2 (\<lambda>c xs. Inr xs \<in> runs B L c) (children r) xss \<Longrightarrow> refines {Inr []} (node_op B r xss)"
  shows "rel_sound B L \<Gamma> r (EmptyRelation (rel_schema r))"
proof -
  have "refines {Inr []} (runs B L r)"
    unfolding runs_node [OF wt(2)]
    by (rule bind_all_const) (use op runs_ne [OF ok] in \<open>auto simp: list_all2_map1\<close>)
  then show ?thesis
    using rel_wt_schema [OF wt(1)] by (simp add: rel_sound_def rel_wt_node [of _ "EmptyRelation (rel_schema r)"])
qed

section \<open>Unions\<close>

definition mix :: "outcomes \<Rightarrow> outcomes \<Rightarrow> outcomes" where
  "mix M N = bindo M (\<lambda>xs. bindo N (\<lambda>ys. Inr ` shuffles xs ys))"

fun mix_all :: "outcomes list \<Rightarrow> outcomes" where
  "mix_all [] = {Inr []}"
| "mix_all (M # Ms) = mix M (mix_all Ms)"

lemma Inr_mix: "Inr zs \<in> mix M N \<longleftrightarrow> (\<exists>xs ys. Inr xs \<in> M \<and> Inr ys \<in> N \<and> zs \<in> shuffles xs ys)"
  by (auto simp: mix_def Inr_bindo)

lemma Inl_mix: "Inl e \<in> mix M N \<longleftrightarrow> Inl e \<in> M \<or> ((\<exists>xs. Inr xs \<in> M) \<and> Inl e \<in> N)"
  by (auto simp: mix_def Inl_bindo)

lemma mix_units [simp]: "mix {Inr []} M = M" "mix M {Inr []} = M"
proof -
  have "m \<in> mix {Inr []} M \<longleftrightarrow> m \<in> M" "m \<in> mix M {Inr []} \<longleftrightarrow> m \<in> M" for m
    by (cases m; auto simp: Inr_mix Inl_mix)+
  then show "mix {Inr []} M = M" "mix M {Inr []} = M" by blast+
qed

lemma mix_assoc: "mix (mix A M) N = mix A (mix M N)"
proof (rule set_eqI)
  fix m show "m \<in> mix (mix A M) N \<longleftrightarrow> m \<in> mix A (mix M N)"
  proof (cases m)
    case (Inl e)
    then show ?thesis using shuffles_ex by (fastforce simp: Inl_mix Inr_mix)
  next
    case (Inr ws)
    have "(\<exists>xs ys zs. Inr xs \<in> A \<and> Inr ys \<in> M \<and> Inr zs \<in> N \<and> (\<exists>us \<in> shuffles xs ys. ws \<in> shuffles us zs)) \<longleftrightarrow>
      (\<exists>xs ys zs. Inr xs \<in> A \<and> Inr ys \<in> M \<and> Inr zs \<in> N \<and> (\<exists>vs \<in> shuffles ys zs. ws \<in> shuffles xs vs))"
      by (simp only: shuffles_assoc)
    then show ?thesis unfolding Inr Inr_mix by blast
  qed
qed

lemma mix_all_append: "mix_all (Ms @ Ns) = mix (mix_all Ms) (mix_all Ns)"
  by (induction Ms) (simp_all add: mix_assoc)

lemma bindo_assoc: "bindo (bindo M f) g = bindo M (\<lambda>xs. bindo (f xs) g)"
proof (rule set_eqI)
  fix m show "m \<in> bindo (bindo M f) g \<longleftrightarrow> m \<in> bindo M (\<lambda>xs. bindo (f xs) g)"
    by (cases m) (auto simp: Inr_bindo Inl_bindo)
qed

lemma bindo_bind_all: "bindo (bind_all Ms f) g = bind_all Ms (\<lambda>xss. bindo (f xss) g)"
  by (induction Ms arbitrary: f) (simp_all add: bindo_assoc)

lemma bind_all_interleavings: "bind_all Ms (\<lambda>xss. Inr ` interleavings xss) = mix_all Ms"
proof (induction Ms)
  case (Cons M Ms)
  have "Inr ` interleavings (xs # xss) = bindo (Inr ` interleavings xss) (\<lambda>ys. Inr ` shuffles xs ys)" for xs xss
    by (auto simp: bindo_def)
  then show ?case by (simp only: bind_all.simps mix_all.simps mix_def Cons.IH [symmetric] bindo_bind_all)
qed simp

lemma runs_union: "runs B L (UnionAllRelation ss sch) = mix_all (map (runs B L) ss)"
proof -
  have "node_op B (UnionAllRelation ss sch) = (\<lambda>xss. Inr ` interleavings xss)" by (rule ext) simp
  then show ?thesis by (simp add: runs_node bind_all_interleavings)
qed

lemma mix_nested: "mix_all (map (runs B L) (concat (map nested_sources ss))) = mix_all (map (runs B L) ss)"
proof (induction ss)
  case (Cons s ss)
  have "mix_all (map (runs B L) (nested_sources s)) = runs B L s"
    by (cases s) (simp_all add: runs_union)
  with Cons show ?case by (simp add: mix_all_append)
qed simp

lemma mix_non_empty: "mix_all (map (runs B L) (filter (\<lambda>s. \<not> isEmpty s) ss)) = mix_all (map (runs B L) ss)"
  by (induction ss) (auto simp: isEmpty_runs)


section \<open>relationSimplify is sound\<close>

lemma row_key_fields:
  "set is \<subseteq> dom r \<Longrightarrow> list_all2 (\<lambda>e i. \<exists>t. e = FieldScalar i t) es is \<Longrightarrow> row_key B es r = Inr (map (\<lambda>i. the (r i)) is)"
proof (induction es arbitrary: "is")
  case (Cons e es)
  then show ?case by (auto simp: list_all2_Cons1 row_key_def row_eval_def env_of_def)
qed (simp add: row_key_def)

lemma project_identity:
  assumes "list_all (\<lambda>p. case expr p of FieldScalar i t \<Rightarrow> i = alias_field_id p | _ \<Rightarrow> False) ps"
    and "dom r = set (map alias_field_id ps)"
  shows "project B ps r = Inr r"
proof -
  have "list_all2 (\<lambda>e i. \<exists>t. e = FieldScalar i t) (map expr ps) (map alias_field_id ps)"
    using assms(1) by (induction ps) (auto split: Scalar.splits)
  with row_key_fields [of "map alias_field_id ps" r "map expr ps" B] assms(2)
  have k: "row_key B (map expr ps) r = Inr (map (\<lambda>i. the (r i)) (map alias_field_id ps))" by simp
  have "row_of (map alias_field_id ps) (map (\<lambda>i. the (r i)) (map alias_field_id ps)) = r"
  proof
    fix i show "row_of (map alias_field_id ps) (map (\<lambda>i. the (r i)) (map alias_field_id ps)) i = r i"
      unfolding row_of_def map_of_zip_map assms(2) [symmetric] by (auto simp: domIff)
  qed
  with k show ?thesis by (simp add: project_def)
qed

lemma rfilter_const: "(\<And>x. x \<in> set xs \<Longrightarrow> p x = Inr b) \<Longrightarrow> rfilter p xs = Inr (if b then xs else [])"
  by (induction xs) auto

lemma rmap_const_Inl: "xs \<noteq> [] \<Longrightarrow> (\<And>x. x \<in> set xs \<Longrightarrow> f x = Inl e) \<Longrightarrow> rmap f xs = Inl e"
  by (cases xs) auto

lemma has_schema_eq: "has_schema a is \<Longrightarrow> has_schema b js \<Longrightarrow> schema_eq a b \<longleftrightarrow> a = b"
  by (auto simp: has_schema_def schema_eq_schema_of schema_of_inj)

lemma union_flatten_sound:
  assumes wt: "rel_wt \<Gamma> (UnionAllRelation ss sch)"
  shows "rel_sound B L \<Gamma> (UnionAllRelation ss sch) (UnionAllRelation (concat (map nested_sources ss)) sch)"
proof -
  have n: "node_wt \<Gamma> (UnionAllRelation ss sch)" and c: "\<forall>s \<in> set ss. rel_wt \<Gamma> s"
    using wt by (simp_all add: rel_wt_node [of \<Gamma> "UnionAllRelation ss sch"])
  have "rel_wt \<Gamma> t \<and> rel_schema t = sch" if "s \<in> set ss" "t \<in> set (nested_sources s)" for s t
  proof (cases s)
    case (UnionAllRelation xs sch')
    with that c n have "rel_wt \<Gamma> (UnionAllRelation xs sch')" "sch' = sch" "t \<in> set xs" by auto
    then show ?thesis using wt_node [of \<Gamma> s] rel_wt_child [of \<Gamma> s t] UnionAllRelation by simp
  qed (use that c n in auto)
  with n have "rel_wt \<Gamma> (UnionAllRelation (concat (map nested_sources ss)) sch)"
    by (auto simp: rel_wt_node [of \<Gamma> "UnionAllRelation (concat (map nested_sources ss)) sch"])
  then show ?thesis by (simp add: rel_sound_def runs_union mix_nested)
qed

lemma relation_simplify_step_sound:
  assumes ok: "run_ok X B L \<Gamma>" and wt: "rel_wt \<Gamma> r" and st: "relation_simplify_step r = Inr (b, r')"
  shows "rel_sound B L \<Gamma> r r'"
proof (cases r)
  case (ProjectionRelation s ps sch)
  show ?thesis
  proof (cases "isForwardingProjection ps s sch")
    case False
    then have "r' = r" using st ProjectionRelation by simp
    with wt show ?thesis by (simp add: rel_sound_refl)
  next
    case True
    then have r': "r' = s" using st ProjectionRelation by simp
    have n: "has_schema sch (map alias_field_id ps)" using wt_node [OF wt] by (simp add: ProjectionRelation)
    obtain js where "has_schema (rel_schema s) js"
      using rel_wt_schema rel_wt_child [OF wt, of s] ProjectionRelation by auto
    with True n have sch: "rel_schema s = sch" using has_schema_eq by (auto simp: isForwardingProjection_def)
    with n have F: "rel_fields s = set (map alias_field_id ps)" by (intro has_schema_fields) simp
    show ?thesis unfolding r'
    proof (rule sound_to_child [OF ok wt])
      fix xs assume "list_all (row_typed \<Gamma> (rel_fields s)) xs"
      then have "rmap (project B ps) xs = Inr (map (\<lambda>r. r) xs)"
        using True by (intro rmap_Inr_map project_identity)
          (auto simp: isForwardingProjection_def list_all_iff row_typed_def F)
      then show "refines {Inr xs} (node_op B r [xs])" by (simp add: ProjectionRelation)
    qed (use sch in \<open>simp_all add: ProjectionRelation\<close>)
  qed
next
  case (FilterRelation s c sch)
  show ?thesis
  proof (cases "const_of c")
    case None
    then have "r' = r" using st FilterRelation by simp
    with wt show ?thesis by (simp add: rel_sound_refl)
  next
    case (Some v)
    then obtain t where c: "c = ValueScalar v t" by (auto simp: const_of_Some)
    with st FilterRelation obtain y where y: "v = VBool y" "r' = (if y then s else EmptyRelation sch)"
      by (auto simp: get_bool_Inr)
    have f: "rfilter (row_holds B c) xs = Inr (if y then xs else [])" for xs
      by (rule rfilter_const) (simp add: row_holds_def row_eval_def c y)
    have sch: "rel_schema s = sch" using wt_node [OF wt] by (simp add: FilterRelation)
    show ?thesis
    proof (cases y)
      case True
      have "rel_sound B L \<Gamma> r s"
        by (rule sound_to_child [OF ok wt]) (simp_all add: FilterRelation f sch True)
      with y True show ?thesis by simp
    next
      case False
      have "rel_sound B L \<Gamma> r (EmptyRelation (rel_schema r))"
        by (rule sound_to_empty [OF ok wt]) (simp_all add: FilterRelation f False)
      with y False show ?thesis by (simp add: FilterRelation)
    qed
  qed
next
  case (UnionAllRelation ss sch)
  with st wt union_flatten_sound show ?thesis by auto
qed (use st wt in \<open>auto simp: rel_sound_refl\<close>)

lemma relationSimplify_sound:
  assumes "run_ok X B L \<Gamma>" "rel_wt \<Gamma> r" "relationSimplify r = Inr (b, r')"
  shows "rel_sound B L \<Gamma> r r'"
  using rel_walk_sound_simple [OF assms(1,2) assms(3) [unfolded relationSimplify_def]]
    relation_simplify_step_sound [OF assms(1)] by blast

section \<open>emptyRelationPrune is sound\<close>

lemma keyed_Nil [simp]: "keyed B es [] = Inr []"
  by (simp add: keyed_def with_keys_def)

lemma sorted_Nil [simp]: "sorted_outcomes B es desc [] = {Inr []}"
  by (auto simp: sorted_outcomes_def)

lemma group_rows_Nil [simp]: "any_order (group_rows B as ks []) = {Inr []}"
  by (auto simp: group_rows_def with_keys_def any_order_def)

lemma rle_rfilter_none: "(\<And>x b. x \<in> set xs \<Longrightarrow> p x = Inr b \<Longrightarrow> \<not> b) \<Longrightarrow> rle (rfilter p xs) (Inr [])"
  using rfilter_const [of xs p False]
proof (induction xs)
  case (Cons x xs)
  then show ?case by (cases "p x") (fastforce simp: rle_def)+
qed simp

lemma semi_rows_none: "rle (semi_rows B e i xs []) (Inr [])"
  by (auto simp: semi_rows_def hs_contains_def intro: rle_rfilter_none)

lemma rle_semi_Nil: "rle (semi_rows B e i [] ms) (Inr [])" "rle (mark_rows B e out i [] ms) (Inr [])"
  by (auto simp: semi_rows_def mark_rows_def rle_def)

lemma rle_left_Nil: "rle (left_join_rows B lk rk F [] ys) (Inr [])"
  by (auto simp: left_join_rows_def rle_def)

lemma runs_merge:
  "runs B L (UnionAllSortedByRelation l q es desc sch) =
     bindo (runs B L l) (\<lambda>xs. bindo (runs B L q) (\<lambda>ys. merged_outcomes B es desc xs ys))"
  by (simp add: runs_node)

lemma merged_one: "refines {Inr ys} (merged_outcomes B es desc [] ys)" "refines {Inr ys} (merged_outcomes B es desc ys [])"
proof -
  have "refines {Inr ys} (merged_outcomes B es desc [] ys) \<and> refines {Inr ys} (merged_outcomes B es desc ys [])"
  proof (cases "keyed B es ys")
    case (Inr krs)
    then show ?thesis using keyed_rows [OF Inr] by (auto simp: merged_outcomes_def refines_def)
  qed (simp add: merged_outcomes_def refines_def fault_free_def)
  then show "refines {Inr ys} (merged_outcomes B es desc [] ys)" "refines {Inr ys} (merged_outcomes B es desc ys [])"
    by blast+
qed

lemma prune_merge_sound:
  assumes wt: "rel_wt \<Gamma> (UnionAllSortedByRelation l q es desc sch)"
  shows "isEmpty l \<Longrightarrow> rel_sound B L \<Gamma> (UnionAllSortedByRelation l q es desc sch) q"
    and "isEmpty q \<Longrightarrow> rel_sound B L \<Gamma> (UnionAllSortedByRelation l q es desc sch) l"
proof -
  note w = wt [unfolded rel_wt_node [of \<Gamma> "UnionAllSortedByRelation l q es desc sch"]]
  have "refines (bindo M (\<lambda>ys. {Inr ys})) (bindo M (\<lambda>ys. merged_outcomes B es desc [] ys))"
    "refines (bindo M (\<lambda>ys. {Inr ys})) (bindo M (\<lambda>ys. merged_outcomes B es desc ys []))" for M
    by (rule bindo_mono; use merged_one in simp)+
  with w show "isEmpty l \<Longrightarrow> rel_sound B L \<Gamma> (UnionAllSortedByRelation l q es desc sch) q"
    "isEmpty q \<Longrightarrow> rel_sound B L \<Gamma> (UnionAllSortedByRelation l q es desc sch) l"
    by (simp_all add: rel_sound_def runs_merge isEmpty_runs)
qed

lemma prune_union_sound:
  assumes wt: "rel_wt \<Gamma> (UnionAllRelation ss sch)"
  shows "rel_sound B L \<Gamma> (UnionAllRelation ss sch) (snd (prune (UnionAllRelation ss sch)))"
proof -
  let ?ne = "filter (\<lambda>s. \<not> isEmpty s) ss"
  have n: "node_wt \<Gamma> (UnionAllRelation ss sch)" and c: "\<forall>s \<in> set ss. rel_wt \<Gamma> s"
    using wt by (simp_all add: rel_wt_node [of \<Gamma> "UnionAllRelation ss sch"])
  have r: "runs B L (UnionAllRelation ss sch) = mix_all (map (runs B L) ?ne)" by (simp add: runs_union mix_non_empty)
  consider "?ne = []" | s where "?ne = [s]" | "?ne \<noteq> []" "length ?ne \<noteq> 1"
    by (cases ?ne rule: remdups_adj.cases) auto
  then show ?thesis
  proof cases
    case 1
    then show ?thesis using n r by (simp add: rel_sound_def rel_wt_node [of \<Gamma> "EmptyRelation sch"])
  next
    case (2 s)
    then have "s \<in> set (filter (\<lambda>s. \<not> isEmpty s) ss)" by simp
    then have "s \<in> set ss" by simp
    with 2 n c r show ?thesis by (simp add: rel_sound_def)
  next
    case 3
    then have "snd (prune (UnionAllRelation ss sch)) = UnionAllRelation ?ne sch" by (simp add: Let_def)
    with n c r show ?thesis
      by (auto simp: rel_sound_def runs_union rel_wt_node [of \<Gamma> "UnionAllRelation ?ne sch"])
  qed
qed

lemma pruneIf_sound:
  assumes "run_ok X B L \<Gamma>" "rel_wt \<Gamma> r" "\<not> is_input r"
    and "\<And>xss. b \<Longrightarrow> list_all2 (\<lambda>c xs. Inr xs \<in> runs B L c) (children r) xss \<Longrightarrow> refines {Inr []} (node_op B r xss)"
  shows "rel_sound B L \<Gamma> r (snd (pruneIf b r))"
  using sound_to_empty [OF assms(1-3)] assms(4) rel_sound_refl [OF assms(2)] by (cases b) (auto simp: pruneIf_def)

lemma prune_sound:
  assumes ok: "run_ok X B L \<Gamma>" and wt: "rel_wt \<Gamma> r"
  shows "rel_sound B L \<Gamma> r (snd (prune r))"
proof (cases r)
  case (UnionAllRelation ss sch)
  with wt prune_union_sound show ?thesis by simp
next
  case (UnionAllSortedByRelation l q es desc sch)
  have sch: "rel_schema l = sch" "rel_schema q = sch" using wt_node [OF wt] by (simp_all add: UnionAllSortedByRelation)
  consider "isEmpty l" "isEmpty q" | "isEmpty l" "\<not> isEmpty q" | "isEmpty q" "\<not> isEmpty l" | "\<not> isEmpty l" "\<not> isEmpty q" by blast
  then show ?thesis
  proof cases
    case 1
    then have "l = EmptyRelation sch" using sch by (cases l) auto
    with prune_merge_sound(2) [OF wt [unfolded UnionAllSortedByRelation] 1(2)] 1 show ?thesis
      by (simp add: UnionAllSortedByRelation)
  next
    case 2
    then show ?thesis using prune_merge_sound(1) wt by (simp add: UnionAllSortedByRelation)
  next
    case 3
    then show ?thesis using prune_merge_sound(2) wt by (simp add: UnionAllSortedByRelation)
  next
    case 4
    then show ?thesis using rel_sound_refl [OF wt] by (simp add: UnionAllSortedByRelation)
  qed
qed (use wt in \<open>auto intro!: pruneIf_sound [OF ok] bindo_const simp: sorted_ne rel_sound_refl isEmpty_runs refines_det semi_rows_none rle_semi_Nil
    rle_left_Nil agg_row_def dest!: list_all2_Cons1 [THEN iffD1]\<close>)

lemma emptyRelationPrune_sound:
  assumes "run_ok X B L \<Gamma>" "rel_wt \<Gamma> r" "emptyRelationPrune r = Inr (b, r')"
  shows "rel_sound B L \<Gamma> r r'"
proof (rule rel_walk_sound_simple [OF assms(1,2) assms(3) [unfolded emptyRelationPrune_def]])
  fix r b r' assume "rel_wt \<Gamma> r" "Inr (prune r) = (Inr (b, r') :: (bool \<times> Relation) res)"
  with prune_sound [OF assms(1), of r] show "rel_sound B L \<Gamma> r r'" by (cases "prune r") simp
qed

end
