(* ===== verification/Opt_Limit.thy ===== *)
theory Opt_Limit
  imports Opt_Simplify
begin

text \<open>
  src/optimize/limit_pushdown.cpp: a limit moves through projections and nested limits, turns a sort
  into a top-k, and limits the inputs of a union or a sorted merge it stays above.
\<close>

section \<open>The step\<close>

fun ensureLimited :: "int \<Rightarrow> Relation \<Rightarrow> bool \<times> Relation" where
  "ensureLimited tp (LimitRelation s n sch) =
     (if n > tp then (True, LimitRelation s tp sch) else (False, LimitRelation s n sch))"
| "ensureLimited tp (TopKRelation s es desc n sch) =
     (if n > tp then (True, TopKRelation s es desc tp sch) else (False, TopKRelation s es desc n sch))"
| "ensureLimited tp node = (True, LimitRelation node tp (rel_schema node))"

fun pushdown_limit :: "Relation \<Rightarrow> int \<Rightarrow> Schema \<Rightarrow> bool \<times> Relation" where
  "pushdown_limit (ProjectionRelation s ps psch) tp sch =
     (True, ProjectionRelation (LimitRelation s tp (rel_schema s)) ps sch)"
| "pushdown_limit (SortRelation s es desc ssch) tp sch = (True, TopKRelation s es desc tp sch)"
| "pushdown_limit (LimitRelation s n lsch) tp sch = (True, LimitRelation s (min tp n) sch)"
| "pushdown_limit (TopKRelation s es desc n tsch) tp sch = (True, TopKRelation s es desc (min tp n) sch)"
| "pushdown_limit (UnionAllRelation ss usch) tp sch =
     (list_ex (\<lambda>s. fst (ensureLimited tp s)) ss,
      LimitRelation (UnionAllRelation (map (\<lambda>s. snd (ensureLimited tp s)) ss) usch) tp sch)"
| "pushdown_limit (UnionAllSortedByRelation l r es desc usch) tp sch =
     (fst (ensureLimited tp l) \<or> fst (ensureLimited tp r),
      LimitRelation (UnionAllSortedByRelation (snd (ensureLimited tp l)) (snd (ensureLimited tp r)) es desc usch) tp sch)"
| "pushdown_limit s tp sch = (False, LimitRelation s tp sch)"

fun limit_step :: "Relation \<Rightarrow> bool \<times> Relation" where
  "limit_step (LimitRelation s tp sch) = pushdown_limit s tp sch"
| "limit_step r = (False, r)"

definition limitPushdown :: "Relation pass" where
  "limitPushdown = rel_walk (\<lambda>r. Inr (limit_step r))"

section \<open>Limits of outcomes\<close>

definition limit_to :: "nat \<Rightarrow> outcomes \<Rightarrow> outcomes" where
  "limit_to n M = bindo M (\<lambda>xs. {Inr (take n xs)})"

lemma Inr_limit: "Inr ys \<in> limit_to n M \<longleftrightarrow> (\<exists>xs. Inr xs \<in> M \<and> ys = take n xs)"
  by (auto simp: limit_to_def Inr_bindo)

lemma fault_free_limit [simp]: "fault_free (limit_to n M) = fault_free M"
  by (simp add: limit_to_def fault_free_bindo) (simp add: fault_free_def)

lemma limit_limit: "limit_to m (limit_to n M) = limit_to (min m n) M"
  by (simp add: limit_to_def bindo_assoc)

lemma runs_limit: "runs B L (LimitRelation s n sch) = limit_to (nat n) (runs B L s)"
  by (simp add: runs_node limit_to_def)

lemma runs_sort: "runs B L (SortRelation s es desc sch) = bindo (runs B L s) (sorted_outcomes B es desc)"
  by (simp add: runs_node)

lemma runs_topk:
  "runs B L (TopKRelation s es desc n sch) = limit_to (nat n) (runs B L (SortRelation s es desc sch'))"
  by (simp add: runs_node runs_sort limit_to_def bindo_assoc)

lemma runs_projection: "runs B L (ProjectionRelation s ps sch) = bindo (runs B L s) (\<lambda>xs. {rmap (project B ps) xs})"
  by (simp add: runs_node)

text \<open>\<open>M'\<close> gives the results of \<open>M\<close>, cut at \<open>n\<close> rows or later.\<close>

definition cut_at :: "nat \<Rightarrow> outcomes \<Rightarrow> outcomes \<Rightarrow> bool" where
  "cut_at n M' M \<longleftrightarrow> (fault_free M \<longrightarrow> fault_free M' \<and>
     (\<forall>ys. Inr ys \<in> M' \<longrightarrow> (\<exists>xs p. n \<le> p \<and> Inr xs \<in> M \<and> ys = take p xs)))"

lemma cut_at_limit: "n \<le> p \<Longrightarrow> cut_at n (limit_to p M) M"
  by (auto simp: cut_at_def Inr_limit)

lemma cut_at_refl: "cut_at n M M"
  unfolding cut_at_def by (metis max.cobounded1 max.cobounded2 take_all)

lemma cut_at_relimit: "n \<le> p \<Longrightarrow> n \<le> q \<Longrightarrow> q \<le> p \<Longrightarrow> cut_at n (limit_to q M) (limit_to p M)"
  using cut_at_limit [of n q "limit_to p M"] by (simp add: limit_limit min_absorb1)

lemma ensureLimited_cut: "0 \<le> tp \<Longrightarrow> cut_at (nat tp) (runs B L (snd (ensureLimited tp s))) (runs B L s)"
  by (induction tp s rule: ensureLimited.induct)
    (auto simp: runs_limit runs_topk [where sch' = emptySchema] cut_at_limit cut_at_refl intro: cut_at_relimit)

definition agree_to :: "nat \<Rightarrow> outcomes \<Rightarrow> outcomes \<Rightarrow> bool" where
  "agree_to n M' M \<longleftrightarrow> (fault_free M \<longrightarrow> fault_free M' \<and>
     (\<forall>ys. Inr ys \<in> M' \<longrightarrow> (\<exists>xs. Inr xs \<in> M \<and> take n ys = take n xs)))"

lemma cut_agree: "cut_at n M' M \<Longrightarrow> agree_to n M' M"
  unfolding cut_at_def agree_to_def by (metis min.absorb1 take_take)

lemma agree_limit: "agree_to n M' M \<Longrightarrow> refines (limit_to n M') (limit_to n M)"
proof (rule refinesI)
  assume "agree_to n M' M" "fault_free (limit_to n M)"
  then have M: "fault_free M'" "\<And>ys. Inr ys \<in> M' \<Longrightarrow> \<exists>xs. Inr xs \<in> M \<and> take n ys = take n xs"
    by (auto simp: agree_to_def)
  show "limit_to n M' \<subseteq> limit_to n M"
  proof
    fix m assume "m \<in> limit_to n M'"
    then show "m \<in> limit_to n M" using M fault_free_limit [of n M'] by (cases m) (fastforce simp: Inr_limit fault_free_def)+
  qed
qed

lemma fault_free_ne: "fault_free M \<Longrightarrow> M \<noteq> {} \<Longrightarrow> \<exists>xs. Inr xs \<in> M"
  by (metis equals0I fault_free_def obj_sumE)

lemma fault_free_mix: "fault_free M \<Longrightarrow> fault_free N \<Longrightarrow> fault_free (mix M N)"
  by (simp add: fault_free_def Inl_mix)

lemma fault_free_mixD: "fault_free (mix M N) \<Longrightarrow> M \<noteq> {} \<Longrightarrow> fault_free M \<and> fault_free N"
  using fault_free_ne [of M] by (auto simp: fault_free_def Inl_mix)

lemma agree_mix:
  assumes "agree_to n M' M" "agree_to n N' N" "M \<noteq> {}"
  shows "agree_to n (mix M' N') (mix M N)"
  unfolding agree_to_def
proof (intro impI conjI allI)
  assume ff: "fault_free (mix M N)"
  note MN = fault_free_mixD [OF ff assms(3)]
  then show "fault_free (mix M' N')" using assms(1,2) by (simp add: agree_to_def fault_free_mix)
  fix zs assume "Inr zs \<in> mix M' N'"
  then obtain xs ys where z: "Inr xs \<in> M'" "Inr ys \<in> N'" "zs \<in> shuffles xs ys" by (auto simp: Inr_mix)
  with MN assms(1,2) obtain us vs where uv: "Inr us \<in> M" "take n xs = take n us" "Inr vs \<in> N" "take n ys = take n vs"
    unfolding agree_to_def by meson
  with shuffles_take [OF uv(2,4) z(3)] show "\<exists>ws. Inr ws \<in> mix M N \<and> take n zs = take n ws"
    by (auto simp: Inr_mix) metis
qed

lemma agree_mix_all:
  "list_all2 (agree_to n) Ms' Ms \<Longrightarrow> \<forall>M \<in> set Ms. M \<noteq> {} \<Longrightarrow> agree_to n (mix_all Ms') (mix_all Ms)"
proof (induction rule: list_all2_induct)
  case Nil
  then show ?case by (simp add: cut_agree cut_at_refl)
qed (simp add: agree_mix)

lemma with_keys_list_all2:
  "with_keys B es xs = Inr ks \<longleftrightarrow> list_all2 (\<lambda>r k. row_key B es r = Inr (fst k) \<and> snd k = r) xs ks"
proof -
  have "(\<lambda>r k. rbind (row_key B es r) (\<lambda>k. Inr (k, r)) = Inr k) = (\<lambda>r k. row_key B es r = Inr (fst k) \<and> snd k = r)"
    by (auto simp: fun_eq_iff rbind_Inr_iff)
  then show ?thesis by (simp only: with_keys_def rmap_Inr_iff)
qed

lemma keyed_Inr_iff: "keyed B es xs = Inr ks \<longleftrightarrow> with_keys B es xs = Inr ks \<and> (\<forall>k \<in> set ks. no_nan (fst k))"
  by (cases "with_keys B es xs") (auto simp: keyed_def split: if_splits)

lemma keyed_take: "keyed B es xs = Inr ks \<Longrightarrow> keyed B es (take n xs) = Inr (take n ks)"
  by (auto simp: keyed_Inr_iff with_keys_list_all2 list_all2_takeI dest: in_set_takeD)

lemma fault_free_merged: "fault_free (merged_outcomes B es desc xs ys) \<longleftrightarrow>
    (\<exists>kxs kys. keyed B es xs = Inr kxs \<and> keyed B es ys = Inr kys)"
  by (cases "keyed B es xs"; cases "keyed B es ys") (auto simp: merged_outcomes_def fault_free_def)

lemma Inr_merged: "keyed B es xs = Inr kxs \<Longrightarrow> keyed B es ys = Inr kys \<Longrightarrow>
    Inr rs \<in> merged_outcomes B es desc xs ys \<longleftrightarrow> (\<exists>zs \<in> shuffles kxs kys. rs = map snd zs \<and>
      (ordered (before desc) kxs \<longrightarrow> ordered (before desc) kys \<longrightarrow> ordered (before desc) zs))"
  by (auto simp: merged_outcomes_def)

lemma merged_take:
  assumes "keyed B es xs = Inr kxs" "keyed B es ys = Inr kys" and pq: "n \<le> p" "n \<le> q"
    and rs: "Inr rs \<in> merged_outcomes B es desc (take p xs) (take q ys)"
  shows "\<exists>ws. Inr ws \<in> merged_outcomes B es desc xs ys \<and> take n rs = take n ws"
proof -
  from rs obtain zs where z: "zs \<in> shuffles (take p kxs) (take q kys)" "rs = map snd zs"
    and o: "ordered (before desc) (take p kxs) \<Longrightarrow> ordered (before desc) (take q kys) \<Longrightarrow> ordered (before desc) zs"
    by (auto simp: Inr_merged [OF keyed_take [OF assms(1)] keyed_take [OF assms(2)]])
  have t: "take n (take p kxs) = take n kxs" "take n (take q kys) = take n kys" using pq by simp_all
  have "\<exists>ws \<in> shuffles kxs kys. (ordered (before desc) kxs \<longrightarrow> ordered (before desc) kys \<longrightarrow> ordered (before desc) ws) \<and>
      take n ws = take n zs"
  proof (cases "ordered (before desc) kxs \<and> ordered (before desc) kys")
    case True
    then have "ordered (before desc) zs" using o ordered_take by blast
    with merge_take [OF before_weak t _ _ _ z(1)] True keyed_no_nan [OF assms(1)] keyed_no_nan [OF assms(2)]
    show ?thesis by auto
  next
    case False
    with shuffles_take [OF t z(1)] show ?thesis by blast
  qed
  then obtain ws where "ws \<in> shuffles kxs kys" "take n ws = take n zs"
    "ordered (before desc) kxs \<longrightarrow> ordered (before desc) kys \<longrightarrow> ordered (before desc) ws" by blast
  then have "Inr (map snd ws) \<in> merged_outcomes B es desc xs ys" "take n rs = take n (map snd ws)"
    by (auto simp: Inr_merged [OF assms(1,2)] z(2) take_map)
  then show ?thesis by blast
qed

lemma agree_merge:
  assumes "cut_at n M' M" "cut_at n N' N" "M \<noteq> {}" "N \<noteq> {}"
  shows "agree_to n (bindo M' (\<lambda>xs. bindo N' (merged_outcomes B es desc xs)))
    (bindo M (\<lambda>xs. bindo N (merged_outcomes B es desc xs)))"
  unfolding agree_to_def
proof (intro impI)
  assume "fault_free (bindo M (\<lambda>xs. bindo N (merged_outcomes B es desc xs)))"
  then have M: "fault_free M" and NN: "\<And>xs. Inr xs \<in> M \<Longrightarrow> fault_free N" and
    k: "\<And>xs ys. Inr xs \<in> M \<Longrightarrow> Inr ys \<in> N \<Longrightarrow> fault_free (merged_outcomes B es desc xs ys)"
    by (auto simp: fault_free_bindo)
  from fault_free_ne [OF M assms(3)] NN have N: "fault_free N" by blast
  from M assms(1) have M': "fault_free M'" "\<And>ys. Inr ys \<in> M' \<Longrightarrow> \<exists>xs p. n \<le> p \<and> Inr xs \<in> M \<and> ys = take p xs"
    by (auto simp: cut_at_def)
  from N assms(2) have N': "fault_free N'" "\<And>ys. Inr ys \<in> N' \<Longrightarrow> \<exists>xs p. n \<le> p \<and> Inr xs \<in> N \<and> ys = take p xs"
    by (auto simp: cut_at_def)
  have each: "fault_free (merged_outcomes B es desc us vs) \<and> (\<forall>rs. Inr rs \<in> merged_outcomes B es desc us vs \<longrightarrow>
      (\<exists>xs ys ws. Inr xs \<in> M \<and> Inr ys \<in> N \<and> Inr ws \<in> merged_outcomes B es desc xs ys \<and> take n rs = take n ws))"
    if "Inr us \<in> M'" "Inr vs \<in> N'" for us vs
  proof -
    from M'(2) [OF that(1)] N'(2) [OF that(2)] obtain xs p ys q
      where u: "n \<le> p" "Inr xs \<in> M" "us = take p xs" and v: "n \<le> q" "Inr ys \<in> N" "vs = take q ys" by blast
    from k [OF u(2) v(2)] obtain kxs kys where ks: "keyed B es xs = Inr kxs" "keyed B es ys = Inr kys"
      by (auto simp: fault_free_merged)
    show ?thesis using u v keyed_take [OF ks(1)] keyed_take [OF ks(2)] merged_take [OF ks u(1) v(1)]
      by (auto simp: fault_free_merged) blast
  qed
  with M'(1) N'(1) show "fault_free (bindo M' (\<lambda>xs. bindo N' (merged_outcomes B es desc xs))) \<and>
    (\<forall>ys. Inr ys \<in> bindo M' (\<lambda>xs. bindo N' (merged_outcomes B es desc xs)) \<longrightarrow>
      (\<exists>xs. Inr xs \<in> bindo M (\<lambda>xs. bindo N (merged_outcomes B es desc xs)) \<and> take n ys = take n xs))"
    by (auto simp: fault_free_bindo Inr_bindo) blast+
qed

section \<open>limitPushdown is sound\<close>

lemma limit_projection: "refines (runs B L (ProjectionRelation (LimitRelation s n t) ps sch))
    (runs B L (LimitRelation (ProjectionRelation s ps u) n sch))"
proof -
  have "refines {rmap (project B ps) (take (nat n) xs)} (bindo {rmap (project B ps) xs} (\<lambda>ys. {Inr (take (nat n) ys)}))" for xs
  proof (cases "rmap (project B ps) xs")
    case (Inr ys)
    then have "rmap (project B ps) (take (nat n) xs) = Inr (take (nat n) ys)"
      by (simp add: rmap_Inr_iff list_all2_takeI)
    with Inr show ?thesis by (simp add: refines_def)
  qed (simp add: refines_def fault_free_def)
  then show ?thesis
    by (simp add: runs_projection runs_limit limit_to_def bindo_assoc bindo_mono)
qed

lemma ensureLimited_schema [simp]: "node_wt \<Gamma> s \<Longrightarrow> rel_schema (snd (ensureLimited tp s)) = rel_schema s"
  by (induction tp s rule: ensureLimited.induct) auto

lemma ensureLimited_wt:
  assumes "0 \<le> tp" "rel_wt \<Gamma> s"
  shows "rel_wt \<Gamma> (snd (ensureLimited tp s))"
proof (cases s)
  case (LimitRelation q n sch)
  then show ?thesis
    using assms rel_wt_node [of \<Gamma> "LimitRelation q n sch"] rel_wt_node [of \<Gamma> "LimitRelation q tp sch"] by simp
next
  case (TopKRelation q es desc n sch)
  then show ?thesis
    using assms rel_wt_node [of \<Gamma> "TopKRelation q es desc n sch"] rel_wt_node [of \<Gamma> "TopKRelation q es desc tp sch"] by simp
qed (use assms rel_wt_node [of \<Gamma> "LimitRelation s tp (rel_schema s)"] in simp_all)

lemma limit_union:
  assumes ok: "run_ok X B L \<Gamma>" and "0 \<le> tp"
  shows "refines (limit_to (nat tp) (runs B L (UnionAllRelation (map (\<lambda>s. snd (ensureLimited tp s)) ss) u)))
    (limit_to (nat tp) (runs B L (UnionAllRelation ss u)))"
proof -
  have "list_all2 (agree_to (nat tp)) (map (\<lambda>s. runs B L (snd (ensureLimited tp s))) ss) (map (runs B L) ss)"
    using cut_agree [OF ensureLimited_cut [OF assms(2)]] by (simp add: list_all2_map1 list_all2_map2 list_all2_same)
  from agree_limit [OF agree_mix_all [OF this]] show ?thesis
    using runs_ne [OF ok] by (simp add: runs_union comp_def)
qed

lemma limit_merge:
  assumes "run_ok X B L \<Gamma>" "0 \<le> tp"
  shows "refines (limit_to (nat tp) (runs B L (UnionAllSortedByRelation (snd (ensureLimited tp l)) (snd (ensureLimited tp r)) es desc u)))
    (limit_to (nat tp) (runs B L (UnionAllSortedByRelation l r es desc u)))"
  unfolding runs_merge
  by (intro agree_limit agree_merge ensureLimited_cut assms(2) runs_ne [OF assms(1)])

lemma pushdown_limit_sound:
  assumes ok: "run_ok X B L \<Gamma>" and wt: "rel_wt \<Gamma> (LimitRelation s tp sch)"
  shows "rel_sound B L \<Gamma> (LimitRelation s tp sch) (snd (pushdown_limit s tp sch))"
proof -
  have tp: "0 \<le> tp" and sch: "sch = rel_schema s" using wt_node [OF wt] by simp_all
  have s: "rel_wt \<Gamma> s" using rel_wt_child [OF wt] by simp
  note n = wt_node [OF s] and c = rel_wt_child [OF s]
  show ?thesis
  proof (cases s)
    case (ProjectionRelation q ps u)
    let ?l = "LimitRelation q tp (rel_schema q)"
    have "rel_wt \<Gamma> ?l" using c [of q] tp by (simp add: ProjectionRelation rel_wt_node [of \<Gamma> ?l])
    moreover have "node_wt \<Gamma> (ProjectionRelation ?l ps u)" using n by (simp add: ProjectionRelation rel_fields_def)
    ultimately have "rel_wt \<Gamma> (ProjectionRelation ?l ps u)" by (simp add: rel_wt_node [of \<Gamma> "ProjectionRelation ?l ps u"])
    then show ?thesis by (simp add: ProjectionRelation rel_sound_def sch limit_projection)
  next
    case (SortRelation q es desc u)
    let ?l = "TopKRelation q es desc tp u"
    have "rel_wt \<Gamma> ?l" using c [of q] n tp by (simp add: SortRelation rel_wt_node [of \<Gamma> "TopKRelation q es desc tp w" for w])
    then show ?thesis
      by (simp add: SortRelation rel_sound_def sch runs_limit runs_topk [where sch' = u])
  next
    case (LimitRelation q m u)
    let ?l = "LimitRelation q (min tp m) u"
    have "rel_wt \<Gamma> ?l" "0 \<le> m" using c [of q] n tp by (simp_all add: LimitRelation rel_wt_node [of \<Gamma> "LimitRelation q (min tp m) w" for w])
    then show ?thesis using tp by (simp add: LimitRelation rel_sound_def sch runs_limit limit_limit min_def)
  next
    case (TopKRelation q es desc m u)
    let ?l = "TopKRelation q es desc (min tp m) u"
    have "rel_wt \<Gamma> ?l" "0 \<le> m" using c [of q] n tp by (simp_all add: TopKRelation rel_wt_node [of \<Gamma> "TopKRelation q es desc (min tp m) w" for w])
    then show ?thesis using tp
      by (simp add: TopKRelation rel_sound_def sch runs_limit runs_topk [where sch' = u] limit_limit min_def)
  next
    case (UnionAllRelation ss u)
    let ?u = "UnionAllRelation (map (\<lambda>s. snd (ensureLimited tp s)) ss) u"
    have "\<forall>s \<in> set ss. rel_wt \<Gamma> s \<and> node_wt \<Gamma> s" using c wt_node by (simp add: UnionAllRelation)
    then have "rel_wt \<Gamma> ?u" using n ensureLimited_wt [OF tp]
      by (auto simp: UnionAllRelation rel_wt_node [of \<Gamma> ?u])
    then have "rel_wt \<Gamma> (LimitRelation ?u tp u)" using tp by (simp add: rel_wt_node [of \<Gamma> "LimitRelation ?u tp u"])
    then show ?thesis using limit_union [OF ok tp] by (simp add: UnionAllRelation rel_sound_def sch runs_limit)
  next
    case (UnionAllSortedByRelation l r es desc u)
    let ?u = "UnionAllSortedByRelation (snd (ensureLimited tp l)) (snd (ensureLimited tp r)) es desc u"
    have "rel_wt \<Gamma> l" "rel_wt \<Gamma> r" using c by (simp_all add: UnionAllSortedByRelation)
    moreover from this have "node_wt \<Gamma> l" "node_wt \<Gamma> r" by (simp_all add: wt_node)
    ultimately have "rel_wt \<Gamma> ?u" using n ensureLimited_wt [OF tp]
      by (auto simp: UnionAllSortedByRelation rel_wt_node [of \<Gamma> ?u] rel_fields_def)
    then have "rel_wt \<Gamma> (LimitRelation ?u tp u)" using tp by (simp add: rel_wt_node [of \<Gamma> "LimitRelation ?u tp u"])
    then show ?thesis using limit_merge [OF ok tp] by (simp add: UnionAllSortedByRelation rel_sound_def sch runs_limit)
  qed (use wt rel_sound_refl in simp_all)
qed

lemma limitPushdown_sound:
  assumes "run_ok X B L \<Gamma>" "rel_wt \<Gamma> r" "limitPushdown r = Inr (b, r')"
  shows "rel_sound B L \<Gamma> r r'"
proof (rule rel_walk_sound_simple [OF assms(1,2) assms(3) [unfolded limitPushdown_def]])
  fix r b r' assume r: "rel_wt \<Gamma> r" "Inr (limit_step r) = (Inr (b, r') :: (bool \<times> Relation) res)"
  have "rel_sound B L \<Gamma> r (snd (limit_step r))"
    using r(1) pushdown_limit_sound [OF assms(1)] rel_sound_refl by (cases r) auto
  with r(2) show "rel_sound B L \<Gamma> r r'" by (cases "limit_step r") simp
qed

end
