(* ===== verification/Opt_Filter.thy ===== *)
theory Opt_Filter
  imports Opt_Limit
begin

text \<open>
  src/optimize/filter_pushdown.cpp: a filter moves into the inputs of unions and sorted merges,
  through sorts, and the conjuncts that read only forwarded fields through projections and into the
  left input of left joins.
\<close>

section \<open>Fields of a condition\<close>

text \<open>\<open>FieldRebinder\<close>; its \<open>at\<close> throws on a field that is not in the map.\<close>

fun rebind :: "(FieldId \<rightharpoonup> FieldId) \<Rightarrow> Scalar \<Rightarrow> Scalar res" where
  "rebind m (FieldScalar i t) = (case m i of Some j \<Rightarrow> Inr (FieldScalar j t) | None \<Rightarrow> Inl Out_Of_Range)"
| "rebind m (ValueScalar v t) = Inr (ValueScalar v t)"
| "rebind m (CoalesceScalar as t) = rbind (rmap (rebind m) as) (\<lambda>bs. Inr (CoalesceScalar bs t))"
| "rebind m (FnCallScalar f as t) = rbind (rmap (rebind m) as) (\<lambda>bs. Inr (FnCallScalar f bs t))"
| "rebind m (CachedScalar a t) = rbind (rebind m a) (\<lambda>b. Inr (CachedScalar b t))"

text \<open>\<open>FieldSubsetChecker\<close>\<close>

fun fields_subset :: "Schema \<Rightarrow> Scalar \<Rightarrow> bool" where
  "fields_subset sch (FieldScalar i t) = contains sch i"
| "fields_subset sch (ValueScalar v t) = True"
| "fields_subset sch (CoalesceScalar as t) = list_all (fields_subset sch) as"
| "fields_subset sch (FnCallScalar f as t) = list_all (fields_subset sch) as"
| "fields_subset sch (CachedScalar a t) = fields_subset sch a"

section \<open>Conjuncts\<close>

fun conjunction :: "Scalar option \<Rightarrow> Scalar option \<Rightarrow> Scalar option" where
  "conjunction None r = r"
| "conjunction l None = l"
| "conjunction (Some l) (Some r) = Some (FnCallScalar And_fn [l, r] Boolean)"

definition split_leaf :: "Scalar \<Rightarrow> Schema \<Rightarrow> Scalar option \<times> Scalar option" where
  "split_leaf c sch = (if fields_subset sch c then (Some c, None) else (None, Some c))"

fun splitCondition :: "Scalar \<Rightarrow> Schema \<Rightarrow> (Scalar option \<times> Scalar option) res" where
  "splitCondition (FnCallScalar f as t) sch =
     (if f = And_fn then (case as of
          l # r # _ \<Rightarrow> rbind (splitCondition l sch) (\<lambda>(p, q). rbind (splitCondition r sch) (\<lambda>(p', q').
            Inr (conjunction p p', conjunction q q')))
        | _ \<Rightarrow> Inl Undefined)
      else Inr (split_leaf (FnCallScalar f as t) sch))"
| "splitCondition c sch = Inr (split_leaf c sch)"

section \<open>The pass\<close>

text \<open>The projectors that forward a field: the rebinding and the schema of their aliases.\<close>

fun forwarded :: "Projector list \<Rightarrow> (FieldId \<rightharpoonup> FieldId) \<Rightarrow> Schema \<Rightarrow> ((FieldId \<rightharpoonup> FieldId) \<times> Schema) res" where
  "forwarded [] m sch = Inr (m, sch)"
| "forwarded (p # ps) m sch = (case expr p of
     FieldScalar j t \<Rightarrow> rbind (append_field sch (alias_field_id p)) (forwarded ps (emplace m (alias_field_id p) j))
   | _ \<Rightarrow> forwarded ps m sch)"

text \<open>\<open>pushdown_filter s c sch\<close> is \<open>pushdown\<close> on the filter of \<open>s\<close> by \<open>c\<close> with the schema \<open>sch\<close>;
  \<open>addFilter\<close> gives the filter it makes the schema of its source.\<close>

fun pushdown_filter :: "Relation \<Rightarrow> Scalar \<Rightarrow> Schema \<Rightarrow> (bool \<times> Relation) res" where
  "pushdown_filter (UnionAllRelation ss u) c sch =
     rbind (rmap (\<lambda>s. pushdown_filter s c (rel_schema s)) ss) (\<lambda>ts. Inr (True, UnionAllRelation (map snd ts) u))"
| "pushdown_filter (UnionAllSortedByRelation l r es desc u) c sch =
     rbind (pushdown_filter l c (rel_schema l)) (\<lambda>(_, l'). rbind (pushdown_filter r c (rel_schema r)) (\<lambda>(_, r').
       Inr (True, UnionAllSortedByRelation l' r' es desc u)))"
| "pushdown_filter (ProjectionRelation s ps u) c sch =
     rbind (forwarded ps Map.empty emptySchema) (\<lambda>(m, fields). rbind (splitCondition c fields) (\<lambda>(p, q).
       case p of
         None \<Rightarrow> Inr (False, FilterRelation (ProjectionRelation s ps u) c sch)
       | Some d \<Rightarrow> rbind (rebind m d) (\<lambda>d'. rbind (pushdown_filter s d' (rel_schema s)) (\<lambda>(_, s').
           Inr (True, case q of
             Some e \<Rightarrow> FilterRelation (ProjectionRelation s' ps u) e sch
           | None \<Rightarrow> ProjectionRelation s' ps u)))))"
| "pushdown_filter (LeftJoinRelation l r lk rk u) c sch =
     rbind (splitCondition c (rel_schema l)) (\<lambda>(p, q). case p of
         None \<Rightarrow> Inr (False, FilterRelation (LeftJoinRelation l r lk rk u) c sch)
       | Some d \<Rightarrow> rbind (pushdown_filter l d (rel_schema l)) (\<lambda>(_, l').
           Inr (True, case q of
             Some e \<Rightarrow> FilterRelation (LeftJoinRelation l' r lk rk u) e sch
           | None \<Rightarrow> LeftJoinRelation l' r lk rk u)))"
| "pushdown_filter (SortRelation s es desc u) c sch =
     rbind (pushdown_filter s c (rel_schema s)) (\<lambda>(_, s'). Inr (True, SortRelation s' es desc u))"
| "pushdown_filter s c sch = Inr (False, FilterRelation s c sch)"

fun filter_step :: "Relation pass" where
  "filter_step (FilterRelation s c sch) = pushdown_filter s c sch"
| "filter_step r = Inr (False, r)"

definition filterPushdown :: "Relation pass" where
  "filterPushdown = rel_walk filter_step"

section \<open>Rebinding and splitting\<close>

lemma fields_subset_iff: "fields_subset sch c \<longleftrightarrow> (\<forall>i \<in> scalar_fields c. contains sch i)"
  by (induction c) (auto simp: list_all_iff)

lemma rebind_eval:
  "rebind m c = Inr c' \<Longrightarrow> (\<And>i j. m i = Some j \<Longrightarrow> env' j = env i) \<Longrightarrow> ir_eval_by B env' c' = ir_eval_by B env c"
proof (induction c arbitrary: c')
  case (CoalesceScalar as t)
  then obtain bs where b: "rmap (rebind m) as = Inr bs" "c' = CoalesceScalar bs t" by auto
  have "list_all2 (\<lambda>a b. ir_eval_by B env' b = ir_eval_by B env a) as bs"
    using b(1) CoalesceScalar unfolding rmap_Inr_iff by (auto elim!: list.rel_mono_strong)
  then have "map (ir_eval_by B env') bs = map (ir_eval_by B env) as"
    by (induction rule: list_all2_induct) auto
  then show ?case by (simp only: b(2) ir_eval_by.simps)
next
  case (FnCallScalar f as t)
  then obtain bs where b: "rmap (rebind m) as = Inr bs" "c' = FnCallScalar f bs t" by auto
  have "list_all2 (\<lambda>a b. ir_eval_by B env' b = ir_eval_by B env a) as bs"
    using b(1) FnCallScalar unfolding rmap_Inr_iff by (auto elim!: list.rel_mono_strong)
  then have "rmap (ir_eval_by B env') bs = rmap (ir_eval_by B env) as"
    by (induction rule: list_all2_induct) auto
  then show ?case by (simp only: b(2) ir_eval_by.simps)
qed (auto split: option.splits)

lemma rmap_total: "\<forall>x \<in> set xs. \<exists>y. f x = Inr y \<Longrightarrow> \<exists>ys. rmap f xs = Inr ys"
  by (induction xs) fastforce+

lemma rebind_total: "\<forall>i \<in> scalar_fields c. m i \<noteq> None \<Longrightarrow> \<exists>c'. rebind m c = Inr c'"
proof (induction c)
  case (CoalesceScalar as t)
  then have "\<exists>bs. rmap (rebind m) as = Inr bs" by (intro rmap_total) auto
  then show ?case by auto
next
  case (FnCallScalar f as t)
  then have "\<exists>bs. rmap (rebind m) as = Inr bs" by (intro rmap_total) auto
  then show ?case by auto
qed auto

lemma rebind_type: "rebind m c = Inr c' \<Longrightarrow> value_type c' = value_type c"
  by (cases c) (auto split: option.splits)

lemma rebind_wt:
  assumes "\<And>i j t. m i = Some j \<Longrightarrow> \<Gamma> i = Some t \<Longrightarrow> \<exists>u. \<Gamma> j = Some u \<and> fits u t"
  shows "rebind m c = Inr c' \<Longrightarrow> scalar_wt \<Gamma> c \<Longrightarrow> scalar_wt \<Gamma> c' \<and> scalar_fields c' \<subseteq> ran m"
proof (induction c arbitrary: c')
  case (FieldScalar i t)
  then show ?case using assms by (fastforce intro: ranI fits_trans split: option.splits)
next
  case (CoalesceScalar as t)
  then obtain bs where b: "list_all2 (\<lambda>a b. rebind m a = Inr b) as bs" "c' = CoalesceScalar bs t"
    by (auto simp: rmap_Inr_iff)
  then have "list_all2 (\<lambda>a b. scalar_wt \<Gamma> b \<and> scalar_fields b \<subseteq> ran m \<and> value_type b = value_type a) as bs"
    using CoalesceScalar by (auto elim!: list.rel_mono_strong dest: rebind_type)
  with CoalesceScalar.prems(2) b(2) show ?case
    by (fastforce simp: list_all2_conv_all_nth in_set_conv_nth)
next
  case (FnCallScalar f as t)
  then obtain bs where b: "list_all2 (\<lambda>a b. rebind m a = Inr b) as bs" "c' = FnCallScalar f bs t"
    by (auto simp: rmap_Inr_iff)
  then have r: "list_all2 (\<lambda>a b. scalar_wt \<Gamma> b \<and> scalar_fields b \<subseteq> ran m \<and> value_type b = value_type a) as bs"
    using FnCallScalar by (auto elim!: list.rel_mono_strong dest: rebind_type)
  then have "map value_type bs = map value_type as" by (induction rule: list_all2_induct) auto
  with r FnCallScalar.prems(2) b(2) show ?case
    by (auto simp: list_all2_conv_all_nth in_set_conv_nth) blast+
qed (auto simp: rebind_type)

text \<open>Executors whose conjunction takes the truth of both arguments.\<close>

definition strict_and :: "build \<Rightarrow> bool" where
  "strict_and B \<longleftrightarrow> B And_fn = Inr (BinaryExecutor
     (\<lambda>a b. rbind (get_bool a) (\<lambda>x. rbind (get_bool b) (\<lambda>y. Inr (VBool (x \<and> y))))))"

definition holds :: "build \<Rightarrow> (FieldId \<Rightarrow> Value res) \<Rightarrow> Scalar \<Rightarrow> bool res" where
  "holds B env c = rbind (ir_eval_by B env c) get_bool"

definition all_hold :: "build \<Rightarrow> (FieldId \<Rightarrow> Value res) \<Rightarrow> Scalar option \<Rightarrow> bool res" where
  "all_hold B env c = (case c of None \<Rightarrow> Inr True | Some d \<Rightarrow> holds B env d)"

lemma row_holds_holds: "row_holds B c r = holds B (env_of r) c"
  by (simp add: row_holds_def holds_def row_eval_def)

lemma holds_and:
  assumes "strict_and B"
  shows "holds B env (FnCallScalar And_fn [l, r] t) = Inr b \<longleftrightarrow>
    (\<exists>x y. holds B env l = Inr x \<and> holds B env r = Inr y \<and> b = (x \<and> y))"
  using assms unfolding strict_and_def holds_def
  by (cases "ir_eval_by B env l"; cases "ir_eval_by B env r") (auto simp: get_bool_Inr rbind_Inr_iff)

lemma conjunction_holds:
  "strict_and B \<Longrightarrow> all_hold B env p = Inr x \<Longrightarrow> all_hold B env q = Inr y \<Longrightarrow> all_hold B env (conjunction p q) = Inr (x \<and> y)"
  by (cases p; cases q) (auto simp: all_hold_def holds_and)

lemma split_holds:
  assumes st: "strict_and B"
  shows "splitCondition c sch = Inr (p, q) \<Longrightarrow> scalar_wt \<Gamma> c \<Longrightarrow> holds B env c = Inr b \<Longrightarrow>
    \<exists>x y. all_hold B env p = Inr x \<and> all_hold B env q = Inr y \<and> b = (x \<and> y)"
proof (induction c sch arbitrary: p q b rule: splitCondition.induct)
  case (1 f as t sch)
  show ?case
  proof (cases "f = And_fn")
    case True
    with "1.prems"(2) have "length as = 2" by (auto dest: list_all2_lengthD)
    then obtain l r where as: "as = [l, r]" by (auto simp: length_Suc_conv numeral_2_eq_2)
    with True "1.prems"(1) obtain p1 q1 p2 q2 where s: "splitCondition l sch = Inr (p1, q1)" "splitCondition r sch = Inr (p2, q2)"
      and pq: "p = conjunction p1 p2" "q = conjunction q1 q2" by auto
    from "1.prems"(3) obtain x y where xy: "holds B env l = Inr x" "holds B env r = Inr y" "b = (x \<and> y)"
      unfolding True as holds_and [OF st] by blast
    have wt: "scalar_wt \<Gamma> l" "scalar_wt \<Gamma> r" using "1.prems"(2) by (simp_all add: as)
    from "1.IH"(1) [OF True as refl s(1) wt(1) xy(1)] "1.IH"(2) [OF True as refl s(1) refl s(2) wt(2) xy(2)]
    obtain u1 v1 u2 v2 where "all_hold B env p1 = Inr u1" "all_hold B env q1 = Inr v1" "x = (u1 \<and> v1)"
      "all_hold B env p2 = Inr u2" "all_hold B env q2 = Inr v2" "y = (u2 \<and> v2)" by blast
    with conjunction_holds [OF st, of env p1 u1 p2 u2] conjunction_holds [OF st, of env q1 v1 q2 v2] xy(3) pq
    show ?thesis by auto
  qed (use "1.prems" in \<open>auto simp: split_leaf_def all_hold_def split: if_splits\<close>)
qed (auto simp: split_leaf_def all_hold_def split: if_splits)

definition cond_ok :: "(FieldId \<rightharpoonup> ValueType) \<Rightarrow> FieldSet \<Rightarrow> Scalar option \<Rightarrow> bool" where
  "cond_ok \<Gamma> F c \<longleftrightarrow> (\<forall>d. c = Some d \<longrightarrow> scalar_wt \<Gamma> d \<and> fits (value_type d) Boolean \<and> scalar_fields d \<subseteq> F)"

lemma conjunction_ok: "cond_ok \<Gamma> F p \<Longrightarrow> cond_ok \<Gamma> F q \<Longrightarrow> cond_ok \<Gamma> F (conjunction p q)"
  by (cases p; cases q) (auto simp: cond_ok_def fits_def)

lemma split_ok:
  "splitCondition c sch = Inr (p, q) \<Longrightarrow> cond_ok \<Gamma> F (Some c) \<Longrightarrow>
    cond_ok \<Gamma> (F \<inter> {i. contains sch i}) p \<and> cond_ok \<Gamma> F q"
proof (induction c sch arbitrary: p q rule: splitCondition.induct)
  case (1 f as t sch)
  show ?case
  proof (cases "f = And_fn")
    case True
    with "1.prems"(2) have "length as = 2" by (auto simp: cond_ok_def dest: list_all2_lengthD)
    then obtain l r where as: "as = [l, r]" by (auto simp: length_Suc_conv numeral_2_eq_2)
    with True "1.prems"(1) obtain p1 q1 p2 q2 where s: "splitCondition l sch = Inr (p1, q1)" "splitCondition r sch = Inr (p2, q2)"
      and pq: "p = conjunction p1 p2" "q = conjunction q1 q2" by auto
    have "cond_ok \<Gamma> F (Some l)" "cond_ok \<Gamma> F (Some r)" using "1.prems"(2) by (auto simp: cond_ok_def True as)
    with "1.IH"(1) [OF True as refl s(1)] "1.IH"(2) [OF True as refl s(1) refl s(2)] show ?thesis
      by (simp add: pq conjunction_ok)
  qed (use "1.prems" in \<open>auto simp: split_leaf_def cond_ok_def fields_subset_iff split: if_splits\<close>)
qed (auto simp: split_leaf_def cond_ok_def fields_subset_iff split: if_splits)

section \<open>Filtered outcomes\<close>

definition filt :: "(row \<Rightarrow> bool res) \<Rightarrow> outcomes \<Rightarrow> outcomes" where
  "filt p M = bindo M (\<lambda>xs. {rfilter p xs})"

definition keep :: "(row \<Rightarrow> bool res) \<Rightarrow> row \<Rightarrow> bool" where
  "keep p r \<longleftrightarrow> p r = Inr True"

lemma rfilter_defined: "\<forall>x \<in> set xs. \<exists>b. p x = Inr b \<Longrightarrow> rfilter p xs = Inr (filter (keep p) xs)"
proof (induction xs)
  case (Cons x xs)
  then obtain b where "p x = Inr b" by auto
  with Cons show ?case by (cases b) (simp_all add: keep_def)
qed simp

lemma rfilter_all_defined: "rfilter p xs = Inr ys \<Longrightarrow> \<forall>x \<in> set xs. \<exists>b. p x = Inr b"
  by (induction xs arbitrary: ys) auto

lemma rfilter_Inr: "rfilter p xs = Inr ys \<longleftrightarrow> (\<forall>x \<in> set xs. \<exists>b. p x = Inr b) \<and> ys = filter (keep p) xs"
  using rfilter_defined [of xs p] rfilter_all_defined [of p xs ys] by auto

lemma Inr_filt: "Inr ys \<in> filt p M \<longleftrightarrow>
    (\<exists>xs. Inr xs \<in> M \<and> (\<forall>x \<in> set xs. \<exists>b. p x = Inr b) \<and> ys = filter (keep p) xs)"
  unfolding filt_def Inr_bindo by (metis rfilter_Inr singleton_iff)

lemma fault_free_filt: "fault_free (filt p M) \<longleftrightarrow> fault_free M \<and> (\<forall>xs. Inr xs \<in> M \<longrightarrow> (\<forall>x \<in> set xs. \<exists>b. p x = Inr b))"
proof -
  have "fault_free {rfilter p xs} \<longleftrightarrow> (\<forall>x \<in> set xs. \<exists>b. p x = Inr b)" for xs
    using rfilter_Inr [of p xs] by (cases "rfilter p xs") (auto simp: fault_free_def)
  then show ?thesis by (auto simp: filt_def fault_free_bindo)
qed

lemma runs_filter: "runs B L (FilterRelation s c sch) = filt (row_holds B c) (runs B L s)"
  by (simp add: runs_node filt_def)

lemma refines_Inr: "(fault_free M \<Longrightarrow> fault_free N \<and> (\<forall>ys. Inr ys \<in> N \<longrightarrow> Inr ys \<in> M)) \<Longrightarrow> refines N M"
  unfolding refines_def fault_free_def by (metis obj_sumE subsetI)

text \<open>An operation on two inputs that keeps their rows, and of which the filtered result of filtered
  inputs is one of the filtered results.\<close>

lemma filt_binary:
  assumes ne: "M \<noteq> {}" "N \<noteq> {}" "\<And>xs ys. f xs ys \<noteq> {}"
    and rows: "\<And>xs ys zs. Inr zs \<in> f xs ys \<Longrightarrow> set zs = set xs \<union> set ys"
    and ff: "\<And>xs ys. fault_free (f xs ys) \<Longrightarrow> fault_free (f (filter (keep p) xs) (filter (keep p) ys))"
    and res: "\<And>xs ys zs. fault_free (f xs ys) \<Longrightarrow> Inr zs \<in> f (filter (keep p) xs) (filter (keep p) ys) \<Longrightarrow>
      \<exists>ws. Inr ws \<in> f xs ys \<and> filter (keep p) ws = zs"
  shows "refines (bindo (filt p M) (\<lambda>xs. bindo (filt p N) (f xs))) (filt p (bindo M (\<lambda>xs. bindo N (f xs))))"
proof (rule refines_Inr)
  assume "fault_free (filt p (bindo M (\<lambda>xs. bindo N (f xs))))"
  then have M: "fault_free M" and N: "\<And>xs. Inr xs \<in> M \<Longrightarrow> fault_free N"
    and F: "\<And>xs ys. Inr xs \<in> M \<Longrightarrow> Inr ys \<in> N \<Longrightarrow> fault_free (f xs ys)"
    and D: "\<And>xs ys zs. Inr xs \<in> M \<Longrightarrow> Inr ys \<in> N \<Longrightarrow> Inr zs \<in> f xs ys \<Longrightarrow> \<forall>z \<in> set zs. \<exists>b. p z = Inr b"
    unfolding fault_free_filt fault_free_bindo Inr_bindo by blast+
  have M': "\<exists>xs. Inr xs \<in> M" by (rule fault_free_ne [OF M ne(1)])
  then have N': "fault_free N" using N by blast
  note N' = this fault_free_ne [OF this ne(2)]
  have P: "(\<forall>x \<in> set xs. \<exists>b. p x = Inr b) \<and> (\<forall>y \<in> set ys. \<exists>b. p y = Inr b)" if "Inr xs \<in> M" "Inr ys \<in> N" for xs ys
  proof -
    from F [OF that] ne(3) [of xs ys] obtain zs where "Inr zs \<in> f xs ys" using fault_free_ne by blast
    with rows [OF this] D [OF that this] show ?thesis by blast
  qed
  have "fault_free (filt p M)" "fault_free (filt p N)" using M M' N' P by (auto simp: fault_free_filt)
  then have "fault_free (bindo (filt p M) (\<lambda>xs. bindo (filt p N) (f xs)))"
    using F ff by (auto simp: fault_free_bindo Inr_filt)
  moreover have "Inr zs \<in> filt p (bindo M (\<lambda>xs. bindo N (f xs)))"
    if "Inr zs \<in> bindo (filt p M) (\<lambda>xs. bindo (filt p N) (f xs))" for zs
  proof -
    from that obtain xs ys where xy: "Inr xs \<in> M" "Inr ys \<in> N" "Inr zs \<in> f (filter (keep p) xs) (filter (keep p) ys)"
      by (auto simp: Inr_bindo Inr_filt)
    from res [OF F [OF xy(1,2)] xy(3)] obtain ws where "Inr ws \<in> f xs ys" "filter (keep p) ws = zs" by blast
    with xy D [OF xy(1,2)] show ?thesis by (auto simp: Inr_filt Inr_bindo)
  qed
  ultimately show "fault_free (bindo (filt p M) (\<lambda>xs. bindo (filt p N) (f xs))) \<and>
      (\<forall>ys. Inr ys \<in> bindo (filt p M) (\<lambda>xs. bindo (filt p N) (f xs)) \<longrightarrow> Inr ys \<in> filt p (bindo M (\<lambda>xs. bindo N (f xs))))"
    by blast
qed

lemma shuffles_filter: "zs \<in> shuffles (filter P xs) (filter P ys) \<Longrightarrow> \<exists>ws \<in> shuffles xs ys. filter P ws = zs"
  by (auto simp flip: filter_shuffles)

lemma filt_mix:
  assumes "M \<noteq> {}" "N \<noteq> {}"
  shows "refines (mix (filt p M) (filt p N)) (filt p (mix M N))"
  unfolding mix_def
proof (rule filt_binary [OF assms])
  show "\<exists>ws. Inr ws \<in> Inr ` shuffles xs ys \<and> filter (keep p) ws = zs"
    if "Inr zs \<in> Inr ` shuffles (filter (keep p) xs) (filter (keep p) ys)" for xs ys zs
    using that shuffles_filter [of zs "keep p" xs ys] by auto
qed (auto simp: shuffles_ex fault_free_def dest: set_shuffles)

lemma keyed_filter: "keyed B es xs = Inr ks \<Longrightarrow> keyed B es (filter P xs) = Inr (filter (\<lambda>k. P (snd k)) ks)"
proof -
  have "with_keys B es xs = Inr ks \<Longrightarrow> with_keys B es (filter P xs) = Inr (filter (\<lambda>k. P (snd k)) ks)"
    unfolding with_keys_def by (induction xs arbitrary: ks) auto
  then show "keyed B es xs = Inr ks \<Longrightarrow> keyed B es (filter P xs) = Inr (filter (\<lambda>k. P (snd k)) ks)"
    by (auto simp: keyed_Inr_iff)
qed

lemma filter_merged:
  assumes k: "keyed B es xs = Inr kxs" "keyed B es ys = Inr kys"
    and "Inr zs \<in> merged_outcomes B es desc (filter P xs) (filter P ys)"
  shows "\<exists>ws. Inr ws \<in> merged_outcomes B es desc xs ys \<and> filter P ws = zs"
proof -
  let ?P = "\<lambda>k. P (snd k)" and ?o = "ordered (before desc)"
  from assms(3) obtain us where us: "us \<in> shuffles (filter ?P kxs) (filter ?P kys)" "zs = map snd us"
    "?o (filter ?P kxs) \<Longrightarrow> ?o (filter ?P kys) \<Longrightarrow> ?o us"
    by (auto simp: merged_outcomes_def keyed_filter [OF k(1)] keyed_filter [OF k(2)])
  have "\<exists>ws \<in> shuffles kxs kys. (?o kxs \<longrightarrow> ?o kys \<longrightarrow> ?o ws) \<and> filter ?P ws = us"
  proof (cases "?o kxs \<and> ?o kys")
    case True
    with merge_filter [OF before_weak _ _ _ us(1) us(3)] keyed_no_nan [OF k(1)] keyed_no_nan [OF k(2)]
    show ?thesis by (auto intro: ordered_filter)
  next
    case False
    with shuffles_filter [OF us(1)] show ?thesis by auto
  qed
  then obtain ws where ws: "ws \<in> shuffles kxs kys" "?o kxs \<longrightarrow> ?o kys \<longrightarrow> ?o ws" "filter ?P ws = us" by blast
  then have "filter P (map snd ws) = zs" by (simp add: us(2) filter_map comp_def)
  moreover have "Inr (map snd ws) \<in> merged_outcomes B es desc xs ys" using ws by (auto simp: merged_outcomes_def k)
  ultimately show ?thesis by blast
qed

lemma filter_sorted:
  assumes k: "keyed B es xs = Inr kxs" and "Inr zs \<in> sorted_outcomes B es desc (filter P xs)"
  shows "\<exists>ws. Inr ws \<in> sorted_outcomes B es desc xs \<and> filter P ws = zs"
proof -
  let ?P = "\<lambda>k. P (snd k)"
  from assms(2) obtain us where us: "mset us = mset (filter ?P kxs)" "zs = map snd us" "ordered (before desc) us"
    by (auto simp: sorted_outcomes_def keyed_filter [OF k])
  from sorted_filter [OF before_weak keyed_no_nan [OF k] us(1,3)] obtain ws
    where ws: "mset ws = mset kxs" "ordered (before desc) ws" "filter ?P ws = us" by blast
  then have "filter P (map snd ws) = zs" by (simp add: us(2) filter_map comp_def)
  moreover have "Inr (map snd ws) \<in> sorted_outcomes B es desc xs" using ws by (auto simp: sorted_outcomes_def k)
  ultimately show ?thesis by blast
qed

lemma fault_free_sorted: "fault_free (sorted_outcomes B es desc xs) \<longleftrightarrow> (\<exists>kxs. keyed B es xs = Inr kxs)"
  by (cases "keyed B es xs") (auto simp: sorted_outcomes_def fault_free_def)

lemma filt_sort:
  assumes "M \<noteq> {}"
  shows "refines (bindo (filt p M) (sorted_outcomes B es desc)) (filt p (bindo M (sorted_outcomes B es desc)))"
proof -
  let ?f = "\<lambda>xs ys. sorted_outcomes B es desc (xs @ ys)"
  have "refines (bindo (filt p M) (\<lambda>xs. bindo (filt p {Inr []}) (?f xs))) (filt p (bindo M (\<lambda>xs. bindo {Inr []} (?f xs))))"
  proof (rule filt_binary [OF assms])
    show "set zs = set xs \<union> set ys" if "Inr zs \<in> ?f xs ys" for xs ys zs
    proof -
      from that obtain kxs us where k: "keyed B es (xs @ ys) = Inr kxs" "mset us = mset kxs" "zs = map snd us"
        by (auto simp: sorted_outcomes_def split: sum.splits)
      then have "set zs = snd ` set kxs" by (metis mset_eq_setD set_map)
      with arg_cong [OF keyed_rows [OF k(1)], of set] show ?thesis by simp
    qed
    show "\<exists>ws. Inr ws \<in> ?f xs ys \<and> filter (keep p) ws = zs"
      if "fault_free (?f xs ys)" "Inr zs \<in> ?f (filter (keep p) xs) (filter (keep p) ys)" for xs ys zs
      using that filter_sorted [of B es "xs @ ys" _ zs desc "keep p"] by (auto simp: fault_free_sorted)
    show "fault_free (?f (filter (keep p) xs) (filter (keep p) ys))" if "fault_free (?f xs ys)" for xs ys
      using that keyed_filter [of B es "xs @ ys" _ "keep p"] by (auto simp: fault_free_sorted)
  qed (simp_all add: sorted_ne)
  then show ?thesis by (simp add: filt_def)
qed

lemma filt_merge:
  assumes "M \<noteq> {}" "N \<noteq> {}"
  shows "refines (bindo (filt p M) (\<lambda>xs. bindo (filt p N) (merged_outcomes B es desc xs)))
    (filt p (bindo M (\<lambda>xs. bindo N (merged_outcomes B es desc xs))))"
proof (rule filt_binary [OF assms merged_ne])
  show "set zs = set xs \<union> set ys" if "Inr zs \<in> merged_outcomes B es desc xs ys" for xs ys zs
  proof -
    from that obtain kxs kys us where k: "keyed B es xs = Inr kxs" "keyed B es ys = Inr kys" "us \<in> shuffles kxs kys" "zs = map snd us"
      by (auto simp: merged_outcomes_def split: sum.splits)
    then have "set zs = snd ` set kxs \<union> snd ` set kys" by (auto dest: set_shuffles)
    with arg_cong [OF keyed_rows [OF k(1)], of set] arg_cong [OF keyed_rows [OF k(2)], of set] show ?thesis by simp
  qed
qed (auto simp: fault_free_merged intro: keyed_filter filter_merged)

lemma filt_det:
  assumes "\<And>xs. Inr xs \<in> M \<Longrightarrow> rle (rbind (g xs) (rfilter p)) (rbind (rfilter p' xs) h)"
  shows "refines (bindo (filt p' M) (\<lambda>xs. {h xs})) (filt p (bindo M (\<lambda>xs. {g xs})))"
proof -
  have s: "bindo {m} (\<lambda>x. {f x}) = {rbind m f}" for m and f :: "row list \<Rightarrow> row list res"
    by (cases m) (auto simp: bindo_def)
  show ?thesis unfolding filt_def bindo_assoc s by (rule bindo_mono) (use assms in \<open>simp_all add: refines_det\<close>)
qed

lemma filt_rmap:
  assumes "\<And>r q. f r = Inr q \<Longrightarrow> p q = p' r"
  shows "rle (rbind (rmap f xs) (rfilter p)) (rbind (rfilter p' xs) (rmap f))"
proof (induction xs)
  case (Cons x xs)
  show ?case
  proof (cases "f x")
    case (Inr q)
    with Cons assms [of x q] show ?thesis by (cases "p' x") (auto simp: rle_def)
  qed (simp add: rle_def)
qed (simp add: rle_def)

lemma filt_left:
  assumes "MR \<noteq> {}"
    and "\<And>xs ys. Inr xs \<in> ML \<Longrightarrow> Inr ys \<in> MR \<Longrightarrow> rle (rbind (g xs ys) (rfilter p)) (rbind (rfilter p' xs) (\<lambda>xs'. g xs' ys))"
  shows "refines (bindo (filt p' ML) (\<lambda>xs. bindo MR (\<lambda>ys. {g xs ys}))) (filt p (bindo ML (\<lambda>xs. bindo MR (\<lambda>ys. {g xs ys}))))"
proof -
  have s: "bindo {m} (\<lambda>x. {f x}) = {rbind m f}" for m and f :: "row list \<Rightarrow> row list res"
    by (cases m) (auto simp: bindo_def)
  have "refines (bindo {rfilter p' xs} (\<lambda>xs. bindo MR (\<lambda>ys. {g xs ys}))) (bindo MR (\<lambda>ys. {rbind (g xs ys) (rfilter p)}))"
    if xs: "Inr xs \<in> ML" for xs
  proof (cases "rfilter p' xs")
    case (Inr xs')
    then show ?thesis using assms(2) [OF xs] by (auto intro!: bindo_mono simp: refines_det)
  next
    case (Inl e)
    then have "\<not> (\<exists>ys zs. Inr ys \<in> MR \<and> rbind (g xs ys) (rfilter p) = Inr zs)"
      using assms(2) [OF xs] by (force simp: rle_def)
    then have none: "rbind (g xs ys) (rfilter p) \<noteq> Inr zs" if "Inr ys \<in> MR" for ys zs using that by metis
    have "\<not> fault_free (bindo MR (\<lambda>ys. {rbind (g xs ys) (rfilter p)}))"
    proof
      assume ff: "fault_free (bindo MR (\<lambda>ys. {rbind (g xs ys) (rfilter p)}))"
      then have "fault_free MR" by (simp add: fault_free_bindo)
      from fault_free_ne [OF this assms(1)] obtain ys where ys: "Inr ys \<in> MR" ..
      with ff have "fault_free {rbind (g xs ys) (rfilter p)}" by (simp add: fault_free_bindo)
      then obtain zs where "rbind (g xs ys) (rfilter p) = Inr zs" by (cases "rbind (g xs ys) (rfilter p)") (auto simp: fault_free_def)
      with none [OF ys, of zs] show False by simp
    qed
    then show ?thesis by (simp add: refines_def)
  qed
  from bindo_mono [OF refines_refl this] show ?thesis unfolding filt_def bindo_assoc s .
qed

lemma filt_concat:
  assumes "\<And>l rs. l \<in> set ls \<Longrightarrow> g l = Inr rs \<Longrightarrow> rs \<noteq> [] \<and> (\<forall>r \<in> set rs. p r = p' l)"
  shows "rle (rbind (rbind (rmap g ls) (\<lambda>rss. Inr (concat rss))) (rfilter p))
    (rbind (rfilter p' ls) (\<lambda>ls. rbind (rmap g ls) (\<lambda>rss. Inr (concat rss))))"
  using assms
proof (induction ls)
  case (Cons l ls)
  then have IH: "rle (rbind (rbind (rmap g ls) (\<lambda>rss. Inr (concat rss))) (rfilter p))
    (rbind (rfilter p' ls) (\<lambda>ls. rbind (rmap g ls) (\<lambda>rss. Inr (concat rss))))" by (meson list.set_intros(2))
  show ?case
  proof (cases "g l")
    case (Inr rs)
    with Cons.prems have rs: "rs \<noteq> []" "\<forall>r \<in> set rs. p r = p' l" by auto
    show ?thesis
    proof (cases "p' l")
      case (Inl e)
      then have "rfilter p (rs @ zs) \<noteq> Inr us" for zs us using rs by (cases rs) auto
      then show ?thesis by (auto simp: rle_def Inr)
    next
      case b: (Inr b)
      have "rfilter p (rs @ zs) = rbind (rfilter p zs) (\<lambda>us. Inr (if b then rs @ us else us))" for zs
        using rs(2) by (cases b; induction rs) (simp_all add: b rbind_assoc)
      with IH Inr b show ?thesis by (fastforce simp: rle_def)
    qed
  qed (simp add: rle_def)
qed (simp add: rle_def)

section \<open>Each step is sound\<close>

lemma rel_wt_simps:
  "rel_wt \<Gamma> (UnionAllRelation ss u) \<longleftrightarrow> (\<exists>is. has_schema u is) \<and> (\<forall>s \<in> set ss. rel_wt \<Gamma> s \<and> rel_schema s = u)"
  "rel_wt \<Gamma> (UnionAllSortedByRelation l r es desc u) \<longleftrightarrow>
     exprs_ok \<Gamma> (rel_fields l) es \<and> rel_schema l = u \<and> rel_schema r = u \<and> rel_wt \<Gamma> l \<and> rel_wt \<Gamma> r"
  "rel_wt \<Gamma> (SortRelation s es desc u) \<longleftrightarrow> exprs_ok \<Gamma> (rel_fields s) es \<and> u = rel_schema s \<and> rel_wt \<Gamma> s"
  "rel_wt \<Gamma> (ProjectionRelation s ps u) \<longleftrightarrow>
     projs_ok \<Gamma> (rel_fields s) ps \<and> has_schema u (map alias_field_id ps) \<and> rel_wt \<Gamma> s"
  "rel_wt \<Gamma> (LeftJoinRelation l r lk rk u) \<longleftrightarrow> exprs_ok \<Gamma> (rel_fields l) [lk] \<and> exprs_ok \<Gamma> (rel_fields r) [rk] \<and>
     (\<exists>is js. rel_schema l = schema_of is \<and> rel_schema r = schema_of js \<and> has_schema u (is @ js)) \<and> rel_wt \<Gamma> l \<and> rel_wt \<Gamma> r"
  by (auto simp: rel_wt_node [of \<Gamma> "UnionAllRelation ss u"] rel_wt_node [of \<Gamma> "UnionAllSortedByRelation l r es desc u"]
      rel_wt_node [of \<Gamma> "SortRelation s es desc u"] rel_wt_node [of \<Gamma> "ProjectionRelation s ps u"]
      rel_wt_node [of \<Gamma> "LeftJoinRelation l r lk rk u"])

lemma wt_filter: "rel_wt \<Gamma> (FilterRelation s c sch) \<longleftrightarrow> rel_wt \<Gamma> s \<and> cond_ok \<Gamma> (rel_fields s) (Some c) \<and> sch = rel_schema s"
  by (auto simp: rel_wt_node [of \<Gamma> "FilterRelation s c sch"] exprs_ok_def cond_ok_def)

lemma rel_fields_filter [simp]: "rel_fields (FilterRelation s c sch) = {i. contains sch i}"
  by (simp add: rel_fields_def)

lemma filt_cong: "rel_wt \<Gamma> s \<Longrightarrow> run_ok X B L \<Gamma> \<Longrightarrow> (\<And>r. row_typed \<Gamma> (rel_fields s) r \<Longrightarrow> p r = q r) \<Longrightarrow>
    filt p (runs B L s) = filt q (runs B L s)"
proof -
  assume a: "rel_wt \<Gamma> s" "run_ok X B L \<Gamma>" "\<And>r. row_typed \<Gamma> (rel_fields s) r \<Longrightarrow> p r = q r"
  have "rfilter p xs = rfilter q xs" if "list_all (row_typed \<Gamma> (rel_fields s)) xs" for xs
    using that a(3) by (induction xs) auto
  with runs_typed [OF run_okD(1,2) [OF a(2)] a(1)] show ?thesis
    unfolding filt_def bindo_def ok_rows_def by (auto split: sum.splits)
qed

lemma mix_all_ne: "\<forall>M \<in> set Ms. M \<noteq> {} \<Longrightarrow> mix_all Ms \<noteq> {}"
proof (induction Ms)
  case (Cons M Ms)
  then show ?case unfolding mix_all.simps mix_def by (intro bindo_ne) (auto simp: shuffles_ex)
qed simp

lemma filt_mix_all: "\<forall>M \<in> set Ms. M \<noteq> {} \<Longrightarrow> refines (mix_all (map (filt p) Ms)) (filt p (mix_all Ms))"
proof (induction Ms)
  case (Cons M Ms)
  then have "refines (mix (filt p M) (filt p (mix_all Ms))) (filt p (mix M (mix_all Ms)))"
    by (intro filt_mix mix_all_ne) auto
  moreover have "refines (mix (filt p M) (mix_all (map (filt p) Ms))) (mix (filt p M) (filt p (mix_all Ms)))"
    unfolding mix_def by (intro bindo_mono) (use Cons in auto)
  ultimately show ?case by (auto intro: refines_trans)
qed (simp add: filt_def)

lemma push_union:
  assumes ok: "run_ok X B L \<Gamma>" and wt: "rel_wt \<Gamma> (FilterRelation (UnionAllRelation ss u) c sch)"
  shows "rel_sound B L \<Gamma> (FilterRelation (UnionAllRelation ss u) c sch)
    (UnionAllRelation (map (\<lambda>s. FilterRelation s c (rel_schema s)) ss) u)"
  using wt filt_mix_all [of "map (runs B L) ss"] runs_ne [OF ok]
  by (auto simp: rel_sound_def runs_filter runs_union comp_def wt_filter rel_wt_simps rel_fields_def)

lemma push_merge:
  assumes ok: "run_ok X B L \<Gamma>" and wt: "rel_wt \<Gamma> (FilterRelation (UnionAllSortedByRelation l r es desc u) c sch)"
  shows "rel_sound B L \<Gamma> (FilterRelation (UnionAllSortedByRelation l r es desc u) c sch)
    (UnionAllSortedByRelation (FilterRelation l c (rel_schema l)) (FilterRelation r c (rel_schema r)) es desc u)"
  using wt filt_merge [OF runs_ne [OF ok] runs_ne [OF ok]]
  by (auto simp: rel_sound_def runs_filter runs_merge wt_filter rel_wt_simps rel_fields_def)

lemma push_sort:
  assumes ok: "run_ok X B L \<Gamma>" and wt: "rel_wt \<Gamma> (FilterRelation (SortRelation s es desc u) c sch)"
  shows "rel_sound B L \<Gamma> (FilterRelation (SortRelation s es desc u) c sch)
    (SortRelation (FilterRelation s c (rel_schema s)) es desc u)"
  using wt filt_sort [OF runs_ne [OF ok]]
  by (auto simp: rel_sound_def runs_filter runs_sort wt_filter rel_wt_simps rel_fields_def)

text \<open>A condition in two parts, as two filters.\<close>

definition opt_filter :: "build \<Rightarrow> Scalar option \<Rightarrow> outcomes \<Rightarrow> outcomes" where
  "opt_filter B c M = (case c of None \<Rightarrow> M | Some d \<Rightarrow> filt (row_holds B d) M)"

lemma rfilter_split:
  assumes "\<And>r b. c r = Inr b \<Longrightarrow> \<exists>x y. p r = Inr x \<and> q r = Inr y \<and> b = (x \<and> y)"
  shows "rle (rfilter c xs) (rbind (rfilter p xs) (rfilter q))"
proof (induction xs)
  case (Cons r xs)
  show ?case
  proof (cases "c r")
    case (Inr b)
    with assms obtain x y where xy: "p r = Inr x" "q r = Inr y" "b = (x \<and> y)" by blast
    show ?thesis
      by (cases "rfilter p xs"; cases "rfilter c xs") (use Cons in \<open>auto simp: rle_def Inr xy\<close>)
  qed (simp add: rle_def)
qed (simp add: rle_def)

lemma split_filter:
  assumes st: "strict_and B" and s: "splitCondition c sch = Inr (Some d, q)" and wt: "scalar_wt \<Gamma> c"
  shows "refines (opt_filter B q (filt (row_holds B d) M)) (filt (row_holds B c) M)"
proof -
  have h: "\<exists>x y. row_holds B d r = Inr x \<and> all_hold B (env_of r) q = Inr y \<and> b = (x \<and> y)" if "row_holds B c r = Inr b" for r b
    using split_holds [OF st s wt, of "env_of r" b] that by (auto simp: row_holds_holds all_hold_def)
  have s: "bindo {m} (\<lambda>x. {f x}) = {rbind m f}" for m and f :: "row list \<Rightarrow> row list res"
    by (cases m) (auto simp: bindo_def)
  show ?thesis
  proof (cases q)
    case None
    have "rle (rfilter (row_holds B c) xs) (rfilter (row_holds B d) xs)" for xs
      by (rule rle_rfilter) (use h in \<open>force simp: rle_def all_hold_def None\<close>)
    then show ?thesis unfolding filt_def opt_filter_def None by (auto intro!: bindo_mono simp: refines_det)
  next
    case (Some e)
    have "rle (rfilter (row_holds B c) xs) (rbind (rfilter (row_holds B d) xs) (rfilter (row_holds B e)))" for xs
      by (rule rfilter_split) (use h in \<open>simp add: all_hold_def Some row_holds_holds\<close>)
    then show ?thesis
      unfolding filt_def opt_filter_def Some option.case bindo_assoc s by (intro bindo_mono) (simp_all add: refines_det)
  qed
qed

lemma refines_opt_filter: "refines M N \<Longrightarrow> refines (opt_filter B c M) (opt_filter B c N)"
  by (cases c) (auto simp: opt_filter_def filt_def intro: bindo_mono)

lemma push_split:
  assumes "strict_and B" and wt: "rel_wt \<Gamma> (FilterRelation s c sch)" and s: "splitCondition c fsch = Inr (Some d, q)"
    and t: "rel_wt \<Gamma> t" "rel_schema t = rel_schema s" "refines (runs B L t) (filt (row_holds B d) (runs B L s))"
  shows "rel_sound B L \<Gamma> (FilterRelation s c sch) (case q of Some e \<Rightarrow> FilterRelation t e sch | None \<Rightarrow> t)"
proof -
  have c: "cond_ok \<Gamma> (rel_fields s) (Some c)" "sch = rel_schema s" using wt by (simp_all add: wt_filter)
  have q: "cond_ok \<Gamma> (rel_fields s) q" using split_ok [OF s c(1)] ..
  have "scalar_wt \<Gamma> c" using c(1) by (simp add: cond_ok_def)
  from refines_trans [OF refines_opt_filter [OF t(3)] split_filter [OF assms(1) s this]]
  have "refines (opt_filter B q (runs B L t)) (runs B L (FilterRelation s c sch))" by (simp add: runs_filter)
  then show ?thesis using q t c(2)
    by (cases q) (simp_all add: opt_filter_def rel_sound_def runs_filter wt_filter rel_fields_eq [OF t(2)])
qed

lemma forwarded_from:
  "forwarded ps m sch = Inr (m', sch') \<Longrightarrow> m' i = Some j \<Longrightarrow>
    m i = Some j \<or> (\<exists>p \<in> set ps. alias_field_id p = i \<and> (\<exists>t. expr p = FieldScalar j t))"
proof (induction ps arbitrary: m sch)
  case (Cons p ps)
  show ?case
  proof (cases "expr p")
    case (FieldScalar k t)
    with Cons.prems(1) obtain sch1 where "forwarded ps (emplace m (alias_field_id p) k) sch1 = Inr (m', sch')" by auto
    from Cons.IH [OF this Cons.prems(2)] show ?thesis
      using FieldScalar by (auto simp: emplace_def split: option.splits if_splits)
  qed (use Cons in auto)
qed simp

lemma project_field:
  assumes "project B ps r = Inr q" "distinct (map alias_field_id ps)" "p \<in> set ps" "expr p = FieldScalar j t"
  shows "env_of r j = env_of q (alias_field_id p)"
proof -
  from assms(1) obtain vs where vs: "row_key B (map expr ps) r = Inr vs" "q = row_of (map alias_field_id ps) vs"
    by (auto simp: project_def)
  from assms(3) obtain k where k: "k < length ps" "p = ps ! k" by (auto simp: in_set_conv_nth)
  from vs(1) have "length vs = length ps" "row_eval B (expr p) r = Inr (vs ! k)"
    using k by (auto simp: row_key_def rmap_Inr_iff list_all2_conv_all_nth)
  moreover from this have "q (alias_field_id p) = Some (vs ! k)"
    using k assms(2) unfolding vs(2) row_of_def by (intro map_of_is_SomeI) (auto simp: in_set_zip intro!: exI [of _ k])
  ultimately show ?thesis by (simp add: row_eval_def assms(4)) (simp add: env_of_def)
qed

lemma push_projection:
  assumes wt: "rel_wt \<Gamma> (ProjectionRelation s ps u)" and f: "forwarded ps Map.empty emptySchema = Inr (m, fsch)"
    and d: "scalar_wt \<Gamma> d" "fits (value_type d) Boolean" "rebind m d = Inr d'"
  shows "rel_wt \<Gamma> (FilterRelation s d' (rel_schema s))"
    and "rel_wt \<Gamma> (ProjectionRelation (FilterRelation s d' (rel_schema s)) ps u)"
    and "refines (runs B L (ProjectionRelation (FilterRelation s d' (rel_schema s)) ps u))
      (filt (row_holds B d) (runs B L (ProjectionRelation s ps u)))"
proof -
  from wt have ps: "projs_ok \<Gamma> (rel_fields s) ps" and u: "has_schema u (map alias_field_id ps)" and s: "rel_wt \<Gamma> s"
    by (simp_all add: rel_wt_simps)
  have m: "\<exists>p \<in> set ps. alias_field_id p = i \<and> (\<exists>t. expr p = FieldScalar j t)" if "m i = Some j" for i j
    using forwarded_from [OF f that] by simp
  have "\<exists>u. \<Gamma> j = Some u \<and> fits u t" if ij: "m i = Some j" and t: "\<Gamma> i = Some t" for i j t
  proof -
    from m [OF ij] obtain p w where p: "p \<in> set ps" "alias_field_id p = i" "expr p = FieldScalar j w" by blast
    then have "scalar_wt \<Gamma> (FieldScalar j w)" "fits w t"
      using ps t by (fastforce simp: projs_ok_def exprs_ok_def)+
    then show ?thesis by (auto intro: fits_trans)
  qed
  from rebind_wt [OF this d(3,1)] have d': "scalar_wt \<Gamma> d'" "scalar_fields d' \<subseteq> ran m" by auto
  have "ran m \<subseteq> rel_fields s"
  proof
    fix j assume "j \<in> ran m"
    then obtain i where "m i = Some j" by (auto simp: ran_def)
    from m [OF this] show "j \<in> rel_fields s" using ps by (auto simp: projs_ok_def exprs_ok_def)
  qed
  with d' d(2) s rebind_type [OF d(3)] show w: "rel_wt \<Gamma> (FilterRelation s d' (rel_schema s))"
    by (auto simp: wt_filter cond_ok_def)
  with ps u show "rel_wt \<Gamma> (ProjectionRelation (FilterRelation s d' (rel_schema s)) ps u)"
    by (simp add: rel_wt_simps rel_fields_def)
  have "row_holds B d q = row_holds B d' r" if "project B ps r = Inr q" for r q
  proof -
    have "env_of r j = env_of q i" if ij: "m i = Some j" for i j
      using m [OF ij] project_field [OF \<open>project B ps r = Inr q\<close>] u by (auto simp: has_schema_def fields_ok_def)
    from rebind_eval [OF d(3) this, where B = B] show ?thesis by (simp add: row_holds_def row_eval_def)
  qed
  then show "refines (runs B L (ProjectionRelation (FilterRelation s d' (rel_schema s)) ps u))
      (filt (row_holds B d) (runs B L (ProjectionRelation s ps u)))"
    unfolding runs_projection runs_filter by (intro filt_det filt_rmap)
qed

lemma runs_left: "runs B L (LeftJoinRelation l r lk rk u) =
    bindo (runs B L l) (\<lambda>xs. bindo (runs B L r) (\<lambda>ys. {left_join_rows B lk rk (rel_fields r) xs ys}))"
  by (simp add: runs_node)

lemma left_row_holds:
  assumes "scalar_fields d \<subseteq> F" "dom q \<inter> F = {}"
  shows "row_holds B d (l ++ q) = row_holds B d l"
proof -
  have "env_of (l ++ q) i = env_of l i" if "i \<in> scalar_fields d" for i
  proof -
    have "i \<notin> dom q" using assms that by blast
    then show ?thesis by (simp add: env_of_def map_add_dom_app_simps(3))
  qed
  then show ?thesis unfolding row_holds_def row_eval_def by (metis ir_eval_cong)
qed

lemma left_matches_rows:
  "left_matches F kqs l k \<noteq> []" "q \<in> set (left_matches F kqs l k) \<Longrightarrow> q = l ++ nulls F \<or> (\<exists>(j, r) \<in> set kqs. q = l ++ r)"
  by (auto simp: left_matches_def Let_def split: if_splits)

lemma filt_left_join:
  assumes d: "scalar_fields d \<subseteq> F" and G: "F \<inter> G = {}" "\<forall>y \<in> set ys. dom y = G"
  shows "rle (rbind (left_join_rows B lk rk G xs ys) (rfilter (row_holds B d)))
    (rbind (rfilter (row_holds B d) xs) (\<lambda>xs. left_join_rows B lk rk G xs ys))"
proof (cases "rmap (\<lambda>q. rbind (row_eval B rk q) (\<lambda>k. Inr (k, q))) ys")
  case (Inr kqs)
  have "list_all2 (\<lambda>q k. snd k = q) ys kqs"
    using Inr unfolding rmap_Inr_iff by (auto elim!: list.rel_mono_strong)
  then have "map snd kqs = ys" by (induction rule: list_all2_induct) auto
  with G(2) have kqs: "\<forall>(j, r) \<in> set kqs. dom r = G" by (force simp: image_iff)
  have n: "dom (nulls G) = G" by (auto simp: nulls_def dom_def)
  let ?g = "\<lambda>l. rbind (row_eval B lk l) (\<lambda>k. Inr (left_matches G kqs l k))"
  have "rle (rbind (rbind (rmap ?g xs) (\<lambda>rss. Inr (concat rss))) (rfilter (row_holds B d)))
    (rbind (rfilter (row_holds B d) xs) (\<lambda>ls. rbind (rmap ?g ls) (\<lambda>rss. Inr (concat rss))))"
  proof (rule filt_concat)
    fix l rs assume "?g l = Inr rs"
    then obtain k where rs: "rs = left_matches G kqs l k" by auto
    show "rs \<noteq> [] \<and> (\<forall>r \<in> set rs. row_holds B d r = row_holds B d l)"
    proof (intro conjI ballI)
      fix r assume "r \<in> set rs"
      with left_matches_rows(2) [of r G kqs l k] kqs n obtain q where "r = l ++ q" "dom q = G" unfolding rs by fastforce
      with left_row_holds [OF d, of q B l] G(1) show "row_holds B d r = row_holds B d l" by auto
    qed (simp add: rs left_matches_rows)
  qed
  then show ?thesis by (simp add: left_join_rows_def Inr)
qed (simp add: left_join_rows_def rle_def)

lemma push_left:
  assumes ok: "run_ok X B L \<Gamma>" and wt: "rel_wt \<Gamma> (LeftJoinRelation l r lk rk u)"
    and d: "cond_ok \<Gamma> (rel_fields l) (Some d)"
  shows "rel_wt \<Gamma> (FilterRelation l d (rel_schema l))"
    and "rel_wt \<Gamma> (LeftJoinRelation (FilterRelation l d (rel_schema l)) r lk rk u)"
    and "refines (runs B L (LeftJoinRelation (FilterRelation l d (rel_schema l)) r lk rk u))
      (filt (row_holds B d) (runs B L (LeftJoinRelation l r lk rk u)))"
proof -
  from wt obtain "is" js where s: "rel_schema l = schema_of is" "rel_schema r = schema_of js" "has_schema u (is @ js)"
    and w: "rel_wt \<Gamma> l" "rel_wt \<Gamma> r" by (auto simp: rel_wt_simps)
  show "rel_wt \<Gamma> (FilterRelation l d (rel_schema l))" using w d by (simp add: wt_filter)
  then show "rel_wt \<Gamma> (LeftJoinRelation (FilterRelation l d (rel_schema l)) r lk rk u)"
    using wt by (simp add: rel_wt_simps rel_fields_def)
  have F: "rel_fields l \<inter> rel_fields r = {}"
    using s by (auto simp: rel_fields_schema has_schema_def fields_ok_def)
  have "\<forall>y \<in> set ys. dom y = rel_fields r" if "Inr ys \<in> runs B L r" for ys
    using runs_typed [OF run_okD(1,2) [OF ok] w(2)] that by (auto simp: ok_rows_def list_all_iff row_typed_def)
  with F d show "refines (runs B L (LeftJoinRelation (FilterRelation l d (rel_schema l)) r lk rk u))
      (filt (row_holds B d) (runs B L (LeftJoinRelation l r lk rk u)))"
    unfolding runs_left runs_filter
    by (intro filt_left filt_left_join runs_ne [OF ok]) (auto simp: cond_ok_def)
qed

section \<open>filterPushdown is sound\<close>

lemma sound_wt: "rel_sound B L \<Gamma> a b \<Longrightarrow> rel_wt \<Gamma> b" "rel_sound B L \<Gamma> a b \<Longrightarrow> rel_schema b = rel_schema a"
  "rel_sound B L \<Gamma> a b \<Longrightarrow> refines (runs B L b) (runs B L a)"
  by (simp_all add: rel_sound_def)

lemma pushdown_filter_sound:
  assumes ok: "run_ok X B L \<Gamma>" and st: "strict_and B"
  shows "pushdown_filter s c sch = Inr (b, r') \<Longrightarrow> rel_wt \<Gamma> (FilterRelation s c sch) \<Longrightarrow>
    rel_sound B L \<Gamma> (FilterRelation s c sch) r'"
proof (induction s c sch arbitrary: b r' rule: pushdown_filter.induct)
  case (1 ss u c sch)
  let ?t = "UnionAllRelation (map (\<lambda>s. FilterRelation s c (rel_schema s)) ss) u"
  from "1.prems"(1) obtain ts where ts: "rmap (\<lambda>s. pushdown_filter s c (rel_schema s)) ss = Inr ts"
    "r' = UnionAllRelation (map snd ts) u" by auto
  note t = push_union [OF ok "1.prems"(2)]
  have "rel_wt \<Gamma> (FilterRelation s c (rel_schema s))" if "s \<in> set ss" for s
    using rel_wt_child [OF sound_wt(1) [OF t]] that by simp
  then have "list_all2 (\<lambda>s t. rel_sound B L \<Gamma> (FilterRelation s c (rel_schema s)) (snd t)) ss ts"
    using ts(1) "1.IH" unfolding rmap_Inr_iff by (auto elim!: list.rel_mono_strong)
  then have "list_all2 (rel_sound B L \<Gamma>) (children ?t) (map snd ts)"
    by (simp add: list_all2_map1 list_all2_map2)
  from sound_children [OF ok sound_wt(1) [OF t] this] show ?case
    using rel_sound_trans [OF t] by (simp add: ts(2))
next
  case (2 l r es desc u c sch)
  from "2.prems"(1) obtain b1 l' b2 q' where lr: "pushdown_filter l c (rel_schema l) = Inr (b1, l')"
    "pushdown_filter r c (rel_schema r) = Inr (b2, q')" "r' = UnionAllSortedByRelation l' q' es desc u" by auto
  note t = push_merge [OF ok "2.prems"(2)]
  note w = rel_wt_child [OF sound_wt(1) [OF t]]
  have "rel_sound B L \<Gamma> (FilterRelation l c (rel_schema l)) l'" by (rule "2.IH"(1) [OF lr(1)]) (use w in simp)
  moreover have "rel_sound B L \<Gamma> (FilterRelation r c (rel_schema r)) q'" by (rule "2.IH"(2) [OF lr(1) refl lr(2)]) (use w in simp)
  ultimately show ?case
    using rel_sound_trans [OF t] sound_children [OF ok sound_wt(1) [OF t], of "[l', q']"] by (simp add: lr(3))
next
  case (3 s ps u c sch)
  from "3.prems"(1) obtain m fsch p q where f: "forwarded ps Map.empty emptySchema = Inr (m, fsch)"
    and s: "splitCondition c fsch = Inr (p, q)" by auto
  have wt: "rel_wt \<Gamma> (ProjectionRelation s ps u)" and c: "cond_ok \<Gamma> (rel_fields (ProjectionRelation s ps u)) (Some c)"
    using "3.prems"(2) by (simp_all add: wt_filter)
  show ?case
  proof (cases p)
    case None
    then show ?thesis using "3.prems" f s by (auto simp: rel_sound_refl)
  next
    case (Some d)
    with "3.prems"(1) f s obtain d' b1 s' where d': "rebind m d = Inr d'" "pushdown_filter s d' (rel_schema s) = Inr (b1, s')"
      and r': "r' = (case q of Some e \<Rightarrow> FilterRelation (ProjectionRelation s' ps u) e sch | None \<Rightarrow> ProjectionRelation s' ps u)" by auto
    have "scalar_wt \<Gamma> d" "fits (value_type d) Boolean" using split_ok [OF s c] Some by (auto simp: cond_ok_def)
    note pr = push_projection [OF wt f this d'(1)]
    have "rel_sound B L \<Gamma> (FilterRelation s d' (rel_schema s)) s'"
      by (rule "3.IH" [OF f refl s refl Some d' pr(1)])
    with sound_children [OF ok pr(2), of "[s']"]
    have t: "rel_sound B L \<Gamma> (ProjectionRelation (FilterRelation s d' (rel_schema s)) ps u) (ProjectionRelation s' ps u)" by simp
    show ?thesis unfolding r'
      by (rule push_split [OF st "3.prems"(2) s [unfolded Some] sound_wt(1) [OF t] _ refines_trans [OF sound_wt(3) [OF t] pr(3)]]) simp
  qed
next
  case (4 l r lk rk u c sch)
  from "4.prems"(1) obtain p q where s: "splitCondition c (rel_schema l) = Inr (p, q)" by auto
  have wt: "rel_wt \<Gamma> (LeftJoinRelation l r lk rk u)" and c: "cond_ok \<Gamma> (rel_fields (LeftJoinRelation l r lk rk u)) (Some c)"
    using "4.prems"(2) by (simp_all add: wt_filter)
  show ?case
  proof (cases p)
    case None
    then show ?thesis using "4.prems" s by (auto simp: rel_sound_refl)
  next
    case (Some d)
    with "4.prems"(1) s obtain b1 l' where l': "pushdown_filter l d (rel_schema l) = Inr (b1, l')"
      and r': "r' = (case q of Some e \<Rightarrow> FilterRelation (LeftJoinRelation l' r lk rk u) e sch | None \<Rightarrow> LeftJoinRelation l' r lk rk u)" by auto
    have "cond_ok \<Gamma> (rel_fields l) (Some d)" using split_ok [OF s c] Some by (auto simp: cond_ok_def rel_fields_def)
    note pr = push_left [OF ok wt this]
    have "rel_sound B L \<Gamma> (FilterRelation l d (rel_schema l)) l'" by (rule "4.IH" [OF s refl Some l' pr(1)])
    moreover have "rel_wt \<Gamma> r" using wt by (simp add: rel_wt_simps)
    ultimately have t: "rel_sound B L \<Gamma> (LeftJoinRelation (FilterRelation l d (rel_schema l)) r lk rk u) (LeftJoinRelation l' r lk rk u)"
      using sound_children [OF ok pr(2), of "[l', r]"] rel_sound_refl by simp
    show ?thesis unfolding r'
      by (rule push_split [OF st "4.prems"(2) s [unfolded Some] sound_wt(1) [OF t] _ refines_trans [OF sound_wt(3) [OF t] pr(3)]]) simp
  qed
next
  case (5 s es desc u c sch)
  from "5.prems"(1) obtain b1 s' where s': "pushdown_filter s c (rel_schema s) = Inr (b1, s')" "r' = SortRelation s' es desc u" by auto
  note t = push_sort [OF ok "5.prems"(2)]
  have "rel_sound B L \<Gamma> (FilterRelation s c (rel_schema s)) s'"
    by (rule "5.IH" [OF s'(1)]) (use rel_wt_child [OF sound_wt(1) [OF t]] in simp)
  then show ?case using rel_sound_trans [OF t] sound_children [OF ok sound_wt(1) [OF t], of "[s']"] by (simp add: s'(2))
qed (auto simp: rel_sound_refl)

lemma filterPushdown_sound:
  assumes "run_ok X B L \<Gamma>" "strict_and B" "rel_wt \<Gamma> r" "filterPushdown r = Inr (b, r')"
  shows "rel_sound B L \<Gamma> r r'"
proof (rule rel_walk_sound_simple [OF assms(1,3) assms(4) [unfolded filterPushdown_def]])
  fix r b r' assume "rel_wt \<Gamma> r" "filter_step r = Inr (b, r')"
  with pushdown_filter_sound [OF assms(1,2)] show "rel_sound B L \<Gamma> r r'"
    by (cases r rule: filter_step.cases) (auto simp: rel_sound_refl)
qed

end
