(* ===== verification/Opt_Project.thy ===== *)
theory Opt_Project
  imports Opt_Filter
begin

text \<open>
  src/optimize/projection_collapse.cpp: a projection of a projection is one projection, when that does
  not cost more. The lemmas: the projectors of the outer one, with those of the inner one put in for the
  fields they read, have the values the outer ones have on the rows the inner ones give.
\<close>

section \<open>projection\_collapse.cpp\<close>

text \<open>\<open>ScalarCollapser\<close>: a copy with the inner expression in the place of each field.\<close>

fun collapse :: "(FieldId \<rightharpoonup> Scalar) \<Rightarrow> Scalar \<Rightarrow> Scalar res" where
  "collapse inner (FieldScalar i t) = (case inner i of Some e \<Rightarrow> Inr e | None \<Rightarrow> Inl Panic)"
| "collapse inner (ValueScalar v t) = Inr (ValueScalar v t)"
| "collapse inner (CoalesceScalar as t) = rbind (rmap (collapse inner) as) (\<lambda>bs. Inr (CoalesceScalar bs t))"
| "collapse inner (FnCallScalar f as t) = rbind (rmap (collapse inner) as) (\<lambda>bs. Inr (FnCallScalar f bs t))"
| "collapse inner (CachedScalar a t) = rbind (collapse inner a) (\<lambda>b. Inr (CachedScalar b t))"

definition inner_scalars :: "Projector list \<Rightarrow> (FieldId \<rightharpoonup> Scalar)" where
  "inner_scalars ps = foldl (\<lambda>m p. emplace m (alias_field_id p) (expr p)) Map.empty ps"

definition collapse_projector :: "(FieldId \<rightharpoonup> Scalar) \<Rightarrow> Projector \<Rightarrow> Projector res" where
  "collapse_projector inner p = rbind (collapse inner (expr p)) (\<lambda>e. Inr (p\<lparr>expr := e\<rparr>))"

fun collapse_step :: "settings \<Rightarrow> Relation pass" where
  "collapse_step C (ProjectionRelation (ProjectionRelation s inner isch) ps sch) =
     rbind (rmap (collapse_projector (inner_scalars inner)) ps) (\<lambda>collapsed.
       if scopeCost C (map expr collapsed) >
          scopeCost C (map expr inner) + scopeCost C (map expr ps) + C ProjectionCostOverhead
       then Inr (False, ProjectionRelation (ProjectionRelation s inner isch) ps sch)
       else Inr (True, ProjectionRelation s collapsed sch))"
| "collapse_step C r = Inr (False, r)"

definition projectionCollapse :: "settings \<Rightarrow> Relation pass" where
  "projectionCollapse C = rel_walk (collapse_step C)"

lemma inner_scalars_map_of: "inner_scalars ps = map_of (map (\<lambda>p. (alias_field_id p, expr p)) ps)"
proof -
  have "foldl (\<lambda>m p. emplace m (alias_field_id p) (expr p)) m ps i =
      (case m i of Some e \<Rightarrow> Some e | None \<Rightarrow> map_of (map (\<lambda>p. (alias_field_id p, expr p)) ps) i)" for m i
    by (induction ps arbitrary: m) (auto simp: emplace_def split: option.splits)
  then show ?thesis by (auto simp: inner_scalars_def)
qed

lemma collapse_eval:
  "collapse m s = Inr s' \<Longrightarrow> (\<And>i e. m i = Some e \<Longrightarrow> ir_eval_by B env' e = env i) \<Longrightarrow>
   ir_eval_by B env' s' = ir_eval_by B env s"
proof (induction s arbitrary: s')
  case (CoalesceScalar as t)
  then obtain bs where b: "rmap (collapse m) as = Inr bs" "s' = CoalesceScalar bs t" by auto
  have "list_all2 (\<lambda>a b. ir_eval_by B env' b = ir_eval_by B env a) as bs"
    using b(1) CoalesceScalar unfolding rmap_Inr_iff by (auto elim!: list.rel_mono_strong)
  then have "map (ir_eval_by B env') bs = map (ir_eval_by B env) as"
    by (induction rule: list_all2_induct) auto
  then show ?case by (simp only: b(2) ir_eval_by.simps)
next
  case (FnCallScalar f as t)
  then obtain bs where b: "rmap (collapse m) as = Inr bs" "s' = FnCallScalar f bs t" by auto
  have "list_all2 (\<lambda>a b. ir_eval_by B env' b = ir_eval_by B env a) as bs"
    using b(1) FnCallScalar unfolding rmap_Inr_iff by (auto elim!: list.rel_mono_strong)
  then have "rmap (ir_eval_by B env') bs = rmap (ir_eval_by B env) as"
    by (induction rule: list_all2_induct) auto
  then show ?case by (simp only: b(2) ir_eval_by.simps)
qed (auto split: option.splits)

text \<open>The copy has the types of the original, or types that fit them.\<close>

lemma collapse_wt:
  assumes m: "\<And>i e t. m i = Some e \<Longrightarrow> \<Gamma> i = Some t \<Longrightarrow> scalar_wt \<Gamma> e \<and> fits (value_type e) t \<and> scalar_fields e \<subseteq> F"
  shows "collapse m s = Inr s' \<Longrightarrow> scalar_wt \<Gamma> s \<Longrightarrow>
    scalar_wt \<Gamma> s' \<and> fits (value_type s') (value_type s) \<and> scalar_fields s' \<subseteq> F"
proof (induction s arbitrary: s')
  case (FieldScalar i t)
  then show ?case using m by (fastforce intro: fits_trans split: option.splits)
next
  case (CoalesceScalar as t)
  then obtain bs where b: "list_all2 (\<lambda>a b. collapse m a = Inr b) as bs" "s' = CoalesceScalar bs t"
    by (auto simp: rmap_Inr_iff)
  then have "list_all2 (\<lambda>a b. scalar_wt \<Gamma> b \<and> fits (value_type b) (value_type a) \<and> scalar_fields b \<subseteq> F) as bs"
    using CoalesceScalar by (auto elim!: list.rel_mono_strong)
  then have "\<forall>b \<in> set bs. \<exists>a \<in> set as. scalar_wt \<Gamma> b \<and> fits (value_type b) (value_type a) \<and> scalar_fields b \<subseteq> F"
    by (fastforce simp: list_all2_conv_all_nth in_set_conv_nth)
  with CoalesceScalar.prems(2) b(2) show ?case by simp (blast intro: fits_trans)
next
  case (FnCallScalar f as t)
  then obtain bs where b: "list_all2 (\<lambda>a b. collapse m a = Inr b) as bs" "s' = FnCallScalar f bs t"
    by (auto simp: rmap_Inr_iff)
  then have r: "list_all2 (\<lambda>a b. scalar_wt \<Gamma> b \<and> fits (value_type b) (value_type a) \<and> scalar_fields b \<subseteq> F) as bs"
    using FnCallScalar by (auto elim!: list.rel_mono_strong)
  then have "list_all2 fits (map value_type bs) (map value_type as)" by (auto simp: list_all2_conv_all_nth)
  with r FnCallScalar.prems(2) b(2) show ?case
    by (auto simp: list_all2_conv_all_nth in_set_conv_nth intro: fn_types_fits) blast+
qed (auto intro: fits_trans)

lemma inner_scalars_from: "inner_scalars ps i = Some e \<Longrightarrow> \<exists>p \<in> set ps. alias_field_id p = i \<and> expr p = e"
  by (auto simp: inner_scalars_map_of dest!: map_of_SomeD)

lemma row_of_lookup:
  "distinct is \<Longrightarrow> length vs = length is \<Longrightarrow> k < length is \<Longrightarrow> row_of is vs (is ! k) = Some (vs ! k)"
  unfolding row_of_def by (rule map_of_is_SomeI) (auto simp: in_set_zip)

lemma project_inner:
  assumes "project B inner r = Inr q" "distinct (map alias_field_id inner)" "inner_scalars inner i = Some e"
  shows "ir_eval_by B (env_of r) e = env_of q i"
proof -
  from inner_scalars_from [OF assms(3)] obtain p where "p \<in> set inner" "alias_field_id p = i" "expr p = e" by blast
  then obtain k where k: "k < length inner" "alias_field_id (inner ! k) = i" "expr (inner ! k) = e"
    by (auto simp: in_set_conv_nth)
  from assms(1) obtain vs where vs: "rmap (\<lambda>e. row_eval B e r) (map expr inner) = Inr vs" "q = row_of (map alias_field_id inner) vs"
    by (auto simp: project_def row_key_def)
  from rmap_Inr_length [OF vs(1)] rmap_Inr_nth [OF vs(1), of k] k
  have "length vs = length inner" "row_eval B e r = Inr (vs ! k)" by simp_all
  with row_of_lookup [OF assms(2), of vs k] k vs(2) show ?thesis by (simp add: env_of_def row_eval_def)
qed

lemma collapse_project:
  assumes "rmap (collapse_projector (inner_scalars inner)) ps = Inr cs" "distinct (map alias_field_id inner)"
    and "project B inner r = Inr q"
  shows "project B cs r = project B ps q"
proof -
  have c: "list_all2 (\<lambda>p c. alias_field_id c = alias_field_id p \<and> row_eval B (expr c) r = row_eval B (expr p) q) ps cs"
    using assms(1) unfolding rmap_Inr_iff
  proof (rule list.rel_mono_strong)
    fix p c assume "collapse_projector (inner_scalars inner) p = Inr c"
    then obtain e where e: "collapse (inner_scalars inner) (expr p) = Inr e" "c = p\<lparr>expr := e\<rparr>"
      by (auto simp: collapse_projector_def)
    have "ir_eval_by B (env_of r) e = ir_eval_by B (env_of q) (expr p)"
      by (rule collapse_eval [OF e(1)]) (rule project_inner [OF assms(3,2)])
    then show "alias_field_id c = alias_field_id p \<and> row_eval B (expr c) r = row_eval B (expr p) q"
      by (simp add: e(2) row_eval_def)
  qed
  then have "map alias_field_id cs = map alias_field_id ps" "rmap (\<lambda>e. row_eval B e r) (map expr cs) = rmap (\<lambda>e. row_eval B e q) (map expr ps)"
    by (induction rule: list_all2_induct) auto
  then show ?thesis by (simp add: project_def row_key_def)
qed

lemma collapse_step_sound:
  assumes wt: "rel_wt \<Gamma> r" and st: "collapse_step C r = Inr (b, r')"
  shows "rel_sound B L \<Gamma> r r'"
proof (cases "(C, r)" rule: collapse_step.cases)
  case (1 C' s inner isch ps sch)
  with st obtain cs where cs: "rmap (collapse_projector (inner_scalars inner)) ps = Inr cs"
    and r': "r' = r \<or> r' = ProjectionRelation s cs sch" by (auto split: if_splits)
  from 1 wt have w: "projs_ok \<Gamma> (set (map alias_field_id inner)) ps" "has_schema sch (map alias_field_id ps)"
    "projs_ok \<Gamma> (rel_fields s) inner" "has_schema isch (map alias_field_id inner)" "rel_wt \<Gamma> s"
    by (auto simp: rel_wt_simps has_schema_def rel_fields_def)
  have d: "distinct (map alias_field_id inner)" using w(4) by (simp add: has_schema_def fields_ok_def)
  have m: "scalar_wt \<Gamma> e \<and> fits (value_type e) t \<and> scalar_fields e \<subseteq> rel_fields s"
    if ie: "inner_scalars inner i = Some e" "\<Gamma> i = Some t" for i e t
  proof -
    from inner_scalars_from [OF ie(1)] obtain p where "p \<in> set inner" "alias_field_id p = i" "expr p = e" by blast
    with w(3) ie(2) show ?thesis by (fastforce simp: projs_ok_def exprs_ok_def)
  qed
  have c: "list_all2 (\<lambda>p c. alias_field_id c = alias_field_id p \<and> scalar_wt \<Gamma> (expr c) \<and>
      fits (value_type (expr c)) (value_type (expr p)) \<and> scalar_fields (expr c) \<subseteq> rel_fields s) ps cs"
    using cs unfolding rmap_Inr_iff
  proof (rule list.rel_mono_strong)
    fix p c assume p: "p \<in> set ps" "collapse_projector (inner_scalars inner) p = Inr c"
    then obtain e where e: "collapse (inner_scalars inner) (expr p) = Inr e" "c = p\<lparr>expr := e\<rparr>"
      by (auto simp: collapse_projector_def)
    have "scalar_wt \<Gamma> (expr p)" using w(1) p(1) by (auto simp: projs_ok_def exprs_ok_def)
    from collapse_wt [OF m e(1) this] show "alias_field_id c = alias_field_id p \<and> scalar_wt \<Gamma> (expr c) \<and>
      fits (value_type (expr c)) (value_type (expr p)) \<and> scalar_fields (expr c) \<subseteq> rel_fields s"
      by (simp add: e(2))
  qed
  then have al: "map alias_field_id cs = map alias_field_id ps" by (induction rule: list_all2_induct) auto
  from c w(1) have "projs_ok \<Gamma> (rel_fields s) cs"
    by (fastforce simp: projs_ok_def exprs_ok_def list_all2_conv_all_nth in_set_conv_nth intro: fits_trans)
  with w have wt': "rel_wt \<Gamma> (ProjectionRelation s cs sch)" by (simp add: rel_wt_simps al)
  have "rle (rbind (rmap (project B inner) xs) (rmap (project B ps))) (rmap (project B cs) xs)" for xs
  proof (induction xs)
    case (Cons x xs)
    show ?case
    proof (cases "project B inner x")
      case (Inr q)
      from collapse_project [OF cs d Inr] Cons Inr show ?thesis by (fastforce simp: rle_def)
    qed (simp add: rle_def)
  qed simp
  moreover have "bindo {m} (\<lambda>x. {f x}) = {rbind m f}" for m and f :: "row list \<Rightarrow> row list res"
    by (cases m) (auto simp: bindo_def)
  ultimately have "refines (runs B L (ProjectionRelation s cs sch)) (runs B L r)"
    using 1 by (simp add: runs_projection bindo_assoc bindo_mono refines_det)
  with wt' r' wt 1 show ?thesis by (auto simp: rel_sound_refl) (simp add: rel_sound_def)
qed (use wt st in \<open>auto simp: rel_sound_refl\<close>)

lemma projectionCollapse_sound:
  assumes "run_ok X B L \<Gamma>" "rel_wt \<Gamma> r" "projectionCollapse C r = Inr (b, r')"
  shows "rel_sound B L \<Gamma> r r'"
  using rel_walk_sound_simple [OF assms(1,2) assms(3) [unfolded projectionCollapse_def]] collapse_step_sound by blast

end
