(* ===== verification/Opt_Aggregates.thy ===== *)
theory Opt_Aggregates
  imports Opt_Project
begin

text \<open>
  src/optimize/const_aggregate_fold.cpp (an aggregate of a constant needs no executor) and
  src/optimize/aggregate_deduplicate.cpp (equal aggregates of a node are computed once, under a
  projection that gives every one of them its field).
\<close>

section \<open>const\_aggregate\_fold.cpp\<close>

fun first_const :: "Scalar list \<Rightarrow> Value res" where
  "first_const (ValueScalar v t # as) = Inr v"
| "first_const _ = Inl Undefined"

definition fold_call :: "Function \<Rightarrow> Scalar list \<Rightarrow> (bool \<times> AggregateNode) res" where
  "fold_call f as = (case f of
     CountNonNull_fn \<Rightarrow> rbind (first_const as) (\<lambda>v.
       Inr (True, if val_eq v vnull then ConstAggregate (VInt 0) False else FnCallAggregate CountAll_fn []))
   | Min_fn T \<Rightarrow> rbind (first_const as) (\<lambda>v. Inr (True, ConstAggregate v True))
   | Max_fn T \<Rightarrow> rbind (first_const as) (\<lambda>v. Inr (True, ConstAggregate v True))
   | _ \<Rightarrow> Inr (False, FnCallAggregate f as))"

fun fold_node :: "AggregateNode \<Rightarrow> (bool \<times> AggregateNode) res" where
  "fold_node (FnCallAggregate f as) =
     (if isScalar f \<or> \<not> list_all (\<lambda>a. const_of a \<noteq> None) as then Inr (False, FnCallAggregate f as)
      else fold_call f as)"
| "fold_node n = Inr (False, n)"

definition fold_aggregate :: "Aggregate pass" where
  "fold_aggregate a = rbind (fold_node (agg_node a)) (\<lambda>(b, n). Inr (b, a\<lparr>agg_node := n\<rparr>))"

fun aggregate_fold_step :: "Relation pass" where
  "aggregate_fold_step (AggregateRelation s as sch) =
     rbind (walk_list fold_aggregate as) (\<lambda>(b, bs). Inr (b, AggregateRelation s bs sch))"
| "aggregate_fold_step (GroupRelation s as ks sch) =
     rbind (walk_list fold_aggregate as) (\<lambda>(b, bs). Inr (b, GroupRelation s bs ks sch))"
| "aggregate_fold_step r = Inr (False, r)"

definition constAggregateFold :: "Relation pass" where
  "constAggregateFold = rel_walk aggregate_fold_step"

section \<open>aggregate\_deduplicate.cpp\<close>

text \<open>The aggregates that stay, and for each of the node's aggregates the projector that gives it its
  field; \<open>es\<close> is the map from the aggregates met so far, without their field, to their field.\<close>

definition forward :: "FieldId \<Rightarrow> FieldId \<Rightarrow> ValueType \<Rightarrow> Projector" where
  "forward i j t = \<lparr>alias_field_id = i, expr = FieldScalar j t\<rparr>"

fun dedupe :: "(Aggregate \<times> FieldId) list \<Rightarrow> Aggregate list \<Rightarrow> Aggregate list \<times> Projector list" where
  "dedupe es [] = ([], [])"
| "dedupe es (a # as) =
     (let key = a\<lparr>output_field_id := UnknownFieldId\<rparr> in
      case find (\<lambda>e. aggregate_eq (fst e) key) es of
        Some e \<Rightarrow> (let (ks, ps) = dedupe es as in (ks, forward (output_field_id a) (snd e) (agg_type a) # ps))
      | None \<Rightarrow> (let (ks, ps) = dedupe (es @ [(key, output_field_id a)]) as in
          (a # ks, forward (output_field_id a) (output_field_id a) (agg_type a) # ps)))"

definition forward_key :: "Projector \<Rightarrow> Projector" where
  "forward_key k = forward (alias_field_id k) (alias_field_id k) (value_type (expr k))"

fun deduplicate :: "Relation pass" where
  "deduplicate (AggregateRelation s as sch) =
     (let (ks, ps) = dedupe [] as in
      if length as < 2 \<or> length ks = length as then Inr (False, AggregateRelation s as sch)
      else rbind (schemaFor_aggregates ks) (\<lambda>u. Inr (True, ProjectionRelation (AggregateRelation s ks u) ps sch)))"
| "deduplicate (GroupRelation s as gs sch) =
     (let (ks, ps) = dedupe [] as in
      if length as < 2 \<or> length ks = length as then Inr (False, GroupRelation s as gs sch)
      else rbind (schemaFor_aggregates ks) (\<lambda>u. rbind (schemaFor_projectors gs) (\<lambda>w. rbind (concat_schema u w) (\<lambda>x.
        Inr (True, ProjectionRelation (GroupRelation s ks gs x) (ps @ map forward_key gs) sch)))))"
| "deduplicate r = Inr (False, r)"

definition aggregateDeduplicate :: "Relation pass" where
  "aggregateDeduplicate = rel_walk deduplicate"

section \<open>constAggregateFold is sound\<close>

lemma row_eval_const [simp]: "row_eval B (ValueScalar v t) r = Inr v"
  by (simp add: row_eval_def)

lemma get_as_const: "val_canon v \<Longrightarrow> get_as T v = Inr w \<Longrightarrow> w = v"
  by (cases T; cases v) (auto split: if_splits)

lemma rmap_replicate: "rmap (\<lambda>r. Inr v) rs = Inr (replicate (length rs) v)"
  by (induction rs) auto

lemma count_feed_all:
  assumes "v \<noteq> VNull" "feed_all (CountNonNullAggregator n) (replicate k v) = Inr a" "get a = Inr w"
  shows "rbind (feed_times k (CountAllAggregator n)) get = Inr w"
  using assms(2)
proof (induction k arbitrary: n)
  case (Suc k)
  then show ?case using assms(1) by auto
qed (use assms(3) in auto)

lemma count_feed_null: "feed_all (CountNonNullAggregator n) (replicate k VNull) = Inr a \<Longrightarrow> a = CountNonNullAggregator n"
  by (induction k arbitrary: n) (auto simp: i64_of_def split: if_splits)

lemma extremum_feed_all:
  assumes "val_canon v" "feed_all a (replicate k v) = Inr b"
  shows "a = MinAggregator T q \<Longrightarrow> q = None \<or> q = Some v \<Longrightarrow> get b = Inr (if k = 0 then (case q of None \<Rightarrow> VNull | Some v \<Rightarrow> v) else v)"
    and "a = MaxAggregator T q \<Longrightarrow> q = None \<or> q = Some v \<Longrightarrow> get b = Inr (if k = 0 then (case q of None \<Rightarrow> VNull | Some v \<Rightarrow> v) else v)"
  using assms(2)
proof (induction k arbitrary: a q)
  case (Suc k)
  { case 1
    then obtain c where c: "min_feed T q v = Inr c" "feed_all c (replicate k v) = Inr b" by auto
    show ?case
    proof (cases "v = VNull")
      case True
      with c 1 Suc.IH(1) [of c q] show ?thesis by (cases q) (auto split: if_splits)
    next
      case False
      with c(1) obtain w where "get_as T v = Inr w"
        "c = MinAggregator T (Some (case q of None \<Rightarrow> w | Some cur \<Rightarrow> std_min cur w))" by auto
      moreover from get_as_const [OF assms(1) this(1)] have "w = v" .
      ultimately have "c = MinAggregator T (Some v)" using 1(2) by (auto simp: std_min_def)
      with c(2) Suc.IH(1) [of c "Some v"] show ?thesis by simp
    qed
  next
    case 2
    then obtain c where c: "max_feed T q v = Inr c" "feed_all c (replicate k v) = Inr b" by auto
    show ?case
    proof (cases "v = VNull")
      case True
      with c 2 Suc.IH(2) [of c q] show ?thesis by (cases q) (auto split: if_splits)
    next
      case False
      with c(1) obtain w where "get_as T v = Inr w"
        "c = MaxAggregator T (Some (case q of None \<Rightarrow> w | Some cur \<Rightarrow> std_max cur w))" by auto
      moreover from get_as_const [OF assms(1) this(1)] have "w = v" .
      ultimately have "c = MaxAggregator T (Some v)" using 2(2) by (auto simp: std_max_def)
      with c(2) Suc.IH(2) [of c "Some v"] show ?thesis by simp
    qed }
qed auto

lemma unary_const:
  "rbind (rmap (row_eval B (ValueScalar v t)) rs) (\<lambda>vs. rbind (feed_all a vs) get) =
   rbind (feed_all a (replicate (length rs) v)) get"
  by (simp add: rmap_replicate row_eval_const [abs_def])

lemma fold_node_rle:
  assumes "fold_node n = Inr (b, n')" "agg_node_wt \<Gamma> F n t" "\<forall>f as. n = FnCallAggregate f as \<longrightarrow> (\<forall>a \<in> set as. scalar_canon a)"
  shows "agg_node_wt \<Gamma> F n' t" "rle (agg_node_eval B n rs) (agg_node_eval B n' rs)"
    "\<forall>f as. n' = FnCallAggregate f as \<longrightarrow> (\<forall>a \<in> set as. scalar_canon a)"
proof -
  have "agg_node_wt \<Gamma> F n' t \<and> rle (agg_node_eval B n rs) (agg_node_eval B n' rs) \<and>
    (\<forall>f as. n' = FnCallAggregate f as \<longrightarrow> (\<forall>a \<in> set as. scalar_canon a))"
  proof (cases "n' = n")
    case False
    with assms(1) obtain f as where n: "n = FnCallAggregate f as" and c: "list_all (\<lambda>a. const_of a \<noteq> None) as"
      and f: "fold_call f as = Inr (b, n')" by (cases n) (auto split: if_splits)
    from assms(2) n have wt: "agg_fn_wt f (map value_type as) t" by simp
    have one: "\<exists>v u. as = [ValueScalar v u] \<and> val_canon v \<and> has_type v u" if "length as = 1"
    proof -
      from that obtain a where a: "as = [a]" by (auto simp: length_Suc_conv)
      with c obtain v u where "a = ValueScalar v u" by (auto simp: const_of_Some)
      with a assms(2,3) n show ?thesis by (auto simp: exprs_ok_def)
    qed
    consider "f = CountNonNull_fn" "length as = 1" "t = Integer"
      | T where "f = Min_fn T \<or> f = Max_fn T" "list_all2 fits (map value_type as) [t]"
      using f False n wt by (cases f) (auto simp: fold_call_def)
    then show ?thesis
    proof cases
      case 1
      with one obtain v u where as: "as = [ValueScalar v u]" by blast
      show ?thesis
      proof (cases "v = VNull")
        case True
        with f 1 as have "n' = ConstAggregate (VInt 0) False" by (simp add: fold_call_def)
        moreover have "rle (agg_node_eval B n rs) (Inr (VInt 0))"
          unfolding n 1(1) as agg_node_eval.simps unfolding True
          by (auto simp: rle_def unary_const dest!: count_feed_null)
        ultimately show ?thesis using 1(3) by (simp add: has_type_def)
      next
        case nn: False
        with f 1 as have n': "n' = FnCallAggregate CountAll_fn []" by (simp add: fold_call_def)
        have "rle (agg_node_eval B n rs) (agg_node_eval B n' rs)"
          unfolding n n' 1(1) as agg_node_eval.simps
          by (auto simp: rle_def unary_const count_feed_all [OF nn])
        then show ?thesis using 1(3) by (simp add: n' exprs_ok_def)
      qed
    next
      case (2 T)
      then have "length as = 1" by (auto dest: list_all2_lengthD)
      with one obtain v u where as: "as = [ValueScalar v u]" "val_canon v" "has_type v u" by blast
      with f 2(1) have n': "n' = ConstAggregate v True" by (auto simp: fold_call_def)
      have "rle (agg_node_eval B n rs) (agg_node_eval B n' rs)"
        unfolding n n' as(1) agg_node_eval.simps
        using 2(1) extremum_feed_all [OF as(2), where q = None and T = T]
        by (auto simp: rle_def unary_const split: if_splits)
      moreover have "has_type v t" using 2(2) as by (auto intro: has_type_fits)
      ultimately show ?thesis by (simp add: n')
    qed
  qed (use assms in auto)
  then show "agg_node_wt \<Gamma> F n' t" "rle (agg_node_eval B n rs) (agg_node_eval B n' rs)"
    "\<forall>f as. n' = FnCallAggregate f as \<longrightarrow> (\<forall>a \<in> set as. scalar_canon a)" by blast+
qed

definition aggs_le :: "build \<Rightarrow> Aggregate list \<Rightarrow> Aggregate list \<Rightarrow> bool" where
  "aggs_le B as bs \<longleftrightarrow> list_all2 (\<lambda>a b. output_field_id b = output_field_id a \<and> agg_type b = agg_type a \<and>
     (\<forall>rs. rle (agg_node_eval B (agg_node a) rs) (agg_node_eval B (agg_node b) rs))) as bs"

lemma aggs_le_ids: "aggs_le B as bs \<Longrightarrow> map output_field_id bs = map output_field_id as"
  unfolding aggs_le_def by (induction rule: list_all2_induct) auto

lemma agg_row_le: "aggs_le B as bs \<Longrightarrow> rle (agg_row B as rs) (agg_row B bs rs)"
  unfolding agg_row_def
  by (simp add: aggs_le_ids, intro rle_intros rle_rmap2) (auto simp: aggs_le_def elim!: list.rel_mono_strong)

lemma group_rows_le: "aggs_le B as bs \<Longrightarrow> rle (group_rows B as ks rs) (group_rows B bs ks rs)"
  unfolding group_rows_def group_row_def by (intro rle_intros agg_row_le)

lemma fold_aggregates_sound:
  assumes "walk_list fold_aggregate as = Inr (b, bs)" "aggs_ok \<Gamma> F as" "\<forall>a \<in> set (aggs_args as). scalar_canon a"
  shows "aggs_ok \<Gamma> F bs" "aggs_le B as bs" "\<forall>a \<in> set (aggs_args bs). scalar_canon a"
proof -
  have l: "list_all2 (\<lambda>a b. output_field_id b = output_field_id a \<and> agg_type b = agg_type a \<and>
      agg_node_wt \<Gamma> F (agg_node b) (agg_type a) \<and> (\<forall>a \<in> set (agg_args b). scalar_canon a) \<and>
      (\<forall>rs. rle (agg_node_eval B (agg_node a) rs) (agg_node_eval B (agg_node b) rs))) as bs"
  proof (rule list.rel_mono_strong [OF walk_list_all2 [OF assms(1)]])
    fix a c assume a: "a \<in> set as" "\<exists>b. fold_aggregate a = Inr (b, c)"
    then obtain b n where n: "fold_node (agg_node a) = Inr (b, n)" "c = a\<lparr>agg_node := n\<rparr>"
      by (auto simp: fold_aggregate_def)
    have wt: "agg_node_wt \<Gamma> F (agg_node a) (agg_type a)" using assms(2) a(1) by (auto simp: aggs_ok_def)
    have cn: "\<forall>f xs. agg_node a = FnCallAggregate f xs \<longrightarrow> (\<forall>x \<in> set xs. scalar_canon x)"
    proof (intro allI impI ballI)
      fix f xs x assume "agg_node a = FnCallAggregate f xs" "x \<in> set xs"
      then have "x \<in> set (aggs_args as)" using a(1) by (auto simp: aggs_args_def agg_args_def intro!: bexI [of _ a])
      with assms(3) show "scalar_canon x" by blast
    qed
    from fold_node_rle [OF n(1) wt cn] n(2)
    show "output_field_id c = output_field_id a \<and> agg_type c = agg_type a \<and>
      agg_node_wt \<Gamma> F (agg_node c) (agg_type a) \<and> (\<forall>a \<in> set (agg_args c). scalar_canon a) \<and>
      (\<forall>rs. rle (agg_node_eval B (agg_node a) rs) (agg_node_eval B (agg_node c) rs))"
      by (cases n) (auto simp: agg_args_def)
  qed
  then show "aggs_le B as bs" unfolding aggs_le_def by (rule list.rel_mono_strong) blast
  from l assms(2) show "aggs_ok \<Gamma> F bs"
    by (fastforce simp: aggs_ok_def list_all2_conv_all_nth in_set_conv_nth)
  from l show "\<forall>a \<in> set (aggs_args bs). scalar_canon a"
    by (fastforce simp: aggs_args_def list_all2_conv_all_nth in_set_conv_nth)
qed

lemma rel_wt_aggs:
  "rel_wt \<Gamma> (AggregateRelation s as u) \<longleftrightarrow>
     aggs_ok \<Gamma> (rel_fields s) as \<and> has_schema u (map output_field_id as) \<and> rel_wt \<Gamma> s"
  "rel_wt \<Gamma> (GroupRelation s as ks u) \<longleftrightarrow> aggs_ok \<Gamma> (rel_fields s) as \<and> projs_ok \<Gamma> (rel_fields s) ks \<and>
     has_schema u (map output_field_id as @ map alias_field_id ks) \<and> rel_wt \<Gamma> s"
  by (auto simp: rel_wt_node [of \<Gamma> "AggregateRelation s as u"] rel_wt_node [of \<Gamma> "GroupRelation s as ks u"])

lemma aggregate_fold_step_sound:
  assumes ok: "run_ok X B L \<Gamma>" and wt: "rel_wt \<Gamma> r" and cn: "rel_all (all_scalars scalar_canon) r"
    and st: "aggregate_fold_step r = Inr (b, r')"
  shows "rel_sound B L \<Gamma> r r' \<and> rel_all (all_scalars scalar_canon) r'"
proof (cases r)
  case (AggregateRelation s as sch)
  with st obtain bs where bs: "walk_list fold_aggregate as = Inr (b, bs)" "r' = AggregateRelation s bs sch" by auto
  have cs: "\<forall>a \<in> set (aggs_args as). scalar_canon a" using cn AggregateRelation
    by (simp add: rel_all_node [of _ "AggregateRelation s as sch"] all_scalars_def)
  from wt AggregateRelation have w: "aggs_ok \<Gamma> (rel_fields s) as" "has_schema sch (map output_field_id as)"
    by (simp_all add: rel_wt_aggs)
  note f = fold_aggregates_sound [OF bs(1) w(1) cs]
  have "rel_sound B L \<Gamma> r r'"
    by (rule sound_node [OF ok wt])
      (use AggregateRelation bs(2) f w agg_row_le [OF f(2)] in
        \<open>auto simp: aggs_le_ids [OF f(2)] refines_det intro!: rle_intros\<close>)
  moreover have "rel_all (all_scalars scalar_canon) r'"
    using cn f(3) by (simp add: AggregateRelation bs(2) rel_all_node [of _ "AggregateRelation s as sch"]
      rel_all_node [of _ "AggregateRelation s bs sch"] all_scalars_def)
  ultimately show ?thesis ..
next
  case (GroupRelation s as ks sch)
  with st obtain bs where bs: "walk_list fold_aggregate as = Inr (b, bs)" "r' = GroupRelation s bs ks sch" by auto
  have cs: "\<forall>a \<in> set (aggs_args as). scalar_canon a" using cn GroupRelation
    by (simp add: rel_all_node [of _ "GroupRelation s as ks sch"] all_scalars_def)
  from wt GroupRelation have w: "aggs_ok \<Gamma> (rel_fields s) as" "projs_ok \<Gamma> (rel_fields s) ks"
    "has_schema sch (map output_field_id as @ map alias_field_id ks)" by (simp_all add: rel_wt_aggs)
  note f = fold_aggregates_sound [OF bs(1) w(1) cs]
  have "rel_sound B L \<Gamma> r r'"
    by (rule sound_node [OF ok wt])
      (use GroupRelation bs(2) f w in \<open>auto simp: aggs_le_ids [OF f(2)] intro!: refines_any_order group_rows_le\<close>)
  moreover have "rel_all (all_scalars scalar_canon) r'"
    using cn f(3) by (auto simp: GroupRelation bs(2) rel_all_node [of _ "GroupRelation s as ks sch"]
      rel_all_node [of _ "GroupRelation s bs ks sch"] all_scalars_def)
  ultimately show ?thesis ..
qed (use st wt cn in \<open>auto simp: rel_sound_refl\<close>)

lemma constAggregateFold_sound:
  assumes "run_ok X B L \<Gamma>" "rel_wt \<Gamma> r" "canonical r" "constAggregateFold r = Inr (b, r')"
  shows "rel_sound B L \<Gamma> r r' \<and> canonical r'"
  using rel_walk_sound [OF assms(1) all_scalars_local _ assms(2) assms(3) [unfolded canonical_def]
      assms(4) [unfolded constAggregateFold_def]] aggregate_fold_step_sound [OF assms(1)]
  unfolding canonical_def by blast

section \<open>aggregateDeduplicate is sound\<close>

text \<open>Aggregates of which equality leaves one representation.\<close>

fun agg_node_canon :: "AggregateNode \<Rightarrow> bool" where
  "agg_node_canon (FnCallAggregate f as) = (fn_canon f \<and> list_all scalar_canon as)"
| "agg_node_canon (ConstAggregate v n) = val_canon v"

fun own_aggregates :: "Relation \<Rightarrow> Aggregate list" where
  "own_aggregates (AggregateRelation s as sch) = as"
| "own_aggregates (GroupRelation s as ks sch) = as"
| "own_aggregates _ = []"

definition aggs_canon :: "Relation \<Rightarrow> bool" where
  "aggs_canon r = list_all (\<lambda>a. agg_node_canon (agg_node a)) (own_aggregates r)"

text \<open>The keys of a group have the types of their fields: simplification has made none of them a null
  constant. The projectors over the kept aggregates take the type of the key's expression.\<close>

fun own_keys :: "Relation \<Rightarrow> Projector list" where
  "own_keys (GroupRelation s as ks sch) = ks"
| "own_keys _ = []"

definition keys_exact :: "(FieldId \<rightharpoonup> ValueType) \<Rightarrow> Relation \<Rightarrow> bool" where
  "keys_exact \<Gamma> r = list_all (\<lambda>k. \<Gamma> (alias_field_id k) = Some (value_type (expr k))) (own_keys r)"

definition dedupe_ok :: "(FieldId \<rightharpoonup> ValueType) \<Rightarrow> Relation \<Rightarrow> bool" where
  "dedupe_ok \<Gamma> = rel_all (\<lambda>r. aggs_canon r \<and> keys_exact \<Gamma> r)"

lemma dedupe_ok_local: "node_local (\<lambda>r. aggs_canon r \<and> keys_exact \<Gamma> r)"
proof -
  have "own_aggregates (with_children r cs) = own_aggregates r" "own_keys (with_children r cs) = own_keys r" for r cs
    by (cases r; simp)+
  then show ?thesis by (simp add: node_local_def aggs_canon_def keys_exact_def)
qed

lemma aggregate_eq_canon:
  "agg_node_canon (agg_node a) \<Longrightarrow> agg_node_canon (agg_node b) \<Longrightarrow> aggregate_eq a b \<Longrightarrow>
   agg_node a = agg_node b \<and> agg_type a = agg_type b"
  unfolding aggregate_eq_def
  by (cases "agg_node a"; cases "agg_node b") (auto simp: val_eq_canon dest: fn_eq_canon scalar_eq_canon(2))

definition represents :: "Aggregate set \<Rightarrow> Aggregate \<Rightarrow> Projector \<Rightarrow> bool" where
  "represents K a p \<longleftrightarrow> (\<exists>k \<in> K. p = forward (output_field_id a) (output_field_id k) (agg_type a) \<and>
     agg_node k = agg_node a \<and> agg_type k = agg_type a)"

lemma dedupe_represents:
  assumes "dedupe es as = (ks, ps)" "\<forall>e \<in> set es. \<exists>k \<in> K. e = (k\<lparr>output_field_id := UnknownFieldId\<rparr>, output_field_id k)"
    and "\<forall>a \<in> K \<union> set as. agg_node_canon (agg_node a)"
  shows "set ks \<subseteq> set as \<and> (distinct (map output_field_id as) \<longrightarrow> distinct (map output_field_id ks)) \<and>
    length ks \<le> length as \<and> list_all2 (represents (K \<union> set ks)) as ps"
  using assms
proof (induction es as arbitrary: ks ps K rule: dedupe.induct)
  case (2 es a as)
  let ?key = "a\<lparr>output_field_id := UnknownFieldId\<rparr>"
  show ?case
  proof (cases "find (\<lambda>e. aggregate_eq (fst e) ?key) es")
    case (Some e)
    with "2.prems"(1) obtain qs where d: "dedupe es as = (ks, qs)"
      and ps: "ps = forward (output_field_id a) (snd e) (agg_type a) # qs"
      by (auto simp: Let_def split: prod.splits)
    from Some have e: "e \<in> set es" "aggregate_eq (fst e) ?key" by (auto simp: find_Some_iff in_set_conv_nth)
    with "2.prems"(2) obtain k where k: "k \<in> K" "fst e = k\<lparr>output_field_id := UnknownFieldId\<rparr>" "snd e = output_field_id k"
      by fastforce
    with e(2) aggregate_eq_canon [of "k\<lparr>output_field_id := UnknownFieldId\<rparr>" ?key] "2.prems"(3)
    have "agg_node k = agg_node a" "agg_type k = agg_type a" by auto
    with k have "represents (K \<union> set ks) a (forward (output_field_id a) (snd e) (agg_type a))"
      by (auto simp: represents_def)
    with "2.IH"(2) [OF refl Some d "2.prems"(2)] "2.prems"(3) show ?thesis by (auto simp: ps)
  next
    case None
    with "2.prems"(1) obtain js qs where d: "dedupe (es @ [(?key, output_field_id a)]) as = (js, qs)"
      and ks: "ks = a # js" and ps: "ps = forward (output_field_id a) (output_field_id a) (agg_type a) # qs"
      by (auto simp: Let_def split: prod.splits)
    have "\<forall>e \<in> set (es @ [(?key, output_field_id a)]). \<exists>k \<in> insert a K.
        e = (k\<lparr>output_field_id := UnknownFieldId\<rparr>, output_field_id k)" using "2.prems"(2) by auto
    from "2.IH"(1) [OF refl None d this] "2.prems"(3) show ?thesis
      by (auto simp: ks ps represents_def)
  qed
qed auto

lemma forward_simps [simp]: "alias_field_id (forward i j t) = i" "expr (forward i j t) = FieldScalar j t"
  by (simp_all add: forward_def)

lemma represents_alias: "list_all2 (represents K) as ps \<Longrightarrow> map alias_field_id ps = map output_field_id as"
  by (induction rule: list_all2_induct) (auto simp: represents_def)

lemma represents_key:
  assumes "list_all2 (represents K) as ps" "\<forall>k \<in> K. q (output_field_id k) = Some (ev (agg_node k))"
  shows "row_key B (map expr ps) q = Inr (map (\<lambda>a. ev (agg_node a)) as)"
  using assms(1) unfolding row_key_def
  by (induction rule: list_all2_induct) (use assms(2) in \<open>auto simp: represents_def row_eval_def env_of_def\<close>)

lemma represents_wt:
  assumes r: "list_all2 (represents (set ks)) as ps" and as: "aggs_ok \<Gamma> F as" and ks: "set ks \<subseteq> set as"
  shows "projs_ok \<Gamma> (set (map output_field_id ks)) ps"
proof -
  have "scalar_wt \<Gamma> (expr p) \<and> scalar_fields (expr p) \<subseteq> set (map output_field_id ks) \<and>
      (\<exists>t. \<Gamma> (alias_field_id p) = Some t \<and> fits (value_type (expr p)) t)" if p: "p \<in> set ps" for p
  proof -
    from p r obtain a where a: "a \<in> set as" "represents (set ks) a p"
      by (metis in_set_conv_nth list_all2_conv_all_nth)
    then obtain k where k: "k \<in> set ks" "p = forward (output_field_id a) (output_field_id k) (agg_type a)"
      "agg_type k = agg_type a" by (auto simp: represents_def)
    have "\<Gamma> (output_field_id a) = Some (agg_type a)" "\<Gamma> (output_field_id k) = Some (agg_type k)"
      using as a(1) k(1) ks by (auto simp: aggs_ok_def)
    with k show ?thesis by (simp add: fits_def)
  qed
  then show ?thesis by (auto simp: projs_ok_def exprs_ok_def)
qed

definition agg_value :: "build \<Rightarrow> row list \<Rightarrow> AggregateNode \<Rightarrow> Value" where
  "agg_value B rs n = (case agg_node_eval B n rs of Inr v \<Rightarrow> v | Inl e \<Rightarrow> VNull)"

lemma agg_row_values:
  "agg_row B as rs = Inr r \<longleftrightarrow> (\<forall>a \<in> set as. \<exists>v. agg_node_eval B (agg_node a) rs = Inr v) \<and>
     r = row_of (map output_field_id as) (map (\<lambda>a. agg_value B rs (agg_node a)) as)"
proof -
  have "rmap (\<lambda>a. agg_node_eval B (agg_node a) rs) as = Inr vs \<longleftrightarrow>
      (\<forall>a \<in> set as. \<exists>v. agg_node_eval B (agg_node a) rs = Inr v) \<and> vs = map (\<lambda>a. agg_value B rs (agg_node a)) as" for vs
    by (induction as arbitrary: vs) (auto simp: rbind_Inr_iff agg_value_def split: sum.splits)
  then show ?thesis by (auto simp: agg_row_def rbind_Inr_iff)
qed

lemma row_of_nth: "distinct (map f as) \<Longrightarrow> length vs = length as \<Longrightarrow> i < length as \<Longrightarrow> row_of (map f as) vs (f (as ! i)) = Some (vs ! i)"
  using row_of_lookup [of "map f as" vs i] by simp

lemma row_of_map: "distinct (map f as) \<Longrightarrow> a \<in> set as \<Longrightarrow> row_of (map f as) (map g as) (f a) = Some (g a)"
  using row_of_nth [of f as "map g as"] by (auto simp: in_set_conv_nth)

lemma dom_row_of: "length is = length vs \<Longrightarrow> dom (row_of is vs) = set is"
  by (simp add: row_of_def dom_map_of_zip)

text \<open>The kept aggregates give a row from which the projectors read the row of all aggregates; \<open>kr\<close> is
  the rest of the row, the keys of a group.\<close>

lemma dedupe_row:
  assumes d: "dedupe [] as = (ks, ps)" "\<forall>a \<in> set as. agg_node_canon (agg_node a)" "distinct (map output_field_id as)"
    and r: "agg_row B as rs = Inr r" and kr: "dom kr \<inter> set (map output_field_id as) = {}"
  shows "\<exists>q. agg_row B ks rs = Inr q \<and> dom q = set (map output_field_id ks) \<and>
    row_key B (map expr ps) (q ++ kr) = Inr (map (\<lambda>a. agg_value B rs (agg_node a)) as)"
proof -
  from dedupe_represents [OF d(1), of "{}"] d(2,3)
  have k: "set ks \<subseteq> set as" "distinct (map output_field_id ks)" "list_all2 (represents (set ks)) as ps" by auto
  let ?q = "row_of (map output_field_id ks) (map (\<lambda>a. agg_value B rs (agg_node a)) ks)"
  have q: "agg_row B ks rs = Inr ?q" using r k(1) unfolding agg_row_values by blast
  have "\<forall>k \<in> set ks. (?q ++ kr) (output_field_id k) = Some (agg_value B rs (agg_node k))"
  proof
    fix k' assume k': "k' \<in> set ks"
    then have "output_field_id k' \<notin> dom kr" using kr k(1) by auto
    with row_of_map [OF k(2) k'] show "(?q ++ kr) (output_field_id k') = Some (agg_value B rs (agg_node k'))"
      by (simp add: map_add_dom_app_simps(3))
  qed
  from represents_key [OF k(3) this] q show ?thesis by (auto simp: dom_row_of)
qed

lemma dedupe_agg_rle:
  assumes "dedupe [] as = (ks, ps)" "\<forall>a \<in> set as. agg_node_canon (agg_node a)" "distinct (map output_field_id as)"
  shows "rle (agg_row B as rs) (rbind (agg_row B ks rs) (project B ps))"
proof (unfold rle_def, intro allI impI)
  fix r assume r: "agg_row B as rs = Inr r"
  from dedupe_row [OF assms r, of Map.empty] obtain q where q: "agg_row B ks rs = Inr q"
    "row_key B (map expr ps) q = Inr (map (\<lambda>a. agg_value B rs (agg_node a)) as)" by auto
  have "map alias_field_id ps = map output_field_id as"
    using dedupe_represents [OF assms(1), of "{}"] assms(2) represents_alias by auto
  with q(2) have "project B ps q = Inr r" using r unfolding agg_row_values by (simp add: project_def)
  with q(1) show "rbind (agg_row B ks rs) (project B ps) = Inr r" by simp
qed

lemma forward_keys:
  assumes "distinct (map alias_field_id gs)" "length k = length gs"
  shows "row_key B (map expr (map forward_key gs)) (q ++ row_of (map alias_field_id gs) k) = Inr k"
proof -
  have "row_eval B (expr (forward_key (gs ! i))) (q ++ row_of (map alias_field_id gs) k) = Inr (k ! i)" if "i < length gs" for i
    using row_of_nth [OF assms that] by (simp add: row_eval_def forward_key_def env_of_def map_add_def)
  then show ?thesis unfolding row_key_def rmap_Inr_iff using assms(2) by (simp add: list_all2_conv_all_nth)
qed

lemma row_key_append: "row_key B (es @ fs) r = rbind (row_key B es r) (\<lambda>vs. rbind (row_key B fs r) (\<lambda>ws. Inr (vs @ ws)))"
  by (simp add: row_key_def rmap_append)

lemma row_of_append:
  "length is = length vs \<Longrightarrow> set is \<inter> set js = {} \<Longrightarrow> length js = length ws \<Longrightarrow>
   row_of (is @ js) (vs @ ws) = row_of is vs ++ row_of js ws"
  using map_add_comm [of "map_of (zip is vs)" "map_of (zip js ws)"] by (simp add: row_of_def dom_map_of_zip)

lemma dedupe_group_rle:
  assumes d: "dedupe [] as = (ks, ps)" "\<forall>a \<in> set as. agg_node_canon (agg_node a)"
    and dist: "distinct (map output_field_id as @ map alias_field_id gs)" and k: "length k = length gs"
  shows "rle (group_row B as (map alias_field_id gs) (k, rs))
    (rbind (group_row B ks (map alias_field_id gs) (k, rs)) (project B (ps @ map forward_key gs)))"
proof (unfold rle_def, intro allI impI)
  let ?kr = "row_of (map alias_field_id gs) k"
  fix r assume "group_row B as (map alias_field_id gs) (k, rs) = Inr r"
  then obtain a where a: "agg_row B as rs = Inr a" "r = a ++ ?kr" by (auto simp: group_row_def)
  have "dom ?kr \<inter> set (map output_field_id as) = {}" using dist k by (auto simp: dom_row_of)
  from dedupe_row [OF d _ a(1) this] dist obtain q where q: "agg_row B ks rs = Inr q"
    "row_key B (map expr ps) (q ++ ?kr) = Inr (map (\<lambda>a. agg_value B rs (agg_node a)) as)" by auto
  have "map alias_field_id ps = map output_field_id as"
    using dedupe_represents [OF d(1), of "{}"] d(2) represents_alias by auto
  moreover have "map alias_field_id (map forward_key gs) = map alias_field_id gs" by (simp add: forward_key_def)
  ultimately have "project B (ps @ map forward_key gs) (q ++ ?kr) =
      Inr (row_of (map output_field_id as @ map alias_field_id gs) (map (\<lambda>a. agg_value B rs (agg_node a)) as @ k))"
    using forward_keys [of gs k B q] dist k q(2) by (simp add: project_def row_key_append del: map_map)
  also have "row_of (map output_field_id as @ map alias_field_id gs) (map (\<lambda>a. agg_value B rs (agg_node a)) as @ k) = r"
    using dist k a(1) by (subst row_of_append) (auto simp: a(2) agg_row_values)
  finally show "rbind (group_row B ks (map alias_field_id gs) (k, rs)) (project B (ps @ map forward_key gs)) = Inr r"
    using q(1) by (simp add: group_row_def)
qed

lemma dedupe_length: "dedupe es as = (ks, ps) \<Longrightarrow> length ps = length as \<and> length ks \<le> length as"
  by (induction es as arbitrary: ks ps rule: dedupe.induct) (fastforce simp: Let_def split: option.splits prod.splits)+

lemma schema_of_append: "distinct is \<Longrightarrow> length is < 2 ^ 32 \<Longrightarrow> append_fields emptySchema is = Inr (schema_of is)"
  unfolding schema_of_Nil by (subst append_fields_schema_of) auto

lemma group_all_length:
  "with_keys B (map expr gs) rs = Inr krs \<Longrightarrow> g \<in> set (group_all [] krs) \<Longrightarrow> length (fst g) = length gs"
proof -
  assume k: "with_keys B (map expr gs) rs = Inr krs" and g: "g \<in> set (group_all [] krs)"
  have "list_all (\<lambda>k. length k = length gs) (map fst krs)"
    using with_keys_key [OF k] by (fastforce simp: list_all_iff row_key_def dest: rmap_Inr_length)
  then have "list_all (\<lambda>k. length k = length gs) (map fst (group_all [] krs))" by (rule group_all_keys) simp
  with g show ?thesis by (auto simp: list_all_iff)
qed

lemma dedupe_group_refines:
  assumes d: "dedupe [] as = (ks, ps)" "\<forall>a \<in> set as. agg_node_canon (agg_node a)"
    and dist: "distinct (map output_field_id as @ map alias_field_id gs)"
  shows "refines (bindo (any_order (group_rows B ks gs xs)) (\<lambda>ys. {rmap (project B (ps @ map forward_key gs)) ys}))
    (any_order (group_rows B as gs xs))"
proof (cases "group_rows B as gs xs")
  case (Inr ys)
  let ?G = "map alias_field_id gs" and ?p = "project B (ps @ map forward_key gs)"
  from Inr obtain krs where krs: "with_keys B (map expr gs) xs = Inr krs"
    and ys: "rmap (group_row B as ?G) (group_all [] krs) = Inr ys" by (auto simp: group_rows_def)
  have "list_all2 (\<lambda>g y. \<exists>q. group_row B ks ?G g = Inr q \<and> ?p q = Inr y) (group_all [] krs) ys"
    using ys unfolding rmap_Inr_iff
  proof (rule list.rel_mono_strong)
    fix g y assume g: "g \<in> set (group_all [] krs)" "group_row B as ?G g = Inr y"
    with dedupe_group_rle [OF d dist group_all_length [OF krs g(1)], of B "snd g"]
    show "\<exists>q. group_row B ks ?G g = Inr q \<and> ?p q = Inr y" by (auto simp: rle_def)
  qed
  then have "\<exists>qs. list_all2 (\<lambda>g q. group_row B ks ?G g = Inr q) (group_all [] krs) qs \<and> list_all2 (\<lambda>q y. ?p q = Inr y) qs ys"
    by (induction rule: list_all2_induct) (auto simp: list_all2_Cons1)
  then obtain qs where qs: "group_rows B ks gs xs = Inr qs" and py: "list_all2 (\<lambda>q y. ?p q = Inr y) qs ys"
    by (auto simp: group_rows_def krs rmap_Inr_iff)
  have "\<exists>ws. rmap ?p zs = Inr ws \<and> mset ws = mset ys" if "mset zs = mset qs" for zs
    using list_all2_reorder_left_invariance [OF py that] by (auto simp: rmap_Inr_iff)
  then show ?thesis
    unfolding qs Inr any_order_def sum.case by (intro refines_Inr) (fastforce simp: bindo_def fault_free_def)
qed (simp add: any_order_def refines_def fault_free_def)

lemma deduplicate_sound:
  assumes ok: "run_ok X B L \<Gamma>" and wt: "rel_wt \<Gamma> r" and cn: "aggs_canon r" "keys_exact \<Gamma> r" and st: "deduplicate r = Inr (b, r')"
  shows "rel_sound B L \<Gamma> r r'"
proof (cases r)
  case (AggregateRelation s as sch)
  obtain ks ps where d: "dedupe [] as = (ks, ps)" by fastforce
  have c: "\<forall>a \<in> set as. agg_node_canon (agg_node a)" using cn(1) by (simp add: aggs_canon_def AggregateRelation list_all_iff)
  from wt AggregateRelation have w: "aggs_ok \<Gamma> (rel_fields s) as" "has_schema sch (map output_field_id as)" "rel_wt \<Gamma> s"
    by (simp_all add: rel_wt_aggs)
  have dist: "distinct (map output_field_id as)" "length as < 2 ^ 32" using w(2) by (simp_all add: has_schema_def fields_ok_def)
  from dedupe_represents [OF d, of "{}"] c dist(1)
  have k: "set ks \<subseteq> set as" "distinct (map output_field_id ks)" "length ks \<le> length as" "list_all2 (represents (set ks)) as ps" by auto
  let ?u = "schema_of (map output_field_id ks)"
  let ?t = "ProjectionRelation (AggregateRelation s ks ?u) ps sch"
  have u: "schemaFor_aggregates ks = Inr ?u" using k dist by (simp add: schemaFor_aggregates_def schema_of_append)
  have al: "map alias_field_id ps = map output_field_id as" by (rule represents_alias [OF k(4)])
  have "rel_fields (AggregateRelation s ks ?u) = set (map output_field_id ks)" by (simp add: rel_fields_def)
  with represents_wt [OF k(4) w(1) k(1)] w k dist have t: "rel_wt \<Gamma> ?t"
    by (auto simp: rel_wt_simps rel_wt_aggs al has_schema_def fields_ok_def aggs_ok_def subset_iff)
  have "rle (rbind (agg_row B as xs) (\<lambda>r. Inr [r])) (rbind (rbind (agg_row B ks xs) (\<lambda>r. Inr [r])) (rmap (project B ps)))" for xs
    using dedupe_agg_rle [OF d c dist(1), of B xs] by (cases "agg_row B as xs") (auto simp: rle_def)
  moreover have "bindo {m} (\<lambda>x. {f x}) = {rbind m f}" for m and f :: "row list \<Rightarrow> row list res"
    by (cases m) (auto simp: bindo_def)
  ultimately have "refines (runs B L ?t) (runs B L r)"
    by (simp add: AggregateRelation runs_projection runs_node bindo_assoc bindo_mono refines_det)
  moreover have "r' = r \<or> r' = ?t" using st by (auto simp: AggregateRelation d u split: if_splits)
  ultimately show ?thesis using t wt by (auto simp: rel_sound_refl) (simp add: rel_sound_def AggregateRelation)
next
  case (GroupRelation s as gs sch)
  obtain ks ps where d: "dedupe [] as = (ks, ps)" by fastforce
  have c: "\<forall>a \<in> set as. agg_node_canon (agg_node a)" using cn(1) by (simp add: aggs_canon_def GroupRelation list_all_iff)
  from wt GroupRelation have w: "aggs_ok \<Gamma> (rel_fields s) as" "projs_ok \<Gamma> (rel_fields s) gs"
    "has_schema sch (map output_field_id as @ map alias_field_id gs)" "rel_wt \<Gamma> s" by (simp_all add: rel_wt_aggs)
  have dist: "distinct (map output_field_id as @ map alias_field_id gs)" "length as + length gs < 2 ^ 32"
    using w(3) by (simp_all add: has_schema_def fields_ok_def)
  from dedupe_represents [OF d, of "{}"] c dist(1)
  have k: "set ks \<subseteq> set as" "distinct (map output_field_id ks)" "length ks \<le> length as" "list_all2 (represents (set ks)) as ps" by auto
  have kd: "distinct (map output_field_id ks @ map alias_field_id gs)" using k dist(1) by auto
  let ?u = "schema_of (map output_field_id ks @ map alias_field_id gs)"
  let ?g = "GroupRelation s ks gs ?u"
  let ?t = "ProjectionRelation ?g (ps @ map forward_key gs) sch"
  have u: "schemaFor_aggregates ks = Inr (schema_of (map output_field_id ks))"
    "schemaFor_projectors gs = Inr (schema_of (map alias_field_id gs))"
    using kd k(3) dist(2) by (simp_all add: schemaFor_aggregates_def schemaFor_projectors_def schema_of_append)
  have x: "concat_schema (schema_of (map output_field_id ks)) (schema_of (map alias_field_id gs)) = Inr ?u"
    using kd k(3) dist(2) by (subst concat_schema_of) auto
  have al: "map alias_field_id (ps @ map forward_key gs) = map output_field_id as @ map alias_field_id gs"
    using represents_alias [OF k(4)] by (simp add: forward_key_def)
  have F: "rel_fields ?g = set (map output_field_id ks) \<union> set (map alias_field_id gs)" by (auto simp: rel_fields_def)
  have "projs_ok \<Gamma> (rel_fields ?g) (map forward_key gs)"
    using cn(2) unfolding F by (simp add: keys_exact_def GroupRelation list_all_iff projs_ok_def exprs_ok_def forward_key_def fits_def)
  moreover have "projs_ok \<Gamma> (rel_fields ?g) ps"
    using represents_wt [OF k(4) w(1) k(1)] unfolding F by (auto simp: projs_ok_def exprs_ok_def)
  ultimately have "projs_ok \<Gamma> (rel_fields ?g) (ps @ map forward_key gs)" by (auto simp: projs_ok_def exprs_ok_def)
  moreover have "rel_wt \<Gamma> ?g"
    using w k kd dist(2) by (auto simp: rel_wt_aggs has_schema_def fields_ok_def aggs_ok_def)
  ultimately have t: "rel_wt \<Gamma> ?t" using w(3) by (simp only: rel_wt_simps al)
  have "refines (runs B L ?t) (runs B L r)"
    using dedupe_group_refines [OF d c dist(1)]
    by (simp add: GroupRelation runs_projection runs_node bindo_assoc bindo_mono)
  moreover have "r' = r \<or> r' = ?t" using st by (auto simp: GroupRelation d u x split: if_splits)
  ultimately show ?thesis using t wt by (auto simp: rel_sound_refl) (simp add: rel_sound_def GroupRelation)
qed (use st wt in \<open>auto simp: rel_sound_refl\<close>)

lemma deduplicate_ok:
  assumes c: "dedupe_ok \<Gamma> r" and st: "deduplicate r = Inr (b, r')"
  shows "dedupe_ok \<Gamma> r'"
proof -
  let ?N = "\<lambda>r. aggs_canon r \<and> keys_exact \<Gamma> r"
  have proj: "dedupe_ok \<Gamma> (ProjectionRelation s ps sch) = dedupe_ok \<Gamma> s" for s ps sch
    unfolding dedupe_ok_def by (subst rel_all_node) (simp add: aggs_canon_def keys_exact_def)
  have agg: "dedupe_ok \<Gamma> (AggregateRelation s as u) \<longleftrightarrow> (\<forall>a \<in> set as. agg_node_canon (agg_node a)) \<and> dedupe_ok \<Gamma> s"
    "dedupe_ok \<Gamma> (GroupRelation s as gs u) \<longleftrightarrow> (\<forall>a \<in> set as. agg_node_canon (agg_node a)) \<and>
      keys_exact \<Gamma> (GroupRelation s as gs u) \<and> dedupe_ok \<Gamma> s" for s as gs u
    unfolding dedupe_ok_def by (subst rel_all_node, simp add: aggs_canon_def keys_exact_def list_all_iff)+
  have sub: "set ks \<subseteq> set as" if "dedupe [] as = (ks, ps)" "\<forall>a \<in> set as. agg_node_canon (agg_node a)" for as ks ps
    using dedupe_represents [OF that(1), of "{}"] that(2) by auto
  show ?thesis
  proof (cases r rule: deduplicate.cases)
    case (1 s as sch)
    obtain ks ps where d: "dedupe [] as = (ks, ps)" by fastforce
    have "\<forall>a \<in> set ks. agg_node_canon (agg_node a)" using sub [OF d] c by (auto simp: 1 agg)
    with st c show ?thesis by (auto simp: 1 d proj agg split: if_splits)
  next
    case (2 s as gs sch)
    obtain ks ps where d: "dedupe [] as = (ks, ps)" by fastforce
    have "\<forall>a \<in> set ks. agg_node_canon (agg_node a)" using sub [OF d] c by (auto simp: 2 agg)
    with st c show ?thesis by (auto simp: 2 d proj agg keys_exact_def split: if_splits)
  qed (use c st in auto)
qed

lemma aggregateDeduplicate_sound:
  assumes "run_ok X B L \<Gamma>" "rel_wt \<Gamma> r" "dedupe_ok \<Gamma> r" "aggregateDeduplicate r = Inr (b, r')"
  shows "rel_sound B L \<Gamma> r r'"
proof -
  let ?N = "\<lambda>r. aggs_canon r \<and> keys_exact \<Gamma> r"
  have "rel_sound B L \<Gamma> r r' \<and> rel_all ?N r'"
  proof (rule rel_walk_sound [OF assms(1) dedupe_ok_local _ assms(2) assms(3) [unfolded dedupe_ok_def]
        assms(4) [unfolded aggregateDeduplicate_def]])
    fix r b r' assume r: "rel_wt \<Gamma> r" "rel_all ?N r" "deduplicate r = Inr (b, r')"
    then have "aggs_canon r" "keys_exact \<Gamma> r" by (simp_all add: rel_all_node [of _ r])
    with r deduplicate_sound [OF assms(1)] deduplicate_ok [unfolded dedupe_ok_def]
    show "rel_sound B L \<Gamma> r r' \<and> rel_all ?N r'" by blast
  qed
  then show ?thesis ..
qed

end
