(* ===== verification/Optimize.thy ===== *)
theory Optimize
  imports Opt_Aggregates
begin

text \<open>
  src/optimize/optimize.cpp and the loop around it in src/cli/run.h: the order of the passes, the
  change flag that ends the loop, and the statements of a program. The optimised program gives only
  results the written one gives, when no filter condition of the written one relies on the
  short-circuit of \<open>AND\<close> to avoid a fault.
\<close>

section \<open>Statements and passes\<close>

datatype Statement =
    NamedRelationStatement string Relation
  | QueryStatement Relation

type_synonym Program = "Statement list"

fun on_statement :: "Relation pass \<Rightarrow> Statement pass" where
  "on_statement p (NamedRelationStatement n r) = rbind (p r) (\<lambda>(b, q). Inr (b, NamedRelationStatement n q))"
| "on_statement p (QueryStatement r) = rbind (p r) (\<lambda>(b, q). Inr (b, QueryStatement q))"

definition on_program :: "Relation pass \<Rightarrow> Program pass" where
  "on_program p = walk_list (on_statement p)"

fun in_order :: "('a pass) list \<Rightarrow> 'a pass" where
  "in_order [] x = Inr (False, x)"
| "in_order (p # ps) x = rbind (p x) (\<lambda>(b, y). rbind (in_order ps y) (\<lambda>(c, z). Inr (b \<or> c, z)))"

definition passes :: "ext \<Rightarrow> settings \<Rightarrow> (Relation pass) list" where
  "passes X C = [constScalarFold X, scalarSimplify, constScalarFold X, constAggregateFold, aggregateDeduplicate,
     relationSimplify, filterPushdown, limitPushdown, scalarCache C, projectionCollapse C, emptyRelationPrune]"

definition optimize :: "ext \<Rightarrow> settings \<Rightarrow> Program pass" where
  "optimize X C = in_order (map on_program (passes X C))"

text \<open>The loop of src/cli/run.h: at most \<open>Passes\<close> rounds, ended by the first that changes nothing.\<close>

fun optimize_loop :: "ext \<Rightarrow> settings \<Rightarrow> nat \<Rightarrow> Program \<Rightarrow> Program res" where
  "optimize_loop X C 0 p = Inr p"
| "optimize_loop X C (Suc n) p =
     rbind (optimize X C p) (\<lambda>(b, q). if b then optimize_loop X C n q else Inr q)"

definition optimize_program :: "ext \<Rightarrow> settings \<Rightarrow> Program \<Rightarrow> Program res" where
  "optimize_program X C p = optimize_loop X C (nat (C Passes)) p"

section \<open>Executors that fail more often\<close>

text \<open>\<open>agree M N\<close>: where \<open>M\<close> has no fault, \<open>N\<close> has the same outcomes.\<close>

definition agree :: "outcomes \<Rightarrow> outcomes \<Rightarrow> bool" where
  "agree M N \<longleftrightarrow> (fault_free M \<longrightarrow> N = M)"

lemma agree_refl [simp]: "agree M M"
  by (simp add: agree_def)

lemma agree_det: "rle m m' \<Longrightarrow> agree {m} {m'}"
  by (cases m) (auto simp: agree_def fault_free_def rle_def)

lemma agree_any_order: "rle m m' \<Longrightarrow> agree (any_order m) (any_order m')"
  by (cases m) (auto simp: agree_def fault_free_def rle_def any_order_def)

lemma bindo_agree:
  assumes "agree M N" "\<And>xs. Inr xs \<in> M \<Longrightarrow> agree (f xs) (g xs)"
  shows "agree (bindo M f) (bindo N g)"
proof -
  have "bindo N g = bindo M f" if ff: "fault_free (bindo M f)"
  proof -
    from ff have M: "fault_free M" and f: "\<And>xs. Inr xs \<in> M \<Longrightarrow> fault_free (f xs)" by (auto simp: fault_free_bindo)
    have N: "N = M" using assms(1) M by (simp add: agree_def)
    have "g xs = f xs" if "Inr xs \<in> M" for xs using assms(2) f that by (simp add: agree_def)
    then show ?thesis unfolding N bindo_def by (auto split: sum.splits)
  qed
  then show ?thesis by (simp add: agree_def)
qed

lemma bind_all_agree:
  "list_all2 agree Ms Ns \<Longrightarrow> (\<And>xss. agree (f xss) (g xss)) \<Longrightarrow> agree (bind_all Ms f) (bind_all Ns g)"
proof (induction arbitrary: f g rule: list_all2_induct)
  case (Cons M Ms N Ns)
  show ?case unfolding bind_all.simps by (rule bindo_agree [OF Cons.hyps(1)]) (use Cons in auto)
qed simp

text \<open>An executor table under which every call gives what it gives under the other, or fails.\<close>

definition build_le :: "build \<Rightarrow> build \<Rightarrow> bool" where
  "build_le B B' \<longleftrightarrow> (\<forall>f e vs w. B f = Inr e \<longrightarrow> execute e vs = Inr w \<longrightarrow> (\<exists>e'. B' f = Inr e' \<and> execute e' vs = Inr w))"

lemma restricts_build_le: "restricts X B \<longleftrightarrow> build_le B (buildScalar X)"
  by (simp add: restricts_def build_le_def)

lemma coalesce_res_le: "list_all2 rle ms ns \<Longrightarrow> rle (coalesce_res ms) (coalesce_res ns)"
  by (induction rule: list_all2_induct) (auto simp: rle_def)

lemma eval_le: "build_le B B' \<Longrightarrow> rle (ir_eval_by B env s) (ir_eval_by B' env s)"
proof (induction s)
  case (CoalesceScalar as t)
  then have "list_all2 rle (map (ir_eval_by B env) as) (map (ir_eval_by B' env) as)"
    by (auto simp: list_all2_map1 list_all2_map2 list_all2_same)
  from coalesce_res_le [OF this] show ?case by (simp only: ir_eval_by.simps)
next
  case (FnCallScalar f as t)
  then have "rle (rmap (ir_eval_by B env) as) (rmap (ir_eval_by B' env) as)" by (intro rle_rmap) auto
  then show ?case using FnCallScalar.prems by (fastforce simp: rle_def build_le_def)
qed (auto simp: rle_def)

named_theorems build_mono

lemma row_eval_le [build_mono]: "build_le B B' \<Longrightarrow> rle (row_eval B e r) (row_eval B' e r)"
  unfolding row_eval_def by (rule eval_le)

lemma row_key_le [build_mono]: "build_le B B' \<Longrightarrow> rle (row_key B es r) (row_key B' es r)"
  unfolding row_key_def by (intro rle_intros build_mono)

lemma row_holds_le [build_mono]: "build_le B B' \<Longrightarrow> rle (row_holds B c r) (row_holds B' c r)"
  unfolding row_holds_def by (intro rle_intros build_mono)

lemma project_le [build_mono]: "build_le B B' \<Longrightarrow> rle (project B ps r) (project B' ps r)"
  unfolding project_def by (intro rle_intros build_mono)

lemma with_keys_le [build_mono]: "build_le B B' \<Longrightarrow> rle (with_keys B es rs) (with_keys B' es rs)"
  unfolding with_keys_def by (intro rle_intros build_mono)

lemma keyed_le [build_mono]: "build_le B B' \<Longrightarrow> rle (keyed B es rs) (keyed B' es rs)"
  unfolding keyed_def by (intro rle_intros build_mono)

lemma agg_node_le [build_mono]: "build_le B B' \<Longrightarrow> rle (agg_node_eval B n rs) (agg_node_eval B' n rs)"
proof (cases n)
  case (FnCallAggregate f as)
  assume le: "build_le B B'"
  have "rle (rbind (rmap (row_eval B (as ! 0)) rs) (\<lambda>vs. rbind (feed_all a vs) get))
    (rbind (rmap (row_eval B' (as ! 0)) rs) (\<lambda>vs. rbind (feed_all a vs) get))" for a
    by (intro rle_intros build_mono le)
  then show ?thesis unfolding FnCallAggregate agg_node_eval.simps
    by (intro rle_bind rle_refl) (auto split: aggregate.splits simp: rle_def)
qed simp

lemma agg_row_le2 [build_mono]: "build_le B B' \<Longrightarrow> rle (agg_row B as rs) (agg_row B' as rs)"
  unfolding agg_row_def by (intro rle_intros build_mono)

lemma group_rows_le2 [build_mono]: "build_le B B' \<Longrightarrow> rle (group_rows B as ks rs) (group_rows B' as ks rs)"
  unfolding group_rows_def group_row_def by (intro rle_intros build_mono)

lemma join_rows_le [build_mono]:
  "build_le B B' \<Longrightarrow> rle (semi_rows B e i xs ms) (semi_rows B' e i xs ms)"
  "build_le B B' \<Longrightarrow> rle (mark_rows B e out i xs ms) (mark_rows B' e out i xs ms)"
  "build_le B B' \<Longrightarrow> rle (left_join_rows B lk rk F xs ys) (left_join_rows B' lk rk F xs ys)"
  unfolding semi_rows_def mark_rows_def left_join_rows_def by (intro rle_intros build_mono; simp)+

lemma sorted_agree: "build_le B B' \<Longrightarrow> agree (sorted_outcomes B es desc xs) (sorted_outcomes B' es desc xs)"
  using keyed_le [of B B' es xs]
  by (cases "keyed B es xs") (auto simp: sorted_outcomes_def rle_def agree_def fault_free_def)

lemma merged_agree: "build_le B B' \<Longrightarrow> agree (merged_outcomes B es desc xs ys) (merged_outcomes B' es desc xs ys)"
  using keyed_le [of B B' es xs] keyed_le [of B B' es ys]
  by (cases "keyed B es xs"; cases "keyed B es ys") (auto simp: merged_outcomes_def rle_def agree_def fault_free_def)

lemma node_agree:
  assumes "build_le B B'"
  shows "agree (node_op B r xss) (node_op B' r xss)"
proof (cases r)
  case (TopKRelation s es desc n sch)
  then show ?thesis using bindo_agree [OF sorted_agree [OF assms] agree_refl] by simp
qed (simp_all add: assms agree_det agree_any_order sorted_agree merged_agree build_mono rle_intros)

lemma runs_agree:
  assumes "build_le B B'" "\<And>r. is_input r \<Longrightarrow> agree (L r) (L' r)"
  shows "agree (runs B L r) (runs B' L' r)"
proof (induction r rule: measure_induct_rule [of size])
  case (less r)
  show ?case
  proof (cases "is_input r")
    case True
    then show ?thesis using assms(2) by (simp add: runs.simps [of B L r] runs.simps [of B' L' r])
  next
    case False
    show ?thesis unfolding runs_node [OF False]
      by (rule bind_all_agree)
        (use less children_size node_agree [OF assms(1)] in \<open>auto simp: list_all2_map1 list_all2_map2 list_all2_same\<close>)
  qed
qed

text \<open>The built executors, with an \<open>AND\<close> that takes the truth of both arguments.\<close>

definition strict_build :: "ext \<Rightarrow> build" where
  "strict_build X f = (if f = And_fn
     then Inr (BinaryExecutor (\<lambda>a b. rbind (get_bool a) (\<lambda>x. rbind (get_bool b) (\<lambda>y. Inr (VBool (x \<and> y))))))
     else buildScalar X f)"

lemma strict_build_strict [simp]: "strict_and (strict_build X)"
  by (simp add: strict_and_def strict_build_def)

lemma strict_build_restricts [simp]: "restricts X (strict_build X)"
proof -
  have "AndExecutor a b = Inr w"
    if "rbind (get_bool a) (\<lambda>x. rbind (get_bool b) (\<lambda>y. Inr (VBool (x \<and> y)))) = Inr w" for a b w
    using that by (auto simp: AndExecutor_def split: if_splits)
  then show ?thesis by (auto simp: restricts_def strict_build_def split: if_splits)
qed

section \<open>One round on a relation\<close>

text \<open>What a relation must satisfy when a pass starts on it: its constants have one representation
  each where the pass compares expressions, and its group keys the type of their fields.\<close>

definition stage_conditions :: "(FieldId \<rightharpoonup> ValueType) \<Rightarrow> (Relation \<Rightarrow> bool) list" where
  "stage_conditions \<Gamma> = [\<lambda>r. True, canonical, \<lambda>r. True, canonical, dedupe_ok \<Gamma>]"

fun stages_hold :: "(Relation \<Rightarrow> bool) list \<Rightarrow> (Relation pass) list \<Rightarrow> Relation \<Rightarrow> bool" where
  "stages_hold (N # Ns) (p # ps) r \<longleftrightarrow> N r \<and> (case p r of Inl e \<Rightarrow> True | Inr (b, q) \<Rightarrow> stages_hold Ns ps q)"
| "stages_hold _ _ r \<longleftrightarrow> True"

text \<open>A pass that is sound under a condition on the relation it starts on.\<close>

definition pass_sound :: "ext \<Rightarrow> build \<Rightarrow> (Relation \<Rightarrow> outcomes) \<Rightarrow> (FieldId \<rightharpoonup> ValueType) \<Rightarrow>
    (Relation \<Rightarrow> bool) \<Rightarrow> Relation pass \<Rightarrow> bool" where
  "pass_sound X B L \<Gamma> N p \<longleftrightarrow> (\<forall>r b q. rel_wt \<Gamma> r \<longrightarrow> N r \<longrightarrow> p r = Inr (b, q) \<longrightarrow> rel_sound B L \<Gamma> r q)"

lemma in_order_sound:
  "rel_wt \<Gamma> r \<Longrightarrow> stages_hold (Ns @ Ms) (ps @ qs) r \<Longrightarrow> in_order ps r = Inr (b, q) \<Longrightarrow>
   list_all2 (pass_sound X B L \<Gamma>) Ns ps \<Longrightarrow> rel_sound B L \<Gamma> r q"
proof (induction ps arbitrary: Ns r b q)
  case (Cons p ps)
  from Cons.prems(4) obtain N Ns' where Ns: "Ns = N # Ns'" "pass_sound X B L \<Gamma> N p" "list_all2 (pass_sound X B L \<Gamma>) Ns' ps"
    by (auto simp: list_all2_Cons2)
  from Cons.prems(3) obtain c s d where s: "p r = Inr (c, s)" "in_order ps s = Inr (d, q)" by auto
  from Cons.prems(2) s(1) have N: "N r" "stages_hold (Ns' @ Ms) (ps @ qs) s" by (simp_all add: Ns(1))
  have "rel_sound B L \<Gamma> r s" using Ns(2) Cons.prems(1) N(1) s(1) by (auto simp: pass_sound_def)
  with Cons.IH [OF sound_wt(1) N(2) s(2) Ns(3)] show ?case by (blast intro: rel_sound_trans)
qed (simp add: rel_sound_refl)

lemma stages_hold_pad: "stages_hold (Ns @ [\<lambda>r. True]) ps r = stages_hold Ns ps r"
proof (induction Ns arbitrary: ps r)
  case Nil
  show ?case by (cases ps) (auto split: sum.splits)
next
  case (Cons N Ns)
  then show ?case by (cases ps) (auto split: sum.splits)
qed

lemma stages_hold_pads: "stages_hold (Ns @ replicate n (\<lambda>r. True)) ps r = stages_hold Ns ps r"
proof (induction n)
  case (Suc n)
  have "Ns @ replicate (Suc n) (\<lambda>r. True) = (Ns @ replicate n (\<lambda>r. True)) @ [\<lambda>r. True]"
    by (simp add: replicate_append_same)
  then show ?case using stages_hold_pad Suc by metis
qed simp

lemma passes_sound:
  assumes "run_ok X B L \<Gamma>" "strict_and B"
  shows "list_all2 (pass_sound X B L \<Gamma>) (stage_conditions \<Gamma> @ replicate 6 (\<lambda>r. True)) (passes X C)"
proof -
  note * = pass_sound_def
  have "pass_sound X B L \<Gamma> (\<lambda>r. True) (constScalarFold X)" "pass_sound X B L \<Gamma> canonical scalarSimplify"
    "pass_sound X B L \<Gamma> canonical constAggregateFold" "pass_sound X B L \<Gamma> (dedupe_ok \<Gamma>) aggregateDeduplicate"
    using constScalarFold_sound [OF assms(1)] scalarSimplify_sound [OF assms(1)] constAggregateFold_sound [OF assms(1)]
      aggregateDeduplicate_sound [OF assms(1)] unfolding * by blast+
  moreover have "pass_sound X B L \<Gamma> (\<lambda>r. True) relationSimplify" "pass_sound X B L \<Gamma> (\<lambda>r. True) filterPushdown"
    "pass_sound X B L \<Gamma> (\<lambda>r. True) limitPushdown" "pass_sound X B L \<Gamma> (\<lambda>r. True) (scalarCache C)"
    using relationSimplify_sound [OF assms(1)] filterPushdown_sound [OF assms] limitPushdown_sound [OF assms(1)]
      scalarCache_sound [OF assms(1)] unfolding * by blast+
  moreover have "pass_sound X B L \<Gamma> (\<lambda>r. True) (projectionCollapse C)" "pass_sound X B L \<Gamma> (\<lambda>r. True) emptyRelationPrune"
    using projectionCollapse_sound [OF assms(1)] emptyRelationPrune_sound [OF assms(1)] unfolding * by blast+
  ultimately show ?thesis unfolding stage_conditions_def passes_def by (simp add: numeral_eq_Suc)
qed

lemma round_sound:
  assumes "run_ok X B L \<Gamma>" "strict_and B" "rel_wt \<Gamma> r" "stages_hold (stage_conditions \<Gamma>) (passes X C) r"
    and "in_order (passes X C) r = Inr (b, q)"
  shows "rel_sound B L \<Gamma> r q"
  using in_order_sound [OF assms(3) _ assms(5) passes_sound [OF assms(1,2), of C], of "[]" "[]"] assms(4)
  by (simp add: stages_hold_pads)

section \<open>Programs\<close>

fun statement_relation :: "Statement \<Rightarrow> Relation" where
  "statement_relation (NamedRelationStatement n r) = r"
| "statement_relation (QueryStatement r) = r"

text \<open>A named relation is an input of the statements after it; a query gives an outcome.\<close>

fun run_program :: "build \<Rightarrow> (Relation \<Rightarrow> outcomes) \<Rightarrow> Program \<Rightarrow> outcomes list" where
  "run_program B L [] = []"
| "run_program B L (NamedRelationStatement n r # ss) =
     run_program B (L(NamedRelationReferenceRelation n (rel_schema r) := runs B L r)) ss"
| "run_program B L (QueryStatement r # ss) = runs B L r # run_program B L ss"

definition statement_sound :: "ext \<Rightarrow> build \<Rightarrow> (FieldId \<rightharpoonup> ValueType) \<Rightarrow> Statement \<Rightarrow> Statement \<Rightarrow> bool" where
  "statement_sound X B \<Gamma> s t \<longleftrightarrow> (\<forall>L. run_ok X B L \<Gamma> \<longrightarrow> rel_sound B L \<Gamma> (statement_relation s) (statement_relation t)) \<and>
     rel_wt \<Gamma> (statement_relation t) \<and>
     (case s of QueryStatement r \<Rightarrow> (\<exists>q. t = QueryStatement q) | NamedRelationStatement n r \<Rightarrow> (\<exists>q. t = NamedRelationStatement n q))"

lemma run_ok_bind:
  assumes ok: "run_ok X B L \<Gamma>" and wt: "rel_wt \<Gamma> r"
  shows "run_ok X B (L(NamedRelationReferenceRelation n (rel_schema r) := runs B L r)) \<Gamma>"
proof -
  have "rel_fields (NamedRelationReferenceRelation n (rel_schema r)) = rel_fields r" by (simp add: rel_fields_def)
  with runs_typed [OF run_okD(1,2) [OF ok] wt] runs_ne [OF ok] ok show ?thesis
    by (auto simp: run_ok_def inputs_typed_def)
qed

lemma runs_inputs_mono:
  assumes "\<And>r. is_input r \<Longrightarrow> refines (L' r) (L r)"
  shows "refines (runs B L' r) (runs B L r)"
proof (induction r rule: measure_induct_rule [of size])
  case (less r)
  show ?case
  proof (cases "is_input r")
    case True
    then show ?thesis using assms by (simp add: runs.simps [of B L r] runs.simps [of B L' r])
  next
    case False
    show ?thesis unfolding runs_node [OF False]
    proof (rule bind_all_mono)
      show "list_all2 refines (map (runs B L') (children r)) (map (runs B L) (children r))"
        using less children_size by (auto simp: list_all2_map1 list_all2_map2 list_all2_same)
      show "list_all2 ok_rows (map (\<lambda>c r. True) (children r)) (map (runs B L) (children r))"
        by (auto simp: list_all2_map1 list_all2_map2 list_all2_same ok_rows_def list_all_iff)
    qed simp
  qed
qed

lemma run_program_mono:
  assumes "list_all2 (statement_sound X B \<Gamma>) p q"
  shows "run_ok X B L \<Gamma> \<Longrightarrow> run_ok X B L' \<Gamma> \<Longrightarrow> list_all (\<lambda>s. rel_wt \<Gamma> (statement_relation s)) p \<Longrightarrow>
    (\<And>r. is_input r \<Longrightarrow> refines (L' r) (L r)) \<Longrightarrow> list_all2 refines (run_program B L' q) (run_program B L p)"
  using assms
proof (induction p arbitrary: q L L')
  case (Cons s p)
  from Cons.prems(5) obtain t q' where q: "q = t # q'" "statement_sound X B \<Gamma> s t" "list_all2 (statement_sound X B \<Gamma>) p q'"
    by (auto simp: list_all2_Cons1)
  let ?r = "statement_relation s" and ?r' = "statement_relation t"
  have snd: "rel_sound B L' \<Gamma> ?r ?r'" using q(2) Cons.prems(2) by (simp add: statement_sound_def)
  have wt: "rel_wt \<Gamma> ?r" "rel_wt \<Gamma> ?r'" using Cons.prems(3) q(2) by (simp_all add: statement_sound_def)
  have ref: "refines (runs B L' ?r') (runs B L ?r)"
    using refines_trans [OF sound_wt(3) [OF snd] runs_inputs_mono [OF Cons.prems(4)]] .
  show ?case
  proof (cases s)
    case (QueryStatement r)
    then obtain r' where "t = QueryStatement r'" using q(2) by (auto simp: statement_sound_def)
    with Cons.IH [OF Cons.prems(1,2) _ Cons.prems(4) q(3)] Cons.prems(3) ref show ?thesis
      by (simp add: q(1) QueryStatement)
  next
    case (NamedRelationStatement n r)
    then obtain r' where t: "t = NamedRelationStatement n r'" using q(2) by (auto simp: statement_sound_def)
    have sch: "rel_schema r' = rel_schema r" using sound_wt(2) [OF snd] by (simp add: t NamedRelationStatement)
    have "list_all2 refines (run_program B (L'(NamedRelationReferenceRelation n (rel_schema r') := runs B L' r')) q')
      (run_program B (L(NamedRelationReferenceRelation n (rel_schema r) := runs B L r)) p)"
    proof (rule Cons.IH [OF _ _ _ _ q(3)])
      show "run_ok X B (L(NamedRelationReferenceRelation n (rel_schema r) := runs B L r)) \<Gamma>"
        "run_ok X B (L'(NamedRelationReferenceRelation n (rel_schema r') := runs B L' r')) \<Gamma>"
        using run_ok_bind Cons.prems(1,2) wt by (simp_all add: t NamedRelationStatement)
    qed (use Cons.prems(3,4) ref in \<open>auto simp: sch t NamedRelationStatement\<close>)
    then show ?thesis by (simp add: q(1) t NamedRelationStatement)
  qed
qed simp

lemma run_program_agree:
  "build_le B B' \<Longrightarrow> (\<And>r. is_input r \<Longrightarrow> agree (L r) (L' r)) \<Longrightarrow>
   list_all2 agree (run_program B L p) (run_program B' L' p)"
proof (induction p arbitrary: L L')
  case (Cons s p)
  show ?case
  proof (cases s)
    case (QueryStatement r)
    then show ?thesis using Cons runs_agree [OF Cons.prems] by simp
  next
    case (NamedRelationStatement n r)
    have "list_all2 agree (run_program B (L(NamedRelationReferenceRelation n (rel_schema r) := runs B L r)) p)
      (run_program B' (L'(NamedRelationReferenceRelation n (rel_schema r) := runs B' L' r)) p)"
      by (rule Cons.IH) (use Cons.prems runs_agree [OF Cons.prems] in auto)
    then show ?thesis by (simp add: NamedRelationStatement)
  qed
qed simp

section \<open>The loop\<close>

lemma on_statement_in_order:
  "on_statement p s = Inr (b, t) \<Longrightarrow> on_statement (in_order ps) t = Inr (c, u) \<Longrightarrow>
   on_statement (in_order (p # ps)) s = Inr (b \<or> c, u)"
  by (cases s) auto

lemma on_statement_id: "on_statement (\<lambda>a. Inr (False, a)) s = Inr (False, s)"
  by (cases s) auto

text \<open>The passes over the program, as each statement sees them.\<close>

lemma in_order_statements:
  "in_order (map on_program ps) p = Inr (b, q) \<Longrightarrow> list_all2 (\<lambda>s t. \<exists>c. on_statement (in_order ps) s = Inr (c, t)) p q"
proof (induction ps arbitrary: p b)
  case Nil
  then show ?case by (auto simp: on_statement_id list_all2_same intro: exI [of _ False])
next
  case (Cons x ps)
  from Cons.prems obtain c p1 d where s: "on_program x p = Inr (c, p1)" "in_order (map on_program ps) p1 = Inr (d, q)"
    by auto
  show ?case
    by (rule list_all2_trans [OF _ walk_list_all2 [OF s(1) [unfolded on_program_def]] Cons.IH [OF s(2)]])
      (elim exE, rule exI, erule (1) on_statement_in_order)
qed

text \<open>The conditions of every stage of every round the loop makes.\<close>

fun rounds_hold :: "(FieldId \<rightharpoonup> ValueType) \<Rightarrow> ext \<Rightarrow> settings \<Rightarrow> nat \<Rightarrow> Program \<Rightarrow> bool" where
  "rounds_hold \<Gamma> X C 0 p \<longleftrightarrow> True"
| "rounds_hold \<Gamma> X C (Suc n) p \<longleftrightarrow>
     list_all (\<lambda>s. stages_hold (stage_conditions \<Gamma>) (passes X C) (statement_relation s)) p \<and>
     (case optimize X C p of Inl e \<Rightarrow> True | Inr (b, q) \<Rightarrow> b \<longrightarrow> rounds_hold \<Gamma> X C n q)"

lemma statement_sound_refl: "rel_wt \<Gamma> (statement_relation s) \<Longrightarrow> statement_sound X B \<Gamma> s s"
  by (cases s) (auto simp: statement_sound_def rel_sound_refl)

lemma statement_sound_trans: "statement_sound X B \<Gamma> s t \<Longrightarrow> statement_sound X B \<Gamma> t u \<Longrightarrow> statement_sound X B \<Gamma> s u"
  by (auto simp: statement_sound_def split: Statement.splits intro: rel_sound_trans)

lemma round_statement_sound:
  assumes st: "strict_and B" and s: "rel_wt \<Gamma> (statement_relation s)"
    "stages_hold (stage_conditions \<Gamma>) (passes X C) (statement_relation s)"
    and o: "on_statement (in_order (passes X C)) s = Inr (b, t)" and L: "run_ok X B L \<Gamma>"
  shows "statement_sound X B \<Gamma> s t"
proof -
  have "in_order (passes X C) (statement_relation s) = Inr (b, statement_relation t)"
    using o by (cases s) auto
  then have r: "run_ok X B L \<Gamma> \<Longrightarrow> rel_sound B L \<Gamma> (statement_relation s) (statement_relation t)" for L
    using round_sound [OF _ st s] by blast
  with sound_wt(1) [OF r [OF L]] o show ?thesis
    by (cases s) (auto simp: statement_sound_def)
qed

lemma loop_sound:
  assumes st: "strict_and B" and L: "run_ok X B L \<Gamma>"
  shows "optimize_loop X C n p = Inr q \<Longrightarrow> rounds_hold \<Gamma> X C n p \<Longrightarrow>
    list_all (\<lambda>s. rel_wt \<Gamma> (statement_relation s)) p \<Longrightarrow> list_all2 (statement_sound X B \<Gamma>) p q"
proof (induction n arbitrary: p)
  case 0
  then show ?case by (auto simp: list_all_iff list_all2_same intro: statement_sound_refl)
next
  case (Suc n)
  from Suc.prems(1) obtain b p1 where o: "optimize X C p = Inr (b, p1)"
    and q: "(if b then optimize_loop X C n p1 else Inr p1) = Inr q" by auto
  have s: "list_all2 (statement_sound X B \<Gamma>) p p1"
  proof (rule list.rel_mono_strong [OF in_order_statements [OF o [unfolded optimize_def]]])
    fix s t assume "s \<in> set p" "\<exists>c. on_statement (in_order (passes X C)) s = Inr (c, t)"
    moreover from this Suc.prems(2,3) have "rel_wt \<Gamma> (statement_relation s)"
      "stages_hold (stage_conditions \<Gamma>) (passes X C) (statement_relation s)" by (simp_all add: list_all_iff)
    ultimately show "statement_sound X B \<Gamma> s t" using round_statement_sound [OF st _ _ _ L] by blast
  qed
  then have wt: "list_all (\<lambda>s. rel_wt \<Gamma> (statement_relation s)) p1"
    by (auto simp: list_all2_conv_all_nth list_all_length statement_sound_def)
  show ?case
  proof (cases b)
    case True
    with Suc.IH [of p1] Suc.prems(2) o q wt have "list_all2 (statement_sound X B \<Gamma>) p1 q" by simp
    from list_all2_trans [OF _ s this] show ?thesis using statement_sound_trans by blast
  qed (use s q in simp)
qed

lemma refines_ff: "refines N M \<Longrightarrow> fault_free M \<Longrightarrow> fault_free N \<and> N \<subseteq> M"
  by (auto simp: refines_def fault_free_def)

section \<open>Properties\<close>


lemma rel_walk_leaf: "children r = [] \<Longrightarrow> rel_walk step r = step r"
proof -
  assume "children r = []"
  moreover from this have "with_children r [] = r" by (cases r) auto
  ultimately show ?thesis by (cases "step r") (auto simp: rel_walk.simps [of step r] then_step_def)
qed

lemma rel_walk_one: "children r = [s] \<Longrightarrow> rel_walk step r =
    rbind (rel_walk step s) (\<lambda>(b, t). rbind (step (with_children r [t])) (\<lambda>(c, q). Inr (b \<or> c, q)))"
  by (cases "rel_walk step s") (auto simp: rel_walk.simps [of step r] then_step_def)


end
