(* ===== verification/Pass_Correct.thy ===== *)
theory Pass_Correct
  imports Optimize
begin

text \<open>
  The contract of each relational pass of src/optimize: on a well-typed relation it returns, keeps the
  schema and the typing, and gives only results of the relation it started from. The one pass that
  can fail is relation_simplify.cpp, on a filter by a constant that is not a boolean.
\<close>

section \<open>The passes return\<close>

lemma rel_walk_total:
  assumes ok: "run_ok X B L \<Gamma>"
    and step: "\<And>r. rel_wt \<Gamma> r \<Longrightarrow> \<exists>b q. step r = Inr (b, q) \<and> rel_sound B L \<Gamma> r q"
  shows "rel_wt \<Gamma> r \<Longrightarrow> \<exists>b q. rel_walk step r = Inr (b, q) \<and> rel_sound B L \<Gamma> r q"
proof (induction r rule: measure_induct_rule [of size])
  case (less r)
  have "\<exists>b cs. walk_list (rel_walk step) xs = Inr (b, cs) \<and> list_all2 (rel_sound B L \<Gamma>) xs cs"
    if "set xs \<subseteq> set (children r)" for xs
    using that
  proof (induction xs)
    case (Cons x xs)
    then have x: "x \<in> set (children r)" and xs: "set xs \<subseteq> set (children r)" by auto
    from less.IH [OF children_size [OF x] rel_wt_child [OF less.prems x]] obtain b q
      where "rel_walk step x = Inr (b, q)" "rel_sound B L \<Gamma> x q" by blast
    with Cons.IH [OF xs] show ?case by fastforce
  qed (auto intro: exI [of _ False])
  from this [of "children r"] obtain b cs
    where w: "walk_list (rel_walk step) (children r) = Inr (b, cs)" "list_all2 (rel_sound B L \<Gamma>) (children r) cs" by auto
  from sound_children [OF ok less.prems w(2)] have s: "rel_sound B L \<Gamma> r (with_children r cs)" .
  from step [OF sound_wt(1) [OF s]] obtain c q where "step (with_children r cs) = Inr (c, q)"
    "rel_sound B L \<Gamma> (with_children r cs) q" by blast
  with w(1) rel_sound_trans [OF s] show ?case
    by (auto simp: rel_walk.simps [of step r] then_step_def)
qed

lemma split_total: "scalar_wt \<Gamma> c \<Longrightarrow> \<exists>p q. splitCondition c sch = Inr (p, q)"
proof (induction c sch rule: splitCondition.induct)
  case (1 f as t sch)
  show ?case
  proof (cases "f = And_fn")
    case True
    with "1.prems" have "length as = 2" by (auto dest: list_all2_lengthD)
    then obtain l r where as: "as = [l, r]" by (auto simp: length_Suc_conv numeral_2_eq_2)
    with "1.prems" have wt: "scalar_wt \<Gamma> l" "scalar_wt \<Gamma> r" by auto
    from "1.IH"(1) [OF True as refl wt(1)] obtain p q where l: "splitCondition l sch = Inr (p, q)" by blast
    from "1.IH"(2) [OF True as refl l refl wt(2)] l show ?thesis by (auto simp: True as)
  qed (auto simp: split_leaf_def)
qed (auto simp: split_leaf_def)

text \<open>The forwarded aliases are new to the schema, and it holds those the rebinding has.\<close>

lemma forwarded_total:
  "distinct (map alias_field_id ps) \<Longrightarrow> sch = schema_of is \<Longrightarrow> fields_ok is \<Longrightarrow> length is + length ps < 2 ^ 32 \<Longrightarrow>
   (\<forall>p \<in> set ps. alias_field_id p \<notin> set is) \<Longrightarrow> (\<forall>i. i \<in> set is \<longleftrightarrow> m i \<noteq> None) \<Longrightarrow>
   \<exists>m' js. forwarded ps m sch = Inr (m', schema_of js) \<and> (\<forall>i. i \<in> set js \<longleftrightarrow> m' i \<noteq> None)"
proof (induction ps arbitrary: m sch "is")
  case (Cons p ps)
  show ?case
  proof (cases "expr p")
    case (FieldScalar j t)
    have a: "append_field sch (alias_field_id p) = Inr (schema_of (is @ [alias_field_id p]))"
      using Cons.prems by (auto simp: append_field_schema_of)
    have "\<exists>m' js. forwarded ps (emplace m (alias_field_id p) j) (schema_of (is @ [alias_field_id p])) = Inr (m', schema_of js) \<and>
        (\<forall>i. i \<in> set js \<longleftrightarrow> m' i \<noteq> None)"
    proof (rule Cons.IH)
      have "\<forall>q \<in> set ps. alias_field_id q \<noteq> alias_field_id p" using Cons.prems(1) by (metis distinct.simps(2) image_eqI list.map(2) list.set_map)
      then show "\<forall>q \<in> set ps. alias_field_id q \<notin> set (is @ [alias_field_id p])" using Cons.prems(5) by auto
    qed (use Cons.prems in \<open>auto simp: fields_ok_def emplace_def split: option.splits\<close>)
    then show ?thesis by (simp add: FieldScalar a)
  qed (use Cons.prems Cons.IH [of sch "is" m] in auto)
qed auto

lemma pushdown_filter_total:
  assumes ok: "run_ok X B L \<Gamma>"
  shows "rel_wt \<Gamma> (FilterRelation s c sch) \<Longrightarrow> \<exists>b q. pushdown_filter s c sch = Inr (b, q)"
proof (induction s c sch rule: pushdown_filter.induct)
  case (1 ss u c sch)
  from sound_wt(1) [OF push_union [OF ok "1.prems"]]
  have "\<exists>y. pushdown_filter s c (rel_schema s) = Inr y" if "s \<in> set ss" for s
    using "1.IH" [OF that] rel_wt_child that by fastforce
  then have "\<exists>ts. rmap (\<lambda>s. pushdown_filter s c (rel_schema s)) ss = Inr ts" by (intro rmap_total) blast
  then show ?case by auto
next
  case (2 l r es desc u c sch)
  note w = rel_wt_child [OF sound_wt(1) [OF push_merge [OF ok "2.prems"]]]
  from "2.IH"(1) w obtain b l' where l: "pushdown_filter l c (rel_schema l) = Inr (b, l')" by fastforce
  from "2.IH"(2) [OF l refl] w obtain d r' where "pushdown_filter r c (rel_schema r) = Inr (d, r')" by fastforce
  with l show ?case by (auto intro: exI [of _ True])
next
  case (3 s ps u c sch)
  have wt: "rel_wt \<Gamma> (ProjectionRelation s ps u)" and c: "cond_ok \<Gamma> (rel_fields (ProjectionRelation s ps u)) (Some c)"
    using "3.prems" by (simp_all add: wt_filter)
  then have "fields_ok (map alias_field_id ps)" by (simp add: rel_wt_simps has_schema_def)
  with forwarded_total [of ps emptySchema "[]" Map.empty] obtain m js
    where f: "forwarded ps Map.empty emptySchema = Inr (m, schema_of js)" "\<forall>i. i \<in> set js \<longleftrightarrow> m i \<noteq> None"
    by (auto simp: schema_of_Nil fields_ok_def)
  have cw: "scalar_wt \<Gamma> c" using c by (simp add: cond_ok_def)
  from split_total [OF this] obtain p q where s: "splitCondition c (schema_of js) = Inr (p, q)" by blast
  show ?case
  proof (cases p)
    case (Some d)
    with split_ok [OF s c] have d: "scalar_wt \<Gamma> d" "fits (value_type d) Boolean" "\<forall>i \<in> scalar_fields d. m i \<noteq> None"
      using f(2) by (auto simp: cond_ok_def)
    from rebind_total [OF d(3)] obtain d' where d': "rebind m d = Inr d'" by blast
    from "3.IH" [OF f(1) refl s refl Some d' push_projection(1) [OF wt f(1) d(1,2) d']] f s Some d' show ?thesis by auto
  qed (auto simp: f s intro: exI [of _ False])
next
  case (4 l r lk rk u c sch)
  have wt: "rel_wt \<Gamma> (LeftJoinRelation l r lk rk u)" and c: "cond_ok \<Gamma> (rel_fields (LeftJoinRelation l r lk rk u)) (Some c)"
    using "4.prems" by (simp_all add: wt_filter)
  have "scalar_wt \<Gamma> c" using c by (simp add: cond_ok_def)
  from split_total [OF this] obtain p q where s: "splitCondition c (rel_schema l) = Inr (p, q)" by blast
  show ?case
  proof (cases p)
    case (Some d)
    have "cond_ok \<Gamma> (rel_fields l) (Some d)" using split_ok [OF s c] Some by (auto simp: cond_ok_def rel_fields_def)
    from "4.IH" [OF s refl Some push_left(1) [OF ok wt this]] s Some show ?thesis by auto
  qed (auto simp: s intro: exI [of _ False])
next
  case (5 s es desc u c sch)
  from "5.IH" rel_wt_child [OF sound_wt(1) [OF push_sort [OF ok "5.prems"]]] show ?case by fastforce
qed auto

lemma collapse_total: "\<forall>i \<in> scalar_fields s. m i \<noteq> None \<Longrightarrow> \<exists>s'. collapse m s = Inr s'"
proof (induction s)
  case (CoalesceScalar as t)
  then have "\<exists>bs. rmap (collapse m) as = Inr bs" by (intro rmap_total) auto
  then show ?case by auto
next
  case (FnCallScalar f as t)
  then have "\<exists>bs. rmap (collapse m) as = Inr bs" by (intro rmap_total) auto
  then show ?case by auto
qed auto

lemma collapse_step_total: "rel_wt \<Gamma> r \<Longrightarrow> \<exists>b q. collapse_step C r = Inr (b, q)"
proof (cases "(C, r)" rule: collapse_step.cases)
  case (1 C' s inner isch ps sch)
  assume "rel_wt \<Gamma> r"
  with 1 have "projs_ok \<Gamma> (set (map alias_field_id inner)) ps"
    by (auto simp: rel_wt_simps rel_fields_def has_schema_def)
  then have "\<exists>c. collapse_projector (inner_scalars inner) p = Inr c" if "p \<in> set ps" for p
  proof -
    have "scalar_fields (expr p) \<subseteq> set (map alias_field_id inner)"
      using \<open>projs_ok _ _ ps\<close> that by (auto simp: projs_ok_def exprs_ok_def)
    then have "\<forall>i \<in> scalar_fields (expr p). inner_scalars inner i \<noteq> None"
      by (auto simp: inner_scalars_map_of map_of_eq_None_iff image_image)
    from collapse_total [OF this] show ?thesis by (auto simp: collapse_projector_def)
  qed
  then have "\<exists>cs. rmap (collapse_projector (inner_scalars inner)) ps = Inr cs" by (intro rmap_total) blast
  with 1 show ?thesis by (auto simp del: not_None_eq)
qed auto

lemma fold_node_total: "agg_node_wt \<Gamma> F n t \<Longrightarrow> \<exists>b m. fold_node n = Inr (b, m)"
proof (cases n)
  case (FnCallAggregate f as)
  assume wt: "agg_node_wt \<Gamma> F n t"
  show ?thesis
  proof (cases "isScalar f \<or> \<not> list_all (\<lambda>a. const_of a \<noteq> None) as")
    case False
    have "\<exists>v. first_const as = Inr v" if "length as = 1"
    proof -
      from that obtain a where "as = [a]" by (auto simp: length_Suc_conv)
      with False show ?thesis by (auto simp: const_of_Some)
    qed
    moreover have "length as = 1" if "f = CountNonNull_fn \<or> (\<exists>T. f = Min_fn T \<or> f = Max_fn T)"
      using that wt FnCallAggregate by (auto dest!: list_all2_lengthD)
    ultimately show ?thesis using False by (cases f) (auto simp: FnCallAggregate fold_call_def)
  qed (auto simp: FnCallAggregate)
qed auto

lemma fold_aggregates_total: "aggs_ok \<Gamma> F as \<Longrightarrow> \<exists>b bs. walk_list fold_aggregate as = Inr (b, bs)"
proof (induction as)
  case (Cons a as)
  then have "agg_node_wt \<Gamma> F (agg_node a) (agg_type a)" "aggs_ok \<Gamma> F as" by (auto simp: aggs_ok_def)
  from fold_node_total [OF this(1)] Cons.IH [OF this(2)] show ?case by (auto simp: fold_aggregate_def)
qed auto

lemma aggregate_fold_step_total: "rel_wt \<Gamma> r \<Longrightarrow> \<exists>b q. aggregate_fold_step r = Inr (b, q)"
proof (cases r rule: aggregate_fold_step.cases)
  case (1 s as sch)
  moreover assume "rel_wt \<Gamma> r"
  ultimately show ?thesis using fold_aggregates_total [of \<Gamma> "rel_fields s" as] by (auto simp: rel_wt_aggs)
next
  case (2 s as ks sch)
  moreover assume "rel_wt \<Gamma> r"
  ultimately show ?thesis using fold_aggregates_total [of \<Gamma> "rel_fields s" as] by (auto simp: rel_wt_aggs)
qed (auto intro: exI [of _ False])

text \<open>The walk with a condition on the nodes that the steps keep.\<close>

lemma rel_walk_total_cond:
  assumes ok: "run_ok X B L \<Gamma>" and loc: "node_local N"
    and step: "\<And>r. rel_wt \<Gamma> r \<Longrightarrow> rel_all N r \<Longrightarrow> \<exists>b q. step r = Inr (b, q)"
    and sound: "\<And>r b q. rel_wt \<Gamma> r \<Longrightarrow> rel_all N r \<Longrightarrow> step r = Inr (b, q) \<Longrightarrow> rel_sound B L \<Gamma> r q \<and> rel_all N q"
  shows "rel_wt \<Gamma> r \<Longrightarrow> rel_all N r \<Longrightarrow> \<exists>b q. rel_walk step r = Inr (b, q)"
proof (induction r rule: measure_induct_rule [of size])
  case (less r)
  have "\<exists>b cs. walk_list (rel_walk step) xs = Inr (b, cs)" if "set xs \<subseteq> set (children r)" for xs
    using that
  proof (induction xs)
    case (Cons x xs)
    then have x: "x \<in> set (children r)" and xs: "set xs \<subseteq> set (children r)" by auto
    have "rel_all N x" using less.prems(2) x by (simp add: rel_all_node [of N r])
    from less.IH [OF children_size [OF x] rel_wt_child [OF less.prems(1) x] this] Cons.IH [OF xs] show ?case by auto
  qed auto
  from this [of "children r"] obtain b cs where w: "walk_list (rel_walk step) (children r) = Inr (b, cs)" by auto
  have "list_all2 (\<lambda>c d. rel_sound B L \<Gamma> c d \<and> rel_all N d) (children r) cs"
  proof (rule list.rel_mono_strong [OF walk_list_all2 [OF w]])
    fix c d assume c: "c \<in> set (children r)" "\<exists>b. rel_walk step c = Inr (b, d)"
    then obtain b where d: "rel_walk step c = Inr (b, d)" by blast
    have "rel_wt \<Gamma> c" "rel_all N c"
      using rel_wt_child [OF less.prems(1) c(1)] less.prems(2) c(1) by (simp_all add: rel_all_node [of N r])
    with rel_walk_sound [OF ok loc sound _ _ d] show "rel_sound B L \<Gamma> c d \<and> rel_all N d" by simp
  qed
  then have cs: "list_all2 (rel_sound B L \<Gamma>) (children r) cs" "\<forall>d \<in> set cs. rel_all N d"
    by (auto simp: list_all2_conv_all_nth in_set_conv_nth)
  from sound_children [OF ok less.prems(1) cs(1)] have "rel_wt \<Gamma> (with_children r cs)" by (rule sound_wt)
  moreover have "N (with_children r cs)" using loc less.prems(2) by (simp add: node_local_def rel_all_node [of N r])
  then have "rel_all N (with_children r cs)"
    using cs by (simp add: rel_all_node [of N "with_children r cs"] children_with_children list_all2_lengthD)
  ultimately obtain c q where "step (with_children r cs) = Inr (c, q)" using step [of "with_children r cs"] by auto
  with w show ?case by (auto simp: rel_walk.simps [of step r] then_step_def)
qed

lemma deduplicate_total:
  assumes "rel_wt \<Gamma> r" "aggs_canon r"
  shows "\<exists>b q. deduplicate r = Inr (b, q)"
proof (cases r rule: deduplicate.cases)
  case (1 s as sch)
  obtain ks ps where d: "dedupe [] as = (ks, ps)" by fastforce
  from assms 1 have "distinct (map output_field_id as)" "length as < 2 ^ 32" "\<forall>a \<in> set as. agg_node_canon (agg_node a)"
    by (auto simp: rel_wt_aggs has_schema_def fields_ok_def aggs_canon_def list_all_iff)
  with dedupe_represents [OF d, of "{}"] have "schemaFor_aggregates ks = Inr (schema_of (map output_field_id ks))"
    by (simp add: schemaFor_aggregates_def schema_of_append)
  with d show ?thesis by (auto simp: 1 intro: exI [of _ False] exI [of _ True])
next
  case (2 s as gs sch)
  obtain ks ps where d: "dedupe [] as = (ks, ps)" by fastforce
  from assms 2 have a: "distinct (map output_field_id as @ map alias_field_id gs)" "length as + length gs < 2 ^ 32"
    "\<forall>a \<in> set as. agg_node_canon (agg_node a)"
    by (auto simp: rel_wt_aggs has_schema_def fields_ok_def aggs_canon_def list_all_iff)
  with dedupe_represents [OF d, of "{}"] have k: "set ks \<subseteq> set as" "distinct (map output_field_id ks)" "length ks \<le> length as" by auto
  with a have "schemaFor_aggregates ks = Inr (schema_of (map output_field_id ks))"
    "schemaFor_projectors gs = Inr (schema_of (map alias_field_id gs))"
    by (simp_all add: schemaFor_aggregates_def schemaFor_projectors_def schema_of_append)
  moreover have "\<exists>x. concat_schema (schema_of (map output_field_id ks)) (schema_of (map alias_field_id gs)) = Inr x"
    using a k by (subst concat_schema_of) auto
  ultimately show ?thesis using d by (auto simp: 2 intro: exI [of _ False] exI [of _ True])
qed (auto intro: exI [of _ False])

lemma relation_simplify_step_total:
  assumes "relation_simplify_step r = Inl e"
  shows "e = Bad_Variant"
proof (cases r)
  case (FilterRelation s c sch)
  then show ?thesis using assms by (cases c) (auto simp: rbind_Inl_iff split: if_splits option.splits elim: get_bool.elims)
qed (use assms in auto)

section \<open>Properties\<close>

lemma strict_run_ok: "run_ok X (buildScalar X) L \<Gamma> \<Longrightarrow> run_ok X (strict_build X) L \<Gamma>"
  by (simp add: run_ok_def)

lemma strict_agree: "agree (runs (strict_build X) L r) (runs (buildScalar X) L r)"
  by (rule runs_agree) (use strict_build_restricts in \<open>simp_all add: restricts_build_le\<close>)



definition guarded_filter :: Relation where
  "guarded_filter = FilterRelation
     (ProjectionRelation (ValuesRelation [VNull] 1 (schema_of [1]))
        [\<lparr>alias_field_id = 2, expr = FieldScalar 1 Boolean\<rparr>, \<lparr>alias_field_id = 3, expr = ValueScalar (VBool False) Boolean\<rparr>]
        (schema_of [2, 3]))
     (FnCallScalar And_fn [FieldScalar 3 Boolean, FieldScalar 2 Boolean] Boolean) (schema_of [2, 3])"

text \<open>C2: with the short-circuit \<open>AND\<close> of the executors the condition is needed: a filter whose second
  conjunct fails on a null is guarded by its first one, and loses the guard to the pushdown.\<close>

theorem filter_pushdown_loses_guard:
  "runs (buildScalar X) L guarded_filter = {Inr []} \<and>
   (\<exists>q. filterPushdown guarded_filter = Inr (True, q) \<and> runs (buildScalar X) L q = {Inl Bad_Variant})"
proof -
  let ?v = "ValuesRelation [VNull] 1 (schema_of [1])"
  let ?p = "[\<lparr>alias_field_id = 2, expr = FieldScalar 1 Boolean\<rparr>, \<lparr>alias_field_id = 3, expr = ValueScalar (VBool False) Boolean\<rparr>]"
  let ?q = "FilterRelation (ProjectionRelation (FilterRelation ?v (FieldScalar 1 Boolean) (schema_of [1])) ?p (schema_of [2, 3]))
    (FieldScalar 3 Boolean) (schema_of [2, 3])"
  have f: "append_field emptySchema 2 = Inr (schema_of [2])"
    by (simp add: schema_of_Nil append_field_schema_of)
  have v: "rel_walk filter_step ?v = Inr (False, ?v)" by (simp add: rel_walk_leaf)
  have w: "rel_walk filter_step (ProjectionRelation ?v ?p (schema_of [2, 3])) = Inr (False, ProjectionRelation ?v ?p (schema_of [2, 3]))"
    by (simp add: rel_walk_one v)
  have "filterPushdown guarded_filter = Inr (True, ?q)"
    by (simp add: filterPushdown_def guarded_filter_def rel_walk_one w f split_leaf_def emplace_def)
  moreover have "runs (buildScalar X) L guarded_filter = {Inr []}"
    by (simp add: guarded_filter_def runs_node project_def row_key_def row_eval_def env_of_def row_of_def row_holds_def AndExecutor_def)
  moreover have "runs (buildScalar X) L ?q = {Inl Bad_Variant}"
    by (simp add: runs_node row_eval_def env_of_def row_holds_def)
  ultimately show ?thesis by blast
qed

text \<open>What each other pass promises: it returns a relation of the same schema, well typed, whose
  outcomes are outcomes of the original whenever none of those is a fault.\<close>

definition pass_correct ::
  "ext \<Rightarrow> (Relation \<Rightarrow> outcomes) \<Rightarrow> (FieldId \<rightharpoonup> ValueType) \<Rightarrow> Relation \<Rightarrow> (bool \<times> Relation) res \<Rightarrow> bool" where
  "pass_correct X L \<Gamma> r m \<longleftrightarrow> (\<exists>b q. m = Inr (b, q) \<and> rel_wt \<Gamma> q \<and> rel_schema q = rel_schema r \<and>
     refines (runs (buildScalar X) L q) (runs (buildScalar X) L r))"

lemma pass_correctI:
  assumes "\<exists>b q. m = Inr (b, q)" "\<And>b q. m = Inr (b, q) \<Longrightarrow> rel_sound (buildScalar X) L \<Gamma> r q"
  shows "pass_correct X L \<Gamma> r m"
proof -
  from assms(1) obtain b q where m: "m = Inr (b, q)" by auto
  from assms(2) [OF this] show ?thesis by (auto simp: pass_correct_def rel_sound_def m)
qed

lemma pure_walk_total: "\<exists>b q. rel_walk (\<lambda>r. Inr (f r)) r = Inr (b, q)"
proof (induction r rule: measure_induct_rule [of size])
  case (less r)
  have "\<exists>b cs. walk_list (rel_walk (\<lambda>r. Inr (f r))) xs = Inr (b, cs)" if "set xs \<subseteq> set (children r)" for xs
    using that
  proof (induction xs)
    case (Cons x xs)
    from less.IH [OF children_size, of x] Cons show ?case by auto
  qed auto
  from this [of "children r"] obtain b cs where "walk_list (rel_walk (\<lambda>r. Inr (f r))) (children r) = Inr (b, cs)" by auto
  then show ?case by (cases "f (with_children r cs)") (auto simp: rel_walk.simps [of _ r] then_step_def)
qed

lemma no_input_ok: "run_ok X (buildScalar X) (\<lambda>r. {Inr []}) \<Gamma>"
  by (simp add: run_ok_def inputs_typed_def ok_rows_def)

lemma values_wt: "\<Gamma> i = Some t \<Longrightarrow> list_all (\<lambda>v. has_type v t) vs \<Longrightarrow> rel_wt \<Gamma> (ValuesRelation vs i (schema_of [i]))"
  by (simp add: rel_wt_node [of \<Gamma> "ValuesRelation vs i (schema_of [i])"] has_schema_def fields_ok_def list_all_iff)

lemma wt_limit: "rel_wt \<Gamma> (LimitRelation s n sch) \<longleftrightarrow> rel_wt \<Gamma> s \<and> 0 \<le> n \<and> sch = rel_schema s"
  by (auto simp: rel_wt_node [of \<Gamma> "LimitRelation s n sch"])

text \<open>C5: limit pushdown keeps the promise of a pass.\<close>

theorem limit_pushdown_correct:
  assumes "run_ok X (buildScalar X) L \<Gamma>" and "rel_wt \<Gamma> r"
  shows "pass_correct X L \<Gamma> r (limitPushdown r)"
  using pure_walk_total limitPushdown_sound [OF assms] by (intro pass_correctI) (simp_all add: limitPushdown_def)

theorem limit_pushdown_correct_witness:
  "\<forall>X. pass_correct X (\<lambda>r. {Inr []}) [1 \<mapsto> Integer]
     (LimitRelation (UnionAllRelation [ValuesRelation [VInt 1] 1 (schema_of [1]), ValuesRelation [VInt 2] 1 (schema_of [1])]
       (schema_of [1])) 1 (schema_of [1]))
     (limitPushdown (LimitRelation (UnionAllRelation [ValuesRelation [VInt 1] 1 (schema_of [1]),
       ValuesRelation [VInt 2] 1 (schema_of [1])] (schema_of [1])) 1 (schema_of [1])))"
  by (intro allI limit_pushdown_correct no_input_ok)
    (auto simp: wt_limit rel_wt_simps has_schema_def fields_ok_def has_type_def schema_of_inj intro!: values_wt)

text \<open>C10: pruning of empty inputs keeps the promise of a pass.\<close>

theorem empty_relation_prune_correct:
  assumes "run_ok X (buildScalar X) L \<Gamma>" and "rel_wt \<Gamma> r"
  shows "pass_correct X L \<Gamma> r (emptyRelationPrune r)"
  using pure_walk_total emptyRelationPrune_sound [OF assms] by (intro pass_correctI) (simp_all add: emptyRelationPrune_def)

theorem empty_relation_prune_correct_witness:
  "\<forall>X. pass_correct X (\<lambda>r. {Inr []}) [1 \<mapsto> Integer]
     (LimitRelation (EmptyRelation (schema_of [1])) 1 (schema_of [1]))
     (emptyRelationPrune (LimitRelation (EmptyRelation (schema_of [1])) 1 (schema_of [1])))"
  by (intro allI empty_relation_prune_correct no_input_ok)
    (auto simp: wt_limit rel_wt_node [of _ "EmptyRelation (schema_of [1])"] has_schema_def fields_ok_def intro: exI [of _ "[1]"])

text \<open>C6: the collapse of projections keeps the promise of a pass, whatever the cost settings.\<close>

theorem projection_collapse_correct:
  assumes "run_ok X (buildScalar X) L \<Gamma>" and "rel_wt \<Gamma> r"
  shows "pass_correct X L \<Gamma> r (projectionCollapse C r)"
proof (rule pass_correctI)
  have "\<exists>b q. collapse_step C r = Inr (b, q) \<and> rel_sound (buildScalar X) L \<Gamma> r q" if "rel_wt \<Gamma> r" for r
    using collapse_step_total [OF that] collapse_step_sound [OF that] by blast
  from rel_walk_total [OF assms(1) this assms(2)] show "\<exists>b q. projectionCollapse C r = Inr (b, q)"
    unfolding projectionCollapse_def by blast
qed (rule projectionCollapse_sound [OF assms])

theorem projection_collapse_correct_witness:
  "\<forall>X. pass_correct X (\<lambda>r. {Inr []}) [1 \<mapsto> Integer, 2 \<mapsto> Integer, 3 \<mapsto> Integer]
     (ProjectionRelation (ProjectionRelation (ValuesRelation [VInt 1] 1 (schema_of [1]))
        [\<lparr>alias_field_id = 2, expr = FieldScalar 1 Integer\<rparr>] (schema_of [2]))
        [\<lparr>alias_field_id = 3, expr = FieldScalar 2 Integer\<rparr>] (schema_of [3]))
     (projectionCollapse default_setting (ProjectionRelation (ProjectionRelation (ValuesRelation [VInt 1] 1 (schema_of [1]))
        [\<lparr>alias_field_id = 2, expr = FieldScalar 1 Integer\<rparr>] (schema_of [2]))
        [\<lparr>alias_field_id = 3, expr = FieldScalar 2 Integer\<rparr>] (schema_of [3])))"
  by (intro allI projection_collapse_correct no_input_ok)
    (auto simp: rel_wt_simps projs_ok_def exprs_ok_def rel_fields_def has_schema_def fields_ok_def has_type_def fits_def
      intro!: values_wt)

text \<open>C8: folding the aggregates of constants keeps the promise of a pass, on expressions whose
  constants have one representation each, and keeps them so.\<close>

theorem const_aggregate_fold_correct:
  assumes "run_ok X (buildScalar X) L \<Gamma>" and "rel_wt \<Gamma> r" and "canonical r"
  shows "pass_correct X L \<Gamma> r (constAggregateFold r) \<and> (\<exists>b q. constAggregateFold r = Inr (b, q) \<and> canonical q)"
proof -
  note s = constAggregateFold_sound [OF assms]
  have "\<exists>b q. constAggregateFold r = Inr (b, q)"
    unfolding constAggregateFold_def
    by (rule rel_walk_total_cond [OF assms(1) all_scalars_local _ _ assms(2) assms(3) [unfolded canonical_def]])
      (use aggregate_fold_step_total aggregate_fold_step_sound [OF assms(1)] in blast)+
  with s show ?thesis by (auto intro!: pass_correctI)
qed

theorem const_aggregate_fold_correct_witness:
  "\<forall>X. pass_correct X (\<lambda>r. {Inr []}) [1 \<mapsto> Integer, 2 \<mapsto> Integer]
     (AggregateRelation (ValuesRelation [VInt 1] 1 (schema_of [1]))
       [\<lparr>agg_node = FnCallAggregate (Max_fn Integer) [ValueScalar (VInt 7) Integer], output_field_id = 2, agg_type = Integer\<rparr>]
       (schema_of [2]))
     (constAggregateFold (AggregateRelation (ValuesRelation [VInt 1] 1 (schema_of [1]))
       [\<lparr>agg_node = FnCallAggregate (Max_fn Integer) [ValueScalar (VInt 7) Integer], output_field_id = 2, agg_type = Integer\<rparr>]
       (schema_of [2])))"
proof
  fix X
  let ?v = "ValuesRelation [VInt 1] 1 (schema_of [1])"
  let ?r = "AggregateRelation ?v [\<lparr>agg_node = FnCallAggregate (Max_fn Integer) [ValueScalar (VInt 7) Integer],
    output_field_id = 2, agg_type = Integer\<rparr>] (schema_of [2])"
  have wt: "rel_wt [1 \<mapsto> Integer, 2 \<mapsto> Integer] ?r"
    by (auto simp: rel_wt_aggs aggs_ok_def exprs_ok_def has_schema_def fields_ok_def has_type_def fits_def intro!: values_wt)
  have cn: "canonical ?r"
    by (simp add: canonical_def rel_all_node [of _ ?r] rel_all_node [of _ ?v] all_scalars_def aggs_args_def agg_args_def)
  from const_aggregate_fold_correct [OF no_input_ok wt cn]
  show "pass_correct X (\<lambda>r. {Inr []}) [1 \<mapsto> Integer, 2 \<mapsto> Integer] ?r (constAggregateFold ?r)" by simp
qed

text \<open>C7: the removal of duplicate aggregates keeps the promise of a pass.\<close>

theorem aggregate_deduplicate_correct:
  assumes "run_ok X (buildScalar X) L \<Gamma>" and "rel_wt \<Gamma> r" and "dedupe_ok \<Gamma> r"
  shows "pass_correct X L \<Gamma> r (aggregateDeduplicate r)"
proof (rule pass_correctI)
  let ?N = "\<lambda>r. aggs_canon r \<and> keys_exact \<Gamma> r"
  have n: "rel_all ?N r \<Longrightarrow> aggs_canon r \<and> keys_exact \<Gamma> r" for r by (simp add: rel_all_node [of _ r])
  show "\<exists>b q. aggregateDeduplicate r = Inr (b, q)"
    unfolding aggregateDeduplicate_def
  proof (rule rel_walk_total_cond [OF assms(1) dedupe_ok_local _ _ assms(2) assms(3) [unfolded dedupe_ok_def]])
    fix r assume r: "rel_wt \<Gamma> r" "rel_all ?N r"
    with n deduplicate_total show "\<exists>b q. deduplicate r = Inr (b, q)" by blast
    fix b q assume "deduplicate r = Inr (b, q)"
    with r n deduplicate_sound [OF assms(1)] deduplicate_ok [unfolded dedupe_ok_def]
    show "rel_sound (buildScalar X) L \<Gamma> r q \<and> rel_all ?N q" by blast
  qed
qed (rule aggregateDeduplicate_sound [OF assms])

theorem aggregate_deduplicate_correct_witness:
  "\<forall>X. pass_correct X (\<lambda>r. {Inr []}) [1 \<mapsto> Integer, 2 \<mapsto> Integer, 3 \<mapsto> Integer]
     (AggregateRelation (ValuesRelation [VInt 1] 1 (schema_of [1]))
       [\<lparr>agg_node = FnCallAggregate CountAll_fn [], output_field_id = 2, agg_type = Integer\<rparr>,
        \<lparr>agg_node = FnCallAggregate CountAll_fn [], output_field_id = 3, agg_type = Integer\<rparr>] (schema_of [2, 3]))
     (aggregateDeduplicate (AggregateRelation (ValuesRelation [VInt 1] 1 (schema_of [1]))
       [\<lparr>agg_node = FnCallAggregate CountAll_fn [], output_field_id = 2, agg_type = Integer\<rparr>,
        \<lparr>agg_node = FnCallAggregate CountAll_fn [], output_field_id = 3, agg_type = Integer\<rparr>] (schema_of [2, 3])))"
proof
  fix X
  let ?v = "ValuesRelation [VInt 1] 1 (schema_of [1])"
  let ?r = "AggregateRelation ?v [\<lparr>agg_node = FnCallAggregate CountAll_fn [], output_field_id = 2, agg_type = Integer\<rparr>,
    \<lparr>agg_node = FnCallAggregate CountAll_fn [], output_field_id = 3, agg_type = Integer\<rparr>] (schema_of [2, 3])"
  let ?\<Gamma> = "[1 \<mapsto> Integer, 2 \<mapsto> Integer, 3 \<mapsto> Integer]"
  have wt: "rel_wt ?\<Gamma> ?r"
    by (auto simp: rel_wt_aggs aggs_ok_def exprs_ok_def has_schema_def fields_ok_def has_type_def intro!: values_wt)
  have "dedupe_ok ?\<Gamma> ?r" unfolding dedupe_ok_def
    by (simp add: rel_all_node [of _ ?r]) (simp add: rel_all_node [of _ ?v] aggs_canon_def keys_exact_def)
  from aggregate_deduplicate_correct [OF no_input_ok wt this]
  show "pass_correct X (\<lambda>r. {Inr []}) ?\<Gamma> ?r (aggregateDeduplicate ?r)" .
qed

text \<open>C9: simplification of relations keeps the promise of a pass, or fails on the null constant of a
  filter condition.\<close>

theorem relation_simplify_correct:
  assumes "run_ok X (buildScalar X) L \<Gamma>" and "rel_wt \<Gamma> r"
  shows "relationSimplify r = Inl Bad_Variant \<or> pass_correct X L \<Gamma> r (relationSimplify r)"
proof -
  have "e = Bad_Variant" if "rel_walk relation_simplify_step r = Inl e" for e
    using that
  proof (induction r rule: measure_induct_rule [of size])
    case (less r)
    have "e = Bad_Variant" if "walk_list (rel_walk relation_simplify_step) xs = Inl e" "set xs \<subseteq> set (children r)" for xs
      using that
    proof (induction xs)
      case (Cons x xs)
      then show ?case using less.IH [OF children_size, of x] by (auto simp: rbind_Inl_iff)
    qed simp
    with less.prems relation_simplify_step_total show ?case
      by (auto simp: rel_walk.simps [of _ r] then_step_def rbind_Inl_iff)
  qed
  then consider "relationSimplify r = Inl Bad_Variant" | b q where "relationSimplify r = Inr (b, q)"
    unfolding relationSimplify_def by (cases "rel_walk relation_simplify_step r") auto
  then show ?thesis
    by cases (use relationSimplify_sound [OF assms] in \<open>auto intro!: pass_correctI\<close>)
qed

theorem relation_simplify_correct_witness:
  "\<forall>X. pass_correct X (\<lambda>r. {Inr []}) [1 \<mapsto> Integer]
     (FilterRelation (ValuesRelation [VInt 1] 1 (schema_of [1])) (ValueScalar (VBool False) Boolean) (schema_of [1]))
     (relationSimplify (FilterRelation (ValuesRelation [VInt 1] 1 (schema_of [1])) (ValueScalar (VBool False) Boolean) (schema_of [1])))"
proof
  fix X
  let ?r = "FilterRelation (ValuesRelation [VInt 1] 1 (schema_of [1])) (ValueScalar (VBool False) Boolean) (schema_of [1])"
  have wt: "rel_wt [1 \<mapsto> Integer] ?r"
    by (auto simp: wt_filter cond_ok_def has_type_def fits_def intro!: values_wt)
  have "relationSimplify ?r = Inr (True, EmptyRelation (schema_of [1]))"
    by (simp add: relationSimplify_def rel_walk_one rel_walk_leaf)
  with relation_simplify_correct [OF no_input_ok wt, of X]
  show "pass_correct X (\<lambda>r. {Inr []}) [1 \<mapsto> Integer] ?r (relationSimplify ?r)" by simp
qed


end
