(* ===== verification/Phys_Merge.thy ===== *)
theory Phys_Merge
  imports Phys_Sort Interleave
begin

text \<open>
  src/back/exec/phys/ops/UnionAll.h and MergeSorted.h: the operators with several inputs. Their inputs
  push from different threads under one mutex, so a run is a sequence of single calls in any order. The
  lemmas: whatever the order, UnionAll passes every record on and ends when the last input has ended,
  and MergeSorted emits a merge of its two inputs by the sort key, or stops when no one listens.
\<close>

section \<open>Runs with several inputs\<close>

text \<open>An input is fed until it answers false.\<close>

fun drive_inputs :: "('i \<Rightarrow> 's consumer) \<Rightarrow> 'i set \<Rightarrow> 's \<Rightarrow> ('i \<times> Record option) list \<Rightarrow> 's res" where
  "drive_inputs c on s [] = Inr s"
| "drive_inputs c on s ((i, e) # es) =
     (if i \<in> on then rbind (c i s e) (\<lambda>(cont, s'). drive_inputs c (if cont then on else on - {i}) s' es)
      else drive_inputs c on s es)"

definition events_of :: "'i \<Rightarrow> ('i \<times> Record option) list \<Rightarrow> Record option list" where
  "events_of i es = map snd (filter (\<lambda>p. fst p = i) es)"

lemma events_of_simps [simp]:
  "events_of i [] = []"
  "events_of i ((j, e) # es) = (if j = i then e # events_of i es else events_of i es)"
  by (simp_all add: events_of_def)

section \<open>UnionAll.h\<close>

record union_state =
  stream_finished :: bool
  eof_count :: nat

definition union_init :: union_state where
  "union_init = \<lparr>stream_finished = False, eof_count = 0\<rparr>"

text \<open>\<open>n\<close> is the number of subscribers made by the constructor.\<close>

definition union_consume :: "nat \<Rightarrow> 'o consumer \<Rightarrow> (union_state \<times> 'o) consumer" where
  "union_consume n emit = (\<lambda>(s, d) r.
     if stream_finished s then Inr (False, (s, d))
     else case r of
       None \<Rightarrow>
         let s1 = s\<lparr>eof_count := eof_count s + 1\<rparr> in
         if eof_count s1 = n
         then rbind (emit d None) (\<lambda>(b, d'). Inr (False, (s1\<lparr>stream_finished := True\<rparr>, d')))
         else Inr (False, (s1, d))
     | Some rec \<Rightarrow> rbind (emit d (Some rec)) (\<lambda>(b, d').
         if b then Inr (True, (s, d')) else Inr (False, (s\<lparr>stream_finished := True\<rparr>, d'))))"

section \<open>MergeSorted.h\<close>

datatype side = Left | Right

fun other :: "side \<Rightarrow> side" where
  "other Left = Right"
| "other Right = Left"

record merge_state =
  delay_done :: bool
  eofs :: "side \<Rightarrow> bool"
  buffers :: "side \<Rightarrow> item list"

definition merge_init :: merge_state where
  "merge_init = \<lparr>delay_done = False, eofs = (\<lambda>i. False), buffers = (\<lambda>i. [])\<rparr>"

definition merge_less :: "bool \<Rightarrow> Value list \<Rightarrow> Value list \<Rightarrow> bool" where
  "merge_less desc a b = (desc \<noteq> key_less a b)"

definition should_wait :: "merge_state \<Rightarrow> side \<Rightarrow> bool" where
  "should_wait s i = (\<not> eofs s i \<and> buffers s i = [])"

definition merge_push :: "side \<Rightarrow> item \<Rightarrow> merge_state \<Rightarrow> merge_state" where
  "merge_push i x s = s\<lparr>buffers := (buffers s)(i := buffers s i @ [x])\<rparr>"

definition merge_reset :: "merge_state \<Rightarrow> merge_state" where
  "merge_reset s = s\<lparr>buffers := (\<lambda>i. []), eofs := (\<lambda>i. False), delay_done := False\<rparr>"

definition all_eof :: "merge_state \<Rightarrow> bool" where
  "all_eof s = (eofs s Left \<and> eofs s Right)"

definition merge_terminate :: "side \<Rightarrow> merge_state \<Rightarrow> merge_state" where
  "merge_terminate i s = (let s1 = s\<lparr>eofs := (eofs s)(i := True)\<rparr> in
     if all_eof s1 then merge_reset s1 else s1\<lparr>delay_done := True\<rparr>)"

text \<open>The loops of \<open>drain\<close>, on the buffers; the Boolean is \<open>StopRequested\<close>.\<close>

fun drain_pairs :: "bool \<Rightarrow> 'o consumer \<Rightarrow> item list \<Rightarrow> item list \<Rightarrow> 'o \<Rightarrow> (bool \<times> item list \<times> item list \<times> 'o) res" where
  "drain_pairs desc emit (l # ls) (r # rs) d =
     (if merge_less desc (snd l) (snd r)
      then rbind (emit d (Some (fst l))) (\<lambda>(b, d'). if b then drain_pairs desc emit ls (r # rs) d' else Inr (True, ls, r # rs, d'))
      else rbind (emit d (Some (fst r))) (\<lambda>(b, d'). if b then drain_pairs desc emit (l # ls) rs d' else Inr (True, l # ls, rs, d')))"
| "drain_pairs desc emit ls rs d = Inr (False, ls, rs, d)"

fun drain_side :: "'o consumer \<Rightarrow> item list \<Rightarrow> 'o \<Rightarrow> (bool \<times> item list \<times> 'o) res" where
  "drain_side emit [] d = Inr (False, [], d)"
| "drain_side emit (x # xs) d =
     rbind (emit d (Some (fst x))) (\<lambda>(b, d'). if b then drain_side emit xs d' else Inr (True, xs, d'))"

definition merge_drain :: "bool \<Rightarrow> 'o consumer \<Rightarrow> merge_state \<Rightarrow> 'o \<Rightarrow> (bool \<times> merge_state \<times> 'o) res" where
  "merge_drain desc emit s d =
     rbind (drain_pairs desc emit (buffers s Left) (buffers s Right) d) (\<lambda>(stop, lb, rb, d').
       let bufs = (\<lambda>lb rb. s\<lparr>buffers := (buffers s)(Left := lb, Right := rb)\<rparr>) in
       if stop then Inr (True, bufs lb rb, d')
       else if eofs s Right \<and> lb \<noteq> [] then
         rbind (drain_side emit lb d') (\<lambda>(stop, lb', d''). Inr (stop, bufs lb' rb, d''))
       else if eofs s Left \<and> rb \<noteq> [] then
         rbind (drain_side emit rb d') (\<lambda>(stop, rb', d''). Inr (stop, bufs lb rb', d''))
       else Inr (False, bufs lb rb, d'))"

text \<open>\<open>drain(curr_side, record)\<close> on the buffer of the other side; the second Boolean says that the
  record goes to the buffer of its own side.\<close>

fun drain_record :: "bool \<Rightarrow> 'o consumer \<Rightarrow> item \<Rightarrow> item list \<Rightarrow> 'o \<Rightarrow> (bool \<times> bool \<times> item list \<times> 'o) res" where
  "drain_record desc emit x [] d = Inr (False, True, [], d)"
| "drain_record desc emit x (y # ys) d =
     (if merge_less desc (snd x) (snd y)
      then rbind (emit d (Some (fst x))) (\<lambda>(b, d'). Inr (\<not> b, False, y # ys, d'))
      else rbind (emit d (Some (fst y))) (\<lambda>(b, d'). if b then drain_record desc emit x ys d' else Inr (True, False, ys, d')))"

definition merge_consume :: "exec_scalar list \<Rightarrow> bool \<Rightarrow> 'o consumer \<Rightarrow> side \<Rightarrow> (merge_state \<times> 'o) consumer" where
  "merge_consume keys desc emit i = (\<lambda>(s, d) r.
     if delay_done s then Inr (False, (merge_reset s, d))
     else case r of
       None \<Rightarrow>
         rbind (merge_drain desc emit (s\<lparr>eofs := (eofs s)(i := True)\<rparr>) d) (\<lambda>(stop, s1, d1).
           if stop then Inr (False, (merge_terminate i s1, d1))
           else if all_eof s1 then rbind (emit d1 None) (\<lambda>(b, d2). Inr (False, (merge_reset s1, d2)))
           else Inr (False, (s1, d1)))
     | Some rec \<Rightarrow>
         rbind (eval_key keys rec) (\<lambda>k.
           if should_wait s (other i) then Inr (True, (merge_push i (rec, k) s, d))
           else if buffers s i \<noteq> [] then
             rbind (merge_drain desc emit (merge_push i (rec, k) s) d) (\<lambda>(stop, s1, d1).
               if stop then Inr (False, (merge_terminate i s1, d1)) else Inr (True, (s1, d1)))
           else
             rbind (drain_record desc emit (rec, k) (buffers s (other i)) d) (\<lambda>(stop, keep, ys, d1).
               let s1 = s\<lparr>buffers := (buffers s)(other i := ys)\<rparr> in
               if stop then Inr (False, (merge_terminate i s1, d1))
               else Inr (True, (if keep then merge_push i (rec, k) s1 else s1, d1)))))"

section \<open>UnionAll passes every record on\<close>

definition records_of :: "('i \<times> Record option) list \<Rightarrow> Record list" where
  "records_of es = List.map_filter snd es"

lemma records_of_simps [simp]:
  "records_of [] = []" "records_of ((i, None) # es) = records_of es" "records_of ((i, Some r) # es) = r # records_of es"
  by (simp_all add: records_of_def List.map_filter_simps)

text \<open>Each input that is on still has to end; of the others nothing is left.\<close>

definition inputs_left :: "'i set \<Rightarrow> ('i \<times> Record option) list \<Rightarrow> bool" where
  "inputs_left on es \<longleftrightarrow> (\<forall>i. if i \<in> on then \<exists>rs. events_of i es = stream rs else events_of i es = [])"

lemma inputs_left_end: "inputs_left on ((i, None) # es) \<Longrightarrow> i \<in> on \<and> inputs_left (on - {i}) es"
proof -
  assume left: "inputs_left on ((i, None) # es)"
  then have i: "i \<in> on" by (auto simp: inputs_left_def split: if_splits)
  with left have "\<exists>rs. None # events_of i es = stream rs" by (auto simp: inputs_left_def split: if_splits)
  then have "events_of i es = []" by (auto simp: Cons_eq_append_conv)
  with left i show ?thesis by (auto simp: inputs_left_def split: if_splits)
qed

lemma inputs_left_record: "inputs_left on ((i, Some r) # es) \<Longrightarrow> i \<in> on \<and> inputs_left on es"
proof -
  assume left: "inputs_left on ((i, Some r) # es)"
  then have i: "i \<in> on" by (auto simp: inputs_left_def split: if_splits)
  with left have "\<exists>rs. Some r # events_of i es = stream rs" by (auto simp: inputs_left_def split: if_splits)
  then have "\<exists>rs. events_of i es = stream rs" by (auto simp: Cons_eq_append_conv Cons_eq_map_conv)
  with left i show ?thesis by (auto simp: inputs_left_def split: if_splits)
qed

context emitter
begin

lemma union_finished: "stream_finished s \<Longrightarrow> behind (drive_inputs (\<lambda>i. union_consume n out) on (s, d) es) = Inr d"
proof (induction es arbitrary: on)
  case (Cons p es)
  then show ?case by (cases p) (simp add: union_consume_def)
qed simp

lemma union_run:
  assumes "inputs_left on es" "finite on" "eof_count s + card on = n" "on \<noteq> {}" "\<not> stream_finished s"
  shows "behind (drive_inputs (\<lambda>i. union_consume n out) on (s, d) es) = drive out d (stream (records_of es))"
  using assms
proof (induction es arbitrary: on s d)
  case Nil
  then obtain i where "i \<in> on" by blast
  with Nil.prems(1) have "\<exists>rs. events_of i [] = stream rs" unfolding inputs_left_def by (auto dest!: spec [of _ i])
  then show ?case by simp
next
  case (Cons p es)
  obtain i e where p: "p = (i, e)" by (cases p)
  show ?case
  proof (cases e)
    case None
    have left: "i \<in> on" "inputs_left (on - {i}) es"
      using inputs_left_end [OF Cons.prems(1) [unfolded p None]] by simp_all
    show ?thesis
    proof (cases "on = {i}")
      case True
      with Cons.prems(3) have n: "Suc (eof_count s) = n" by simp
      have "es = []"
      proof (rule ccontr)
        assume "es \<noteq> []"
        then obtain j f es' where "es = (j, f) # es'" by (cases es) auto
        with left(2) True show False by (auto simp: inputs_left_def split: if_splits)
      qed
      with n True Cons.prems(5) show ?thesis
        by (cases "out d None") (auto simp: p None union_consume_def drive_None [of d "[]"])
    next
      case False
      with left(1) have ne: "on - {i} \<noteq> {}" by blast
      have c: "card (on - {i}) + 1 = card on" using card_Suc_Diff1 [OF Cons.prems(2) left(1)] by simp
      from ne have "card (on - {i}) > 0" using Cons.prems(2) by (simp add: card_gt_0_iff)
      with c Cons.prems(3) have n: "Suc (eof_count s) \<noteq> n" by simp
      have "behind (drive_inputs (\<lambda>i. union_consume n out) (on - {i}) (s\<lparr>eof_count := Suc (eof_count s)\<rparr>, d) es) =
          drive out d (stream (records_of es))"
        by (rule Cons.IH [OF left(2)]) (use c ne Cons.prems in auto)
      with n left(1) Cons.prems(5) show ?thesis by (simp add: p None union_consume_def)
    qed
  next
    case (Some r)
    have left: "i \<in> on" "inputs_left on es"
      using inputs_left_record [OF Cons.prems(1) [unfolded p Some]] by simp_all
    show ?thesis
    proof (cases "out d (Some r)")
      case (Inr x)
      obtain b d' where x: "x = (b, d')" by (cases x)
      have b: "b = live d'" using out_live Inr x by blast
      show ?thesis
      proof (cases b)
        case True
        with Cons.IH [OF left(2) Cons.prems(2-5), of d'] left(1) Cons.prems(5) Inr x show ?thesis
          by (simp add: p Some union_consume_def)
      next
        case False
        with b union_finished [of "s\<lparr>stream_finished := True\<rparr>" n "on - {i}" d' es] left(1) Cons.prems(5) Inr x
        show ?thesis by (simp add: p Some union_consume_def)
      qed
    qed (use left(1) Cons.prems(5) in \<open>simp add: p Some union_consume_def\<close>)
  qed
qed

end

section \<open>Merges\<close>

text \<open>Emitting \<open>us\<close> takes what is left of the two inputs from \<open>F\<close> to \<open>F'\<close>: each element is the head of
  one input and the head of the other one is not smaller.\<close>

inductive merge_to :: "(item \<Rightarrow> item \<Rightarrow> bool) \<Rightarrow> (side \<Rightarrow> item list) \<Rightarrow> item list \<Rightarrow> (side \<Rightarrow> item list) \<Rightarrow> bool"
  for lt where
  nil: "merge_to lt F [] F"
| head: "F i = x # xs \<Longrightarrow> F (other i) = [] \<or> \<not> lt (hd (F (other i))) x \<Longrightarrow> merge_to lt (F(i := xs)) us F' \<Longrightarrow>
    merge_to lt F (x # us) F'"

lemma merge_to_append: "merge_to lt F us F' \<Longrightarrow> merge_to lt F' vs F'' \<Longrightarrow> merge_to lt F (us @ vs) F''"
  by (induction rule: merge_to.induct) (auto intro: merge_to.head)

lemma merge_to_subset: "merge_to lt F us F' \<Longrightarrow> set (F' i) \<subseteq> set (F i)"
  by (induction rule: merge_to.induct) (auto split: if_splits)

lemma other_neq [simp]: "other i \<noteq> i" "i \<noteq> other i"
  by (cases i; simp)+

lemma other_other [simp]: "other (other i) = i"
  by (cases i) simp_all

lemma side_cases: "j = i \<or> j = other i"
  by (cases i; cases j) simp_all

lemma merge_to_total:
  assumes w: "weak_order_on A lt" and "\<forall>i. set (F i) \<subseteq> A"
  shows "\<exists>us. merge_to lt F us (\<lambda>i. [])"
  using assms(2)
proof (induction "length (F Left) + length (F Right)" arbitrary: F rule: less_induct)
  case less
  show ?case
  proof (cases "F Left = [] \<and> F Right = []")
    case True
    then have "F = (\<lambda>i. [])" by (intro ext) (metis (full_types) side.exhaust)
    then show ?thesis using merge_to.nil by blast
  next
    case False
    have "\<exists>i x xs. F i = x # xs \<and> (F (other i) = [] \<or> \<not> lt (hd (F (other i))) x)"
    proof (cases "F Left"; cases "F Right")
      fix x xs y ys assume F: "F Left = x # xs" "F Right = y # ys"
      show ?thesis
      proof (cases "lt y x")
        case True
        have "x \<in> A" "y \<in> A" using less.prems F by (metis list.set_intros(1) subsetD)+
        with weak_order_asym [OF w _ _ True] have "\<not> lt x y" by simp
        with F show ?thesis by (intro exI [of _ Right]) auto
      qed (use F in \<open>intro exI [of _ Left], auto\<close>)
    next
      fix x xs assume "F Left = x # xs" "F Right = []"
      then show ?thesis by (intro exI [of _ Left]) auto
    next
      fix y ys assume "F Left = []" "F Right = y # ys"
      then show ?thesis by (intro exI [of _ Right]) auto
    qed (use False in auto)
    then obtain i x xs where i: "F i = x # xs" "F (other i) = [] \<or> \<not> lt (hd (F (other i))) x" by blast
    have "\<exists>us. merge_to lt (F(i := xs)) us (\<lambda>i. [])"
    proof (rule less.hyps)
      show "length ((F(i := xs)) Left) + length ((F(i := xs)) Right) < length (F Left) + length (F Right)"
        using i(1) by (cases i) auto
      show "\<forall>j. set ((F(i := xs)) j) \<subseteq> A" using less.prems i(1) by (metis fun_upd_apply set_subset_Cons subset_trans)
    qed
    with i show ?thesis by (blast intro: merge_to.head)
  qed
qed

text \<open>A merge of both inputs interleaves them, in order when they are.\<close>

lemma merge_to_shuffles: "merge_to lt F us F' \<Longrightarrow> F' = (\<lambda>i. []) \<Longrightarrow> us \<in> shuffles (F Left) (F Right)"
proof (induction rule: merge_to.induct)
  case (head F i x xs us F')
  then show ?case by (cases i) (auto intro: Cons_in_shuffles_leftI Cons_in_shuffles_rightI)
qed simp

lemma merge_to_ordered:
  assumes w: "weak_order_on A lt"
  shows "merge_to lt F us F' \<Longrightarrow> F' = (\<lambda>i. []) \<Longrightarrow> \<forall>i. set (F i) \<subseteq> A \<and> ordered lt (F i) \<Longrightarrow> ordered lt us"
proof (induction rule: merge_to.induct)
  case (head F i x xs us F')
  have xs: "ordered lt (x # xs)" "set (x # xs) \<subseteq> A" using head.prems(2) head.hyps(1) by metis+
  have o: "ordered lt us"
    using head.IH head.prems xs by (auto simp: ordered_Cons)
  have us: "us \<in> shuffles xs (F (other i))"
    using merge_to_shuffles [OF head.hyps(3) head.prems(1)] by (cases i) (simp_all add: shuffles_commutes)
  show ?case
    by (rule ordered_merge_front [OF w us o xs(1)]) (use head.prems(2) head.hyps(2) xs(2) in auto)
qed simp

section \<open>MergeSorted emits a merge\<close>

text \<open>The keyed records an input still gives.\<close>

definition items_of :: "(Record \<Rightarrow> Value list) \<Rightarrow> ('i \<times> Record option) list \<Rightarrow> 'i \<Rightarrow> item list" where
  "items_of k es i = map (\<lambda>r. (r, k r)) (List.map_filter id (events_of i es))"

lemma items_of_simps [simp]:
  "items_of k [] i = []"
  "items_of k ((j, None) # es) i = items_of k es i"
  "items_of k ((j, Some r) # es) i = (if j = i then (r, k r) # items_of k es i else items_of k es i)"
  by (simp_all add: items_of_def List.map_filter_simps)

lemma items_of_subset: "set (items_of k es i) \<subseteq> (\<lambda>r. (r, k r)) ` set (records_of es)"
proof (induction es)
  case (Cons p es)
  then show ?case by (cases p; cases "snd p") auto
qed simp

lemma all_sides: "(\<forall>i. P i) \<longleftrightarrow> P Left \<and> P Right"
  by (metis (full_types) side.exhaust)

text \<open>\<open>heap_less\<close> is the order of the merged stream; \<open>merge_less\<close> picks a head that is not greater.\<close>

lemma merge_less_head:
  assumes "a \<in> good_items" "b \<in> good_items"
  shows "merge_less desc (snd a) (snd b) \<Longrightarrow> \<not> heap_less desc b a"
    and "\<not> merge_less desc (snd a) (snd b) \<Longrightarrow> \<not> heap_less desc a b"
  using assms by (auto simp: merge_less_def heap_less_def good_items_def key_less_rank split: if_splits)

definition good_sides :: "(side \<Rightarrow> item list) \<Rightarrow> bool" where
  "good_sides F \<longleftrightarrow> (\<forall>i. set (F i) \<subseteq> good_items)"

lemma good_sides_upd: "good_sides F \<Longrightarrow> F i = x # xs \<Longrightarrow> good_sides (F(i := xs))"
  unfolding good_sides_def by (metis fun_upd_apply set_subset_Cons subset_trans)

lemma good_sides_merge: "good_sides F \<Longrightarrow> merge_to lt F us F' \<Longrightarrow> good_sides F'"
  unfolding good_sides_def using merge_to_subset by blast

text \<open>What is left of the inputs: the buffers and what is still to come.\<close>

definition left_of :: "(side \<Rightarrow> item list) \<Rightarrow> (side \<Rightarrow> item list) \<Rightarrow> side \<Rightarrow> item list" where
  "left_of bufs fut = (\<lambda>i. bufs i @ fut i)"

definition pair_of :: "'a \<Rightarrow> 'a \<Rightarrow> side \<Rightarrow> 'a" where
  "pair_of l r i = (case i of Left \<Rightarrow> l | Right \<Rightarrow> r)"

lemma pair_of_simps [simp]: "pair_of l r Left = l" "pair_of l r Right = r"
  by (simp_all add: pair_of_def)

lemma pair_of_eta: "f = pair_of (f Left) (f Right)"
  by (rule ext) (simp add: pair_of_def split: side.splits)

lemma pair_of_upd [simp]: "(pair_of l r)(Left := l') = pair_of l' r" "(pair_of l r)(Right := r') = pair_of l r'"
  "f(Left := l, Right := r) = pair_of l r"
  by (rule ext; simp add: pair_of_def split: side.splits)+

lemma left_of_upd: "left_of bufs fut i = x # xs @ fut i \<Longrightarrow> (left_of bufs fut)(i := xs @ fut i) = left_of (bufs(i := xs)) fut"
  by (auto simp: left_of_def)

context emitter
begin

text \<open>A computation that emits records of the merge of \<open>F\<close>; \<open>Q\<close> relates its result to the subscribers
  and to what is left.\<close>

definition emitted :: "bool \<Rightarrow> (side \<Rightarrow> item list) \<Rightarrow> 'o \<Rightarrow> 'y res \<Rightarrow> ('y \<Rightarrow> 'o \<Rightarrow> (side \<Rightarrow> item list) \<Rightarrow> bool) \<Rightarrow> bool" where
  "emitted desc F d m Q \<longleftrightarrow> (\<exists>us F'. merge_to (heap_less desc) F us F' \<and>
     (case m of Inl f \<Rightarrow> drive out d (map Some (map fst us)) = Inl f
      | Inr y \<Rightarrow> \<exists>d'. drive out d (map Some (map fst us)) = Inr d' \<and> Q y d' F'))"

lemma emitted_ret: "Q y d F \<Longrightarrow> emitted desc F d (Inr y) Q"
  unfolding emitted_def by (intro exI [of _ "[]"] exI [of _ F]) (simp add: merge_to.nil)

lemma emitted_out:
  assumes "F i = x # xs" "F (other i) = [] \<or> \<not> heap_less desc (hd (F (other i))) x"
  shows "emitted desc F d (out d (Some (fst x))) (\<lambda>(b, d1) d' F'. d' = d1 \<and> b = live d1 \<and> F' = F(i := xs))"
proof -
  have "merge_to (heap_less desc) F [x] (F(i := xs))" by (rule merge_to.head [where lt = "heap_less desc", OF assms merge_to.nil])
  then show ?thesis
    unfolding emitted_def
    by (intro exI [of _ "[x]"] exI [of _ "F(i := xs)"]) (auto split: sum.splits dest: out_live)
qed

lemma emitted_bind:
  assumes m: "emitted desc F d m Q" and "good_sides F"
    and f: "\<And>y d' F'. Q y d' F' \<Longrightarrow> good_sides F' \<Longrightarrow> emitted desc F' d' (f y) R"
  shows "emitted desc F d (rbind m f) R"
proof -
  from m obtain us F' where us: "merge_to (heap_less desc) F us F'"
      "case m of Inl g \<Rightarrow> drive out d (map Some (map fst us)) = Inl g
       | Inr y \<Rightarrow> \<exists>d'. drive out d (map Some (map fst us)) = Inr d' \<and> Q y d' F'"
    unfolding emitted_def by blast
  show ?thesis
  proof (cases m)
    case (Inl g)
    with us show ?thesis unfolding emitted_def by (intro exI [of _ us] exI [of _ F']) simp
  next
    case (Inr y)
    with us(2) obtain d' where d': "drive out d (map Some (map fst us)) = Inr d'" "Q y d' F'" by auto
    from f [OF d'(2) good_sides_merge [OF assms(2) us(1)]] obtain vs F'' where vs:
      "merge_to (heap_less desc) F' vs F''"
      "case f y of Inl g \<Rightarrow> drive out d' (map Some (map fst vs)) = Inl g
       | Inr z \<Rightarrow> \<exists>d''. drive out d' (map Some (map fst vs)) = Inr d'' \<and> R z d'' F''"
      unfolding emitted_def by blast
    from vs(2) d'(1) have "case rbind m f of
        Inl g \<Rightarrow> drive out d (map Some (map fst (us @ vs))) = Inl g
      | Inr z \<Rightarrow> \<exists>d''. drive out d (map Some (map fst (us @ vs))) = Inr d'' \<and> R z d'' F''"
      by (simp add: Inr drive_out_append split: sum.splits)
    with merge_to_append [OF us(1) vs(1)] show ?thesis unfolding emitted_def by blast
  qed
qed

lemma emitted_weaken: "emitted desc F d m Q \<Longrightarrow> (\<And>y d' F'. Q y d' F' \<Longrightarrow> R y d' F') \<Longrightarrow> emitted desc F d m R"
  unfolding emitted_def by (elim exE conjE) (auto split: sum.splits, blast+)

lemma drain_pairs_emitted:
  "good_sides (left_of (pair_of ls rs) fut) \<Longrightarrow>
   emitted desc (left_of (pair_of ls rs) fut) d (drain_pairs desc out ls rs d)
     (\<lambda>(stop, ls', rs', d1) d' F'. d' = d1 \<and> F' = left_of (pair_of ls' rs') fut \<and>
        (if stop then \<not> live d' else ls' = [] \<or> rs' = []))"
proof (induction ls rs arbitrary: d rule: shuffles.induct)
  case (3 l ls r rs)
  let ?F = "left_of (pair_of (l # ls) (r # rs)) fut"
  let ?Q = "\<lambda>(stop, ls', rs', d1) d' F'. d' = d1 \<and> F' = left_of (pair_of ls' rs') fut \<and>
        (if stop then \<not> live d' else ls' = [] \<or> rs' = [])"
  have good: "l \<in> good_items" "r \<in> good_items"
    using "3.prems" by (auto simp: good_sides_def left_of_def pair_of_def split: side.splits)
  have F: "?F Left = l # ls @ fut Left" "?F Right = r # rs @ fut Right" by (simp_all add: left_of_def)
  have upd: "?F(Left := ls @ fut Left) = left_of (pair_of ls (r # rs)) fut"
    "?F(Right := rs @ fut Right) = left_of (pair_of (l # ls) rs) fut"
    by (auto simp: left_of_def pair_of_def split: side.splits)
  show ?case
  proof (cases "merge_less desc (snd l) (snd r)")
    case True
    have o: "emitted desc ?F d (out d (Some (fst l)))
        (\<lambda>(b, d1) d' F'. d' = d1 \<and> b = live d1 \<and> F' = left_of (pair_of ls (r # rs)) fut)"
      using emitted_out [of ?F Left l "ls @ fut Left" desc d] F merge_less_head(1) [OF good True] by (simp add: upd)
    have step: "emitted desc F' d' (case y of (b, d') \<Rightarrow> if b then drain_pairs desc out ls (r # rs) d' else Inr (True, ls, r # rs, d')) ?Q"
      if "(case y of (b, d1) \<Rightarrow> \<lambda>d' F'. d' = d1 \<and> b = live d1 \<and> F' = left_of (pair_of ls (r # rs)) fut) d' F'" "good_sides F'" for y d' F'
      using that "3.IH"(1) by (cases y) (auto intro: emitted_ret)
    show ?thesis using emitted_bind [OF o "3.prems" step] True by simp
  next
    case False
    have o: "emitted desc ?F d (out d (Some (fst r)))
        (\<lambda>(b, d1) d' F'. d' = d1 \<and> b = live d1 \<and> F' = left_of (pair_of (l # ls) rs) fut)"
      using emitted_out [of ?F Right r "rs @ fut Right" desc d] F merge_less_head(2) [OF good False] by (simp add: upd)
    have step: "emitted desc F' d' (case y of (b, d') \<Rightarrow> if b then drain_pairs desc out (l # ls) rs d' else Inr (True, l # ls, rs, d')) ?Q"
      if "(case y of (b, d1) \<Rightarrow> \<lambda>d' F'. d' = d1 \<and> b = live d1 \<and> F' = left_of (pair_of (l # ls) rs) fut) d' F'" "good_sides F'" for y d' F'
      using that "3.IH"(2) by (cases y) (auto intro: emitted_ret)
    show ?thesis using emitted_bind [OF o "3.prems" step] False by simp
  qed
qed (auto intro!: emitted_ret)

lemma drain_side_emitted:
  "good_sides F \<Longrightarrow> F i = xs @ fx \<Longrightarrow> F (other i) = [] \<Longrightarrow>
   emitted desc F d (drain_side out xs d)
     (\<lambda>(stop, xs', d1) d' F'. d' = d1 \<and> F' = F(i := xs' @ fx) \<and> (if stop then \<not> live d' else xs' = []))"
proof (induction xs arbitrary: d F)
  case Nil
  then show ?case by (auto intro!: emitted_ret simp: fun_upd_idem)
next
  case (Cons x xs)
  let ?Q = "\<lambda>(stop, xs', d1) d' F'. d' = d1 \<and> F' = F(i := xs' @ fx) \<and> (if stop then \<not> live d' else xs' = [])"
  have o: "emitted desc F d (out d (Some (fst x))) (\<lambda>(b, d1) d' F'. d' = d1 \<and> b = live d1 \<and> F' = F(i := xs @ fx))"
    by (rule emitted_out) (use Cons.prems in auto)
  have step: "emitted desc F' d' (case y of (b, d') \<Rightarrow> if b then drain_side out xs d' else Inr (True, xs, d')) ?Q"
    if "(case y of (b, d1) \<Rightarrow> \<lambda>d' F'. d' = d1 \<and> b = live d1 \<and> F' = F(i := xs @ fx)) d' F'" "good_sides F'" for y d' F'
  proof (cases y)
    case (Pair b d1)
    have F': "F' = F(i := xs @ fx)" using that(1) Pair by simp
    have "emitted desc F' d' (drain_side out xs d') (\<lambda>(stop, xs', d1) d' F''. d' = d1 \<and> F'' = F'(i := xs' @ fx) \<and> (if stop then \<not> live d' else xs' = []))"
      by (rule Cons.IH [OF that(2)]) (simp_all add: F' Cons.prems)
    then have "emitted desc F' d' (drain_side out xs d') ?Q" unfolding F' fun_upd_upd .
    with that(1) Pair show ?thesis by (auto intro: emitted_ret)
  qed
  show ?case unfolding drain_side.simps by (rule emitted_bind [OF o Cons.prems(1) step])
qed

lemma drain_record_emitted:
  "good_sides F \<Longrightarrow> F i = x # fx \<Longrightarrow> F (other i) = ys @ fy \<Longrightarrow>
   emitted desc F d (drain_record desc out x ys d)
     (\<lambda>(stop, keep, ys', d1) d' F'. d' = d1 \<and> (if stop then \<not> live d' else
        F' = F(i := (if keep then [x] else []) @ fx, other i := ys' @ fy) \<and> (keep \<longrightarrow> ys' = [])))"
proof (induction ys arbitrary: d F)
  case Nil
  then show ?case by (auto intro!: emitted_ret)
next
  case (Cons y ys)
  let ?Q = "\<lambda>(stop, keep, ys', d1) d' F'. d' = d1 \<and> (if stop then \<not> live d' else
        F' = F(i := (if keep then [x] else []) @ fx, other i := ys' @ fy) \<and> (keep \<longrightarrow> ys' = []))"
  have good: "x \<in> good_items" "y \<in> good_items"
    using Cons.prems unfolding good_sides_def by (metis append_Cons list.set_intros(1) subsetD)+
  show ?case
  proof (cases "merge_less desc (snd x) (snd y)")
    case True
    have o: "emitted desc F d (out d (Some (fst x))) (\<lambda>(b, d1) d' F'. d' = d1 \<and> b = live d1 \<and> F' = F(i := fx))"
      by (rule emitted_out) (use Cons.prems merge_less_head(1) [OF good True] in auto)
    have step: "emitted desc F' d' (case z of (b, d') \<Rightarrow> Inr (\<not> b, False, y # ys, d')) ?Q"
      if "(case z of (b, d1) \<Rightarrow> \<lambda>d' F'. d' = d1 \<and> b = live d1 \<and> F' = F(i := fx)) d' F'" "good_sides F'" for z d' F'
      using that Cons.prems by (cases z) (auto intro!: emitted_ret)
    show ?thesis unfolding drain_record.simps if_P [OF True] by (rule emitted_bind [OF o Cons.prems(1) step])
  next
    case False
    have o: "emitted desc F d (out d (Some (fst y)))
        (\<lambda>(b, d1) d' F'. d' = d1 \<and> b = live d1 \<and> F' = F(other i := ys @ fy))"
      by (rule emitted_out) (use Cons.prems merge_less_head(2) [OF good False] in auto)
    have step: "emitted desc F' d' (case z of (b, d') \<Rightarrow> if b then drain_record desc out x ys d' else Inr (True, False, ys, d')) ?Q"
      if "(case z of (b, d1) \<Rightarrow> \<lambda>d' F'. d' = d1 \<and> b = live d1 \<and> F' = F(other i := ys @ fy)) d' F'" "good_sides F'" for z d' F'
    proof (cases z)
      case (Pair b d1)
      have F': "F' = F(other i := ys @ fy)" using that(1) Pair by simp
      have "emitted desc F' d' (drain_record desc out x ys d') (\<lambda>(stop, keep, ys', d1) d' F''. d' = d1 \<and> (if stop then \<not> live d' else
          F'' = F'(i := (if keep then [x] else []) @ fx, other i := ys' @ fy) \<and> (keep \<longrightarrow> ys' = [])))"
        by (rule Cons.IH [OF that(2)]) (simp_all add: F' Cons.prems)
      then have "emitted desc F' d' (drain_record desc out x ys d') ?Q"
        unfolding F' fun_upd_twist [OF other_neq(1)] fun_upd_upd .
      with that(1) Pair show ?thesis by (auto intro: emitted_ret)
    qed
    show ?thesis unfolding drain_record.simps if_not_P [OF False] by (rule emitted_bind [OF o Cons.prems(1) step])
  qed
qed

lemma merge_drain_emitted:
  assumes good: "good_sides (left_of (buffers s) fut)" and eof: "\<forall>i. eofs s i \<longrightarrow> fut i = []"
  shows "emitted desc (left_of (buffers s) fut) d (merge_drain desc out s d)
     (\<lambda>(stop, s1, d1) d' F'. d' = d1 \<and> eofs s1 = eofs s \<and> delay_done s1 = delay_done s \<and>
        (if stop then \<not> live d' else F' = left_of (buffers s1) fut \<and> (buffers s1 Left = [] \<or> buffers s1 Right = []) \<and>
           (\<forall>i. eofs s (other i) \<longrightarrow> buffers s1 i = [])))" (is "emitted desc ?F d _ ?Q")
proof -
  have eta: "?F = left_of (pair_of (buffers s Left) (buffers s Right)) fut" by (simp flip: pair_of_eta)
  note o = drain_pairs_emitted [OF good [unfolded eta], of desc d, folded eta]
  show ?thesis
    unfolding merge_drain_def
  proof (rule emitted_bind [OF o good], goal_cases)
    case (1 y d' F')
    note o = 1
    obtain stop lb rb d1 where y: "y = (stop, lb, rb, d1)" by (cases y) auto
    consider "stop" | "\<not> stop" "eofs s Right" "lb \<noteq> []" | "\<not> stop" "\<not> (eofs s Right \<and> lb \<noteq> [])" "eofs s Left" "rb \<noteq> []"
      | "\<not> stop" "\<not> (eofs s Right \<and> lb \<noteq> [])" "\<not> (eofs s Left \<and> rb \<noteq> [])" by blast
    then show ?case
    proof cases
      case 1
      with o(1) y show ?thesis by (auto intro!: emitted_ret)
    next
      case 2
      with o(1) y have F': "F' = left_of (pair_of lb rb) fut" "rb = []" "d' = d1" by auto
      have e: "emitted desc F' d1 (drain_side out lb d1)
          (\<lambda>(stop, xs', d1) d' F''. d' = d1 \<and> F'' = F'(Left := xs' @ fut Left) \<and> (if stop then \<not> live d' else xs' = []))"
        by (rule drain_side_emitted [OF o(2)]) (use F' 2 eof in \<open>auto simp: left_of_def\<close>)
      have "emitted desc F' d1 (rbind (drain_side out lb d1)
          (\<lambda>(stop, lb', d''). Inr (stop, s\<lparr>buffers := (buffers s)(Left := lb', Right := rb)\<rparr>, d''))) ?Q"
      proof (rule emitted_bind [OF e o(2)], goal_cases)
        case (1 z e' G)
        obtain stop' xs' d2 where z: "z = (stop', xs', d2)" by (cases z) auto
        with 1(1) have G: "e' = d2" "G = F'(Left := xs' @ fut Left)" "if stop' then \<not> live e' else xs' = []" by auto
        have "G = left_of (pair_of xs' rb) fut"
          unfolding G(2) F'(1,2) by (rule ext) (simp add: left_of_def pair_of_def split: side.splits)
        with G(1,3) F'(2) have "?Q (stop', s\<lparr>buffers := pair_of xs' rb\<rparr>, d2) e' G" by (cases stop') (simp_all add: pair_of_def split: side.splits)
        from emitted_ret [where Q = ?Q, OF this] show ?case unfolding z prod.case pair_of_upd .
      qed
      with 2(1,2,3) y F'(3) show ?thesis by (simp del: fun_upd_apply pair_of_upd)
    next
      case 3
      with o(1) y have F': "F' = left_of (pair_of lb rb) fut" "lb = []" "d' = d1" by auto
      have e: "emitted desc F' d1 (drain_side out rb d1)
          (\<lambda>(stop, xs', d1) d' F''. d' = d1 \<and> F'' = F'(Right := xs' @ fut Right) \<and> (if stop then \<not> live d' else xs' = []))"
        by (rule drain_side_emitted [OF o(2)]) (use F' 3 eof in \<open>auto simp: left_of_def\<close>)
      have "emitted desc F' d1 (rbind (drain_side out rb d1)
          (\<lambda>(stop, rb', d''). Inr (stop, s\<lparr>buffers := (buffers s)(Left := lb, Right := rb')\<rparr>, d''))) ?Q"
      proof (rule emitted_bind [OF e o(2)], goal_cases)
        case (1 z e' G)
        obtain stop' xs' d2 where z: "z = (stop', xs', d2)" by (cases z) auto
        with 1(1) have G: "e' = d2" "G = F'(Right := xs' @ fut Right)" "if stop' then \<not> live e' else xs' = []" by auto
        have "G = left_of (pair_of lb xs') fut"
          unfolding G(2) F'(1,2) by (rule ext) (simp add: left_of_def pair_of_def split: side.splits)
        with G(1,3) F'(2) have "?Q (stop', s\<lparr>buffers := pair_of lb xs'\<rparr>, d2) e' G" by (cases stop') (simp_all add: pair_of_def split: side.splits)
        from emitted_ret [where Q = ?Q, OF this] show ?case unfolding z prod.case pair_of_upd .
      qed
      with 3(1,3,4) F'(2) y F'(3) show ?thesis by (simp del: fun_upd_apply pair_of_upd)
    next
      case 4
      with o(1) y have F': "F' = left_of (pair_of lb rb) fut" "d' = d1" "lb = [] \<or> rb = []" by auto
      then have "?Q (False, s\<lparr>buffers := pair_of lb rb\<rparr>, d1) d' F'"
        using 4 by (simp add: pair_of_def split: side.splits)
      from emitted_ret [where Q = ?Q, OF this] show ?thesis
        unfolding y prod.case Let_def if_not_P [OF 4(1)] if_not_P [OF 4(2)] if_not_P [OF 4(3)] pair_of_upd .
    qed
  qed
qed

text \<open>The rest of a run emits a merge of what is left and ends the stream.\<close>

definition completes :: "bool \<Rightarrow> (side \<Rightarrow> item list) \<Rightarrow> 'o \<Rightarrow> ('x \<times> 'o) res \<Rightarrow> bool" where
  "completes desc F d m \<longleftrightarrow> (\<exists>us. merge_to (heap_less desc) F us (\<lambda>i. []) \<and> behind m = drive out d (stream (map fst us)))"

lemma merge_to_ends: "good_sides F \<Longrightarrow> \<exists>us. merge_to (heap_less desc) F us (\<lambda>i. [])"
  using merge_to_total [OF heap_less_weak] unfolding good_sides_def by blast

lemma completes_dead: "good_sides F \<Longrightarrow> \<not> live d \<Longrightarrow> behind m = Inr d \<Longrightarrow> completes desc F d m"
  unfolding completes_def using merge_to_ends by auto

lemma completes_bind:
  assumes m: "emitted desc F d m Q" and good: "good_sides F"
    and f: "\<And>y d' F'. Q y d' F' \<Longrightarrow> good_sides F' \<Longrightarrow> completes desc F' d' (f y)"
  shows "completes desc F d (rbind m f)"
proof -
  from m obtain us F' where us: "merge_to (heap_less desc) F us F'"
      "case m of Inl g \<Rightarrow> drive out d (map Some (map fst us)) = Inl g
       | Inr y \<Rightarrow> \<exists>d'. drive out d (map Some (map fst us)) = Inr d' \<and> Q y d' F'"
    unfolding emitted_def by blast
  note good' = good_sides_merge [OF good us(1)]
  have "\<exists>vs. merge_to (heap_less desc) F' vs (\<lambda>i. []) \<and>
      behind (rbind m f) = drive out d (stream (map fst (us @ vs)))"
  proof (cases m)
    case (Inl g)
    with us(2) merge_to_ends [OF good', of desc] show ?thesis by (auto simp: drive_out_append)
  next
    case (Inr y)
    with us(2) obtain d' where d': "drive out d (map Some (map fst us)) = Inr d'" "Q y d' F'" by auto
    from f [OF d'(2) good'] obtain vs where
      "merge_to (heap_less desc) F' vs (\<lambda>i. [])" "behind (f y) = drive out d' (stream (map fst vs))"
      unfolding completes_def by blast
    with d'(1) Inr show ?thesis by (intro exI [of _ vs]) (simp add: drive_out_append)
  qed
  with merge_to_append [OF us(1)] show ?thesis unfolding completes_def by blast
qed

lemma drive_inputs_off: "drive_inputs c {} s es = Inr s"
proof (induction es)
  case (Cons p es)
  then show ?case by (cases p) simp
qed simp

lemma merge_consume_delayed: "delay_done s \<Longrightarrow> merge_consume keys desc out i (s, d) r = Inr (False, merge_reset s, d)"
  by (simp add: merge_consume_def)

lemma merge_delayed:
  "delay_done s \<Longrightarrow> on \<subseteq> {j} \<Longrightarrow> behind (drive_inputs (merge_consume keys desc out) on (s, d) es) = Inr d"
proof (induction es)
  case (Cons p es)
  obtain i e where p: "p = (i, e)" by (cases p)
  show ?case
  proof (cases "i \<in> on")
    case True
    with Cons.prems(2) have "on - {i} = {}" by auto
    then show ?thesis
      unfolding p drive_inputs.simps if_P [OF True] merge_consume_delayed [OF Cons.prems(1)]
      by (simp only: rbind_simps prod.case if_False drive_inputs_off behind_simps)
  qed (use Cons in \<open>simp add: p\<close>)
qed simp

lemma merge_stopped:
  assumes "on \<subseteq> {j. j \<noteq> i \<and> \<not> eofs s j}"
  shows "behind (drive_inputs (merge_consume keys desc out) on (merge_terminate i s, d) es) = Inr d"
proof (cases "all_eof (s\<lparr>eofs := (eofs s)(i := True)\<rparr>)")
  case True
  then have "eofs s (other i)" by (cases i) (auto simp: all_eof_def)
  with assms side_cases have "on = {}" by blast
  then show ?thesis by (simp add: drive_inputs_off)
next
  case False
  have "on \<subseteq> {other i}" using assms side_cases by blast
  with False show ?thesis using merge_delayed by (simp add: merge_terminate_def)
qed

lemma merge_run:
  assumes "inputs_left on es" "\<not> delay_done s" "on = {i. \<not> eofs s i}" "on \<noteq> {}"
    and "buffers s Left = [] \<or> buffers s Right = []"
    and "\<forall>r \<in> set (records_of es). eval_key keys r = Inr (k r)"
    and "good_sides (left_of (buffers s) (items_of k es))"
  shows "completes desc (left_of (buffers s) (items_of k es)) d
    (drive_inputs (merge_consume keys desc out) on (s, d) es)"
  using assms
proof (induction es arbitrary: on s d)
  case Nil
  then obtain i where "i \<in> on" by blast
  with Nil.prems(1) have "\<exists>rs. events_of i [] = stream rs" unfolding inputs_left_def by (auto dest!: spec [of _ i])
  then show ?case by simp
next
  case (Cons p es)
  obtain i e where p: "p = (i, e)" by (cases p)
  show ?case
  proof (cases e)
    case None
    have left: "i \<in> on" "inputs_left (on - {i}) es"
      using inputs_left_end [OF Cons.prems(1) [unfolded p None]] by simp_all
    let ?s = "s\<lparr>eofs := (eofs s)(i := True)\<rparr>"
    have fut: "\<forall>j. eofs ?s j \<longrightarrow> items_of k es j = []"
    proof (intro allI impI)
      fix j assume "eofs ?s j"
      then have "j \<notin> on - {i}" using Cons.prems(3) by (auto split: if_splits)
      with left(2) have "events_of j es = []" unfolding inputs_left_def by (auto dest!: spec [of _ j])
      then show "items_of k es j = []" by (simp add: items_of_def List.map_filter_simps)
    qed
    have F: "left_of (buffers ?s) (items_of k es) = left_of (buffers s) (items_of k (p # es))"
      by (rule ext) (simp add: left_of_def p None)
    have on: "on - {i} = {j. \<not> eofs ?s j}" using Cons.prems(3) by (auto split: if_splits)
    have run: "drive_inputs (merge_consume keys desc out) on (s, d) (p # es) =
        rbind (merge_drain desc out ?s d) (\<lambda>(stop, s1, d1).
           if stop then drive_inputs (merge_consume keys desc out) (on - {i}) (merge_terminate i s1, d1) es
           else if all_eof s1 then rbind (out d1 None) (\<lambda>(b, d2).
             drive_inputs (merge_consume keys desc out) (on - {i}) (merge_reset s1, d2) es)
           else drive_inputs (merge_consume keys desc out) (on - {i}) (s1, d1) es)"
      using left(1) Cons.prems(2)
      by (simp add: p None merge_consume_def rbind_assoc split_def if_distrib [of "\<lambda>m. rbind m f" for f] cong: if_cong)
    show ?thesis
      unfolding F [symmetric] run
    proof (rule completes_bind [OF merge_drain_emitted [OF Cons.prems(7) [folded F] fut] Cons.prems(7) [folded F]], goal_cases)
      case (1 y d' F')
      note post = 1(1) and good = 1(2)
      obtain stop s1 d1 where y: "y = (stop, s1, d1)" by (cases y)
      show ?case
      proof (cases stop)
        case True
        with post y have q: "d' = d1" "\<not> live d1" "eofs s1 = eofs ?s" by auto
        have "behind (drive_inputs (merge_consume keys desc out) (on - {i}) (merge_terminate i s1, d1) es) = Inr d1"
          by (rule merge_stopped) (use on q(3) in auto)
        from completes_dead [OF good _ this] q show ?thesis by (simp add: y True)
      next
        case False
        with post y have q: "d' = d1" "eofs s1 = eofs ?s" "delay_done s1 = delay_done s" "F' = left_of (buffers s1) (items_of k es)"
          "buffers s1 Left = [] \<or> buffers s1 Right = []" "\<forall>i. eofs ?s (other i) \<longrightarrow> buffers s1 i = []" by auto
        show ?thesis
        proof (cases "all_eof s1")
          case True
          then have all: "eofs ?s j" for j unfolding all_eof_def q(2) by (cases j) auto
          then have off: "on - {i} = {}" using on by blast
          from all q(6) fut have "F' = (\<lambda>i. [])" unfolding q(4) by (auto simp: left_of_def)
          then have "completes desc F' d1 (rbind (out d1 None) (\<lambda>(b, d2). Inr (merge_reset s1, d2)))"
            unfolding completes_def
            by (intro exI [of _ "[]"]) (auto simp: merge_to.nil drive_None rbind_def split: sum.splits)
          then show ?thesis unfolding off y q(1) using False True by (simp add: drive_inputs_off)
        next
          case nall: False
          have "completes desc F' d1 (drive_inputs (merge_consume keys desc out) (on - {i}) (s1, d1) es)"
            unfolding q(4)
          proof (rule Cons.IH [OF left(2)])
            show "on - {i} \<noteq> {}"
            proof
              assume "on - {i} = {}"
              then have "\<forall>j. eofs ?s j" using on by blast
              with nall show False unfolding all_eof_def q(2) by blast
            qed
            show "good_sides (left_of (buffers s1) (items_of k es))" using good q(4) by simp
          qed (use q on Cons.prems p None in auto)
          then show ?thesis using False nall y q(1) by simp
        qed
      qed
    qed
  next
    case (Some r)
    have left: "i \<in> on" "inputs_left on es"
      using inputs_left_record [OF Cons.prems(1) [unfolded p Some]] by simp_all
    let ?C = "merge_consume keys desc out" and ?x = "(r, k r)" and ?fut = "items_of k es"
    let ?F = "left_of (buffers s) (items_of k (p # es))"
    have key: "eval_key keys r = Inr (k r)" using Cons.prems(6) by (simp add: p Some)
    have go: "completes desc F d1 (drive_inputs ?C on (s1, d1) es)"
      if "eofs s1 = eofs s" "delay_done s1 = delay_done s" "buffers s1 Left = [] \<or> buffers s1 Right = []"
        "F = left_of (buffers s1) ?fut" "good_sides F" for s1 d1 F
      unfolding that(4) by (rule Cons.IH [OF left(2)]) (use that Cons.prems p Some in auto)
    have halt: "completes desc F d1 (drive_inputs ?C (on - {i}) (merge_terminate i s1, d1) es)"
      if "eofs s1 = eofs s" "\<not> live d1" "good_sides F" for s1 d1 F
      by (rule completes_dead [OF that(3,2) merge_stopped]) (use that(1) Cons.prems(3) in auto)
    have step: "drive_inputs ?C on (s, d) (p # es) =
        rbind (?C i (s, d) e) (\<lambda>(b, s'). drive_inputs ?C (if b then on else on - {i}) s' es)"
      using left(1) by (simp add: p)
    have push: "left_of (buffers (merge_push i ?x s)) ?fut = ?F"
      by (rule ext) (simp add: left_of_def merge_push_def p Some)
    have push_same: "eofs (merge_push i x s0) = eofs s0" "delay_done (merge_push i x s0) = delay_done s0" for x s0
      by (simp_all add: merge_push_def)
    consider (wait) "should_wait s (other i)" | (buffering) "\<not> should_wait s (other i)" "buffers s i \<noteq> []"
      | (direct) "\<not> should_wait s (other i)" "\<not> buffers s i \<noteq> []" by blast
    then show ?thesis
    proof cases
      case wait
      then have c: "?C i (s, d) e = Inr (True, merge_push i ?x s, d)"
        using Cons.prems(2) by (simp add: merge_consume_def Some key)
      have "buffers (merge_push i ?x s) Left = [] \<or> buffers (merge_push i ?x s) Right = []"
        using wait by (cases i) (auto simp: merge_push_def should_wait_def)
      from go [OF push_same this push [symmetric] Cons.prems(7)] show ?thesis unfolding step c by simp
    next
      case buffering
      have c: "?C i (s, d) e = rbind (merge_drain desc out (merge_push i ?x s) d) (\<lambda>(stop, s1, d1).
          if stop then Inr (False, merge_terminate i s1, d1) else Inr (True, s1, d1))"
        using buffering Cons.prems(2) by (simp add: merge_consume_def Some key)
      have fut: "\<forall>j. eofs (merge_push i ?x s) j \<longrightarrow> ?fut j = []"
      proof (intro allI impI)
        fix j assume "eofs (merge_push i ?x s) j"
        then have "j \<notin> on" using Cons.prems(3) push_same by auto
        with left(2) have "events_of j es = []" unfolding inputs_left_def by (auto dest!: spec [of _ j])
        then show "?fut j = []" by (simp add: items_of_def List.map_filter_simps)
      qed
      show ?thesis
        unfolding step c rbind_assoc push [symmetric]
      proof (rule completes_bind [OF merge_drain_emitted [OF _ fut]], goal_cases)
        case (3 y d' F')
        note post = 3(1) and good = 3(2)
        obtain stop s1 d1 where y: "y = (stop, s1, d1)" by (cases y)
        show ?case
        proof (cases stop)
          case True
          with post y have "d' = d1" "\<not> live d1" "eofs s1 = eofs s" by (auto simp: push_same)
          with halt [of s1 d1 F'] good show ?thesis by (simp add: y True)
        next
          case False
          with post y have "d' = d1" "eofs s1 = eofs s" "delay_done s1 = delay_done s" "F' = left_of (buffers s1) ?fut"
            "buffers s1 Left = [] \<or> buffers s1 Right = []" by (auto simp: push_same)
          with go [of s1 F' d1] good show ?thesis by (simp add: y False)
        qed
      qed (use push Cons.prems(7) in simp_all)
    next
      case direct
      let ?s1 = "\<lambda>ys. s\<lparr>buffers := (buffers s)(other i := ys)\<rparr>"
      have c: "?C i (s, d) e = rbind (drain_record desc out ?x (buffers s (other i)) d) (\<lambda>(stop, keep, ys, d1).
          if stop then Inr (False, merge_terminate i (?s1 ys), d1)
          else Inr (True, if keep then merge_push i ?x (?s1 ys) else ?s1 ys, d1))"
        using direct Cons.prems(2) by (simp add: merge_consume_def Some key Let_def)
      have F: "?F i = ?x # ?fut i" "?F (other i) = buffers s (other i) @ ?fut (other i)"
        using direct(2) by (simp_all add: left_of_def p Some)
      show ?thesis
        unfolding step c rbind_assoc
      proof (rule completes_bind [OF drain_record_emitted [OF Cons.prems(7) F] Cons.prems(7)], goal_cases)
        case (1 y d' F')
        note post = 1(1) and good = 1(2)
        obtain stop keep ys d1 where y: "y = (stop, keep, ys, d1)" by (cases y) auto
        show ?case
        proof (cases stop)
          case True
          with post y have "d' = d1" "\<not> live d1" by auto
          with halt [of "?s1 ys" d1 F'] good show ?thesis by (simp add: y True)
        next
          case False
          let ?s2 = "if keep then merge_push i ?x (?s1 ys) else ?s1 ys"
          from False post y have q: "d' = d1" "keep \<longrightarrow> ys = []"
            "F' = ?F(i := (if keep then [?x] else []) @ ?fut i, other i := ys @ ?fut (other i))" by auto
          have F': "F' = left_of (buffers ?s2) ?fut"
          proof (rule ext)
            fix j
            show "F' j = left_of (buffers ?s2) ?fut j"
              using side_cases [of j i] direct(2) unfolding q(3) by (auto simp: left_of_def merge_push_def)
          qed
          have "buffers ?s2 Left = [] \<or> buffers ?s2 Right = []"
            using q(2) direct(2) by (cases i) (auto simp: merge_push_def)
          with go [of ?s2 F' d1] F' good show ?thesis by (simp add: y False q(1) push_same)
        qed
      qed
    qed
  qed
qed

end

section \<open>Properties\<close>

text \<open>C14: UnionAll passes on every record of its inputs, in the order of their calls, and ends the stream
  when the last of them has ended, whatever the interleaving of the inputs.\<close>

theorem union_all_correct:
  assumes "ends_at_eof c" and "0 < n" and "inputs_left {..<n} es"
  shows "behind (drive_inputs (\<lambda>i. union_consume n (op_emit c)) {..<n} (union_init, d) es) =
    drive (op_emit c) d (stream (records_of es))"
  by (rule emitter.union_run [OF emitter_of [OF assms(1)] assms(3)]) (use assms(2) in \<open>auto simp: union_init_def\<close>)

theorem union_all_correct_witness:
  "behind (drive_inputs (\<lambda>i. union_consume 2 (op_emit (\<lambda>i. rows_bridge))) {..<2 :: nat}
     (union_init, [0], \<lparr>rec_fields = [(1, vnull)], sink = []\<rparr>)
     [(0, Some (ValueRecord (VInt 1))), (1, None), (0, Some (ValueRecord (VInt 2))), (0, None)]) =
   Inr ([], \<lparr>rec_fields = [(1, VInt 2)], sink = [[(1, VInt 1)], [(1, VInt 2)]]\<rparr>)"
proof -
  let ?es = "[(0, Some (ValueRecord (VInt 1))), (1, None), (0, Some (ValueRecord (VInt 2))), (0, None)] :: (nat \<times> Record option) list"
  have left: "inputs_left {..<2} ?es"
    unfolding inputs_left_def
  proof
    fix i :: nat
    consider "i = 0" | "i = 1" | "2 \<le> i" by linarith
    then show "if i \<in> {..<2} then \<exists>rs. events_of i ?es = stream rs else events_of i ?es = []"
      by cases (auto intro: exI [of _ "[]"] exI [of _ "[ValueRecord (VInt 1), ValueRecord (VInt 2)]"])
  qed
  show ?thesis
    by (subst union_all_correct [OF rows_bridge_ends _ left]) (simp_all add: run_rows)
qed

text \<open>C3: MergeSorted emits an interleaving of its two inputs that is ordered by the sort key when both
  inputs are, and then the end of the stream, whatever the interleaving of the calls. The keys contain
  no NaN.\<close>

theorem merge_sorted_correct:
  assumes "ends_at_eof c" and "inputs_left UNIV es"
    and "\<forall>r \<in> set (records_of es). eval_key keys r = Inr (k r) \<and> no_nan (k r)"
  shows "\<exists>zs. zs \<in> shuffles (items_of k es Left) (items_of k es Right) \<and>
     (ordered (heap_less desc) (items_of k es Left) \<and> ordered (heap_less desc) (items_of k es Right) \<longrightarrow>
        ordered (heap_less desc) zs) \<and>
     behind (drive_inputs (merge_consume keys desc (op_emit c)) UNIV (merge_init, d) es) =
     drive (op_emit c) d (stream (map fst zs))"
proof -
  have F: "left_of (buffers merge_init) (items_of k es) = items_of k es"
    by (simp add: left_of_def merge_init_def)
  have good: "good_sides (items_of k es)"
    using assms(3) items_of_subset [of k es] unfolding good_sides_def good_items_def by fastforce
  have "emitter.completes (op_emit c) desc (items_of k es) d
      (drive_inputs (merge_consume keys desc (op_emit c)) UNIV (merge_init, d) es)"
    using emitter.merge_run [OF emitter_of [OF assms(1)] assms(2), of merge_init keys k desc d] assms(3) good
    unfolding F by (simp add: merge_init_def)
  then obtain zs where zs: "merge_to (heap_less desc) (items_of k es) zs (\<lambda>i. [])"
    "behind (drive_inputs (merge_consume keys desc (op_emit c)) UNIV (merge_init, d) es) = drive (op_emit c) d (stream (map fst zs))"
    unfolding emitter.completes_def [OF emitter_of [OF assms(1)]] by blast
  have "ordered (heap_less desc) zs"
    if "ordered (heap_less desc) (items_of k es Left) \<and> ordered (heap_less desc) (items_of k es Right)"
    by (rule merge_to_ordered [OF heap_less_weak zs(1) refl])
      (use good that in \<open>auto simp: good_sides_def all_sides\<close>)
  with zs(2) merge_to_shuffles [OF zs(1) refl] show ?thesis by blast
qed

theorem merge_sorted_correct_witness:
  "\<exists>zs. zs \<in> shuffles [(ValueRecord (VInt 1), [VInt 1]), (ValueRecord (VInt 3), [VInt 3])] [(ValueRecord (VInt 2), [VInt 2])] \<and>
     ordered (heap_less False) zs \<and>
     behind (drive_inputs (merge_consume [IdentifierScalar 0 1 Integer] False (op_emit (\<lambda>i. rows_bridge))) UNIV
       (merge_init, [0], \<lparr>rec_fields = [(1, vnull)], sink = []\<rparr>)
       [(Left, Some (ValueRecord (VInt 1))), (Right, Some (ValueRecord (VInt 2))), (Right, None),
        (Left, Some (ValueRecord (VInt 3))), (Left, None)]) =
     drive (op_emit (\<lambda>i. rows_bridge)) ([0], \<lparr>rec_fields = [(1, vnull)], sink = []\<rparr>) (stream (map fst zs))"
proof -
  let ?es = "[(Left, Some (ValueRecord (VInt 1))), (Right, Some (ValueRecord (VInt 2))), (Right, None),
        (Left, Some (ValueRecord (VInt 3))), (Left, None)]"
  let ?k = "\<lambda>r. case r of ValueRecord v \<Rightarrow> [v] | _ \<Rightarrow> []"
  have left: "inputs_left UNIV ?es"
    unfolding inputs_left_def
  proof
    fix i
    show "if i \<in> UNIV then \<exists>rs. events_of i ?es = stream rs else events_of i ?es = []"
      by (cases i) (auto intro: exI [of _ "[ValueRecord (VInt 2)]"] exI [of _ "[ValueRecord (VInt 1), ValueRecord (VInt 3)]"])
  qed
  have k: "\<forall>r \<in> set (records_of ?es). eval_key [IdentifierScalar 0 1 Integer] r = Inr (?k r) \<and> no_nan (?k r)"
    by (simp add: eval_on_def)
  show ?thesis
    using merge_sorted_correct [OF rows_bridge_ends left k, of False "([0], \<lparr>rec_fields = [(1, vnull)], sink = []\<rparr>)"]
    by (simp add: ordered_def heap_less_def key_less_def int_cmp_def del: drive.simps drive_inputs.simps)
qed

end
