(* ===== verification/Line_Sources.thy ===== *)
theory Line_Sources
  imports Values
begin

text \<open>
  src/back/storage: a file in pages (PagedFile.cpp), its lines (PagedLineSource of LineSource.cpp) and
  the lines of a stream read in chunks (StreamLineSource). The generators are the lists of the lines
  they yield. The lemmas: the page size, the place of the page breaks and the sizes of the chunks do
  not matter, the lines are those of the text; and both generators end.
\<close>

section \<open>Pages (PagedFile.cpp)\<close>

text \<open>The file is its content, \<open>page\<close> maps one page of it, \<open>read\<close> fills its buffer as \<open>pread\<close> does on
  a regular file.\<close>

definition page :: "string \<Rightarrow> nat \<Rightarrow> nat \<Rightarrow> string res" where
  "page F page_size index = verify (index * page_size < length F) (Inr (take page_size (drop (index * page_size) F)))"

definition file_read :: "string \<Rightarrow> nat \<Rightarrow> nat \<Rightarrow> string res" where
  "file_read F offset count = verify (offset < length F) (Inr (take count (drop offset F)))"

section \<open>LineSource.cpp: PagedLineSource::lines\<close>

type_synonym Line = PinnedString

abbreviation newline :: char where
  "newline \<equiv> CHR 0x0A"

text \<open>\<open>next_page\<close> on the index and the data of the page; None when the next page is not included.\<close>

definition next_page :: "string \<Rightarrow> nat \<Rightarrow> nat \<Rightarrow> nat \<Rightarrow> (nat \<times> string) option res" where
  "next_page F page_size e index =
     (if \<not> (index + 1) * page_size < e then Inr None
      else rbind (page F page_size (index + 1)) (\<lambda>d. Inr (Some (index + 1, d))))"

text \<open>The inner loop: a line that goes on in the next pages. None of the inner option when no newline
  is found, else the page it is found in, the line and its place there.\<close>

partial_function (option) cross_pages ::
  "string \<Rightarrow> nat \<Rightarrow> nat \<Rightarrow> nat \<Rightarrow> string \<Rightarrow> (nat \<times> string \<times> string \<times> nat) option res option" where
  "cross_pages F page_size e index line = (case next_page F page_size e index of
     Inl f \<Rightarrow> Some (Inl f)
   | Inr None \<Rightarrow> Some (Inr None)
   | Inr (Some (i, d)) \<Rightarrow> (case find_char newline d of
       None \<Rightarrow> cross_pages F page_size e i (line @ d)
     | Some n \<Rightarrow> Some (Inr (Some (i, d, line @ take n d, n)))))"

text \<open>The outer loop; \<open>out\<close> has the lines yielded so far. A fault of the generator drops them.\<close>

partial_function (option) paged_loop ::
  "string \<Rightarrow> nat \<Rightarrow> nat \<Rightarrow> nat \<Rightarrow> nat \<Rightarrow> string \<Rightarrow> Line list \<Rightarrow> Line list res option" where
  "paged_loop F page_size e pos index d0 out =
     (if \<not> pos < e then Some (Inr out)
      else if length d0 < pos mod page_size then Some (Inl Out_Of_Range)
      else case find_char newline (drop (pos mod page_size) d0) of
        None \<Rightarrow> Option.bind (cross_pages F page_size e index (drop (pos mod page_size) d0)) (\<lambda>r. case r of
            Inl f \<Rightarrow> Some (Inl f)
          | Inr None \<Rightarrow> Some (Inr out)
          | Inr (Some (i, d, line, n)) \<Rightarrow>
              if n + 1 < length d
              then paged_loop F page_size e (page_size * i + n + 1) i d (out @ [\<lparr>pin = line, pin_size = length line\<rparr>])
              else case next_page F page_size e i of
                Inl f \<Rightarrow> Some (Inl f)
              | Inr None \<Rightarrow> Some (Inr (out @ [\<lparr>pin = line, pin_size = length line\<rparr>]))
              | Inr (Some (j, d')) \<Rightarrow>
                  paged_loop F page_size e (page_size * j) j d' (out @ [\<lparr>pin = line, pin_size = length line\<rparr>]))
      | Some n \<Rightarrow>
          if pos + n + 1 > e then Some (Inr out)
          else if n + 1 = length (drop (pos mod page_size) d0)
          then case next_page F page_size e index of
              Inl f \<Rightarrow> Some (Inl f)
            | Inr None \<Rightarrow> Some (Inr (out @ [\<lparr>pin = drop (pos mod page_size) d0, pin_size = n\<rparr>]))
            | Inr (Some (j, d')) \<Rightarrow>
                paged_loop F page_size e (pos + n + 1) j d' (out @ [\<lparr>pin = drop (pos mod page_size) d0, pin_size = n\<rparr>])
          else paged_loop F page_size e (pos + n + 1) index d0 (out @ [\<lparr>pin = drop (pos mod page_size) d0, pin_size = n\<rparr>]))"

definition paged_lines :: "string \<Rightarrow> nat \<Rightarrow> nat \<Rightarrow> nat \<Rightarrow> Line list res option" where
  "paged_lines F page_size b e =
     (if b \<ge> e then Some (Inr [])
      else case page F page_size (b div page_size) of
        Inl f \<Rightarrow> Some (Inl f)
      | Inr d \<Rightarrow> paged_loop F page_size e b (b div page_size) d [])"

section \<open>LineSource.cpp: StreamLineSource::lines\<close>

text \<open>The loop over one chunk from \<open>begin\<close> on, with the partial line; what \<open>read\<close> gives is a list of
  chunks, that ends when it reads nothing.\<close>

function chunk_lines :: "string \<Rightarrow> nat \<Rightarrow> string option \<Rightarrow> Line list \<Rightarrow> string option \<times> Line list" where
  "chunk_lines d begin partial out =
     (if \<not> begin < length d then (partial, out)
      else case find_char newline (drop begin d) of
        None \<Rightarrow> (Some (case partial of None \<Rightarrow> drop begin d | Some p \<Rightarrow> p @ drop begin d), out)
      | Some n \<Rightarrow> (case partial of
          Some p \<Rightarrow> chunk_lines d (begin + n + 1) None
            (out @ [\<lparr>pin = p @ take n (drop begin d), pin_size = length p + n\<rparr>])
        | None \<Rightarrow> chunk_lines d (begin + n + 1) None (out @ [\<lparr>pin = drop begin d, pin_size = n\<rparr>])))"
  by pat_completeness auto
termination by (relation "measure (\<lambda>(d, begin, p, out). length d - begin)") auto

declare chunk_lines.simps [simp del]

fun stream_lines :: "string list \<Rightarrow> string option \<Rightarrow> Line list \<Rightarrow> Line list" where
  "stream_lines [] partial out = (case partial of
     Some p \<Rightarrow> if p \<noteq> [] then out @ [\<lparr>pin = p, pin_size = length p\<rparr>] else out
   | None \<Rightarrow> out)"
| "stream_lines (d # ds) partial out =
     (if d = [] then stream_lines [] partial out
      else case chunk_lines d 0 partial out of (partial', out') \<Rightarrow> stream_lines ds partial' out')"

section \<open>The lines of a text\<close>

text \<open>\<open>full_lines\<close>: those that a newline ends; \<open>all_lines\<close>: with the rest after the last newline.\<close>

function full_lines :: "string \<Rightarrow> string list" where
  "full_lines s = (case find_char newline s of
     None \<Rightarrow> []
   | Some n \<Rightarrow> take n s # full_lines (drop (n + 1) s))"
  by pat_completeness auto
termination by (relation "measure length") (auto dest: find_char_Some)

declare full_lines.simps [simp del]

function all_lines :: "string \<Rightarrow> string list" where
  "all_lines s = (case find_char newline s of
     None \<Rightarrow> (if s = [] then [] else [s])
   | Some n \<Rightarrow> take n s # all_lines (drop (n + 1) s))"
  by pat_completeness auto
termination by (relation "measure length") (auto dest: find_char_Some)

declare all_lines.simps [simp del]

lemma full_lines_None: "find_char newline s = None \<Longrightarrow> full_lines s = []"
  by (subst full_lines.simps) simp

lemma full_lines_Some: "find_char newline s = Some n \<Longrightarrow> full_lines s = take n s # full_lines (drop (n + 1) s)"
  by (subst full_lines.simps) simp

lemma all_lines_None: "find_char newline s = None \<Longrightarrow> all_lines s = (if s = [] then [] else [s])"
  by (subst all_lines.simps) simp

lemma all_lines_Some: "find_char newline s = Some n \<Longrightarrow> all_lines s = take n s # all_lines (drop (n + 1) s)"
  by (subst all_lines.simps) simp

lemma full_lines_empty [simp]: "full_lines [] = []"
  by (simp add: full_lines_None)

lemma all_lines_empty [simp]: "all_lines [] = []"
  by (simp add: all_lines_None)

section \<open>Searching a newline\<close>

lemma find_char_app_None: "find_char c a = None \<Longrightarrow> find_char c (a @ b) = map_option (\<lambda>n. length a + n) (find_char c b)"
  by (cases "find_char c b"; induction a) (auto split: if_splits)

lemma find_char_app_Some: "find_char c a = Some n \<Longrightarrow> find_char c (a @ b) = Some n"
  by (induction a arbitrary: n) (auto split: if_splits)

lemma find_char_take:
  "find_char c (take k s) = (case find_char c s of None \<Rightarrow> None | Some n \<Rightarrow> if n < k then Some n else None)"
proof (induction s arbitrary: k)
  case (Cons x xs)
  then show ?case by (cases k) (auto split: option.splits)
qed simp

text \<open>A text and the rest of a page of it.\<close>

lemma find_char_page:
  "find_char c (take k s) = Some n \<Longrightarrow> find_char c s = Some n \<and> n < k"
  by (auto simp: find_char_take split: option.splits if_splits)

lemma find_char_next:
  assumes "find_char c (take k s) = None"
  shows "find_char c s = map_option (\<lambda>n. k + n) (find_char c (drop k s))"
proof (cases "k \<le> length s")
  case True
  with find_char_app_None [OF assms, of "drop k s"] show ?thesis by simp
qed (use assms in simp)

section \<open>PagedLineSource gives the lines of the text\<close>

lemma page_data: "index * ps < length F \<Longrightarrow> page F ps index = Inr (take ps (drop (index * ps) F))"
  by (simp add: page_def)

lemma next_page_in:
  "(index + 1) * ps < e \<Longrightarrow> e \<le> length F \<Longrightarrow>
   next_page F ps e index = Inr (Some (index + 1, take ps (drop ((index + 1) * ps) F)))"
  by (simp add: next_page_def page_def)

lemma next_page_out: "e \<le> (index + 1) * ps \<Longrightarrow> next_page F ps e index = Inr None"
  by (simp add: next_page_def)

lemma cross_pages_none:
  assumes "0 < ps" "e \<le> length F" "find_char newline (drop ((index + 1) * ps) F) = None"
  shows "cross_pages F ps e index line = Some (Inr None)"
  using assms(3)
proof (induction "e - index * ps" arbitrary: index line rule: less_induct)
  case less
  show ?case
  proof (cases "(index + 1) * ps < e")
    case True
    let ?s = "drop ((index + 1) * ps) F"
    have "find_char newline (take ps ?s) = None" "find_char newline (drop ps ?s) = None"
      using less.prems unfolding find_char_None by (meson in_set_takeD in_set_dropD)+
    moreover have "drop ps ?s = drop ((index + 1 + 1) * ps) F" by (simp add: algebra_simps)
    moreover have "e - (index + 1) * ps < e - index * ps" using True assms(1) by (simp add: algebra_simps)
    ultimately show ?thesis
      using less.hyps [of "index + 1"] True assms(2)
      by (subst cross_pages.simps) (simp add: next_page_in)
  qed (subst cross_pages.simps, simp add: next_page_out)
qed

lemma cross_pages_some:
  assumes "0 < ps" "e \<le> length F"
  shows "find_char newline (drop ((index + 1) * ps) F) = Some m \<Longrightarrow> (index + 1) * ps + m < e \<Longrightarrow>
    \<exists>i n. cross_pages F ps e index line =
        Some (Inr (Some (i, take ps (drop (i * ps) F), line @ take m (drop ((index + 1) * ps) F), n))) \<and>
      i * ps + n = (index + 1) * ps + m \<and> n < ps"
proof (induction m arbitrary: index line rule: less_induct)
  case (less m)
  let ?s = "drop ((index + 1) * ps) F"
  have np: "next_page F ps e index = Inr (Some (index + 1, take ps ?s))"
    by (rule next_page_in) (use less.prems assms in auto)
  show ?case
  proof (cases "find_char newline (take ps ?s)")
    case (Some n)
    with find_char_page less.prems(1) have "n = m" "m < ps" by (metis option.inject)+
    with Some np show ?thesis by (subst cross_pages.simps) (auto simp: min_def)
  next
    case None
    have s2: "drop ps ?s = drop ((index + 1 + 1) * ps) F" by (simp add: algebra_simps)
    from find_char_next [OF None] less.prems(1) obtain m' where m': "m = ps + m'" "find_char newline (drop ps ?s) = Some m'"
      by auto
    have "\<exists>i n. cross_pages F ps e (index + 1) (line @ take ps ?s) =
        Some (Inr (Some (i, take ps (drop (i * ps) F), (line @ take ps ?s) @ take m' (drop ((index + 1 + 1) * ps) F), n))) \<and>
      i * ps + n = (index + 1 + 1) * ps + m' \<and> n < ps"
      by (rule less.IH) (use m' s2 less.prems(2) assms in \<open>auto simp: algebra_simps\<close>)
    then obtain i n where i: "cross_pages F ps e (index + 1) (line @ take ps ?s) =
        Some (Inr (Some (i, take ps (drop (i * ps) F), (line @ take ps ?s) @ take m' (drop ((index + 1 + 1) * ps) F), n)))"
      "i * ps + n = (index + 1 + 1) * ps + m'" "n < ps" by blast
    have "take m ?s = take ps ?s @ take m' (drop ((index + 1 + 1) * ps) F)"
      unfolding m'(1) take_add s2 ..
    with i m' np None show ?thesis
      by (subst cross_pages.simps) (auto simp: algebra_simps)
  qed
qed

text \<open>\<open>e\<close> is the end of a line or of the file.\<close>

definition line_end :: "string \<Rightarrow> nat \<Rightarrow> bool" where
  "line_end F e \<longleftrightarrow> e \<le> length F \<and> (e = length F \<or> e = 0 \<or> F ! (e - 1) = newline)"

lemma line_end_find:
  assumes "line_end F e" "pos < e"
  shows "(\<exists>m. find_char newline (drop pos F) = Some m \<and> pos + m < e) \<or>
    find_char newline (drop pos F) = None \<and> e = length F"
proof (cases "find_char newline (drop pos F)")
  case None
  have "e = length F"
  proof (rule ccontr)
    assume "e \<noteq> length F"
    with assms have e: "F ! (e - 1) = newline" "e \<le> length F" by (auto simp: line_end_def)
    then have "drop pos F ! (e - 1 - pos) = newline" "e - 1 - pos < length (drop pos F)" using assms(2) by auto
    then have "newline \<in> set (drop pos F)" by (metis nth_mem)
    with None show False by (simp add: find_char_None)
  qed
  with None show ?thesis by simp
next
  case (Some m)
  have "pos + m < e"
  proof (cases "e = length F")
    case True
    then show ?thesis using find_char_Some [OF Some] by simp linarith
  next
    case False
    with assms have e: "F ! (e - 1) = newline" "e \<le> length F" by (auto simp: line_end_def)
    show ?thesis
    proof (rule ccontr)
      assume "\<not> pos + m < e"
      then have "e - 1 - pos < m" using assms(2) by auto
      moreover have "drop pos F ! (e - 1 - pos) = newline" using e assms(2) by auto
      moreover have "m \<le> length (drop pos F)" using find_char_Some [OF Some] by simp
      ultimately have "newline \<in> set (take m (drop pos F))"
        by (metis (no_types, lifting) in_set_conv_nth length_take min_absorb2 nth_take)
      with find_char_Some [OF Some] show False by simp
    qed
  qed
  with Some show ?thesis by simp
qed

text \<open>The lines in front of the end.\<close>

lemma full_lines_between:
  assumes "find_char newline (drop pos F) = Some m" "pos + m < e" "e \<le> length F"
  shows "full_lines (take (e - pos) (drop pos F)) =
    take m (drop pos F) # full_lines (take (e - (pos + m + 1)) (drop (pos + m + 1) F))"
proof -
  have "find_char newline (take (e - pos) (drop pos F)) = Some m" using assms by (auto simp: find_char_take)
  moreover have "drop (m + 1) (take (e - pos) (drop pos F)) = take (e - (pos + m + 1)) (drop (pos + m + 1) F)"
    by (simp add: drop_take algebra_simps)
  moreover have "take m (take (e - pos) (drop pos F)) = take m (drop pos F)" using assms(2) by (simp add: min_def)
  ultimately show ?thesis using full_lines_Some by simp
qed

lemma drop_page:
  assumes "i * ps \<le> pos" "pos - i * ps < ps"
  shows "drop (pos mod ps) (take ps (drop (i * ps) F)) = take (ps - pos mod ps) (drop pos F)" "pos mod ps = pos - i * ps"
proof -
  have "pos = i * ps + (pos - i * ps)" using assms(1) by simp
  then show m: "pos mod ps = pos - i * ps" using assms(2) by (metis mod_less mod_mult_self3)
  then have "pos mod ps + i * ps = pos" using assms(1) by simp
  then show "drop (pos mod ps) (take ps (drop (i * ps) F)) = take (ps - pos mod ps) (drop pos F)"
    by (simp add: drop_take)
qed

lemma view_pin [simp]: "view \<lparr>pin = s, pin_size = n\<rparr> = take n s"
  by (simp add: view_def)

lemma paged_loop_end: "e \<le> pos \<Longrightarrow> paged_loop F ps e pos i d out = Some (Inr out)"
  by (subst paged_loop.simps) simp

text \<open>One round of the outer loop yields the next line and goes on behind it, on some page.\<close>

definition paged_at :: "string \<Rightarrow> nat \<Rightarrow> nat \<Rightarrow> nat \<Rightarrow> nat \<Rightarrow> bool" where
  "paged_at F ps e pos i \<longleftrightarrow> i * ps \<le> pos \<and> (pos - i * ps < ps \<or> e \<le> pos)"

definition page_of :: "string \<Rightarrow> nat \<Rightarrow> nat \<Rightarrow> string" where
  "page_of F ps i = take ps (drop (i * ps) F)"

definition paged_step :: "string \<Rightarrow> nat \<Rightarrow> nat \<Rightarrow> nat \<Rightarrow> nat \<Rightarrow> Line list \<Rightarrow> nat \<Rightarrow> bool" where
  "paged_step F ps e pos i out m \<longleftrightarrow> (\<exists>l j. view l = take m (drop pos F) \<and> paged_at F ps e (pos + m + 1) j \<and>
     paged_loop F ps e pos i (page_of F ps i) out = paged_loop F ps e (pos + m + 1) j (page_of F ps j) (out @ [l]))"

lemma paged_stepI:
  assumes "view l = take m (drop pos F)" "paged_at F ps e (pos + m + 1) j"
    "paged_loop F ps e pos i (page_of F ps i) out = paged_loop F ps e (pos + m + 1) j (page_of F ps j) (out @ [l])"
  shows "paged_step F ps e pos i out m"
  using assms unfolding paged_step_def by blast

text \<open>The page after a newline that is the last character of the data.\<close>

lemma next_page_step:
  assumes ps: "0 < ps" and e: "e \<le> length F" and k: "j * ps + k = p" "k < ps" "p < length F"
    and last: "k + 1 = length (page_of F ps j)"
  shows "(next_page F ps e j = Inr None \<and> e \<le> p + 1) \<or>
    (next_page F ps e j = Inr (Some (j + 1, page_of F ps (j + 1))) \<and> p + 1 = (j + 1) * ps)"
proof (cases "(j + 1) * ps < e")
  case True
  then have "length (page_of F ps j) = ps" using e by (auto simp: page_of_def algebra_simps)
  with last k(1) have "p + 1 = (j + 1) * ps" by (simp add: algebra_simps)
  with next_page_in [OF True e] show ?thesis by (simp add: page_of_def)
next
  case False
  have "e \<le> p + 1" using False last k e by (auto simp: page_of_def)
  with False next_page_out [of e j ps] show ?thesis by simp
qed

lemma paged_step_here:
  assumes ps: "0 < ps" and e: "e \<le> length F" and pos: "pos < e" "paged_at F ps e pos i"
    and m: "find_char newline (drop pos F) = Some m" "pos + m < e" "m < ps - pos mod ps"
  shows "paged_step F ps e pos i out m"
proof -
  from pos have pg: "i * ps \<le> pos" "pos - i * ps < ps" by (auto simp: paged_at_def)
  note d = drop_page(1) [OF pg, of F, folded page_of_def] drop_page(2) [OF pg]
  define s where "s = take (ps - pos mod ps) (drop pos F)"
  have ds: "drop (pos mod ps) (page_of F ps i) = s" using d(1) by (simp add: s_def)
  have bound: "\<not> length (page_of F ps i) < pos mod ps" using pg pos(1) e d(2) by (auto simp: page_of_def)
  have n: "find_char newline s = Some m" using m by (simp add: s_def find_char_take)
  have ms: "m < length s" "s \<noteq> []" using find_char_Some [OF n] by auto
  let ?l = "\<lparr>pin = s, pin_size = m\<rparr>"
  have v: "view ?l = take m (drop pos F)" using m(3) by (simp add: s_def min_def)
  have in_e: "\<not> pos + m + 1 > e" using m(2) by simp
  show ?thesis
  proof (cases "m + 1 = length s")
    case last: True
    have len: "length (page_of F ps i) = pos mod ps + length s"
      using bound by (simp add: ds [symmetric])
    have *: "next_page F ps e i = Inr None \<and> e \<le> pos + m + 1 \<or>
        next_page F ps e i = Inr (Some (i + 1, page_of F ps (i + 1))) \<and> pos + m + 1 = (i + 1) * ps"
      by (rule next_page_step [OF ps e, where k = "pos mod ps + m"]) (use d(2) pg m last e len in auto)
    then show ?thesis
    proof
      assume np: "next_page F ps e i = Inr None \<and> e \<le> pos + m + 1"
      have "paged_loop F ps e pos i (page_of F ps i) out = Some (Inr (out @ [?l]))"
        unfolding paged_loop.simps [of F ps e pos i "page_of F ps i" out] ds using conjunct1 [OF np] pos(1) bound n in_e last ms(2) by simp
      note lp = this
      show ?thesis by (rule paged_stepI [OF v, where j = i]) (use lp np pg in \<open>simp_all add: paged_loop_end paged_at_def\<close>)
    next
      assume np: "next_page F ps e i = Inr (Some (i + 1, page_of F ps (i + 1))) \<and> pos + m + 1 = (i + 1) * ps"
      have "paged_loop F ps e pos i (page_of F ps i) out =
          paged_loop F ps e (pos + m + 1) (i + 1) (page_of F ps (i + 1)) (out @ [?l])"
        unfolding paged_loop.simps [of F ps e pos i "page_of F ps i" out] ds using conjunct1 [OF np] pos(1) bound n in_e last ms(2) by simp
      note lp = this
      show ?thesis by (rule paged_stepI [OF v, where j = "i + 1"]) (use lp np ps in \<open>simp_all add: paged_at_def\<close>)
    qed
  next
    case False
    have "paged_loop F ps e pos i (page_of F ps i) out =
        paged_loop F ps e (pos + m + 1) i (page_of F ps i) (out @ [?l])"
      unfolding paged_loop.simps [of F ps e pos i "page_of F ps i" out] ds using pos(1) bound n in_e False by simp
    moreover have "paged_at F ps e (pos + m + 1) i"
      using False ms(1) pg m(3) d(2) unfolding s_def paged_at_def by auto
    ultimately show ?thesis by (rule paged_stepI [OF v, rotated])
  qed
qed

lemma paged_step_cross:
  assumes ps: "0 < ps" and e: "e \<le> length F" and pos: "pos < e" "paged_at F ps e pos i"
    and m: "find_char newline (drop pos F) = Some m" "pos + m < e" "\<not> m < ps - pos mod ps"
  shows "paged_step F ps e pos i out m"
proof -
  from pos have pg: "i * ps \<le> pos" "pos - i * ps < ps" by (auto simp: paged_at_def)
  note d = drop_page(1) [OF pg, of F, folded page_of_def] drop_page(2) [OF pg]
  define r where "r = ps - pos mod ps"
  have ds: "drop (pos mod ps) (page_of F ps i) = take r (drop pos F)" using d(1) by (simp add: r_def)
  have bound: "\<not> length (page_of F ps i) < pos mod ps" using pg pos(1) e d(2) by (auto simp: page_of_def)
  have n: "find_char newline (take r (drop pos F)) = None" using m by (simp add: r_def find_char_take)
  have next_i: "(i + 1) * ps = pos + r" using pg d(2) by (simp add: r_def algebra_simps)
  have rm: "r \<le> m" using m(3) by (simp add: r_def)
  have nx: "find_char newline (drop ((i + 1) * ps) F) = Some (m - r)"
    using find_char_next [OF n] m(1) unfolding next_i
    by (cases "find_char newline (drop (pos + r) F)") (auto simp: add.commute)
  have "(i + 1) * ps + (m - r) < e" using rm m(2) unfolding next_i by simp
  from cross_pages_some [OF ps e nx this, of "take r (drop pos F)"] obtain j k where
    c: "cross_pages F ps e i (take r (drop pos F)) = Some (Inr (Some (j, page_of F ps j,
         take r (drop pos F) @ take (m - r) (drop ((i + 1) * ps) F), k)))"
    and jk: "j * ps + k = pos + m" "k < ps"
    using rm unfolding next_i page_of_def by auto
  have joined: "take r (drop pos F) @ take (m - r) (drop ((i + 1) * ps) F) = take m (drop pos F)"
    unfolding next_i using rm by (metis drop_drop add.commute le_add_diff_inverse take_add)
  define t where "t = take m (drop pos F)"
  let ?l = "\<lparr>pin = t, pin_size = length t\<rparr>"
  have v: "view ?l = take m (drop pos F)" unfolding t_def [symmetric] by simp
  note c = c [unfolded joined, folded t_def]
  have kl: "k < length (page_of F ps j)" using jk m(2) e by (auto simp: page_of_def)
  have pos': "ps * j + k + 1 = pos + m + 1" using jk(1) by (simp add: mult.commute)
  show ?thesis
  proof (cases "k + 1 < length (page_of F ps j)")
    case True
    have "paged_loop F ps e pos i (page_of F ps i) out =
        paged_loop F ps e (pos + m + 1) j (page_of F ps j) (out @ [?l])"
      unfolding paged_loop.simps [of F ps e pos i "page_of F ps i" out] ds using pos(1) bound n c True pos' by simp
    moreover have "paged_at F ps e (pos + m + 1) j"
      using True jk unfolding paged_at_def page_of_def by auto
    ultimately show ?thesis by (rule paged_stepI [OF v, rotated])
  next
    case last: False
    have "next_page F ps e j = Inr None \<and> e \<le> pos + m + 1 \<or>
        next_page F ps e j = Inr (Some (j + 1, page_of F ps (j + 1))) \<and> pos + m + 1 = (j + 1) * ps"
      by (rule next_page_step [OF ps e jk]) (use last kl m(2) e in auto)
    then show ?thesis
    proof
      assume np: "next_page F ps e j = Inr None \<and> e \<le> pos + m + 1"
      have "paged_loop F ps e pos i (page_of F ps i) out = Some (Inr (out @ [?l]))"
        unfolding paged_loop.simps [of F ps e pos i "page_of F ps i" out] ds using np pos(1) bound n c last by simp
      note lp = this
      show ?thesis by (rule paged_stepI [OF v, where j = j]) (use lp np jk in \<open>simp_all add: paged_loop_end paged_at_def\<close>)
    next
      assume np: "next_page F ps e j = Inr (Some (j + 1, page_of F ps (j + 1))) \<and> pos + m + 1 = (j + 1) * ps"
      then have "ps * (j + 1) = pos + m + 1" by (simp add: mult.commute)
      with np have "paged_loop F ps e pos i (page_of F ps i) out =
          paged_loop F ps e (pos + m + 1) (j + 1) (page_of F ps (j + 1)) (out @ [?l])"
        unfolding paged_loop.simps [of F ps e pos i "page_of F ps i" out] ds using pos(1) bound n c last by (simp add: mult.commute [of ps])
      note lp = this
      show ?thesis by (rule paged_stepI [OF v, where j = "j + 1"]) (use lp np ps in \<open>simp_all add: paged_at_def\<close>)
    qed
  qed
qed

lemma paged_loop_lines:
  assumes ps: "0 < ps" and e: "line_end F e"
  shows "paged_at F ps e pos i \<Longrightarrow>
    \<exists>ls. paged_loop F ps e pos i (page_of F ps i) out = Some (Inr (out @ ls)) \<and>
      map view ls = full_lines (take (e - pos) (drop pos F))"
proof (induction "e - pos" arbitrary: pos i out rule: less_induct)
  case less
  have le: "e \<le> length F" using e by (simp add: line_end_def)
  show ?case
  proof (cases "pos < e")
    case True
    from line_end_find [OF e True] show ?thesis
    proof (elim disjE exE conjE)
      fix m assume line: "find_char newline (drop pos F) = Some m" "pos + m < e"
      have "paged_step F ps e pos i out m"
        by (cases "m < ps - pos mod ps")
          (rule paged_step_here [OF ps le True less.prems line], assumption,
            rule paged_step_cross [OF ps le True less.prems line])
      then obtain l j where l: "view l = take m (drop pos F)" "paged_at F ps e (pos + m + 1) j"
        "paged_loop F ps e pos i (page_of F ps i) out = paged_loop F ps e (pos + m + 1) j (page_of F ps j) (out @ [l])"
        unfolding paged_step_def by blast
      have "e - (pos + m + 1) < e - pos" using True by simp
      from less.hyps [OF this l(2), of "out @ [l]"] obtain ls where
        "paged_loop F ps e (pos + m + 1) j (page_of F ps j) (out @ [l]) = Some (Inr ((out @ [l]) @ ls))"
        "map view ls = full_lines (take (e - (pos + m + 1)) (drop (pos + m + 1) F))" by blast
      then show ?thesis
        unfolding l(3) full_lines_between [OF line le] by (intro exI [of _ "l # ls"]) (simp add: l(1))
    next
      assume rest: "find_char newline (drop pos F) = None" "e = length F"
      from less.prems True have pg: "i * ps \<le> pos" "pos - i * ps < ps" by (auto simp: paged_at_def)
      note d = drop_page(1) [OF pg, of F, folded page_of_def] drop_page(2) [OF pg]
      have "\<not> length (page_of F ps i) < pos mod ps" using pg True le d(2) by (auto simp: page_of_def)
      moreover have "find_char newline (drop (pos mod ps) (page_of F ps i)) = None"
        using rest(1) unfolding d(1) by (simp add: find_char_take)
      moreover have "pos \<le> (i + 1) * ps" using pg by simp
      then have "find_char newline (drop ((i + 1) * ps) F) = None"
        using rest(1) set_drop_subset_set_drop [of pos "(i + 1) * ps" F] by (auto simp: find_char_None)
      moreover have "find_char newline (take (e - pos) (drop pos F)) = None" using rest(1) by (simp add: find_char_take)
      ultimately show ?thesis
        unfolding paged_loop.simps [of F ps e pos i "page_of F ps i" out] using True cross_pages_none [OF ps le, of i]
        by (simp add: full_lines_None)
    qed
  qed (simp add: paged_loop_end)
qed

theorem paged_lines_spec:
  assumes "0 < ps" "line_end F e"
  shows "\<exists>ls. paged_lines F ps b e = Some (Inr ls) \<and> map view ls = full_lines (take (e - b) (drop b F))"
proof (cases "b < e")
  case True
  then have "b div ps * ps < length F" using assms(2) by (simp add: line_end_def) (meson div_times_less_eq_dividend le_less_trans less_le_trans)
  moreover have "paged_at F ps e b (b div ps)"
    using assms(1) by (simp add: paged_at_def minus_div_mult_eq_mod)
  ultimately show ?thesis
    using paged_loop_lines [OF assms, of b "b div ps" "[]"] True by (simp add: paged_lines_def page_def page_of_def)
qed (simp add: paged_lines_def)

section \<open>StreamLineSource gives the lines of the text\<close>

definition partial_text :: "string option \<Rightarrow> string" where
  "partial_text p = (case p of None \<Rightarrow> [] | Some t \<Rightarrow> t)"

lemma partial_text_simps [simp]: "partial_text None = []" "partial_text (Some t) = t"
  by (simp_all add: partial_text_def)

lemma chunk_lines_end: "length d \<le> b \<Longrightarrow> chunk_lines d b p out = (p, out)"
  by (subst chunk_lines.simps) simp

lemma chunk_lines_None:
  "b < length d \<Longrightarrow> find_char newline (drop b d) = None \<Longrightarrow>
   chunk_lines d b p out = (Some (partial_text p @ drop b d), out)"
  by (subst chunk_lines.simps) (cases p; simp)

lemma chunk_lines_Some:
  assumes "find_char newline (drop b d) = Some n"
  obtains l where "view l = partial_text p @ take n (drop b d)"
    "chunk_lines d b p out = chunk_lines d (b + n + 1) None (out @ [l])"
proof -
  from assms have b: "b < length d" by (cases "b < length d") auto
  let ?l = "case p of None \<Rightarrow> \<lparr>pin = drop b d, pin_size = n\<rparr>
    | Some t \<Rightarrow> \<lparr>pin = t @ take n (drop b d), pin_size = length t + n\<rparr>"
  have "view ?l = partial_text p @ take n (drop b d)" by (cases p) simp_all
  moreover have "chunk_lines d b p out = chunk_lines d (b + n + 1) None (out @ [?l])"
    using b assms by (subst chunk_lines.simps) (cases p; simp)
  ultimately show ?thesis using that by blast
qed

lemma all_lines_first:
  assumes "newline \<notin> set t" "find_char newline s = Some n"
  shows "all_lines (t @ s @ Y) = (t @ take n s) # all_lines (drop (n + 1) s @ Y)"
proof -
  have n: "n < length s" using find_char_Some [OF assms(2)] by simp
  have "find_char newline (t @ s @ Y) = Some (length t + n)"
    using find_char_app_None [of newline t "s @ Y"] find_char_app_Some [OF assms(2), of Y] assms(1)
    by (simp add: find_char_None)
  then show ?thesis using n by (simp add: all_lines_Some)
qed

lemma chunk_lines_spec:
  "chunk_lines d b p out = (p', out') \<Longrightarrow> newline \<notin> set (partial_text p) \<Longrightarrow>
   newline \<notin> set (partial_text p') \<and> (\<exists>ls. out' = out @ ls \<and>
     (\<forall>Y. all_lines (partial_text p @ drop b d @ Y) = map view ls @ all_lines (partial_text p' @ Y)))"
proof (induction "length d - b" arbitrary: b p out rule: less_induct)
  case less
  show ?case
  proof (cases "find_char newline (drop b d)")
    case None
    show ?thesis
    proof (cases "b < length d")
      case True
      with None less.prems show ?thesis by (auto simp: chunk_lines_None find_char_None)
    qed (use less.prems in \<open>auto simp: chunk_lines_end\<close>)
  next
    case (Some n)
    have n: "n < length d - b" using find_char_Some [OF Some] by simp
    from chunk_lines_Some [OF Some, of p out] obtain l where l: "view l = partial_text p @ take n (drop b d)"
      "chunk_lines d b p out = chunk_lines d (b + n + 1) None (out @ [l])" .
    have "chunk_lines d (b + n + 1) None (out @ [l]) = (p', out')" using l(2) less.prems(1) by simp
    from less.hyps [OF _ this] n less.prems(2) obtain ls where ls: "newline \<notin> set (partial_text p')" "out' = (out @ [l]) @ ls"
      "\<forall>Y. all_lines (drop (b + n + 1) d @ Y) = map view ls @ all_lines (partial_text p' @ Y)" by fastforce
    have "all_lines (partial_text p @ drop b d @ Y) = map view (l # ls) @ all_lines (partial_text p' @ Y)" for Y
      using all_lines_first [OF less.prems(2) Some, of Y] ls(3) l(1) by (simp add: algebra_simps)
    with ls show ?thesis by auto
  qed
qed

lemma stream_lines_spec:
  "[] \<notin> set ds \<Longrightarrow> newline \<notin> set (partial_text p) \<Longrightarrow>
   map view (stream_lines ds p out) = map view out @ all_lines (partial_text p @ concat ds)"
proof (induction ds arbitrary: p out)
  case Nil
  then show ?case by (cases p) (auto simp: all_lines_None find_char_None)
next
  case (Cons d ds)
  obtain p' out' where c: "chunk_lines d 0 p out = (p', out')" by (cases "chunk_lines d 0 p out")
  from chunk_lines_spec [OF c Cons.prems(2)] obtain ls where ls: "newline \<notin> set (partial_text p')" "out' = out @ ls"
    "\<forall>Y. all_lines (partial_text p @ d @ Y) = map view ls @ all_lines (partial_text p' @ Y)" by auto
  with Cons.IH [OF _ ls(1), of out'] Cons.prems(1) c show ?case by auto
qed

section \<open>Both sources\<close>

lemma full_all_lines: "s = [] \<or> last s = newline \<Longrightarrow> full_lines s = all_lines s"
proof (induction s rule: full_lines.induct)
  case (1 s)
  show ?case
  proof (cases "find_char newline s")
    case None
    with "1.prems" have "s = []" using last_in_set [of s] by (force simp: find_char_None)
    then show ?thesis by simp
  next
    case (Some n)
    have "drop (n + 1) s = [] \<or> last (drop (n + 1) s) = newline"
      using "1.prems" by (cases "drop (n + 1) s = []") (auto simp: last_drop)
    from "1.IH" [OF Some this] Some show ?thesis by (simp add: full_lines_Some all_lines_Some)
  qed
qed

text \<open>A last line without a newline is yielded by the stream and left out by the paged file.\<close>

lemma unterminated_line_lost:
  "paged_lines ''a'' 4096 0 1 = Some (Inr []) \<and> map view (stream_lines [''a''] None []) = [''a'']"
proof
  obtain ls where "paged_lines ''a'' 4096 0 1 = Some (Inr ls)" "map view ls = full_lines ''a''"
    using paged_lines_spec [of 4096 "''a''" 1 0] by (auto simp: line_end_def)
  then show "paged_lines ''a'' 4096 0 1 = Some (Inr [])" by (simp add: full_lines_None)
  show "map view (stream_lines [''a''] None []) = [''a'']"
    using stream_lines_spec [of "[''a'']" None "[]"] by (simp add: all_lines_None)
qed

section \<open>Properties\<close>

text \<open>C25: the generator of a paged file ends and yields the lines that a newline ends in the range, in
  order, wherever the page breaks are, when the range ends with a line or with the file.\<close>

theorem paged_lines_correct:
  assumes "0 < ps" and "line_end F e"
  shows "\<exists>ls. paged_lines F ps b e = Some (Inr ls) \<and> map view ls = full_lines (take (e - b) (drop b F))"
  by (rule paged_lines_spec [OF assms])

theorem paged_lines_correct_witness:
  "\<exists>ls. paged_lines [CHR ''a'', newline, CHR ''b'', CHR ''c'', CHR ''d'', newline, CHR ''e''] 2 2 7 = Some (Inr ls) \<and>
     map view ls = [''bcd'']"
proof -
  have "full_lines [CHR ''b'', CHR ''c'', CHR ''d'', newline, CHR ''e''] = [''bcd'']"
    by (simp add: full_lines_Some full_lines_None)
  then show ?thesis
    using paged_lines_correct [of 2 "[CHR ''a'', newline, CHR ''b'', CHR ''c'', CHR ''d'', newline, CHR ''e'']" 7 2]
    by (simp add: line_end_def)
qed



end
