(* ===== verification/Time_Search.thy ===== *)
theory Time_Search
  imports Line_Sources Functions
begin

text \<open>
  src/back/exec/phys/log/search/SearchTimestamp.cpp: the binary search for the first line of a file
  from a time on, by byte offsets. The lemmas: every loop ends when the buffer is not empty, a read
  line is the line around the offset, and the search returns the start of the first line that is late
  enough when the lines are in the order of their times.
\<close>

section \<open>Reading a line around an offset\<close>

record text_line =
  line_begin :: nat
  next_begin :: nat
  line_text :: string

definition readChar :: "string \<Rightarrow> nat \<Rightarrow> char option res" where
  "readChar F offset = (if offset \<ge> length F then Inr None
     else rbind (file_read F offset 1) (\<lambda>d. Inr (Some (hd d))))"

text \<open>The loop goes back in chunks of the buffer size \<open>n\<close>; an empty buffer makes no progress.\<close>

partial_function (option) line_begin_loop :: "string \<Rightarrow> nat \<Rightarrow> nat \<Rightarrow> nat res option" where
  "line_begin_loop F n offset =
     (if 0 < offset then
        case file_read F (if offset > n then offset - n else 0) (offset - (if offset > n then offset - n else 0)) of
          Inl f \<Rightarrow> Some (Inl f)
        | Inr d \<Rightarrow> (case find_char newline (rev d) of
            Some k \<Rightarrow> Some (Inr ((if offset > n then offset - n else 0) + (length d - k)))
          | None \<Rightarrow> line_begin_loop F n (if offset > n then offset - n else 0))
      else Some (Inr 0))"

definition findLineBegin :: "string \<Rightarrow> nat \<Rightarrow> nat \<Rightarrow> nat option res option" where
  "findLineBegin F n offset =
     (if offset \<ge> length F then Some (Inr None)
      else if offset = 0 then Some (Inr (Some 0))
      else case readChar F (offset - 1) of
        Inl f \<Rightarrow> Some (Inl f)
      | Inr prev \<Rightarrow>
          if prev = Some newline then Some (Inr (Some offset))
          else map_option (\<lambda>r. rbind r (\<lambda>b. Inr (Some b))) (line_begin_loop F n offset))"

partial_function (option) read_line_loop :: "string \<Rightarrow> nat \<Rightarrow> nat \<Rightarrow> nat \<Rightarrow> string \<Rightarrow> text_line res option" where
  "read_line_loop F n b offset t =
     (if offset < length F then
        case file_read F offset (min n (length F - offset)) of
          Inl f \<Rightarrow> Some (Inl f)
        | Inr d \<Rightarrow> (case find_char newline d of
            Some k \<Rightarrow> Some (Inr \<lparr>line_begin = b, next_begin = offset + k + 1, line_text = t @ take k d\<rparr>)
          | None \<Rightarrow> read_line_loop F n b (offset + length d) (t @ d))
      else Some (Inr \<lparr>line_begin = b, next_begin = length F, line_text = t\<rparr>))"

definition readLine :: "string \<Rightarrow> nat \<Rightarrow> nat \<Rightarrow> text_line res option" where
  "readLine F n b = read_line_loop F n b b []"

definition readLineAt :: "string \<Rightarrow> nat \<Rightarrow> nat \<Rightarrow> text_line option res option" where
  "readLineAt F n offset = Option.bind (findLineBegin F n offset) (\<lambda>r. case r of
     Inl f \<Rightarrow> Some (Inl f)
   | Inr None \<Rightarrow> Some (Inr None)
   | Inr (Some b) \<Rightarrow> map_option (\<lambda>r. rbind r (\<lambda>l. Inr (Some l))) (readLine F n b))"

section \<open>The search\<close>

text \<open>\<open>find_first\<close> is the regular expression search of the library RE-flex: the first match of a
  pattern in a text.\<close>

definition searchFirstTimestamp :: "ext \<Rightarrow> (string \<Rightarrow> string \<Rightarrow> string option) \<Rightarrow> string \<Rightarrow> TimeFormat \<Rightarrow> i64 option res" where
  "searchFirstTimestamp X find_first s format = (case find_first (timeFormatRegex format) s of
     None \<Rightarrow> Inr None
   | Some t \<Rightarrow> rbind (timestampFromString X t format) (\<lambda>ts. Inr (Some ts)))"

definition lineTimestamp :: "ext \<Rightarrow> (string \<Rightarrow> string \<Rightarrow> string option) \<Rightarrow> TimeFormat \<Rightarrow> string \<Rightarrow> i64 res" where
  "lineTimestamp X find_first format line =
     rbind (searchFirstTimestamp X find_first line format) (\<lambda>ts. case ts of None \<Rightarrow> Inl Thrown | Some t \<Rightarrow> Inr t)"

text \<open>\<open>boundLine\<close> over \<open>lineTimestamp\<close> of its format; the answer None is \<open>npos\<close>.\<close>

partial_function (option) bound_loop ::
  "string \<Rightarrow> nat \<Rightarrow> (string \<Rightarrow> i64 res) \<Rightarrow> i64 \<Rightarrow> (i64 \<Rightarrow> i64 \<Rightarrow> bool) \<Rightarrow> (i64 \<Rightarrow> i64 \<Rightarrow> bool) \<Rightarrow> nat \<Rightarrow> nat \<Rightarrow> nat option \<Rightarrow>
   nat option res option" where
  "bound_loop F n stamp ts accept_line skip_line b e answer =
     (if b < e then Option.bind (readLineAt F n (b + (e - b) div 2)) (\<lambda>r. case r of
        Inl f \<Rightarrow> Some (Inl f)
      | Inr None \<Rightarrow> bound_loop F n stamp ts accept_line skip_line b (b + (e - b) div 2) answer
      | Inr (Some l) \<Rightarrow> (case stamp (line_text l) of
          Inl f \<Rightarrow> Some (Inl f)
        | Inr line_ts \<Rightarrow>
            if skip_line line_ts ts then bound_loop F n stamp ts accept_line skip_line (next_begin l) e answer
            else bound_loop F n stamp ts accept_line skip_line b (line_begin l)
              (if accept_line line_ts ts then Some (line_begin l) else answer)))
      else Some (Inr answer))"

definition boundLine ::
  "string \<Rightarrow> nat \<Rightarrow> (string \<Rightarrow> i64 res) \<Rightarrow> i64 \<Rightarrow> (i64 \<Rightarrow> i64 \<Rightarrow> bool) \<Rightarrow> (i64 \<Rightarrow> i64 \<Rightarrow> bool) \<Rightarrow> nat option res option" where
  "boundLine F n stamp ts accept_line skip_line =
     bound_loop F n stamp ts accept_line skip_line 0 (length F) None"

definition lowerBoundLine :: "string \<Rightarrow> nat \<Rightarrow> (string \<Rightarrow> i64 res) \<Rightarrow> i64 \<Rightarrow> nat option res option" where
  "lowerBoundLine F n stamp ts =
     boundLine F n stamp ts (\<lambda>line_ts target. sint line_ts \<ge> sint target) (\<lambda>line_ts target. sint line_ts < sint target)"

definition upperBoundLine :: "string \<Rightarrow> nat \<Rightarrow> (string \<Rightarrow> i64 res) \<Rightarrow> i64 \<Rightarrow> nat res option" where
  "upperBoundLine F n stamp ts = map_option (\<lambda>r. rbind r (\<lambda>a. Inr (case a of None \<Rightarrow> length F | Some p \<Rightarrow> p)))
     (boundLine F n stamp ts (\<lambda>line_ts target. sint line_ts > sint target) (\<lambda>line_ts target. sint line_ts \<le> sint target))"

section \<open>Lines by their offsets\<close>

definition is_start :: "string \<Rightarrow> nat \<Rightarrow> bool" where
  "is_start F p \<longleftrightarrow> p < length F \<and> (p = 0 \<or> F ! (p - 1) = newline)"

definition text_at :: "string \<Rightarrow> nat \<Rightarrow> string" where
  "text_at F p = takeWhile (\<lambda>c. c \<noteq> newline) (drop p F)"

definition next_start :: "string \<Rightarrow> nat \<Rightarrow> nat" where
  "next_start F p = min (length F) (p + length (text_at F p) + 1)"

lemma text_at_find:
  "text_at F p = (case find_char newline (drop p F) of None \<Rightarrow> drop p F | Some n \<Rightarrow> take n (drop p F))"
proof (cases "find_char newline (drop p F)")
  case None
  then have "\<forall>c \<in> set (drop p F). c \<noteq> newline" by (auto simp: find_char_None)
  with None show ?thesis by (simp add: text_at_def takeWhile_eq_all_conv [THEN iffD2])
next
  case (Some n)
  note n = find_char_Some [OF Some]
  have "\<forall>c \<in> set (take n (drop p F)). c \<noteq> newline" using n by auto
  then have "takeWhile (\<lambda>c. c \<noteq> newline) (take n (drop p F) @ newline # drop (Suc n) (drop p F)) = take n (drop p F)"
    by (subst takeWhile_append2) auto
  with find_char_split [OF Some] Some show ?thesis by (simp add: text_at_def)
qed

lemma text_at_length:
  "length (text_at F p) = (case find_char newline (drop p F) of None \<Rightarrow> length F - p | Some n \<Rightarrow> n)"
  by (auto simp: text_at_find split: option.splits dest: find_char_Some)

lemma text_at_nth:
  assumes "p \<le> q" "q < p + length (text_at F p)"
  shows "F ! q \<noteq> newline" "q < length F"
proof -
  have len: "length (text_at F p) \<le> length (drop p F)" unfolding text_at_def by (rule length_takeWhile_le)
  with assms show "q < length F" by simp
  have "text_at F p ! (q - p) \<in> set (text_at F p)" using assms by simp
  then have "text_at F p ! (q - p) \<noteq> newline" by (auto simp: text_at_def dest: set_takeWhileD)
  moreover have "text_at F p ! (q - p) = drop p F ! (q - p)"
    using assms by (simp add: text_at_def takeWhile_nth)
  ultimately show "F ! q \<noteq> newline" using assms \<open>q < length F\<close> by simp
qed

text \<open>The next start is a start or the end, and no line starts in between.\<close>

lemma next_start_gt: "p < length F \<Longrightarrow> p < next_start F p \<and> next_start F p \<le> length F"
  by (simp add: next_start_def)

lemma next_start_start:
  assumes "p < length F" "next_start F p < length F"
  shows "is_start F (next_start F p)"
proof -
  have n: "next_start F p = p + length (text_at F p) + 1" "p + length (text_at F p) + 1 < length F"
    using assms(2) by (auto simp: next_start_def min_def split: if_splits)
  show ?thesis
  proof (cases "find_char newline (drop p F)")
    case None
    with n(2) assms(1) show ?thesis by (simp add: text_at_length)
  next
    case (Some k)
    then have "drop p F ! k = newline" "k < length (drop p F)" using find_char_Some by blast+
    then show ?thesis using n Some by (simp add: is_start_def text_at_length)
  qed
qed

lemma no_start_between:
  assumes "p < q" "q < next_start F p"
  shows "\<not> is_start F q"
proof
  assume q: "is_start F q"
  have "F ! (q - 1) \<noteq> newline" by (rule text_at_nth(1) [of p]) (use assms in \<open>auto simp: next_start_def\<close>)
  with q assms(1) show False by (simp add: is_start_def)
qed

section \<open>The line around an offset\<close>

text \<open>\<open>p\<close> starts the line of the offset.\<close>

definition line_of :: "string \<Rightarrow> nat \<Rightarrow> nat \<Rightarrow> bool" where
  "line_of F p q \<longleftrightarrow> is_start F p \<and> p \<le> q \<and> (\<forall>r. p \<le> r \<longrightarrow> r < q \<longrightarrow> F ! r \<noteq> newline)"

lemma line_of_next:
  assumes "line_of F p q" "q < length F"
  shows "q < next_start F p"
proof (cases "find_char newline (drop p F)")
  case None
  with assms show ?thesis by (simp add: next_start_def text_at_length)
next
  case (Some k)
  then have k: "drop p F ! k = newline" "k < length (drop p F)" using find_char_Some by blast+
  then have "F ! (p + k) = newline" by simp
  then have "\<not> p + k < q" using assms(1) by (auto simp: line_of_def)
  with Some k show ?thesis using assms by (simp add: next_start_def text_at_length)
qed

lemma line_begin_loop_spec:
  assumes "0 < n"
  shows "q < length F \<Longrightarrow> (\<forall>r. offset \<le> r \<longrightarrow> r < q \<longrightarrow> F ! r \<noteq> newline) \<Longrightarrow> offset \<le> q \<Longrightarrow>
    \<exists>p. line_begin_loop F n offset = Some (Inr p) \<and> line_of F p q"
proof (induction offset rule: less_induct)
  case (less offset)
  show ?case
  proof (cases "0 < offset")
    case True
    define c where "c = (if offset > n then offset - n else 0)"
    have c: "c < offset" using assms True by (simp add: c_def)
    define d where "d = take (offset - c) (drop c F)"
    have len: "length d = offset - c" using less.prems by (simp add: d_def)
    have nth: "d ! j = F ! (c + j)" if "j < offset - c" for j using that less.prems c by (simp add: d_def)
    have rd: "file_read F c (offset - c) = Inr d" using c less.prems by (simp add: file_read_def d_def)
    note step = line_begin_loop.simps [of F n offset, folded c_def]
    show ?thesis
    proof (cases "find_char newline (rev d)")
      case None
      then have no: "newline \<notin> set d" by (simp add: find_char_None)
      have "\<forall>r. c \<le> r \<longrightarrow> r < q \<longrightarrow> F ! r \<noteq> newline"
      proof (intro allI impI)
        fix r assume r: "c \<le> r" "r < q"
        show "F ! r \<noteq> newline"
        proof (cases "r < offset")
          case True
          have "d ! (r - c) \<in> set d" using True r(1) len by simp
          with no nth [of "r - c"] True r(1) show ?thesis by auto
        qed (use less.prems r in auto)
      qed
      from less.IH [OF c less.prems(1) this] c less.prems(3) None rd True show ?thesis
        by (subst step) auto
    next
      case (Some k)
      note k = find_char_Some [OF Some]
      let ?p = "c + (length d - k)"
      have kl: "k < length d" using k by simp
      have at: "F ! (?p - 1) = newline"
      proof -
        have "rev d ! k = d ! (length d - Suc k)" using kl by (simp add: rev_nth)
        with k nth [of "length d - Suc k"] kl len show ?thesis by (simp add: algebra_simps)
      qed
      have after: "F ! r \<noteq> newline" if r: "?p \<le> r" "r < q" for r
      proof (cases "r < offset")
        case True
        have j: "offset - Suc r < k" using True r len kl by linarith
        then have "rev d ! (offset - Suc r) \<in> set (take k (rev d))"
          using kl by (metis in_set_conv_nth length_rev length_take less_trans min_less_iff_conj nth_take)
        moreover have "rev d ! (offset - Suc r) = d ! (r - c)"
          using True r len kl by (simp add: rev_nth)
        ultimately show ?thesis using k nth [of "r - c"] True r len by auto
      qed (use less.prems r in auto)
      have "line_of F ?p q" using at after kl len c less.prems by (auto simp: line_of_def is_start_def)
      then show ?thesis using Some rd True by (subst step) auto
    qed
  next
    case False
    with less.prems show ?thesis by (subst line_begin_loop.simps) (auto simp: line_of_def is_start_def)
  qed
qed

lemma findLineBegin_spec:
  assumes "0 < n" "q < length F"
  shows "\<exists>p. findLineBegin F n q = Some (Inr (Some p)) \<and> line_of F p q"
proof (cases "q = 0")
  case True
  with assms show ?thesis by (auto simp: findLineBegin_def line_of_def is_start_def)
next
  case False
  have prev: "readChar F (q - 1) = Inr (Some (F ! (q - 1)))"
    using assms False by (simp add: readChar_def file_read_def hd_drop_conv_nth take_Suc)
  show ?thesis
  proof (cases "F ! (q - 1) = newline")
    case True
    with prev False assms show ?thesis by (auto simp: findLineBegin_def line_of_def is_start_def)
  next
    case no: False
    from line_begin_loop_spec [OF assms(1), of q F q] assms(2) obtain p where
      "line_begin_loop F n q = Some (Inr p)" "line_of F p q" by auto
    with prev False no assms(2) show ?thesis by (auto simp: findLineBegin_def)
  qed
qed

lemma read_line_loop_spec:
  assumes "0 < n"
  shows "offset \<le> length F \<Longrightarrow>
    read_line_loop F n b offset t = Some (Inr \<lparr>line_begin = b, next_begin = next_start F offset, line_text = t @ text_at F offset\<rparr>)"
proof (induction "length F - offset" arbitrary: offset t rule: less_induct)
  case less
  show ?case
  proof (cases "offset < length F")
    case True
    let ?k = "min n (length F - offset)" and ?s = "drop offset F"
    have k: "0 < ?k" using assms True by simp
    have rd: "file_read F offset ?k = Inr (take ?k ?s)" using True by (simp add: file_read_def)
    show ?thesis
    proof (cases "find_char newline (take ?k ?s)")
      case None
      have len: "length (take ?k ?s) = ?k" by simp
      have "read_line_loop F n b (offset + ?k) (t @ take ?k ?s) =
          Some (Inr \<lparr>line_begin = b, next_begin = next_start F (offset + ?k), line_text = (t @ take ?k ?s) @ text_at F (offset + ?k)\<rparr>)"
        by (rule less.hyps) (use k True in auto)
      moreover have split: "text_at F offset = take ?k ?s @ text_at F (offset + ?k)"
      proof -
        have "\<forall>c \<in> set (take ?k ?s). c \<noteq> newline" using None by (auto simp: find_char_None)
        then have "takeWhile (\<lambda>c. c \<noteq> newline) (take ?k ?s @ drop ?k ?s) = take ?k ?s @ takeWhile (\<lambda>c. c \<noteq> newline) (drop ?k ?s)"
          by (intro takeWhile_append2) blast
        then show ?thesis unfolding append_take_drop_id by (simp add: text_at_def add.commute)
      qed
      moreover have "next_start F offset = next_start F (offset + ?k)"
        unfolding next_start_def split using len by (simp add: add.assoc)
      ultimately show ?thesis
        using True rd None len by (subst read_line_loop.simps) (simp del: length_take)
    next
      case (Some m)
      note m = find_char_page [OF Some]
      have "m < length (drop offset F)" using find_char_Some [of newline ?s m] m by blast
      with m have "next_start F offset = offset + m + 1" "text_at F offset = take m ?s"
        by (auto simp: next_start_def text_at_find)
      with True rd Some m show ?thesis by (subst read_line_loop.simps) (simp add: min_def)
    qed
  next
    case False
    with less.prems have "offset = length F" by simp
    then show ?thesis by (subst read_line_loop.simps) (simp add: next_start_def text_at_def)
  qed
qed

lemma readLineAt_spec:
  assumes "0 < n" "q < length F"
  obtains p where "readLineAt F n q = Some (Inr (Some \<lparr>line_begin = p, next_begin = next_start F p, line_text = text_at F p\<rparr>))"
    "line_of F p q"
proof -
  from findLineBegin_spec [OF assms] obtain p where p: "findLineBegin F n q = Some (Inr (Some p))" "line_of F p q" by blast
  then have "p \<le> length F" using assms(2) by (simp add: line_of_def)
  from read_line_loop_spec [OF assms(1) this] p show ?thesis
    by (intro that [of p]) (simp_all add: readLineAt_def readLine_def)
qed

section \<open>The search finds the first line that is late enough\<close>

text \<open>Every line of the file has a time, and the times do not go back.\<close>

definition stamped :: "string \<Rightarrow> (string \<Rightarrow> i64 res) \<Rightarrow> (nat \<Rightarrow> i64) \<Rightarrow> bool" where
  "stamped F stamp \<tau> \<longleftrightarrow> (\<forall>p. is_start F p \<longrightarrow> stamp (text_at F p) = Inr (\<tau> p))"

definition in_order_of_time :: "string \<Rightarrow> (nat \<Rightarrow> i64) \<Rightarrow> bool" where
  "in_order_of_time F \<tau> \<longleftrightarrow> (\<forall>p q. is_start F p \<longrightarrow> is_start F q \<longrightarrow> p \<le> q \<longrightarrow> sint (\<tau> p) \<le> sint (\<tau> q))"

text \<open>The first start of an accepted line.\<close>

definition first_line :: "string \<Rightarrow> (nat \<Rightarrow> bool) \<Rightarrow> nat option \<Rightarrow> bool" where
  "first_line F P r \<longleftrightarrow> (case r of
     None \<Rightarrow> \<forall>p. is_start F p \<longrightarrow> \<not> P p
   | Some q \<Rightarrow> is_start F q \<and> P q \<and> (\<forall>p < q. is_start F p \<longrightarrow> \<not> P p))"

text \<open>The loop: lines in front of \<open>b\<close> are skipped, \<open>e\<close> is the end or the answer.\<close>

lemma bound_loop_spec:
  assumes "0 < n" and st: "stamped F stamp \<tau>"
    and up: "\<forall>p q. is_start F p \<longrightarrow> is_start F q \<longrightarrow> p \<le> q \<longrightarrow> accept_line (\<tau> p) ts \<longrightarrow> accept_line (\<tau> q) ts"
    and skip: "\<forall>t. skip_line t ts = (\<not> accept_line t ts)"
  shows "is_start F b \<or> b = length F \<Longrightarrow> b \<le> e \<Longrightarrow> (\<forall>p < b. is_start F p \<longrightarrow> \<not> accept_line (\<tau> p) ts) \<Longrightarrow>
    (case a of None \<Rightarrow> e = length F | Some q \<Rightarrow> e = q \<and> is_start F q \<and> accept_line (\<tau> q) ts) \<Longrightarrow>
    \<exists>r. bound_loop F n stamp ts accept_line skip_line b e a = Some (Inr r) \<and> first_line F (\<lambda>p. accept_line (\<tau> p) ts) r"
proof (induction "e - b" arbitrary: b e a rule: less_induct)
  case less
  show ?case
  proof (cases "b < e")
    case True
    define mid where "mid = b + (e - b) div 2"
    have mid: "b \<le> mid" "mid < e" using True by (auto simp: mid_def)
    have "e \<le> length F" using less.prems(4) by (cases a) (auto simp: is_start_def)
    then have mF: "mid < length F" using mid by simp
    from readLineAt_spec [OF assms(1) mF] obtain p where
      p: "readLineAt F n mid = Some (Inr (Some \<lparr>line_begin = p, next_begin = next_start F p, line_text = text_at F p\<rparr>))"
      and l: "line_of F p mid" .
    have start: "is_start F p" "p \<le> mid" using l by (auto simp: line_of_def)
    have stamp: "stamp (text_at F p) = Inr (\<tau> p)" using st start(1) by (simp add: stamped_def)
    have bp: "b \<le> p"
    proof (rule ccontr)
      assume "\<not> b \<le> p"
      moreover have "b < next_start F p" using line_of_next [OF l mF] mid(1) by simp
      ultimately have "\<not> is_start F b" by (intro no_start_between) auto
      with less.prems(1) mid mF show False by simp
    qed
    note step = bound_loop.simps [of F n stamp ts accept_line skip_line b e a, folded mid_def]
    show ?thesis
    proof (cases "accept_line (\<tau> p) ts")
      case acc: True
      have "\<exists>r. bound_loop F n stamp ts accept_line skip_line b p (Some p) = Some (Inr r) \<and>
          first_line F (\<lambda>p. accept_line (\<tau> p) ts) r"
        by (rule less.hyps) (use start acc bp mid less.prems in auto)
      then show ?thesis using True p stamp acc skip by (subst step) simp
    next
      case no: False
      note ns = next_start_gt [of p F] line_of_next [OF l mF]
      have small: "\<forall>q < next_start F p. is_start F q \<longrightarrow> \<not> accept_line (\<tau> q) ts"
      proof (intro allI impI)
        fix q assume q: "q < next_start F p" "is_start F q"
        then have "q \<le> p" using no_start_between [of p q F] by (meson not_le)
        with up q(2) start(1) no show "\<not> accept_line (\<tau> q) ts" by blast
      qed
      have ne: "next_start F p \<le> e"
      proof (cases a)
        case None
        with less.prems(4) ns start mF show ?thesis by simp
      next
        case (Some q)
        then have q: "e = q" "is_start F q" "accept_line (\<tau> q) ts" using less.prems(4) by auto
        with small show ?thesis by (meson not_le)
      qed
      have "next_start F p \<le> length F" by (simp add: next_start_def)
      then have start': "is_start F (next_start F p) \<or> next_start F p = length F"
        using next_start_start [of p F] start(1) by (auto simp: is_start_def)
      have "\<exists>r. bound_loop F n stamp ts accept_line skip_line (next_start F p) e a = Some (Inr r) \<and>
          first_line F (\<lambda>p. accept_line (\<tau> p) ts) r"
        by (rule less.hyps [OF _ start' ne small less.prems(4)]) (use ns mid True in auto)
      then show ?thesis using True p stamp no skip by (subst step) simp
    qed
  next
    case False
    with less.prems(2) have "b = e" by simp
    with less.prems(3,4) have "first_line F (\<lambda>p. accept_line (\<tau> p) ts) a"
      by (cases a) (auto simp: first_line_def is_start_def)
    with False show ?thesis by (subst bound_loop.simps) simp
  qed
qed

lemma boundLine_spec:
  assumes "0 < n" "stamped F stamp \<tau>"
    and "\<forall>p q. is_start F p \<longrightarrow> is_start F q \<longrightarrow> p \<le> q \<longrightarrow> accept_line (\<tau> p) ts \<longrightarrow> accept_line (\<tau> q) ts"
    and "\<forall>t. skip_line t ts = (\<not> accept_line t ts)"
  obtains r where "boundLine F n stamp ts accept_line skip_line = Some (Inr r)"
    "first_line F (\<lambda>p. accept_line (\<tau> p) ts) r"
  using bound_loop_spec [where accept_line = accept_line and skip_line = skip_line and \<tau> = \<tau> and ts = ts, OF assms,
      of 0 "length F" None] that
  by (auto simp: boundLine_def is_start_def)

lemma lowerBoundLine_spec:
  assumes "0 < n" "stamped F stamp \<tau>" "in_order_of_time F \<tau>"
  obtains r where "lowerBoundLine F n stamp ts = Some (Inr r)" "first_line F (\<lambda>p. sint ts \<le> sint (\<tau> p)) r"
proof (rule boundLine_spec [where accept_line = "\<lambda>t u. sint u \<le> sint t" and ts = ts and skip_line = "\<lambda>t u. sint t < sint u" and \<tau> = \<tau>,
      OF assms(1,2)])
  show "\<forall>p q. is_start F p \<longrightarrow> is_start F q \<longrightarrow> p \<le> q \<longrightarrow> sint ts \<le> sint (\<tau> p) \<longrightarrow> sint ts \<le> sint (\<tau> q)"
    using assms(3) unfolding in_order_of_time_def by (meson order_trans)
qed (use that in \<open>auto simp: lowerBoundLine_def\<close>)

lemma upperBoundLine_spec:
  assumes "0 < n" "stamped F stamp \<tau>" "in_order_of_time F \<tau>"
  obtains r where "upperBoundLine F n stamp ts = Some (Inr (case r of None \<Rightarrow> length F | Some q \<Rightarrow> q))"
    "first_line F (\<lambda>p. sint ts < sint (\<tau> p)) r"
proof (rule boundLine_spec [where accept_line = "\<lambda>t u. sint u < sint t" and ts = ts and skip_line = "\<lambda>t u. sint t \<le> sint u" and \<tau> = \<tau>,
      OF assms(1,2)])
  show "\<forall>p q. is_start F p \<longrightarrow> is_start F q \<longrightarrow> p \<le> q \<longrightarrow> sint ts < sint (\<tau> p) \<longrightarrow> sint ts < sint (\<tau> q)"
    using assms(3) unfolding in_order_of_time_def by (meson order_less_le_trans)
qed (use that in \<open>auto simp: upperBoundLine_def\<close>)

section \<open>The lines of a range of times\<close>

lemma full_lines_append: "A = [] \<or> last A = newline \<Longrightarrow> full_lines (A @ B) = full_lines A @ full_lines B"
proof (induction A rule: full_lines.induct)
  case (1 A)
  show ?case
  proof (cases "find_char newline A")
    case None
    with "1.prems" have "A = []" using last_in_set [of A] by (force simp: find_char_None)
    then show ?thesis by simp
  next
    case (Some n)
    have n: "n < length A" using find_char_Some [OF Some] by simp
    have "drop (n + 1) A = [] \<or> last (drop (n + 1) A) = newline"
      using "1.prems" by (cases "drop (n + 1) A = []") (auto simp: last_drop)
    from "1.IH" [OF Some this] Some n show ?thesis
      by (simp add: full_lines_Some full_lines_Some [OF find_char_app_Some [OF Some]])
  qed
qed

lemma full_lines_mem:
  "l \<in> set (full_lines (take k (drop j F))) \<Longrightarrow> is_start F j \<or> j = length F \<Longrightarrow>
   \<exists>p. is_start F p \<and> j \<le> p \<and> p < j + k \<and> text_at F p = l"
proof (induction k arbitrary: j rule: less_induct)
  case (less k)
  show ?case
  proof (cases "find_char newline (take k (drop j F))")
    case None
    with less.prems(1) show ?thesis by (simp add: full_lines_None)
  next
    case (Some m)
    note m = find_char_page [OF Some]
    have mj: "m < length (drop j F)" "drop j F ! m = newline" using find_char_Some [of newline "drop j F" m] m by blast+
    have rest: "drop (m + 1) (take k (drop j F)) = take (k - (m + 1)) (drop (j + (m + 1)) F)"
      by (simp add: drop_take add.commute)
    have first: "take m (take k (drop j F)) = text_at F j" using m by (simp add: text_at_find min_def)
    from less.prems(1) consider "l = text_at F j" | "l \<in> set (full_lines (take (k - (m + 1)) (drop (j + (m + 1)) F)))"
      unfolding full_lines_Some [OF Some] rest first by auto
    then show ?thesis
    proof cases
      case 1
      then show ?thesis using less.prems(2) mj m by (intro exI [of _ j]) auto
    next
      case 2
      have "is_start F (j + (m + 1)) \<or> j + (m + 1) = length F" using mj by (auto simp: is_start_def)
      from less.IH [OF _ 2 this] m show ?thesis by fastforce
    qed
  qed
qed

definition in_range :: "(string \<Rightarrow> i64 res) \<Rightarrow> i64 \<Rightarrow> i64 \<Rightarrow> string \<Rightarrow> bool" where
  "in_range stamp t u l = (case stamp l of Inl f \<Rightarrow> False | Inr x \<Rightarrow> sint t \<le> sint x \<and> sint x \<le> sint u)"

lemma filter_none: "\<forall>x \<in> set xs. \<not> P x \<Longrightarrow> filter P xs = []"
  by (induction xs) auto

lemma filter_lines:
  assumes "\<And>p. is_start F p \<Longrightarrow> j \<le> p \<Longrightarrow> p < j + k \<Longrightarrow> P (text_at F p) = v" "is_start F j \<or> j = length F"
  shows "filter P (full_lines (take k (drop j F))) = (if v then full_lines (take k (drop j F)) else [])"
  using full_lines_mem [OF _ assms(2)] assms(1) by (auto simp: filter_id_conv intro!: filter_none)

lemma last_take_nth: "0 < n \<Longrightarrow> n \<le> length xs \<Longrightarrow> last (take n xs) = xs ! (n - 1)"
  by (cases n) (auto simp: take_Suc_conv_app_nth)

lemma start_break: "is_start F b \<Longrightarrow> take b F = [] \<or> last (take b F) = newline"
  by (cases "b = 0") (auto simp: is_start_def last_take_nth)

lemma full_lines_cut:
  assumes "is_start F b"
  shows "full_lines F = full_lines (take b (drop 0 F)) @ full_lines (take (length F - b) (drop b F))"
  using full_lines_append [OF start_break [OF assms], of "drop b F"] by simp

lemma range_lines_spec:
  assumes st: "stamped F stamp \<tau>" and ord: "in_order_of_time F \<tau>"
    and b: "first_line F (\<lambda>p. sint t \<le> sint (\<tau> p)) rb" and e: "first_line F (\<lambda>p. sint u < sint (\<tau> p)) re"
  shows "filter (in_range stamp t u) (full_lines F) = (case rb of
      None \<Rightarrow> []
    | Some b \<Rightarrow> full_lines (take ((case re of None \<Rightarrow> length F | Some q \<Rightarrow> q) - b) (drop b F)))"
proof (cases rb)
  case None
  have "\<not> in_range stamp t u (text_at F p)" if "is_start F p" for p
    using that st b None by (simp add: in_range_def stamped_def first_line_def)
  then have "filter (in_range stamp t u) (full_lines (take (length F) (drop 0 F))) = []"
    by (subst filter_lines [where v = False]) (auto simp: is_start_def)
  with None show ?thesis by simp
next
  case (Some b')
  then have b': "is_start F b'" "\<forall>p < b'. is_start F p \<longrightarrow> \<not> sint t \<le> sint (\<tau> p)" "sint t \<le> sint (\<tau> b')"
    using b by (auto simp: first_line_def)
  define e' where "e' = (case re of None \<Rightarrow> length F | Some q \<Rightarrow> q)"
  have e': "is_start F e' \<or> e' = length F" "e' \<le> length F" "\<forall>p < e'. is_start F p \<longrightarrow> \<not> sint u < sint (\<tau> p)"
    using e by (cases re; auto simp: e'_def first_line_def is_start_def)+
  have late: "sint u < sint (\<tau> p)" if "e' \<le> p" "is_start F p" for p
  proof (cases re)
    case None
    with that show ?thesis by (simp add: e'_def is_start_def)
  next
    case (Some q)
    then have "sint u < sint (\<tau> q)" "is_start F q" "q \<le> p" using e that by (auto simp: first_line_def e'_def)
    with ord that(2) show ?thesis unfolding in_order_of_time_def by (meson order_less_le_trans)
  qed
  have fresh: "sint t \<le> sint (\<tau> p)" if "b' \<le> p" "is_start F p" for p
    using ord b'(1,3) that unfolding in_order_of_time_def by (meson order_trans)
  have in_r: "in_range stamp t u (text_at F p) = (b' \<le> p \<and> p < e')" if p: "is_start F p" for p
    using st p late [of p] fresh [of p] b'(2) e'(3) unfolding in_range_def stamped_def
    by (cases "b' \<le> p"; cases "p < e'") auto
  have front: "filter (in_range stamp t u) (full_lines (take b' (drop 0 F))) = []"
    by (subst filter_lines [where v = False]) (use in_r in \<open>auto simp: is_start_def\<close>)
  have rear: "filter (in_range stamp t u) (full_lines (take (length F - b') (drop b' F))) = full_lines (take (e' - b') (drop b' F))"
  proof (cases "b' < e'")
    case True
    have split: "take (length F - b') (drop b' F) = take (e' - b') (drop b' F) @ take (length F - e') (drop e' F)"
      using True e'(2) by (metis (no_types, lifting) add_diff_cancel_left' append_take_drop_id drop_drop le_add_diff_inverse2
        length_drop less_imp_le_nat take_all_iff order_refl)
    have brk: "e' < length F \<Longrightarrow> take (e' - b') (drop b' F) = [] \<or> last (take (e' - b') (drop b' F)) = newline"
      using e'(1) True by (auto simp: is_start_def last_take_nth)
    have "full_lines (take (length F - b') (drop b' F)) =
        full_lines (take (e' - b') (drop b' F)) @ full_lines (take (length F - e') (drop e' F))"
      unfolding split using brk e'(2) by (cases "e' = length F") (simp_all add: full_lines_append)
    moreover have "filter (in_range stamp t u) (full_lines (take (length F - e') (drop e' F))) = []"
      by (subst filter_lines [where v = False]) (use in_r e'(1) in auto)
    moreover have "filter (in_range stamp t u) (full_lines (take (e' - b') (drop b' F))) = full_lines (take (e' - b') (drop b' F))"
      by (subst filter_lines [where v = True]) (use in_r b'(1) in auto)
    ultimately show ?thesis by simp
  next
    case False
    then have "filter (in_range stamp t u) (full_lines (take (length F - b') (drop b' F))) = []"
      by (subst filter_lines [where v = False]) (use in_r b'(1) in auto)
    with False show ?thesis by simp
  qed
  show ?thesis
    unfolding full_lines_cut [OF b'(1)] filter_append front rear using Some by (simp add: e'_def)
qed

section \<open>Termination\<close>

lemma bound_loop_ends:
  assumes "0 < n"
  shows "e \<le> length F \<Longrightarrow> \<forall>q. a = Some q \<longrightarrow> is_start F q \<Longrightarrow>
    \<exists>r. bound_loop F n stamp ts accept_line skip_line b e a = Some r \<and> (\<forall>q. r = Inr (Some q) \<longrightarrow> is_start F q)"
proof (induction "e - b" arbitrary: b e a rule: less_induct)
  case less
  show ?case
  proof (cases "b < e")
    case True
    define mid where "mid = b + (e - b) div 2"
    have mid: "b \<le> mid" "mid < e" using True by (auto simp: mid_def)
    then have mF: "mid < length F" using less.prems(1) by simp
    from readLineAt_spec [OF assms mF] obtain p where
      p: "readLineAt F n mid = Some (Inr (Some \<lparr>line_begin = p, next_begin = next_start F p, line_text = text_at F p\<rparr>))"
      and l: "line_of F p mid" .
    have start: "is_start F p" "p \<le> mid" using l by (auto simp: line_of_def)
    note step = bound_loop.simps [of F n stamp ts accept_line skip_line b e a, folded mid_def]
    show ?thesis
    proof (cases "stamp (text_at F p)")
      case (Inl f)
      then show ?thesis using True p by (subst step) simp
    next
      case (Inr t)
      have "\<exists>r. bound_loop F n stamp ts accept_line skip_line (next_start F p) e a = Some r \<and> (\<forall>q. r = Inr (Some q) \<longrightarrow> is_start F q)"
        by (rule less.hyps) (use line_of_next [OF l mF] mid less.prems in auto)
      moreover have "\<exists>r. bound_loop F n stamp ts accept_line skip_line b p (if accept_line t ts then Some p else a) = Some r \<and>
          (\<forall>q. r = Inr (Some q) \<longrightarrow> is_start F q)"
        by (rule less.hyps) (use start mid less.prems True in auto)
      ultimately show ?thesis using True p Inr by (cases "skip_line t ts"; subst step) (simp_all only: if_True if_False bind.bind_lunit sum.case option.case text_line.simps)
    qed
  next
    case False
    with less.prems(2) show ?thesis by (subst bound_loop.simps) simp
  qed
qed

section \<open>Properties\<close>

text \<open>C27: the binary search ends on every file, in whatever order its lines are and whether they have
  times or not, when the buffer is not empty; the offset it finds starts a line of the file.\<close>

theorem time_search_ends:
  assumes "0 < n"
  shows "\<exists>r r'. lowerBoundLine F n stamp ts = Some r \<and> (\<forall>q. r = Inr (Some q) \<longrightarrow> is_start F q) \<and>
    upperBoundLine F n stamp ts = Some r' \<and> (\<forall>q. r' = Inr q \<longrightarrow> is_start F q \<or> q = length F)"
proof -
  have ends: "\<exists>r. boundLine F n stamp ts acc skp = Some r \<and> (\<forall>q. r = Inr (Some q) \<longrightarrow> is_start F q)" for acc skp
    unfolding boundLine_def by (rule bound_loop_ends [OF assms]) simp_all
  obtain r where "lowerBoundLine F n stamp ts = Some r" "\<forall>q. r = Inr (Some q) \<longrightarrow> is_start F q"
    unfolding lowerBoundLine_def using ends by blast
  moreover obtain r' where "upperBoundLine F n stamp ts = Some (rbind r' (\<lambda>a. Inr (case a of None \<Rightarrow> length F | Some p \<Rightarrow> p)))"
      "\<forall>q. r' = Inr (Some q) \<longrightarrow> is_start F q"
    unfolding upperBoundLine_def using ends by (metis option.simps(9))
  ultimately show ?thesis by (cases r') (auto split: option.splits)
qed

theorem time_search_ends_witness:
  "\<exists>r. lowerBoundLine ''ab'' 1 (\<lambda>l. Inl Thrown) 0 = Some r \<and> (\<forall>q. r = Inr (Some q) \<longrightarrow> is_start ''ab'' q)"
  using time_search_ends [of 1 "''ab''" "\<lambda>l. Inl Thrown" 0] by auto

text \<open>C28: on a file whose lines all have times that do not go back, the lower bound is the start of the
  first line at the time or later, the upper bound that of the first line later than it, or the end.\<close>

theorem time_search_correct:
  assumes "0 < n" and "stamped F stamp \<tau>" and "in_order_of_time F \<tau>"
  shows "(\<exists>r. lowerBoundLine F n stamp ts = Some (Inr r) \<and> first_line F (\<lambda>p. sint ts \<le> sint (\<tau> p)) r) \<and>
    (\<exists>r. upperBoundLine F n stamp ts = Some (Inr (case r of None \<Rightarrow> length F | Some q \<Rightarrow> q)) \<and>
       first_line F (\<lambda>p. sint ts < sint (\<tau> p)) r)"
  using lowerBoundLine_spec [OF assms, of ts] upperBoundLine_spec [OF assms, of ts] by metis

theorem time_search_correct_witness:
  "\<exists>r. lowerBoundLine [CHR ''1'', newline, CHR ''2'', newline] 3 (\<lambda>l. Inr (word_of_nat (digits_val l))) 2 = Some (Inr r) \<and>
     first_line [CHR ''1'', newline, CHR ''2'', newline] (\<lambda>p. 2 \<le> p) r"
proof -
  let ?F = "[CHR ''1'', newline, CHR ''2'', newline]" and ?s = "\<lambda>l. Inr (word_of_nat (digits_val l)) :: i64 res"
    and ?t = "\<lambda>p. if p = (0 :: nat) then 1 else 2 :: i64"
  have starts: "is_start ?F p \<longleftrightarrow> p = 0 \<or> p = 2" for p
  proof
    assume p: "is_start ?F p"
    then have "p < 4" by (simp add: is_start_def)
    then consider "p = 0" | "p = 1" | "p = 2" | "p = 3" by linarith
    then show "p = 0 \<or> p = 2" using p by cases (auto simp: is_start_def)
  qed (auto simp: is_start_def)
  have st: "stamped ?F ?s ?t"
    unfolding stamped_def starts by (auto simp: text_at_def digits_val_def digit_val_def)
  have o: "in_order_of_time ?F ?t" unfolding in_order_of_time_def starts by auto
  have "\<exists>r. lowerBoundLine ?F 3 ?s 2 = Some (Inr r) \<and> first_line ?F (\<lambda>p. sint (2 :: i64) \<le> sint (?t p)) r"
    using time_search_correct [OF _ st o, of 3 2] by simp
  moreover have "first_line ?F (\<lambda>p. sint (2 :: i64) \<le> sint (?t p)) r \<Longrightarrow> first_line ?F (\<lambda>p. 2 \<le> p) r" for r
    unfolding first_line_def starts by (cases r) (auto split: if_splits)
  ultimately show ?thesis by blast
qed

end
