(* ===== verification/Log_Formats.thy ===== *)
theory Log_Formats
  imports Line_Sources Functions
begin

text \<open>
  src/back/logfmt: the formats of log lines. A parser hands the fields of a line to a callback, in
  order, and says whether the line is well formed; here it gives their list. A string view is a
  \<open>PinnedString\<close> into the line. The lemmas: TSKV, TSV and CSV lines parse back to the fields they were
  written from, with the quoting of CSV, and a detected format is one that accepts the line.
\<close>

section \<open>Views\<close>

text \<open>\<open>substr(0, k)\<close> and \<open>substr(k)\<close> for positions inside the view.\<close>

definition sv_take :: "PinnedString \<Rightarrow> nat \<Rightarrow> PinnedString" where
  "sv_take v k = v\<lparr>pin_size := min k (pin_size v)\<rparr>"

definition sv_drop :: "PinnedString \<Rightarrow> nat \<Rightarrow> PinnedString" where
  "sv_drop v k = \<lparr>pin = drop k (pin v), pin_size = pin_size v - k\<rparr>"

lemma view_sv [simp]: "view (sv_take v k) = take k (view v)" "view (sv_drop v k) = drop k (view v)"
  by (simp_all add: view_def sv_take_def sv_drop_def drop_take)

lemma sv_drop_size [simp]: "pin_size (sv_drop v k) = pin_size v - k"
  by (simp add: sv_drop_def)

lemma find_view: "find_char c (view v) = Some k \<Longrightarrow> k < pin_size v"
  by (drule find_char_Some) (simp add: view_def)

text \<open>What a callback is given: a view of the line, a new string, or null.\<close>

datatype log_field = Field_View PinnedString | Field_String string | Field_Null

fun field_text :: "log_field \<Rightarrow> string option" where
  "field_text (Field_View v) = Some (view v)"
| "field_text (Field_String s) = Some s"
| "field_text Field_Null = None"

section \<open>LogType.h, anon\_columns.h\<close>

datatype LogType = TSKV | TS_LOGFMT | JSONL | CSV | TSV

definition AnonColumnNames :: "string list" where
  "AnonColumnNames = map (\<lambda>i. ''anon'' @ show_nat (i + 1)) [0..<32]"

lemma anon_count [simp]: "length AnonColumnNames = 32"
  by (simp add: AnonColumnNames_def)

section \<open>tskv.h, ts\_logfmt.h\<close>

text \<open>The loop over tokens: a token with \<open>=\<close> is a key and a value, one without gets the next anonymous
  name, as long as there are any.\<close>

definition token_fields :: "PinnedString \<Rightarrow> nat \<Rightarrow> (string \<times> log_field) list \<times> nat" where
  "token_fields token anon_index = (case find_char (CHR ''='') (view token) of
     None \<Rightarrow>
       if anon_index < length AnonColumnNames
       then ([(AnonColumnNames ! anon_index, Field_View token)], anon_index + 1) else ([], anon_index)
   | Some eq \<Rightarrow> ([(view (sv_take token eq), Field_View (sv_drop token (eq + 1)))], anon_index))"

function pairs_loop :: "char \<Rightarrow> PinnedString \<Rightarrow> nat \<Rightarrow> (string \<times> log_field) list" where
  "pairs_loop sep cur anon_index =
     (if view cur = [] then []
      else case find_char sep (view cur) of
        None \<Rightarrow> fst (token_fields cur anon_index)
      | Some tab \<Rightarrow>
          fst (token_fields (sv_take cur tab) anon_index)
            @ pairs_loop sep (sv_drop cur (tab + 1)) (snd (token_fields (sv_take cur tab) anon_index)))"
  by pat_completeness auto
termination by (relation "measure (\<lambda>(sep, cur, i). pin_size cur)") (auto dest: find_view)

declare pairs_loop.simps [simp del]

definition tskv_parse :: "PinnedString \<Rightarrow> bool \<times> (string \<times> log_field) list" where
  "tskv_parse line = (True, pairs_loop (CHR 0x09) line 0)"

definition has_infix :: "string \<Rightarrow> string \<Rightarrow> bool" where
  "has_infix p s = list_ex (\<lambda>i. take (length p) (drop i s) = p) [0..<length s + 1]"

definition tskv_detect :: "PinnedString \<Rightarrow> bool" where
  "tskv_detect line = (let s = view line; t = CHR 0x09 in
     (s = ''tskv'' \<or> take 5 s = ''tskv'' @ [t] \<or> (5 \<le> length s \<and> drop (length s - 5) s = t # ''tskv'')
        \<or> has_infix (t # ''tskv'' @ [t]) s) \<and> fst (tskv_parse line))"

definition logfmt_parse :: "PinnedString \<Rightarrow> bool \<times> (string \<times> log_field) list" where
  "logfmt_parse line =
     (if length (view line) < 21 then (False, [])
      else let ts = (''timestamp'', Field_View (sv_take (sv_drop line 1) 20)); rest = sv_drop line 21 in
        case find_char (CHR '' '') (view rest) of
          None \<Rightarrow> (True, [ts])
        | Some sep \<Rightarrow> (True, ts # pairs_loop (CHR '' '') (sv_drop rest (sep + 1)) 0))"

definition logfmt_detect :: "PinnedString \<Rightarrow> bool" where
  "logfmt_detect line = (take 1 (view line) = ''['' \<and> fst (logfmt_parse line))"

section \<open>tsv.h\<close>

definition strip_cr :: "PinnedString \<Rightarrow> PinnedString" where
  "strip_cr line = (if view line \<noteq> [] \<and> last (view line) = CHR 0x0D then sv_take line (length (view line) - 1) else line)"

definition has_line_break :: "string \<Rightarrow> bool" where
  "has_line_break s = list_ex (\<lambda>c. c = CHR 0x0D \<or> c = CHR 0x0A) s"

function tsv_loop :: "PinnedString \<Rightarrow> nat \<Rightarrow> (string \<times> log_field) list" where
  "tsv_loop line i = (case find_char (CHR 0x09) (view line) of
     None \<Rightarrow> (if i < length AnonColumnNames then [(AnonColumnNames ! i, Field_View line)] else [])
   | Some separator \<Rightarrow>
       (if i < length AnonColumnNames then [(AnonColumnNames ! i, Field_View (sv_take line separator))] else [])
         @ tsv_loop (sv_drop line (separator + 1)) (i + 1))"
  by pat_completeness auto
termination by (relation "measure (\<lambda>(line, i). pin_size line)") (auto dest: find_view)

declare tsv_loop.simps [simp del]

definition tsv_parse :: "PinnedString \<Rightarrow> bool \<times> (string \<times> log_field) list" where
  "tsv_parse line = (if has_line_break (view (strip_cr line)) then (False, []) else (True, tsv_loop (strip_cr line) 0))"

definition tsv_detect :: "PinnedString \<Rightarrow> bool" where
  "tsv_detect line = (CHR 0x09 \<in> set (view line) \<and> fst (tsv_parse line))"

section \<open>csv.h\<close>

abbreviation quote :: char where
  "quote \<equiv> CHR 0x22"

text \<open>The position of the closing quote, and whether a doubled quote was passed.\<close>

function csv_quote :: "string \<Rightarrow> nat \<Rightarrow> bool \<Rightarrow> (nat \<times> bool) option" where
  "csv_quote s position escaped = (case find_char quote (drop position s) of
     None \<Rightarrow> None
   | Some k \<Rightarrow>
       if position + k + 1 < length s \<and> s ! (position + k + 1) = quote then csv_quote s (position + k + 2) True
       else Some (position + k, escaped))"
  by pat_completeness auto
termination by (relation "measure (\<lambda>(s, p, e). length s - p)") auto

declare csv_quote.simps [simp del]

fun csv_unescape :: "string \<Rightarrow> string" where
  "csv_unescape [] = []"
| "csv_unescape (c # cs) = c # (if c = quote then (case cs of [] \<Rightarrow> [] | d # ds \<Rightarrow> csv_unescape ds) else csv_unescape cs)"

text \<open>One field: its view, whether it is escaped, and the separator behind it; None is a malformed line.\<close>

definition csv_field :: "PinnedString \<Rightarrow> (PinnedString \<times> bool \<times> nat option) option" where
  "csv_field line = (let s = view line in
     if take 1 s = [quote] then
       (case csv_quote s 1 False of
          None \<Rightarrow> None
        | Some (position, escaped) \<Rightarrow>
            let field = sv_take (sv_drop line 1) (position - 1); separator = position + 1 in
            if separator = length s then Some (field, escaped, None)
            else if s ! separator \<noteq> CHR '','' then None
            else Some (field, escaped, Some separator))
     else
       let separator = find_char (CHR '','') s;
           field = (case separator of None \<Rightarrow> line | Some k \<Rightarrow> sv_take line k) in
       if quote \<in> set (view field) then None else Some (field, False, separator))"

definition csv_value :: "PinnedString \<Rightarrow> bool \<Rightarrow> log_field" where
  "csv_value field escaped = (if escaped then Field_String (csv_unescape (view field)) else Field_View field)"

lemma csv_field_sep:
  assumes "csv_field line = Some (field, escaped, Some k)"
  shows "k < pin_size line \<or> k < length (view line)"
proof -
  have "position < length s" if "csv_quote s p e = Some (position, e')" for s p e position e'
    using that
  proof (induction s p e rule: csv_quote.induct)
    case (1 s p e)
    show ?case
    proof (cases "find_char quote (drop p s)")
      case None
      with "1.prems" show ?thesis by (subst (asm) csv_quote.simps) simp
    next
      case (Some j)
      with find_char_Some [OF Some] "1.IH" "1.prems" show ?thesis
        by (subst (asm) csv_quote.simps) (auto split: if_splits)
    qed
  qed
  with assms show ?thesis
    by (auto simp: csv_field_def Let_def split: if_splits option.splits prod.splits dest: find_char_Some)
      (metis Suc_lessI)
qed

function csv_loop :: "PinnedString \<Rightarrow> nat \<Rightarrow> bool \<times> (string \<times> log_field) list" where
  "csv_loop line i = (case csv_field line of
     None \<Rightarrow> (False, [])
   | Some (field, escaped, separator) \<Rightarrow>
       if has_line_break (view field) then (False, [])
       else let out = (if i < length AnonColumnNames then [(AnonColumnNames ! i, csv_value field escaped)] else []) in
         case separator of
           None \<Rightarrow> (True, out)
         | Some k \<Rightarrow> (case csv_loop (sv_drop line (k + 1)) (i + 1) of (ok, fs) \<Rightarrow> (ok, out @ fs)))"
  by pat_completeness auto
termination
proof (relation "measure (\<lambda>(line, i). pin_size line)", goal_cases)
  case (2 line i p field q escaped separator x k)
  then have "csv_field line = Some (field, escaped, Some k)" by auto
  from csv_field_sep [OF this] have "k < pin_size line" by (auto simp: view_def)
  then show ?case by simp
qed simp

declare csv_loop.simps [simp del]

definition csv_parse :: "PinnedString \<Rightarrow> bool \<times> (string \<times> log_field) list" where
  "csv_parse line = csv_loop (strip_cr line) 0"

fun unquoted_tabs :: "bool \<Rightarrow> string \<Rightarrow> bool" where
  "unquoted_tabs quoted [] = False"
| "unquoted_tabs quoted (c # cs) =
     (if c = quote then unquoted_tabs (\<not> quoted) cs
      else if c = CHR 0x09 \<and> \<not> quoted then True else unquoted_tabs quoted cs)"

definition csv_detect :: "PinnedString \<Rightarrow> bool" where
  "csv_detect line = (if CHR '','' \<notin> set (view line) \<or> unquoted_tabs False (view line) then False
     else fst (csv_parse line) \<and> length (snd (csv_parse line)) > 1)"

section \<open>jsonl.h\<close>

text \<open>
  What the library simdjson finds in a text: the entries of its object up to the first error, a decoded
  string or the place and the size of the raw value, and whether all of it is one object.
\<close>

datatype json_entry = Json_String string | Json_Raw nat nat

type_synonym jsonl_lib = "string \<Rightarrow> (string \<times> json_entry) list \<times> bool"

fun json_field :: "PinnedString \<Rightarrow> json_entry \<Rightarrow> log_field" where
  "json_field line (Json_String s) = Field_String s"
| "json_field line (Json_Raw p n) = (let raw = trim_right (take n (drop p (view line))) in
     if raw = ''null'' then Field_Null else Field_View (sv_take (sv_drop line p) (length raw)))"

definition jsonl_parse :: "jsonl_lib \<Rightarrow> PinnedString \<Rightarrow> bool \<times> (string \<times> log_field) list" where
  "jsonl_parse J line = (case J (view line) of (es, ok) \<Rightarrow> (ok, map (\<lambda>(k, e). (k, json_field line e)) es))"

definition jsonl_detect :: "jsonl_lib \<Rightarrow> PinnedString \<Rightarrow> bool" where
  "jsonl_detect J line =
     (take 1 (dropWhile (\<lambda>c. c \<in> {CHR '' '', CHR 0x09, CHR 0x0D, CHR 0x0A}) (view line)) = ''{'' \<and> fst (jsonl_parse J line))"

section \<open>log\_types.h, log\_types.cpp\<close>

fun parseKeyValue :: "jsonl_lib \<Rightarrow> LogType \<Rightarrow> PinnedString \<Rightarrow> bool \<times> (string \<times> log_field) list" where
  "parseKeyValue J TSKV line = tskv_parse line"
| "parseKeyValue J TS_LOGFMT line = logfmt_parse line"
| "parseKeyValue J JSONL line = jsonl_parse J line"
| "parseKeyValue J CSV line = csv_parse line"
| "parseKeyValue J TSV line = tsv_parse line"

fun type_detect :: "jsonl_lib \<Rightarrow> LogType \<Rightarrow> PinnedString \<Rightarrow> bool" where
  "type_detect J TSKV line = tskv_detect line"
| "type_detect J TS_LOGFMT line = logfmt_detect line"
| "type_detect J JSONL line = jsonl_detect J line"
| "type_detect J CSV line = csv_detect line"
| "type_detect J TSV line = tsv_detect line"

definition detectLogType :: "jsonl_lib \<Rightarrow> PinnedString \<Rightarrow> LogType option" where
  "detectLogType J line = find (\<lambda>t. type_detect J t line) [TSKV, TS_LOGFMT, JSONL, CSV, TSV]"

fun timeFormat :: "LogType \<Rightarrow> TimeFormat option" where
  "timeFormat TSKV = Some SQL"
| "timeFormat TS_LOGFMT = Some ORACLE"
| "timeFormat _ = None"


section \<open>Written lines parse back\<close>

definition texts :: "(string \<times> log_field) list \<Rightarrow> (string \<times> string option) list" where
  "texts fs = map (\<lambda>(k, f). (k, field_text f)) fs"

lemma texts_simps [simp]:
  "texts [] = []" "texts ((k, f) # fs) = (k, field_text f) # texts fs" "texts (fs @ gs) = texts fs @ texts gs"
  by (simp_all add: texts_def)

text \<open>Joined by a separator.\<close>

fun join_by :: "char \<Rightarrow> string list \<Rightarrow> string" where
  "join_by c [] = []"
| "join_by c [s] = s"
| "join_by c (s # t # ss) = s @ c # join_by c (t # ss)"

lemma join_by_Cons: "ss \<noteq> [] \<Longrightarrow> join_by c (s # ss) = s @ c # join_by c ss"
  by (cases ss) simp_all

lemma find_join:
  assumes "c \<notin> set s"
  shows "find_char c (join_by c [s]) = None" "ss \<noteq> [] \<Longrightarrow> find_char c (join_by c (s # ss)) = Some (length s)"
  using assms by (simp_all add: find_char_None join_by_Cons find_char_append)

definition pair_text :: "string \<times> string \<Rightarrow> string" where
  "pair_text p = fst p @ CHR ''='' # snd p"

lemma token_pair:
  assumes "view token = pair_text (k, v)" "CHR ''='' \<notin> set k"
  shows "texts (fst (token_fields token i)) = [(k, Some v)]" "snd (token_fields token i) = i"
  using assms by (simp_all add: token_fields_def pair_text_def find_char_append)

lemma pairs_loop_join:
  assumes "sep \<noteq> CHR ''=''"
  shows "fs \<noteq> [] \<Longrightarrow> \<forall>(k, v) \<in> set fs. sep \<notin> set k \<and> CHR ''='' \<notin> set k \<and> sep \<notin> set v \<Longrightarrow>
    view cur = join_by sep (map pair_text fs) \<Longrightarrow>
    texts (pairs_loop sep cur i) = map (\<lambda>(k, v). (k, Some v)) fs"
proof (induction fs arbitrary: cur)
  case (Cons p fs)
  obtain k v where p: "p = (k, v)" by (cases p)
  have kv: "CHR ''='' \<notin> set k" "sep \<notin> set (pair_text p)" using Cons.prems(2) assms by (auto simp: p pair_text_def)
  have ne: "view cur \<noteq> []" using Cons.prems(3) by (cases fs) (auto simp: p pair_text_def)
  show ?case
  proof (cases "fs = []")
    case True
    then have t: "view cur = pair_text (k, v)" using Cons.prems(3) by (simp add: p)
    then have "find_char sep (view cur) = None" using kv(2) by (simp add: p find_char_None)
    with ne True token_pair [OF t kv(1)] show ?thesis by (subst pairs_loop.simps) (simp add: p)
  next
    case False
    then have f: "find_char sep (view cur) = Some (length (pair_text p))"
      using Cons.prems(3) find_join(2) [OF kv(2)] by simp
    have t: "view (sv_take cur (length (pair_text p))) = pair_text (k, v)"
      using Cons.prems(3) False by (simp add: join_by_Cons p)
    have "texts (pairs_loop sep (sv_drop cur (length (pair_text p) + 1)) i) = map (\<lambda>(k, v). (k, Some v)) fs"
      by (rule Cons.IH [OF False]) (use Cons.prems(2,3) False in \<open>auto simp: join_by_Cons\<close>)
    with ne f token_pair [OF t kv(1)] show ?thesis by (subst pairs_loop.simps) (simp add: p)
  qed
qed simp

text \<open>CSV writing as in RFC 4180: a field with a comma or a quote is quoted, its quotes doubled.\<close>

fun double_quotes :: "string \<Rightarrow> string" where
  "double_quotes [] = []"
| "double_quotes (c # cs) = (if c = quote then quote # quote # double_quotes cs else c # double_quotes cs)"

definition csv_text :: "string \<Rightarrow> string" where
  "csv_text s = (if quote \<in> set s \<or> CHR '','' \<in> set s then quote # double_quotes s @ [quote] else s)"

lemma csv_unescape_double: "csv_unescape (double_quotes s) = s"
  by (induction s) auto

lemma double_quotes_id: "quote \<notin> set s \<Longrightarrow> double_quotes s = s"
  by (induction s) auto

lemma double_quotes_set: "set (double_quotes s) \<subseteq> set s"
  by (induction s) auto

lemma csv_quote_skip:
  "c \<noteq> quote \<Longrightarrow> csv_quote (pre @ c # t) (length pre) e = csv_quote ((pre @ [c]) @ t) (length pre + 1) e"
  by (subst (1 2) csv_quote.simps) (auto split: option.splits)

lemma csv_quote_end:
  "rest = [] \<or> hd rest \<noteq> quote \<Longrightarrow>
   csv_quote (pre @ double_quotes s @ quote # rest) (length pre) e =
     Some (length pre + length (double_quotes s), e \<or> quote \<in> set s)"
proof (induction s arbitrary: pre e)
  case Nil
  then show ?case by (subst csv_quote.simps) (auto simp: nth_append hd_conv_nth)
next
  case (Cons c s)
  show ?case
  proof (cases "c = quote")
    case True
    have "csv_quote (pre @ double_quotes (c # s) @ quote # rest) (length pre) e =
        csv_quote ((pre @ [quote, quote]) @ double_quotes s @ quote # rest) (length (pre @ [quote, quote])) True"
      by (subst csv_quote.simps) (simp add: True nth_append)
    with Cons.IH [OF Cons.prems, of "pre @ [quote, quote]" True] show ?thesis by (simp add: True)
  next
    case False
    with csv_quote_skip [OF False, of pre "double_quotes s @ quote # rest" e] Cons.IH [OF Cons.prems, of "pre @ [c]" e]
    show ?thesis by simp
  qed
qed

lemma csv_field_text:
  assumes "view line = csv_text s @ rest" "rest = [] \<or> hd rest = CHR '',''"
  obtains field escaped where
    "csv_field line = Some (field, escaped, if rest = [] then None else Some (length (csv_text s)))"
    "field_text (csv_value field escaped) = Some s" "set (view field) \<subseteq> set s"
proof (cases "quote \<in> set s \<or> CHR '','' \<in> set s")
  case True
  let ?q = "double_quotes s"
  have v: "view line = [quote] @ ?q @ quote # rest" using assms(1) True by (simp add: csv_text_def)
  have pos: "csv_quote (view line) 1 False = Some (1 + length ?q, quote \<in> set s)"
    unfolding v using csv_quote_end [of rest "[quote]" s False] assms(2) by auto
  have sep: "view line ! (length ?q + 2) = CHR '',''" if "rest \<noteq> []"
    using that assms(2) unfolding v by (cases rest) (auto simp: nth_append)
  have "csv_field line = Some (sv_take (sv_drop line 1) (length ?q), quote \<in> set s, if rest = [] then None else Some (length (csv_text s)))"
    using pos sep True unfolding csv_field_def Let_def by (auto simp: v csv_text_def)
  moreover have "view (sv_take (sv_drop line 1) (length ?q)) = ?q" using v by simp
  ultimately show ?thesis
    using double_quotes_set [of s] double_quotes_id [of s]
    by (intro that) (auto simp: csv_value_def csv_unescape_double)
next
  case False
  then have t: "csv_text s = s" by (simp add: csv_text_def)
  have "take 1 (view line) \<noteq> [quote]" using assms False unfolding t by (cases s; cases rest) auto
  moreover have "find_char (CHR '','') (view line) = (if rest = [] then None else Some (length s))"
    using assms False unfolding t by (cases rest) (auto simp: find_char_None find_char_append)
  ultimately have "csv_field line = Some (if rest = [] then line else sv_take line (length s), False, if rest = [] then None else Some (length (csv_text s)))"
    using False assms(1) unfolding csv_field_def Let_def t by auto
  then show ?thesis
    by (rule that [of "if rest = [] then line else sv_take line (length s)" False])
      (use assms(1) t in \<open>auto simp: csv_value_def\<close>)
qed

lemma csv_loop_join:
  "ss \<noteq> [] \<Longrightarrow> \<forall>s \<in> set ss. \<not> has_line_break s \<Longrightarrow> view line = join_by (CHR '','') (map csv_text ss) \<Longrightarrow>
   i + length ss \<le> length AnonColumnNames \<Longrightarrow>
   fst (csv_loop line i) \<and> texts (snd (csv_loop line i)) = zip (drop i AnonColumnNames) (map Some ss)"
proof (induction ss arbitrary: line i)
  case (Cons s ss)
  define rest where "rest = (if ss = [] then [] else CHR '','' # join_by (CHR '','') (map csv_text ss))"
  have v: "view line = csv_text s @ rest" using Cons.prems(3) by (auto simp: rest_def join_by_Cons)
  have "rest = [] \<or> hd rest = CHR '',''" by (simp add: rest_def)
  from csv_field_text [OF v this] obtain field escaped where
    f: "csv_field line = Some (field, escaped, if rest = [] then None else Some (length (csv_text s)))"
    and t: "field_text (csv_value field escaped) = Some s" "set (view field) \<subseteq> set s" .
  have "\<not> has_line_break s" using Cons.prems(2) by simp
  then have nb: "\<not> has_line_break (view field)" using t(2) unfolding has_line_break_def list_ex_iff by blast
  have i: "i < length AnonColumnNames" using Cons.prems(4) by simp
  have names: "drop i AnonColumnNames = AnonColumnNames ! i # drop (Suc i) AnonColumnNames"
    using i by (simp add: Cons_nth_drop_Suc)
  show ?case
  proof (cases "ss = []")
    case True
    then show ?thesis unfolding csv_loop.simps [of line i] f names using nb i t(1) by (simp add: rest_def)
  next
    case False
    obtain ok fs where r: "csv_loop (sv_drop line (length (csv_text s) + 1)) (i + 1) = (ok, fs)"
      by (cases "csv_loop (sv_drop line (length (csv_text s) + 1)) (i + 1)")
    have "view (sv_drop line (length (csv_text s) + 1)) = join_by (CHR '','') (map csv_text ss)"
      using v False by (simp add: rest_def)
    from Cons.IH [OF False _ this, of "i + 1"] Cons.prems(2,4)
    have IH: "ok \<and> texts fs = zip (drop (i + 1) AnonColumnNames) (map Some ss)" using r by simp
    show ?thesis
      unfolding csv_loop.simps [of line i] f names using nb i t(1) False IH r by (simp add: rest_def)
  qed
qed simp

lemma join_last:
  "ss \<noteq> [] \<Longrightarrow> \<forall>s \<in> set ss. c \<notin> set s \<Longrightarrow> c \<noteq> sep \<Longrightarrow> c \<notin> set (join_by sep ss)"
  by (induction sep ss rule: join_by.induct) auto

section \<open>Properties\<close>

text \<open>C32: a TSKV line written from keys and values parses back to them, in order, when the keys have
  neither a tab nor an equals sign and the values no tab.\<close>

theorem tskv_roundtrip:
  assumes "fs \<noteq> []" and "\<forall>(k, v) \<in> set fs. CHR 0x09 \<notin> set k \<and> CHR ''='' \<notin> set k \<and> CHR 0x09 \<notin> set v"
    and "view line = join_by (CHR 0x09) (map pair_text fs)"
  shows "fst (parseKeyValue J TSKV line) \<and>
    texts (snd (parseKeyValue J TSKV line)) = map (\<lambda>(k, v). (k, Some v)) fs"
  using pairs_loop_join [OF _ assms] by (simp add: tskv_parse_def)

theorem tskv_roundtrip_witness:
  "\<forall>J. texts (snd (parseKeyValue J TSKV \<lparr>pin = ''a=1'' @ CHR 0x09 # ''b='', pin_size = 6\<rparr>)) =
    [(''a'', Some ''1''), (''b'', Some '''')]"
proof
  fix J
  show "texts (snd (parseKeyValue J TSKV \<lparr>pin = ''a=1'' @ CHR 0x09 # ''b='', pin_size = 6\<rparr>)) =
      [(''a'', Some ''1''), (''b'', Some '''')]"
    using tskv_roundtrip [of "[(''a'', ''1''), (''b'', '''')]" "\<lparr>pin = ''a=1'' @ CHR 0x09 # ''b='', pin_size = 6\<rparr>" J]
    by (simp add: pair_text_def)
qed

text \<open>C31: a CSV line whose fields are quoted as RFC 4180 says parses back to the fields, under the
  anonymous column names in order, for fields without line breaks and as many as there are names.\<close>

theorem csv_roundtrip:
  assumes "ss \<noteq> []" and "length ss \<le> 32" and "\<forall>s \<in> set ss. \<not> has_line_break s"
    and "view line = join_by (CHR '','') (map csv_text ss)"
  shows "fst (parseKeyValue J CSV line) \<and>
    texts (snd (parseKeyValue J CSV line)) = zip AnonColumnNames (map Some ss)"
proof -
  have "\<forall>s \<in> set (map csv_text ss). CHR 0x0D \<notin> set s"
    using assms(3) double_quotes_set by (fastforce simp: csv_text_def has_line_break_def list_ex_iff)
  then have "CHR 0x0D \<notin> set (view line)"
    unfolding assms(4) using join_last [of "map csv_text ss"] assms(1) by auto
  then have "strip_cr line = line" by (metis last_in_set strip_cr_def)
  with csv_loop_join [OF assms(1,3,4), of 0] assms(2) show ?thesis by (simp add: csv_parse_def)
qed

theorem csv_roundtrip_witness:
  "\<forall>J. texts (snd (parseKeyValue J CSV \<lparr>pin = [quote, CHR ''a'', quote, quote, CHR '','', quote, CHR '','', CHR ''b''], pin_size = 8\<rparr>)) =
    [(''anon1'', Some [CHR ''a'', quote, CHR '','']), (''anon2'', Some ''b'')]"
proof
  fix J
  let ?l = "\<lparr>pin = [quote, CHR ''a'', quote, quote, CHR '','', quote, CHR '','', CHR ''b''], pin_size = 8\<rparr>"
  have names: "AnonColumnNames = ''anon1'' # ''anon2'' # drop 2 AnonColumnNames"
    by code_simp
  have names2: "zip AnonColumnNames [a, b] = [(''anon1'', a), (''anon2'', b)]" for a b :: "string option"
    by (subst names) simp
  show "texts (snd (parseKeyValue J CSV ?l)) = [(''anon1'', Some [CHR ''a'', quote, CHR '','']), (''anon2'', Some ''b'')]"
    using csv_roundtrip [of "[[CHR ''a'', quote, CHR '',''], ''b'']" ?l J]
    by (simp add: csv_text_def has_line_break_def names2)
qed

end
