(* ===== verification/Log_Op.thy ===== *)
theory Log_Op
  imports Log_Formats Time_Search Phys_Stream IR
begin

text \<open>
  src/back/exec/phys/log/log.cpp and ops/Log.h: opening a log and pushing its lines as records. Files,
  archives and commands are an environment. The lemmas: a file opened with a range of times has just
  the lines of the range, and Log pushes one record for each well-formed line, with the columns it was
  asked for, and then the end of the stream.
\<close>

section \<open>archive.cpp, log.cpp\<close>

definition ends_with :: "string \<Rightarrow> string \<Rightarrow> bool" where
  "ends_with s p = (length p \<le> length s \<and> drop (length s - length p) s = p)"

definition isProbablyArchive :: "string \<Rightarrow> bool" where
  "isProbablyArchive path = list_ex (ends_with path) [''.gz'', ''.gzip'']"

text \<open>What is outside: the content of the files there are, the chunks an archive reader gives for one,
  the chunks of the output of a command, the page size and the buffer size of the search, and the
  libraries of time stamps.\<close>

record storage =
  files :: "string \<Rightarrow> string option"
  unpacked :: "string \<Rightarrow> string list"
  outputs :: "string \<Rightarrow> string list"
  page_bytes :: nat
  search_buffer :: nat
  stamp_of :: "TimeFormat \<Rightarrow> string \<Rightarrow> i64 res"
  json_lib :: jsonl_lib

record LogFile =
  log_lines :: "Line list"
  log_type :: "LogType option"

fun detect_source :: "jsonl_lib \<Rightarrow> Line list \<Rightarrow> LogType option" where
  "detect_source J [] = None"
| "detect_source J (l # ls) = (case detectLogType J l of Some t \<Rightarrow> Some t | None \<Rightarrow> detect_source J ls)"

definition getFileSourceWhole :: "storage \<Rightarrow> string \<Rightarrow> LogFile res option" where
  "getFileSourceWhole E path = (case files E path of
     None \<Rightarrow> Some (Inl Thrown)
   | Some F \<Rightarrow> map_option (\<lambda>r. rbind r (\<lambda>ls. Inr \<lparr>log_lines = ls, log_type = detect_source (json_lib E) ls\<rparr>))
       (if isProbablyArchive path then Some (Inr (stream_lines (unpacked E path) None []))
        else paged_lines F (page_bytes E) 0 (length F)))"

text \<open>The positions of a range; an empty one when a bound is missing or they cross.\<close>

definition source_range :: "storage \<Rightarrow> string \<Rightarrow> TimeRange \<Rightarrow> TimeFormat \<Rightarrow> (nat \<times> nat) res option" where
  "source_range E F r f =
     Option.bind (lowerBoundLine F (search_buffer E) (stamp_of E f) (range_from r)) (\<lambda>b.
     Option.bind (upperBoundLine F (search_buffer E) (stamp_of E f) (range_to r)) (\<lambda>e.
       Some (rbind b (\<lambda>from_pos. rbind e (\<lambda>to_pos. Inr (case from_pos of
         None \<Rightarrow> (0, 0)
       | Some p \<Rightarrow> if to_pos \<le> p then (0, 0) else (p, to_pos)))))))"

definition getFileSourceRange :: "storage \<Rightarrow> string \<Rightarrow> TimeRange \<Rightarrow> TimeFormat option \<Rightarrow> LogFile res option" where
  "getFileSourceRange E path r time_format =
     (if isProbablyArchive path then Some (Inl Thrown)
      else case files E path of
        None \<Rightarrow> Some (Inl Thrown)
      | Some F \<Rightarrow> Option.bind (paged_lines F (page_bytes E) 0 (length F)) (\<lambda>whole. case whole of
          Inl f \<Rightarrow> Some (Inl f)
        | Inr ls \<Rightarrow>
            let type = detect_source (json_lib E) ls in
            (case (case time_format of Some f \<Rightarrow> Some f | None \<Rightarrow> Option.bind type timeFormat) of
              None \<Rightarrow> Some (Inl Thrown)
            | Some f \<Rightarrow> Option.bind (source_range E F r f) (\<lambda>pos. case pos of
                Inl x \<Rightarrow> Some (Inl x)
              | Inr (b, e) \<Rightarrow> map_option (\<lambda>q. rbind q (\<lambda>ls. Inr \<lparr>log_lines = ls, log_type = type\<rparr>))
                  (paged_lines F (page_bytes E) b e)))))"

definition open_file :: "storage \<Rightarrow> string \<Rightarrow> TimeRange option \<Rightarrow> TimeFormat option \<Rightarrow> LogFile res option" where
  "open_file E path time_range time_format = (case time_range of
     Some r \<Rightarrow> getFileSourceRange E path r time_format
   | None \<Rightarrow> getFileSourceWhole E path)"

definition open_stream :: "storage \<Rightarrow> string \<Rightarrow> LogFile res option" where
  "open_stream E command = Some (Inr \<lparr>log_lines = stream_lines (outputs E command) None [], log_type = None\<rparr>)"

section \<open>Log.h\<close>

type_synonym cols = "(string \<times> nat) list"

definition LineIdentifier :: string where
  "LineIdentifier = ''_line''"

text \<open>A view no longer than the small string buffer (15 characters) is copied, a longer one pins the line.\<close>

fun field_value :: "log_field \<Rightarrow> Value" where
  "field_value (Field_View v) = (if length (view v) \<le> 15 then VString (view v) else VPinned v)"
| "field_value (Field_String s) = VString s"
| "field_value Field_Null = VNull"

definition insert_field :: "cols \<Rightarrow> string \<times> log_field \<Rightarrow> Value list \<Rightarrow> Value list" where
  "insert_field cols p values = (case map_of cols (fst p) of
     None \<Rightarrow> values
   | Some s \<Rightarrow> values[s := field_value (snd p)])"

text \<open>One line: the log type, detected by now, and the record, if it is well formed.\<close>

definition log_line :: "jsonl_lib \<Rightarrow> cols \<Rightarrow> nat \<Rightarrow> LogType option \<Rightarrow> Line \<Rightarrow> (LogType option \<times> Record option) res" where
  "log_line J cols num_slots ty line =
     (let blank = replicate num_slots vnull; has_line = map_of cols LineIdentifier \<noteq> None;
          whole = (LineIdentifier, Field_View line) in
      if has_line \<and> length cols = 1 then Inr (ty, Some (VecRecord (insert_field cols whole blank)))
      else case (case ty of Some t \<Rightarrow> Some t | None \<Rightarrow> detectLogType J line) of
        None \<Rightarrow> Inl Thrown
      | Some t \<Rightarrow> (case parseKeyValue J t line of (parsed, fs) \<Rightarrow>
          let values = fold (insert_field cols) fs blank in
          if \<not> parsed then Inr (Some t, None)
          else Inr (Some t, Some (VecRecord (if has_line then insert_field cols whole values else values)))))"

fun log_loop :: "jsonl_lib \<Rightarrow> 'o consumer \<Rightarrow> cols \<Rightarrow> nat \<Rightarrow> LogType option \<Rightarrow> Line list \<Rightarrow> 'o \<Rightarrow> 'o res" where
  "log_loop J emit cols num_slots ty [] d = rbind (emit d None) (\<lambda>(b, d'). Inr d')"
| "log_loop J emit cols num_slots ty (l # ls) d =
     (if cols = [] then
        rbind (emit d (Some EmptyRecord)) (\<lambda>(b, d'). if \<not> b then Inr d' else log_loop J emit cols num_slots ty ls d')
      else rbind (log_line J cols num_slots ty l) (\<lambda>(ty', r). case r of
        None \<Rightarrow> log_loop J emit cols num_slots ty' ls d
      | Some record \<Rightarrow> rbind (emit d (Some record)) (\<lambda>(b, d').
          if \<not> b then Inr d' else log_loop J emit cols num_slots ty' ls d')))"

definition log_push :: "jsonl_lib \<Rightarrow> 'o consumer \<Rightarrow> ('o \<Rightarrow> bool) \<Rightarrow> cols \<Rightarrow> nat \<Rightarrow> LogFile \<Rightarrow> 'o \<Rightarrow> 'o res" where
  "log_push J emit active cols num_slots file d =
     verify (active d) (log_loop J emit cols num_slots (log_type file) (log_lines file) d)"

section \<open>The rows of a log\<close>

text \<open>The row of a line of a known format: a column has the last field of its name, \<open>_line\<close> the line.\<close>

definition column_value :: "(string \<times> log_field) list \<Rightarrow> string \<Rightarrow> Value" where
  "column_value fs name = (case map_of (rev fs) name of None \<Rightarrow> VNull | Some f \<Rightarrow> field_value f)"

definition line_record :: "jsonl_lib \<Rightarrow> cols \<Rightarrow> nat \<Rightarrow> LogType \<Rightarrow> Line \<Rightarrow> Record option" where
  "line_record J cols n t line =
     (if cols = [] then Some EmptyRecord
      else case log_line J cols n (Some t) line of Inl f \<Rightarrow> None | Inr (ty, r) \<Rightarrow> r)"

lemma log_line_known: "\<exists>r. log_line J cols n (Some t) line = Inr (Some t, r)"
  by (auto simp: log_line_def Let_def split: prod.splits)

context emitter
begin

lemma log_loop_drive:
  "live d \<Longrightarrow> log_loop J out cols n (Some t) ls d = drive out d (stream (List.map_filter (line_record J cols n t) ls))"
proof (induction ls arbitrary: d)
  case Nil
  show ?case using drive_None [of d "[]"] by (simp add: List.map_filter_simps del: drive.simps)
next
  case (Cons l ls)
  have emit: "rbind (out d (Some r)) (\<lambda>(b, d'). if \<not> b then Inr d' else log_loop J out cols n (Some t) ls d') =
      drive out d (Some r # stream (List.map_filter (line_record J cols n t) ls))" for r
    using Cons.IH by (cases "out d (Some r)") (auto dest: out_live)
  obtain r where r: "log_line J cols n (Some t) l = Inr (Some t, r)" using log_line_known by blast
  show ?case
  proof (cases "cols = []")
    case True
    then have e: "line_record J cols n t l = Some EmptyRecord" by (simp add: line_record_def)
    show ?thesis
      unfolding log_loop.simps(2) if_P [OF True] List.map_filter_simps e using emit [of EmptyRecord] by (simp del: drive.simps)
  next
    case False
    then have e: "line_record J cols n t l = r" using r by (simp add: line_record_def)
    show ?thesis using r emit Cons False by (cases r) (simp_all add: e List.map_filter_simps del: drive.simps)
  qed
qed

end

lemma insert_field_length [simp]: "length (insert_field cols p vs) = length vs"
  by (simp add: insert_field_def split: option.splits)

lemma fold_insert_length [simp]: "length (fold (insert_field cols) fs vs) = length vs"
  by (induction fs arbitrary: vs) simp_all

text \<open>Columns have cols of their own.\<close>

definition slots_ok :: "cols \<Rightarrow> nat \<Rightarrow> bool" where
  "slots_ok cols n \<longleftrightarrow> distinct (map fst cols) \<and> distinct (map snd cols) \<and> (\<forall>(c, i) \<in> set cols. i < n)"

lemma slots_inj: "slots_ok cols n \<Longrightarrow> (c, i) \<in> set cols \<Longrightarrow> (c', i) \<in> set cols \<Longrightarrow> c = c'"
  unfolding slots_ok_def distinct_map by (metis inj_onD prod.inject snd_conv)

lemma insert_field_column:
  assumes ok: "slots_ok cols n" and c: "(c, i) \<in> set cols" and len: "length vs = n"
  shows "insert_field cols (k, f) vs ! i = (if k = c then field_value f else vs ! i)"
proof -
  have i: "i < n" "distinct (map fst cols)" using ok c by (auto simp: slots_ok_def)
  with c have m: "map_of cols c = Some i" by simp
  show ?thesis
  proof (cases "map_of cols k")
    case None
    with m have "k \<noteq> c" by auto
    with None show ?thesis by (simp add: insert_field_def)
  next
    case (Some j)
    have neq: "k \<noteq> c \<Longrightarrow> j \<noteq> i" using slots_inj [OF ok c] map_of_SomeD [OF Some] by auto
    show ?thesis
    proof (cases "k = c")
      case True
      with Some m i len show ?thesis by (simp add: insert_field_def)
    next
      case False
      with Some neq show ?thesis by (simp add: insert_field_def)
    qed
  qed
qed

lemma fold_insert_column:
  assumes "slots_ok cols n" "(c, i) \<in> set cols"
  shows "length vs = n \<Longrightarrow> fold (insert_field cols) fs vs ! i =
    (case map_of (rev fs) c of None \<Rightarrow> vs ! i | Some f \<Rightarrow> field_value f)"
proof (induction fs arbitrary: vs)
  case (Cons p fs)
  obtain k f where p: "p = (k, f)" by (cases p)
  show ?case
    using Cons.IH [of "insert_field cols p vs"] Cons.prems insert_field_column [OF assms, of vs k f]
    by (auto simp: p map_add_def split: option.splits)
qed simp

lemma line_record_columns:
  assumes ok: "slots_ok cols n" and c: "(c, i) \<in> set cols" and p: "parseKeyValue J t line = (True, fs)"
  shows "\<exists>vs. line_record J cols n t line = Some (VecRecord vs) \<and> length vs = n \<and>
    vs ! i = (if c = LineIdentifier then field_value (Field_View line) else column_value fs c)"
proof -
  let ?blank = "replicate n vnull"
  have i: "i < n" and ne: "cols \<noteq> []" using ok c by (auto simp: slots_ok_def)
  have col: "fold (insert_field cols) fs ?blank ! i = column_value fs c"
    using fold_insert_column [OF ok c, of ?blank fs] i by (simp add: column_value_def split: option.splits)
  have key: "map_of cols LineIdentifier \<noteq> None \<longleftrightarrow> LineIdentifier \<in> fst ` set cols" by (simp add: map_of_eq_None_iff)
  show ?thesis
  proof (cases "map_of cols LineIdentifier \<noteq> None")
    case True
    show ?thesis
    proof (cases "length cols = 1")
      case one: True
      then have "cols = [(c, i)]" using c by (cases cols) auto
      with True have "c = LineIdentifier" by (auto split: if_splits)
      with one True ne show ?thesis
        using insert_field_column [OF ok c, of ?blank LineIdentifier "Field_View line"]
        by (simp add: line_record_def log_line_def)
    next
      case False
      with True p ne show ?thesis
        using insert_field_column [OF ok c, of "fold (insert_field cols) fs ?blank" LineIdentifier "Field_View line"] col
        by (auto simp: line_record_def log_line_def)
    qed
  next
    case False
    then have "c \<noteq> LineIdentifier" using c unfolding key by force
    with False p ne col show ?thesis by (simp add: line_record_def log_line_def)
  qed
qed

section \<open>Opening a range\<close>

lemma open_range_spec:
  assumes E: "0 < page_bytes E" "0 < search_buffer E" "\<not> isProbablyArchive path" "files E path = Some F"
    and st: "stamped F (stamp_of E f) \<tau>" and ord: "in_order_of_time F \<tau>"
  shows "\<exists>file. open_file E path (Some r) (Some f) = Some (Inr file) \<and>
    map view (log_lines file) = filter (in_range (stamp_of E f) (range_from r) (range_to r)) (full_lines F)"
proof -
  have size: "line_end F (length F)" by (simp add: line_end_def)
  obtain whole where whole: "paged_lines F (page_bytes E) 0 (length F) = Some (Inr whole)"
    using paged_lines_spec [OF E(1) size] by blast
  from lowerBoundLine_spec [OF E(2) st ord] obtain rb where
    rb: "lowerBoundLine F (search_buffer E) (stamp_of E f) (range_from r) = Some (Inr rb)"
      "first_line F (\<lambda>p. sint (range_from r) \<le> sint (\<tau> p)) rb" .
  from upperBoundLine_spec [OF E(2) st ord] obtain re where
    re: "upperBoundLine F (search_buffer E) (stamp_of E f) (range_to r) = Some (Inr (case re of None \<Rightarrow> length F | Some q \<Rightarrow> q))"
      "first_line F (\<lambda>p. sint (range_to r) < sint (\<tau> p)) re" .
  define e where "e = (case re of None \<Rightarrow> length F | Some q \<Rightarrow> q)"
  note lines = range_lines_spec [OF st ord rb(2) re(2), folded e_def]
  define pos where "pos = (case rb of None \<Rightarrow> (0, 0) | Some p \<Rightarrow> if e \<le> p then (0, 0) else (p, e))"
  have pos: "source_range E F r f = Some (Inr pos)"
    using rb(1) re(1) by (simp add: source_range_def pos_def e_def split: option.splits)
  have e: "line_end F e"
    using re(2) by (auto simp: e_def line_end_def first_line_def is_start_def split: option.splits)
  have "\<exists>ls. paged_lines F (page_bytes E) (fst pos) (snd pos) = Some (Inr ls) \<and>
      map view ls = filter (in_range (stamp_of E f) (range_from r) (range_to r)) (full_lines F)"
  proof (cases rb)
    case None
    with lines show ?thesis by (simp add: pos_def paged_lines_def)
  next
    case (Some p)
    show ?thesis
    proof (cases "e \<le> p")
      case True
      with Some lines show ?thesis by (simp add: pos_def paged_lines_def)
    next
      case False
      with Some lines paged_lines_spec [OF E(1) e, of p] show ?thesis by (simp add: pos_def)
    qed
  qed
  with pos whole E show ?thesis
    by (cases pos) (auto simp: open_file_def getFileSourceRange_def Let_def)
qed

section \<open>Properties\<close>

text \<open>C23: a file opened with a range of times gives exactly its lines in the range, in order, when its
  lines all have times that do not go back: the two binary searches and the scan of the pages together
  are a filter over the lines.\<close>

theorem open_range_correct:
  assumes "0 < page_bytes E" and "0 < search_buffer E" and "\<not> isProbablyArchive path" and "files E path = Some F"
    and "stamped F (stamp_of E f) \<tau>" and "in_order_of_time F \<tau>"
  shows "\<exists>file. open_file E path (Some r) (Some f) = Some (Inr file) \<and>
    map view (log_lines file) = filter (in_range (stamp_of E f) (range_from r) (range_to r)) (full_lines F)"
  by (rule open_range_spec [OF assms])

theorem open_range_correct_witness:
  "\<forall>J. \<exists>file. open_file \<lparr>files = (\<lambda>p. Some [CHR ''1'', newline, CHR ''2'', newline]), unpacked = (\<lambda>p. []), outputs = (\<lambda>c. []),
       page_bytes = 2, search_buffer = 3, stamp_of = (\<lambda>f l. Inr (word_of_nat (digits_val l))), json_lib = J\<rparr>
     ''a'' (Some \<lparr>range_from = 2, range_to = 5\<rparr>) (Some SQL) = Some (Inr file) \<and> map view (log_lines file) = [''2'']"
proof
  fix J
  let ?F = "[CHR ''1'', newline, CHR ''2'', newline]" and ?t = "\<lambda>p. if p = (0 :: nat) then 1 else 2 :: i64"
  let ?E = "\<lparr>files = (\<lambda>p. Some ?F), unpacked = (\<lambda>p. []), outputs = (\<lambda>c. []),
       page_bytes = 2, search_buffer = 3, stamp_of = (\<lambda>f l. Inr (word_of_nat (digits_val l))), json_lib = J\<rparr>"
  have starts: "is_start ?F p \<longleftrightarrow> p = 0 \<or> p = 2" for p
  proof
    assume p: "is_start ?F p"
    then have "p < 4" by (simp add: is_start_def)
    then consider "p = 0" | "p = 1" | "p = 2" | "p = 3" by linarith
    then show "p = 0 \<or> p = 2" using p by cases (auto simp: is_start_def)
  qed (auto simp: is_start_def)
  have st: "stamped ?F (stamp_of ?E SQL) ?t"
    unfolding stamped_def starts by (auto simp: text_at_def digits_val_def digit_val_def)
  have o: "in_order_of_time ?F ?t" unfolding in_order_of_time_def starts by auto
  have "full_lines ?F = [''1'', ''2'']" by (simp add: full_lines_Some)
  then show "\<exists>file. open_file ?E ''a'' (Some \<lparr>range_from = 2, range_to = 5\<rparr>) (Some SQL) = Some (Inr file) \<and>
      map view (log_lines file) = [''2'']"
    using open_range_correct [of ?E "''a''" ?F, OF _ _ _ _ st o, of "\<lparr>range_from = 2, range_to = 5\<rparr>"]
    by (simp add: isProbablyArchive_def ends_with_def in_range_def digits_val_def digit_val_def)
qed



end
