(* ===== verification/Exec_Aggregates.thy ===== *)
theory Exec_Aggregates
  imports Rel_Semantics
begin

text \<open>
  src/back/exec/expr: the executable aggregates and their aggregators, and the aggregate part of
  src/back/exec/plan/plan.cpp. A record shows a row of a relation when it has, in the slots of the
  schema, the values of the fields that are required of it. The lemmas: aggregators that are fed
  records that show some rows have the values the IR aggregates have on the rows.
\<close>

section \<open>Aggregate.h, NullaryFnAggregate.h, UnaryFnAggregate.h, ConstAggregate.h\<close>

datatype exec_aggregate =
    NullaryFnAggregate ValueType Aggregator
  | UnaryFnAggregate ValueType Aggregator exec_scalar
  | ExecConstAggregate Value bool

datatype exec_aggregator =
    NullaryAggr Aggregator
  | UnaryAggr exec_scalar Aggregator
  | ConstAggr Value bool "32 word"

fun aggregator :: "exec_aggregate \<Rightarrow> exec_aggregator" where
  "aggregator (NullaryFnAggregate t a) = NullaryAggr a"
| "aggregator (UnaryFnAggregate t a e) = UnaryAggr e a"
| "aggregator (ExecConstAggregate v null_if_empty) = ConstAggr v null_if_empty 0"

fun aggregate_fields :: "exec_aggregate \<Rightarrow> FieldSet" where
  "aggregate_fields (NullaryFnAggregate t a) = {}"
| "aggregate_fields (UnaryFnAggregate t a e) = requiredFields e"
| "aggregate_fields (ExecConstAggregate v null_if_empty) = {}"

text \<open>The count of a constant aggregate is an \<open>int\<close>.\<close>

fun aggr_feed :: "exec_aggregator \<Rightarrow> ScalarContext \<Rightarrow> Record \<Rightarrow> (exec_aggregator \<times> ScalarContext) res" where
  "aggr_feed (NullaryAggr a) c r = rbind (feed_nullary a) (\<lambda>a'. Inr (NullaryAggr a', c))"
| "aggr_feed (UnaryAggr e a) c r =
     rbind (eval e c r) (\<lambda>(v, c'). rbind (feed a v) (\<lambda>a'. Inr (UnaryAggr e a', c')))"
| "aggr_feed (ConstAggr v null_if_empty n) c r =
     (if sint n + 1 < 2 ^ 31 then Inr (ConstAggr v null_if_empty (n + 1), c) else Inl Undefined)"

fun aggr_get :: "exec_aggregator \<Rightarrow> Value res" where
  "aggr_get (NullaryAggr a) = get a"
| "aggr_get (UnaryAggr e a) = get a"
| "aggr_get (ConstAggr v null_if_empty n) = Inr (if null_if_empty \<and> n = 0 then vnull else v)"

section \<open>plan.cpp: planning aggregates\<close>

fun build_aggregate :: "ValueType \<Rightarrow> aggregate \<Rightarrow> exec_scalar list \<Rightarrow> exec_aggregate res" where
  "build_aggregate t (NullaryAggregate a) es = verify (es = []) (Inr (NullaryFnAggregate t a))"
| "build_aggregate t (UnaryAggregate a) es = verify (length es = 1) (Inr (UnaryFnAggregate t a (es ! 0)))"

definition planAggregate ::
  "ext \<Rightarrow> Schema \<Rightarrow> ScalarScope option \<Rightarrow> Aggregate \<Rightarrow> ((FieldId \<times> exec_aggregate) \<times> ScalarScope option) res" where
  "planAggregate X sch sc a = (case agg_node a of
     FnCallAggregate f as \<Rightarrow> rbind (expressionList X sch sc as) (\<lambda>(es, sc').
       rbind (buildAggregate f) (\<lambda>g. rbind (build_aggregate (agg_type a) g es) (\<lambda>e. Inr ((output_field_id a, e), sc'))))
   | ConstAggregate v null_if_empty \<Rightarrow> Inr ((output_field_id a, ExecConstAggregate v null_if_empty), sc))"

fun aggregatesList ::
  "ext \<Rightarrow> Schema \<Rightarrow> ScalarScope option \<Rightarrow> Aggregate list \<Rightarrow> ((FieldId \<times> exec_aggregate) list \<times> ScalarScope option) res" where
  "aggregatesList X sch sc [] = Inr ([], sc)"
| "aggregatesList X sch sc (a # as) = rbind (planAggregate X sch sc a) (\<lambda>(p, sc').
     rbind (aggregatesList X sch sc' as) (\<lambda>(ps, sc''). Inr (p # ps, sc'')))"

section \<open>Records that show rows\<close>

definition rec_env :: "Schema \<Rightarrow> Record \<Rightarrow> FieldId \<Rightarrow> Value res" where
  "rec_env sch r i = (case slot sch i of None \<Rightarrow> Inl Panic | Some k \<Rightarrow> rec_value r k)"

definition shows_row :: "Schema \<Rightarrow> FieldSet \<Rightarrow> Record \<Rightarrow> row \<Rightarrow> bool" where
  "shows_row sch F r row \<longleftrightarrow> (\<forall>i \<in> F. \<exists>k v. slot sch i = Some k \<and> rec_value r k = Inr v \<and> row i = Some v)"

lemma shows_row_subset: "shows_row sch F r row \<Longrightarrow> G \<subseteq> F \<Longrightarrow> shows_row sch G r row"
  by (auto simp: shows_row_def)

lemma shows_row_env: "shows_row sch F r row \<Longrightarrow> i \<in> F \<Longrightarrow> rec_env sch r i = env_of row i"
  by (force simp: shows_row_def rec_env_def env_of_def)

lemma shows_row_eval:
  assumes "shows_row sch F r row" "scalar_fields s \<subseteq> F"
  shows "ir_eval X (rec_env sch r) s = row_eval (buildScalar X) s row"
  unfolding row_eval_def by (rule ir_eval_cong) (use assms shows_row_env in blast)

text \<open>A planned expression evaluates to the value of the row.\<close>

lemma shown_eval:
  assumes "shows_row sch F r row" "scalar_fields s \<subseteq> F" "planned X sch S s e" "ctx_ok X (rec_env sch r) S c"
  shows "agrees (ctx_ok X (rec_env sch r) S) (row_eval (buildScalar X) s row) (eval e c r)"
  using eval_planned [of sch "rec_env sch r" r, OF _ assms(3,4)] shows_row_eval [OF assms(1,2), of X]
  by (simp add: rec_env_def)

lemma ctx_ok_again: "ctx_ok X env F c \<Longrightarrow> ctx_ok X env' F (reset c)"
  by (fastforce simp: ctx_ok_def reset_def)

section \<open>Aggregators fed the records of some rows\<close>

lemma feed_times_Suc: "feed_times (Suc n) a = rbind (feed_times n a) feed_nullary"
proof (induction n arbitrary: a)
  case 0
  show ?case by (cases "feed_nullary a") simp_all
next
  case (Suc n)
  have "feed_times (Suc (Suc n)) a = rbind (feed_nullary a) (\<lambda>b. rbind (feed_times n b) feed_nullary)"
    unfolding feed_times.simps(2) [of "Suc n"] by (rule rbind_cong [OF refl]) (rule Suc.IH)
  then show ?case by (simp add: rbind_assoc)
qed

text \<open>The aggregates can be fed these rows.\<close>

fun feedable :: "build \<Rightarrow> AggregateNode \<Rightarrow> row list \<Rightarrow> bool" where
  "feedable B (ConstAggregate v null_if_empty) rs = True"
| "feedable B (FnCallAggregate f as) rs = (case buildAggregate f of
     Inl _ \<Rightarrow> False
   | Inr (NullaryAggregate a) \<Rightarrow> (\<exists>b. feed_times (length rs) a = Inr b)
   | Inr (UnaryAggregate a) \<Rightarrow> (\<exists>vs b. rmap (row_eval B (as ! 0)) rs = Inr vs \<and> feed_all a vs = Inr b))"

lemma feedable_prefix: "feedable B n (rs @ qs) \<Longrightarrow> feedable B n rs"
proof (induction qs rule: rev_induct)
  case (snoc q qs)
  have "feedable B n (rs @ qs)"
  proof (cases n)
    case (FnCallAggregate f as)
    with snoc.prems show ?thesis
      by (auto simp: rmap_append feed_all_append feed_times_Suc split: sum.splits aggregate.splits simp del: feed_times.simps)
  qed simp
  then show ?case by (rule snoc.IH)
qed simp

lemma eval_feedable: "agg_node_eval B n rs = Inr v \<Longrightarrow> feedable B n rs"
  by (cases n) (auto split: aggregate.splits if_splits)

text \<open>The state of an aggregator of the aggregate after the rows.\<close>

fun agg_at :: "ext \<Rightarrow> Schema \<Rightarrow> (Scalar \<times> nat) set \<Rightarrow> row list \<Rightarrow> AggregateNode \<Rightarrow> exec_aggregator \<Rightarrow> bool" where
  "agg_at X sch S rs (ConstAggregate v null_if_empty) x = (x = ConstAggr v null_if_empty (word_of_nat (length rs)))"
| "agg_at X sch S rs (FnCallAggregate f as) x = (case buildAggregate f of
     Inl _ \<Rightarrow> False
   | Inr (NullaryAggregate a) \<Rightarrow> as = [] \<and> (\<exists>b. feed_times (length rs) a = Inr b \<and> x = NullaryAggr b)
   | Inr (UnaryAggregate a) \<Rightarrow> (\<exists>s e vs b. as = [s] \<and> planned X sch S s e \<and>
       rmap (row_eval (buildScalar X) s) rs = Inr vs \<and> feed_all a vs = Inr b \<and> x = UnaryAggr e b))"

fun node_fields :: "AggregateNode \<Rightarrow> FieldSet" where
  "node_fields (ConstAggregate v null_if_empty) = {}"
| "node_fields (FnCallAggregate f as) = \<Union> (set (map scalar_fields as))"

fun node_canon :: "AggregateNode \<Rightarrow> bool" where
  "node_canon (ConstAggregate v null_if_empty) = True"
| "node_canon (FnCallAggregate f as) = list_all scalar_canon as"

lemma planAggregate_start:
  assumes "planAggregate X sch sc a = Inr ((i, e), sc')" "scope_ok sc" "node_canon (agg_node a)"
  shows "i = output_field_id a \<and> scope_ok sc' \<and> scope_set sc \<subseteq> scope_set sc' \<and>
    (scope_set sc' \<subseteq> S \<longrightarrow> agg_at X sch S [] (agg_node a) (aggregator e))"
proof (cases "agg_node a")
  case (ConstAggregate v b)
  with assms show ?thesis by (auto simp: planAggregate_def)
next
  case (FnCallAggregate f as)
  with assms obtain es g where es: "expressionList X sch sc as = Inr (es, sc')" and g: "buildAggregate f = Inr g"
    and e: "build_aggregate (agg_type a) g es = Inr e" and i: "i = output_field_id a"
    by (auto simp: planAggregate_def)
  from planScalar_planned(2) [OF es assms(2)] assms(3) FnCallAggregate
  have p: "scope_ok sc'" "scope_set sc \<subseteq> scope_set sc'" "list_all2 (planned X sch (scope_set sc')) as es" by auto
  have "agg_at X sch S [] (agg_node a) (aggregator e)" if S: "scope_set sc' \<subseteq> S"
  proof (cases g)
    case (NullaryAggregate b)
    with e p(3) show ?thesis by (auto simp: FnCallAggregate g split: if_splits)
  next
    case (UnaryAggregate b)
    with e obtain x where es: "es = [x]" and x: "e = UnaryFnAggregate (agg_type a) b x"
      by (cases es) (auto split: if_splits)
    from es p(3) obtain s where "as = [s]" "planned X sch (scope_set sc') s x" by (auto simp: list_all2_Cons2)
    with planned_mono [OF _ S] x UnaryAggregate show ?thesis by (auto simp: FnCallAggregate g)
  qed
  with p i show ?thesis by blast
qed

lemma aggregatesList_start:
  "aggregatesList X sch sc as = Inr (ps, sc') \<Longrightarrow> scope_ok sc \<Longrightarrow> \<forall>a \<in> set as. node_canon (agg_node a) \<Longrightarrow>
     map fst ps = map output_field_id as \<and> scope_ok sc' \<and> scope_set sc \<subseteq> scope_set sc' \<and>
     (scope_set sc' \<subseteq> S \<longrightarrow> list_all2 (\<lambda>a p. agg_at X sch S [] (agg_node a) (aggregator (snd p))) as ps)"
proof (induction as arbitrary: sc ps)
  case (Cons a as)
  then obtain i e sc1 qs where a: "planAggregate X sch sc a = Inr ((i, e), sc1)"
    and qs: "aggregatesList X sch sc1 as = Inr (qs, sc')" and ps: "ps = (i, e) # qs"
    by auto
  from Cons.prems have canon: "node_canon (agg_node a)" by simp
  from planAggregate_start [OF a Cons.prems(2) canon, of S] have *: "i = output_field_id a" "scope_ok sc1"
    "scope_set sc \<subseteq> scope_set sc1" "scope_set sc1 \<subseteq> S \<longrightarrow> agg_at X sch S [] (agg_node a) (aggregator e)" by auto
  from Cons.IH [OF qs *(2)] Cons.prems(3) have "map fst qs = map output_field_id as \<and> scope_ok sc' \<and>
      scope_set sc1 \<subseteq> scope_set sc' \<and>
      (scope_set sc' \<subseteq> S \<longrightarrow> list_all2 (\<lambda>a p. agg_at X sch S [] (agg_node a) (aggregator (snd p))) as qs)" by simp
  with * ps show ?case by auto
qed simp

lemma agg_at_feed:
  assumes "agg_at X sch S rs n x" "feedable (buildScalar X) n (rs @ [row])" "length rs + 1 < 2 ^ 31"
    and "shows_row sch F r row" "node_fields n \<subseteq> F" "ctx_ok X (rec_env sch r) S c"
  shows "\<exists>y c'. aggr_feed x c r = Inr (y, c') \<and> agg_at X sch S (rs @ [row]) n y \<and> ctx_ok X (rec_env sch r) S c'"
proof (cases n)
  case (ConstAggregate v b)
  have "sint (word_of_nat (length rs) :: 32 word) = int (length rs)"
    using assms(3) by (simp add: signed_of_nat signed_take_bit_int_eq_self)
  with assms show ?thesis by (auto simp: ConstAggregate add.commute)
next
  case (FnCallAggregate f as)
  with assms(1) obtain g where g: "buildAggregate f = Inr g" by (auto split: sum.splits)
  show ?thesis
  proof (cases g)
    case (NullaryAggregate a)
    with assms FnCallAggregate g show ?thesis by (auto simp: feed_times_Suc simp del: feed_times.simps)
  next
    case (UnaryAggregate a)
    with assms(1) FnCallAggregate g obtain s e vs b where s: "as = [s]" "planned X sch S s e"
      "rmap (row_eval (buildScalar X) s) rs = Inr vs" "feed_all a vs = Inr b" and x: "x = UnaryAggr e b" by auto
    from assms(2) FnCallAggregate g UnaryAggregate s obtain v b' where
      v: "row_eval (buildScalar X) s row = Inr v" "feed b v = Inr b'"
      by (auto simp: rmap_append feed_all_append)
    from assms(5) FnCallAggregate s have "scalar_fields s \<subseteq> F" by simp
    from shown_eval [OF assms(4) this s(2) assms(6)] v obtain c' where
      "eval e c r = Inr (v, c')" "ctx_ok X (rec_env sch r) S c'" by auto
    with v s x show ?thesis by (auto simp: FnCallAggregate g UnaryAggregate rmap_append feed_all_append)
  qed
qed

lemma agg_at_get:
  assumes "agg_at X sch S rs n x" "length rs < 2 ^ 31"
  shows "agg_node_eval (buildScalar X) n rs = aggr_get x"
proof (cases n)
  case (ConstAggregate v b)
  have "(word_of_nat (length rs) :: 32 word) = 0 \<longleftrightarrow> rs = []"
  proof
    assume z: "(word_of_nat (length rs) :: 32 word) = 0"
    have "unat (word_of_nat (length rs) :: 32 word) = length rs"
      using assms(2) by (simp add: unsigned_of_nat take_bit_nat_eq_self)
    with z show "rs = []" by simp
  qed simp
  with assms show ?thesis by (auto simp: ConstAggregate)
next
  case (FnCallAggregate f as)
  with assms show ?thesis by (auto split: sum.splits aggregate.splits)
qed

end
