(* ===== verification/Phys_Group.thy ===== *)
theory Phys_Group
  imports Exec_Aggregates
begin

text \<open>
  src/back/exec/phys/ops: Aggregate.h, Group.h and Materialize.h. The lemmas: fed the records of a
  stream, each emits what the relation it stands for promises of the rows the records show.
\<close>

section \<open>Aggregate.h\<close>

fun feed_each :: "exec_aggregator list \<Rightarrow> ScalarContext \<Rightarrow> Record \<Rightarrow> (exec_aggregator list \<times> ScalarContext) res" where
  "feed_each [] c r = Inr ([], c)"
| "feed_each (x # xs) c r =
     rbind (aggr_feed x c r) (\<lambda>(y, c'). rbind (feed_each xs c' r) (\<lambda>(ys, c''). Inr (y # ys, c'')))"

text \<open>The collector's own state: the aggregators, and the values it shares with the emitters of later
  phases.\<close>

record aggregation =
  aggr_context :: ScalarContext
  aggregators :: "exec_aggregator list"
  aggr_values :: "Value list"

text \<open>Emit one record and then the end, while a subscriber is left.\<close>

definition emit_single :: "'o consumer \<Rightarrow> Record \<Rightarrow> 'o \<Rightarrow> 'o res" where
  "emit_single emit record d = rbind (emit d (Some record)) (\<lambda>(cont, d').
     if cont then rbind (emit d' None) (\<lambda>(b, d''). Inr d'') else Inr d')"

definition aggregate_consume :: "'o consumer \<Rightarrow> ('o \<Rightarrow> bool) \<Rightarrow> (aggregation \<times> 'o) consumer" where
  "aggregate_consume emit active s r = (case s of (st, d) \<Rightarrow> (case r of
     Some record \<Rightarrow> rbind (feed_each (aggregators st) (reset (aggr_context st)) record) (\<lambda>(xs, c).
       Inr (active d, (st\<lparr>aggregators := xs, aggr_context := c\<rparr>, d)))
   | None \<Rightarrow> rbind (rmap aggr_get (aggregators st)) (\<lambda>vs.
       let st' = st\<lparr>aggr_values := aggr_values st @ vs, aggregators := []\<rparr> in
       rbind (emit_single emit (AggregateState (aggr_values st')) d) (\<lambda>d'. Inr (False, (st', d'))))))"

definition aggregate_emitter_push :: "'o consumer \<Rightarrow> ('o \<Rightarrow> bool) \<Rightarrow> Value list \<Rightarrow> 'o \<Rightarrow> 'o res" where
  "aggregate_emitter_push emit active values d =
     (if active d then emit_single emit (AggregateState values) d else Inr d)"

section \<open>Group.h\<close>

text \<open>The map from keys to aggregators; an aggregate nobody asked for has no aggregator. The order in
  which an \<open>unordered_map\<close> gives its nodes is the parameter \<open>node_order\<close>.\<close>

type_synonym groups = "(Value list \<times> exec_aggregator option list) list"

fun group_find :: "(Value list \<times> 'a) list \<Rightarrow> Value list \<Rightarrow> 'a option" where
  "group_find [] k = None"
| "group_find ((j, x) # gs) k = (if key_eq j k then Some x else group_find gs k)"

fun group_set :: "(Value list \<times> 'a) list \<Rightarrow> Value list \<Rightarrow> 'a \<Rightarrow> (Value list \<times> 'a) list" where
  "group_set [] k x = [(k, x)]"
| "group_set ((j, y) # gs) k x = (if key_eq j k then (j, x) # gs else (j, y) # group_set gs k x)"

fun feed_present ::
  "exec_aggregator option list \<Rightarrow> ScalarContext \<Rightarrow> Record \<Rightarrow> (exec_aggregator option list \<times> ScalarContext) res" where
  "feed_present [] c r = Inr ([], c)"
| "feed_present (None # xs) c r = rbind (feed_present xs c r) (\<lambda>(ys, c'). Inr (None # ys, c'))"
| "feed_present (Some x # xs) c r =
     rbind (aggr_feed x c r) (\<lambda>(y, c'). rbind (feed_present xs c' r) (\<lambda>(ys, c''). Inr (Some y # ys, c'')))"

definition group_values :: "exec_aggregator option list \<Rightarrow> Value list res" where
  "group_values xs = rmap (\<lambda>x. case x of Some a \<Rightarrow> aggr_get a | None \<Rightarrow> Inr vnull) xs"

fun emit_groups :: "'o consumer \<Rightarrow> groups \<Rightarrow> 'o \<Rightarrow> (bool \<times> 'o) res" where
  "emit_groups emit [] d = emit d None"
| "emit_groups emit ((key, xs) # gs) d = rbind (group_values xs) (\<lambda>vs.
     rbind (emit d (Some (VecRecord (vs @ key)))) (\<lambda>(cont, d').
       if \<not> cont then Inr (False, d') else emit_groups emit gs d'))"

definition group_consume ::
  "'o consumer \<Rightarrow> ('o \<Rightarrow> bool) \<Rightarrow> (groups \<Rightarrow> groups) \<Rightarrow> exec_aggregate option list \<Rightarrow> exec_scalar list \<Rightarrow>
   ((ScalarContext \<times> groups) \<times> 'o) consumer" where
  "group_consume emit active node_order aggregates group_key s r = (case s of ((ctx, groups), d) \<Rightarrow> (case r of
     Some record \<Rightarrow> rbind (eval_list group_key (reset ctx) record) (\<lambda>(key, c1).
       let found = (case group_find groups key of None \<Rightarrow> [] | Some xs \<Rightarrow> xs);
           xs = (if found = [] then map (map_option aggregator) aggregates else found) in
       rbind (feed_present xs c1 record) (\<lambda>(ys, c2).
         if \<not> active d then Inr (False, ((c2, []), d)) else Inr (True, ((c2, group_set groups key ys), d))))
   | None \<Rightarrow> rbind (emit_groups emit (node_order groups) d) (\<lambda>(b, d'). Inr (b, ((ctx, []), d')))))"

section \<open>Materialize.h\<close>

definition materialize_consume :: "'o consumer \<Rightarrow> ('o \<Rightarrow> bool) \<Rightarrow> (Record list \<times> 'o) consumer" where
  "materialize_consume emit active s r = (case s of (records, d) \<Rightarrow>
     let records' = (case r of None \<Rightarrow> records | Some record \<Rightarrow> records @ [record]) in
     rbind (if active d then emit d r else Inr (False, d)) (\<lambda>(b, d'). Inr (r \<noteq> None, (records', d'))))"

fun materialize_loop :: "'o consumer \<Rightarrow> Record list \<Rightarrow> 'o \<Rightarrow> 'o res" where
  "materialize_loop emit [] d = rbind (emit d None) (\<lambda>(b, d'). Inr d')"
| "materialize_loop emit (record # records) d =
     rbind (emit d (Some record)) (\<lambda>(cont, d'). if \<not> cont then Inr d' else materialize_loop emit records d')"

section \<open>Materialize: the records are kept and passed on\<close>

context emitter
begin

lemma materialize_loop_drive: "live d \<Longrightarrow> materialize_loop out rs d = drive out d (stream rs)"
proof (induction rs arbitrary: d)
  case Nil
  then show ?case using drive_None [of d "[]"] by simp
next
  case (Cons r rs)
  show ?case
  proof (cases "out d (Some r)")
    case (Inr p)
    then obtain b d' where o': "out d (Some r) = Inr (b, d')" by (cases p) auto
    with out_live Cons.IH [of d'] show ?thesis by (cases "live d'") auto
  qed simp
qed

lemma materialize_drive:
  "drive (materialize_consume out live) (rs0, d) (stream rs) =
     rbind (drive out d (stream rs)) (\<lambda>d'. Inr (rs0 @ rs, d'))"
proof (induction rs arbitrary: rs0 d)
  case Nil
  have "drive out d [None] = rbind (if live d then out d None else Inr (False, d)) (\<lambda>(b, d'). Inr d')"
    using drive_None [of d "[]"] by (auto simp: out_dead)
  then show ?case
    by (simp add: materialize_consume_def Let_def rbind_assoc case_prod_unfold del: drive.simps(2))
      (simp add: case_prod_unfold rbind_assoc)
next
  case (Cons r rs)
  have step: "materialize_consume out live (rs0, d) (Some r) =
      rbind (drive out d [Some r]) (\<lambda>d'. Inr (True, (rs0 @ [r], d')))"
    by (cases "live d"; cases "out d (Some r)") (auto simp: materialize_consume_def Let_def out_dead)
  have split: "drive out d (stream (r # rs)) = rbind (drive out d [Some r]) (\<lambda>d'. drive out d' (stream rs))"
    using drive_out_append [of d "[Some r]" "stream rs"] by simp
  show ?case
    by (cases "drive out d [Some r]") (use Cons.IH step split in \<open>simp_all del: drive.simps(2) add: drive.simps(2) [of "materialize_consume out live"]\<close>)
qed

end

section \<open>Aggregate: the aggregates of the rows\<close>

abbreviation aggs_at ::
  "ext \<Rightarrow> Schema \<Rightarrow> (Scalar \<times> nat) set \<Rightarrow> row list \<Rightarrow> Aggregate list \<Rightarrow> exec_aggregator list \<Rightarrow> bool" where
  "aggs_at X sch S rows \<equiv> list_all2 (\<lambda>a. agg_at X sch S rows (agg_node a))"

definition aggs_fed :: "ext \<Rightarrow> FieldSet \<Rightarrow> Aggregate list \<Rightarrow> row list \<Rightarrow> bool" where
  "aggs_fed X F as rows \<longleftrightarrow> (\<forall>a \<in> set as. node_fields (agg_node a) \<subseteq> F \<and> feedable (buildScalar X) (agg_node a) rows) \<and>
     length rows < 2 ^ 31"

lemma aggs_fed_prefix: "aggs_fed X F as (rows @ rest) \<Longrightarrow> aggs_fed X F as rows"
  by (auto simp: aggs_fed_def dest: feedable_prefix)

lemma feed_each_at:
  assumes "aggs_at X sch S rows as xs" "aggs_fed X F as (rows @ [row])"
    and "shows_row sch F r row" "ctx_ok X (rec_env sch r) S c"
  shows "\<exists>ys c'. feed_each xs c r = Inr (ys, c') \<and> aggs_at X sch S (rows @ [row]) as ys \<and> ctx_ok X (rec_env sch r) S c'"
  using assms(1,2,4)
proof (induction arbitrary: c rule: list_all2_induct)
  case (Cons a as x xs)
  from Cons.prems(1) have a: "node_fields (agg_node a) \<subseteq> F" "feedable (buildScalar X) (agg_node a) (rows @ [row])"
    "length rows + 1 < 2 ^ 31" and as: "aggs_fed X F as (rows @ [row])" by (auto simp: aggs_fed_def)
  from agg_at_feed [OF Cons.hyps(1) a(2,3) assms(3) a(1) Cons.prems(2)] obtain y c1 where
    y: "aggr_feed x c r = Inr (y, c1)" "agg_at X sch S (rows @ [row]) (agg_node a) y" "ctx_ok X (rec_env sch r) S c1" by blast
  from Cons.IH [OF as y(3)] y show ?case by auto
qed simp

lemma agg_row_vals:
  assumes "agg_row B as rows = Inr row"
  obtains vs where "row = row_of (map output_field_id as) vs" "length vs = length as"
    "list_all2 (\<lambda>a v. agg_node_eval B (agg_node a) rows = Inr v) as vs"
proof -
  from assms obtain vs where vs: "rmap (\<lambda>a. agg_node_eval B (agg_node a) rows) as = Inr vs"
    "row = row_of (map output_field_id as) vs" by (auto simp: agg_row_def)
  from vs(1) have "list_all2 (\<lambda>a v. agg_node_eval B (agg_node a) rows = Inr v) as vs" by (simp add: rmap_Inr_iff)
  with vs(2) list_all2_lengthD [OF this] that [of vs] show ?thesis by simp
qed

lemma aggs_get:
  assumes "list_all2 (\<lambda>a v. agg_node_eval (buildScalar X) (agg_node a) rows = Inr v) as vs"
    and "aggs_at X sch S rows as xs" "length rows < 2 ^ 31"
  shows "rmap aggr_get xs = Inr vs"
  using assms(1,2)
proof (induction arbitrary: xs rule: list_all2_induct)
  case (Cons a as v vs)
  then obtain y ys where xs: "xs = y # ys" "agg_at X sch S rows (agg_node a) y" "aggs_at X sch S rows as ys"
    by (auto simp: list_all2_Cons1)
  from agg_at_get [OF xs(2) assms(3)] Cons.hyps(1) have "aggr_get y = Inr v" by simp
  with Cons.IH [OF xs(3)] xs(1) show ?case by simp
qed simp

text \<open>A context whose slots are those of \<open>S\<close>.\<close>

definition slots_fit :: "ext \<Rightarrow> (Scalar \<times> nat) set \<Rightarrow> ScalarContext \<Rightarrow> bool" where
  "slots_fit X S c \<longleftrightarrow> (\<forall>env. ctx_ok X env S (reset c))"

lemma slots_fit_again: "ctx_ok X env S c \<Longrightarrow> slots_fit X S c"
  by (auto simp: slots_fit_def intro: ctx_ok_again)

lemma slots_fit_scope: "scope_wf sc \<Longrightarrow> slots_fit X (set (expressions sc)) (context_slots sc)"
  by (simp add: slots_fit_def ctx_ok_reset)

lemma aggregate_collect:
  assumes "list_all2 (shows_row sch F) rs rows" "aggs_at X sch S seen as (aggregators st)"
    and "slots_fit X S (aggr_context st)" "aggs_fed X F as (seen @ rows)" "active d"
  shows "\<exists>st'. drive (aggregate_consume emit active) (st, d) (map Some rs @ es) =
        drive (aggregate_consume emit active) (st', d) es \<and>
      aggs_at X sch S (seen @ rows) as (aggregators st') \<and> aggr_values st' = aggr_values st"
  using assms(1-4)
proof (induction arbitrary: st seen rule: list_all2_induct)
  case (Cons r rs row rows)
  from Cons.prems(3) have fed: "aggs_fed X F as ((seen @ [row]) @ rows)" by simp
  from Cons.prems(2) have c: "ctx_ok X (rec_env sch r) S (reset (aggr_context st))" by (simp add: slots_fit_def)
  from feed_each_at [OF Cons.prems(1) aggs_fed_prefix [OF fed] Cons.hyps(1) c] obtain ys c' where
    y: "feed_each (aggregators st) (reset (aggr_context st)) r = Inr (ys, c')" "aggs_at X sch S (seen @ [row]) as ys"
    "ctx_ok X (rec_env sch r) S c'" by blast
  let ?st = "st\<lparr>aggregators := ys, aggr_context := c'\<rparr>"
  have step: "aggregate_consume emit active (st, d) (Some r) = Inr (True, (?st, d))"
    using y(1) assms(5) by (simp add: aggregate_consume_def)
  have "aggs_at X sch S (seen @ [row]) as (aggregators ?st)" "slots_fit X S (aggr_context ?st)"
    using y(2) slots_fit_again [OF y(3)] by simp_all
  from Cons.IH [OF this fed] step show ?case by simp
qed auto

context emitter
begin

lemma emit_single_drive: "emit_single out r d = drive out d [Some r, None]"
proof (cases "out d (Some r)")
  case (Inr p)
  obtain b d' where p: "p = (b, d')" by (cases p)
  have "drive out d' [None] = rbind (out d' None) (\<lambda>(b, d''). Inr d'')" using drive_None [of d' "[]"] by simp
  with Inr p show ?thesis by (simp add: emit_single_def)
qed (simp add: emit_single_def)

lemma aggregate_drive:
  assumes "list_all2 (shows_row sch F) rs rows" "aggs_at X sch S [] as (aggregators st)"
    and "slots_fit X S (aggr_context st)" "aggs_fed X F as rows" "live d" "aggr_values st = []"
    and "agg_row (buildScalar X) as rows = Inr row"
  shows "\<exists>vs st'. row = row_of (map output_field_id as) vs \<and> length vs = length as \<and> aggr_values st' = vs \<and>
    drive (aggregate_consume out live) (st, d) (stream rs) =
      rbind (drive out d (stream [AggregateState vs])) (\<lambda>d'. Inr (st', d'))"
proof -
  have "aggs_fed X F as ([] @ rows)" using assms(4) by simp
  from aggregate_collect [where active = live and emit = out and es = "[None]", OF assms(1,2,3) this assms(5)]
  obtain st1 where
    st1: "drive (aggregate_consume out live) (st, d) (map Some rs @ [None]) =
        drive (aggregate_consume out live) (st1, d) [None]"
    "aggs_at X sch S rows as (aggregators st1)" "aggr_values st1 = []"
    by (auto simp: assms(6))
  from agg_row_vals [OF assms(7)] obtain vs where vs: "row = row_of (map output_field_id as) vs"
    "length vs = length as" "list_all2 (\<lambda>a v. agg_node_eval (buildScalar X) (agg_node a) rows = Inr v) as vs" by blast
  from assms(4) have "length rows < 2 ^ 31" by (simp add: aggs_fed_def)
  from aggs_get [OF vs(3) st1(2) this] have "rmap aggr_get (aggregators st1) = Inr vs" .
  then have "aggregate_consume out live (st1, d) None =
      rbind (emit_single out (AggregateState vs) d) (\<lambda>d'. Inr (False, (st1\<lparr>aggr_values := vs, aggregators := []\<rparr>, d')))"
    by (simp add: aggregate_consume_def st1(3))
  then have "drive (aggregate_consume out live) (st1, d) [None] =
      rbind (emit_single out (AggregateState vs) d) (\<lambda>d'. Inr (st1\<lparr>aggr_values := vs, aggregators := []\<rparr>, d'))"
    by (cases "emit_single out (AggregateState vs) d") simp_all
  then have "drive (aggregate_consume out live) (st, d) (stream rs) =
      rbind (drive out d (stream [AggregateState vs])) (\<lambda>d'. Inr (st1\<lparr>aggr_values := vs, aggregators := []\<rparr>, d'))"
    using st1(1) by (simp add: emit_single_drive)
  with vs(1,2) show ?thesis by (intro exI [of _ vs] exI [of _ "st1\<lparr>aggr_values := vs, aggregators := []\<rparr>"]) simp
qed

end

text \<open>With no subscriber the collector asks for no second record and never has its values.\<close>

lemma aggregate_unsubscribed:
  assumes "\<not> active d" "feed_each (aggregators st) (reset (aggr_context st)) r = Inr (xs, c)"
  shows "drive (aggregate_consume emit active) (st, d) (stream (r # rs)) =
    Inr (st\<lparr>aggregators := xs, aggr_context := c\<rparr>, d)"
  using assms by (simp add: aggregate_consume_def)

section \<open>Group: the groups of the rows\<close>

text \<open>Aggregates with whether they are asked for; the state of a group after its rows.\<close>

definition opts_at ::
  "ext \<Rightarrow> Schema \<Rightarrow> (Scalar \<times> nat) set \<Rightarrow> row list \<Rightarrow> (Aggregate \<times> bool) list \<Rightarrow> exec_aggregator option list \<Rightarrow> bool" where
  "opts_at X sch S rows = list_all2 (\<lambda>(a, q) x. (x = None \<and> \<not> q) \<or>
     (\<exists>y. x = Some y \<and> q \<and> agg_at X sch S rows (agg_node a) y))"

definition asked :: "(Aggregate \<times> bool) list \<Rightarrow> Aggregate list" where
  "asked qs = map fst (filter snd qs)"

lemma feed_present_at:
  assumes "opts_at X sch S rows qs xs" "aggs_fed X F (asked qs) (rows @ [row])"
    and "shows_row sch F r row" "ctx_ok X (rec_env sch r) S c"
  shows "\<exists>ys c'. feed_present xs c r = Inr (ys, c') \<and> opts_at X sch S (rows @ [row]) qs ys \<and> ctx_ok X (rec_env sch r) S c'"
  using assms(1) [unfolded opts_at_def] assms(2,4)
proof (induction arbitrary: c rule: list_all2_induct)
  case (Cons p qs x xs)
  obtain a q where p: "p = (a, q)" by (cases p)
  have qs: "aggs_fed X F (asked qs) (rows @ [row])"
    using Cons.prems(1) by (cases q) (auto simp: aggs_fed_def asked_def p)
  show ?case
  proof (cases x)
    case None
    with Cons.IH [OF qs Cons.prems(2)] Cons.hyps(1) p show ?thesis by (auto simp: opts_at_def)
  next
    case (Some y)
    with Cons.hyps(1) p have q: "q" and y: "agg_at X sch S rows (agg_node a) y" by auto
    from Cons.prems(1) q have a: "node_fields (agg_node a) \<subseteq> F" "feedable (buildScalar X) (agg_node a) (rows @ [row])"
      "length rows + 1 < 2 ^ 31" by (auto simp: aggs_fed_def asked_def p)
    from agg_at_feed [OF y a(2,3) assms(3) a(1) Cons.prems(2)] obtain z c1 where
      z: "aggr_feed y c r = Inr (z, c1)" "agg_at X sch S (rows @ [row]) (agg_node a) z" "ctx_ok X (rec_env sch r) S c1" by blast
    from Cons.IH [OF qs z(3)] z q p Some show ?thesis by (auto simp: opts_at_def)
  qed
qed (simp add: opts_at_def)

definition groups_at ::
  "ext \<Rightarrow> Schema \<Rightarrow> (Scalar \<times> nat) set \<Rightarrow> (Aggregate \<times> bool) list \<Rightarrow> groups \<Rightarrow> (Value list \<times> row list) list \<Rightarrow> bool" where
  "groups_at X sch S qs = list_all2 (\<lambda>(k, xs) (j, rows). k = j \<and> opts_at X sch S rows qs xs)"

text \<open>The aggregators a record is fed to: those of its group, or fresh ones.\<close>

definition group_aggs :: "exec_aggregator option list \<Rightarrow> groups \<Rightarrow> Value list \<Rightarrow> exec_aggregator option list" where
  "group_aggs fresh gs k =
     (let found = (case group_find gs k of None \<Rightarrow> [] | Some xs \<Rightarrow> xs) in if found = [] then fresh else found)"

lemma group_step:
  assumes "groups_at X sch S qs gs spec" "opts_at X sch S [] qs fresh"
  shows "\<exists>rows j. opts_at X sch S rows qs (group_aggs fresh gs k) \<and> (j, rows @ [row]) \<in> set (group_push spec k row) \<and>
    (\<forall>ys. opts_at X sch S (rows @ [row]) qs ys \<longrightarrow> groups_at X sch S qs (group_set gs k ys) (group_push spec k row))"
  using assms(1) [unfolded groups_at_def]
proof (induction rule: list_all2_induct)
  case Nil
  with assms(2) show ?case by (intro exI [of _ "[]"] exI [of _ k]) (simp add: group_aggs_def groups_at_def)
next
  case (Cons g gs s spec)
  obtain j xs i rows where g: "g = (j, xs)" and s: "s = (i, rows)" by (cases g; cases s)
  with Cons.hyps(1) have ij: "i = j" and at: "opts_at X sch S rows qs xs" by auto
  show ?case
  proof (cases "key_eq j k")
    case True
    have "opts_at X sch S rows qs (group_aggs fresh (g # gs) k)"
    proof (cases "xs = []")
      case True
      with at assms(2) have "qs = []" "fresh = []" by (auto simp: opts_at_def)
      with at True \<open>key_eq j k\<close> show ?thesis by (simp add: group_aggs_def g)
    next
      case False
      with at \<open>key_eq j k\<close> show ?thesis by (simp add: group_aggs_def g)
    qed
    moreover have "groups_at X sch S qs ((j, ys) # gs) ((j, rows @ [row]) # spec)"
      if "opts_at X sch S (rows @ [row]) qs ys" for ys
      using that Cons.hyps(2) by (simp add: groups_at_def)
    ultimately show ?thesis using True ij by (intro exI [of _ rows] exI [of _ j]) (simp add: g s)
  next
    case False
    from Cons.IH obtain rows' j' where IH: "opts_at X sch S rows' qs (group_aggs fresh gs k)"
      "(j', rows' @ [row]) \<in> set (group_push spec k row)"
      "\<forall>ys. opts_at X sch S (rows' @ [row]) qs ys \<longrightarrow> groups_at X sch S qs (group_set gs k ys) (group_push spec k row)"
      by blast
    have "group_aggs fresh (g # gs) k = group_aggs fresh gs k" using False by (simp add: group_aggs_def g)
    moreover have "groups_at X sch S qs ((j, xs) # hs) ((j, rows) # ts)" if "groups_at X sch S qs hs ts" for hs ts
      using that at by (simp add: groups_at_def)
    ultimately show ?thesis using IH False ij by (intro exI [of _ rows'] exI [of _ j']) (simp add: g s)
  qed
qed

lemma group_push_extends: "(j, rs) \<in> set gs \<Longrightarrow> \<exists>qs. (j, rs @ qs) \<in> set (group_push gs k r)"
  by (induction gs k r rule: group_push.induct) (auto, metis append_Nil2)

lemma group_all_extends: "(j, rs) \<in> set gs \<Longrightarrow> \<exists>qs. (j, rs @ qs) \<in> set (group_all gs krs)"
proof (induction gs krs arbitrary: rs rule: group_all.induct)
  case (1 gs)
  then show ?case by (intro exI [of _ "[]"]) simp
next
  case (2 gs k r krs)
  from group_push_extends [OF 2(2)] obtain ps where "(j, rs @ ps) \<in> set (group_push gs k r)" by blast
  from "2.IH" [OF this] show ?case by auto
qed

lemma group_push_length: "(j, rs) \<in> set (group_push gs k r) \<Longrightarrow> \<forall>(i, qs) \<in> set gs. length qs \<le> n \<Longrightarrow> length rs \<le> Suc n"
  by (induction gs k r rule: group_push.induct) (fastforce split: if_splits)+

lemma group_all_rows: "(j, rs) \<in> set (group_all gs krs) \<Longrightarrow> \<forall>(i, qs) \<in> set gs. length qs \<le> n \<Longrightarrow> length rs \<le> n + length krs"
proof (induction gs krs arbitrary: n rule: group_all.induct)
  case (2 gs k r krs)
  have "\<forall>(i, qs) \<in> set (group_push gs k r). length qs \<le> Suc n"
    using group_push_length [OF _ "2.prems"(2)] by blast
  with "2.IH" [of "Suc n"] "2.prems"(1) show ?case by simp
qed auto

lemma group_key_eval:
  assumes "list_all2 (planned X sch S) ks es" "shows_row sch F r row" "\<forall>e \<in> set ks. scalar_fields e \<subseteq> F"
    and "row_key (buildScalar X) ks row = Inr k" "ctx_ok X (rec_env sch r) S c"
  shows "\<exists>c'. eval_list es c r = Inr (k, c') \<and> ctx_ok X (rec_env sch r) S c'"
proof -
  have "list_all2 (\<lambda>a e. \<forall>c. ctx_ok X (rec_env sch r) S c \<longrightarrow>
      agrees (ctx_ok X (rec_env sch r) S) (ir_eval X (rec_env sch r) a) (eval e c r)) ks es"
    using assms(1) by (rule list_all2_mono) (auto intro!: eval_planned simp: rec_env_def)
  from eval_list_planned(1) [OF this assms(5)]
  have "agrees (ctx_ok X (rec_env sch r) S) (rmap (ir_eval X (rec_env sch r)) ks) (eval_list es c r)" .
  moreover have "rmap (ir_eval X (rec_env sch r)) ks = Inr k"
    using assms(4) shows_row_eval [OF assms(2)] assms(3) by (simp add: row_key_def cong: rmap_cong)
  ultimately show ?thesis by simp
qed

lemma group_collect:
  assumes "list_all2 (shows_row sch F) rs rows" "with_keys (buildScalar X) ks rows = Inr krs"
    and "groups_at X sch S qs gs spec" "slots_fit X S ctx" "opts_at X sch S [] qs (map (map_option aggregator) aggs)"
    and "\<forall>(j, rws) \<in> set (group_all spec krs). aggs_fed X F (asked qs) rws"
    and key: "list_all2 (planned X sch S) ks es" "\<forall>e \<in> set ks. scalar_fields e \<subseteq> F" and act: "active d"
  shows "\<exists>ctx' gs'. drive (group_consume emit active order aggs es) ((ctx, gs), d) (map Some rs @ evs) =
      drive (group_consume emit active order aggs es) ((ctx', gs'), d) evs \<and>
      groups_at X sch S qs gs' (group_all spec krs)"
  using assms(1-4,6)
proof (induction arbitrary: krs ctx gs spec rule: list_all2_induct)
  case Nil
  then show ?case by (auto simp: with_keys_def)
next
  case (Cons r rs row rows)
  from Cons.prems(1) obtain k krs' where k: "row_key (buildScalar X) ks row = Inr k"
    and krs': "with_keys (buildScalar X) ks rows = Inr krs'" and krs: "krs = (k, row) # krs'"
    by (auto simp: with_keys_def)
  from Cons.prems(3) have "ctx_ok X (rec_env sch r) S (reset ctx)" by (simp add: slots_fit_def)
  from group_key_eval [OF key(1) Cons.hyps(1) key(2) k this] obtain c1 where
    c1: "eval_list es (reset ctx) r = Inr (k, c1)" "ctx_ok X (rec_env sch r) S c1" by blast
  let ?xs = "group_aggs (map (map_option aggregator) aggs) gs k"
  from group_step [OF Cons.prems(2) assms(5), of k row] obtain seen j where
    st: "opts_at X sch S seen qs ?xs" "(j, seen @ [row]) \<in> set (group_push spec k row)"
    "\<forall>ys. opts_at X sch S (seen @ [row]) qs ys \<longrightarrow> groups_at X sch S qs (group_set gs k ys) (group_push spec k row)"
    by blast
  have all: "group_all spec krs = group_all (group_push spec k row) krs'" by (simp add: krs)
  from group_all_extends [OF st(2)] Cons.prems(4) obtain more where
    "aggs_fed X F (asked qs) ((seen @ [row]) @ more)" unfolding all by blast
  from feed_present_at [OF st(1) aggs_fed_prefix [OF this] Cons.hyps(1) c1(2)] obtain ys c2 where
    ys: "feed_present ?xs c1 r = Inr (ys, c2)" "opts_at X sch S (seen @ [row]) qs ys" "ctx_ok X (rec_env sch r) S c2"
    by blast
  have step: "group_consume emit active order aggs es ((ctx, gs), d) (Some r) =
      Inr (True, ((c2, group_set gs k ys), d))"
    using c1(1) ys(1) act by (simp add: group_consume_def group_aggs_def Let_def)
  have "groups_at X sch S qs (group_set gs k ys) (group_push spec k row)" using st(3) ys(2) by blast
  from Cons.IH [OF krs' this slots_fit_again [OF ys(3)]] Cons.prems(4) step show ?case by (simp add: all)
qed

lemma group_values_at:
  assumes "opts_at X sch S rows qs xs"
    and "list_all2 (\<lambda>(a, q) v. agg_node_eval (buildScalar X) (agg_node a) rows = Inr v) qs vs" "length rows < 2 ^ 31"
  shows "group_values xs = Inr (map2 (\<lambda>(a, q) v. if q then v else vnull) qs vs)"
  using assms(1) [unfolded opts_at_def] assms(2)
proof (induction arbitrary: vs rule: list_all2_induct)
  case (Cons p qs x xs)
  obtain a q where p: "p = (a, q)" by (cases p)
  with Cons.prems obtain w ws where vs: "vs = w # ws" "agg_node_eval (buildScalar X) (agg_node a) rows = Inr w"
    "list_all2 (\<lambda>(a, q) v. agg_node_eval (buildScalar X) (agg_node a) rows = Inr v) qs ws"
    by (auto simp: list_all2_Cons1)
  have "(case x of Some a \<Rightarrow> aggr_get a | None \<Rightarrow> Inr vnull) = Inr (if q then w else vnull)"
    using Cons.hyps(1) p vs(2) agg_at_get [OF _ assms(3)] by (auto split: option.splits)
  with Cons.IH [OF vs(3)] show ?case by (simp add: group_values_def p vs(1))
qed (simp add: group_values_def)

lemma row_of_at: "distinct is \<Longrightarrow> length vs = length is \<Longrightarrow> n < length is \<Longrightarrow> row_of is vs (is ! n) = Some (vs ! n)"
  by (auto simp: row_of_def map_of_eq_Some_iff in_set_zip)

lemma row_of_join:
  assumes "length vs = length is" "distinct (is @ js)" "length ws = length js"
  shows "row_of is vs ++ row_of js ws = row_of (is @ js) (vs @ ws)"
proof -
  have "dom (map_of (zip is vs)) \<inter> dom (map_of (zip js ws)) = {}"
    using assms by (simp add: dom_map_of_zip)
  then show ?thesis using assms(1) by (simp add: row_of_def map_add_comm [of "map_of (zip is vs)"])
qed

text \<open>A record with the values of a row, or null where a field is not asked for.\<close>

lemma shows_row_of:
  assumes "distinct is" "length vs = length is" "length ws = length is"
    and "\<forall>n < length is. is ! n \<in> F \<longrightarrow> ws ! n = vs ! n" "F \<subseteq> set is"
    and rec: "\<forall>k < length ws. rec_value r k = Inr (ws ! k)"
  shows "shows_row (schema_of is) F r (row_of is vs)"
  unfolding shows_row_def
proof
  fix i assume i: "i \<in> F"
  with assms(5) have "i \<in> set is" by blast
  then obtain n where n: "n < length is" "is ! n = i" by (auto simp: in_set_conv_nth)
  with i assms row_of_at [OF assms(1,2) n(1)]
  show "\<exists>k v. slot (schema_of is) i = Some k \<and> rec_value r k = Inr v \<and> row_of is vs i = Some v"
    by (intro exI [of _ n]) (simp add: slot_schema_of)
qed

lemma map2_nth: "length xs = length ys \<Longrightarrow> n < length ys \<Longrightarrow> map2 f xs ys ! n = f (xs ! n) (ys ! n)"
  by simp

context emitter
begin

lemma emit_groups_drive:
  assumes "\<And>k xs. (k, xs) \<in> set gs \<Longrightarrow> group_values xs = Inr (f (k, xs))"
  shows "rbind (emit_groups out gs d) (\<lambda>(b, d'). Inr d') = drive out d (stream (map (\<lambda>g. VecRecord (f g @ fst g)) gs))"
  using assms
proof (induction gs arbitrary: d)
  case Nil
  show ?case using drive_None [of d "[]"] by simp
next
  case (Cons g gs)
  obtain k xs where g: "g = (k, xs)" by (cases g)
  from Cons.prems [of k xs] have v: "group_values xs = Inr (f (k, xs))" by (simp add: g)
  have IH: "rbind (emit_groups out gs d') (\<lambda>(b, d'). Inr d') =
      drive out d' (stream (map (\<lambda>g. VecRecord (f g @ fst g)) gs))" for d'
    using Cons.prems by (intro Cons.IH) auto
  show ?case
  proof (cases "out d (Some (VecRecord (f (k, xs) @ k)))")
    case (Inr p)
    then show ?thesis by (cases p) (simp add: g v IH del: drive.simps(1))
  qed (simp add: g v)
qed

end

section \<open>Group: the records\<close>

text \<open>build.cpp: only the aggregates that are asked for.\<close>

definition projectorsExprs :: "(FieldId \<times> 'e) list \<Rightarrow> FieldSet \<Rightarrow> 'e option list" where
  "projectorsExprs ps required = map (\<lambda>(i, e). if i \<in> required then Some e else None) ps"

definition flagged :: "FieldSet \<Rightarrow> Aggregate list \<Rightarrow> (Aggregate \<times> bool) list" where
  "flagged R as = map (\<lambda>a. (a, output_field_id a \<in> R)) as"

lemma asked_flagged: "set (asked (flagged R as)) \<subseteq> set as"
  by (auto simp: asked_def flagged_def)

lemma opts_at_start:
  assumes "list_all2 (\<lambda>a p. fst p = output_field_id a \<and> agg_at X sch S [] (agg_node a) (aggregator (snd p))) as ps"
  shows "opts_at X sch S [] (flagged R as) (map (map_option aggregator) (projectorsExprs ps R))"
  using assms by (induction rule: list_all2_induct) (auto simp: opts_at_def flagged_def projectorsExprs_def)

lemma group_row_shown:
  assumes ids: "distinct (map output_field_id as @ js)" "R \<subseteq> set (map output_field_id as @ js)"
    and g: "group_row (buildScalar X) as js (k, rows) = Inr row" "length k = length js"
    and at: "opts_at X sch S rows (flagged R as) xs" "length rows < 2 ^ 31"
  shows "\<exists>ws. group_values xs = Inr ws \<and> shows_row (schema_of (map output_field_id as @ js)) R (VecRecord (ws @ k)) row"
proof -
  let ?is = "map output_field_id as"
  from g(1) obtain r where r: "agg_row (buildScalar X) as rows = Inr r" "row = r ++ row_of js k"
    by (auto simp: group_row_def)
  from agg_row_vals [OF r(1)] obtain vs where vs: "r = row_of ?is vs" "length vs = length as"
    "list_all2 (\<lambda>a v. agg_node_eval (buildScalar X) (agg_node a) rows = Inr v) as vs" by blast
  let ?ws = "map2 (\<lambda>(a, q) v. if q then v else vnull) (flagged R as) vs"
  have "list_all2 (\<lambda>(a, q) v. agg_node_eval (buildScalar X) (agg_node a) rows = Inr v) (flagged R as) vs"
    using vs(3) by (simp add: flagged_def list.rel_map)
  from group_values_at [OF at(1) this at(2)] have w: "group_values xs = Inr ?ws" .
  have row: "row = row_of (?is @ js) (vs @ k)"
    using r(2) vs(1,2) ids(1) g(2) by (simp add: row_of_join)
  have len: "length ?ws = length as" using vs(2) by (simp add: flagged_def)
  have "(?ws @ k) ! n = (vs @ k) ! n" if "n < length (?is @ js)" "(?is @ js) ! n \<in> R" for n
  proof (cases "n < length as")
    case True
    with that(2) vs(2) show ?thesis by (simp add: nth_append len flagged_def map2_nth)
  next
    case False
    with vs(2) len show ?thesis by (simp add: nth_append)
  qed
  then have "shows_row (schema_of (?is @ js)) R (VecRecord (?ws @ k)) row"
    unfolding row using ids vs(2) g(2) len by (intro shows_row_of [where ws = "?ws @ k"]) auto
  with w show ?thesis by blast
qed

lemma list_all2_reorder:
  assumes "list_all2 P xs ys" "mset xs' = mset xs"
  obtains ys' where "mset ys' = mset ys" "list_all2 P xs' ys'"
  using list_all2_reorder_left_invariance [OF assms] that by blast

context emitter
begin

lemma group_drive:
  assumes rs: "list_all2 (shows_row sch F) rs rows" and len: "length rows < 2 ^ 31" and live: "live d"
    and out: "group_rows (buildScalar X) as ks rows = Inr res"
    and order: "\<And>gs. mset (order gs) = mset gs"
    and ctx: "slots_fit X S ctx"
    and at: "list_all2 (\<lambda>a p. fst p = output_field_id a \<and> agg_at X sch S [] (agg_node a) (aggregator (snd p))) as ps"
    and key: "list_all2 (planned X sch S) (map expr ks) es" "\<forall>e \<in> set (map expr ks). scalar_fields e \<subseteq> F"
    and node: "\<forall>a \<in> set as. output_field_id a \<in> R \<longrightarrow> node_fields (agg_node a) \<subseteq> F"
    and ids: "distinct (map output_field_id as @ map alias_field_id ks)"
      "R \<subseteq> set (map output_field_id as @ map alias_field_id ks)"
  shows "\<exists>recs res'. mset res' = mset res \<and>
      list_all2 (shows_row (schema_of (map output_field_id as @ map alias_field_id ks)) R) recs res' \<and>
      behind (drive (group_consume out live order (projectorsExprs ps R) es) ((ctx, []), d) (stream rs)) =
        drive out d (stream recs)"
proof -
  let ?B = "buildScalar X" and ?js = "map alias_field_id ks"
  let ?c = "group_consume out live order (projectorsExprs ps R) es"
  let ?sh = "shows_row (schema_of (map output_field_id as @ ?js)) R"
  from out obtain krs where krs: "with_keys ?B (map expr ks) rows = Inr krs"
    and res: "rmap (group_row ?B as ?js) (group_all [] krs) = Inr res" by (auto simp: group_rows_def)
  have klen: "length krs = length rows" using with_keys_rows [OF krs] by (metis length_map)
  have short: "length rws < 2 ^ 31" if "(j, rws) \<in> set (group_all [] krs)" for j rws
    using group_all_rows [OF that, of 0] len klen by simp
  have row: "\<exists>row. group_row ?B as ?js (j, rws) = Inr row" if "(j, rws) \<in> set (group_all [] krs)" for j rws
    using res that by (fastforce simp: rmap_Inr_iff list_all2_conv_all_nth in_set_conv_nth)
  have fed: "\<forall>(j, rws) \<in> set (group_all [] krs). aggs_fed X F (asked (flagged R as)) rws"
  proof clarify
    fix j rws assume g: "(j, rws) \<in> set (group_all [] krs)"
    from row [OF g] obtain r where "agg_row ?B as rws = Inr r" by (auto simp: group_row_def)
    from agg_row_vals [OF this] obtain vs where
      "list_all2 (\<lambda>a v. agg_node_eval ?B (agg_node a) rws = Inr v) as vs" by blast
    then have "feedable ?B (agg_node a) rws" if "a \<in> set as" for a
      using that eval_feedable by (fastforce simp: list_all2_conv_all_nth in_set_conv_nth)
    with short [OF g] node show "aggs_fed X F (asked (flagged R as)) rws"
      by (auto simp: aggs_fed_def asked_def flagged_def)
  qed
  have "groups_at X sch S (flagged R as) [] []" by (simp add: groups_at_def)
  from group_collect [where emit = out and order = order and evs = "[None]" and active = live,
      OF rs krs this ctx opts_at_start [OF at, of R] fed key live]
  obtain ctx' gs where gs: "drive ?c ((ctx, []), d) (stream rs) = drive ?c ((ctx', gs), d) [None]"
    "groups_at X sch S (flagged R as) gs (group_all [] krs)" by blast
  have klen2: "length (fst g) = length ?js" if "g \<in> set (group_all [] krs)" for g
  proof -
    have "list_all (\<lambda>k. length k = length ?js) (map fst krs)"
      using with_keys_key [OF krs] by (fastforce simp: list_all_iff row_key_def dest: rmap_Inr_length)
    then have "list_all (\<lambda>k. length k = length ?js) (map fst (group_all [] krs))" by (rule group_all_keys) simp
    with that show ?thesis by (auto simp: list_all_iff)
  qed
  define val where "val g = (case group_values (snd g) of Inl _ \<Rightarrow> [] | Inr ws \<Rightarrow> ws)" for g :: "Value list \<times> exec_aggregator option list"
  have each: "group_values xs = Inr (val (k, xs)) \<and> ?sh (VecRecord (val (k, xs) @ k)) w"
    if "(j, rws) \<in> set (group_all [] krs)" "group_row ?B as ?js (j, rws) = Inr w" "k = j" "opts_at X sch S rws (flagged R as) xs"
    for j rws k xs w
  proof -
    from klen2 [OF that(1)] have "length j = length ?js" by simp
    from group_row_shown [OF ids that(2) this that(4) short [OF that(1)]] that(3) show ?thesis
      by (auto simp: val_def)
  qed
  have mem: "list_all2 (\<lambda>g w. g \<in> set (group_all [] krs) \<and> group_row ?B as ?js g = Inr w) (group_all [] krs) res"
    by (rule rmap_rel [OF res]) simp
  have rel: "list_all2 (\<lambda>g w. group_values (snd g) = Inr (val g) \<and> ?sh (VecRecord (val g @ fst g)) w) gs res"
    by (rule list_all2_trans [OF _ gs(2) [unfolded groups_at_def] mem]) (use each in fastforce)
  from list_all2_reorder [OF rel order] obtain res' where res': "mset res' = mset res"
    "list_all2 (\<lambda>g w. group_values (snd g) = Inr (val g) \<and> ?sh (VecRecord (val g @ fst g)) w) (order gs) res'" .
  have vals: "group_values xs = Inr (val (k, xs))" if "(k, xs) \<in> set (order gs)" for k xs
    using res'(2) that by (fastforce simp: list_all2_conv_all_nth in_set_conv_nth)
  let ?recs = "map (\<lambda>g. VecRecord (val g @ fst g)) (order gs)"
  have "rbind (emit_groups out (order gs) d) (\<lambda>(b, d'). Inr d') = drive out d (stream ?recs)"
    by (rule emit_groups_drive) (rule vals)
  then have "behind (drive ?c ((ctx', gs), d) [None]) = drive out d (stream ?recs)"
    unfolding behind_last by (simp add: group_consume_def rbind_assoc case_prod_unfold)
  then have run: "behind (drive ?c ((ctx, []), d) (stream rs)) = drive out d (stream ?recs)"
    by (simp only: gs(1))
  have "list_all2 ?sh ?recs res'"
    using res'(2) by (auto simp: list.rel_map elim: list_all2_mono)
  with run res'(1) show ?thesis by blast
qed

end

section \<open>Properties\<close>

lemma agg_row_fed:
  assumes "agg_row (buildScalar X) as rows = Inr row" "\<forall>a \<in> set as. node_fields (agg_node a) \<subseteq> F" "length rows < 2 ^ 31"
  shows "aggs_fed X F as rows"
proof -
  from agg_row_vals [OF assms(1)] obtain vs where
    "list_all2 (\<lambda>a v. agg_node_eval (buildScalar X) (agg_node a) rows = Inr v) as vs" by blast
  then have "feedable (buildScalar X) (agg_node a) rows" if "a \<in> set as" for a
    using that eval_feedable by (fastforce simp: list_all2_conv_all_nth in_set_conv_nth)
  with assms(2,3) show ?thesis by (simp add: aggs_fed_def)
qed

lemma aggregates_planned:
  assumes "aggregatesList X sch (Some emptyScope) as = Inr (ps, Some sc)" "\<forall>a \<in> set as. node_canon (agg_node a)"
  defines "S \<equiv> set (expressions sc)"
  shows "list_all2 (\<lambda>a p. fst p = output_field_id a \<and> agg_at X sch S [] (agg_node a) (aggregator (snd p))) as ps"
    "slots_fit X S (context_slots sc)"
proof -
  from aggregatesList_start [OF assms(1) _ assms(2), of S] have
    *: "map fst ps = map output_field_id as" "scope_wf sc"
      "list_all2 (\<lambda>a p. agg_at X sch S [] (agg_node a) (aggregator (snd p))) as ps" by (simp_all add: S_def)
  have "list_all2 (=) (map fst ps) (map output_field_id as)" by (simp add: *(1) list.rel_refl)
  then have fst: "list_all2 (\<lambda>p a. fst p = output_field_id a) ps as" by (simp add: list.rel_map)
  show "list_all2 (\<lambda>a p. fst p = output_field_id a \<and> agg_at X sch S [] (agg_node a) (aggregator (snd p))) as ps"
    unfolding list_all2_conv_all_nth
  proof (intro conjI allI impI)
    show "length as = length ps" using list_all2_lengthD [OF *(3)] .
    fix n assume n: "n < length as"
    with fst show "fst (ps ! n) = output_field_id (as ! n)" by (simp add: list_all2_conv_all_nth)
    show "agg_at X sch S [] (agg_node (as ! n)) (aggregator (snd (ps ! n)))"
      by (rule list_all2_nthD [OF *(3) n])
  qed
  from slots_fit_scope [OF *(2)] show "slots_fit X S (context_slots sc)" by (simp add: S_def)
qed

text \<open>C22: the collector of an aggregation that has a subscriber emits one record, and it shows the row of
  the aggregates over the rows its input records show; it keeps the values for the emitters of later
  phases. The aggregates are those planned in one scope, so that they share the lazy expressions.\<close>

theorem aggregate_correct:
  assumes "aggregatesList X sch (Some emptyScope) as = Inr (ps, Some sc)"
    and "\<forall>a \<in> set as. node_canon (agg_node a) \<and> node_fields (agg_node a) \<subseteq> F" and "distinct (map output_field_id as)"
    and "list_all2 (shows_row sch F) rs rows" and "agg_row (buildScalar X) as rows = Inr row" and "length rows < 2 ^ 31"
    and "ends_at_eof c" and "op_active d"
  shows "\<exists>vs st. shows_row (schema_of (map output_field_id as)) (set (map output_field_id as)) (AggregateState vs) row \<and>
    aggr_values st = vs \<and>
    drive (aggregate_consume (op_emit c) op_active)
      (\<lparr>aggr_context = context_slots sc, aggregators = map (\<lambda>p. aggregator (snd p)) ps, aggr_values = []\<rparr>, d) (stream rs) =
    rbind (drive (op_emit c) d (stream [AggregateState vs])) (\<lambda>d'. Inr (st, d'))"
proof -
  let ?st = "\<lparr>aggr_context = context_slots sc, aggregators = map (\<lambda>p. aggregator (snd p)) ps, aggr_values = []\<rparr>"
  let ?S = "set (expressions sc)"
  from assms(2) have canon: "\<forall>a \<in> set as. node_canon (agg_node a)" and F: "\<forall>a \<in> set as. node_fields (agg_node a) \<subseteq> F" by auto
  note p = aggregates_planned [OF assms(1) canon]
  have at: "aggs_at X sch ?S [] as (aggregators ?st)" using p(1) by (auto simp: list.rel_map elim: list_all2_mono)
  have fit: "slots_fit X ?S (aggr_context ?st)" using p(2) by simp
  have none: "aggr_values ?st = []" by simp
  from emitter.aggregate_drive [OF emitter_of [OF assms(7)] assms(4) at fit agg_row_fed [OF assms(5) F assms(6)] assms(8) none assms(5)]
  obtain vs st where st: "row = row_of (map output_field_id as) vs" "length vs = length as" "aggr_values st = vs"
    "drive (aggregate_consume (op_emit c) op_active) (?st, d) (stream rs) =
      rbind (drive (op_emit c) d (stream [AggregateState vs])) (\<lambda>d'. Inr (st, d'))" by blast
  have "shows_row (schema_of (map output_field_id as)) (set (map output_field_id as)) (AggregateState vs) row"
    unfolding st(1) by (rule shows_row_of [where ws = vs]) (use assms(3) st(2) in auto)
  with st(3,4) show ?thesis by blast
qed

theorem aggregate_correct_witness:
  "\<exists>vs st. shows_row (schema_of [1]) {1} (AggregateState vs) [1 \<mapsto> VInt 2] \<and> aggr_values st = vs \<and>
    drive (aggregate_consume (op_emit (\<lambda>i. rows_bridge)) op_active)
      (\<lparr>aggr_context = [], aggregators = [NullaryAggr (CountAllAggregator 0)], aggr_values = []\<rparr>,
        ([0], \<lparr>rec_fields = [(1, vnull)], sink = []\<rparr>)) (stream [VecRecord [VInt 5], VecRecord [VInt 7]]) =
    rbind (drive (op_emit (\<lambda>i. rows_bridge)) ([0], \<lparr>rec_fields = [(1, vnull)], sink = []\<rparr>) (stream [AggregateState vs]))
      (\<lambda>d'. Inr (st, d'))"
proof -
  let ?a = "\<lparr>agg_node = FnCallAggregate CountAll_fn [], output_field_id = 1, agg_type = Integer\<rparr>"
  have plan: "aggregatesList undefined (schema_of [2]) (Some emptyScope) [?a] =
      Inr ([(1, NullaryFnAggregate Integer (CountAllAggregator 0))], Some emptyScope)"
    by (simp add: planAggregate_def)
  have row: "agg_row (buildScalar undefined) [?a] [Map.empty, Map.empty] = Inr [1 \<mapsto> VInt 2]"
    by (simp add: agg_row_def row_of_def i64_of_def)
  show ?thesis
    using aggregate_correct [OF plan _ _ _ row _ rows_bridge_ends, of "{}" "[VecRecord [VInt 5], VecRecord [VInt 7]]"
        "([0], \<lparr>rec_fields = [(1, vnull)], sink = []\<rparr>)"]
    by (simp add: shows_row_def op_active_def emptyScope_def)
qed

text \<open>C21: the grouping operation emits, in the order its map gives, one record per group of the rows its
  input records show: the fields that are asked for have the values of the group's row, the others are
  null, and only the fields that are needed must be shown by the input.\<close>

theorem group_correct:
  assumes "aggregatesList X sch (Some emptyScope) as = Inr (ps, Some sc)"
    and "expressionList X sch None (map expr ks) = Inr (es, None)"
    and "\<forall>a \<in> set as. node_canon (agg_node a) \<and> (output_field_id a \<in> R \<longrightarrow> node_fields (agg_node a) \<subseteq> F)"
    and "\<forall>e \<in> set (map expr ks). scalar_canon e \<and> scalar_fields e \<subseteq> F"
    and "distinct (map output_field_id as @ map alias_field_id ks)"
    and "R \<subseteq> set (map output_field_id as @ map alias_field_id ks)"
    and "list_all2 (shows_row sch F) rs rows" and "group_rows (buildScalar X) as ks rows = Inr res" and "length rows < 2 ^ 31"
    and "\<forall>gs. mset (node_order gs) = mset gs" and "ends_at_eof c" and "op_active d"
  shows "\<exists>recs res'. mset res' = mset res \<and>
    list_all2 (shows_row (schema_of (map output_field_id as @ map alias_field_id ks)) R) recs res' \<and>
    behind (drive (group_consume (op_emit c) op_active node_order (projectorsExprs ps R) es)
      ((context_slots sc, []), d) (stream rs)) = drive (op_emit c) d (stream recs)"
proof -
  from assms(3) have canon: "\<forall>a \<in> set as. node_canon (agg_node a)" by blast
  note p = aggregates_planned [OF assms(1) canon]
  from planScalar_planned(2) [OF assms(2)] assms(4) have "list_all2 (planned X sch {}) (map expr ks) es"
    by (simp add: list_all_iff)
  then have key: "list_all2 (planned X sch (set (expressions sc))) (map expr ks) es"
    by (rule list_all2_mono) (erule planned_mono, simp)
  show ?thesis
    by (rule emitter.group_drive [OF emitter_of [OF assms(11)] assms(7,9,12,8) _ p(2,1) key _ _ assms(5,6)])
      (use assms(3,4,10) in blast)+
qed

theorem group_correct_witness:
  "\<exists>recs res'. mset res' = mset [[1 \<mapsto> VInt 2, 3 \<mapsto> VInt 5], [1 \<mapsto> VInt 1, 3 \<mapsto> VInt 7]] \<and>
    list_all2 (shows_row (schema_of [1, 3]) {1, 3}) recs res' \<and>
    behind (drive (group_consume (op_emit (\<lambda>i. rows_bridge)) op_active rev
        [Some (NullaryFnAggregate Integer (CountAllAggregator 0))] [IdentifierScalar 0 2 Integer])
      (([], []), ([0], \<lparr>rec_fields = [(1, vnull), (3, vnull)], sink = []\<rparr>))
      (stream [VecRecord [VInt 5], VecRecord [VInt 7], VecRecord [VInt 5]])) =
    drive (op_emit (\<lambda>i. rows_bridge)) ([0], \<lparr>rec_fields = [(1, vnull), (3, vnull)], sink = []\<rparr>) (stream recs)"
proof -
  let ?a = "\<lparr>agg_node = FnCallAggregate CountAll_fn [], output_field_id = 1, agg_type = Integer\<rparr>"
  let ?k = "\<lparr>alias_field_id = 3, expr = FieldScalar 2 Integer\<rparr>"
  let ?B = "buildScalar undefined" and ?rows = "[[2 \<mapsto> VInt 5], [2 \<mapsto> VInt 7], [2 \<mapsto> VInt 5]]"
  have plan: "aggregatesList undefined (schema_of [2]) (Some emptyScope) [?a] =
      Inr ([(1, NullaryFnAggregate Integer (CountAllAggregator 0))], Some emptyScope)"
    by (simp add: planAggregate_def)
  have key: "expressionList undefined (schema_of [2]) None (map expr [?k]) = Inr ([IdentifierScalar 0 2 Integer], None)"
    by (simp add: slot_def schema_of_def)
  have keys: "with_keys ?B [FieldScalar 2 Integer] ?rows =
      Inr [([VInt 5], [2 \<mapsto> VInt 5]), ([VInt 7], [2 \<mapsto> VInt 7]), ([VInt 5], [2 \<mapsto> VInt 5])]"
    by (simp add: with_keys_def row_key_def row_eval_def env_of_def)
  have rows: "group_rows ?B [?a] [?k] ?rows = Inr [[1 \<mapsto> VInt 2, 3 \<mapsto> VInt 5], [1 \<mapsto> VInt 1, 3 \<mapsto> VInt 7]]"
    by (simp add: group_rows_def keys key_eq_def group_row_def agg_row_def row_of_def i64_of_def)
  show ?thesis
    using group_correct [OF plan key _ _ _ _ _ rows _ _ rows_bridge_ends, of "{1, 3}" "{2}"
        "[VecRecord [VInt 5], VecRecord [VInt 7], VecRecord [VInt 5]]" rev
        "([0], \<lparr>rec_fields = [(1, vnull), (3, vnull)], sink = []\<rparr>)"]
    by (simp add: shows_row_def op_active_def emptyScope_def projectorsExprs_def slot_def schema_of_def)
qed

end
