(* ===== verification/Planner.thy ===== *)
theory Planner
  imports Phys_Group Optimize Log_Op "HOL-Library.Multiset_Order"
begin

text \<open>
  src/back/exec/plan: the plan operations (Operation.h) and the planner (plan.cpp). Operations refer to
  each other and a named relation is shared, so they live in a heap, a list, and a reference is an index.
  The planner allocates an operation per relation; a query then asks its operation for all its fields in
  its first phase, and every operation asks its sources for what it needs in the phases it needs it.
  The lemmas: planning a well-typed program ends and no \<open>verify\<close> of it fails, and in the plan every
  request of an operation is met by its source.
\<close>

section \<open>Operation.h\<close>

datatype plan_node =
    PAggregate nat "(FieldId \<times> exec_aggregate) list" ScalarContext
  | PFilter nat exec_scalar ScalarContext
  | PGroup nat "(FieldId \<times> exec_aggregate) list" "(FieldId \<times> exec_scalar) list" ScalarContext
  | PLimit nat int
  | PLog string "TimeRange option" "TimeFormat option"
  | PStream string
  | PHashMarkJoin nat nat exec_scalar FieldId FieldId
  | PHashLeftJoin nat nat exec_scalar exec_scalar
  | PMaterialize nat
  | PMergeSorted nat nat "exec_scalar list" bool
  | PProjection nat "(FieldId \<times> exec_scalar) list" ScalarContext
  | PHashSemiJoin nat nat exec_scalar FieldId
  | PSort nat "exec_scalar list" bool
  | PTopK nat "exec_scalar list" bool int
  | PUnionAll "nat list"
  | PValues "Value list"

text \<open>The map from phases to fields has the entries in the order of the phases.\<close>

record plan_op =
  node :: plan_node
  max_phase :: int
  min_phase :: nat
  schema :: Schema
  required_fields :: "(nat \<times> FieldSet) list"

type_synonym heap = "plan_op list"

definition phase_fields :: "plan_op \<Rightarrow> nat \<Rightarrow> FieldSet" where
  "phase_fields op p = (case map_of (required_fields op) p of None \<Rightarrow> {} | Some F \<Rightarrow> F)"

fun merge_at :: "nat \<Rightarrow> FieldSet \<Rightarrow> (nat \<times> FieldSet) list \<Rightarrow> (nat \<times> FieldSet) list" where
  "merge_at p F [] = [(p, F)]"
| "merge_at p F ((q, G) # ps) =
     (if p = q then (q, fs_merge G F) # ps
      else if p < q then (p, F) # (q, G) # ps
      else (q, G) # merge_at p F ps)"

fun assign_at :: "nat \<Rightarrow> FieldSet \<Rightarrow> (nat \<times> FieldSet) list \<Rightarrow> (nat \<times> FieldSet) list" where
  "assign_at p F [] = [(p, F)]"
| "assign_at p F ((q, G) # ps) =
     (if p = q then (q, F) # ps
      else if p < q then (p, F) # (q, G) # ps
      else (q, G) # assign_at p F ps)"

section \<open>plan.cpp: what an operation needs of its sources\<close>

definition requiredProjectorsFields :: "('e \<Rightarrow> FieldSet) \<Rightarrow> (FieldId \<times> 'e) list \<Rightarrow> FieldSet \<Rightarrow> FieldSet" where
  "requiredProjectorsFields f ps required = \<Union> (set (map (\<lambda>(i, e). if i \<in> required then f e else {}) ps))"

definition projectorsFields :: "('e \<Rightarrow> FieldSet) \<Rightarrow> (FieldId \<times> 'e) list \<Rightarrow> FieldSet" where
  "projectorsFields f ps = \<Union> (set (map (\<lambda>(i, e). f e) ps))"

definition scalarsFields :: "exec_scalar list \<Rightarrow> FieldSet" where
  "scalarsFields es = \<Union> (set (map requiredFields es))"

text \<open>\<open>init\<close> of a node in a phase: the calls of \<open>requestOutput\<close> it makes, in order.\<close>

type_synonym request = "nat \<times> nat \<times> FieldSet"

fun node_requests :: "heap \<Rightarrow> plan_node \<Rightarrow> nat \<Rightarrow> FieldSet \<Rightarrow> nat \<Rightarrow> request list res" where
  "node_requests H (PAggregate s as c) mp req p = Inr [(s, mp, projectorsFields aggregate_fields as)]"
| "node_requests H (PFilter s e c) mp req p = Inr [(s, p, fs_merge req (requiredFields e))]"
| "node_requests H (PGroup s as ks c) mp req p =
     Inr [(s, p, fs_merge (projectorsFields requiredFields ks) (requiredProjectorsFields aggregate_fields as req))]"
| "node_requests H (PLimit s n) mp req p = Inr [(s, p, req)]"
| "node_requests H (PLog path r f) mp req p = Inr []"
| "node_requests H (PStream c) mp req p = Inr []"
| "node_requests H (PHashMarkJoin m s e i out) mp req p =
     Inr [(m, min_phase (H ! m), {i}), (s, p, fs_merge (req - {out}) (requiredFields e))]"
| "node_requests H (PHashLeftJoin l r lk rk) mp req p =
     rbind (fieldSet (schema (H ! l))) (\<lambda>L. rbind (fieldSet (schema (H ! r))) (\<lambda>R.
       Inr [(l, p, fs_merge (fs_intersection req L) (requiredFields lk)),
            (r, min_phase (H ! r), fs_merge (fs_intersection req R) (requiredFields rk))]))"
| "node_requests H (PMaterialize s) mp req p = Inr [(s, mp, req)]"
| "node_requests H (PMergeSorted l r ks desc) mp req p =
     Inr [(l, p, fs_merge req (scalarsFields ks)), (r, p, fs_merge req (scalarsFields ks))]"
| "node_requests H (PProjection s ps c) mp req p = Inr [(s, p, requiredProjectorsFields requiredFields ps req)]"
| "node_requests H (PHashSemiJoin m s e i) mp req p =
     Inr [(m, min_phase (H ! m), {i}), (s, p, fs_merge req (requiredFields e))]"
| "node_requests H (PSort s ks desc) mp req p = Inr [(s, p, fs_merge req (scalarsFields ks))]"
| "node_requests H (PTopK s ks desc n) mp req p = Inr [(s, p, fs_merge req (scalarsFields ks))]"
| "node_requests H (PUnionAll ss) mp req p = Inr (map (\<lambda>s. (s, p, req)) ss)"
| "node_requests H (PValues vs) mp req p = Inr []"

definition op_requests :: "heap \<Rightarrow> nat \<Rightarrow> nat \<Rightarrow> request list res" where
  "op_requests H i p = node_requests H (node (H ! i)) (min_phase (H ! i)) (phase_fields (H ! i) p) p"

text \<open>\<open>requestOutput\<close> and the \<open>init\<close> it calls: the requests still to be made, the next one first.\<close>

definition take_request :: "heap \<Rightarrow> request \<Rightarrow> heap res" where
  "take_request H q = (case q of (i, p, F) \<Rightarrow>
     verify (min_phase (H ! i) \<le> p) (verify (contains_set (schema (H ! i)) F)
       (Inr (H[i := (H ! i)\<lparr>required_fields := merge_at p F (required_fields (H ! i)),
                            max_phase := max (max_phase (H ! i)) (int p)\<rparr>]))))"

partial_function (option) requestOutput :: "heap \<Rightarrow> request list \<Rightarrow> heap res option" where
  "requestOutput H qs = (case qs of
     [] \<Rightarrow> Some (Inr H)
   | q # rest \<Rightarrow> (case take_request H q of
       Inl f \<Rightarrow> Some (Inl f)
     | Inr H' \<Rightarrow> (case op_requests H' (fst q) (fst (snd q)) of
         Inl f \<Rightarrow> Some (Inl f)
       | Inr qs' \<Rightarrow> requestOutput H' (qs' @ rest))))"

section \<open>plan.cpp: Planner\<close>

record planner =
  heap :: heap
  named_ops :: "string \<rightharpoonup> nat"
  top_operations :: "nat list"
  default_time_range :: "TimeRange option"

definition new_op :: "planner \<Rightarrow> plan_node \<Rightarrow> nat \<Rightarrow> Schema \<Rightarrow> nat \<times> planner" where
  "new_op st n m sch = (length (heap st),
     st\<lparr>heap := heap st @ [\<lparr>node = n, max_phase = -1, min_phase = m, schema = sch, required_fields = []\<rparr>]\<rparr>)"

definition op_at :: "planner \<Rightarrow> nat \<Rightarrow> plan_op" where
  "op_at st i = heap st ! i"

text \<open>Planning in a fresh scope gives the expressions and the context they share.\<close>

definition in_scope :: "(ScalarScope option \<Rightarrow> ('a \<times> ScalarScope option) res) \<Rightarrow> ('a \<times> ScalarContext) res" where
  "in_scope f = rbind (f (Some emptyScope)) (\<lambda>(x, sc). Inr (x, case sc of None \<Rightarrow> [] | Some s \<Rightarrow> context_slots s))"

definition projectorsList ::
  "ext \<Rightarrow> Schema \<Rightarrow> Projector list \<Rightarrow> ScalarScope option \<Rightarrow> ((FieldId \<times> exec_scalar) list \<times> ScalarScope option) res" where
  "projectorsList X sch ps sc =
     rbind (expressionList X sch sc (map expr ps)) (\<lambda>(es, sc'). Inr (zip (map alias_field_id ps) es, sc'))"

definition unscoped :: "('a \<times> ScalarScope option) res \<Rightarrow> 'a res" where
  "unscoped m = rbind m (\<lambda>(x, sc). Inr x)"

fun planRelation :: "ext \<Rightarrow> Relation \<Rightarrow> planner \<Rightarrow> (nat \<times> planner) res"
and planRelations :: "ext \<Rightarrow> Relation list \<Rightarrow> planner \<Rightarrow> (nat list \<times> planner) res" where
  "planRelation X (EmptyRelation sch) st = Inr (new_op st (PValues []) 0 sch)"
| "planRelation X (ValuesRelation vs i sch) st = Inr (new_op st (PValues vs) 0 sch)"
| "planRelation X (ProjectionRelation r ps sch) st = rbind (planRelation X r st) (\<lambda>(s, st).
     rbind (in_scope (projectorsList X (schema (op_at st s)) ps)) (\<lambda>(qs, c).
       Inr (new_op st (PProjection s qs c) (min_phase (op_at st s)) sch)))"
| "planRelation X (AggregateRelation r as sch) st = rbind (planRelation X r st) (\<lambda>(s, st).
     rbind (in_scope (\<lambda>sc. aggregatesList X (schema (op_at st s)) sc as)) (\<lambda>(qs, c).
       Inr (new_op st (PAggregate s qs c) (min_phase (op_at st s)) sch)))"
| "planRelation X (GroupRelation r as ks sch) st = rbind (planRelation X r st) (\<lambda>(s, st).
     rbind (in_scope (\<lambda>sc. aggregatesList X (rel_schema r) sc as)) (\<lambda>(qs, c).
       rbind (unscoped (projectorsList X (rel_schema r) ks None)) (\<lambda>key.
         Inr (new_op st (PGroup s qs key c) (min_phase (op_at st s)) sch))))"
| "planRelation X (LimitRelation r n sch) st = rbind (planRelation X r st) (\<lambda>(s, st).
     Inr (new_op st (PLimit s n) (min_phase (op_at st s)) sch))"
| "planRelation X (FilterRelation r e sch) st = rbind (planRelation X r st) (\<lambda>(s, st).
     rbind (in_scope (\<lambda>sc. planScalar X (schema (op_at st s)) sc e)) (\<lambda>(condition, c).
       Inr (new_op st (PFilter s condition c) (min_phase (op_at st s)) sch)))"
| "planRelation X (SortRelation r es desc sch) st = rbind (planRelation X r st) (\<lambda>(s, st).
     rbind (unscoped (expressionList X (schema (op_at st s)) None es)) (\<lambda>key.
       Inr (new_op st (PSort s key desc) (min_phase (op_at st s)) sch)))"
| "planRelation X (TopKRelation r es desc n sch) st = rbind (planRelation X r st) (\<lambda>(s, st).
     rbind (unscoped (expressionList X (schema (op_at st s)) None es)) (\<lambda>key.
       Inr (new_op st (PTopK s key desc n) (min_phase (op_at st s)) sch)))"
| "planRelation X (SemiJoinRelation r m e i sch) st = rbind (planRelation X r st) (\<lambda>(s, st).
     rbind (planRelation X m st) (\<lambda>(t, st).
       rbind (unscoped (planScalar X (schema (op_at st s)) None e)) (\<lambda>x.
         Inr (new_op st (PHashSemiJoin t s x i) (max (min_phase (op_at st t) + 1) (min_phase (op_at st s))) sch))))"
| "planRelation X (MarkJoinRelation r m e out i sch) st = rbind (planRelation X r st) (\<lambda>(s, st).
     rbind (planRelation X m st) (\<lambda>(t, st).
       rbind (unscoped (planScalar X (schema (op_at st s)) None e)) (\<lambda>x.
         Inr (new_op st (PHashMarkJoin t s x i out) (max (min_phase (op_at st t) + 1) (min_phase (op_at st s))) sch))))"
| "planRelation X (LeftJoinRelation l r lk rk sch) st = rbind (planRelation X l st) (\<lambda>(s, st).
     rbind (planRelation X r st) (\<lambda>(t, st).
       rbind (unscoped (planScalar X (schema (op_at st s)) None lk)) (\<lambda>x.
       rbind (unscoped (planScalar X (schema (op_at st t)) None rk)) (\<lambda>y.
         Inr (new_op st (PHashLeftJoin s t x y) (max (min_phase (op_at st s)) (min_phase (op_at st t) + 1)) sch)))))"
| "planRelation X (UnionAllRelation rs sch) st = rbind (planRelations X rs st) (\<lambda>(ss, st).
     Inr (new_op st (PUnionAll ss) (foldl (\<lambda>m s. max m (min_phase (op_at st s))) 0 ss) sch))"
| "planRelation X (UnionAllSortedByRelation l r es desc sch) st = rbind (planRelation X l st) (\<lambda>(s, st).
     rbind (planRelation X r st) (\<lambda>(t, st).
       rbind (unscoped (expressionList X (schema (op_at st s)) None es)) (\<lambda>key.
         Inr (new_op st (PMergeSorted s t key desc) (max (min_phase (op_at st s)) (min_phase (op_at st t))) sch))))"
| "planRelation X (FileRelation path tr tf sch) st =
     (let r = (if tr = None \<and> \<not> isProbablyArchive path then default_time_range st else tr) in
      Inr (new_op st (PLog path r tf) 0 sch))"
| "planRelation X (StreamRelation cmd sch) st = Inr (new_op st (PStream cmd) 0 sch)"
| "planRelation X (NamedRelationReferenceRelation name sch) st =
     (case named_ops st name of None \<Rightarrow> Inl Thrown | Some i \<Rightarrow> Inr (i, st))"
| "planRelation X (MaterializeRelation r sch) st = rbind (planRelation X r st) (\<lambda>(s, st).
     Inr (new_op st (PMaterialize s) (min_phase (op_at st s)) sch))"
| "planRelations X [] st = Inr ([], st)"
| "planRelations X (r # rs) st = rbind (planRelation X r st) (\<lambda>(s, st).
     rbind (planRelations X rs st) (\<lambda>(ss, st). Inr (s # ss, st)))"

definition planStatement :: "ext \<Rightarrow> planner \<Rightarrow> Statement \<Rightarrow> planner res option" where
  "planStatement X st s = (case s of
     NamedRelationStatement name r \<Rightarrow> Some (rbind (planRelation X r st) (\<lambda>(i, st).
       Inr (st\<lparr>named_ops := (named_ops st)(name \<mapsto> i)\<rparr>)))
   | QueryStatement r \<Rightarrow> (case planRelation X r st of
       Inl f \<Rightarrow> Some (Inl f)
     | Inr (i, st) \<Rightarrow> (case fieldSet (schema (op_at st i)) of
         Inl f \<Rightarrow> Some (Inl f)
       | Inr F \<Rightarrow>
           let op = op_at st i; p = min_phase op;
               H = (heap st)[i := op\<lparr>max_phase := int p, required_fields := assign_at p F (required_fields op)\<rparr>] in
           (case op_requests H i p of
              Inl f \<Rightarrow> Some (Inl f)
            | Inr qs \<Rightarrow> map_option (\<lambda>r. rbind r (\<lambda>H'.
                Inr (st\<lparr>heap := H', top_operations := top_operations st @ [i]\<rparr>))) (requestOutput H qs)))))"

definition empty_planner :: "TimeRange option \<Rightarrow> planner" where
  "empty_planner tr = \<lparr>heap = [], named_ops = Map.empty, top_operations = [], default_time_range = tr\<rparr>"

fun planStatements :: "ext \<Rightarrow> planner \<Rightarrow> Statement list \<Rightarrow> planner res option" where
  "planStatements X st [] = Some (Inr st)"
| "planStatements X st (s # ss) = Option.bind (planStatement X st s) (\<lambda>r. case r of
     Inl f \<Rightarrow> Some (Inl f)
   | Inr st' \<Rightarrow> planStatements X st' ss)"

definition plan :: "ext \<Rightarrow> Program \<Rightarrow> TimeRange option \<Rightarrow> planner res option" where
  "plan X program tr = planStatements X (empty_planner tr) program"

section \<open>The fields of the phases\<close>

definition phases :: "plan_op \<Rightarrow> nat list" where
  "phases op = map fst (required_fields op)"

definition in_order :: "(nat \<times> FieldSet) list \<Rightarrow> bool" where
  "in_order ps \<longleftrightarrow> sorted_wrt (<) (map fst ps)"

lemma in_order_Cons: "in_order ((q, G) # ps) \<longleftrightarrow> (\<forall>p \<in> set (map fst ps). q < p) \<and> in_order ps"
  by (simp add: in_order_def)

lemma merge_at_keys: "set (map fst (merge_at p F ps)) = insert p (set (map fst ps))"
  by (induction p F ps rule: merge_at.induct) auto

lemma assign_at_keys: "set (map fst (assign_at p F ps)) = insert p (set (map fst ps))"
  by (induction p F ps rule: assign_at.induct) auto

lemmas at_keys = merge_at_keys [simplified] assign_at_keys [simplified]

lemma before_all: "\<forall>p \<in> set (map fst ps). (q :: nat) < p \<Longrightarrow> p' \<le> q \<Longrightarrow> map_of ps p' = None"
  by (auto simp: map_of_eq_None_iff)

lemma merge_at_map:
  "in_order ps \<Longrightarrow> in_order (merge_at p F ps) \<and>
     map_of (merge_at p F ps) = (map_of ps)(p \<mapsto> (case map_of ps p of None \<Rightarrow> F | Some G \<Rightarrow> G \<union> F))"
proof (induction p F ps rule: merge_at.induct)
  case (1 p F)
  then show ?case by (simp add: in_order_def)
next
  case (2 p F q G ps)
  from 2(2) have q: "\<forall>p \<in> set (map fst ps). q < p" and ps: "in_order ps" by (auto simp: in_order_Cons)
  consider "p = q" | "p < q" | "q < p" by linarith
  then show ?case
  proof cases
    case 1
    with 2(2) show ?thesis by (auto simp: in_order_Cons fs_merge_def)
  next
    case 2
    with q before_all [OF q, of p] 2 \<open>in_order ((q, G) # ps)\<close> show ?thesis by (auto simp: in_order_Cons)
  next
    case 3
    with "2.IH" [OF _ _ ps] q show ?thesis
      using merge_at_keys [of p F ps] by (auto simp: in_order_Cons fun_upd_twist)
  qed
qed

lemma assign_at_map:
  "in_order ps \<Longrightarrow> in_order (assign_at p F ps) \<and> map_of (assign_at p F ps) = (map_of ps)(p \<mapsto> F)"
proof (induction p F ps rule: assign_at.induct)
  case (1 p F)
  then show ?case by (simp add: in_order_def)
next
  case (2 p F q G ps)
  from 2(2) have q: "\<forall>p \<in> set (map fst ps). q < p" and ps: "in_order ps" by (auto simp: in_order_Cons)
  consider "p = q" | "p < q" | "q < p" by linarith
  then show ?case
  proof cases
    case 1
    with 2(2) show ?thesis by (auto simp: in_order_Cons)
  next
    case 2
    with q before_all [OF q, of p] 2 \<open>in_order ((q, G) # ps)\<close> show ?thesis by (auto simp: in_order_Cons)
  next
    case 3
    with "2.IH" [OF _ _ ps] q show ?thesis
      using assign_at_keys [of p F ps] by (auto simp: in_order_Cons fun_upd_twist)
  qed
qed

section \<open>Well-formed heaps\<close>

fun node_sources :: "plan_node \<Rightarrow> nat list" where
  "node_sources (PAggregate s as c) = [s]"
| "node_sources (PFilter s e c) = [s]"
| "node_sources (PGroup s as ks c) = [s]"
| "node_sources (PLimit s n) = [s]"
| "node_sources (PLog path r f) = []"
| "node_sources (PStream c) = []"
| "node_sources (PHashMarkJoin m s e i out) = [m, s]"
| "node_sources (PHashLeftJoin l r lk rk) = [r, l]"
| "node_sources (PMaterialize s) = [s]"
| "node_sources (PMergeSorted l r ks desc) = [l, r]"
| "node_sources (PProjection s ps c) = [s]"
| "node_sources (PHashSemiJoin m s e i) = [m, s]"
| "node_sources (PSort s ks desc) = [s]"
| "node_sources (PTopK s ks desc n) = [s]"
| "node_sources (PUnionAll ss) = ss"
| "node_sources (PValues vs) = []"

text \<open>What never changes of an operation.\<close>

definition static_of :: "plan_op \<Rightarrow> plan_node \<times> nat \<times> Schema" where
  "static_of op = (node op, min_phase op, schema op)"

lemma static_of_eq: "static_of a = static_of b \<longleftrightarrow> node a = node b \<and> min_phase a = min_phase b \<and> schema a = schema b"
  by (simp add: static_of_def)

lemma node_requests_cong:
  "(\<And>s. s \<in> set (node_sources n) \<Longrightarrow> static_of (H ! s) = static_of (H' ! s)) \<Longrightarrow>
   node_requests H n mp req p = node_requests H' n mp req p"
  by (cases n) (auto simp: static_of_eq)

lemma node_requests_sources: "node_requests H n mp req p = Inr qs \<Longrightarrow> (c, q, G) \<in> set qs \<Longrightarrow> c \<in> set (node_sources n)"
  by (cases n) auto

definition request_ok :: "heap \<Rightarrow> request \<Rightarrow> bool" where
  "request_ok H = (\<lambda>(i, p, F). i < length H \<and> min_phase (H ! i) \<le> p \<and> contains_set (schema (H ! i)) F)"

text \<open>An operation comes after its sources, a mark join has the field of its mark, and asked for fields it has in a phase it can run in, it asks
  its sources only for such fields and phases.\<close>

fun marks_ok :: "plan_node \<Rightarrow> Schema \<Rightarrow> bool" where
  "marks_ok (PHashMarkJoin m s e i out) sch = contains sch out"
| "marks_ok n sch = True"

definition node_ok :: "heap \<Rightarrow> nat \<Rightarrow> plan_node \<Rightarrow> nat \<Rightarrow> Schema \<Rightarrow> bool" where
  "node_ok H i n mp sch \<longleftrightarrow> (\<forall>s \<in> set (node_sources n). s < i) \<and> marks_ok n sch \<and>
     (\<forall>p req. mp \<le> p \<longrightarrow> contains_set sch req \<longrightarrow>
       (\<exists>qs. node_requests H n mp req p = Inr qs \<and> (\<forall>q \<in> set qs. request_ok H q)))"

definition op_ok :: "heap \<Rightarrow> nat \<Rightarrow> bool" where
  "op_ok H i \<longleftrightarrow> node_ok H i (node (H ! i)) (min_phase (H ! i)) (schema (H ! i)) \<and>
     in_order (required_fields (H ! i)) \<and>
     (\<forall>(p, F) \<in> set (required_fields (H ! i)). min_phase (H ! i) \<le> p \<and> contains_set (schema (H ! i)) F)"

definition heap_ok :: "heap \<Rightarrow> bool" where
  "heap_ok H \<longleftrightarrow> (\<forall>i < length H. op_ok H i)"

definition static_eq :: "heap \<Rightarrow> heap \<Rightarrow> bool" where
  "static_eq H H' \<longleftrightarrow> length H = length H' \<and> (\<forall>i < length H. static_of (H ! i) = static_of (H' ! i))"

lemma static_eq_refl [simp]: "static_eq H H"
  by (simp add: static_eq_def)

lemma static_eq_trans: "static_eq A B \<Longrightarrow> static_eq B C \<Longrightarrow> static_eq A C"
  by (auto simp: static_eq_def)

lemma request_ok_static: "static_eq H H' \<Longrightarrow> request_ok H q \<Longrightarrow> request_ok H' q"
  by (auto simp: request_ok_def static_eq_def static_of_eq)

lemma node_ok_static:
  assumes "static_eq H H'" "node_ok H i n mp sch" "i \<le> length H"
  shows "node_ok H' i n mp sch"
proof -
  from assms have "node_requests H' n mp req p = node_requests H n mp req p" for req p
    by (intro node_requests_cong) (fastforce simp: node_ok_def static_eq_def)
  with assms(2) request_ok_static [OF assms(1)] show ?thesis unfolding node_ok_def by metis
qed

lemma node_ok_append:
  assumes "node_ok H i n mp sch" "i \<le> length H"
  shows "node_ok (H @ K) i n mp sch"
proof -
  have "node_requests (H @ K) n mp req p = node_requests H n mp req p" for req p
    by (rule node_requests_cong) (use assms in \<open>fastforce simp: node_ok_def nth_append\<close>)
  moreover have "request_ok (H @ K) q" if "request_ok H q" for q using that by (auto simp: request_ok_def nth_append)
  ultimately show ?thesis using assms(1) unfolding node_ok_def by metis
qed

section \<open>Requests are met\<close>

definition met :: "heap \<Rightarrow> request \<Rightarrow> bool" where
  "met H = (\<lambda>(c, q, G). q \<in> set (phases (H ! c)) \<and> G \<subseteq> phase_fields (H ! c) q)"

definition covered :: "heap \<Rightarrow> request list \<Rightarrow> request \<Rightarrow> bool" where
  "covered H W r \<longleftrightarrow> met H r \<or> (\<exists>G. (fst r, fst (snd r), G) \<in> set W \<and> snd (snd r) \<subseteq> G)"

text \<open>Every request of an operation in a phase of it is met, or is still to be made.\<close>

definition closed_upto :: "heap \<Rightarrow> request list \<Rightarrow> bool" where
  "closed_upto H W \<longleftrightarrow> (\<forall>i p. i < length H \<longrightarrow> p \<in> set (phases (H ! i)) \<longrightarrow>
     (\<exists>qs. op_requests H i p = Inr qs \<and> (\<forall>r \<in> set qs. covered H W r)))"

definition grows :: "heap \<Rightarrow> heap \<Rightarrow> bool" where
  "grows H H' \<longleftrightarrow> (\<forall>r. fst r < length H \<longrightarrow> met H r \<longrightarrow> met H' r)"

lemma phase_fields_ok: "op_ok H i \<Longrightarrow> contains_set (schema (H ! i)) (phase_fields (H ! i) p)"
  by (auto simp: op_ok_def phase_fields_def contains_set_def split: option.splits dest!: map_of_SomeD)

lemma op_requests_ok:
  assumes "heap_ok H" "i < length H" "min_phase (H ! i) \<le> p"
  shows "\<exists>qs. op_requests H i p = Inr qs \<and> (\<forall>q \<in> set qs. request_ok H q \<and> fst q < i)"
proof -
  from assms(1,2) have ok: "op_ok H i" by (simp add: heap_ok_def)
  with phase_fields_ok [OF ok, of p] assms(3) obtain qs where
    qs: "op_requests H i p = Inr qs" "\<forall>q \<in> set qs. request_ok H q"
    unfolding op_ok_def node_ok_def op_requests_def by blast
  have "fst q < i" if "q \<in> set qs" for q
  proof -
    obtain c r G where q: "q = (c, r, G)" by (cases q)
    with node_requests_sources [OF qs(1) [unfolded op_requests_def]] that
    have "c \<in> set (node_sources (node (H ! i)))" by blast
    with ok q show ?thesis by (simp add: op_ok_def node_ok_def)
  qed
  with qs show ?thesis by blast
qed

text \<open>One request.\<close>

lemma take_request_ok:
  assumes "heap_ok H" "request_ok H (i, p, F)"
  obtains H' where "take_request H (i, p, F) = Inr H'" "heap_ok H'" "static_eq H H'" "grows H H'" "met H' (i, p, F)"
    "\<And>j q. j < length H \<Longrightarrow> (j, q) \<noteq> (i, p) \<Longrightarrow> q \<in> set (phases (H' ! j)) \<Longrightarrow>
       q \<in> set (phases (H ! j)) \<and> op_requests H' j q = op_requests H j q"
proof -
  let ?op = "H ! i"
  let ?op' = "?op\<lparr>required_fields := merge_at p F (required_fields ?op), max_phase := max (max_phase ?op) (int p)\<rparr>"
  let ?H = "H[i := ?op']"
  from assms(2) have i: "i < length H" and p: "min_phase ?op \<le> p" and F: "contains_set (schema ?op) F"
    by (auto simp: request_ok_def)
  have take: "take_request H (i, p, F) = Inr ?H" using p F by (simp add: take_request_def)
  have st: "static_eq H ?H" using i by (auto simp: static_eq_def static_of_eq nth_list_update)
  from assms(1) i have op: "op_ok H i" by (simp add: heap_ok_def)
  then have ord: "in_order (required_fields ?op)" by (simp add: op_ok_def)
  note m = merge_at_map [OF ord, of p F]
  have fields: "phase_fields ?op' q = (if q = p then phase_fields ?op p \<union> F else phase_fields ?op q)" for q
    using m by (auto simp: phase_fields_def split: option.splits)
  have ph: "set (phases ?op') = insert p (set (phases ?op))" by (simp add: phases_def at_keys)
  have entries: "min_phase ?op \<le> q \<and> contains_set (schema ?op) G" if "(q, G) \<in> set (required_fields ?op')" for q G
  proof -
    from that m have "map_of (merge_at p F (required_fields ?op)) q = Some G"
      by (intro map_of_is_SomeI) (auto simp: in_order_def strict_sorted_iff)
    with m have "((map_of (required_fields ?op))(p \<mapsto> (case map_of (required_fields ?op) p of None \<Rightarrow> F | Some G \<Rightarrow> G \<union> F))) q = Some G"
      by simp
    with op p F show ?thesis
      by (auto simp: op_ok_def contains_set_def split: if_splits option.splits dest!: map_of_SomeD)
  qed
  have ok: "heap_ok ?H"
    unfolding heap_ok_def
  proof (intro allI impI)
    fix j assume j: "j < length ?H"
    with assms(1) have "op_ok H j" by (simp add: heap_ok_def)
    then have n: "node_ok ?H j (node (?H ! j)) (min_phase (?H ! j)) (schema (?H ! j))"
      using node_ok_static [OF st] st j by (auto simp: op_ok_def static_eq_def static_of_eq)
    show "op_ok ?H j"
      using n \<open>op_ok H j\<close> entries m j by (cases "j = i") (auto simp: op_ok_def)
  qed
  have gr: "grows H ?H"
  proof -
    have "met ?H (j, q, G)" if "met H (j, q, G)" for j q G
      using that ph fields i by (cases "j = i") (auto simp: met_def)
    then show ?thesis by (auto simp: grows_def)
  qed
  have met: "met ?H (i, p, F)" using i ph fields by (simp add: met_def)
  have rest: "q \<in> set (phases (H ! j)) \<and> op_requests ?H j q = op_requests H j q"
    if "j < length H" "(j, q) \<noteq> (i, p)" "q \<in> set (phases (?H ! j))" for j q
  proof
    show "q \<in> set (phases (H ! j))" using that ph by (cases "j = i") auto
    from assms(1) that(1) have ok: "op_ok H j" by (simp add: heap_ok_def)
    have "node_requests ?H (node (H ! j)) (min_phase (H ! j)) F p = node_requests H (node (H ! j)) (min_phase (H ! j)) F p" for F p
      using ok st that(1) by (intro node_requests_cong) (fastforce simp: op_ok_def node_ok_def static_eq_def)
    moreover have "phase_fields (?H ! j) q = phase_fields (H ! j) q" using that fields by (cases "j = i") auto
    moreover have "node (?H ! j) = node (H ! j)" "min_phase (?H ! j) = min_phase (H ! j)" using that(1) i by (auto simp: nth_list_update)
    ultimately show "op_requests ?H j q = op_requests H j q" by (simp add: op_requests_def)
  qed
  from that [OF take ok st gr met rest] show ?thesis by simp
qed

lemma grows_trans: "grows A B \<Longrightarrow> grows B C \<Longrightarrow> length A = length B \<Longrightarrow> grows A C"
  by (auto simp: grows_def)

lemma met_subset: "met H (c, q, G) \<Longrightarrow> F \<subseteq> G \<Longrightarrow> met H (c, q, F)"
  by (auto simp: met_def)

text \<open>All requests: they end, and then every request of every operation is met.\<close>

lemma requestOutput_closed:
  assumes "heap_ok H" "\<forall>q \<in> set W. request_ok H q" "closed_upto H W"
  shows "\<exists>H'. requestOutput H W = Some (Inr H') \<and> heap_ok H' \<and> static_eq H H' \<and> grows H H' \<and> closed_upto H' []"
  using assms
proof (induction "mset (map fst W)" arbitrary: H W rule: less_induct)
  case less
  show ?case
  proof (cases W)
    case Nil
    with less.prems show ?thesis by (simp add: requestOutput.simps grows_def)
  next
    case (Cons r rest)
    obtain i p F where r: "r = (i, p, F)" by (cases r)
    from less.prems(2) Cons r have rok: "request_ok H (i, p, F)" by simp
    from take_request_ok [OF less.prems(1) rok] obtain H1 where
      H1: "take_request H (i, p, F) = Inr H1" "heap_ok H1" "static_eq H H1" "grows H H1" "met H1 (i, p, F)"
      "\<And>j q. j < length H \<Longrightarrow> (j, q) \<noteq> (i, p) \<Longrightarrow> q \<in> set (phases (H1 ! j)) \<Longrightarrow>
         q \<in> set (phases (H ! j)) \<and> op_requests H1 j q = op_requests H j q" by blast
    from H1(3) have len: "length H1 = length H" by (simp add: static_eq_def)
    from rok H1(3) have i: "i < length H" and "min_phase (H1 ! i) \<le> p" by (auto simp: request_ok_def static_eq_def static_of_eq)
    with op_requests_ok [OF H1(2), of i p] len obtain qs where qs: "op_requests H1 i p = Inr qs"
      "\<forall>q \<in> set qs. request_ok H1 q \<and> fst q < i" by metis
    have step: "requestOutput H W = requestOutput H1 (qs @ rest)"
      unfolding Cons requestOutput.simps [of H "r # rest"] by (simp add: r H1(1) qs(1))
    have smaller: "mset (map fst (qs @ rest)) < mset (map fst W)"
    proof -
      have "mset (map fst qs) < {#i#}"
        using qs(2) by (intro ex_gt_imp_less_multiset) auto
      then show ?thesis by (simp add: Cons r)
    qed
    have ok: "\<forall>q \<in> set (qs @ rest). request_ok H1 q"
      using qs(2) less.prems(2) request_ok_static [OF H1(3)] by (auto simp: Cons)
    have closed: "closed_upto H1 (qs @ rest)"
      unfolding closed_upto_def
    proof (intro allI impI)
      fix j q assume j: "j < length H1" and q: "q \<in> set (phases (H1 ! j))"
      show "\<exists>rs. op_requests H1 j q = Inr rs \<and> (\<forall>r \<in> set rs. covered H1 (qs @ rest) r)"
      proof (cases "(j, q) = (i, p)")
        case True
        with qs(1) show ?thesis by (force simp: covered_def)
      next
        case False
        with H1(6) j q len have old: "q \<in> set (phases (H ! j))" "op_requests H1 j q = op_requests H j q" by auto
        with less.prems(3) j len obtain rs where rs: "op_requests H j q = Inr rs" "\<forall>r \<in> set rs. covered H W r"
          unfolding closed_upto_def by metis
        from less.prems(1) j len have "op_ok H j" by (simp add: heap_ok_def)
        have "covered H1 (qs @ rest) s" if s: "s \<in> set rs" for s
        proof -
          obtain c k G where sg: "s = (c, k, G)" by (cases s)
          from rs(1) s sg have "c \<in> set (node_sources (node (H ! j)))"
            unfolding op_requests_def by (auto dest: node_requests_sources)
          with \<open>op_ok H j\<close> j len have c: "c < length H" by (auto simp: op_ok_def node_ok_def)
          from rs(2) s consider "met H s" | G' where "(c, k, G') \<in> set W" "G \<subseteq> G'" by (auto simp: covered_def sg)
          then show ?thesis
          proof cases
            case 1
            with H1(4) c sg show ?thesis by (auto simp: covered_def grows_def)
          next
            case 2
            then consider "(c, k, G') = (i, p, F)" | "(c, k, G') \<in> set rest" by (auto simp: Cons r)
            then show ?thesis
            proof cases
              case 1
              with H1(5) 2(2) have "met H1 s" by (auto simp: sg intro: met_subset)
              then show ?thesis by (simp add: covered_def)
            next
              case 2
              with \<open>G \<subseteq> G'\<close> show ?thesis by (auto simp: covered_def sg)
            qed
          qed
        qed
        with rs(1) old(2) show ?thesis by auto
      qed
    qed
    from less.hyps [OF smaller H1(2) ok closed] obtain H' where H':
      "requestOutput H1 (qs @ rest) = Some (Inr H')" "heap_ok H'" "static_eq H1 H'" "grows H1 H'" "closed_upto H' []" by blast
    then show ?thesis
      using step static_eq_trans [OF H1(3) H'(3)] grows_trans [OF H1(4) H'(4)] len by auto
  qed
qed

section \<open>Planning expressions succeeds\<close>

text \<open>The library can build the functions: the types are those it dispatches on, the patterns compile.\<close>

fun scalar_builds :: "ext \<Rightarrow> Scalar \<Rightarrow> bool" where
  "scalar_builds X (FieldScalar i t) = True"
| "scalar_builds X (ValueScalar v t) = True"
| "scalar_builds X (CachedScalar a t) = scalar_builds X a"
| "scalar_builds X (CoalesceScalar as t) = list_all (scalar_builds X) as"
| "scalar_builds X (FnCallScalar f as t) = ((\<exists>e. buildScalar X f = Inr e) \<and> list_all (scalar_builds X) as)"

fun node_builds :: "ext \<Rightarrow> AggregateNode \<Rightarrow> bool" where
  "node_builds X (ConstAggregate v null_if_empty) = True"
| "node_builds X (FnCallAggregate f as) = ((\<exists>g. buildAggregate f = Inr g) \<and> list_all (scalar_builds X) as)"

lemma build_call_total:
  assumes "fn_types f us t" "buildScalar X f = Inr ex" "length es = length us"
  shows "\<exists>e. build_call u ex es = Inr e \<and> requiredFields e \<subseteq> \<Union> (set (map requiredFields es))"
proof -
  from assms(1) obtain ts where ts: "fn_wt f ts t" "list_all2 fits us ts" by (auto simp: fn_types_def)
  from ts(2) assms(3) have len: "length es = length ts" by (simp add: list_all2_lengthD)
  show ?thesis
  proof (cases ex)
    case (UnaryExecutor g)
    with ts(1) assms(2) have "length ts = 1" by (cases f) (auto split: if_splits)
    with len UnaryExecutor show ?thesis by (auto simp: length_Suc_conv)
  next
    case (BinaryExecutor g)
    with ts(1) assms(2) have "length ts = 2" by (cases f) (auto split: if_splits)
    with len BinaryExecutor show ?thesis by (auto simp: length_Suc_conv numeral_2_eq_2 fs_merge_def)
  qed simp
qed

definition fields_in :: "Schema \<Rightarrow> Scalar \<Rightarrow> bool" where
  "fields_in sch s \<longleftrightarrow> scalar_fields s \<subseteq> {i. contains sch i}"

lemma planScalar_total:
  "scalar_wt \<Gamma> s \<Longrightarrow> scalar_builds X s \<Longrightarrow> fields_in sch s \<Longrightarrow>
     \<exists>e sc'. planScalar X sch sc s = Inr (e, sc') \<and> requiredFields e \<subseteq> scalar_fields s"
  "list_all (scalar_wt \<Gamma>) as \<Longrightarrow> list_all (scalar_builds X) as \<Longrightarrow> list_all (fields_in sch) as \<Longrightarrow>
     \<exists>es sc'. expressionList X sch sc as = Inr (es, sc') \<and> length es = length as \<and>
       \<Union> (set (map requiredFields es)) \<subseteq> \<Union> (set (map scalar_fields as))"
proof (induction X sch sc s and X sch sc as rule: planScalar_expressionList.induct)
  case (1 X sch sc i t)
  then show ?case by (auto simp: fields_in_def contains_def slot_def)
next
  case (3 X sch sc a t)
  show ?case
  proof (cases sc)
    case None
    with 3(1) [OF None] 3(3-5) show ?thesis by (auto simp: fields_in_def)
  next
    case (Some scope)
    obtain i scope' where sl: "scope_slot scope a = (i, scope')" by force
    from 3(2) [OF Some sl [symmetric] refl] 3(3-5) obtain e sc1 where
      "planScalar X sch (Some scope') a = Inr (e, sc1)" "requiredFields e \<subseteq> scalar_fields a"
      by (auto simp: fields_in_def)
    then show ?thesis by (simp add: Some sl)
  qed
next
  case (4 X sch sc as t)
  then have "list_all (fields_in sch) as" by (auto simp: fields_in_def list_all_iff)
  with 4 obtain es sc' where "expressionList X sch sc as = Inr (es, sc')"
    "\<Union> (set (map requiredFields es)) \<subseteq> \<Union> (set (map scalar_fields as))" by (auto simp: list_all_iff)
  then show ?case by simp
next
  case (5 X sch sc f as t)
  from 5(2-4) obtain ex where ex: "buildScalar X f = Inr ex" "fn_types f (map value_type as) t" by auto
  from 5(4) have "list_all (fields_in sch) as" by (auto simp: fields_in_def list_all_iff)
  with 5(1-3) obtain es sc' where es: "expressionList X sch sc as = Inr (es, sc')" "length es = length as"
    "\<Union> (set (map requiredFields es)) \<subseteq> \<Union> (set (map scalar_fields as))"
    by (auto simp: list_all_iff)
  from build_call_total [OF ex(2,1), of es t] es obtain e where
    "build_call t ex es = Inr e" "requiredFields e \<subseteq> \<Union> (set (map requiredFields es))" by auto
  with es ex show ?case by auto
next
  case (7 X sch sc a as)
  from 7(1) 7(3-5) obtain e sc1 where e: "planScalar X sch sc a = Inr (e, sc1)" "requiredFields e \<subseteq> scalar_fields a"
    by auto
  from 7(2) [OF e(1) refl] 7(3-5) obtain es sc2 where "expressionList X sch sc1 as = Inr (es, sc2)" "length es = length as"
    "\<Union> (set (map requiredFields es)) \<subseteq> \<Union> (set (map scalar_fields as))" by auto
  with e show ?case by auto
qed auto

lemma planAggregate_total:
  assumes "agg_node_wt \<Gamma> {i. contains sch i} (agg_node a) t" "node_builds X (agg_node a)"
  shows "\<exists>e sc'. planAggregate X sch sc a = Inr ((output_field_id a, e), sc') \<and> aggregate_fields e \<subseteq> {i. contains sch i}"
proof (cases "agg_node a")
  case (ConstAggregate v b)
  then show ?thesis by (simp add: planAggregate_def)
next
  case (FnCallAggregate f as)
  from assms FnCallAggregate obtain g where g: "buildAggregate f = Inr g"
    and as: "list_all (scalar_wt \<Gamma>) as" "list_all (scalar_builds X) as" "list_all (fields_in sch) as"
    and wt: "agg_fn_wt f (map value_type as) t"
    by (auto simp: exprs_ok_def list_all_iff fields_in_def)
  from planScalar_total(2) [OF as, of sc] obtain es sc' where es: "expressionList X sch sc as = Inr (es, sc')"
    "length es = length as" "\<Union> (set (map requiredFields es)) \<subseteq> \<Union> (set (map scalar_fields as))" by blast
  have fields: "\<Union> (set (map requiredFields es)) \<subseteq> {i. contains sch i}"
    using es(3) as(3) by (auto simp: list_all_iff fields_in_def)
  show ?thesis
  proof (cases g)
    case (NullaryAggregate x)
    with g wt have "as = []" by (cases f) (auto split: if_splits)
    with es g NullaryAggregate show ?thesis by (simp add: planAggregate_def FnCallAggregate)
  next
    case (UnaryAggregate x)
    with g wt have "length as = 1" by (cases f) (auto split: if_splits dest: list_all2_lengthD)
    with es(2) obtain e where "es = [e]" by (auto simp: length_Suc_conv)
    with es g UnaryAggregate fields show ?thesis by (simp add: planAggregate_def FnCallAggregate)
  qed
qed

lemma aggregatesList_total:
  "aggs_ok \<Gamma> {i. contains sch i} as \<Longrightarrow> \<forall>a \<in> set as. node_builds X (agg_node a) \<Longrightarrow>
   \<exists>ps sc'. aggregatesList X sch sc as = Inr (ps, sc') \<and> map fst ps = map output_field_id as \<and>
     (\<forall>(i, e) \<in> set ps. aggregate_fields e \<subseteq> {i. contains sch i})"
proof (induction as arbitrary: sc)
  case (Cons a as)
  from Cons.prems planAggregate_total [of \<Gamma> sch a "agg_type a" X sc] obtain e sc1 where
    e: "planAggregate X sch sc a = Inr ((output_field_id a, e), sc1)" "aggregate_fields e \<subseteq> {i. contains sch i}"
    by (auto simp: aggs_ok_def)
  from Cons.prems have "aggs_ok \<Gamma> {i. contains sch i} as" "\<forall>a \<in> set as. node_builds X (agg_node a)" by (auto simp: aggs_ok_def)
  from Cons.IH [OF this, of sc1] e show ?case by auto
qed simp

lemma projectorsList_total:
  assumes "projs_ok \<Gamma> {i. contains sch i} ps" "\<forall>p \<in> set ps. scalar_builds X (expr p)"
  shows "\<exists>qs sc'. projectorsList X sch ps sc = Inr (qs, sc') \<and> map fst qs = map alias_field_id ps \<and>
     (\<forall>(i, e) \<in> set qs. requiredFields e \<subseteq> {i. contains sch i})"
proof -
  from assms have "list_all (scalar_wt \<Gamma>) (map expr ps)" "list_all (scalar_builds X) (map expr ps)"
    "list_all (fields_in sch) (map expr ps)"
    by (auto simp: projs_ok_def exprs_ok_def list_all_iff fields_in_def)
  note * = this
  from planScalar_total(2) [OF *, of sc] obtain es sc' where es: "expressionList X sch sc (map expr ps) = Inr (es, sc')"
    "length es = length ps" "\<Union> (set (map requiredFields es)) \<subseteq> \<Union> (set (map scalar_fields (map expr ps)))" by auto
  have "requiredFields e \<subseteq> {i. contains sch i}" if "(i, e) \<in> set (zip (map alias_field_id ps) es)" for i e
    using es(3) *(3) set_zip_rightD [OF that] by (force simp: list_all_iff fields_in_def)
  then have "\<forall>(i, e) \<in> set (zip (map alias_field_id ps) es). requiredFields e \<subseteq> {i. contains sch i}" by blast
  with es(1,2) show ?thesis by (simp add: projectorsList_def)
qed

lemma expressionList_total:
  assumes "exprs_ok \<Gamma> {i. contains sch i} es" "\<forall>e \<in> set es. scalar_builds X e"
  shows "\<exists>xs sc'. expressionList X sch sc es = Inr (xs, sc') \<and> scalarsFields xs \<subseteq> {i. contains sch i}"
proof -
  from assms have *: "list_all (scalar_wt \<Gamma>) es" "list_all (scalar_builds X) es" "list_all (fields_in sch) es"
    by (auto simp: exprs_ok_def list_all_iff fields_in_def)
  from planScalar_total(2) [OF *, of sc] obtain xs sc' where xs: "expressionList X sch sc es = Inr (xs, sc')"
    "\<Union> (set (map requiredFields xs)) \<subseteq> \<Union> (set (map scalar_fields es))" by blast
  have "scalarsFields xs \<subseteq> {i. contains sch i}"
    using xs(2) *(3) by (fastforce simp: scalarsFields_def list_all_iff fields_in_def)
  with xs(1) show ?thesis by blast
qed

section \<open>Planning relations succeeds\<close>

fun node_aggs :: "Relation \<Rightarrow> Aggregate list" where
  "node_aggs (AggregateRelation r as sch) = as"
| "node_aggs (GroupRelation r as ks sch) = as"
| "node_aggs _ = []"

text \<open>A well-typed relation whose functions build and whose references are to known relations of their
  schema; \<open>N\<close> has the schemas of the named relations.\<close>

definition node_plannable :: "(FieldId \<rightharpoonup> ValueType) \<Rightarrow> ext \<Rightarrow> (string \<rightharpoonup> Schema) \<Rightarrow> Relation \<Rightarrow> bool" where
  "node_plannable \<Gamma> X N r \<longleftrightarrow> node_wt \<Gamma> r \<and> (\<forall>e \<in> set (own_scalars r). scalar_builds X e) \<and>
     (\<forall>a \<in> set (node_aggs r). node_builds X (agg_node a)) \<and>
     (\<forall>n sch. r = NamedRelationReferenceRelation n sch \<longrightarrow> N n = Some sch)"

function plannable :: "(FieldId \<rightharpoonup> ValueType) \<Rightarrow> ext \<Rightarrow> (string \<rightharpoonup> Schema) \<Rightarrow> Relation \<Rightarrow> bool" where
  "plannable \<Gamma> X N r = (node_plannable \<Gamma> X N r \<and> list_all (plannable \<Gamma> X N) (children r))"
  by pat_completeness auto

termination plannable
  by (relation "measure (\<lambda>(\<Gamma>, X, N, r). size r)") (auto simp: children_size)

declare plannable.simps [simp del]

definition top_ok :: "heap \<Rightarrow> nat \<Rightarrow> bool" where
  "top_ok H i \<longleftrightarrow> i < length H \<and> min_phase (H ! i) \<in> set (phases (H ! i)) \<and>
     (\<forall>j. contains (schema (H ! i)) j \<longrightarrow> j \<in> phase_fields (H ! i) (min_phase (H ! i)))"

definition planner_ok :: "(string \<rightharpoonup> Schema) \<Rightarrow> planner \<Rightarrow> bool" where
  "planner_ok N st \<longleftrightarrow> heap_ok (heap st) \<and> closed_upto (heap st) [] \<and>
     (\<forall>n sch. N n = Some sch \<longrightarrow> (\<exists>i. named_ops st n = Some i \<and> i < length (heap st) \<and> schema (heap st ! i) = sch)) \<and>
     (\<forall>i \<in> set (top_operations st). top_ok (heap st) i) \<and>
     (\<forall>op \<in> set (heap st). \<exists>is. has_schema (schema op) is)"

definition extends :: "planner \<Rightarrow> planner \<Rightarrow> bool" where
  "extends st st' \<longleftrightarrow> (\<exists>ops. heap st' = heap st @ ops) \<and> top_operations st' = top_operations st \<and>
     named_ops st' = named_ops st"

definition gives :: "(string \<rightharpoonup> Schema) \<Rightarrow> Schema \<Rightarrow> planner \<Rightarrow> (nat \<times> planner) res \<Rightarrow> bool" where
  "gives N sch st m \<longleftrightarrow> (\<exists>i st'. m = Inr (i, st') \<and> extends st st' \<and> planner_ok N st' \<and> i < length (heap st') \<and>
     schema (op_at st' i) = sch)"

lemma extends_refl [simp]: "extends st st"
  by (simp add: extends_def)

lemma extends_trans: "extends a b \<Longrightarrow> extends b c \<Longrightarrow> extends a c"
  by (auto simp: extends_def)

lemma extends_op: "extends st st' \<Longrightarrow> i < length (heap st) \<Longrightarrow> op_at st' i = op_at st i \<and> i < length (heap st')"
  by (auto simp: extends_def op_at_def nth_append)

lemma heap_append_closed:
  assumes "heap_ok H" "closed_upto H []" "op_ok (H @ [op]) (length H)" "phases op = []"
  shows "heap_ok (H @ [op])" "closed_upto (H @ [op]) []"
proof -
  show ok: "heap_ok (H @ [op])"
    unfolding heap_ok_def
  proof (intro allI impI)
    fix i assume i: "i < length (H @ [op])"
    show "op_ok (H @ [op]) i"
    proof (cases "i < length H")
      case True
      with assms(1) have "op_ok H i" by (simp add: heap_ok_def)
      with True node_ok_append [of H i] show ?thesis by (auto simp: op_ok_def nth_append)
    next
      case False
      with i assms(3) show ?thesis by (simp add: less_Suc_eq)
    qed
  qed
  show "closed_upto (H @ [op]) []"
    unfolding closed_upto_def
  proof (intro allI impI)
    fix i p assume i: "i < length (H @ [op])" and p: "p \<in> set (phases ((H @ [op]) ! i))"
    have lt: "i < length H"
    proof (rule ccontr)
      assume "\<not> i < length H"
      with i have "i = length H" by simp
      with p assms(4) show False by simp
    qed
    with p have "p \<in> set (phases (H ! i))" by (simp add: nth_append)
    with assms(2) lt obtain qs where qs: "op_requests H i p = Inr qs" "\<forall>r \<in> set qs. covered H [] r"
      unfolding closed_upto_def by metis
    from assms(1) lt have src: "\<forall>s \<in> set (node_sources (node (H ! i))). s < i" by (auto simp: heap_ok_def op_ok_def node_ok_def)
    then have "op_requests (H @ [op]) i p = op_requests H i p"
      using lt by (auto simp: op_requests_def nth_append intro!: node_requests_cong)
    moreover have "covered (H @ [op]) [] r" if "r \<in> set qs" for r
    proof -
      obtain c k G where r: "r = (c, k, G)" by (cases r)
      with that qs(1) src lt have "c < length H" by (fastforce simp: op_requests_def dest: node_requests_sources)
      with that qs(2) show ?thesis by (auto simp: covered_def met_def r nth_append)
    qed
    ultimately show "\<exists>qs. op_requests (H @ [op]) i p = Inr qs \<and> (\<forall>r \<in> set qs. covered (H @ [op]) [] r)"
      using qs(1) by simp
  qed
qed

lemma new_op_gives:
  assumes "planner_ok N st'" "extends st st'" "node_ok (heap st') (length (heap st')) n mp sch" "\<exists>is. has_schema sch is"
  shows "gives N sch st (Inr (new_op st' n mp sch))"
proof -
  let ?op = "\<lparr>node = n, max_phase = -1, min_phase = mp, schema = sch, required_fields = []\<rparr>"
  have op: "op_ok (heap st' @ [?op]) (length (heap st'))"
    using node_ok_append [OF assms(3), of "[?op]"] by (simp add: op_ok_def in_order_def)
  from assms(1) have H: "heap_ok (heap st')" "closed_upto (heap st') []" by (simp_all add: planner_ok_def)
  from heap_append_closed [OF H op] have "heap_ok (heap st' @ [?op])" "closed_upto (heap st' @ [?op]) []"
    by (simp_all add: phases_def)
  with assms(1,4) have "planner_ok N (snd (new_op st' n mp sch))"
    unfolding planner_ok_def new_op_def by (fastforce simp: nth_append top_ok_def)
  with assms(2) show ?thesis by (auto simp: gives_def new_op_def extends_def op_at_def)
qed

lemma in_scope_Inr: "f (Some emptyScope) = Inr (x, sc) \<Longrightarrow> \<exists>c. in_scope f = Inr (x, c)"
  by (simp add: in_scope_def)

lemma unscoped_Inr: "m = Inr (x, sc) \<Longrightarrow> unscoped m = Inr x"
  by (simp add: unscoped_def)

lemma node_ok_single:
  assumes "node_sources n = [s]" "s < length H"
    and "\<And>p req. mp \<le> p \<Longrightarrow> contains_set sch req \<Longrightarrow> \<exists>q G. node_requests H n mp req p = Inr [(s, q, G)] \<and>
      min_phase (H ! s) \<le> q \<and> contains_set (schema (H ! s)) G"
  shows "node_ok H (length H) n mp sch"
  unfolding node_ok_def
proof (intro conjI allI impI)
  fix p req assume "mp \<le> p" "contains_set sch req"
  from assms(3) [OF this] obtain q G where "node_requests H n mp req p = Inr [(s, q, G)]"
    "min_phase (H ! s) \<le> q" "contains_set (schema (H ! s)) G" by blast
  with assms(2) show "\<exists>qs. node_requests H n mp req p = Inr qs \<and> (\<forall>q \<in> set qs. request_ok H q)"
    by (auto simp: request_ok_def)
next
  show "marks_ok n sch" using assms(1) by (cases n) auto
qed (use assms(1,2) in simp)

lemma node_ok_pair:
  assumes "set (node_sources n) = {s, t}" "s < length H" "t < length H" "marks_ok n sch"
    and "\<And>p req. mp \<le> p \<Longrightarrow> contains_set sch req \<Longrightarrow> \<exists>q G r F. node_requests H n mp req p = Inr [(s, q, G), (t, r, F)] \<and>
      min_phase (H ! s) \<le> q \<and> contains_set (schema (H ! s)) G \<and> min_phase (H ! t) \<le> r \<and> contains_set (schema (H ! t)) F"
  shows "node_ok H (length H) n mp sch"
  unfolding node_ok_def
proof (intro conjI allI impI)
  fix p req assume "mp \<le> p" "contains_set sch req"
  from assms(5) [OF this] obtain q G r F where "node_requests H n mp req p = Inr [(s, q, G), (t, r, F)]"
    "min_phase (H ! s) \<le> q" "contains_set (schema (H ! s)) G" "min_phase (H ! t) \<le> r" "contains_set (schema (H ! t)) F"
    by blast
  with assms(2,3) show "\<exists>qs. node_requests H n mp req p = Inr qs \<and> (\<forall>q \<in> set qs. request_ok H q)"
    by (auto simp: request_ok_def)
qed (use assms(1-4) in simp_all)

lemma requiredProjectorsFields_sub: "\<forall>(i, e) \<in> set ps. f e \<subseteq> A \<Longrightarrow> requiredProjectorsFields f ps R \<subseteq> A"
  by (fastforce simp: requiredProjectorsFields_def split: if_splits)

lemma projectorsFields_sub: "\<forall>(i, e) \<in> set ps. f e \<subseteq> A \<Longrightarrow> projectorsFields f ps \<subseteq> A"
  by (fastforce simp: projectorsFields_def)

lemma contains_set_iff: "contains_set sch F \<longleftrightarrow> F \<subseteq> {i. contains sch i}"
  by (auto simp: contains_set_def)

lemma foldl_max: "(a :: nat) \<le> foldl (\<lambda>m s. max m (f s)) a ss \<and> (s \<in> set ss \<longrightarrow> f s \<le> foldl (\<lambda>m s. max m (f s)) a ss)"
proof (induction ss arbitrary: a)
  case (Cons x ss)
  from Cons.IH [of "max a (f x)"] show ?case by auto
qed simp

lemma plannable_node: "plannable \<Gamma> X N r \<Longrightarrow> node_plannable \<Gamma> X N r \<and> (\<forall>c \<in> set (children r). plannable \<Gamma> X N c)"
  by (subst (asm) plannable.simps) (simp add: list_all_iff)

lemma givesE:
  assumes "gives N sch st m"
  obtains i st' where "m = Inr (i, st')" "extends st st'" "planner_ok N st'" "i < length (heap st')" "schema (op_at st' i) = sch"
  using assms by (auto simp: gives_def)

lemma op_schema: "planner_ok N st \<Longrightarrow> i < length (heap st) \<Longrightarrow> \<exists>is. has_schema (schema (op_at st i)) is"
  by (auto simp: planner_ok_def op_at_def)

text \<open>An operation with one source: what it asks of it is in its schema, in no earlier phase.\<close>

lemma single_gives:
  assumes "planner_ok N st'" "extends st st'" "s < length (heap st')" "node_sources n = [s]" "\<exists>is. has_schema sch is"
    and "\<And>p req. min_phase (op_at st' s) \<le> p \<Longrightarrow> contains_set sch req \<Longrightarrow> \<exists>q G. node_requests (heap st') n (min_phase (op_at st' s)) req p = Inr [(s, q, G)] \<and>
      min_phase (op_at st' s) \<le> q \<and> contains_set (schema (op_at st' s)) G"
  shows "gives N sch st (Inr (new_op st' n (min_phase (op_at st' s)) sch))"
  by (rule new_op_gives [OF assms(1,2) node_ok_single [OF assms(4,3)] assms(5)])
    (use assms(6) in \<open>simp add: op_at_def\<close>)

lemma pair_gives:
  assumes "planner_ok N st'" "extends st st'" "s < length (heap st')" "t < length (heap st')" "set (node_sources n) = {s, t}"
    and "\<exists>is. has_schema sch is" "marks_ok n sch"
    and "\<And>p req. mp \<le> p \<Longrightarrow> contains_set sch req \<Longrightarrow> \<exists>q G r F. node_requests (heap st') n mp req p = Inr [(s, q, G), (t, r, F)] \<and>
      min_phase (op_at st' s) \<le> q \<and> contains_set (schema (op_at st' s)) G \<and>
      min_phase (op_at st' t) \<le> r \<and> contains_set (schema (op_at st' t)) F"
  shows "gives N sch st (Inr (new_op st' n mp sch))"
  by (rule new_op_gives [OF assms(1,2) node_ok_pair [OF assms(5,3,4,7)] assms(6)])
    (use assms(8) in \<open>simp add: op_at_def\<close>)

lemma source_gives:
  assumes "planner_ok N st" "\<exists>is. has_schema sch is" "node_sources n = []"
    and "\<And>req p. node_requests (heap st) n mp req p = Inr []"
  shows "gives N sch st (Inr (new_op st n mp sch))"
proof -
  have "marks_ok n sch" using assms(3) by (cases n) auto
  then show ?thesis by (intro new_op_gives [OF assms(1) extends_refl _ assms(2)]) (simp add: node_ok_def assms(3,4))
qed

abbreviation relation_gives :: "(FieldId \<rightharpoonup> ValueType) \<Rightarrow> ext \<Rightarrow> (string \<rightharpoonup> Schema) \<Rightarrow> Relation \<Rightarrow> bool" where
  "relation_gives \<Gamma> X N r \<equiv> \<forall>st. planner_ok N st \<longrightarrow> plannable \<Gamma> X N r \<longrightarrow> gives N (rel_schema r) st (planRelation X r st)"

lemma planRelations_gives:
  "\<forall>r \<in> set rs. relation_gives \<Gamma> X N r \<Longrightarrow> planner_ok N st \<Longrightarrow> \<forall>r \<in> set rs. plannable \<Gamma> X N r \<Longrightarrow>
    \<exists>ss st'. planRelations X rs st = Inr (ss, st') \<and> extends st st' \<and> planner_ok N st' \<and>
      list_all2 (\<lambda>s r. s < length (heap st') \<and> schema (op_at st' s) = rel_schema r) ss rs"
proof (induction rs arbitrary: st)
  case (Cons r rs)
  then have "gives N (rel_schema r) st (planRelation X r st)" by simp
  then obtain i st1 where i: "planRelation X r st = Inr (i, st1)" "extends st st1" "planner_ok N st1"
    "i < length (heap st1)" "schema (op_at st1 i) = rel_schema r" by (rule givesE)
  from Cons.IH [OF _ i(3)] Cons.prems obtain ss st2 where ss: "planRelations X rs st1 = Inr (ss, st2)"
    "extends st1 st2" "planner_ok N st2"
    "list_all2 (\<lambda>s r. s < length (heap st2) \<and> schema (op_at st2 s) = rel_schema r) ss rs" by auto
  with i extends_op [OF ss(2) i(4)] extends_trans [OF i(2) ss(2)] show ?case by auto
qed simp

lemma gives_projection:
  assumes "relation_gives \<Gamma> X N r" "planner_ok N st" "plannable \<Gamma> X N (ProjectionRelation r ps sch)"
  shows "gives N sch st (planRelation X (ProjectionRelation r ps sch) st)"
proof -
  from plannable_node [OF assms(3)] have n: "node_plannable \<Gamma> X N (ProjectionRelation r ps sch)" "plannable \<Gamma> X N r" by auto
  from assms(1,2) n(2) obtain s st1 where s: "planRelation X r st = Inr (s, st1)" "extends st st1" "planner_ok N st1"
    "s < length (heap st1)" "schema (op_at st1 s) = rel_schema r" by (meson givesE)
  from n(1) have "projs_ok \<Gamma> {i. contains (rel_schema r) i} ps" "\<forall>p \<in> set ps. scalar_builds X (expr p)"
    by (auto simp: node_plannable_def rel_fields_def)
  from projectorsList_total [OF this, of "Some emptyScope"] obtain qs sc where
    qs: "projectorsList X (rel_schema r) ps (Some emptyScope) = Inr (qs, sc)"
    "\<forall>(i, e) \<in> set qs. requiredFields e \<subseteq> {i. contains (rel_schema r) i}" by blast
  from in_scope_Inr [of "projectorsList X (rel_schema r) ps", OF qs(1)] obtain c where
    c: "in_scope (projectorsList X (rel_schema r) ps) = Inr (qs, c)" by blast
  have run: "planRelation X (ProjectionRelation r ps sch) st = Inr (new_op st1 (PProjection s qs c) (min_phase (op_at st1 s)) sch)"
    by (simp add: s c)
  have sch: "\<exists>is. has_schema sch is" using n(1) by (auto simp: node_plannable_def)
  show ?thesis
    unfolding run using s qs(2) sch
    by (intro single_gives) (auto simp: contains_set_iff intro!: requiredProjectorsFields_sub)
qed

lemma gives_aggregate:
  assumes "relation_gives \<Gamma> X N r" "planner_ok N st" "plannable \<Gamma> X N (AggregateRelation r as sch)"
  shows "gives N sch st (planRelation X (AggregateRelation r as sch) st)"
proof -
  from plannable_node [OF assms(3)] have n: "node_plannable \<Gamma> X N (AggregateRelation r as sch)" "plannable \<Gamma> X N r" by auto
  from assms(1,2) n(2) obtain s st1 where s: "planRelation X r st = Inr (s, st1)" "extends st st1" "planner_ok N st1"
    "s < length (heap st1)" "schema (op_at st1 s) = rel_schema r" by (meson givesE)
  from n(1) have "aggs_ok \<Gamma> {i. contains (rel_schema r) i} as" "\<forall>a \<in> set as. node_builds X (agg_node a)"
    by (auto simp: node_plannable_def rel_fields_def)
  from aggregatesList_total [OF this, of "Some emptyScope"] obtain qs sc where
    qs: "aggregatesList X (rel_schema r) (Some emptyScope) as = Inr (qs, sc)"
    "\<forall>(i, e) \<in> set qs. aggregate_fields e \<subseteq> {i. contains (rel_schema r) i}" by blast
  from in_scope_Inr [of "\<lambda>sc. aggregatesList X (rel_schema r) sc as", OF qs(1)] obtain c where
    c: "in_scope (\<lambda>sc. aggregatesList X (rel_schema r) sc as) = Inr (qs, c)" by blast
  have run: "planRelation X (AggregateRelation r as sch) st = Inr (new_op st1 (PAggregate s qs c) (min_phase (op_at st1 s)) sch)"
    by (simp add: s c)
  have sch: "\<exists>is. has_schema sch is" using n(1) by (auto simp: node_plannable_def)
  show ?thesis
    unfolding run using s qs(2) sch
    by (intro single_gives) (auto simp: contains_set_iff intro!: projectorsFields_sub)
qed

lemma gives_group:
  assumes "relation_gives \<Gamma> X N r" "planner_ok N st" "plannable \<Gamma> X N (GroupRelation r as ks sch)"
  shows "gives N sch st (planRelation X (GroupRelation r as ks sch) st)"
proof -
  from plannable_node [OF assms(3)] have n: "node_plannable \<Gamma> X N (GroupRelation r as ks sch)" "plannable \<Gamma> X N r" by auto
  from assms(1,2) n(2) obtain s st1 where s: "planRelation X r st = Inr (s, st1)" "extends st st1" "planner_ok N st1"
    "s < length (heap st1)" "schema (op_at st1 s) = rel_schema r" by (meson givesE)
  from n(1) have "aggs_ok \<Gamma> {i. contains (rel_schema r) i} as" "\<forall>a \<in> set as. node_builds X (agg_node a)"
    by (auto simp: node_plannable_def rel_fields_def)
  from aggregatesList_total [OF this, of "Some emptyScope"] obtain qs sc where
    qs: "aggregatesList X (rel_schema r) (Some emptyScope) as = Inr (qs, sc)"
    "\<forall>(i, e) \<in> set qs. aggregate_fields e \<subseteq> {i. contains (rel_schema r) i}" by blast
  from in_scope_Inr [of "\<lambda>sc. aggregatesList X (rel_schema r) sc as", OF qs(1)] obtain c where
    c: "in_scope (\<lambda>sc. aggregatesList X (rel_schema r) sc as) = Inr (qs, c)" by blast
  from n(1) have "projs_ok \<Gamma> {i. contains (rel_schema r) i} ks" "\<forall>p \<in> set ks. scalar_builds X (expr p)"
    by (auto simp: node_plannable_def rel_fields_def)
  from projectorsList_total [OF this, of None] obtain ps sc' where
    ps: "projectorsList X (rel_schema r) ks None = Inr (ps, sc')"
    "\<forall>(i, e) \<in> set ps. requiredFields e \<subseteq> {i. contains (rel_schema r) i}" by blast
  have run: "planRelation X (GroupRelation r as ks sch) st = Inr (new_op st1 (PGroup s qs ps c) (min_phase (op_at st1 s)) sch)"
    by (simp add: s c unscoped_Inr [OF ps(1)])
  have sch: "\<exists>is. has_schema sch is" using n(1) by (auto simp: node_plannable_def)
  have "projectorsFields requiredFields ps \<subseteq> {i. contains (rel_schema r) i}" using ps(2) by (rule projectorsFields_sub)
  moreover have "requiredProjectorsFields aggregate_fields qs req \<subseteq> {i. contains (rel_schema r) i}" for req
    using qs(2) by (rule requiredProjectorsFields_sub)
  ultimately show ?thesis
    unfolding run using s sch by (intro single_gives) (auto simp: contains_set_iff fs_merge_def)
qed

lemma gives_filter:
  assumes "relation_gives \<Gamma> X N r" "planner_ok N st" "plannable \<Gamma> X N (FilterRelation r e sch)"
  shows "gives N sch st (planRelation X (FilterRelation r e sch) st)"
proof -
  from plannable_node [OF assms(3)] have n: "node_plannable \<Gamma> X N (FilterRelation r e sch)" "plannable \<Gamma> X N r" by auto
  from assms(1,2) n(2) obtain s st1 where s: "planRelation X r st = Inr (s, st1)" "extends st st1" "planner_ok N st1"
    "s < length (heap st1)" "schema (op_at st1 s) = rel_schema r" by (meson givesE)
  from n(1) have "scalar_wt \<Gamma> e" "scalar_builds X e" and e: "fields_in (rel_schema r) e" and sch: "sch = rel_schema r"
    by (auto simp: node_plannable_def rel_fields_def exprs_ok_def fields_in_def)
  from planScalar_total(1) [OF this(1-3), of "Some emptyScope"] obtain x sc where
    x: "planScalar X (rel_schema r) (Some emptyScope) e = Inr (x, sc)" "requiredFields x \<subseteq> scalar_fields e" by blast
  from in_scope_Inr [of "\<lambda>sc. planScalar X (rel_schema r) sc e", OF x(1)] obtain c where
    c: "in_scope (\<lambda>sc. planScalar X (rel_schema r) sc e) = Inr (x, c)" by blast
  have run: "planRelation X (FilterRelation r e sch) st = Inr (new_op st1 (PFilter s x c) (min_phase (op_at st1 s)) sch)"
    by (simp add: s c)
  from op_schema [OF s(3,4)] s(5) have "\<exists>is. has_schema sch is" by (simp add: sch)
  moreover have "requiredFields x \<subseteq> {i. contains (rel_schema r) i}" using x(2) e by (auto simp: fields_in_def)
  ultimately show ?thesis
    unfolding run using s sch by (intro single_gives) (auto simp: contains_set_iff fs_merge_def)
qed

lemma sorted_source:
  assumes "relation_gives \<Gamma> X N r" "planner_ok N st" "plannable \<Gamma> X N r"
    and "exprs_ok \<Gamma> {i. contains (rel_schema r) i} es" "\<forall>e \<in> set es. scalar_builds X e"
  obtains s st1 key where "planRelation X r st = Inr (s, st1)" "extends st st1" "planner_ok N st1"
    "s < length (heap st1)" "schema (op_at st1 s) = rel_schema r"
    "unscoped (expressionList X (rel_schema r) None es) = Inr key" "scalarsFields key \<subseteq> {i. contains (rel_schema r) i}"
proof -
  from assms(1-3) obtain s st1 where s: "planRelation X r st = Inr (s, st1)" "extends st st1" "planner_ok N st1"
    "s < length (heap st1)" "schema (op_at st1 s) = rel_schema r" by (meson givesE)
  from expressionList_total [OF assms(4,5), of None] obtain key sc where
    key: "expressionList X (rel_schema r) None es = Inr (key, sc)" "scalarsFields key \<subseteq> {i. contains (rel_schema r) i}" by blast
  from that [OF s unscoped_Inr [OF key(1)] key(2)] show ?thesis .
qed

lemma gives_sort:
  assumes "relation_gives \<Gamma> X N r" "planner_ok N st" "plannable \<Gamma> X N (SortRelation r es desc sch)"
  shows "gives N sch st (planRelation X (SortRelation r es desc sch) st)"
proof -
  from plannable_node [OF assms(3)] have n: "node_plannable \<Gamma> X N (SortRelation r es desc sch)" "plannable \<Gamma> X N r" by auto
  then have sch: "sch = rel_schema r" and es: "exprs_ok \<Gamma> {i. contains (rel_schema r) i} es" "\<forall>e \<in> set es. scalar_builds X e"
    by (auto simp: node_plannable_def rel_fields_def)
  obtain s st1 key where s: "planRelation X r st = Inr (s, st1)" "extends st st1" "planner_ok N st1"
    "s < length (heap st1)" "schema (op_at st1 s) = rel_schema r"
    and key: "unscoped (expressionList X (rel_schema r) None es) = Inr key" "scalarsFields key \<subseteq> {i. contains (rel_schema r) i}"
    by (rule sorted_source [OF assms(1,2) n(2) es])
  have run: "planRelation X (SortRelation r es desc sch) st = Inr (new_op st1 (PSort s key desc) (min_phase (op_at st1 s)) sch)"
    by (simp add: s key)
  from op_schema [OF s(3,4)] s(5) have "\<exists>is. has_schema sch is" by (simp add: sch)
  then show ?thesis
    unfolding run using s key sch by (intro single_gives) (auto simp: contains_set_iff fs_merge_def)
qed

lemma gives_topk:
  assumes "relation_gives \<Gamma> X N r" "planner_ok N st" "plannable \<Gamma> X N (TopKRelation r es desc k sch)"
  shows "gives N sch st (planRelation X (TopKRelation r es desc k sch) st)"
proof -
  from plannable_node [OF assms(3)] have n: "node_plannable \<Gamma> X N (TopKRelation r es desc k sch)" "plannable \<Gamma> X N r" by auto
  then have sch: "sch = rel_schema r" and es: "exprs_ok \<Gamma> {i. contains (rel_schema r) i} es" "\<forall>e \<in> set es. scalar_builds X e"
    by (auto simp: node_plannable_def rel_fields_def)
  obtain s st1 key where s: "planRelation X r st = Inr (s, st1)" "extends st st1" "planner_ok N st1"
    "s < length (heap st1)" "schema (op_at st1 s) = rel_schema r"
    and key: "unscoped (expressionList X (rel_schema r) None es) = Inr key" "scalarsFields key \<subseteq> {i. contains (rel_schema r) i}"
    by (rule sorted_source [OF assms(1,2) n(2) es])
  have run: "planRelation X (TopKRelation r es desc k sch) st = Inr (new_op st1 (PTopK s key desc k) (min_phase (op_at st1 s)) sch)"
    by (simp add: s key)
  from op_schema [OF s(3,4)] s(5) have "\<exists>is. has_schema sch is" by (simp add: sch)
  then show ?thesis
    unfolding run using s key sch by (intro single_gives) (auto simp: contains_set_iff fs_merge_def)
qed

lemma gives_passed:
  assumes "relation_gives \<Gamma> X N r" "planner_ok N st"
  shows "plannable \<Gamma> X N (LimitRelation r k sch) \<Longrightarrow> gives N sch st (planRelation X (LimitRelation r k sch) st)"
    and "plannable \<Gamma> X N (MaterializeRelation r sch) \<Longrightarrow> gives N sch st (planRelation X (MaterializeRelation r sch) st)"
proof -
  have *: "\<exists>s st1. planRelation X r st = Inr (s, st1) \<and> extends st st1 \<and> planner_ok N st1 \<and>
      s < length (heap st1) \<and> schema (op_at st1 s) = rel_schema r" if "plannable \<Gamma> X N r"
    using assms that by (meson givesE)
  show "gives N sch st (planRelation X (LimitRelation r k sch) st)" if p: "plannable \<Gamma> X N (LimitRelation r k sch)"
  proof -
    from plannable_node [OF p] have "plannable \<Gamma> X N r" and sch: "sch = rel_schema r" by (auto simp: node_plannable_def)
    from * [OF this(1)] obtain s st1 where s: "planRelation X r st = Inr (s, st1)" "extends st st1" "planner_ok N st1"
      "s < length (heap st1)" "schema (op_at st1 s) = rel_schema r" by blast
    from op_schema [OF s(3,4)] s(5) have "\<exists>is. has_schema sch is" by (simp add: sch)
    with s sch show ?thesis by (auto intro!: single_gives)
  qed
  show "gives N sch st (planRelation X (MaterializeRelation r sch) st)" if p: "plannable \<Gamma> X N (MaterializeRelation r sch)"
  proof -
    from plannable_node [OF p] have "plannable \<Gamma> X N r" and sch: "sch = rel_schema r" by (auto simp: node_plannable_def)
    from * [OF this(1)] obtain s st1 where s: "planRelation X r st = Inr (s, st1)" "extends st st1" "planner_ok N st1"
      "s < length (heap st1)" "schema (op_at st1 s) = rel_schema r" by blast
    from op_schema [OF s(3,4)] s(5) have "\<exists>is. has_schema sch is" by (simp add: sch)
    with s sch show ?thesis by (auto intro!: single_gives)
  qed
qed

text \<open>Two relations planned one after the other.\<close>

lemma both_sources:
  assumes "relation_gives \<Gamma> X N l" "relation_gives \<Gamma> X N r" "planner_ok N st" "plannable \<Gamma> X N l" "plannable \<Gamma> X N r"
  obtains s st1 t st2 where "planRelation X l st = Inr (s, st1)" "planRelation X r st1 = Inr (t, st2)"
    "extends st st2" "planner_ok N st2" "s < length (heap st2)" "t < length (heap st2)"
    "schema (op_at st2 s) = rel_schema l" "schema (op_at st2 t) = rel_schema r"
proof -
  from assms(1,3,4) obtain s st1 where s: "planRelation X l st = Inr (s, st1)" "extends st st1" "planner_ok N st1"
    "s < length (heap st1)" "schema (op_at st1 s) = rel_schema l" by (meson givesE)
  from assms(2) s(3) assms(5) obtain t st2 where t: "planRelation X r st1 = Inr (t, st2)" "extends st1 st2" "planner_ok N st2"
    "t < length (heap st2)" "schema (op_at st2 t) = rel_schema r" by (meson givesE)
  from extends_op [OF t(2) s(4)] s(5) that [OF s(1) t(1) extends_trans [OF s(2) t(2)] t(3) _ t(4) _ t(5)] show ?thesis by simp
qed

lemma key_total:
  assumes "exprs_ok \<Gamma> {i. contains sch i} [e]" "scalar_builds X e"
  obtains x where "unscoped (planScalar X sch None e) = Inr x" "requiredFields x \<subseteq> {i. contains sch i}"
proof -
  from assms have "scalar_wt \<Gamma> e" "scalar_builds X e" "fields_in sch e" by (auto simp: exprs_ok_def fields_in_def)
  from planScalar_total(1) [OF this, of None] obtain x sc where
    x: "planScalar X sch None e = Inr (x, sc)" "requiredFields x \<subseteq> scalar_fields e" by blast
  with \<open>fields_in sch e\<close> that [OF unscoped_Inr [OF x(1)]] show ?thesis by (auto simp: fields_in_def)
qed

lemma gives_semi:
  assumes "relation_gives \<Gamma> X N r" "relation_gives \<Gamma> X N m" "planner_ok N st"
    and "plannable \<Gamma> X N (SemiJoinRelation r m e i sch)"
  shows "gives N sch st (planRelation X (SemiJoinRelation r m e i sch) st)"
proof -
  from plannable_node [OF assms(4)] have n: "node_plannable \<Gamma> X N (SemiJoinRelation r m e i sch)"
    "plannable \<Gamma> X N r" "plannable \<Gamma> X N m" by auto
  obtain s st1 t st2 where s: "planRelation X r st = Inr (s, st1)" "planRelation X m st1 = Inr (t, st2)"
    "extends st st2" "planner_ok N st2" "s < length (heap st2)" "t < length (heap st2)"
    "schema (op_at st2 s) = rel_schema r" "schema (op_at st2 t) = rel_schema m"
    by (rule both_sources [OF assms(1,2,3) n(2,3)])
  from n(1) have e: "exprs_ok \<Gamma> {i. contains (rel_schema r) i} [e]" "scalar_builds X e"
    and i: "contains (rel_schema m) i" and sch: "sch = rel_schema r"
    by (auto simp: node_plannable_def rel_fields_def)
  obtain x where x: "unscoped (planScalar X (rel_schema r) None e) = Inr x" "requiredFields x \<subseteq> {i. contains (rel_schema r) i}"
    by (rule key_total [OF e])
  have run: "planRelation X (SemiJoinRelation r m e i sch) st = Inr (new_op st2 (PHashSemiJoin t s x i)
      (max (min_phase (op_at st2 t) + 1) (min_phase (op_at st2 s))) sch)"
    by (simp add: s x)
  from op_schema [OF s(4,5)] s(7) have "\<exists>is. has_schema sch is" by (simp add: sch)
  then show ?thesis
    unfolding run
    by (intro pair_gives [where s = t and t = s, OF s(4,3,6,5)])
      (use s(7,8) x(2) i sch in \<open>auto simp: contains_set_iff fs_merge_def op_at_def\<close>)
qed

lemma gives_mark:
  assumes "relation_gives \<Gamma> X N r" "relation_gives \<Gamma> X N m" "planner_ok N st"
    and "plannable \<Gamma> X N (MarkJoinRelation r m e out i sch)"
  shows "gives N sch st (planRelation X (MarkJoinRelation r m e out i sch) st)"
proof -
  from plannable_node [OF assms(4)] have n: "node_plannable \<Gamma> X N (MarkJoinRelation r m e out i sch)"
    "plannable \<Gamma> X N r" "plannable \<Gamma> X N m" by auto
  obtain s st1 t st2 where s: "planRelation X r st = Inr (s, st1)" "planRelation X m st1 = Inr (t, st2)"
    "extends st st2" "planner_ok N st2" "s < length (heap st2)" "t < length (heap st2)"
    "schema (op_at st2 s) = rel_schema r" "schema (op_at st2 t) = rel_schema m"
    by (rule both_sources [OF assms(1,2,3) n(2,3)])
  from n(1) have e: "exprs_ok \<Gamma> {i. contains (rel_schema r) i} [e]" "scalar_builds X e"
    and i: "contains (rel_schema m) i" and sch: "\<exists>is. rel_schema r = schema_of is \<and> has_schema sch (is @ [out])"
    by (auto simp: node_plannable_def rel_fields_def)
  obtain x where x: "unscoped (planScalar X (rel_schema r) None e) = Inr x" "requiredFields x \<subseteq> {i. contains (rel_schema r) i}"
    by (rule key_total [OF e])
  have run: "planRelation X (MarkJoinRelation r m e out i sch) st = Inr (new_op st2 (PHashMarkJoin t s x i out)
      (max (min_phase (op_at st2 t) + 1) (min_phase (op_at st2 s))) sch)"
    by (simp add: s x)
  from sch have "\<exists>is. has_schema sch is" by blast
  then show ?thesis
    unfolding run
    by (intro pair_gives [where s = t and t = s, OF s(4,3,6,5)])
      (use s(7,8) x(2) i sch in \<open>auto simp: contains_set_iff fs_merge_def op_at_def has_schema_def\<close>)
qed

lemma gives_left:
  assumes "relation_gives \<Gamma> X N l" "relation_gives \<Gamma> X N r" "planner_ok N st"
    and "plannable \<Gamma> X N (LeftJoinRelation l r lk rk sch)"
  shows "gives N sch st (planRelation X (LeftJoinRelation l r lk rk sch) st)"
proof -
  from plannable_node [OF assms(4)] have n: "node_plannable \<Gamma> X N (LeftJoinRelation l r lk rk sch)"
    "plannable \<Gamma> X N l" "plannable \<Gamma> X N r" by auto
  obtain s st1 t st2 where s: "planRelation X l st = Inr (s, st1)" "planRelation X r st1 = Inr (t, st2)"
    "extends st st2" "planner_ok N st2" "s < length (heap st2)" "t < length (heap st2)"
    "schema (op_at st2 s) = rel_schema l" "schema (op_at st2 t) = rel_schema r"
    by (rule both_sources [OF assms(1,2,3) n(2,3)])
  from n(1) have e: "exprs_ok \<Gamma> {i. contains (rel_schema l) i} [lk]" "scalar_builds X lk"
      "exprs_ok \<Gamma> {i. contains (rel_schema r) i} [rk]" "scalar_builds X rk"
    and sch: "\<exists>is js. rel_schema l = schema_of is \<and> rel_schema r = schema_of js \<and> has_schema sch (is @ js)"
    by (auto simp: node_plannable_def rel_fields_def)
  obtain x where x: "unscoped (planScalar X (rel_schema l) None lk) = Inr x" "requiredFields x \<subseteq> {i. contains (rel_schema l) i}"
    by (rule key_total [OF e(1,2)])
  obtain y where y: "unscoped (planScalar X (rel_schema r) None rk) = Inr y" "requiredFields y \<subseteq> {i. contains (rel_schema r) i}"
    by (rule key_total [OF e(3,4)])
  have run: "planRelation X (LeftJoinRelation l r lk rk sch) st = Inr (new_op st2 (PHashLeftJoin s t x y)
      (max (min_phase (op_at st2 s)) (min_phase (op_at st2 t) + 1)) sch)"
    by (simp add: s x y)
  from sch obtain "is" js where ij: "rel_schema l = schema_of is" "rel_schema r = schema_of js" "has_schema sch (is @ js)" by blast
  then have has: "\<exists>is. has_schema sch is" by blast
  show ?thesis
    unfolding run
    by (rule pair_gives [where s = s and t = t, OF s(4,3,5,6) _ has])
      (use s(7,8) x(2) y(2) ij in \<open>auto simp: contains_set_iff fs_merge_def fs_intersection_def op_at_def\<close>)
qed

lemma gives_merge:
  assumes "relation_gives \<Gamma> X N l" "relation_gives \<Gamma> X N r" "planner_ok N st"
    and "plannable \<Gamma> X N (UnionAllSortedByRelation l r es desc sch)"
  shows "gives N sch st (planRelation X (UnionAllSortedByRelation l r es desc sch) st)"
proof -
  from plannable_node [OF assms(4)] have n: "node_plannable \<Gamma> X N (UnionAllSortedByRelation l r es desc sch)"
    "plannable \<Gamma> X N l" "plannable \<Gamma> X N r" by auto
  obtain s st1 t st2 where s: "planRelation X l st = Inr (s, st1)" "planRelation X r st1 = Inr (t, st2)"
    "extends st st2" "planner_ok N st2" "s < length (heap st2)" "t < length (heap st2)"
    "schema (op_at st2 s) = rel_schema l" "schema (op_at st2 t) = rel_schema r"
    by (rule both_sources [OF assms(1,2,3) n(2,3)])
  from n(1) have e: "exprs_ok \<Gamma> {i. contains (rel_schema l) i} es" "\<forall>e \<in> set es. scalar_builds X e"
    and sch: "sch = rel_schema l" "sch = rel_schema r"
    by (auto simp: node_plannable_def rel_fields_def)
  from expressionList_total [OF e, of None] obtain key sc where
    key: "expressionList X (rel_schema l) None es = Inr (key, sc)" "scalarsFields key \<subseteq> {i. contains (rel_schema l) i}" by blast
  have run: "planRelation X (UnionAllSortedByRelation l r es desc sch) st = Inr (new_op st2 (PMergeSorted s t key desc)
      (max (min_phase (op_at st2 s)) (min_phase (op_at st2 t))) sch)"
    by (simp add: s unscoped_Inr [OF key(1)])
  from op_schema [OF s(4,5)] s(7) have has: "\<exists>is. has_schema sch is" by (simp add: sch)
  show ?thesis
    unfolding run
    by (rule pair_gives [where s = s and t = t, OF s(4,3,5,6) _ has])
      (use s(7,8) key(2) sch in \<open>auto simp: contains_set_iff fs_merge_def op_at_def\<close>)
qed

lemma gives_union:
  assumes "\<forall>r \<in> set rs. relation_gives \<Gamma> X N r" "planner_ok N st" "plannable \<Gamma> X N (UnionAllRelation rs sch)"
  shows "gives N sch st (planRelation X (UnionAllRelation rs sch) st)"
proof -
  from plannable_node [OF assms(3)] have n: "node_plannable \<Gamma> X N (UnionAllRelation rs sch)" "\<forall>r \<in> set rs. plannable \<Gamma> X N r" by auto
  from planRelations_gives [OF assms(1,2) n(2)] obtain ss st1 where ss: "planRelations X rs st = Inr (ss, st1)"
    "extends st st1" "planner_ok N st1"
    "list_all2 (\<lambda>s r. s < length (heap st1) \<and> schema (op_at st1 s) = rel_schema r) ss rs" by blast
  from n(1) have has: "\<exists>is. has_schema sch is" and "\<forall>r \<in> set rs. rel_schema r = sch" by (auto simp: node_plannable_def)
  with ss(4) have src: "s < length (heap st1) \<and> schema (op_at st1 s) = sch" if "s \<in> set ss" for s
    using that by (fastforce simp: list_all2_conv_all_nth in_set_conv_nth)
  let ?m = "foldl (\<lambda>m s. max m (min_phase (op_at st1 s))) 0 ss"
  have run: "planRelation X (UnionAllRelation rs sch) st = Inr (new_op st1 (PUnionAll ss) ?m sch)" by (simp add: ss)
  have "node_ok (heap st1) (length (heap st1)) (PUnionAll ss) ?m sch"
    using src foldl_max [of 0 "\<lambda>s. min_phase (op_at st1 s)" ss]
    by (fastforce simp: node_ok_def request_ok_def op_at_def)
  from new_op_gives [OF ss(3,2) this has] show ?thesis by (simp only: run)
qed

lemma planRelation_gives: "relation_gives \<Gamma> X N r"
proof (induction r)
  case (EmptyRelation sch)
  show ?case by (auto dest!: plannable_node simp: node_plannable_def intro!: source_gives)
next
  case (ValuesRelation vs i sch)
  show ?case by (auto dest!: plannable_node simp: node_plannable_def intro!: source_gives)
next
  case (FileRelation path tr tf sch)
  show ?case by (auto dest!: plannable_node simp: node_plannable_def Let_def intro!: source_gives)
next
  case (StreamRelation cmd sch)
  show ?case by (auto dest!: plannable_node simp: node_plannable_def intro!: source_gives)
next
  case (NamedRelationReferenceRelation n sch)
  show ?case
  proof (intro allI impI)
    fix st assume st: "planner_ok N st" "plannable \<Gamma> X N (NamedRelationReferenceRelation n sch)"
    then have "N n = Some sch" by (auto dest!: plannable_node simp: node_plannable_def)
    with st(1) obtain i where "named_ops st n = Some i" "i < length (heap st)" "schema (heap st ! i) = sch"
      by (auto simp: planner_ok_def)
    with st(1) show "gives N (rel_schema (NamedRelationReferenceRelation n sch)) st
        (planRelation X (NamedRelationReferenceRelation n sch) st)"
      by (auto simp: gives_def op_at_def)
  qed
next
  case (ProjectionRelation r ps sch)
  then show ?case using gives_projection by simp
next
  case (AggregateRelation r as sch)
  then show ?case using gives_aggregate by simp
next
  case (GroupRelation r as ks sch)
  then show ?case using gives_group by simp
next
  case (LimitRelation r k sch)
  then show ?case using gives_passed(1) by simp
next
  case (FilterRelation r e sch)
  then show ?case using gives_filter by simp
next
  case (SortRelation r es desc sch)
  then show ?case using gives_sort by simp
next
  case (TopKRelation r es desc k sch)
  then show ?case using gives_topk by simp
next
  case (SemiJoinRelation r m e i sch)
  then show ?case using gives_semi by simp
next
  case (MarkJoinRelation r m e out i sch)
  then show ?case using gives_mark by simp
next
  case (LeftJoinRelation l r lk rk sch)
  then show ?case using gives_left by simp
next
  case (UnionAllRelation rs sch)
  then have "\<forall>r \<in> set rs. relation_gives \<Gamma> X N r" by blast
  from gives_union [OF this] show ?case by simp
next
  case (UnionAllSortedByRelation l r es desc sch)
  then show ?case using gives_merge by simp
next
  case (MaterializeRelation r sch)
  then show ?case using gives_passed(2) by simp
qed

section \<open>Planning programs succeeds\<close>

text \<open>A relation may refer to the named relations before it.\<close>

fun program_plannable :: "(FieldId \<rightharpoonup> ValueType) \<Rightarrow> ext \<Rightarrow> (string \<rightharpoonup> Schema) \<Rightarrow> Program \<Rightarrow> bool" where
  "program_plannable \<Gamma> X N [] = True"
| "program_plannable \<Gamma> X N (NamedRelationStatement n r # ss) =
     (plannable \<Gamma> X N r \<and> program_plannable \<Gamma> X (N(n \<mapsto> rel_schema r)) ss)"
| "program_plannable \<Gamma> X N (QueryStatement r # ss) = (plannable \<Gamma> X N r \<and> program_plannable \<Gamma> X N ss)"

lemma static_names:
  assumes "static_eq H H'"
  shows "length H' = length H" "i < length H \<Longrightarrow> schema (H' ! i) = schema (H ! i)"
    "i < length H \<Longrightarrow> min_phase (H' ! i) = min_phase (H ! i)"
  using assms by (auto simp: static_eq_def static_of_eq)

lemma top_ok_grows:
  assumes "top_ok H i" "static_eq H H'" "grows H H'"
  shows "top_ok H' i"
proof -
  let ?p = "min_phase (H ! i)"
  from assms(1) have i: "i < length H" and "met H (i, ?p, {j. contains (schema (H ! i)) j})"
    by (auto simp: top_ok_def met_def)
  with assms(3) have "met H' (i, ?p, {j. contains (schema (H ! i)) j})" by (simp add: grows_def)
  with i static_names [OF assms(2)] show ?thesis by (auto simp: top_ok_def met_def)
qed

text \<open>A query asks its operation for all its fields in its first phase.\<close>

lemma assign_grows:
  assumes "planner_ok N st" "i < length (heap st)"
  defines "op \<equiv> op_at st i"
  assumes F: "fieldSet (schema op) = Inr F"
  defines "H' \<equiv> (heap st)[i := op\<lparr>max_phase := int (min_phase op), required_fields := assign_at (min_phase op) F (required_fields op)\<rparr>]"
  shows "heap_ok H'" "static_eq (heap st) H'" "grows (heap st) H'" "top_ok H' i"
    and "\<exists>qs. op_requests H' i (min_phase op) = Inr qs \<and> (\<forall>q \<in> set qs. request_ok H' q) \<and> closed_upto H' qs"
proof -
  let ?H = "heap st" and ?p = "min_phase op"
  let ?op' = "op\<lparr>max_phase := int ?p, required_fields := assign_at ?p F (required_fields op)\<rparr>"
  have op: "op = ?H ! i" by (simp add: op_def op_at_def)
  from assms(1) have ok: "heap_ok ?H" and cl: "closed_upto ?H []" by (simp_all add: planner_ok_def)
  from op_schema [OF assms(1,2)] obtain "is" where "is": "schema op = schema_of is" by (auto simp: op_def has_schema_def)
  with F have F': "F = {j. contains (schema op) j}" by auto
  from ok assms(2) have opok: "op_ok ?H i" by (simp add: heap_ok_def)
  then have ord: "in_order (required_fields op)" by (simp add: op_ok_def op)
  note m = assign_at_map [OF ord, of ?p F]
  show st: "static_eq ?H H'" using assms(2) by (auto simp: H'_def static_eq_def static_of_eq nth_list_update op)
  have at: "H' ! i = ?op'" using assms(2) by (simp add: H'_def)
  have other: "H' ! j = ?H ! j" if "j \<noteq> i" for j using that by (simp add: H'_def)
  have ph: "set (phases ?op') = insert ?p (set (phases op))" by (simp add: phases_def at_keys)
  have fields: "phase_fields ?op' q = (if q = ?p then F else phase_fields op q)" for q
    using m by (simp add: phase_fields_def)
  have entries: "?p \<le> q \<and> contains_set (schema op) G" if "(q, G) \<in> set (required_fields ?op')" for q G
  proof -
    from that m have "map_of (assign_at ?p F (required_fields op)) q = Some G"
      by (intro map_of_is_SomeI) (auto simp: in_order_def strict_sorted_iff)
    with m have "((map_of (required_fields op))(?p \<mapsto> F)) q = Some G" by simp
    with opok F' show ?thesis
      by (auto simp: op_ok_def op contains_set_def split: if_splits dest!: map_of_SomeD)
  qed
  show hok: "heap_ok H'"
    unfolding heap_ok_def
  proof (intro allI impI)
    fix j assume j: "j < length H'"
    then have len: "j < length ?H" by (simp add: H'_def)
    with ok have "op_ok ?H j" by (simp add: heap_ok_def)
    then have "node_ok H' j (node (H' ! j)) (min_phase (H' ! j)) (schema (H' ! j))"
      using node_ok_static [OF st] st len by (auto simp: op_ok_def static_eq_def static_of_eq)
    with \<open>op_ok ?H j\<close> entries m show "op_ok H' j"
      by (cases "j = i") (auto simp: op_ok_def at other op [symmetric])
  qed
  have sub: "phase_fields op q \<subseteq> F" for q using phase_fields_ok [OF opok, of q] by (auto simp: op F' contains_set_def)
  have "met H' (j, q, G)" if "met ?H (j, q, G)" for j q G
    using that ph fields sub [of q] by (cases "j = i") (auto simp: met_def at other op [symmetric])
  then show gr: "grows ?H H'" by (auto simp: grows_def)
  show "top_ok H' i" using assms(2) ph fields F' by (simp add: top_ok_def at) (simp add: H'_def)
  from op_requests_ok [OF hok, of i ?p] assms(2) obtain qs where qs: "op_requests H' i ?p = Inr qs"
    "\<forall>q \<in> set qs. request_ok H' q" by (auto simp: at) (auto simp: H'_def)
  have "closed_upto H' qs"
    unfolding closed_upto_def
  proof (intro allI impI)
    fix j q assume j: "j < length H'" and q: "q \<in> set (phases (H' ! j))"
    show "\<exists>rs. op_requests H' j q = Inr rs \<and> (\<forall>r \<in> set rs. covered H' qs r)"
    proof (cases "(j, q) = (i, ?p)")
      case True
      with qs(1) show ?thesis by (force simp: covered_def)
    next
      case False
      from j have len: "j < length ?H" by (simp add: H'_def)
      have old: "q \<in> set (phases (?H ! j))" using q False ph by (cases "j = i") (auto simp: at other op)
      with cl len obtain rs where rs: "op_requests ?H j q = Inr rs" "\<forall>r \<in> set rs. covered ?H [] r"
        unfolding closed_upto_def by metis
      from ok len have src: "\<forall>s \<in> set (node_sources (node (?H ! j))). s < j" by (simp add: heap_ok_def op_ok_def node_ok_def)
      have "phase_fields (H' ! j) q = phase_fields (?H ! j) q" using False fields by (cases "j = i") (auto simp: at other op)
      moreover have "node_requests H' (node (?H ! j)) mp req p = node_requests ?H (node (?H ! j)) mp req p" for mp req p
        using src st len by (intro node_requests_cong) (fastforce simp: static_eq_def)
      ultimately have "op_requests H' j q = op_requests ?H j q"
        using st len by (simp add: op_requests_def static_eq_def static_of_eq)
      moreover have "covered H' qs r" if r: "r \<in> set rs" for r
      proof -
        obtain c k G where rr: "r = (c, k, G)" by (cases r)
        with r rs(1) src len have "c < length ?H" by (fastforce simp: op_requests_def dest: node_requests_sources)
        moreover from rs(2) r have "met ?H r" by (simp add: covered_def)
        ultimately show ?thesis using gr by (simp add: covered_def grows_def rr)
      qed
      ultimately show ?thesis using rs(1) by simp
    qed
  qed
  with qs show "\<exists>qs. op_requests H' i ?p = Inr qs \<and> (\<forall>q \<in> set qs. request_ok H' q) \<and> closed_upto H' qs" by blast
qed

lemma planner_ok_tops:
  assumes "planner_ok N st" "heap_ok H" "closed_upto H []" "static_eq (heap st) H" "grows (heap st) H"
    and "\<forall>i \<in> set tops. top_ok H i"
  shows "planner_ok N (st\<lparr>heap := H, top_operations := top_operations st @ tops\<rparr>)"
proof -
  note st = static_names [OF assms(4)]
  have "\<exists>is. has_schema (schema op) is" if "op \<in> set H" for op
  proof -
    from that obtain j where j: "j < length H" "op = H ! j" by (auto simp: in_set_conv_nth)
    with st have "schema op = schema (op_at st j)" "j < length (heap st)" by (simp_all add: op_at_def)
    with op_schema [OF assms(1)] show ?thesis by simp
  qed
  moreover have "\<exists>i. named_ops st n = Some i \<and> i < length H \<and> schema (H ! i) = sch" if "N n = Some sch" for n sch
  proof -
    from that assms(1) obtain i where "named_ops st n = Some i" "i < length (heap st)" "schema (heap st ! i) = sch"
      unfolding planner_ok_def by blast
    with st show ?thesis by simp
  qed
  moreover have "top_ok H i" if "i \<in> set (top_operations st)" for i
    using that assms(1) by (intro top_ok_grows [OF _ assms(4,5)]) (simp add: planner_ok_def)
  ultimately show ?thesis using assms(2,3,6) by (auto simp: planner_ok_def)
qed

text \<open>What the operations asked for give, in order.\<close>

definition query_schemas :: "planner \<Rightarrow> Schema list" where
  "query_schemas st = map (\<lambda>i. schema (op_at st i)) (top_operations st)"

lemma query_schemas_extends:
  assumes "planner_ok N st" "extends st st1"
  shows "query_schemas st1 = query_schemas st"
proof -
  have "op_at st1 i = op_at st i" if "i \<in> set (top_operations st)" for i
    using assms that extends_op [OF assms(2)] by (simp add: planner_ok_def top_ok_def)
  with assms(2) show ?thesis by (simp add: query_schemas_def extends_def)
qed

lemma query_schemas_static:
  assumes "planner_ok N st" "static_eq (heap st) H"
  shows "map (\<lambda>i. schema (H ! i)) (top_operations st) = query_schemas st"
  using assms static_names(2) [OF assms(2)] by (auto simp: query_schemas_def planner_ok_def top_ok_def op_at_def)

lemma planStatement_ok:
  assumes "planner_ok N st"
  shows "plannable \<Gamma> X N r \<Longrightarrow> \<exists>st'. planStatement X st (NamedRelationStatement n r) = Some (Inr st') \<and>
      planner_ok (N(n \<mapsto> rel_schema r)) st' \<and> query_schemas st' = query_schemas st"
    and "plannable \<Gamma> X N r \<Longrightarrow> \<exists>st'. planStatement X st (QueryStatement r) = Some (Inr st') \<and>
      planner_ok N st' \<and> query_schemas st' = query_schemas st @ [rel_schema r]"
proof -
  assume r: "plannable \<Gamma> X N r"
  from planRelation_gives [where N = N and \<Gamma> = \<Gamma> and X = X and r = r] assms r obtain i st1 where i: "planRelation X r st = Inr (i, st1)"
    "extends st st1" "planner_ok N st1" "i < length (heap st1)" "schema (op_at st1 i) = rel_schema r"
    by (meson givesE)
  have tops: "query_schemas st1 = query_schemas st" by (rule query_schemas_extends [OF assms i(2)])
  have "planner_ok (N(n \<mapsto> rel_schema r)) (st1\<lparr>named_ops := (named_ops st1)(n \<mapsto> i)\<rparr>)"
    using i(3-5) by (auto simp: planner_ok_def op_at_def)
  with i(1) tops show "\<exists>st'. planStatement X st (NamedRelationStatement n r) = Some (Inr st') \<and>
      planner_ok (N(n \<mapsto> rel_schema r)) st' \<and> query_schemas st' = query_schemas st"
    by (simp add: planStatement_def query_schemas_def op_at_def)
  obtain "is" where "is": "schema (op_at st1 i) = schema_of is" using op_schema [OF i(3,4)] by (auto simp: has_schema_def)
  then have F: "fieldSet (schema (op_at st1 i)) = Inr (set is)" by simp
  let ?op = "op_at st1 i"
  let ?H = "(heap st1)[i := ?op\<lparr>max_phase := int (min_phase ?op), required_fields := assign_at (min_phase ?op) (set is) (required_fields ?op)\<rparr>]"
  note a = assign_grows [OF i(3,4) F]
  from a(5) obtain qs where qs: "op_requests ?H i (min_phase ?op) = Inr qs" "\<forall>q \<in> set qs. request_ok ?H q" "closed_upto ?H qs"
    by blast
  from requestOutput_closed [OF a(1) qs(2,3)] obtain H' where H': "requestOutput ?H qs = Some (Inr H')" "heap_ok H'"
    "static_eq ?H H'" "grows ?H H'" "closed_upto H' []" by blast
  have st: "static_eq (heap st1) H'" by (rule static_eq_trans [OF a(2) H'(3)])
  have gr: "grows (heap st1) H'" by (rule grows_trans [OF a(3) H'(4)]) simp
  have top: "\<forall>j \<in> set [i]. top_ok H' j" using top_ok_grows [OF a(4) H'(3,4)] by simp
  have run: "planStatement X st (QueryStatement r) =
      Some (Inr (st1\<lparr>heap := H', top_operations := top_operations st1 @ [i]\<rparr>))"
    using H'(1) by (simp add: planStatement_def i(1) F qs(1) Let_def)
  have "map (\<lambda>i. schema (H' ! i)) (top_operations st1) = query_schemas st"
    using query_schemas_static [OF i(3) st] tops by simp
  moreover have "schema (H' ! i) = rel_schema r" using static_names(2) [OF st i(4)] i(5) by (simp add: op_at_def)
  ultimately have "query_schemas (st1\<lparr>heap := H', top_operations := top_operations st1 @ [i]\<rparr>) = query_schemas st @ [rel_schema r]"
    by (simp add: query_schemas_def op_at_def)
  with planner_ok_tops [OF i(3) H'(2,5) st gr top] run
  show "\<exists>st'. planStatement X st (QueryStatement r) = Some (Inr st') \<and>
      planner_ok N st' \<and> query_schemas st' = query_schemas st @ [rel_schema r]"
    by auto
qed

fun queries :: "Program \<Rightarrow> Relation list" where
  "queries [] = []"
| "queries (NamedRelationStatement n r # ss) = queries ss"
| "queries (QueryStatement r # ss) = r # queries ss"

lemma planStatements_ok:
  "planner_ok N st \<Longrightarrow> program_plannable \<Gamma> X N program \<Longrightarrow>
   \<exists>st' N'. planStatements X st program = Some (Inr st') \<and> planner_ok N' st' \<and>
     query_schemas st' = query_schemas st @ map rel_schema (queries program)"
proof (induction \<Gamma> X N program arbitrary: st rule: program_plannable.induct)
  case (2 \<Gamma> X N n r ss)
  from planStatement_ok(1) [OF 2(2), of \<Gamma> X r n] 2(3) obtain st1 where
    "planStatement X st (NamedRelationStatement n r) = Some (Inr st1)" "planner_ok (N(n \<mapsto> rel_schema r)) st1"
    "query_schemas st1 = query_schemas st" by auto
  with 2(1) [of st1] 2(3) show ?case by (auto simp del: fun_upd_apply)
next
  case (3 \<Gamma> X N r ss)
  from planStatement_ok(2) [OF 3(2), of \<Gamma> X r] 3(3) obtain st1 where
    "planStatement X st (QueryStatement r) = Some (Inr st1)" "planner_ok N st1"
    "query_schemas st1 = query_schemas st @ [rel_schema r]" by auto
  with 3(1) [of st1] 3(3) show ?case by auto
qed auto

lemma planner_ok_empty: "planner_ok Map.empty (empty_planner tr)"
  by (simp add: planner_ok_def empty_planner_def heap_ok_def closed_upto_def)

section \<open>Properties\<close>

text \<open>What the physical build relies on: in each phase of an operation, every source it asks has that
  phase, comes before it and has all the fields it is asked for.\<close>

definition requests_met :: "heap \<Rightarrow> nat \<Rightarrow> nat \<Rightarrow> bool" where
  "requests_met H i p \<longleftrightarrow> (\<exists>qs. op_requests H i p = Inr qs \<and>
     (\<forall>(c, q, G) \<in> set qs. c < i \<and> q \<in> set (phases (H ! c)) \<and> G \<subseteq> phase_fields (H ! c) q))"

lemma planner_ok_met:
  assumes "planner_ok N st" "i < length (heap st)" "p \<in> set (phases (heap st ! i))"
  shows "min_phase (heap st ! i) \<le> p" "contains_set (schema (heap st ! i)) (phase_fields (heap st ! i) p)"
    "requests_met (heap st) i p"
proof -
  from assms(1,2) have ok: "op_ok (heap st) i" and hok: "heap_ok (heap st)" and cl: "closed_upto (heap st) []"
    by (auto simp: planner_ok_def heap_ok_def)
  from ok assms(3) show p: "min_phase (heap st ! i) \<le> p" by (auto simp: op_ok_def phases_def)
  show "contains_set (schema (heap st ! i)) (phase_fields (heap st ! i) p)" by (rule phase_fields_ok [OF ok])
  from op_requests_ok [OF hok assms(2) p] obtain qs where qs: "op_requests (heap st) i p = Inr qs"
    "\<forall>q \<in> set qs. request_ok (heap st) q \<and> fst q < i" by blast
  from cl assms(2,3) qs(1) have "\<forall>r \<in> set qs. covered (heap st) [] r" unfolding closed_upto_def by fastforce
  with qs show "requests_met (heap st) i p" by (fastforce simp: requests_met_def covered_def met_def)
qed

text \<open>What the planner leaves, for the program and for the build.\<close>

lemma plan_planner_ok:
  assumes "program_plannable \<Gamma> X Map.empty program"
  obtains st N where "plan X program tr = Some (Inr st)" "planner_ok N st" "query_schemas st = map rel_schema (queries program)"
proof -
  have "query_schemas (empty_planner tr) = []" by (simp add: empty_planner_def query_schemas_def)
  with planStatements_ok [OF planner_ok_empty assms, of tr] that show ?thesis unfolding plan_def by auto
qed

text \<open>C19: planning a program whose relations are well typed, with functions that can be built and
  references to earlier named relations, ends, and no check of the planner fails. In the plan every
  operation has only phases it can run in and fields of its schema, in each of them its sources have
  what it asks of them, and each query has an operation, of its schema, that gives all its fields in its first phase.\<close>

theorem plan_correct:
  assumes "program_plannable \<Gamma> X Map.empty program"
  shows "\<exists>st. plan X program tr = Some (Inr st) \<and> query_schemas st = map rel_schema (queries program) \<and>
    (\<forall>i p. i < length (heap st) \<and> p \<in> set (phases (heap st ! i)) \<longrightarrow>
      min_phase (heap st ! i) \<le> p \<and> contains_set (schema (heap st ! i)) (phase_fields (heap st ! i) p) \<and>
      requests_met (heap st) i p) \<and>
    (\<forall>i \<in> set (top_operations st). top_ok (heap st) i)"
proof -
  obtain st N where st: "plan X program tr = Some (Inr st)" "planner_ok N st" "query_schemas st = map rel_schema (queries program)"
    by (rule plan_planner_ok [OF assms])
  have "\<forall>i \<in> set (top_operations st). top_ok (heap st) i" using st(2) by (simp add: planner_ok_def)
  with st planner_ok_met [OF st(2)] show ?thesis by blast
qed

theorem plan_correct_witness:
  "\<forall>X. \<exists>st. plan X [QueryStatement (LimitRelation (FileRelation ''a'' None None (schema_of [1])) 3 (schema_of [1]))] None =
      Some (Inr st) \<and> query_schemas st = [schema_of [1]] \<and>
    (\<forall>i p. i < length (heap st) \<and> p \<in> set (phases (heap st ! i)) \<longrightarrow>
      min_phase (heap st ! i) \<le> p \<and> contains_set (schema (heap st ! i)) (phase_fields (heap st ! i) p) \<and>
      requests_met (heap st) i p) \<and>
    (\<forall>i \<in> set (top_operations st). top_ok (heap st) i)"
proof
  fix X
  let ?p = "[QueryStatement (LimitRelation (FileRelation ''a'' None None (schema_of [1])) 3 (schema_of [1]))]"
  have "has_schema (schema_of [1]) [1]" by (simp add: has_schema_def fields_ok_def)
  then have "program_plannable Map.empty X Map.empty ?p"
    by (auto simp: plannable.simps node_plannable_def)
  from plan_correct [OF this, of None]
  show "\<exists>st. plan X ?p None = Some (Inr st) \<and> query_schemas st = [schema_of [1]] \<and>
    (\<forall>i p. i < length (heap st) \<and> p \<in> set (phases (heap st ! i)) \<longrightarrow>
      min_phase (heap st ! i) \<le> p \<and> contains_set (schema (heap st ! i)) (phase_fields (heap st ! i) p) \<and>
      requests_met (heap st) i p) \<and>
    (\<forall>i \<in> set (top_operations st). top_ok (heap st) i)"
    by simp
qed

end
