(* ===== verification/Builder.thy ===== *)
theory Builder
  imports Planner
begin

text \<open>
  src/back/exec/phys/build.cpp: the physical program of a plan. An operation of the plan becomes one
  physical operation for each phase it is asked in, subscribed to those of its sources; what is computed
  once (aggregates, materialized rows, the tables of joins) is collected by an operation of its own in
  the first phase. The lemmas: building a plan of the planner ends, no \<open>verify\<close> of it fails, and every
  input of every physical operation is fed by exactly one operation, built before it.
\<close>

section \<open>build.h: the physical program\<close>

text \<open>The operations with what their constructors are given; a shared state is its number.\<close>

datatype phys_node =
    AggregateCollectorOp nat "exec_aggregate list" ScalarContext
  | AggregateEmitterOp nat
  | FilterOp exec_scalar ScalarContext
  | GroupOp "exec_aggregate option list" "exec_scalar list" ScalarContext
  | LimitOp int
  | LogOp LogFile cols nat
  | HashMarkJoinBuildOp nat
  | HashMarkJoinProbeOp nat exec_scalar nat
  | HashLeftJoinBuildOp nat exec_scalar
  | HashLeftJoinProbeOp nat exec_scalar nat
  | MaterializeCollectorOp nat
  | MaterializeEmitterOp nat
  | MergeSortedOp "exec_scalar list" bool
  | ProjectionOp "exec_scalar option list" ScalarContext
  | HashSemiJoinBuildOp nat
  | HashSemiJoinProbeOp nat exec_scalar
  | SortOp "exec_scalar list" bool
  | TopKOp "exec_scalar list" int bool
  | UnionAllOp nat
  | ValuesOp "Value list"

text \<open>A subscriber is an operation with the number of one of its inputs.\<close>

record phys_op =
  phys_node :: phys_node
  subs :: "(nat \<times> nat) list"

record builder =
  phys_ops :: "phys_op list"
  next_state :: nat
  phase_sources :: "nat \<Rightarrow> nat list"
  phase_outputs :: "nat \<Rightarrow> (Schema \<times> nat) list"
  output_ops :: "(Schema \<times> nat) list"
  built :: "nat list"
  op_of :: "nat \<times> nat \<rightharpoonup> nat"

definition empty_builder :: builder where
  "empty_builder = \<lparr>phys_ops = [], next_state = 0, phase_sources = (\<lambda>p. []), phase_outputs = (\<lambda>p. []),
     output_ops = [], built = [], op_of = Map.empty\<rparr>"

section \<open>build.cpp\<close>

text \<open>\<open>get\<close>, \<open>insert\<close> and \<open>output\<close> of an operation.\<close>

definition get_op :: "builder \<Rightarrow> nat \<Rightarrow> nat \<Rightarrow> nat res" where
  "get_op b p i = (case op_of b (p, i) of None \<Rightarrow> Inl Panic | Some k \<Rightarrow> Inr k)"

definition insert_op :: "nat \<Rightarrow> nat \<Rightarrow> nat \<Rightarrow> builder \<Rightarrow> builder res" where
  "insert_op i p k b = verify (op_of b (p, i) = None) (Inr (b\<lparr>op_of := (op_of b)((p, i) \<mapsto> k)\<rparr>))"

definition output_to :: "nat \<Rightarrow> nat \<times> nat \<Rightarrow> builder \<Rightarrow> builder res" where
  "output_to k s b = (let op = phys_ops b ! k in
     verify (s \<notin> set (subs op)) (Inr (b\<lparr>phys_ops := (phys_ops b)[k := op\<lparr>subs := subs op @ [s]\<rparr>]\<rparr>)))"

text \<open>A new operation, subscribed with its inputs in turn to what these plan operations are in these phases.\<close>

fun subscribe_to :: "nat \<Rightarrow> nat \<Rightarrow> (nat \<times> nat) list \<Rightarrow> builder \<Rightarrow> builder res" where
  "subscribe_to k port [] b = Inr b"
| "subscribe_to k port ((p, s) # fs) b =
     rbind (get_op b p s) (\<lambda>f. rbind (output_to f (k, port) b) (subscribe_to k (port + 1) fs))"

definition fed_op :: "phys_node \<Rightarrow> (nat \<times> nat) list \<Rightarrow> builder \<Rightarrow> (nat \<times> builder) res" where
  "fed_op n fs b = (let k = length (phys_ops b) in
     rbind (subscribe_to k 0 fs (b\<lparr>phys_ops := phys_ops b @ [\<lparr>phys_node = n, subs = []\<rparr>]\<rparr>)) (\<lambda>b'. Inr (k, b')))"

definition source_op :: "nat \<Rightarrow> phys_node \<Rightarrow> builder \<Rightarrow> (nat \<times> builder) res" where
  "source_op p n b = rbind (fed_op n [] b) (\<lambda>(k, b').
     Inr (k, b'\<lparr>phase_sources := (phase_sources b')(p := phase_sources b' p @ [k])\<rparr>))"

text \<open>For every phase of a plan operation: build it there and insert it.\<close>

fun each_phase :: "nat \<Rightarrow> (nat \<Rightarrow> FieldSet \<Rightarrow> builder \<Rightarrow> (nat \<times> builder) res) \<Rightarrow> (nat \<times> FieldSet) list \<Rightarrow> builder \<Rightarrow> builder res" where
  "each_phase i f [] b = Inr b"
| "each_phase i f ((p, F) # ps) b =
     rbind (f p F b) (\<lambda>(k, b'). rbind (insert_op i p k b') (each_phase i f ps))"

definition new_state :: "builder \<Rightarrow> nat \<times> builder" where
  "new_state b = (next_state b, b\<lparr>next_state := next_state b + 1\<rparr>)"

text \<open>What is outside: the files, the field binding, and the order an \<open>unordered_set\<close> of fields is gone
  through. \<open>emplace\<close> keeps the first slot of a name.\<close>

record build_env =
  world :: storage
  binding :: FieldBinding
  id_order :: "FieldSet \<Rightarrow> FieldId list"

fun log_slots :: "FieldBinding \<Rightarrow> Schema \<Rightarrow> FieldId list \<Rightarrow> cols \<Rightarrow> nat \<Rightarrow> (cols \<times> nat) res" where
  "log_slots fb sch [] cols n = Inr (cols, n)"
| "log_slots fb sch (i # is) cols n = (case slot sch i of
     None \<Rightarrow> Inl Panic
   | Some k \<Rightarrow> rbind (field_name fb i) (\<lambda>name.
       log_slots fb sch is (if map_of cols name = None then cols @ [(name, k)] else cols) (max n (k + 1))))"

definition buildLog :: "build_env \<Rightarrow> nat \<Rightarrow> plan_op \<Rightarrow> LogFile \<Rightarrow> builder \<Rightarrow> builder res" where
  "buildLog E i op file = each_phase i (\<lambda>p F b.
     rbind (log_slots (binding E) (schema op) (id_order E F) [] 0) (\<lambda>(cols, n). source_op p (LogOp file cols n) b))
     (required_fields op)"

definition build_node :: "build_env \<Rightarrow> heap \<Rightarrow> nat \<Rightarrow> builder \<Rightarrow> builder res option" where
  "build_node E H i b0 = (let op = H ! i; ps = required_fields op; mp = min_phase op in case node op of
     PAggregate s as c \<Rightarrow> Some (let (st, b) = new_state b0 in
       rbind (fed_op (AggregateCollectorOp st (map snd as) c) [(mp, s)] b) (\<lambda>(k, b).
         each_phase i (\<lambda>p F b. if p = mp then Inr (k, b) else source_op p (AggregateEmitterOp st) b) ps b))
   | PFilter s e c \<Rightarrow> Some (each_phase i (\<lambda>p F. fed_op (FilterOp e c) [(p, s)]) ps b0)
   | PGroup s as ks c \<Rightarrow> Some (each_phase i (\<lambda>p F.
       fed_op (GroupOp (projectorsExprs as F) (map snd ks) c) [(p, s)]) ps b0)
   | PLimit s n \<Rightarrow> Some (each_phase i (\<lambda>p F. fed_op (LimitOp n) [(p, s)]) ps b0)
   | PLog path r tf \<Rightarrow> map_option (\<lambda>m. rbind m (\<lambda>file. buildLog E i op file b0)) (open_file (world E) path r tf)
   | PStream cmd \<Rightarrow> map_option (\<lambda>m. rbind m (\<lambda>file. buildLog E i op file b0)) (open_stream (world E) cmd)
   | PHashMarkJoin m s e mf out \<Rightarrow> Some (case slot (schema op) out of
       None \<Rightarrow> Inl Panic
     | Some out_slot \<Rightarrow> let (st, b) = new_state b0 in
         rbind (fed_op (HashMarkJoinBuildOp st) [(min_phase (H ! m), m)] b) (\<lambda>(k, b).
           each_phase i (\<lambda>p F. fed_op (HashMarkJoinProbeOp st e out_slot) [(p, s)]) ps b))
   | PHashLeftJoin l r lk rk \<Rightarrow> Some (let (st, b) = new_state b0 in
       rbind (fed_op (HashLeftJoinBuildOp st rk) [(min_phase (H ! r), r)] b) (\<lambda>(k, b).
         each_phase i (\<lambda>p F. fed_op (HashLeftJoinProbeOp st lk (columns (schema (H ! l)))) [(p, l)]) ps b))
   | PMaterialize s \<Rightarrow> Some (let (st, b) = new_state b0 in
       rbind (fed_op (MaterializeCollectorOp st) [(mp, s)] b) (\<lambda>(k, b).
         each_phase i (\<lambda>p F b. if p = mp then Inr (k, b) else source_op p (MaterializeEmitterOp st) b) ps b))
   | PMergeSorted l r ks desc \<Rightarrow> Some (each_phase i (\<lambda>p F. fed_op (MergeSortedOp ks desc) [(p, l), (p, r)]) ps b0)
   | PProjection s es c \<Rightarrow> Some (each_phase i (\<lambda>p F. fed_op (ProjectionOp (projectorsExprs es F) c) [(p, s)]) ps b0)
   | PHashSemiJoin m s e mf \<Rightarrow> Some (let (st, b) = new_state b0 in
       rbind (fed_op (HashSemiJoinBuildOp st) [(min_phase (H ! m), m)] b) (\<lambda>(k, b).
         each_phase i (\<lambda>p F. fed_op (HashSemiJoinProbeOp st e) [(p, s)]) ps b))
   | PSort s ks desc \<Rightarrow> Some (each_phase i (\<lambda>p F. fed_op (SortOp ks desc) [(p, s)]) ps b0)
   | PTopK s ks desc n \<Rightarrow> Some (each_phase i (\<lambda>p F. fed_op (TopKOp ks n desc) [(p, s)]) ps b0)
   | PUnionAll ss \<Rightarrow> Some (each_phase i (\<lambda>p F. fed_op (UnionAllOp (length ss)) (map (Pair p) ss)) ps b0)
   | PValues vs \<Rightarrow> Some (each_phase i (\<lambda>p F. source_op p (ValuesOp vs)) ps b0))"

text \<open>\<open>build\<close> of plan operations one after the other: an operation after its sources, and only once.\<close>

partial_function (option) build_ops :: "build_env \<Rightarrow> heap \<Rightarrow> nat list \<Rightarrow> builder \<Rightarrow> builder res option" where
  "build_ops E H is b = (case is of
     [] \<Rightarrow> Some (Inr b)
   | i # js \<Rightarrow>
       if i \<in> set (built b) then build_ops E H js b
       else Option.bind (build_ops E H (node_sources (node (H ! i))) b) (\<lambda>r. case r of
           Inl f \<Rightarrow> Some (Inl f)
         | Inr b1 \<Rightarrow> Option.bind (build_node E H i b1) (\<lambda>r. case r of
             Inl f \<Rightarrow> Some (Inl f)
           | Inr b2 \<Rightarrow> build_ops E H js (b2\<lparr>built := i # built b2\<rparr>))))"

fun build_tops :: "build_env \<Rightarrow> heap \<Rightarrow> nat list \<Rightarrow> builder \<Rightarrow> builder res option" where
  "build_tops E H [] b = Some (Inr b)"
| "build_tops E H (i # is) b = Option.bind (build_ops E H [i] b) (\<lambda>r. case r of
     Inl f \<Rightarrow> Some (Inl f)
   | Inr b \<Rightarrow> (case get_op b (min_phase (H ! i)) i of
       Inl f \<Rightarrow> Some (Inl f)
     | Inr k \<Rightarrow> let out = (schema (H ! i), k); p = min_phase (H ! i) in
         build_tops E H is (b\<lparr>phase_outputs := (phase_outputs b)(p := phase_outputs b p @ [out]),
                              output_ops := output_ops b @ [out]\<rparr>)))"

definition build_program :: "build_env \<Rightarrow> planner \<Rightarrow> builder res option" where
  "build_program E st = build_tops E (heap st) (top_operations st) empty_builder"

section \<open>The network\<close>

fun inputs :: "phys_node \<Rightarrow> nat" where
  "inputs (AggregateEmitterOp st) = 0"
| "inputs (LogOp file cols n) = 0"
| "inputs (MaterializeEmitterOp st) = 0"
| "inputs (ValuesOp vs) = 0"
| "inputs (MergeSortedOp ks desc) = 2"
| "inputs (UnionAllOp n) = n"
| "inputs _ = 1"

text \<open>Every input below the bound \<open>m\<close> of an operation is fed by exactly one operation before it.\<close>

definition wired :: "(nat \<Rightarrow> nat) \<Rightarrow> phys_op list \<Rightarrow> bool" where
  "wired m ops \<longleftrightarrow>
     (\<forall>k < length ops. distinct (subs (ops ! k)) \<and>
        (\<forall>(j, port) \<in> set (subs (ops ! k)). k < j \<and> j < length ops \<and> port < m j)) \<and>
     (\<forall>j < length ops. \<forall>port < m j. \<exists>!k. k < length ops \<and> (j, port) \<in> set (subs (ops ! k)))"

definition network :: "phys_op list \<Rightarrow> bool" where
  "network ops = wired (\<lambda>j. inputs (phys_node (ops ! j))) ops"

lemma wired_cong: "(\<And>j. j < length ops \<Longrightarrow> m j = n j) \<Longrightarrow> wired m ops = wired n ops"
  unfolding wired_def by (intro arg_cong2 [where f = "(\<and>)"] all_cong ball_cong) auto

lemma wired_subscribe:
  assumes w: "wired m ops" and k: "f < k" "k < length ops"
  shows "wired (m(k := m k + 1)) (ops[f := (ops ! f)\<lparr>subs := subs (ops ! f) @ [(k, m k)]\<rparr>])"
    and "(k, m k) \<notin> set (subs (ops ! f))"
proof -
  let ?ops = "ops[f := (ops ! f)\<lparr>subs := subs (ops ! f) @ [(k, m k)]\<rparr>]" and ?m = "m(k := m k + 1)"
  have f: "f < length ops" using k by simp
  have fresh: "(k, m k) \<notin> set (subs (ops ! g))" if "g < length ops" for g
    using w that unfolding wired_def by fastforce
  then show "(k, m k) \<notin> set (subs (ops ! f))" using f by blast
  have sub: "set (subs (?ops ! g)) = (if g = f then insert (k, m k) (set (subs (ops ! g))) else set (subs (ops ! g)))"
    if "g < length ops" for g using that by (auto simp: nth_list_update)
  show "wired ?m ?ops"
    unfolding wired_def
  proof (intro conjI allI impI)
    fix g assume g: "g < length ?ops"
    then have d: "distinct (subs (ops ! g))" "(k, m k) \<notin> set (subs (ops ! g))" using w fresh by (simp_all add: wired_def)
    then show "distinct (subs (?ops ! g))" using g by (cases "g = f") simp_all
    show "\<forall>(j, port) \<in> set (subs (?ops ! g)). g < j \<and> j < length ?ops \<and> port < ?m j"
    proof clarify
      fix j port assume "(j, port) \<in> set (subs (?ops ! g))"
      then consider "g = f" "j = k" "port = m k" | "(j, port) \<in> set (subs (ops ! g))"
        using sub [of g] g by (auto split: if_splits)
      then show "g < j \<and> j < length ?ops \<and> port < ?m j"
      proof cases
        case 1
        with k show ?thesis by simp
      next
        case 2
        with w g have "g < j" "j < length ops" "port < m j" unfolding wired_def by fastforce+
        then show ?thesis by (cases "j = k") simp_all
      qed
    qed
  next
    fix j port assume j: "j < length ?ops" and port: "port < ?m j"
    show "\<exists>!g. g < length ?ops \<and> (j, port) \<in> set (subs (?ops ! g))"
    proof (cases "(j, port) = (k, m k)")
      case True
      have "h = f" if "h < length ?ops \<and> (j, port) \<in> set (subs (?ops ! h))" for h
        using that fresh [of h] sub [of h] True by (auto split: if_splits)
      with True f sub [OF f] show ?thesis by (intro ex1I [of _ f]) auto
    next
      case False
      with port have "port < m j" by (auto split: if_splits)
      with w j obtain g where g: "g < length ops" "(j, port) \<in> set (subs (ops ! g))"
        and u: "\<And>h. h < length ops \<Longrightarrow> (j, port) \<in> set (subs (ops ! h)) \<Longrightarrow> h = g"
        unfolding wired_def by (metis length_list_update)
      show ?thesis
      proof (rule ex1I [of _ g])
        show "g < length ?ops \<and> (j, port) \<in> set (subs (?ops ! g))" using g sub [OF g(1)] by (cases "g = f") simp_all
        fix h assume h: "h < length ?ops \<and> (j, port) \<in> set (subs (?ops ! h))"
        then have "(j, port) \<in> set (subs (ops ! h))" using sub [of h] False by (auto split: if_splits)
        with h show "h = g" by (intro u) simp_all
      qed
    qed
  qed
qed

lemma wired_new:
  assumes "wired m ops" "\<forall>j < length ops. m j = n j" "n (length ops) = 0"
  shows "wired n (ops @ [\<lparr>phys_node = x, subs = []\<rparr>])"
proof -
  let ?ops = "ops @ [\<lparr>phys_node = x, subs = []\<rparr>]"
  have sub: "subs (?ops ! g) = (if g < length ops then subs (ops ! g) else [])" if "g < length ?ops" for g
    using that by (auto simp: nth_append less_Suc_eq)
  show ?thesis
    unfolding wired_def
  proof (intro conjI allI impI)
    fix g assume g: "g < length ?ops"
    show "distinct (subs (?ops ! g))" using assms(1) by (simp add: sub [OF g] wired_def)
    show "\<forall>(j, port) \<in> set (subs (?ops ! g)). g < j \<and> j < length ?ops \<and> port < n j"
    proof clarify
      fix j port assume "(j, port) \<in> set (subs (?ops ! g))"
      then have "g < length ops" "(j, port) \<in> set (subs (ops ! g))" by (simp_all add: sub [OF g] split: if_splits)
      with assms(1) have lt: "g < j" "j < length ops" "port < m j" unfolding wired_def by blast+
      from assms(2) lt(2) have "m j = n j" by blast
      with lt show "g < j \<and> j < length ?ops \<and> port < n j" by simp
    qed
  next
    fix j port assume j: "j < length ?ops" and port: "port < n j"
    with assms(3) have lt: "j < length ops" by (cases "j = length ops") auto
    with assms(1,2) port obtain g where g: "g < length ops" "(j, port) \<in> set (subs (ops ! g))"
      and u: "\<And>h. h < length ops \<Longrightarrow> (j, port) \<in> set (subs (ops ! h)) \<Longrightarrow> h = g" unfolding wired_def by metis
    show "\<exists>!g. g < length ?ops \<and> (j, port) \<in> set (subs (?ops ! g))"
    proof (rule ex1I [of _ g])
      show "g < length ?ops \<and> (j, port) \<in> set (subs (?ops ! g))" using g by (simp add: nth_append)
      fix h assume h: "h < length ?ops \<and> (j, port) \<in> set (subs (?ops ! h))"
      then have "h < length ops" "(j, port) \<in> set (subs (ops ! h))" using sub [of h] by (auto split: if_splits)
      then show "h = g" by (rule u)
    qed
  qed
qed

section \<open>Building one operation\<close>

fun pushes :: "phys_node \<Rightarrow> bool" where
  "pushes (AggregateEmitterOp st) = True"
| "pushes (LogOp file cols n) = True"
| "pushes (MaterializeEmitterOp st) = True"
| "pushes (ValuesOp vs) = True"
| "pushes _ = False"

text \<open>The network so far: the operations that push are the sources of the phases.\<close>

definition net_ok :: "builder \<Rightarrow> bool" where
  "net_ok b \<longleftrightarrow> network (phys_ops b) \<and> (\<forall>x k. op_of b x = Some k \<longrightarrow> k < length (phys_ops b)) \<and>
     (\<forall>k. k < length (phys_ops b) \<longrightarrow> (pushes (phys_node (phys_ops b ! k)) \<longleftrightarrow> (\<exists>p. k \<in> set (phase_sources b p)))) \<and>
     (\<forall>p. \<forall>k \<in> set (phase_sources b p). k < length (phys_ops b))"

text \<open>What is built stays.\<close>

definition kept :: "builder \<Rightarrow> builder \<Rightarrow> bool" where
  "kept b b' \<longleftrightarrow> built b' = built b \<and> phase_outputs b' = phase_outputs b \<and> output_ops b' = output_ops b \<and> length (phys_ops b) \<le> length (phys_ops b') \<and>
     (\<forall>x. op_of b x \<noteq> None \<longrightarrow> op_of b' x = op_of b x)"

lemma kept_refl [simp]: "kept b b"
  by (simp add: kept_def)

lemma kept_trans: "kept a b \<Longrightarrow> kept b c \<Longrightarrow> kept a c"
  unfolding kept_def by (metis order_trans)

lemma kept_fed: "kept b b' \<Longrightarrow> op_of b x \<noteq> None \<Longrightarrow> op_of b' x \<noteq> None"
  by (metis kept_def)

lemma subscribe_to_ok:
  "wired m (phys_ops b) \<Longrightarrow> k < length (phys_ops b) \<Longrightarrow> m k = port \<Longrightarrow>
   \<forall>x \<in> set fs. \<exists>f < k. op_of b x = Some f \<Longrightarrow>
   \<exists>ops. subscribe_to k port fs b = Inr (b\<lparr>phys_ops := ops\<rparr>) \<and> wired (m(k := port + length fs)) ops \<and>
     map phys_node ops = map phys_node (phys_ops b)"
proof (induction k port fs b arbitrary: m rule: subscribe_to.induct)
  case (1 k port b)
  then show ?case by (intro exI [of _ "phys_ops b"]) (auto simp: fun_upd_idem)
next
  case (2 k port p s fs b)
  from 2(5) obtain f where f: "op_of b (p, s) = Some f" "f < k" by auto
  let ?ops = "(phys_ops b)[f := (phys_ops b ! f)\<lparr>subs := subs (phys_ops b ! f) @ [(k, port)]\<rparr>]"
  note w = wired_subscribe [OF 2(2) f(2) 2(3)]
  have get: "get_op b p s = Inr f" by (simp add: get_op_def f)
  have sub: "output_to f (k, port) b = Inr (b\<lparr>phys_ops := ?ops\<rparr>)"
    using w(2) 2(4) by (simp add: output_to_def Let_def)
  have "wired (m(k := m k + 1)) (phys_ops (b\<lparr>phys_ops := ?ops\<rparr>))" using w(1) 2(4) by simp
  moreover have "\<forall>x \<in> set fs. \<exists>f < k. op_of (b\<lparr>phys_ops := ?ops\<rparr>) x = Some f" using 2(5) by simp
  ultimately have "\<exists>ops. subscribe_to k (port + 1) fs (b\<lparr>phys_ops := ?ops\<rparr>) = Inr (b\<lparr>phys_ops := ops\<rparr>) \<and>
      wired ((m(k := m k + 1))(k := port + 1 + length fs)) ops \<and> map phys_node ops = map phys_node ?ops"
    using 2(1) [OF get sub, of "m(k := m k + 1)"] 2(3,4) by (simp del: fun_upd_apply) (simp only: fun_upd_same)
  moreover have "map phys_node ?ops = map phys_node (phys_ops b)"
    using f(2) 2(3) by (auto simp: map_update intro!: list_update_same_conv [THEN iffD2])
  ultimately show ?case by (simp add: get sub fun_upd_upd del: fun_upd_apply)
qed

lemma node_nth: "map phys_node xs = map phys_node ys \<Longrightarrow> j < length xs \<Longrightarrow> phys_node (xs ! j) = phys_node (ys ! j)"
  by (metis length_map nth_map)

text \<open>A new operation: the others stay.\<close>

lemma fed_op_network:
  assumes "net_ok b" "length fs = inputs n" "\<forall>x \<in> set fs. op_of b x \<noteq> None"
  obtains ops where "fed_op n fs b = Inr (length (phys_ops b), b\<lparr>phys_ops := ops\<rparr>)" "network ops"
    "map phys_node ops = map phys_node (phys_ops b) @ [n]"
proof -
  let ?k = "length (phys_ops b)" and ?m = "\<lambda>j. inputs (phys_node (phys_ops b ! j))"
  let ?b = "b\<lparr>phys_ops := phys_ops b @ [\<lparr>phys_node = n, subs = []\<rparr>]\<rparr>"
  from assms(1) have w: "wired ?m (phys_ops b)" by (simp add: net_ok_def network_def)
  have w1: "wired (?m(?k := 0)) (phys_ops ?b)" using wired_new [OF w, of "?m(?k := 0)" n] by simp
  have fed: "\<forall>x \<in> set fs. \<exists>f < ?k. op_of ?b x = Some f"
    using assms(1,3) by (fastforce simp: net_ok_def)
  have k: "?k < length (phys_ops ?b)" "(?m(?k := 0)) ?k = 0" by simp_all
  from subscribe_to_ok [OF w1 k fed] obtain ops where ops: "subscribe_to ?k 0 fs ?b = Inr (?b\<lparr>phys_ops := ops\<rparr>)"
    "wired ((?m(?k := 0))(?k := 0 + length fs)) ops" "map phys_node ops = map phys_node (phys_ops ?b)" by blast
  have nodes: "map phys_node ops = map phys_node (phys_ops b) @ [n]" using ops(3) by simp
  from arg_cong [OF this, of length] have len: "length ops = ?k + 1" by simp
  have "phys_node (ops ! j) = (if j = ?k then n else phys_node (phys_ops b ! j))" if "j < length ops" for j
  proof -
    from that have "phys_node (ops ! j) = (map phys_node (phys_ops b) @ [n]) ! j" using nodes by (metis nth_map)
    with that len show ?thesis by (auto simp: nth_append)
  qed
  then have "network ops"
    unfolding network_def using ops(2) assms(2) by (subst wired_cong [where n = "(?m(?k := 0))(?k := 0 + length fs)"]) auto
  moreover have "fed_op n fs b = Inr (?k, b\<lparr>phys_ops := ops\<rparr>)" by (simp add: fed_op_def ops(1))
  ultimately show ?thesis using that nodes by blast
qed

definition builds_op :: "builder \<Rightarrow> (nat \<times> builder) res \<Rightarrow> bool" where
  "builds_op b m \<longleftrightarrow> (\<exists>k b'. m = Inr (k, b') \<and> net_ok b' \<and> kept b b' \<and> op_of b' = op_of b \<and> k < length (phys_ops b'))"

lemma network_nodes:
  assumes "map phys_node ops = map phys_node (phys_ops b) @ [n]"
  shows "length ops = length (phys_ops b) + 1"
    and "j < length ops \<Longrightarrow> phys_node (ops ! j) = (if j = length (phys_ops b) then n else phys_node (phys_ops b ! j))"
proof -
  from arg_cong [OF assms, of length] show len: "length ops = length (phys_ops b) + 1" by simp
  assume j: "j < length ops"
  then have "phys_node (ops ! j) = (map phys_node (phys_ops b) @ [n]) ! j" using assms by (metis nth_map)
  with j len show "phys_node (ops ! j) = (if j = length (phys_ops b) then n else phys_node (phys_ops b ! j))"
    by (auto simp: nth_append)
qed

lemma fed_op_builds:
  assumes "net_ok b" "length fs = inputs n" "\<forall>x \<in> set fs. op_of b x \<noteq> None" "\<not> pushes n"
  shows "builds_op b (fed_op n fs b)"
proof -
  obtain ops where ops: "fed_op n fs b = Inr (length (phys_ops b), b\<lparr>phys_ops := ops\<rparr>)" "network ops"
    "map phys_node ops = map phys_node (phys_ops b) @ [n]" by (rule fed_op_network [OF assms(1-3)])
  note nd = network_nodes [OF ops(3)]
  have lt: "k < length (phys_ops b)" if "k \<in> set (phase_sources b p)" for k p using assms(1) that by (auto simp: net_ok_def)
  have "pushes (phys_node (ops ! k)) \<longleftrightarrow> (\<exists>p. k \<in> set (phase_sources b p))" if "k < length ops" for k
  proof (cases "k = length (phys_ops b)")
    case True
    with nd(2) [OF that] assms(4) lt show ?thesis by fastforce
  next
    case False
    with nd that assms(1) show ?thesis by (simp add: net_ok_def)
  qed
  with assms(1) ops(2) nd(1) lt have "net_ok (b\<lparr>phys_ops := ops\<rparr>)" by (fastforce simp: net_ok_def)
  with ops(1) nd(1) show ?thesis by (simp add: builds_op_def kept_def)
qed

lemma source_op_builds:
  assumes "net_ok b" "inputs n = 0" "pushes n"
  shows "builds_op b (source_op p n b)"
proof -
  obtain ops where ops: "fed_op n [] b = Inr (length (phys_ops b), b\<lparr>phys_ops := ops\<rparr>)" "network ops"
    "map phys_node ops = map phys_node (phys_ops b) @ [n]" by (rule fed_op_network [OF assms(1), of "[]"]) (use assms(2) in auto)
  note nd = network_nodes [OF ops(3)]
  let ?k = "length (phys_ops b)"
  let ?b = "b\<lparr>phys_ops := ops, phase_sources := (phase_sources b)(p := phase_sources b p @ [?k])\<rparr>"
  have lt: "k < ?k" if "k \<in> set (phase_sources b q)" for k q using assms(1) that by (auto simp: net_ok_def)
  have "pushes (phys_node (ops ! k)) \<longleftrightarrow> (\<exists>q. k \<in> set (phase_sources ?b q))" if "k < length ops" for k
  proof (cases "k = ?k")
    case True
    with nd(2) [OF that] assms(3) show ?thesis by (auto intro: exI [of _ p])
  next
    case False
    with nd that assms(1) have "pushes (phys_node (ops ! k)) \<longleftrightarrow> (\<exists>q. k \<in> set (phase_sources b q))" by (simp add: net_ok_def)
    also have "\<dots> \<longleftrightarrow> (\<exists>q. k \<in> set (phase_sources ?b q))" using False by auto
    finally show ?thesis .
  qed
  moreover have "k < length ops" if "k \<in> set (phase_sources ?b q)" for k q
    using that lt [of k q] nd(1) by (auto split: if_splits)
  moreover have "k < length ops" if "op_of b x = Some k" for x k
  proof -
    from assms(1) that have "k < ?k" unfolding net_ok_def by blast
    then show ?thesis by (simp add: nd(1))
  qed
  ultimately have "net_ok ?b" using ops(2) by (auto simp: net_ok_def)
  with ops(1) nd(1) show ?thesis by (simp add: builds_op_def kept_def source_op_def)
qed

lemma insert_op_ok:
  assumes "net_ok b" "op_of b (p, i) = None" "k < length (phys_ops b)"
  shows "\<exists>b'. insert_op i p k b = Inr b' \<and> net_ok b' \<and> kept b b' \<and> op_of b' = (op_of b)((p, i) \<mapsto> k)"
  using assms by (auto simp: insert_op_def net_ok_def kept_def)

lemma each_phase_ok:
  assumes "net_ok b" "distinct (map fst ps)" "\<forall>p \<in> set (map fst ps). op_of b (p, i) = None"
    and "\<And>p F b1. (p, F) \<in> set ps \<Longrightarrow> net_ok b1 \<Longrightarrow> kept b b1 \<Longrightarrow> builds_op b1 (f p F b1)"
  shows "\<exists>b'. each_phase i f ps b = Inr b' \<and> net_ok b' \<and> kept b b' \<and>
    (\<forall>x. op_of b' x \<noteq> None \<longleftrightarrow> op_of b x \<noteq> None \<or> (fst x \<in> set (map fst ps) \<and> snd x = i))"
  using assms
proof (induction ps arbitrary: b)
  case (Cons q ps)
  obtain p F where q: "q = (p, F)" by (cases q)
  from Cons.prems(4) [of p F b] Cons.prems(1) q obtain k b1 where b1: "f p F b = Inr (k, b1)" "net_ok b1" "kept b b1"
    "op_of b1 = op_of b" "k < length (phys_ops b1)" by (auto simp: builds_op_def)
  from Cons.prems(3) q b1(4) have "op_of b1 (p, i) = None" by simp
  from insert_op_ok [OF b1(2) this b1(5)] obtain b2 where b2: "insert_op i p k b1 = Inr b2" "net_ok b2" "kept b1 b2"
    "op_of b2 = (op_of b1)((p, i) \<mapsto> k)" by blast
  have kept: "kept b b2" by (rule kept_trans [OF b1(3) b2(3)])
  have "\<exists>b'. each_phase i f ps b2 = Inr b' \<and> net_ok b' \<and> kept b2 b' \<and>
      (\<forall>x. op_of b' x \<noteq> None \<longleftrightarrow> op_of b2 x \<noteq> None \<or> (fst x \<in> set (map fst ps) \<and> snd x = i))"
  proof (rule Cons.IH [OF b2(2)])
    show "distinct (map fst ps)" using Cons.prems(2) by simp
    show "\<forall>p \<in> set (map fst ps). op_of b2 (p, i) = None" using Cons.prems(2,3) q b2(4) b1(4) by auto
    fix p' F' b3 assume "(p', F') \<in> set ps" "net_ok b3" "kept b2 b3"
    then show "builds_op b3 (f p' F' b3)" using Cons.prems(4) kept_trans [OF kept] by simp
  qed
  then obtain b' where b': "each_phase i f ps b2 = Inr b'" "net_ok b'" "kept b2 b'"
    "\<forall>x. op_of b' x \<noteq> None \<longleftrightarrow> op_of b2 x \<noteq> None \<or> (fst x \<in> set (map fst ps) \<and> snd x = i)" by blast
  have "op_of b' x \<noteq> None \<longleftrightarrow> op_of b x \<noteq> None \<or> (fst x \<in> set (map fst (q # ps)) \<and> snd x = i)" for x
    using b'(4) [rule_format, of x] b2(4) b1(4) q by (cases x) auto
  with b' b1(1) b2(1) q kept_trans [OF kept b'(3)] show ?case by auto
qed auto

section \<open>Building a plan\<close>

definition builder_ok :: "heap \<Rightarrow> builder \<Rightarrow> bool" where
  "builder_ok H b \<longleftrightarrow> net_ok b \<and> (\<forall>p i. op_of b (p, i) \<noteq> None \<longleftrightarrow> i \<in> set (built b) \<and> p \<in> set (phases (H ! i)))"

text \<open>What the plan gives: operations after their sources, requests that are met.\<close>

definition plan_ok :: "heap \<Rightarrow> bool" where
  "plan_ok H \<longleftrightarrow> heap_ok H \<and> (\<forall>i p. i < length H \<longrightarrow> p \<in> set (phases (H ! i)) \<longrightarrow> requests_met H i p)"

text \<open>The logs of the plan open, and the field binding names the fields.\<close>

definition env_ok :: "build_env \<Rightarrow> heap \<Rightarrow> bool" where
  "env_ok E H \<longleftrightarrow> order_ok (id_order E) \<and>
     (\<forall>op \<in> set H. (\<forall>path r tf. node op = PLog path r tf \<longrightarrow> (\<exists>file. open_file (world E) path r tf = Some (Inr file))) \<and>
        (\<forall>i. contains (schema op) i \<longrightarrow> (\<exists>n. field_name (binding E) i = Inr n)))"

lemma log_slots_ok:
  "\<forall>i \<in> set is. contains sch i \<and> (\<exists>n. field_name fb i = Inr n) \<Longrightarrow> \<exists>r. log_slots fb sch is cols n = Inr r"
  by (induction fb sch "is" cols n rule: log_slots.induct) (fastforce simp: contains_def slot_def)+

text \<open>An operation whose turn it is, and what building it gives.\<close>

definition next_op :: "heap \<Rightarrow> nat \<Rightarrow> builder \<Rightarrow> bool" where
  "next_op H i b \<longleftrightarrow> plan_ok H \<and> i < length H \<and> builder_ok H b \<and> i \<notin> set (built b) \<and>
     set (node_sources (node (H ! i))) \<subseteq> set (built b) \<and> phases (H ! i) \<noteq> []"

definition node_built :: "heap \<Rightarrow> nat \<Rightarrow> builder \<Rightarrow> builder res \<Rightarrow> bool" where
  "node_built H i b m \<longleftrightarrow> (\<exists>b'. m = Inr b' \<and> builder_ok H (b'\<lparr>built := i # built b'\<rparr>) \<and> kept b b')"

lemma next_op_net: "next_op H i b \<Longrightarrow> net_ok b"
  by (simp add: next_op_def builder_ok_def)

text \<open>In a phase of an operation its sources are there.\<close>

lemma sources_there:
  assumes "next_op H i b" "p \<in> set (phases (H ! i))" "op_requests H i p = Inr qs" "(c, q, G) \<in> set qs"
  shows "op_of b (q, c) \<noteq> None"
proof -
  from assms(1,2) have "requests_met H i p" by (simp add: next_op_def plan_ok_def)
  then have q: "q \<in> set (phases (H ! c))" using assms(3,4) by (fastforce simp: requests_met_def)
  from node_requests_sources [OF assms(3) [unfolded op_requests_def] assms(4)] assms(1) have "c \<in> set (built b)"
    by (auto simp: next_op_def)
  with q assms(1) show ?thesis by (auto simp: next_op_def builder_ok_def)
qed

lemma requests_there:
  assumes "next_op H i b"
  shows "p \<in> set (phases (H ! i)) \<Longrightarrow> \<exists>qs. op_requests H i p = Inr qs \<and> (\<forall>(c, q, G) \<in> set qs. op_of b (q, c) \<noteq> None)"
proof -
  assume p: "p \<in> set (phases (H ! i))"
  with assms have "requests_met H i p" by (simp add: next_op_def plan_ok_def)
  then obtain qs where qs: "op_requests H i p = Inr qs" by (auto simp: requests_met_def)
  with sources_there [OF assms p qs] show ?thesis by (intro exI [of _ qs]) auto
qed

text \<open>An operation that only has its own operations in its phases; or a collecting one before them.\<close>

lemma phases_build:
  assumes i: "next_op H i b" and b1: "net_ok b1" "kept b b1" "op_of b1 = op_of b"
    and f: "\<And>p F b2. (p, F) \<in> set (required_fields (H ! i)) \<Longrightarrow> net_ok b2 \<Longrightarrow> kept b1 b2 \<Longrightarrow> builds_op b2 (f p F b2)"
  shows "node_built H i b (each_phase i f (required_fields (H ! i)) b1)"
proof -
  let ?ps = "required_fields (H ! i)"
  have b: "builder_ok H b" "i \<notin> set (built b)" using i by (simp_all add: next_op_def)
  from i have "op_ok H i" by (simp add: next_op_def plan_ok_def heap_ok_def)
  then have d: "distinct (map fst ?ps)" by (auto simp: op_ok_def in_order_def strict_sorted_iff)
  have "op_of b (p, i) = None" for p using b unfolding builder_ok_def by blast
  then have new: "\<forall>p \<in> set (map fst ?ps). op_of b1 (p, i) = None" by (simp add: b1(3))
  have "\<exists>b'. each_phase i f ?ps b1 = Inr b' \<and> net_ok b' \<and> kept b1 b' \<and>
    (\<forall>x. op_of b' x \<noteq> None \<longleftrightarrow> op_of b1 x \<noteq> None \<or> (fst x \<in> set (map fst ?ps) \<and> snd x = i))"
    by (rule each_phase_ok [OF b1(1) d new]) (rule f)
  then obtain b' where b': "each_phase i f ?ps b1 = Inr b'" "net_ok b'" "kept b1 b'"
    "\<forall>x. op_of b' x \<noteq> None \<longleftrightarrow> op_of b1 x \<noteq> None \<or> (fst x \<in> set (map fst ?ps) \<and> snd x = i)" by blast
  have k: "kept b b'" by (rule kept_trans [OF b1(2) b'(3)])
  then have blt: "built b' = built b" by (simp add: kept_def)
  have "op_of b' (p, j) \<noteq> None \<longleftrightarrow> j \<in> insert i (set (built b)) \<and> p \<in> set (phases (H ! j))" for p j
    using b'(4) [rule_format, of "(p, j)"] b b1(3) by (auto simp: builder_ok_def phases_def)
  moreover have "net_ok (b'\<lparr>built := i # built b'\<rparr>)" using b'(2) by (simp add: net_ok_def)
  ultimately show ?thesis using b'(1) blt k by (auto simp: node_built_def builder_ok_def)
qed

lemma simple_built:
  assumes i: "next_op H i b"
    and f: "\<And>p F b2. (p, F) \<in> set (required_fields (H ! i)) \<Longrightarrow> net_ok b2 \<Longrightarrow> kept b b2 \<Longrightarrow> builds_op b2 (f p F b2)"
  shows "node_built H i b (each_phase i f (required_fields (H ! i)) b)"
  by (rule phases_build [OF i next_op_net [OF i] kept_refl refl]) (rule f)

lemma in_phases: "(p, F) \<in> set (required_fields op) \<Longrightarrow> p \<in> set (phases op)"
  by (force simp: phases_def)

lemma fed_op_after:
  assumes "\<forall>x \<in> set fs. op_of b x \<noteq> None" "kept b b2" "net_ok b2" "length fs = inputs n" "\<not> pushes n"
  shows "builds_op b2 (fed_op n fs b2)"
  by (rule fed_op_builds [OF assms(3,4) _ assms(5)]) (use assms(1) kept_fed [OF assms(2)] in blast)

lemma fed_built:
  assumes i: "next_op H i b" and fs: "\<And>p. p \<in> set (phases (H ! i)) \<Longrightarrow> \<forall>x \<in> set (fs p). op_of b x \<noteq> None"
    and n: "\<And>p F. length (fs p) = inputs (n p F)" "\<And>p F. \<not> pushes (n p F)"
  shows "node_built H i b (each_phase i (\<lambda>p F. fed_op (n p F) (fs p)) (required_fields (H ! i)) b)"
proof (rule simple_built [OF i])
  fix p F b2 assume "(p, F) \<in> set (required_fields (H ! i))" "net_ok b2" "kept b b2"
  then show "builds_op b2 (fed_op (n p F) (fs p) b2)" using fs [OF in_phases] n by (intro fed_op_after)
qed

lemma new_state_net: "net_ok b \<Longrightarrow> net_ok (snd (new_state b)) \<and> kept b (snd (new_state b)) \<and> op_of (snd (new_state b)) = op_of b"
  by (simp add: new_state_def net_ok_def kept_def)

lemma collector_build:
  assumes "net_ok b" "op_of b x \<noteq> None" "inputs n = 1" "\<not> pushes n"
  obtains k b1 where "fed_op n [x] (snd (new_state b)) = Inr (k, b1)" "net_ok b1" "kept b b1" "op_of b1 = op_of b" "k < length (phys_ops b1)"
proof -
  note s = new_state_net [OF assms(1)]
  from s assms(3) have "builds_op (snd (new_state b)) (fed_op n [x] (snd (new_state b)))"
    by (intro fed_op_builds) (use assms in auto)
  then obtain k b1 where "fed_op n [x] (snd (new_state b)) = Inr (k, b1)" "net_ok b1" "kept (snd (new_state b)) b1"
    "op_of b1 = op_of (snd (new_state b))" "k < length (phys_ops b1)" by (auto simp: builds_op_def)
  with s kept_trans that show ?thesis by metis
qed

text \<open>A collector on \<open>x\<close>, then the phases.\<close>

lemma collected_built:
  assumes i: "next_op H i b" and x: "op_of b x \<noteq> None" "inputs c = 1" "\<not> pushes c"
    and f: "\<And>k b1 p F b2. kept b b1 \<Longrightarrow> k < length (phys_ops b1) \<Longrightarrow> (p, F) \<in> set (required_fields (H ! i)) \<Longrightarrow>
      net_ok b2 \<Longrightarrow> kept b1 b2 \<Longrightarrow> builds_op b2 (f k p F b2)"
  shows "node_built H i b (rbind (fed_op c [x] (snd (new_state b))) (\<lambda>(k, b1). each_phase i (f k) (required_fields (H ! i)) b1))"
proof -
  obtain k b1 where k: "fed_op c [x] (snd (new_state b)) = Inr (k, b1)" "net_ok b1" "kept b b1" "op_of b1 = op_of b"
    "k < length (phys_ops b1)" by (rule collector_build [OF next_op_net [OF i] x])
  have "node_built H i b (each_phase i (f k) (required_fields (H ! i)) b1)"
    by (rule phases_build [OF i k(2-4)]) (rule f [OF k(3,5)])
  with k(1) show ?thesis by simp
qed

text \<open>What is emitted in later phases, or probed.\<close>

lemma emitted_built:
  assumes i: "next_op H i b" and x: "op_of b x \<noteq> None" "inputs c = 1" "\<not> pushes c" and n: "inputs n = 0" "pushes n"
  shows "node_built H i b (rbind (fed_op c [x] (snd (new_state b))) (\<lambda>(k, b1).
    each_phase i (\<lambda>p F b2. if p = mp then Inr (k, b2) else source_op p n b2) (required_fields (H ! i)) b1))"
proof (rule collected_built [OF i x])
  fix k b1 p F b2 assume "k < length (phys_ops b1)" "net_ok b2" "kept b1 b2"
  then show "builds_op b2 (if p = mp then Inr (k, b2) else source_op p n b2)"
    using source_op_builds [of b2 n p] n by (auto simp: builds_op_def kept_def)
qed

lemma probed_built:
  assumes i: "next_op H i b" and x: "op_of b x \<noteq> None" "inputs c = 1" "\<not> pushes c" and n: "inputs n = 1" "\<not> pushes n"
    and s: "\<And>p. p \<in> set (phases (H ! i)) \<Longrightarrow> op_of b (p, s) \<noteq> None"
  shows "node_built H i b (rbind (fed_op c [x] (snd (new_state b))) (\<lambda>(k, b1).
    each_phase i (\<lambda>p F. fed_op n [(p, s)]) (required_fields (H ! i)) b1))"
proof (rule collected_built [OF i x])
  fix k b1 p F b2 assume k: "kept b b1" "(p, F) \<in> set (required_fields (H ! i))" "net_ok b2" "kept b1 b2"
  show "builds_op b2 (fed_op n [(p, s)] b2)"
    using s [OF in_phases [OF k(2)]] n k(3) by (intro fed_op_after [OF _ kept_trans [OF k(1,4)]]) simp_all
qed

lemma new_state_fst: "fst (new_state b) = next_state b"
  by (simp add: new_state_def)

section \<open>The operations, one kind after the other\<close>

definition op_built :: "build_env \<Rightarrow> heap \<Rightarrow> nat \<Rightarrow> builder \<Rightarrow> bool" where
  "op_built E H i b \<longleftrightarrow> (\<exists>m. build_node E H i b = Some m \<and> node_built H i b m)"

lemma one_source_built:
  assumes i: "next_op H i b"
  shows "node (H ! i) = PFilter s e c \<Longrightarrow> op_built E H i b"
    and "node (H ! i) = PGroup s as ks c \<Longrightarrow> op_built E H i b"
    and "node (H ! i) = PLimit s n \<Longrightarrow> op_built E H i b"
    and "node (H ! i) = PProjection s es c \<Longrightarrow> op_built E H i b"
    and "node (H ! i) = PSort s sk desc \<Longrightarrow> op_built E H i b"
    and "node (H ! i) = PTopK s sk desc n \<Longrightarrow> op_built E H i b"
  using requests_there [OF i]
  by (auto simp: op_built_def build_node_def op_requests_def intro!: fed_built [OF i])

lemma more_sources_built:
  assumes i: "next_op H i b"
  shows "node (H ! i) = PMergeSorted l r sk desc \<Longrightarrow> op_built E H i b"
    and "node (H ! i) = PUnionAll ss \<Longrightarrow> op_built E H i b"
  using requests_there [OF i]
  by (auto simp: op_built_def build_node_def op_requests_def intro!: fed_built [OF i])

lemma first_phase:
  assumes "next_op H i b"
  obtains p where "p \<in> set (phases (H ! i))"
  using assms by (cases "phases (H ! i)") (auto simp: next_op_def)

lemma emitting_built:
  assumes i: "next_op H i b"
  shows "node (H ! i) = PAggregate s as c \<Longrightarrow> op_built E H i b"
    and "node (H ! i) = PMaterialize s \<Longrightarrow> op_built E H i b"
proof -
  obtain p where p: "p \<in> set (phases (H ! i))" by (rule first_phase [OF i])
  note r = requests_there [OF i p]
  show "op_built E H i b" if n: "node (H ! i) = PAggregate s as c"
  proof -
    have "op_of b (min_phase (H ! i), s) \<noteq> None" using r n by (auto simp: op_requests_def)
    from emitted_built [OF i this, of "AggregateCollectorOp (next_state b) (map snd as) c" "AggregateEmitterOp (next_state b)"
      "min_phase (H ! i)"] n
    show ?thesis by (simp add: op_built_def build_node_def Let_def split_beta new_state_fst cong: if_cong)
  qed
  show "op_built E H i b" if n: "node (H ! i) = PMaterialize s"
  proof -
    have "op_of b (min_phase (H ! i), s) \<noteq> None" using r n by (auto simp: op_requests_def)
    from emitted_built [OF i this, of "MaterializeCollectorOp (next_state b)" "MaterializeEmitterOp (next_state b)"
      "min_phase (H ! i)"] n
    show ?thesis by (simp add: op_built_def build_node_def Let_def split_beta new_state_fst cong: if_cong)
  qed
qed

lemma join_built:
  assumes i: "next_op H i b"
  shows "node (H ! i) = PHashSemiJoin m s e mf \<Longrightarrow> op_built E H i b"
    and "node (H ! i) = PHashLeftJoin l r lk rk \<Longrightarrow> op_built E H i b"
    and "node (H ! i) = PHashMarkJoin m s e mf out \<Longrightarrow> op_built E H i b"
proof -
  obtain p0 where p0: "p0 \<in> set (phases (H ! i))" by (rule first_phase [OF i])
  note r = requests_there [OF i]
  show "op_built E H i b" if n: "node (H ! i) = PHashSemiJoin m s e mf"
  proof -
    have src: "op_of b (min_phase (H ! m), m) \<noteq> None \<and> op_of b (p, s) \<noteq> None" if "p \<in> set (phases (H ! i))" for p
      using r [OF that] n by (auto simp: op_requests_def)
    from probed_built [OF i, of "(min_phase (H ! m), m)" "HashSemiJoinBuildOp (next_state b)" "HashSemiJoinProbeOp (next_state b) e" s]
      src src [OF p0] n show ?thesis by (simp add: op_built_def build_node_def Let_def split_beta new_state_fst)
  qed
  show "op_built E H i b" if n: "node (H ! i) = PHashLeftJoin l r lk rk"
  proof -
    have src: "op_of b (min_phase (H ! r), r) \<noteq> None \<and> op_of b (p, l) \<noteq> None" if "p \<in> set (phases (H ! i))" for p
      using r [OF that] n by (auto simp: op_requests_def rbind_def split: sum.splits)
    from probed_built [OF i, of "(min_phase (H ! r), r)" "HashLeftJoinBuildOp (next_state b) rk"
        "HashLeftJoinProbeOp (next_state b) lk (columns (schema (H ! l)))" l]
      src src [OF p0] n show ?thesis by (simp add: op_built_def build_node_def Let_def split_beta new_state_fst)
  qed
  show "op_built E H i b" if n: "node (H ! i) = PHashMarkJoin m s e mf out"
  proof -
    have src: "op_of b (min_phase (H ! m), m) \<noteq> None \<and> op_of b (p, s) \<noteq> None" if "p \<in> set (phases (H ! i))" for p
      using r [OF that] n by (auto simp: op_requests_def)
    from i have "op_ok H i" by (simp add: next_op_def plan_ok_def heap_ok_def)
    then have "marks_ok (node (H ! i)) (schema (H ! i))" by (simp add: op_ok_def node_ok_def)
    then obtain k where k: "slot (schema (H ! i)) out = Some k" using n by (auto simp: contains_def slot_def)
    from probed_built [OF i, of "(min_phase (H ! m), m)" "HashMarkJoinBuildOp (next_state b)"
        "HashMarkJoinProbeOp (next_state b) e k" s]
      src src [OF p0] n k show ?thesis by (simp add: op_built_def build_node_def Let_def split_beta new_state_fst)
  qed
qed

lemma values_built: "next_op H i b \<Longrightarrow> node (H ! i) = PValues vs \<Longrightarrow> op_built E H i b"
  using simple_built [of H i b "\<lambda>p F. source_op p (ValuesOp vs)"] source_op_builds [of _ "ValuesOp vs"]
  by (simp add: op_built_def build_node_def)

text \<open>The fields asked of a log have a slot and a name.\<close>

lemma buildLog_built:
  assumes i: "next_op H i b" and E: "env_ok E H"
  shows "node_built H i b (buildLog E i (H ! i) lf b)"
  unfolding buildLog_def
proof (rule simple_built [OF i])
  fix p F b2 assume p: "(p, F) \<in> set (required_fields (H ! i))" and b2: "net_ok b2"
  from i have "op_ok H i" "H ! i \<in> set H" by (auto simp: next_op_def plan_ok_def heap_ok_def)
  with p have F: "\<forall>x \<in> F. contains (schema (H ! i)) x" by (auto simp: op_ok_def contains_set_def)
  from E have "set (id_order E F) = F" by (auto simp: env_ok_def order_ok_def)
  with F E \<open>H ! i \<in> set H\<close> have "\<forall>x \<in> set (id_order E F). contains (schema (H ! i)) x \<and> (\<exists>n. field_name (binding E) x = Inr n)"
    by (simp add: env_ok_def)
  from log_slots_ok [OF this, of "[]" 0] obtain cols n where "log_slots (binding E) (schema (H ! i)) (id_order E F) [] 0 = Inr (cols, n)"
    by auto
  then show "builds_op b2 (rbind (log_slots (binding E) (schema (H ! i)) (id_order E F) [] 0) (\<lambda>(cols, n). source_op p (LogOp lf cols n) b2))"
    using source_op_builds [OF b2, of "LogOp lf cols n" p] by simp
qed

lemma logs_built:
  assumes i: "next_op H i b" and E: "env_ok E H"
  shows "node (H ! i) = PLog path r tf \<Longrightarrow> op_built E H i b"
    and "node (H ! i) = PStream cmd \<Longrightarrow> op_built E H i b"
proof -
  have H: "H ! i \<in> set H" using i by (simp add: next_op_def)
  show "op_built E H i b" if n: "node (H ! i) = PLog path r tf"
  proof -
    from E H n obtain lf where "open_file (world E) path r tf = Some (Inr lf)" unfolding env_ok_def by blast
    with n buildLog_built [OF i E] show ?thesis by (simp add: op_built_def build_node_def)
  qed
  show "op_built E H i b" if n: "node (H ! i) = PStream cmd"
  proof -
    obtain lf where "open_stream (world E) cmd = Some (Inr lf)" by (auto simp: open_stream_def)
    with n buildLog_built [OF i E] show ?thesis by (simp add: op_built_def build_node_def)
  qed
qed

lemma build_node_ok: "next_op H i b \<Longrightarrow> env_ok E H \<Longrightarrow> op_built E H i b"
  using one_source_built [of H i b] more_sources_built [of H i b] emitting_built [of H i b] join_built [of H i b]
    values_built [of H i b] logs_built [of H i b E]
  by (cases "node (H ! i)") auto

section \<open>The whole plan\<close>

text \<open>What building more keeps of what is there.\<close>

definition later :: "builder \<Rightarrow> builder \<Rightarrow> bool" where
  "later b b' \<longleftrightarrow> length (phys_ops b) \<le> length (phys_ops b') \<and> set (built b) \<subseteq> set (built b') \<and>
     phase_outputs b' = phase_outputs b \<and> output_ops b' = output_ops b"

lemma later_refl [simp]: "later b b"
  by (simp add: later_def)

lemma later_trans: "later a b \<Longrightarrow> later b c \<Longrightarrow> later a c"
  by (auto simp: later_def)

lemma sources_requested: "node_requests H n mp req p = Inr qs \<Longrightarrow> c \<in> set (node_sources n) \<Longrightarrow> c \<in> fst ` set qs"
  by (cases n) (auto simp: rbind_def image_image split: sum.splits)

lemma source_phases:
  assumes "plan_ok H" "i < length H" "phases (H ! i) \<noteq> []" "c \<in> set (node_sources (node (H ! i)))"
  shows "c < i" "phases (H ! c) \<noteq> []"
proof -
  from assms(1,2) have "op_ok H i" by (simp add: plan_ok_def heap_ok_def)
  with assms(4) show "c < i" by (simp add: op_ok_def node_ok_def)
  from assms(3) obtain p where "p \<in> set (phases (H ! i))" by (cases "phases (H ! i)") auto
  with assms(1,2) have "requests_met H i p" by (simp add: plan_ok_def)
  then obtain qs where qs: "op_requests H i p = Inr qs" "\<forall>(c, q, G) \<in> set qs. c < i \<and> q \<in> set (phases (H ! c)) \<and> G \<subseteq> phase_fields (H ! c) q"
    by (auto simp: requests_met_def)
  from sources_requested [OF qs(1) [unfolded op_requests_def] assms(4)] obtain q G where "(c, q, G) \<in> set qs" by auto
  with qs(2) show "phases (H ! c) \<noteq> []" by fastforce
qed

definition builds_all :: "build_env \<Rightarrow> heap \<Rightarrow> nat \<Rightarrow> nat list \<Rightarrow> builder \<Rightarrow> bool" where
  "builds_all E H n is b \<longleftrightarrow> (\<exists>b'. build_ops E H is b = Some (Inr b') \<and> builder_ok H b' \<and> later b b' \<and>
     set is \<subseteq> set (built b') \<and> (\<forall>j \<in> set (built b'). j \<in> set (built b) \<or> j < n))"

lemma build_ops_Nil: "builder_ok H b \<Longrightarrow> builds_all E H n [] b"
  unfolding builds_all_def by (subst build_ops.simps) simp

lemma build_ops_step:
  assumes H: "plan_ok H" "env_ok E H" "i < length H" "phases (H ! i) \<noteq> []" and i: "i < n" "i \<notin> set (built b)"
    and src: "builds_all E H i (node_sources (node (H ! i))) b"
    and rest: "\<And>b2. builder_ok H b2 \<Longrightarrow> later b b2 \<Longrightarrow> builds_all E H n js b2"
  shows "builds_all E H n (i # js) b"
proof -
  from src obtain b1 where b1: "build_ops E H (node_sources (node (H ! i))) b = Some (Inr b1)" "builder_ok H b1" "later b b1"
    "set (node_sources (node (H ! i))) \<subseteq> set (built b1)" "\<forall>j \<in> set (built b1). j \<in> set (built b) \<or> j < i"
    unfolding builds_all_def by blast
  have "i \<notin> set (built b1)" using b1(5) i(2) by blast
  with H b1 have "next_op H i b1" by (simp add: next_op_def)
  from build_node_ok [OF this H(2)] obtain b2 where b2: "build_node E H i b1 = Some (Inr b2)"
    "builder_ok H (b2\<lparr>built := i # built b2\<rparr>)" "kept b1 b2" by (auto simp: op_built_def node_built_def)
  let ?b = "b2\<lparr>built := i # built b2\<rparr>"
  have l: "later b1 ?b" using b2(3) by (auto simp: later_def kept_def)
  from rest [OF b2(2) later_trans [OF b1(3) l]] obtain b' where b': "build_ops E H js ?b = Some (Inr b')" "builder_ok H b'"
    "later ?b b'" "set js \<subseteq> set (built b')" "\<forall>j \<in> set (built b'). j \<in> set (built ?b) \<or> j < n" unfolding builds_all_def by blast
  have "later b b'" by (rule later_trans [OF b1(3) later_trans [OF l b'(3)]])
  moreover have "i \<in> set (built b')" using b'(3) by (auto simp: later_def)
  moreover have "build_ops E H (i # js) b = Some (Inr b')"
    by (subst build_ops.simps) (simp add: i(2) b1(1) b2(1) b'(1))
  moreover have "j \<in> set (built b) \<or> j < n" if "j \<in> set (built b')" for j
  proof -
    from b'(5) that have "j \<in> set (built ?b) \<or> j < n" by blast
    moreover have "built b2 = built b1" using b2(3) by (simp add: kept_def)
    ultimately show ?thesis using b1(5) i(1) by auto
  qed
  ultimately show ?thesis using b'(2,4) by (auto simp: builds_all_def)
qed

lemma build_ops_ok:
  assumes H: "plan_ok H" "env_ok E H"
  shows "builder_ok H b \<Longrightarrow> \<forall>i \<in> set is. i < n \<and> i < length H \<and> phases (H ! i) \<noteq> [] \<Longrightarrow> builds_all E H n is b"
proof (induction n arbitrary: "is" b rule: less_induct)
  case (less n)
  from less.prems show ?case
  proof (induction "is" arbitrary: b)
    case Nil
    then show ?case by (simp add: build_ops_Nil)
  next
    case (Cons i js)
    have i: "i < n" "i < length H" "phases (H ! i) \<noteq> []" using Cons.prems(2) by auto
    show ?case
    proof (cases "i \<in> set (built b)")
      case True
      from Cons.IH [OF Cons.prems(1)] Cons.prems(2) have "builds_all E H n js b" by simp
      with True show ?thesis unfolding builds_all_def by (subst build_ops.simps) (auto simp: later_def)
    next
      case False
      have "\<forall>c \<in> set (node_sources (node (H ! i))). c < i \<and> c < length H \<and> phases (H ! c) \<noteq> []"
        using source_phases [OF H(1) i(2,3)] i(2) by fastforce
      from less.IH [OF i(1) Cons.prems(1) this] have "builds_all E H i (node_sources (node (H ! i))) b" .
      with Cons.IH Cons.prems(2) show ?thesis by (intro build_ops_step [OF H i(2,3,1) False]) simp_all
    qed
  qed
qed

text \<open>What the program built has: an output for each operation asked for.\<close>

definition outputs_ok :: "builder \<Rightarrow> bool" where
  "outputs_ok b \<longleftrightarrow> (\<forall>(sch, k) \<in> set (output_ops b). k < length (phys_ops b)) \<and>
     (\<forall>p. set (phase_outputs b p) \<subseteq> set (output_ops b))"

lemma outputs_ok_snoc:
  assumes "outputs_ok b" "later b b1" "k < length (phys_ops b1)"
  shows "outputs_ok (b1\<lparr>phase_outputs := (phase_outputs b1)(p := phase_outputs b1 p @ [(sch, k)]), output_ops := output_ops b1 @ [(sch, k)]\<rparr>)"
proof -
  have l: "length (phys_ops b) \<le> length (phys_ops b1)" "phase_outputs b1 = phase_outputs b" "output_ops b1 = output_ops b"
    using assms(2) by (simp_all add: later_def)
  have "j < length (phys_ops b1)" if "(s, j) \<in> set (output_ops b)" for s j
    using assms(1) that l(1) unfolding outputs_ok_def by fastforce
  with assms(1,3) show ?thesis by (auto simp: outputs_ok_def l)
qed

lemma build_tops_ok:
  assumes H: "plan_ok H" "env_ok E H"
  shows "builder_ok H b \<Longrightarrow> outputs_ok b \<Longrightarrow> \<forall>i \<in> set is. top_ok H i \<Longrightarrow>
    \<exists>b'. build_tops E H is b = Some (Inr b') \<and> builder_ok H b' \<and> outputs_ok b' \<and>
      map fst (output_ops b') = map fst (output_ops b) @ map (\<lambda>i. schema (H ! i)) is"
proof (induction "is" arbitrary: b)
  case (Cons i js)
  from Cons.prems(3) have i: "i < length H" "min_phase (H ! i) \<in> set (phases (H ! i))" by (simp_all add: top_ok_def)
  then have "phases (H ! i) \<noteq> []" by auto
  with i have "builds_all E H (Suc i) [i] b" by (intro build_ops_ok [OF H Cons.prems(1)]) simp
  then obtain b1 where b1: "build_ops E H [i] b = Some (Inr b1)"
    "builder_ok H b1" "later b b1" "i \<in> set (built b1)" unfolding builds_all_def by auto
  with i(2) have "op_of b1 (min_phase (H ! i), i) \<noteq> None" by (simp add: builder_ok_def)
  then obtain k where k: "op_of b1 (min_phase (H ! i), i) = Some k" by auto
  then have lt: "k < length (phys_ops b1)" using b1(2) by (auto simp: builder_ok_def net_ok_def)
  let ?out = "(schema (H ! i), k)" and ?p = "min_phase (H ! i)"
  let ?b = "b1\<lparr>phase_outputs := (phase_outputs b1)(?p := phase_outputs b1 ?p @ [?out]), output_ops := output_ops b1 @ [?out]\<rparr>"
  have "builder_ok H ?b" using b1(2) by (simp add: builder_ok_def net_ok_def)
  moreover have "outputs_ok ?b" by (rule outputs_ok_snoc [OF Cons.prems(2) b1(3) lt])
  moreover have "\<forall>i \<in> set js. top_ok H i" using Cons.prems(3) by simp
  ultimately have "\<exists>b'. build_tops E H js ?b = Some (Inr b') \<and> builder_ok H b' \<and> outputs_ok b' \<and>
      map fst (output_ops b') = map fst (output_ops ?b) @ map (\<lambda>i. schema (H ! i)) js" by (rule Cons.IH)
  moreover have "build_tops E H (i # js) b = build_tops E H js ?b"
    unfolding build_tops.simps b1(1) by (simp add: get_op_def k Let_def)
  moreover have "map fst (output_ops ?b) = map fst (output_ops b) @ [schema (H ! i)]" using b1(3) by (simp add: later_def)
  ultimately show ?case by (simp only: list.map append_assoc append_Cons append_Nil)
qed simp

lemma builder_ok_empty: "builder_ok H empty_builder"
  by (simp add: builder_ok_def net_ok_def empty_builder_def network_def wired_def)

section \<open>Properties\<close>

text \<open>C20: the physical program of a plan of a well typed program, whose logs can be opened, is built with
  no check failing; every input of every operation is fed by exactly one operation, built before it, the
  operations that push on their own are those each phase starts, and there is one output for each query,
  in order and with its schema.\<close>

theorem build_correct:
  assumes "program_plannable \<Gamma> X Map.empty program" "plan X program tr = Some (Inr st)" "env_ok E (heap st)"
  shows "\<exists>b. build_program E st = Some (Inr b) \<and> network (phys_ops b) \<and>
    (\<forall>k < length (phys_ops b). pushes (phys_node (phys_ops b ! k)) \<longleftrightarrow> (\<exists>p. k \<in> set (phase_sources b p))) \<and>
    map fst (output_ops b) = map rel_schema (queries program) \<and>
    (\<forall>(sch, k) \<in> set (output_ops b). k < length (phys_ops b))"
proof -
  obtain st' N where st': "plan X program tr = Some (Inr st')" "planner_ok N st'" "query_schemas st' = map rel_schema (queries program)"
    by (rule plan_planner_ok [OF assms(1)])
  with assms(2) have st: "planner_ok N st" "query_schemas st = map rel_schema (queries program)" by simp_all
  from planner_ok_met(3) [OF st(1)] st(1) have H: "plan_ok (heap st)" unfolding plan_ok_def planner_ok_def by blast
  have out: "outputs_ok empty_builder" by (simp add: outputs_ok_def empty_builder_def)
  from st(1) have "\<forall>i \<in> set (top_operations st). top_ok (heap st) i" by (simp add: planner_ok_def)
  from build_tops_ok [OF H assms(3) builder_ok_empty out this] obtain b where b: "build_program E st = Some (Inr b)"
    "builder_ok (heap st) b" "outputs_ok b" "map fst (output_ops b) = query_schemas st"
    by (auto simp: build_program_def query_schemas_def op_at_def empty_builder_def)
  have "net_ok b" using b(2) by (simp add: builder_ok_def)
  with b st(2) show ?thesis by (auto simp: net_ok_def outputs_ok_def)
qed

lemma requestOutput_step [code, simp]:
  "requestOutput H [] = Some (Inr H)"
  "requestOutput H (q # rest) = (case take_request H q of
       Inl f \<Rightarrow> Some (Inl f)
     | Inr H' \<Rightarrow> (case op_requests H' (fst q) (fst (snd q)) of
         Inl f \<Rightarrow> Some (Inl f)
       | Inr qs' \<Rightarrow> requestOutput H' (qs' @ rest)))"
  by (subst requestOutput.simps, simp)+

lemma build_ops_cases [code, simp]:
  "build_ops E H [] b = Some (Inr b)"
  "build_ops E H (i # js) b = (if i \<in> set (built b) then build_ops E H js b
       else Option.bind (build_ops E H (node_sources (node (H ! i))) b) (\<lambda>r. case r of
           Inl f \<Rightarrow> Some (Inl f)
         | Inr b1 \<Rightarrow> Option.bind (build_node E H i b1) (\<lambda>r. case r of
             Inl f \<Rightarrow> Some (Inl f)
           | Inr b2 \<Rightarrow> build_ops E H js (b2\<lparr>built := i # built b2\<rparr>))))"
  by (subst build_ops.simps, simp)+

lemma plan_stream:
  "plan X [QueryStatement (StreamRelation cmd (schema_of [1]))] None = Some (Inr \<lparr>heap =
     [\<lparr>node = PStream cmd, max_phase = 0, min_phase = 0, schema = schema_of [1], required_fields = [(0, {1})]\<rparr>],
     named_ops = Map.empty, top_operations = [0], default_time_range = None\<rparr>)"
  by (simp add: plan_def planStatement_def empty_planner_def new_op_def op_at_def op_requests_def Let_def)

theorem build_correct_witness:
  "\<forall>X W. \<exists>st b. plan X [QueryStatement (StreamRelation ''cat log'' (schema_of [1]))] None = Some (Inr st) \<and>
    build_program \<lparr>world = W, binding = emptyBinding\<lparr>names := [1 \<mapsto> ''message'']\<rparr>, id_order = sorted_list_of_set\<rparr> st = Some (Inr b) \<and>
    network (phys_ops b) \<and> map fst (output_ops b) = [schema_of [1]]"
proof (intro allI)
  fix X W
  let ?p = "[QueryStatement (StreamRelation ''cat log'' (schema_of [1]))]"
  let ?E = "\<lparr>world = W, binding = emptyBinding\<lparr>names := [1 \<mapsto> ''message'']\<rparr>, id_order = sorted_list_of_set\<rparr>"
  have "has_schema (schema_of [1]) [1]" by (simp add: has_schema_def fields_ok_def)
  then have p: "program_plannable Map.empty X Map.empty ?p" by (auto simp: plannable.simps node_plannable_def)
  note E = plan_stream [of X "''cat log''"]
  have "env_ok ?E (heap \<lparr>heap =
     [\<lparr>node = PStream ''cat log'', max_phase = 0, min_phase = 0, schema = schema_of [1], required_fields = [(0, {1})]\<rparr>],
     named_ops = Map.empty, top_operations = [0], default_time_range = None\<rparr>)"
    by (simp add: env_ok_def order_ok_def field_name_def)
  from build_correct [OF p E this] E show "\<exists>st b. plan X ?p None = Some (Inr st) \<and> build_program ?E st = Some (Inr b) \<and>
    network (phys_ops b) \<and> map fst (output_ops b) = [schema_of [1]]" by auto
qed

text \<open>The number of rows, kept if it is one: the aggregate is asked for only in the phase after its own.\<close>

definition late_aggregate :: Relation where
  "late_aggregate = SemiJoinRelation
     (AggregateRelation (ValuesRelation [VInt 5] 1 (schema_of [1]))
        [\<lparr>agg_node = FnCallAggregate CountAll_fn [], output_field_id = 2, agg_type = Integer\<rparr>] (schema_of [2]))
     (ValuesRelation [VInt 1] 3 (schema_of [3])) (FieldScalar 2 Integer) 3 (schema_of [2])"

lemma slot_single: "slot (schema_of [i]) i = Some 0"
  by (simp add: slot_def schema_of_def)

lemma late_aggregate_plan:
  "plan X [QueryStatement late_aggregate] None = Some (Inr \<lparr>heap =
     [\<lparr>node = PValues [VInt 5], max_phase = 0, min_phase = 0, schema = schema_of [1], required_fields = [(0, {})]\<rparr>,
      \<lparr>node = PAggregate 0 [(2, NullaryFnAggregate Integer (CountAllAggregator 0))] [], max_phase = 1, min_phase = 0,
       schema = schema_of [2], required_fields = [(1, {2})]\<rparr>,
      \<lparr>node = PValues [VInt 1], max_phase = 0, min_phase = 0, schema = schema_of [3], required_fields = [(0, {3})]\<rparr>,
      \<lparr>node = PHashSemiJoin 2 1 (IdentifierScalar 0 2 Integer) 3, max_phase = 1, min_phase = 1, schema = schema_of [2],
       required_fields = [(1, {2})]\<rparr>],
     named_ops = Map.empty, top_operations = [3], default_time_range = None\<rparr>)"
  by (simp add: late_aggregate_def plan_def planStatement_def empty_planner_def new_op_def op_at_def op_requests_def
     take_request_def in_scope_def planAggregate_def unscoped_def emptyScope_def slot_single Let_def
     projectorsFields_def fs_merge_def contains_set_def phase_fields_def)

lemma late_aggregate_feed:
  "feed_each [aggregator (NullaryFnAggregate Integer (CountAllAggregator 0))] (reset []) (ValueRecord (VInt 5)) =
     Inr ([NullaryAggr (CountAllAggregator 1)], [])"
  by (simp add: i64_of_def reset_def)

text \<open>C35: an aggregate that is asked for only after its own phase has no subscriber while the rows are counted.
  The collector then answers the first row that no more are wanted, the end never reaches it, and the
  emitter gives an empty record: the probe of the join reads past its end.\<close>

theorem late_aggregate_lost:
  "\<exists>st b st'. plan X [QueryStatement late_aggregate] None = Some (Inr st) \<and> build_program E st = Some (Inr b) \<and>
     phys_ops b ! 2 = \<lparr>phys_node = AggregateCollectorOp 0 [NullaryFnAggregate Integer (CountAllAggregator 0)] [], subs = []\<rparr> \<and>
     phys_ops b ! 3 = \<lparr>phys_node = AggregateEmitterOp 0, subs = [(5, 0)]\<rparr> \<and>
     phys_node (phys_ops b ! 5) = HashSemiJoinProbeOp 1 (IdentifierScalar 0 2 Integer) \<and>
     drive (aggregate_consume (op_emit consumers) op_active)
       (\<lparr>aggr_context = [], aggregators = [aggregator (NullaryFnAggregate Integer (CountAllAggregator 0))], aggr_values = []\<rparr>, ([], w))
       (stream [ValueRecord (VInt 5)]) = Inr (st', ([], w)) \<and> aggr_values st' = [] \<and>
     eval (IdentifierScalar 0 2 Integer) [] (AggregateState (aggr_values st')) = Inl Undefined"
proof -
  let ?st = "\<lparr>aggr_context = [], aggregators = [aggregator (NullaryFnAggregate Integer (CountAllAggregator 0))], aggr_values = []\<rparr>"
  have "drive (aggregate_consume (op_emit consumers) op_active) (?st, ([], w)) (stream [ValueRecord (VInt 5)]) =
      Inr (?st\<lparr>aggregators := [NullaryAggr (CountAllAggregator 1)], aggr_context := []\<rparr>, ([], w))"
    by (rule aggregate_unsubscribed) (use late_aggregate_feed in \<open>simp_all add: op_active_def\<close>)
  then show ?thesis
    using late_aggregate_plan [of X]
    by (simp add: build_program_def empty_builder_def build_node_def source_op_def fed_op_def insert_op_def output_to_def
       get_op_def new_state_def Let_def)
qed

end
