(* ===== verification/Output_Formats.thy ===== *)
theory Output_Formats
  imports Schemas Values
begin

text \<open>
  src/output: the formats a result is printed in, as consumers of records that push lines to a sink.
  Of \<open>std::format\<close> the table uses the padding to a width, which is the parameter \<open>fmt\<close>. The lemmas: a
  line of the JSON format reads back as the names and values of its record, and all lines of a table
  are as wide as its columns.
\<close>

section \<open>Consumer.h, Sink.h, Formats.h\<close>

type_synonym out_record = "(FieldId \<times> Value) list"

datatype sink_event = Push string | Done

datatype Format = JSON | TSKV | CSVHeader | PrettyTable

section \<open>CSVHeaderFormatter.h\<close>

text \<open>Every text followed by a comma, and the last comma taken back.\<close>

definition csv_row :: "string list \<Rightarrow> string" where
  "csv_row ts = butlast (concat (map (\<lambda>t. t @ '','') ts))"

definition csv_header :: "FieldBinding \<Rightarrow> Schema \<Rightarrow> sink_event list res" where
  "csv_header b sch = (if columns sch = 0 then Inr [Push '''']
     else rbind (fieldIds sch) (\<lambda>is. rbind (rmap (field_name b) is) (\<lambda>names. Inr [Push (csv_row names)])))"

definition csv_print :: "out_record \<Rightarrow> sink_event list" where
  "csv_print r = (if r = [] then [Push ''''] else [Push (csv_row (map (\<lambda>(i, v). val_to_string v) r))])"

section \<open>TSKVFormatter.h\<close>

definition tskv_print :: "FieldBinding \<Rightarrow> out_record \<Rightarrow> sink_event list res" where
  "tskv_print b r = rbind (rmap (\<lambda>(i, v). rbind (field_name b i) (\<lambda>n. Inr (n @ ''='' @ val_to_string v @ [CHR 0x09]))) r)
     (\<lambda>ts. Inr [Push (concat ts)])"

section \<open>JSONFormatter.h\<close>

definition hex_upper :: "nat \<Rightarrow> char" where
  "hex_upper n = ''0123456789ABCDEF'' ! n"

definition short_escape :: "char \<Rightarrow> char option" where
  "short_escape c =
     (if c = CHR 0x22 then Some (CHR 0x22)
      else if c = CHR 0x5C then Some (CHR 0x5C)
      else if c = CHR ''/'' then Some (CHR ''/'')
      else if c = CHR 0x08 then Some (CHR ''b'')
      else if c = CHR 0x0C then Some (CHR ''f'')
      else if c = CHR 0x0A then Some (CHR ''n'')
      else if c = CHR 0x0D then Some (CHR ''r'')
      else if c = CHR 0x09 then Some (CHR ''t'')
      else None)"

definition json_escape_char :: "char \<Rightarrow> string" where
  "json_escape_char c = (case short_escape c of
     Some e \<Rightarrow> [CHR 0x5C, e]
   | None \<Rightarrow> let byte = of_char c :: nat in
       if byte < 0x20 then CHR 0x5C # ''u00'' @ [hex_upper (byte div 16), hex_upper (byte mod 16)] else [c])"

definition appendJSONEscaped :: "string \<Rightarrow> string \<Rightarrow> string" where
  "appendJSONEscaped out inp = out @ concat (map json_escape_char inp)"

fun appendJSONValue :: "string \<Rightarrow> Value \<Rightarrow> string" where
  "appendJSONValue out VNull = out @ ''null''"
| "appendJSONValue out (VBool b) = out @ (if b then ''true'' else ''false'')"
| "appendJSONValue out (VInt i) = out @ show_int (sint i)"
| "appendJSONValue out (VFloat f) = out @ show_f32 f"
| "appendJSONValue out (VString s) = appendJSONEscaped (out @ [CHR 0x22]) s @ [CHR 0x22]"
| "appendJSONValue out (VPinned p) = appendJSONEscaped (out @ [CHR 0x22]) (view p) @ [CHR 0x22]"

definition json_prefix :: "string \<Rightarrow> string" where
  "json_prefix name = appendJSONEscaped [CHR 0x22] name @ [CHR 0x22, CHR '':'']"

definition json_prefixes :: "FieldBinding \<Rightarrow> Schema \<Rightarrow> string list res" where
  "json_prefixes b sch = rbind (fieldIds sch) (\<lambda>is. rbind (rmap (field_name b) is) (\<lambda>names. Inr (map json_prefix names)))"

text \<open>A record longer than the schema reads past the prefixes.\<close>

fun json_members :: "string list \<Rightarrow> nat \<Rightarrow> out_record \<Rightarrow> string \<Rightarrow> string res" where
  "json_members prefixes i [] buf = Inr buf"
| "json_members prefixes i ((f, v) # r) buf =
     (let buf' = (if i \<noteq> 0 then buf @ '','' else buf) in
      if i < length prefixes then json_members prefixes (i + 1) r (appendJSONValue (buf' @ prefixes ! i) v)
      else Inl Undefined)"

definition json_print :: "string list \<Rightarrow> out_record \<Rightarrow> sink_event list res" where
  "json_print prefixes r = rbind (json_members prefixes 0 r ''{'') (\<lambda>buf. Inr [Push (buf @ ''}'')])"

section \<open>PrettyTableFormatter.h\<close>

definition hex_lower :: "nat \<Rightarrow> char" where
  "hex_lower n = ''0123456789abcdef'' ! n"

definition escapeForPrettyTable :: "string \<Rightarrow> string" where
  "escapeForPrettyTable inp = concat (map (\<lambda>c.
     if c = CHR 0x08 then [CHR 0x5C, CHR ''b'']
     else if c = CHR 0x0C then [CHR 0x5C, CHR ''f'']
     else if c = CHR 0x0A then [CHR 0x5C, CHR ''n'']
     else if c = CHR 0x0D then [CHR 0x5C, CHR ''r'']
     else if c = CHR 0x09 then [CHR 0x5C, CHR ''t'']
     else let byte = of_char c :: nat in
       if byte < 0x20 \<or> byte = 0x7F then [CHR 0x5C, CHR ''x'', hex_lower (byte div 16), hex_lower (byte mod 16)] else [c]) inp)"

text \<open>\<open>fmt v w\<close> is \<open>std::format("{:<{}}", v, w)\<close>, None its \<open>format_error\<close>.\<close>

type_synonym fmt = "string \<Rightarrow> nat \<Rightarrow> string option"

definition prettyTableDisplayWidth :: "fmt \<Rightarrow> string \<Rightarrow> nat" where
  "prettyTableDisplayWidth fmt v = (case fmt v (length v) of
     Some padded \<Rightarrow> length v - (length padded - length v)
   | None \<Rightarrow> length v)"

definition prettyTablePad :: "fmt \<Rightarrow> string \<Rightarrow> nat \<Rightarrow> string" where
  "prettyTablePad fmt v w = (case fmt v w of
     Some padded \<Rightarrow> padded
   | None \<Rightarrow> v @ replicate (w - min w (length v)) (CHR '' ''))"

record pretty =
  header_read :: bool
  header :: "string list"
  table_rows :: "string list list"

definition pretty_print :: "FieldBinding \<Rightarrow> pretty \<Rightarrow> out_record \<Rightarrow> pretty res" where
  "pretty_print b p r =
     rbind (if header_read p then Inr p
            else rbind (rmap (\<lambda>(i, v). rbind (field_name b i) (\<lambda>n. Inr (escapeForPrettyTable n))) r)
                   (\<lambda>h. Inr (p\<lparr>header_read := True, header := header p @ h\<rparr>)))
       (\<lambda>p'. Inr (p'\<lparr>table_rows := table_rows p' @ [map (\<lambda>(i, v). escapeForPrettyTable (val_to_string v)) r]\<rparr>))"

definition widen :: "fmt \<Rightarrow> nat list \<Rightarrow> string list \<Rightarrow> nat list" where
  "widen fmt ws row = map (\<lambda>i. if i < length row then max (if i < length ws then ws ! i else 0) (prettyTableDisplayWidth fmt (row ! i))
     else ws ! i) [0..<max (length ws) (length row)]"

definition columnWidths :: "fmt \<Rightarrow> pretty \<Rightarrow> nat list" where
  "columnWidths fmt p = foldl (widen fmt) (map (prettyTableDisplayWidth fmt) (header p)) (table_rows p)"

text \<open>The cells of a line, two blanks between them.\<close>

fun join_cells :: "string list \<Rightarrow> string" where
  "join_cells [] = []"
| "join_cells [c] = c"
| "join_cells (c # cs) = c @ ''  '' @ join_cells cs"

definition pushRow :: "fmt \<Rightarrow> string list \<Rightarrow> nat list \<Rightarrow> sink_event" where
  "pushRow fmt row ws = Push (join_cells (map (\<lambda>i. if i < length row then prettyTablePad fmt (row ! i) (ws ! i)
     else replicate (ws ! i) (CHR '' '')) [0..<length ws]))"

definition pushSeparator :: "nat list \<Rightarrow> sink_event" where
  "pushSeparator ws = Push (join_cells (map (\<lambda>w. replicate w (CHR ''-'')) ws))"

definition pretty_done :: "fmt \<Rightarrow> pretty \<Rightarrow> sink_event list" where
  "pretty_done fmt p = (let ws = columnWidths fmt p in
     (if header p \<noteq> [] then [pushRow fmt (header p) ws, pushSeparator ws] else []) @
     map (\<lambda>row. pushRow fmt row ws) (table_rows p) @ [Done])"

section \<open>factory.h\<close>

datatype out_consumer =
    CSVHeaderFormatter
  | TSKVFormatter FieldBinding
  | JSONFormatter "string list"
  | PrettyTableFormatter FieldBinding pretty

definition makeConsumer :: "Format \<Rightarrow> FieldBinding \<Rightarrow> Schema \<Rightarrow> (out_consumer \<times> sink_event list) res" where
  "makeConsumer f b sch = (case f of
     JSON \<Rightarrow> rbind (json_prefixes b sch) (\<lambda>ps. Inr (JSONFormatter ps, []))
   | TSKV \<Rightarrow> Inr (TSKVFormatter b, [])
   | CSVHeader \<Rightarrow> rbind (csv_header b sch) (\<lambda>es. Inr (CSVHeaderFormatter, es))
   | PrettyTable \<Rightarrow> Inr (PrettyTableFormatter b \<lparr>header_read = False, header = [], table_rows = []\<rparr>, []))"

fun out_consume :: "out_consumer \<Rightarrow> out_record \<Rightarrow> (out_consumer \<times> sink_event list) res" where
  "out_consume CSVHeaderFormatter r = Inr (CSVHeaderFormatter, csv_print r)"
| "out_consume (TSKVFormatter b) r = rbind (tskv_print b r) (\<lambda>es. Inr (TSKVFormatter b, es))"
| "out_consume (JSONFormatter ps) r = rbind (json_print ps r) (\<lambda>es. Inr (JSONFormatter ps, es))"
| "out_consume (PrettyTableFormatter b p) r = rbind (pretty_print b p r) (\<lambda>p'. Inr (PrettyTableFormatter b p', []))"

fun out_done :: "fmt \<Rightarrow> out_consumer \<Rightarrow> sink_event list" where
  "out_done fmt (PrettyTableFormatter b p) = pretty_done fmt p"
| "out_done fmt _ = [Done]"

text \<open>A whole result: the consumer, its records, the end.\<close>

fun out_records :: "out_consumer \<Rightarrow> out_record list \<Rightarrow> (out_consumer \<times> sink_event list) res" where
  "out_records c [] = Inr (c, [])"
| "out_records c (r # rs) = rbind (out_consume c r) (\<lambda>(c', es). rbind (out_records c' rs) (\<lambda>(c'', fs). Inr (c'', es @ fs)))"

definition print_result :: "fmt \<Rightarrow> Format \<Rightarrow> FieldBinding \<Rightarrow> Schema \<Rightarrow> out_record list \<Rightarrow> sink_event list res" where
  "print_result fmt f b sch rs = rbind (makeConsumer f b sch) (\<lambda>(c, es).
     rbind (out_records c rs) (\<lambda>(c', fs). Inr (es @ fs @ out_done fmt c')))"

section \<open>Reading JSON back\<close>

text \<open>A reference reader of the lines: a string with its escapes, or the text of another value.\<close>

definition hex_val :: "char \<Rightarrow> nat" where
  "hex_val c = (let n = of_char c :: nat in if n < 58 then n - 48 else n - 55)"

fun plain_escape :: "char \<Rightarrow> char" where
  "plain_escape c = (if c = CHR ''b'' then CHR 0x08 else if c = CHR ''f'' then CHR 0x0C else if c = CHR ''n'' then CHR 0x0A
     else if c = CHR ''r'' then CHR 0x0D else if c = CHR ''t'' then CHR 0x09 else c)"

fun json_unquote :: "string \<Rightarrow> (string \<times> string) option" where
  "json_unquote [] = None"
| "json_unquote (c # s) =
     (if c = CHR 0x22 then Some ([], s)
      else if c \<noteq> CHR 0x5C then map_option (\<lambda>(t, r). (c # t, r)) (json_unquote s)
      else (case s of
          [] \<Rightarrow> None
        | e # s1 \<Rightarrow>
            if e \<noteq> CHR ''u'' then map_option (\<lambda>(t, r). (plain_escape e # t, r)) (json_unquote s1)
            else (case s1 of
                _ # _ # h # l # s2 \<Rightarrow> map_option (\<lambda>(t, r). (char_of (16 * hex_val h + hex_val l) # t, r)) (json_unquote s2)
              | _ \<Rightarrow> None)))"

datatype json_text = Quoted string | Bare string

definition bare_end :: "char \<Rightarrow> bool" where
  "bare_end c \<longleftrightarrow> c = CHR '','' \<or> c = CHR ''}''"

fun eat :: "char \<Rightarrow> string \<Rightarrow> string option" where
  "eat c [] = None"
| "eat c (x # s) = (if x = c then Some s else None)"

definition json_read_value :: "string \<Rightarrow> (json_text \<times> string) option" where
  "json_read_value s = (case eat (CHR 0x22) s of
     Some t \<Rightarrow> map_option (\<lambda>(v, r). (Quoted v, r)) (json_unquote t)
   | None \<Rightarrow> Some (Bare (takeWhile (Not \<circ> bare_end) s), dropWhile (Not \<circ> bare_end) s))"

definition json_read_member :: "string \<Rightarrow> ((string \<times> json_text) \<times> string) option" where
  "json_read_member s = Option.bind (eat (CHR 0x22) s) (\<lambda>t. Option.bind (json_unquote t) (\<lambda>(name, r).
     Option.bind (eat (CHR '':'') r) (\<lambda>u. map_option (\<lambda>(v, w). ((name, v), w)) (json_read_value u))))"

fun json_read_members :: "nat \<Rightarrow> string \<Rightarrow> (string \<times> json_text) list option" where
  "json_read_members 0 s = None"
| "json_read_members (Suc n) s = Option.bind (json_read_member s) (\<lambda>(m, r). case eat (CHR '','') r of
     Some u \<Rightarrow> map_option (Cons m) (json_read_members n u)
   | None \<Rightarrow> if r = ''}'' then Some [m] else None)"

definition json_read_line :: "string \<Rightarrow> (string \<times> json_text) list option" where
  "json_read_line s = (if s = ''{}'' then Some []
     else Option.bind (eat (CHR ''{'') s) (\<lambda>t. json_read_members (length t) t))"

text \<open>What a value is in JSON.\<close>

definition json_of :: "Value \<Rightarrow> json_text" where
  "json_of v = (if type v = String then Quoted (val_to_string v) else Bare (val_to_string v))"

lemma hex_digits: "\<forall>n \<in> set [0..<16]. hex_val (hex_upper n) = n"
  by code_simp

lemma hex_digit_back: "n < 16 \<Longrightarrow> hex_val (hex_upper n) = n"
  using bspec [OF hex_digits, of n] by (simp only: set_upt atLeastLessThan_iff le0 simp_thms)

lemma control_char_back:
  assumes "of_char c < (32 :: nat)"
  shows "char_of (16 * hex_val (hex_upper (of_char c div 16)) + hex_val (hex_upper (of_char c mod 16))) = c"
proof -
  have "of_char c div 16 < (16 :: nat)" using assms by simp
  then have "16 * hex_val (hex_upper (of_char c div 16)) + hex_val (hex_upper (of_char c mod 16)) = of_char c"
    by (simp add: hex_digit_back)
  then show ?thesis by simp
qed

lemma short_escape_back: "short_escape c = Some e \<Longrightarrow> plain_escape e = c \<and> e \<noteq> CHR ''u''"
  by (simp add: short_escape_def split: if_splits) (clarsimp)+

lemma short_escape_none: "short_escape c = None \<Longrightarrow> c \<noteq> CHR 0x22 \<and> c \<noteq> CHR 0x5C"
  by (simp add: short_escape_def split: if_splits)

lemma json_unquote_escape: "json_unquote (json_escape_char c @ s) = map_option (\<lambda>(t, r). (c # t, r)) (json_unquote s)"
proof (cases "short_escape c")
  case None
  with short_escape_none [OF None] show ?thesis by (simp add: json_escape_char_def Let_def control_char_back)
next
  case (Some e)
  with short_escape_back [OF Some] show ?thesis by (simp add: json_escape_char_def del: plain_escape.simps)
qed

lemma json_unquote_escaped: "json_unquote (concat (map json_escape_char t) @ CHR 0x22 # r) = Some (t, r)"
  by (induction t) (simp_all add: json_unquote_escape)

text \<open>The values that are not quoted have no character that ends them.\<close>

definition bare_text :: "string \<Rightarrow> bool" where
  "bare_text s \<longleftrightarrow> s \<noteq> [] \<and> (\<forall>c \<in> set s. \<not> bare_end c \<and> c \<noteq> CHR 0x22)"

lemma bare_digits: "list_all is_digit s \<Longrightarrow> \<forall>c \<in> set s. \<not> bare_end c \<and> c \<noteq> CHR 0x22"
  by (auto simp: list_all_iff bare_end_def is_digit_def)

lemma bare_show_nat: "bare_text (show_nat n)"
  using bare_digits [OF show_nat_digits] by (simp add: bare_text_def)

lemma bare_append: "bare_text s \<Longrightarrow> bare_text t \<Longrightarrow> bare_text (s @ t)"
  by (auto simp: bare_text_def)

lemma bare_show_int: "bare_text (show_int i)"
  using bare_show_nat by (auto simp: show_int_def bare_text_def bare_end_def)

lemma bare_pad: "bare_text s \<Longrightarrow> bare_text (pad_left n s)"
  by (cases "n - length s") (simp_all add: pad_left_def bare_text_def ball_Un bare_end_def)

lemma bare_sign: "bare_text s \<Longrightarrow> bare_text (sign_str b @ s)"
  by (cases b) (simp_all add: sign_str_def bare_text_def bare_end_def)

lemma bare_show_f32: "bare_text (show_f32 f)"
proof (cases f)
  case (F_Fin q)
  have "bare_text (show_f_mag \<bar>q\<bar>)"
    unfolding show_f_mag_def Let_def
    by (intro bare_append bare_show_nat bare_pad) (simp add: bare_text_def bare_end_def)
  with F_Fin show ?thesis by (simp add: bare_sign)
next
  case (F_NaN b)
  show ?thesis unfolding F_NaN show_f32.simps by (rule bare_sign) (simp add: bare_text_def bare_end_def)
next
  case (F_Inf b)
  show ?thesis unfolding F_Inf show_f32.simps by (rule bare_sign) (simp add: bare_text_def bare_end_def)
next
  case (F_Zero b)
  show ?thesis unfolding F_Zero show_f32.simps by (rule bare_sign) (simp add: bare_text_def bare_end_def)
qed

lemma bare_value: "type v \<noteq> String \<Longrightarrow> bare_text (val_to_string v)"
  by (cases v) (use bare_show_int bare_show_f32 in \<open>auto simp: bare_text_def bare_end_def\<close>)

definition value_text :: "Value \<Rightarrow> string" where
  "value_text v = appendJSONValue [] v"

lemma appendJSONValue_append: "appendJSONValue out v = out @ value_text v"
  by (cases v) (simp_all add: value_text_def appendJSONEscaped_def)

lemma value_text_cases:
  "value_text v = (if type v = String then CHR 0x22 # concat (map json_escape_char (val_to_string v)) @ [CHR 0x22] else val_to_string v)"
  by (cases v) (simp_all add: value_text_def appendJSONEscaped_def)

lemma json_read_value_back:
  assumes "bare_end c"
  shows "json_read_value (value_text v @ c # r) = Some (json_of v, c # r)"
proof (cases "type v = String")
  case True
  then show ?thesis by (simp add: value_text_cases json_read_value_def json_unquote_escaped json_of_def)
next
  case False
  from bare_value [OF this] have b: "val_to_string v \<noteq> []" "\<forall>x \<in> set (val_to_string v). \<not> bare_end x \<and> x \<noteq> CHR 0x22"
    by (simp_all add: bare_text_def)
  then obtain x xs where x: "val_to_string v = x # xs" "x \<noteq> CHR 0x22" by (cases "val_to_string v") auto
  have "takeWhile (Not \<circ> bare_end) (val_to_string v @ c # r) = val_to_string v"
    "dropWhile (Not \<circ> bare_end) (val_to_string v @ c # r) = c # r" using b(2) assms by simp_all
  with x False show ?thesis by (simp add: value_text_cases json_read_value_def json_of_def)
qed

lemma json_prefix_text: "json_prefix n = CHR 0x22 # concat (map json_escape_char n) @ [CHR 0x22, CHR '':'']"
  by (simp add: json_prefix_def appendJSONEscaped_def)

lemma json_read_member_back:
  "bare_end c \<Longrightarrow> json_read_member (json_prefix n @ value_text v @ c # r) = Some ((n, json_of v), c # r)"
  using json_unquote_escaped [of n "CHR '':'' # value_text v @ c # r"]
  by (simp add: json_read_member_def json_prefix_text json_read_value_back)

text \<open>The members of a line, the first without a comma before it.\<close>

definition member_text :: "string \<times> Value \<Rightarrow> string" where
  "member_text m = json_prefix (fst m) @ value_text (snd m)"

fun members_text :: "bool \<Rightarrow> (string \<times> Value) list \<Rightarrow> string" where
  "members_text first [] = []"
| "members_text first (m # ms) = (if first then [] else '','') @ member_text m @ members_text False ms"

lemma json_members_text:
  "drop i prefixes = map json_prefix ns \<Longrightarrow> length ns = length r \<Longrightarrow>
   json_members prefixes i r buf = Inr (buf @ members_text (i = 0) (zip ns (map snd r)))"
proof (induction r arbitrary: i ns buf)
  case (Cons x r)
  obtain f v where x: "x = (f, v)" by (cases x)
  from Cons.prems(2) obtain n ns' where ns: "ns = n # ns'" by (cases ns) auto
  with Cons.prems(1) have i: "i < length prefixes" by (metis drop_all list.simps(3,8,9) not_le_imp_less)
  with Cons.prems(1) ns have "prefixes ! i = json_prefix n" "drop (Suc i) prefixes = map json_prefix ns'"
    by (simp_all add: Cons_nth_drop_Suc [symmetric])
  with i Cons.IH [of "Suc i" ns'] Cons.prems(2) ns x show ?case
    by (simp add: Let_def appendJSONValue_append member_text_def)
qed simp

lemma eat_other: "s \<noteq> [] \<Longrightarrow> hd s \<noteq> c \<Longrightarrow> eat c s = None"
  by (cases s) auto

lemma json_read_members_back:
  "ms \<noteq> [] \<Longrightarrow> length ms \<le> n \<Longrightarrow>
   json_read_members n (members_text True ms @ ''}'') = Some (map (\<lambda>(m, v). (m, json_of v)) ms)"
proof (induction ms arbitrary: n)
  case (Cons m ms)
  obtain name v where m: "m = (name, v)" by (cases m)
  from Cons.prems obtain n' where n: "n = Suc n'" by (cases n) auto
  show ?case
  proof (cases ms)
    case Nil
    then show ?thesis using json_read_member_back [of "CHR ''}''" name v "[]"]
      by (simp add: n m member_text_def bare_end_def)
  next
    case (Cons m2 ms2)
    have "members_text False ms = '','' @ members_text True ms" by (simp add: Cons)
    then show ?thesis
      using json_read_member_back [of "CHR '',''" name v "members_text True ms @ ''}''"] Cons.IH [of n'] Cons.prems(2)
      by (simp add: n m member_text_def bare_end_def Cons)
  qed
qed simp

lemma members_text_length: "length ms \<le> length (members_text b ms)"
proof (induction ms arbitrary: b)
  case (Cons m ms)
  from Cons.IH [of False] show ?case by (simp add: member_text_def json_prefix_text)
qed simp

lemma json_line_back:
  assumes "length ns = length r"
  shows "\<exists>line. json_print (map json_prefix ns) r = Inr [Push line] \<and>
    json_read_line line = Some (zip ns (map (\<lambda>(i, v). json_of v) r))"
proof -
  let ?ms = "zip ns (map snd r)"
  have p: "json_print (map json_prefix ns) r = Inr [Push (''{'' @ members_text True ?ms @ ''}'')]"
    using json_members_text [of 0 "map json_prefix ns" ns r "''{''"] assms by (simp add: json_print_def)
  have z: "map (\<lambda>(m, v). (m, json_of v)) ?ms = zip ns (map (\<lambda>(i, v). json_of v) r)"
    by (simp add: zip_map2 split_beta)
  show ?thesis
  proof (cases "?ms")
    case Nil
    with assms have "ns = []" "r = []" by (auto simp: zip_eq_Nil_iff)
    with p show ?thesis by (simp add: json_read_line_def)
  next
    case (Cons m ms)
    have "members_text True ?ms \<noteq> []" by (simp add: Cons member_text_def json_prefix_text)
    then have "json_read_line (''{'' @ members_text True ?ms @ ''}'') = json_read_members (length (members_text True ?ms @ ''}'')) (members_text True ?ms @ ''}'')"
      by (simp add: json_read_line_def)
    also have "\<dots> = Some (map (\<lambda>(m, v). (m, json_of v)) ?ms)"
      using members_text_length [of ?ms True] by (intro json_read_members_back) (simp_all add: Cons)
    finally show ?thesis using p z by simp
  qed
qed

lemma out_records_json:
  "\<forall>r \<in> set rs. length r = length ns \<Longrightarrow>
   \<exists>lines. out_records (JSONFormatter (map json_prefix ns)) rs = Inr (JSONFormatter (map json_prefix ns), map Push lines) \<and>
     list_all2 (\<lambda>line r. json_read_line line = Some (zip ns (map (\<lambda>(i, v). json_of v) r))) lines rs"
proof (induction rs)
  case (Cons r rs)
  from Cons obtain lines where l: "out_records (JSONFormatter (map json_prefix ns)) rs = Inr (JSONFormatter (map json_prefix ns), map Push lines)"
    "list_all2 (\<lambda>line r. json_read_line line = Some (zip ns (map (\<lambda>(i, v). json_of v) r))) lines rs" by auto
  from json_line_back [of ns r] Cons.prems obtain line where "json_print (map json_prefix ns) r = Inr [Push line]"
    "json_read_line line = Some (zip ns (map (\<lambda>(i, v). json_of v) r))" by auto
  with l show ?case by (intro exI [of _ "line # lines"]) simp
qed simp

section \<open>The width of a table\<close>

text \<open>What \<open>std::format\<close> does with texts of one column for each character.\<close>

definition pads :: "fmt \<Rightarrow> bool" where
  "pads fmt \<longleftrightarrow> (\<forall>v w. fmt v w = Some (v @ replicate (w - length v) (CHR '' '')))"

lemma pads_width: "pads fmt \<Longrightarrow> prettyTableDisplayWidth fmt v = length v"
  by (simp add: pads_def prettyTableDisplayWidth_def)

lemma pads_pad: "pads fmt \<Longrightarrow> length (prettyTablePad fmt v w) = max w (length v)"
  by (simp add: pads_def prettyTablePad_def)

definition table_width :: "nat list \<Rightarrow> nat" where
  "table_width ws = sum_list ws + 2 * (length ws - 1)"

lemma length_join_cells: "length (join_cells cs) = table_width (map length cs)"
  by (induction cs rule: join_cells.induct) (simp_all add: table_width_def)

text \<open>The columns hold the cells of a row.\<close>

definition holds_row :: "nat list \<Rightarrow> string list \<Rightarrow> bool" where
  "holds_row ws row \<longleftrightarrow> length row \<le> length ws \<and> (\<forall>i < length row. length (row ! i) \<le> ws ! i)"

definition wider :: "nat list \<Rightarrow> nat list \<Rightarrow> bool" where
  "wider ws vs \<longleftrightarrow> length vs \<le> length ws \<and> (\<forall>i < length vs. vs ! i \<le> ws ! i)"

lemma wider_refl [simp]: "wider ws ws"
  by (simp add: wider_def)

lemma wider_trans: "wider a b \<Longrightarrow> wider b c \<Longrightarrow> wider a c"
  unfolding wider_def by (meson le_trans less_le_trans)

lemma holds_wider: "wider ws vs \<Longrightarrow> holds_row vs row \<Longrightarrow> holds_row ws row"
  unfolding wider_def holds_row_def by (meson le_trans less_le_trans)

lemma widen_wider: "wider (widen fmt ws row) ws"
  by (auto simp: wider_def widen_def)

lemma widen_holds: "pads fmt \<Longrightarrow> holds_row (widen fmt ws row) row"
  by (auto simp: holds_row_def widen_def pads_width)

lemma foldl_widen:
  "pads fmt \<Longrightarrow> wider (foldl (widen fmt) ws rows) ws \<and> (\<forall>row \<in> set rows. holds_row (foldl (widen fmt) ws rows) row)"
proof (induction rows arbitrary: ws)
  case (Cons row rows)
  from Cons have IH: "wider (foldl (widen fmt) (widen fmt ws row) rows) (widen fmt ws row)"
    "\<forall>r \<in> set rows. holds_row (foldl (widen fmt) (widen fmt ws row) rows) r" by simp_all
  with wider_trans [OF IH(1) widen_wider] holds_wider [OF IH(1) widen_holds [OF Cons.prems]] show ?case by simp
qed simp

lemma columnWidths_hold:
  assumes "pads fmt"
  shows "holds_row (columnWidths fmt p) (header p)" "row \<in> set (table_rows p) \<Longrightarrow> holds_row (columnWidths fmt p) row"
proof -
  note w = foldl_widen [OF assms, of "map (prettyTableDisplayWidth fmt) (header p)" "table_rows p"]
  have "holds_row (map (prettyTableDisplayWidth fmt) (header p)) (header p)"
    using assms by (simp add: holds_row_def pads_width)
  with w show "holds_row (columnWidths fmt p) (header p)" unfolding columnWidths_def by (blast intro: holds_wider)
  show "row \<in> set (table_rows p) \<Longrightarrow> holds_row (columnWidths fmt p) row" using w unfolding columnWidths_def by blast
qed

lemma pushRow_width:
  assumes "pads fmt" "holds_row ws row" "pushRow fmt row ws = Push line"
  shows "length line = table_width ws"
proof -
  let ?cells = "map (\<lambda>i. if i < length row then prettyTablePad fmt (row ! i) (ws ! i) else replicate (ws ! i) (CHR '' '')) [0..<length ws]"
  have "map length ?cells = map ((!) ws) [0..<length ws]"
    using assms(2) by (auto simp: pads_pad [OF assms(1)] holds_row_def)
  then have "map length ?cells = ws" by (simp add: map_nth)
  with assms(3) length_join_cells [of ?cells] show ?thesis by (auto simp: pushRow_def)
qed

lemma pretty_done_width:
  assumes "pads fmt" "Push line \<in> set (pretty_done fmt p)"
  shows "length line = table_width (columnWidths fmt p)"
proof -
  let ?ws = "columnWidths fmt p"
  from assms(2) consider "pushRow fmt (header p) ?ws = Push line" | "pushSeparator ?ws = Push line"
    | row where "row \<in> set (table_rows p)" "pushRow fmt row ?ws = Push line"
    by (auto simp: pretty_done_def Let_def split: if_splits)
  then show ?thesis
  proof cases
    case 1
    then show ?thesis by (rule pushRow_width [OF assms(1) columnWidths_hold(1) [OF assms(1)]])
  next
    case 2
    then have "line = join_cells (map (\<lambda>w. replicate w (CHR ''-'')) ?ws)" by (simp add: pushSeparator_def)
    then show ?thesis by (simp add: length_join_cells comp_def)
  next
    case 3
    then show ?thesis by (intro pushRow_width [OF assms(1) columnWidths_hold(2) [OF assms(1)]])
  qed
qed

lemma out_records_pretty:
  "out_records (PrettyTableFormatter b p) rs = Inr (c, es) \<Longrightarrow> (\<exists>p'. c = PrettyTableFormatter b p') \<and> es = []"
proof (induction rs arbitrary: p c es)
  case (Cons r rs)
  from Cons.prems obtain p1 c1 fs where "out_records (PrettyTableFormatter b p1) rs = Inr (c1, fs)" "c = c1" "es = fs"
    by (auto simp: rbind_Inr_iff)
  with Cons.IH show ?case by blast
qed simp

section \<open>Properties\<close>





end
