(* ===== verification/Sql_Ast.thy ===== *)
theory Sql_Ast
  imports Functions
begin

text \<open>
  src/front/sql/ast and src/front/common/ast: the syntax trees the parser gives, and
  src/front/sql/bind/expand_macros.cpp: macro definitions, checked and expanded. Positions in the text
  and the words of the messages are left out. The lemmas: what is expanded calls built-in functions only.
\<close>

section \<open>ast/Expressions.h, ast/Relations.h, ast/Literal.h\<close>

datatype ast_binary =
  AstEqual | AstNotEqual | AstLess | AstGreater | AstLessEqual | AstGreaterEqual | AstAnd | AstOr | AstDivide | AstPlus | AstMinus

datatype ast_unary = AstNot

datatype Literal = Literal ValueType string

datatype ast_expr =
    AstIdentifier string
  | AstLiteral Literal
  | AstIn ast_expr ast_relation
  | AstLike ast_expr string
  | AstFnCall string "ast_expr list"
  | AstBinary ast_binary ast_expr ast_expr
  | AstUnary ast_unary ast_expr
and ast_projector =
    AstStar
  | AstIdentifierProjector string
  | AstExprProjector string ast_expr
and ast_relation =
    AstAdhoc "Literal list"
  | AstSelect "ast_projector list" ast_relation "int option" "ast_expr option" "ast_expr option"
      "(ast_expr list \<times> bool) option" "ast_projector list option"
  | AstAlias string ast_relation
  | AstLeftJoin ast_relation ast_relation ast_expr
  | AstUnionAll ast_relation ast_relation
  | AstUnionAllSortedBy ast_relation ast_relation "ast_expr list" bool
  | AstFile string "(string \<times> int option) option" "string option"
  | AstStream string
  | AstNamedReference string
  | AstMaterialize ast_relation

text \<open>The parts of a SELECT are the projectors, the source, LIMIT, WHERE, HAVING, ORDER BY and GROUP BY.\<close>

datatype ast_statement =
    AstNamedRelation string ast_relation
  | AstMacroDefinition string "string list" ast_expr
  | AstQuery ast_relation

type_synonym ast_program = "ast_statement list"

section \<open>bind/Expressions.cpp: the built-in functions\<close>

definition builtin_names :: "string list" where
  "builtin_names = [''lower'', ''splitpart'', ''substr'', ''coalesce'', ''percentile'', ''rsubstr'', ''json_value'',
     ''count_all'', ''count_nonnull'', ''min'', ''max'', ''sum'', ''parse_timestamp'',
     ''null'', ''int'', ''float'', ''bool'', ''string'']"

definition isBuiltinFunction :: "string \<Rightarrow> bool" where
  "isBuiltinFunction name \<longleftrightarrow> name \<in> set builtin_names"

section \<open>expand_macros.cpp\<close>

text \<open>\<open>ParameterSubstituter\<close>.\<close>

fun subst_expr :: "(string \<rightharpoonup> ast_expr) \<Rightarrow> ast_expr \<Rightarrow> ast_expr"
and subst_projector :: "(string \<rightharpoonup> ast_expr) \<Rightarrow> ast_projector \<Rightarrow> ast_projector"
and subst_relation :: "(string \<rightharpoonup> ast_expr) \<Rightarrow> ast_relation \<Rightarrow> ast_relation" where
  "subst_expr S (AstIdentifier n) = (case S n of Some e \<Rightarrow> e | None \<Rightarrow> AstIdentifier n)"
| "subst_expr S (AstLiteral l) = AstLiteral l"
| "subst_expr S (AstIn e r) = AstIn (subst_expr S e) (subst_relation S r)"
| "subst_expr S (AstLike e re) = AstLike (subst_expr S e) re"
| "subst_expr S (AstFnCall f es) = AstFnCall f (map (subst_expr S) es)"
| "subst_expr S (AstBinary b l r) = AstBinary b (subst_expr S l) (subst_expr S r)"
| "subst_expr S (AstUnary u e) = AstUnary u (subst_expr S e)"
| "subst_projector S AstStar = AstStar"
| "subst_projector S (AstIdentifierProjector n) = (case S n of Some e \<Rightarrow> AstExprProjector n e | None \<Rightarrow> AstIdentifierProjector n)"
| "subst_projector S (AstExprProjector n e) = AstExprProjector n (subst_expr S e)"
| "subst_relation S (AstAdhoc ls) = AstAdhoc ls"
| "subst_relation S (AstSelect ps r lm w h ob gb) = AstSelect (map (subst_projector S) ps) (subst_relation S r) lm
     (case w of None \<Rightarrow> None | Some e \<Rightarrow> Some (subst_expr S e)) (case h of None \<Rightarrow> None | Some e \<Rightarrow> Some (subst_expr S e))
     (case ob of None \<Rightarrow> None | Some (es, desc) \<Rightarrow> Some (map (subst_expr S) es, desc))
     (case gb of None \<Rightarrow> None | Some ks \<Rightarrow> Some (map (subst_projector S) ks))"
| "subst_relation S (AstAlias a r) = AstAlias a (subst_relation S r)"
| "subst_relation S (AstLeftJoin l r e) = AstLeftJoin (subst_relation S l) (subst_relation S r) (subst_expr S e)"
| "subst_relation S (AstUnionAll l r) = AstUnionAll (subst_relation S l) (subst_relation S r)"
| "subst_relation S (AstUnionAllSortedBy l r es desc) =
     AstUnionAllSortedBy (subst_relation S l) (subst_relation S r) (map (subst_expr S) es) desc"
| "subst_relation S (AstFile p r f) = AstFile p r f"
| "subst_relation S (AstStream c) = AstStream c"
| "subst_relation S (AstNamedReference n) = AstNamedReference n"
| "subst_relation S (AstMaterialize r) = AstMaterialize (subst_relation S r)"

text \<open>\<open>MacroBodyValidator\<close>: outside the relations of a body every identifier is a parameter.\<close>

fun valid_body :: "string set \<Rightarrow> ast_expr \<Rightarrow> bool" where
  "valid_body ps (AstIdentifier n) = (n \<in> ps)"
| "valid_body ps (AstLiteral l) = True"
| "valid_body ps (AstIn e r) = valid_body ps e"
| "valid_body ps (AstLike e re) = valid_body ps e"
| "valid_body ps (AstFnCall f es) = list_all (valid_body ps) es"
| "valid_body ps (AstBinary b l r) = (valid_body ps l \<and> valid_body ps r)"
| "valid_body ps (AstUnary u e) = valid_body ps e"

text \<open>\<open>MacroExpander\<close>: the arguments of a call first, then the call.\<close>

type_synonym macros = "string \<rightharpoonup> string list \<times> ast_expr"

definition expand_call :: "macros \<Rightarrow> string \<Rightarrow> ast_expr list \<Rightarrow> ast_expr res" where
  "expand_call M f es = (case M f of
     None \<Rightarrow> require (isBuiltinFunction f) (Inr (AstFnCall f es))
   | Some (ps, body) \<Rightarrow> require (length es = length ps) (Inr (subst_expr (map_of (zip ps es)) body)))"

fun ropt :: "('a \<Rightarrow> 'b res) \<Rightarrow> 'a option \<Rightarrow> 'b option res" where
  "ropt f None = Inr None"
| "ropt f (Some x) = rbind (f x) (\<lambda>y. Inr (Some y))"

lemma ropt_cong [fundef_cong]: "x = y \<Longrightarrow> (\<And>z. y = Some z \<Longrightarrow> f z = g z) \<Longrightarrow> ropt f x = ropt g y"
  by (cases y) auto

fun rpair :: "('a \<Rightarrow> 'b res) \<Rightarrow> 'a \<times> 'c \<Rightarrow> ('b \<times> 'c) res" where
  "rpair f (x, c) = rbind (f x) (\<lambda>y. Inr (y, c))"

lemma rpair_cong [fundef_cong]: "p = q \<Longrightarrow> (\<And>x c. q = (x, c) \<Longrightarrow> f x = g x) \<Longrightarrow> rpair f p = rpair g q"
  by (cases q) auto

definition select_of :: "int option \<Rightarrow> ast_projector list res \<Rightarrow> ast_relation res \<Rightarrow> ast_expr option res \<Rightarrow> ast_expr option res
    \<Rightarrow> (ast_expr list \<times> bool) option res \<Rightarrow> ast_projector list option res \<Rightarrow> ast_relation res" where
  "select_of lm ps r w h ob gb = rbind ps (\<lambda>ps'. rbind r (\<lambda>r'. rbind w (\<lambda>w'. rbind h (\<lambda>h'. rbind ob (\<lambda>ob'. rbind gb (\<lambda>gb'.
     Inr (AstSelect ps' r' lm w' h' ob' gb')))))))"

fun expand_expr :: "macros \<Rightarrow> ast_expr \<Rightarrow> ast_expr res"
and expand_projector :: "macros \<Rightarrow> ast_projector \<Rightarrow> ast_projector res"
and expand_relation :: "macros \<Rightarrow> ast_relation \<Rightarrow> ast_relation res" where
  "expand_expr M (AstIdentifier n) = Inr (AstIdentifier n)"
| "expand_expr M (AstLiteral l) = Inr (AstLiteral l)"
| "expand_expr M (AstIn e r) = rbind (expand_expr M e) (\<lambda>e'. rbind (expand_relation M r) (\<lambda>r'. Inr (AstIn e' r')))"
| "expand_expr M (AstLike e re) = rbind (expand_expr M e) (\<lambda>e'. Inr (AstLike e' re))"
| "expand_expr M (AstFnCall f es) = rbind (rmap (expand_expr M) es) (\<lambda>es'. expand_call M f es')"
| "expand_expr M (AstBinary b l r) = rbind (expand_expr M l) (\<lambda>l'. rbind (expand_expr M r) (\<lambda>r'. Inr (AstBinary b l' r')))"
| "expand_expr M (AstUnary u e) = rbind (expand_expr M e) (\<lambda>e'. Inr (AstUnary u e'))"
| "expand_projector M AstStar = Inr AstStar"
| "expand_projector M (AstIdentifierProjector n) = Inr (AstIdentifierProjector n)"
| "expand_projector M (AstExprProjector n e) = rbind (expand_expr M e) (\<lambda>e'. Inr (AstExprProjector n e'))"
| "expand_relation M (AstAdhoc ls) = Inr (AstAdhoc ls)"
| "expand_relation M (AstSelect ps r lm w h ob gb) =
     select_of lm (rmap (expand_projector M) ps) (expand_relation M r) (ropt (expand_expr M) w) (ropt (expand_expr M) h)
       (ropt (rpair (rmap (expand_expr M))) ob) (ropt (rmap (expand_projector M)) gb)"
| "expand_relation M (AstAlias a r) = rbind (expand_relation M r) (\<lambda>r'. Inr (AstAlias a r'))"
| "expand_relation M (AstLeftJoin l r e) = rbind (expand_relation M l) (\<lambda>l'. rbind (expand_relation M r) (\<lambda>r'.
     rbind (expand_expr M e) (\<lambda>e'. Inr (AstLeftJoin l' r' e'))))"
| "expand_relation M (AstUnionAll l r) = rbind (expand_relation M l) (\<lambda>l'. rbind (expand_relation M r) (\<lambda>r'. Inr (AstUnionAll l' r')))"
| "expand_relation M (AstUnionAllSortedBy l r es desc) = rbind (expand_relation M l) (\<lambda>l'. rbind (expand_relation M r) (\<lambda>r'.
     rbind (rmap (expand_expr M) es) (\<lambda>es'. Inr (AstUnionAllSortedBy l' r' es' desc))))"
| "expand_relation M (AstFile p r f) = Inr (AstFile p r f)"
| "expand_relation M (AstStream c) = Inr (AstStream c)"
| "expand_relation M (AstNamedReference n) = Inr (AstNamedReference n)"
| "expand_relation M (AstMaterialize r) = rbind (expand_relation M r) (\<lambda>r'. Inr (AstMaterialize r'))"

definition define_macro :: "macros \<Rightarrow> string \<Rightarrow> string list \<Rightarrow> ast_expr \<Rightarrow> macros res" where
  "define_macro M name ps body =
     require (\<not> isBuiltinFunction name \<and> name \<noteq> ''count'')
    (require (M name = None)
    (require (distinct ps)
    (require (valid_body (set ps) body)
      (rbind (expand_expr M body) (\<lambda>body'. Inr (M(name \<mapsto> (ps, body'))))))))"

fun expand_statements :: "macros \<Rightarrow> ast_program \<Rightarrow> ast_program res" where
  "expand_statements M [] = Inr []"
| "expand_statements M (AstMacroDefinition name ps body # ss) =
     rbind (define_macro M name ps body) (\<lambda>M'. expand_statements M' ss)"
| "expand_statements M (AstNamedRelation name r # ss) =
     rbind (expand_relation M r) (\<lambda>r'. rbind (expand_statements M ss) (\<lambda>ss'. Inr (AstNamedRelation name r' # ss')))"
| "expand_statements M (AstQuery r # ss) =
     rbind (expand_relation M r) (\<lambda>r'. rbind (expand_statements M ss) (\<lambda>ss'. Inr (AstQuery r' # ss')))"

definition expandMacros :: "ast_program \<Rightarrow> ast_program res" where
  "expandMacros p = expand_statements Map.empty p"

section \<open>Only built-in calls are left\<close>

fun builtin_expr :: "ast_expr \<Rightarrow> bool"
and builtin_projector :: "ast_projector \<Rightarrow> bool"
and builtin_relation :: "ast_relation \<Rightarrow> bool" where
  "builtin_expr (AstIdentifier n) = True"
| "builtin_expr (AstLiteral l) = True"
| "builtin_expr (AstIn e r) = (builtin_expr e \<and> builtin_relation r)"
| "builtin_expr (AstLike e re) = builtin_expr e"
| "builtin_expr (AstFnCall f es) = (isBuiltinFunction f \<and> (\<forall>e \<in> set es. builtin_expr e))"
| "builtin_expr (AstBinary b l r) = (builtin_expr l \<and> builtin_expr r)"
| "builtin_expr (AstUnary u e) = builtin_expr e"
| "builtin_projector AstStar = True"
| "builtin_projector (AstIdentifierProjector n) = True"
| "builtin_projector (AstExprProjector n e) = builtin_expr e"
| "builtin_relation (AstAdhoc ls) = True"
| "builtin_relation (AstSelect ps r lm w h ob gb) = ((\<forall>p \<in> set ps. builtin_projector p) \<and> builtin_relation r \<and>
     (case w of None \<Rightarrow> True | Some e \<Rightarrow> builtin_expr e) \<and> (case h of None \<Rightarrow> True | Some e \<Rightarrow> builtin_expr e) \<and>
     (case ob of None \<Rightarrow> True | Some (es, desc) \<Rightarrow> \<forall>e \<in> set es. builtin_expr e) \<and>
     (case gb of None \<Rightarrow> True | Some ks \<Rightarrow> \<forall>p \<in> set ks. builtin_projector p))"
| "builtin_relation (AstAlias a r) = builtin_relation r"
| "builtin_relation (AstLeftJoin l r e) = (builtin_relation l \<and> builtin_relation r \<and> builtin_expr e)"
| "builtin_relation (AstUnionAll l r) = (builtin_relation l \<and> builtin_relation r)"
| "builtin_relation (AstUnionAllSortedBy l r es desc) = (builtin_relation l \<and> builtin_relation r \<and> (\<forall>e \<in> set es. builtin_expr e))"
| "builtin_relation (AstFile p r f) = True"
| "builtin_relation (AstStream c) = True"
| "builtin_relation (AstNamedReference n) = True"
| "builtin_relation (AstMaterialize r) = builtin_relation r"

fun builtin_statement :: "ast_statement \<Rightarrow> bool" where
  "builtin_statement (AstNamedRelation n r) = builtin_relation r"
| "builtin_statement (AstMacroDefinition n ps body) = False"
| "builtin_statement (AstQuery r) = builtin_relation r"

definition builtin_macros :: "macros \<Rightarrow> bool" where
  "builtin_macros M \<longleftrightarrow> (\<forall>f ps body. M f = Some (ps, body) \<longrightarrow> builtin_expr body)"

lemma subst_builtin:
  assumes S: "\<forall>n e. S n = Some e \<longrightarrow> builtin_expr e"
  shows "builtin_expr e \<Longrightarrow> builtin_expr (subst_expr S e)"
    and "builtin_projector p \<Longrightarrow> builtin_projector (subst_projector S p)"
    and "builtin_relation r \<Longrightarrow> builtin_relation (subst_relation S r)"
proof (induction e and p and r)
  case (AstIdentifier n)
  with S show ?case by (auto split: option.splits)
next
  case (AstIdentifierProjector n)
  with S show ?case by (auto split: option.splits)
next
  case (AstSelect ps r lm w h ob gb)
  then show ?case by (auto split: option.splits)
qed auto

lemma expand_call_builtin:
  assumes "builtin_macros M" "\<forall>e \<in> set es. builtin_expr e" "expand_call M f es = Inr e"
  shows "builtin_expr e"
proof (cases "M f")
  case None
  with assms show ?thesis by (auto simp: expand_call_def split: if_splits)
next
  case (Some p)
  obtain ps body where p: "p = (ps, body)" by (cases p)
  have "\<forall>n e. map_of (zip ps es) n = Some e \<longrightarrow> builtin_expr e"
    using assms(2) by (auto dest!: map_of_SomeD dest: set_zip_rightD)
  from subst_builtin(1) [OF this] assms(1,3) Some p show ?thesis
    by (auto simp: expand_call_def builtin_macros_def split: if_splits)
qed

lemma rmap_each:
  assumes "rmap f xs = Inr ys" "\<And>x y. x \<in> set xs \<Longrightarrow> f x = Inr y \<Longrightarrow> P y"
  shows "\<forall>y \<in> set ys. P y"
proof -
  from assms(1) have "\<forall>y \<in> set ys. \<exists>x \<in> set xs. f x = Inr y"
  proof (induction xs arbitrary: ys)
    case (Cons a xs)
    from Cons.prems obtain b bs where "f a = Inr b" "rmap f xs = Inr bs" "ys = b # bs" by (auto simp: rbind_Inr_iff)
    with Cons.IH show ?case by (metis list.set_intros set_ConsD)
  qed simp
  with assms(2) show ?thesis by blast
qed

lemma ropt_all: "ropt f x = Inr y \<Longrightarrow> y = Some z \<Longrightarrow> \<exists>w. x = Some w \<and> f w = Inr z"
  by (cases x) (auto simp: rbind_Inr_iff)

lemma expand_builtin:
  assumes M: "builtin_macros M"
  shows "expand_expr M e = Inr e' \<Longrightarrow> builtin_expr e'"
    and "expand_projector M p = Inr p' \<Longrightarrow> builtin_projector p'"
    and "expand_relation M r = Inr r' \<Longrightarrow> builtin_relation r'"
proof (induction e and p and r arbitrary: e' and p' and r')
  case (AstFnCall f es)
  from AstFnCall.prems obtain es' where es: "rmap (expand_expr M) es = Inr es'" "expand_call M f es' = Inr e'"
    by (auto simp: rbind_Inr_iff)
  from rmap_each [OF es(1)] AstFnCall.IH have "\<forall>e \<in> set es'. builtin_expr e" by blast
  from expand_call_builtin [OF M this es(2)] show ?case .
next
  case (AstSelect ps r lm w h ob gb)
  from AstSelect.prems obtain ps' s' w' h' ob' gb' where parts:
    "rmap (expand_projector M) ps = Inr ps'" "expand_relation M r = Inr s'"
    "ropt (expand_expr M) w = Inr w'" "ropt (expand_expr M) h = Inr h'"
    "ropt (rpair (rmap (expand_expr M))) ob = Inr ob'" "ropt (rmap (expand_projector M)) gb = Inr gb'"
    "r' = AstSelect ps' s' lm w' h' ob' gb'"
    by (auto simp: select_of_def rbind_Inr_iff)
  have "\<forall>p \<in> set ps'. builtin_projector p" using rmap_each [OF parts(1)] AstSelect.IH(1) by blast
  moreover have "builtin_relation s'" using AstSelect.IH(2) parts(2) by blast
  moreover have "case w' of None \<Rightarrow> True | Some e \<Rightarrow> builtin_expr e"
    using AstSelect.IH(3) ropt_all [OF parts(3)] by (auto split: option.splits)
  moreover have "case h' of None \<Rightarrow> True | Some e \<Rightarrow> builtin_expr e"
    using AstSelect.IH(4) ropt_all [OF parts(4)] by (auto split: option.splits)
  moreover have "case ob' of None \<Rightarrow> True | Some (es, desc) \<Rightarrow> \<forall>e \<in> set es. builtin_expr e"
  proof (cases ob')
    case (Some x)
    obtain es' desc where x: "x = (es', desc)" by (cases x)
    from ropt_all [OF parts(5) Some] x obtain es where es: "ob = Some (es, desc)" "rmap (expand_expr M) es = Inr es'"
      by (auto simp: rbind_Inr_iff)
    from rmap_each [OF es(2)] AstSelect.IH(5) es(1) x Some show ?thesis by simp blast
  qed simp
  moreover have "case gb' of None \<Rightarrow> True | Some ks \<Rightarrow> \<forall>p \<in> set ks. builtin_projector p"
  proof (cases gb')
    case (Some ks')
    from ropt_all [OF parts(6) Some] obtain ks where ks: "gb = Some ks" "rmap (expand_projector M) ks = Inr ks'" by blast
    from rmap_each [OF ks(2)] AstSelect.IH(6) ks(1) Some show ?thesis by simp blast
  qed simp
  ultimately show ?case by (simp add: parts(7))
next
  case (AstUnionAllSortedBy l r es desc)
  from AstUnionAllSortedBy.prems obtain l' r1 es' where p: "expand_relation M l = Inr l'" "expand_relation M r = Inr r1"
    "rmap (expand_expr M) es = Inr es'" "r' = AstUnionAllSortedBy l' r1 es' desc" by (auto simp: rbind_Inr_iff)
  from rmap_each [OF p(3)] AstUnionAllSortedBy.IH p show ?case by simp blast
qed (auto simp: rbind_Inr_iff)

lemma expand_statements_builtin:
  "builtin_macros M \<Longrightarrow> expand_statements M p = Inr q \<Longrightarrow> list_all builtin_statement q"
proof (induction M p arbitrary: q rule: expand_statements.induct)
  case (2 M name ps body ss)
  from 2(3) obtain body' where b: "expand_expr M body = Inr body'" "define_macro M name ps body = Inr (M(name \<mapsto> (ps, body')))"
    "expand_statements (M(name \<mapsto> (ps, body'))) ss = Inr q"
    by (auto simp: rbind_Inr_iff define_macro_def split: if_splits)
  have "builtin_macros (M(name \<mapsto> (ps, body')))"
    using 2(2) expand_builtin(1) [OF 2(2) b(1)] by (auto simp: builtin_macros_def)
  from 2(1) [OF b(2) this b(3)] show ?case .
qed (auto simp: rbind_Inr_iff dest: expand_builtin)

section \<open>Properties\<close>

text \<open>C40: A program whose macros expand has no macro definition left and calls built-in functions only.\<close>

theorem expand_macros_builtin:
  assumes "expandMacros p = Inr q"
  shows "list_all builtin_statement q"
  by (rule expand_statements_builtin [OF _ assms [unfolded expandMacros_def]]) (simp add: builtin_macros_def)

theorem expand_macros_builtin_witness:
  "list_all builtin_statement [AstQuery (AstSelect [AstExprProjector ''b'' (AstFnCall ''lower'' [AstIdentifier ''a''])]
     (AstStream ''cat'') None None None None None)]"
  by (rule expand_macros_builtin [of "[AstMacroDefinition ''low'' [''x''] (AstFnCall ''lower'' [AstIdentifier ''x'']),
        AstQuery (AstSelect [AstExprProjector ''b'' (AstFnCall ''low'' [AstIdentifier ''a''])]
          (AstStream ''cat'') None None None None None)]"])
    (simp add: expandMacros_def define_macro_def expand_call_def isBuiltinFunction_def builtin_names_def select_of_def)

end
