(* ===== verification/Sql_State.thy ===== *)
theory Sql_State
  imports IR
begin

text \<open>
  Actions of the front end: they change a state and can fail. With them src/front/common/bound: the
  sets of fields the relations of a query give. A set of a file or stream is open, it grows with the
  fields a query asks for; it is shared, so open sets are cells of a store. The lemmas: what an
  action leaves true when it returns is computed by \<open>post\<close>; the binding and the store only grow; a
  field that was required of a set is one of its fields from then on.
\<close>

section \<open>Actions\<close>

type_synonym ('s, 'a) act = "'s \<Rightarrow> ('a \<times> 's) res"

definition ret :: "'a \<Rightarrow> ('s, 'a) act" where
  "ret x s = Inr (x, s)"

definition raise :: "fault \<Rightarrow> ('s, 'a) act" where
  "raise f s = Inl f"

definition sbind :: "('s, 'a) act \<Rightarrow> ('a \<Rightarrow> ('s, 'b) act) \<Rightarrow> ('s, 'b) act" where
  "sbind m f s = rbind (m s) (\<lambda>(x, t). f x t)"

definition lift :: "'a res \<Rightarrow> ('s, 'a) act" where
  "lift m s = rbind m (\<lambda>x. Inr (x, s))"

definition gets :: "('s \<Rightarrow> 'a res) \<Rightarrow> ('s, 'a) act" where
  "gets f s = rbind (f s) (\<lambda>x. Inr (x, s))"

abbreviation requires :: "bool \<Rightarrow> ('s, 'a) act \<Rightarrow> ('s, 'a) act" where
  "requires b m \<equiv> (if b then m else raise Thrown)"

abbreviation verifies :: "bool \<Rightarrow> ('s, 'a) act \<Rightarrow> ('s, 'a) act" where
  "verifies b m \<equiv> (if b then m else raise Panic)"

fun smap :: "('a \<Rightarrow> ('s, 'b) act) \<Rightarrow> 'a list \<Rightarrow> ('s, 'b list) act" where
  "smap f [] = ret []"
| "smap f (x # xs) = sbind (f x) (\<lambda>y. sbind (smap f xs) (\<lambda>ys. ret (y # ys)))"

lemma smap_cong [fundef_cong]: "xs = ys \<Longrightarrow> (\<And>x. x \<in> set ys \<Longrightarrow> f x = g x) \<Longrightarrow> smap f xs = smap g ys"
proof (induction xs arbitrary: ys)
  case (Cons x xs)
  then show ?case by (cases ys) auto
qed simp

fun sopt :: "('a \<Rightarrow> ('s, 'b) act) \<Rightarrow> 'a option \<Rightarrow> ('s, 'b option) act" where
  "sopt f None = ret None"
| "sopt f (Some x) = sbind (f x) (\<lambda>y. ret (Some y))"

lemma sopt_cong [fundef_cong]: "x = y \<Longrightarrow> (\<And>z. y = Some z \<Longrightarrow> f z = g z) \<Longrightarrow> sopt f x = sopt g y"
  by (cases y) auto

section \<open>What an action leaves true\<close>

definition post :: "('s, 'a) act \<Rightarrow> 's \<Rightarrow> ('a \<Rightarrow> 's \<Rightarrow> bool) \<Rightarrow> bool" where
  "post m s Q \<longleftrightarrow> (\<forall>x t. m s = Inr (x, t) \<longrightarrow> Q x t)"

lemma post_simps [simp]:
  "post (ret x) s Q \<longleftrightarrow> Q x s"
  "post (raise e) s Q"
  "post (lift m) s Q \<longleftrightarrow> (\<forall>x. m = Inr x \<longrightarrow> Q x s)"
  "post (gets g) s Q \<longleftrightarrow> (\<forall>x. g s = Inr x \<longrightarrow> Q x s)"
  by (auto simp: post_def ret_def raise_def lift_def gets_def)

lemma post_sbind [simp]: "post (sbind m f) s Q \<longleftrightarrow> post m s (\<lambda>x t. post (f x) t Q)"
  by (auto simp: post_def sbind_def rbind_Inr_iff split: prod.splits)

lemma post_if [simp]: "post (if b then m else n) s Q \<longleftrightarrow> (if b then post m s Q else post n s Q)"
  by simp

lemma post_mono: "post m s P \<Longrightarrow> (\<And>x t. P x t \<Longrightarrow> Q x t) \<Longrightarrow> post m s Q"
  by (auto simp: post_def)

lemma post_conj: "post m s P \<Longrightarrow> post m s Q \<Longrightarrow> post m s (\<lambda>x t. P x t \<and> Q x t)"
  by (auto simp: post_def)

lemma postD: "post m s Q \<Longrightarrow> m s = Inr (x, t) \<Longrightarrow> Q x t"
  by (auto simp: post_def)

section \<open>The field store\<close>

datatype field_set =
    FixedFields FieldSet
  | OpenFields nat
  | AliasFields string field_set
  | CombinedFields FieldSet "field_set list"

record field_store =
  binding :: FieldBinding
  cells :: "FieldSet list"

definition get_or_add :: "string \<Rightarrow> ValueType \<Rightarrow> ('x field_store_scheme, FieldId) act" where
  "get_or_add n t s = rbind (getOrAdd (binding s) n t) (\<lambda>(i, b). Inr (i, s\<lparr>binding := b\<rparr>))"

definition add_anonymous :: "string \<Rightarrow> ValueType \<Rightarrow> ('x field_store_scheme, FieldId) act" where
  "add_anonymous p t s = rbind (addAnonymous (binding s) p t) (\<lambda>(i, b). Inr (i, s\<lparr>binding := b\<rparr>))"

abbreviation name_of :: "FieldId \<Rightarrow> ('x field_store_scheme, string) act" where
  "name_of i \<equiv> gets (\<lambda>s. field_name (binding s) i)"

abbreviation type_of :: "FieldId \<Rightarrow> ('x field_store_scheme, ValueType) act" where
  "type_of i \<equiv> gets (\<lambda>s. field_type (binding s) i)"

definition new_cell :: "('x field_store_scheme, field_set) act" where
  "new_cell s = Inr (OpenFields (length (cells s)), s\<lparr>cells := cells s @ [{}]\<rparr>)"

text \<open>A pointer to an open set is valid as long as it is held.\<close>

definition get_cell :: "nat \<Rightarrow> ('x field_store_scheme, FieldSet) act" where
  "get_cell k = gets (\<lambda>s. if k < length (cells s) then Inr (cells s ! k) else Inl Undefined)"

definition add_to_cell :: "nat \<Rightarrow> FieldId \<Rightarrow> ('x field_store_scheme, unit) act" where
  "add_to_cell k i s = (if k < length (cells s) then Inr ((), s\<lparr>cells := (cells s)[k := insert i (cells s ! k)]\<rparr>) else Inl Undefined)"

section \<open>bound/RelationFieldSets.h\<close>

fun alias_fields :: "string \<Rightarrow> FieldId list \<Rightarrow> FieldSet \<Rightarrow> ('x field_store_scheme, FieldSet) act" where
  "alias_fields prefix [] F = ret F"
| "alias_fields prefix (i # is) F = sbind (name_of i) (\<lambda>n. sbind (type_of i) (\<lambda>t.
     sbind (get_or_add (prefix @ n) t) (\<lambda>j. alias_fields prefix is (insert j F))))"

fun set_fields :: "(FieldSet \<Rightarrow> FieldId list) \<Rightarrow> field_set \<Rightarrow> ('x field_store_scheme, FieldSet) act"
and merge_fields :: "(FieldSet \<Rightarrow> FieldId list) \<Rightarrow> FieldSet \<Rightarrow> field_set list \<Rightarrow> ('x field_store_scheme, FieldSet) act" where
  "set_fields order (FixedFields F) = ret F"
| "set_fields order (OpenFields k) = get_cell k"
| "set_fields order (AliasFields prefix r) = sbind (set_fields order r) (\<lambda>F. alias_fields prefix (order F) {})"
| "set_fields order (CombinedFields own rs) = merge_fields order own rs"
| "merge_fields order F [] = ret F"
| "merge_fields order F (r # rs) = sbind (set_fields order r) (\<lambda>G. merge_fields order (fs_merge F G) rs)"

text \<open>\<open>AliasRelationFieldSet::sourceField\<close>.\<close>

definition source_field :: "string \<Rightarrow> FieldId \<Rightarrow> ('x field_store_scheme, FieldId option) act" where
  "source_field prefix i = sbind (name_of i) (\<lambda>n.
     if take (length prefix) n \<noteq> prefix \<or> length n = length prefix then ret None
     else sbind (type_of i) (\<lambda>t. sbind (get_or_add (drop (length prefix) n) t) (\<lambda>j. ret (Some j))))"

fun can_provide :: "field_set \<Rightarrow> FieldId \<Rightarrow> ('x field_store_scheme, bool) act"
and any_provides :: "field_set list \<Rightarrow> FieldId \<Rightarrow> ('x field_store_scheme, bool) act" where
  "can_provide (FixedFields F) i = ret (i \<in> F)"
| "can_provide (OpenFields k) i = sbind (type_of i) (\<lambda>t. ret (t = String))"
| "can_provide (AliasFields prefix r) i = sbind (source_field prefix i)
     (\<lambda>j. case j of None \<Rightarrow> ret False | Some j \<Rightarrow> can_provide r j)"
| "can_provide (CombinedFields own rs) i = (if i \<in> own then ret True else any_provides rs i)"
| "any_provides [] i = ret False"
| "any_provides (r # rs) i = sbind (can_provide r i) (\<lambda>b. if b then ret True else any_provides rs i)"

fun require_field :: "field_set \<Rightarrow> FieldId \<Rightarrow> ('x field_store_scheme, unit) act"
and require_each :: "field_set list \<Rightarrow> FieldId \<Rightarrow> ('x field_store_scheme, unit) act" where
  "require_field (FixedFields F) i = verifies (i \<in> F) (ret ())"
| "require_field (OpenFields k) i = sbind (type_of i) (\<lambda>t. verifies (t = String) (add_to_cell k i))"
| "require_field (AliasFields prefix r) i = sbind (source_field prefix i)
     (\<lambda>j. case j of None \<Rightarrow> raise Panic | Some j \<Rightarrow> require_field r j)"
| "require_field (CombinedFields own rs) i = sbind (can_provide (CombinedFields own rs) i)
     (\<lambda>b. verifies b (if i \<in> own then ret () else require_each rs i))"
| "require_each [] i = ret ()"
| "require_each (r # rs) i = sbind (can_provide r i)
     (\<lambda>b. if b then sbind (require_field r i) (\<lambda>_. require_each rs i) else require_each rs i)"

section \<open>common/bind/FieldSetChain.h\<close>

text \<open>A chain is the list of its sets, the current one first.\<close>

type_synonym chain = "field_set list"

fun find_named :: "FieldBinding \<Rightarrow> string \<Rightarrow> FieldId list \<Rightarrow> FieldId option res" where
  "find_named b n [] = Inr None"
| "find_named b n (i # is) = rbind (field_name b i) (\<lambda>m. if m = n then Inr (Some i) else find_named b n is)"

fun typeOfSourceField :: "(FieldSet \<Rightarrow> FieldId list) \<Rightarrow> chain \<Rightarrow> string \<Rightarrow> ('x field_store_scheme, ValueType option) act" where
  "typeOfSourceField order [] n = ret None"
| "typeOfSourceField order (r # rs) n = sbind (set_fields order r) (\<lambda>F.
     sbind (gets (\<lambda>s. find_named (binding s) n (order F))) (\<lambda>found. case found of
       Some i \<Rightarrow> sbind (require_field r i) (\<lambda>_. sbind (type_of i) (\<lambda>t. ret (Some t)))
     | None \<Rightarrow> sbind (get_or_add n String) (\<lambda>i. sbind (can_provide r i) (\<lambda>b.
         if b then sbind (require_field r i) (\<lambda>_. ret (Some String)) else typeOfSourceField order rs n))))"

section \<open>The store grows\<close>

text \<open>The last id is free: the counter has not wrapped around.\<close>

definition room :: "'x field_store_scheme \<Rightarrow> bool" where
  "room s \<longleftrightarrow> names (binding s) (- 1) = None"

definition store_wf :: "'x field_store_scheme \<Rightarrow> bool" where
  "store_wf s \<longleftrightarrow> binding_wf (binding s) \<and> 0 < unat (next_id (binding s))"

definition below :: "'x field_store_scheme \<Rightarrow> 'x field_store_scheme \<Rightarrow> bool" where
  "below s t \<longleftrightarrow> names (binding s) \<subseteq>\<^sub>m names (binding t) \<and> types (binding s) \<subseteq>\<^sub>m types (binding t) \<and>
     (\<forall>u. ids (binding s) u \<subseteq>\<^sub>m ids (binding t) u) \<and>
     length (cells s) \<le> length (cells t) \<and> (\<forall>k < length (cells s). cells s ! k \<subseteq> cells t ! k) \<and>
     (room t \<longrightarrow> store_wf s \<longrightarrow> store_wf t)"

lemma below_refl [simp]: "below s s"
  by (simp add: below_def)

lemma below_room: "below s t \<Longrightarrow> room t \<Longrightarrow> room s"
  by (force simp: below_def room_def map_le_def dom_def)

lemma below_wf: "below s t \<Longrightarrow> room t \<Longrightarrow> store_wf s \<Longrightarrow> store_wf t"
  by (simp add: below_def)

lemma below_trans: "below s t \<Longrightarrow> below t u \<Longrightarrow> below s u"
  using below_room [of t u] unfolding below_def
  by (meson map_le_trans order_trans order_less_le_trans)

lemma below_get:
  assumes "below s t"
  shows "names (binding s) i = Some n \<Longrightarrow> names (binding t) i = Some n"
    and "types (binding s) i = Some u \<Longrightarrow> types (binding t) i = Some u"
    and "ids (binding s) u n = Some i \<Longrightarrow> ids (binding t) u n = Some i"
  using assms by (force simp: below_def map_le_def dom_def)+

definition acts :: "('x field_store_scheme, 'a) act \<Rightarrow> 'x field_store_scheme \<Rightarrow> ('a \<Rightarrow> 'x field_store_scheme \<Rightarrow> bool) \<Rightarrow> bool" where
  "acts m s Q \<longleftrightarrow> post m s (\<lambda>x t. below s t \<and> (room t \<longrightarrow> store_wf s \<longrightarrow> Q x t))"

lemma acts_simps [simp]:
  "acts (ret x) s Q \<longleftrightarrow> (room s \<longrightarrow> store_wf s \<longrightarrow> Q x s)"
  "acts (raise e) s Q"
  "acts (lift m) s Q \<longleftrightarrow> (\<forall>x. m = Inr x \<longrightarrow> room s \<longrightarrow> store_wf s \<longrightarrow> Q x s)"
  "acts (gets g) s Q \<longleftrightarrow> (\<forall>x. g s = Inr x \<longrightarrow> room s \<longrightarrow> store_wf s \<longrightarrow> Q x s)"
  by (auto simp: acts_def)

lemma acts_mono:
  assumes "acts m s P" "\<And>x t. P x t \<Longrightarrow> below s t \<Longrightarrow> room t \<Longrightarrow> room s \<Longrightarrow> store_wf s \<Longrightarrow> store_wf t \<Longrightarrow> Q x t"
  shows "acts m s Q"
  using assms(1) unfolding acts_def
  by (rule post_mono) (use assms(2) in \<open>auto dest: below_room below_wf\<close>)

lemma acts_bind:
  assumes "acts m s P"
    and "\<And>x t. below s t \<Longrightarrow> acts (f x) t (\<lambda>y u. room s \<longrightarrow> store_wf s \<longrightarrow> room t \<longrightarrow> P x t \<longrightarrow> Q y u)"
  shows "acts (sbind m f) s Q"
  unfolding acts_def post_sbind
proof (rule post_mono [OF assms(1) [unfolded acts_def]])
  fix x t assume 1: "below s t \<and> (room t \<longrightarrow> store_wf s \<longrightarrow> P x t)"
  then have 2: "room t \<longrightarrow> store_wf s \<longrightarrow> store_wf t" by (auto dest: below_wf)
  show "post (f x) t (\<lambda>y u. below s u \<and> (room u \<longrightarrow> store_wf s \<longrightarrow> Q y u))"
    by (rule post_mono [OF assms(2) [OF conjunct1 [OF 1], unfolded acts_def]])
      (use 1 2 in \<open>auto intro: below_trans dest: below_room\<close>)
qed


lemma acts_if [simp]: "acts (if b then m else n) s Q \<longleftrightarrow> (if b then acts m s Q else acts n s Q)"
  by simp

lemma acts_conj: "acts m s P \<Longrightarrow> acts m s Q \<Longrightarrow> acts m s (\<lambda>x t. P x t \<and> Q x t)"
  by (auto simp: acts_def post_def)

lemma acts_weaken: "acts m s P \<Longrightarrow> (\<And>x t. P x t \<Longrightarrow> Q x t) \<Longrightarrow> acts m s Q"
  by (erule acts_mono) blast

lemma acts_given: "(G \<Longrightarrow> acts m s Q) \<Longrightarrow> acts m s (\<lambda>_ _. True) \<Longrightarrow> acts m s (\<lambda>x t. G \<longrightarrow> Q x t)"
  by (cases G) (auto simp: acts_def)

subsection \<open>Adding fields\<close>

lemma emplace_le: "m \<subseteq>\<^sub>m emplace m k v"
  by (auto simp: emplace_def map_le_def split: option.splits)

lemma addField_below:
  assumes "addField b n t = Inr (i, c)"
  shows "names b \<subseteq>\<^sub>m names c \<and> types b \<subseteq>\<^sub>m types c \<and> (\<forall>u. ids b u \<subseteq>\<^sub>m ids c u)"
  using assms by (auto simp: addField_def Let_def emplace_le split: if_splits)

lemma addField_room:
  assumes add: "addField b n t = Inr (i, c)" and room: "names c (- 1) = None"
    and wf: "binding_wf b" "0 < unat (next_id b)"
  shows "unat (next_id b) < 2 ^ 32 - 1"
proof (rule ccontr)
  assume "\<not> ?thesis"
  moreover have "unat (next_id b) < 2 ^ 32" using unsigned_less [of "next_id b", where ?'a = nat] by simp
  moreover have "unat (- 1 :: FieldId) = 2 ^ 32 - 1" by (simp add: unsigned_minus_1_eq_mask mask_eq_exp_minus_1)
  ultimately have "unat (next_id b) = unat (- 1 :: FieldId)" by simp
  then have "next_id b = - 1" by (rule unsigned_word_eqI)
  with add room show False by (auto simp: addField_def Let_def emplace_def split: if_splits option.splits)
qed

text \<open>What a field that is in the binding is.\<close>

definition known :: "'x field_store_scheme \<Rightarrow> FieldId \<Rightarrow> string \<Rightarrow> ValueType \<Rightarrow> bool" where
  "known s i n t \<longleftrightarrow> names (binding s) i = Some n \<and> types (binding s) i = Some t \<and> ids (binding s) t n = Some i"

lemma known_below: "known s i n t \<Longrightarrow> below s u \<Longrightarrow> known u i n t"
  unfolding known_def by (blast dest: below_get)

lemma getOrAdd_below:
  assumes add: "getOrAdd (binding s) n t = Inr (i, c)"
  shows "below s (s\<lparr>binding := c\<rparr>)"
    and "room (s\<lparr>binding := c\<rparr>) \<Longrightarrow> store_wf s \<Longrightarrow> known (s\<lparr>binding := c\<rparr>) i n t"
proof -
  have "(room (s\<lparr>binding := c\<rparr>) \<longrightarrow> store_wf s \<longrightarrow> store_wf (s\<lparr>binding := c\<rparr>) \<and> known (s\<lparr>binding := c\<rparr>) i n t) \<and>
      names (binding s) \<subseteq>\<^sub>m names c \<and> types (binding s) \<subseteq>\<^sub>m types c \<and> (\<forall>u. ids (binding s) u \<subseteq>\<^sub>m ids c u)"
  proof (cases "hasField (binding s) n t")
    case True
    then obtain j where "ids (binding s) t n = Some j" by (auto simp: hasField_def)
    with True add show ?thesis by (auto simp: getOrAdd_def field_id_def store_wf_def known_def binding_wf_def)
  next
    case False
    with add have a: "addField (binding s) n t = Inr (i, c)" by (simp add: getOrAdd_def)
    have "store_wf (s\<lparr>binding := c\<rparr>) \<and> known (s\<lparr>binding := c\<rparr>) i n t"
      if "room (s\<lparr>binding := c\<rparr>)" "store_wf s"
    proof -
      have r: "unat (next_id (binding s)) < 2 ^ 32 - 1"
        using addField_room [OF a] that by (simp add: room_def store_wf_def)
      from addField_wf [OF _ r _ a] that(2) show ?thesis by (auto simp: store_wf_def known_def binding_wf_def)
    qed
    with addField_below [OF a] show ?thesis by simp
  qed
  then show "below s (s\<lparr>binding := c\<rparr>)"
    and "room (s\<lparr>binding := c\<rparr>) \<Longrightarrow> store_wf s \<Longrightarrow> known (s\<lparr>binding := c\<rparr>) i n t"
    by (simp_all add: below_def)
qed

lemma acts_get_or_add: "acts (get_or_add n t) s (\<lambda>i u. known u i n t \<and> cells u = cells s)"
  using getOrAdd_below [of s n t]
  by (auto simp: acts_def post_def get_or_add_def rbind_Inr_iff split: prod.splits)

lemma acts_add_anonymous: "acts (add_anonymous p t) s (\<lambda>i u. (\<exists>n. known u i n t) \<and> cells u = cells s \<and> types (binding s) i = None)"
proof -
  have "acts (\<lambda>s. rbind (addField (binding s) n t) (\<lambda>(i, b). Inr (i, s\<lparr>binding := b\<rparr>))) s
      (\<lambda>i u. (\<exists>n. known u i n t) \<and> cells u = cells s \<and> types (binding s) i = None)" for n
    unfolding acts_def post_def
  proof (safe; clarsimp simp: rbind_Inr_iff)
    fix i b assume a: "addField (binding s) n t = Inr (i, b)"
    then have "\<not> hasField (binding s) n t" by (simp add: addField_def split: if_splits)
    with a have g: "getOrAdd (binding s) n t = Inr (i, b)" by (simp add: getOrAdd_def)
    show "below s (s\<lparr>binding := b\<rparr>)" by (rule getOrAdd_below(1) [OF g])
    assume r: "room (s\<lparr>binding := b\<rparr>)" "store_wf s"
    from getOrAdd_below(2) [OF g r] show "\<exists>n. known (s\<lparr>binding := b\<rparr>) i n t" ..
    from a r(2) show "types (binding s) i = None"
      by (auto simp: addField_def Let_def store_wf_def binding_wf_def split: if_splits)
  qed
  then show ?thesis by (simp add: add_anonymous_def addAnonymous_def fun_eq_iff acts_def post_def)
qed

subsection \<open>The fields of a set\<close>

fun fields_of :: "'x field_store_scheme \<Rightarrow> field_set \<Rightarrow> FieldSet" where
  "fields_of s (FixedFields F) = F"
| "fields_of s (OpenFields k) = (if k < length (cells s) then cells s ! k else {})"
| "fields_of s (AliasFields prefix r) = {j. \<exists>i \<in> fields_of s r. \<exists>n t. known s i n t \<and> known s j (prefix @ n) t}"
| "fields_of s (CombinedFields own rs) = own \<union> \<Union> (set (map (fields_of s) rs))"

fun provides :: "'x field_store_scheme \<Rightarrow> field_set \<Rightarrow> FieldId \<Rightarrow> bool" where
  "provides s (FixedFields F) i = (i \<in> F)"
| "provides s (OpenFields k) i = (\<exists>n. known s i n String)"
| "provides s (AliasFields prefix r) i = (\<exists>j n t. known s i (prefix @ n) t \<and> n \<noteq> [] \<and> known s j n t \<and> provides s r j)"
| "provides s (CombinedFields own rs) i = (i \<in> own \<or> (\<exists>r \<in> set rs. provides s r i))"

lemma fields_of_below: "below s t \<Longrightarrow> i \<in> fields_of s r \<Longrightarrow> i \<in> fields_of t r"
proof (induction r arbitrary: i)
  case (OpenFields k)
  then show ?case by (auto simp: below_def split: if_splits)
next
  case (AliasFields prefix r)
  then show ?case by simp (metis known_below)
qed auto

lemma provides_below: "below s t \<Longrightarrow> provides s r i \<Longrightarrow> provides t r i"
proof (induction r arbitrary: i)
  case (OpenFields k)
  then show ?case by (auto dest: known_below)
next
  case (AliasFields prefix r)
  then show ?case by simp (metis known_below)
qed auto

lemma known_unique: "known s i n t \<Longrightarrow> known s j n t \<Longrightarrow> i = j"
  by (simp add: known_def)

lemma known_names: "known s i n t \<Longrightarrow> known s i m u \<Longrightarrow> n = m \<and> t = u"
  by (simp add: known_def)

lemma knownI: "store_wf s \<Longrightarrow> field_name (binding s) i = Inr n \<Longrightarrow> field_type (binding s) i = Inr t \<Longrightarrow> known s i n t"
  by (auto simp: known_def store_wf_def binding_wf_def field_name_def field_type_def split: option.splits)

lemma known_lookup: "known s i n t \<Longrightarrow> field_name (binding s) i = Inr n \<and> field_type (binding s) i = Inr t"
  by (simp add: known_def field_name_def field_type_def)

lemma acts_get_cell: "acts (get_cell k) s (\<lambda>F u. F = fields_of u (OpenFields k))"
  by (auto simp: get_cell_def)

lemma acts_add_to_cell: "acts (add_to_cell k i) s (\<lambda>_ u. i \<in> fields_of u (OpenFields k))"
  by (auto simp: acts_def post_def add_to_cell_def below_def room_def store_wf_def nth_list_update)

lemma acts_new_cell: "acts new_cell s (\<lambda>r u. True)"
  by (auto simp: acts_def post_def new_cell_def below_def room_def store_wf_def nth_append)

lemma acts_source_field: "acts (source_field prefix i) s (\<lambda>x u.
    (\<forall>j. x = Some j \<longrightarrow> (\<exists>n t. known u i (prefix @ n) t \<and> n \<noteq> [] \<and> known u j n t)) \<and>
    (x = None \<longrightarrow> \<not> (\<exists>n t. known s i (prefix @ n) t \<and> n \<noteq> [])))"
  unfolding source_field_def
proof (rule acts_bind [where P = "\<lambda>n u. u = s \<and> field_name (binding s) i = Inr n"])
  fix n t
  show "acts (if take (length prefix) n \<noteq> prefix \<or> length n = length prefix then ret None
      else sbind (type_of i) (\<lambda>t. sbind (get_or_add (drop (length prefix) n) t) (\<lambda>j. ret (Some j)))) t
    (\<lambda>y u. room s \<longrightarrow> store_wf s \<longrightarrow> room t \<longrightarrow> t = s \<and> field_name (binding s) i = Inr n \<longrightarrow>
       (\<forall>j. y = Some j \<longrightarrow> (\<exists>n t. known u i (prefix @ n) t \<and> n \<noteq> [] \<and> known u j n t)) \<and>
       (y = None \<longrightarrow> \<not> (\<exists>n t. known s i (prefix @ n) t \<and> n \<noteq> [])))"
  proof (cases "take (length prefix) n \<noteq> prefix \<or> length n = length prefix")
    case True
    then show ?thesis by (auto dest!: known_lookup)
  next
    case False
    then have n: "n = prefix @ drop (length prefix) n" "drop (length prefix) n \<noteq> []"
      by (metis append_take_drop_id) (use False in auto)
    have "acts (sbind (type_of i) (\<lambda>v. sbind (get_or_add (drop (length prefix) n) v) (\<lambda>j. ret (Some j)))) t
      (\<lambda>y u. room t \<longrightarrow> store_wf t \<longrightarrow> (\<exists>j v. y = Some j \<and> field_type (binding t) i = Inr v \<and> below t u \<and> known u j (drop (length prefix) n) v))"
      by (rule acts_bind [where P = "\<lambda>v u. u = t \<and> field_type (binding t) i = Inr v"], simp)
        (rule acts_bind [OF acts_get_or_add], auto)
    then show ?thesis using False
      by (simp del: acts_if) (erule acts_mono, use n in \<open>metis knownI known_below option.inject option.distinct(1)\<close>)
  qed
qed simp

lemma provides_alias: "known u i (prefix @ n) t \<Longrightarrow> n \<noteq> [] \<Longrightarrow> known u j n t \<Longrightarrow>
    provides u (AliasFields prefix r) i \<longleftrightarrow> provides u r j"
  by (auto dest: known_names known_unique)

lemma fields_of_alias: "known u i (prefix @ n) t \<Longrightarrow> known u j n t \<Longrightarrow> j \<in> fields_of u r \<Longrightarrow>
    i \<in> fields_of u (AliasFields prefix r)"
  by auto

lemma acts_can_provide:
  shows "acts (can_provide r i) s (\<lambda>b u. (b \<longrightarrow> provides u r i) \<and> (provides s r i \<longrightarrow> b))"
    and "acts (any_provides rs i) s (\<lambda>b u. (b \<longrightarrow> (\<exists>r \<in> set rs. provides u r i)) \<and> ((\<exists>r \<in> set rs. provides s r i) \<longrightarrow> b))"
proof (induction r i and rs i arbitrary: s and s rule: can_provide_any_provides.induct)
  case (2 k i)
  show ?case
    by (simp, rule acts_bind [where P = "\<lambda>t u. u = s \<and> field_type (binding s) i = Inr t"])
      (auto dest: known_lookup knownI intro: knownI simp: field_type_def field_name_def store_wf_def binding_wf_def known_def split: option.splits)
next
  case (3 prefix r i)
  show ?case
    unfolding can_provide.simps
  proof (rule acts_bind [OF acts_source_field])
    fix x t
    show "acts (case x of None \<Rightarrow> ret False | Some j \<Rightarrow> can_provide r j) t (\<lambda>b u. room s \<longrightarrow> store_wf s \<longrightarrow> room t \<longrightarrow>
        (\<forall>j. x = Some j \<longrightarrow> (\<exists>n v. known t i (prefix @ n) v \<and> n \<noteq> [] \<and> known t j n v)) \<and>
        (x = None \<longrightarrow> \<not> (\<exists>n v. known s i (prefix @ n) v \<and> n \<noteq> [])) \<longrightarrow>
        (b \<longrightarrow> provides u (AliasFields prefix r) i) \<and> (provides s (AliasFields prefix r) i \<longrightarrow> b))" if b: "below s t"
    proof (cases x)
      case (Some j)
      show ?thesis
        unfolding Some option.case
      proof (rule acts_mono [OF 3], intro impI)
        fix c u
        assume c: "(c \<longrightarrow> provides u r j) \<and> (provides t r j \<longrightarrow> c)" and tu: "below t u"
          and k: "(\<forall>j'. Some j = Some j' \<longrightarrow> (\<exists>n v. known t i (prefix @ n) v \<and> n \<noteq> [] \<and> known t j' n v)) \<and>
            (Some j = None \<longrightarrow> \<not> (\<exists>n v. known s i (prefix @ n) v \<and> n \<noteq> []))"
        from k obtain n v where n: "known t i (prefix @ n) v" "n \<noteq> []" "known t j n v" by blast
        from provides_alias [OF n] have t: "provides t (AliasFields prefix r) i \<longleftrightarrow> provides t r j" .
        from provides_alias [OF known_below [OF n(1) tu] n(2) known_below [OF n(3) tu]]
        have u: "provides u (AliasFields prefix r) i \<longleftrightarrow> provides u r j" .
        from provides_below [OF b] c t u
        show "(c \<longrightarrow> provides u (AliasFields prefix r) i) \<and> (provides s (AliasFields prefix r) i \<longrightarrow> c)" by blast
      qed
    qed auto
  qed
next
  case (6 r rs i)
  show ?case
    unfolding any_provides.simps
  proof (rule acts_bind [OF 6(1)])
    fix b t assume b: "below s t"
    show "acts (if b then ret True else any_provides rs i) t (\<lambda>c u. room s \<longrightarrow> store_wf s \<longrightarrow> room t \<longrightarrow>
        (b \<longrightarrow> provides t r i) \<and> (provides s r i \<longrightarrow> b) \<longrightarrow>
        (c \<longrightarrow> (\<exists>r \<in> set (r # rs). provides u r i)) \<and> ((\<exists>r \<in> set (r # rs). provides s r i) \<longrightarrow> c))"
    proof (cases b)
      case False
      then show ?thesis
        by simp (rule acts_mono [OF 6(2)], use b in \<open>auto dest: provides_below\<close>)
    qed simp
  qed
qed (simp_all)

lemma acts_require_field:
  shows "acts (require_field r i) s (\<lambda>_ u. i \<in> fields_of u r)"
    and "acts (require_each rs i) s (\<lambda>_ u. \<forall>r \<in> set rs. provides s r i \<longrightarrow> i \<in> fields_of u r)"
proof (induction r i and rs i arbitrary: s and s rule: require_field_require_each.induct)
  case (2 k i)
  show ?case
    unfolding require_field.simps by (rule acts_bind [where P = "\<lambda>t u. u = s"]) (auto intro: acts_weaken [OF acts_add_to_cell])
next
  case (3 prefix r i)
  show ?case
    unfolding require_field.simps
  proof (rule acts_bind [OF acts_source_field])
    fix x t assume "below s t"
    show "acts (case x of None \<Rightarrow> raise Panic | Some j \<Rightarrow> require_field r j) t (\<lambda>_ u. room s \<longrightarrow> store_wf s \<longrightarrow> room t \<longrightarrow>
        (\<forall>j. x = Some j \<longrightarrow> (\<exists>n v. known t i (prefix @ n) v \<and> n \<noteq> [] \<and> known t j n v)) \<and>
        (x = None \<longrightarrow> \<not> (\<exists>n v. known s i (prefix @ n) v \<and> n \<noteq> [])) \<longrightarrow> i \<in> fields_of u (AliasFields prefix r))"
    proof (cases x)
      case (Some j)
      show ?thesis
        unfolding Some option.case
        by (rule acts_mono [OF 3]) (blast dest: known_below intro: fields_of_alias)
    qed simp
  qed
next
  case (4 own rs i)
  show ?case
    unfolding require_field.simps
  proof (rule acts_bind [OF acts_can_provide(1)])
    fix b t assume "below s t"
    show "acts (verifies b (if i \<in> own then ret () else require_each rs i)) t (\<lambda>_ u. room s \<longrightarrow> store_wf s \<longrightarrow> room t \<longrightarrow>
        (b \<longrightarrow> provides t (CombinedFields own rs) i) \<and> (provides s (CombinedFields own rs) i \<longrightarrow> b) \<longrightarrow>
        i \<in> fields_of u (CombinedFields own rs))"
      by (cases b; cases "i \<in> own") (auto intro!: acts_mono [OF 4])
  qed
next
  case (6 r rs i)
  show ?case
    unfolding require_each.simps
  proof (rule acts_bind [OF acts_can_provide(1)])
    fix b t assume st: "below s t"
    show "acts (if b then sbind (require_field r i) (\<lambda>_. require_each rs i) else require_each rs i) t
      (\<lambda>_ u. room s \<longrightarrow> store_wf s \<longrightarrow> room t \<longrightarrow> (b \<longrightarrow> provides t r i) \<and> (provides s r i \<longrightarrow> b) \<longrightarrow>
        (\<forall>r \<in> set (r # rs). provides s r i \<longrightarrow> i \<in> fields_of u r))"
    proof (cases b)
      case True
      have "acts (sbind (require_field r i) (\<lambda>_. require_each rs i)) t
          (\<lambda>_ u. i \<in> fields_of u r \<and> (\<forall>r \<in> set rs. provides t r i \<longrightarrow> i \<in> fields_of u r))"
        by (rule acts_bind [OF 6(1) [OF True]])
          (rule acts_mono [OF 6(2) [OF True]], auto dest: fields_of_below provides_below)
      then show ?thesis using True st by simp (erule acts_weaken, auto dest: provides_below)
    next
      case False
      then show ?thesis using st
        by simp (rule acts_weaken [OF 6(3) [OF False]], auto dest: provides_below)
    qed
  qed
qed (simp_all)




lemma acts_alias_fields: "acts (alias_fields prefix is F) s
    (\<lambda>G u. \<forall>j \<in> G. j \<in> F \<or> (\<exists>i \<in> set is. \<exists>n t. known u i n t \<and> known u j (prefix @ n) t))"
proof (induction "is" arbitrary: F s)
  case (Cons i "is")
  show ?case
    unfolding alias_fields.simps
  proof (rule acts_bind [where P = "\<lambda>n u. u = s \<and> field_name (binding s) i = Inr n"], simp,
      rule acts_bind [where P = "\<lambda>t u. field_type (binding u) i = Inr t"], simp, rule acts_bind [OF acts_get_or_add])
    fix n t1 t t2 j t3
    assume b: "below s t1" "below t1 t2" "below t2 t3"
    show "acts (alias_fields prefix is (insert j F)) t3 (\<lambda>G u. room t2 \<longrightarrow> store_wf t2 \<longrightarrow> room t3 \<longrightarrow>
        known t3 j (prefix @ n) t \<and> cells t3 = cells t2 \<longrightarrow> room t1 \<longrightarrow> store_wf t1 \<longrightarrow> room t2 \<longrightarrow> field_type (binding t2) i = Inr t \<longrightarrow>
        room s \<longrightarrow> store_wf s \<longrightarrow> room t1 \<longrightarrow> t1 = s \<and> field_name (binding s) i = Inr n \<longrightarrow>
        (\<forall>j \<in> G. j \<in> F \<or> (\<exists>i \<in> set (i # is). \<exists>n t. known u i n t \<and> known u j (prefix @ n) t)))"
    proof (rule acts_mono [OF Cons], intro impI ballI)
      fix G u k
      assume h: "\<forall>k \<in> G. k \<in> insert j F \<or> (\<exists>i \<in> set is. \<exists>n t. known u i n t \<and> known u k (prefix @ n) t)" "k \<in> G"
        "below t3 u" "store_wf t2" "field_type (binding t2) i = Inr t" "t1 = s \<and> field_name (binding s) i = Inr n"
        "known t3 j (prefix @ n) t \<and> cells t3 = cells t2"
      have "field_name (binding t2) i = Inr n"
        using h(6) b(2) below_get(1) [OF b(2)] by (auto simp: field_name_def split: option.splits)
      from knownI [OF h(4) this h(5)] have "known u i n t"
        using b(3) h(3) known_below below_trans by blast
      moreover have "known u j (prefix @ n) t" using h(3,7) known_below by blast
      ultimately show "k \<in> F \<or> (\<exists>i \<in> set (i # is). \<exists>n t. known u i n t \<and> known u k (prefix @ n) t)"
        using h(1,2) by fastforce
    qed
  qed
qed simp

lemma order_set: "order_ok order \<Longrightarrow> set (order F) = F"
  by (simp add: order_ok_def)

lemma acts_set_fields:
  shows "acts (set_fields order r) s (\<lambda>F u. order_ok order \<longrightarrow> F \<subseteq> fields_of u r)"
    and "acts (merge_fields order F rs) s (\<lambda>G u. order_ok order \<longrightarrow> G \<subseteq> F \<union> \<Union> (set (map (fields_of u) rs)))"
proof (induction order r and order F rs arbitrary: s and s rule: set_fields_merge_fields.induct)
  case (2 order k)
  show ?case by (auto intro: acts_weaken [OF acts_get_cell])
next
  case (3 order prefix r)
  show ?case
    unfolding set_fields.simps
  proof (rule acts_bind [OF 3], rule acts_mono [OF acts_alias_fields], intro impI subsetI)
    fix F t G u j
    assume h: "\<forall>j \<in> G. j \<in> {} \<or> (\<exists>i \<in> set (order F). \<exists>n t. known u i n t \<and> known u j (prefix @ n) t)"
      "below t u" "order_ok order \<longrightarrow> F \<subseteq> fields_of t r" "order_ok order" "j \<in> G"
    then have "set (order F) \<subseteq> fields_of u r" using order_set fields_of_below by blast
    with h(1,5) show "j \<in> fields_of u (AliasFields prefix r)" by simp blast
  qed
next
  case (6 order F r rs)
  show ?case
    unfolding merge_fields.simps
    by (rule acts_bind [OF 6(1)], rule acts_mono [OF 6(2)])
      (fastforce simp: fs_merge_def dest: fields_of_below)
qed auto

lemma find_named_Some: "find_named b n is = Inr (Some i) \<Longrightarrow> field_name b i = Inr n"
  by (induction "is") (auto simp: rbind_Inr_iff split: if_splits)

text \<open>A name that is found names a field of a set of the chain.\<close>

lemma acts_typeOfSourceField: "acts (typeOfSourceField order rs n) s
    (\<lambda>x u. \<forall>t. x = Some t \<longrightarrow> (\<exists>i. known u i n t \<and> (\<exists>r \<in> set rs. i \<in> fields_of u r)))"
proof (induction rs arbitrary: s)
  case (Cons r rs)
  have hit: "acts (sbind (require_field r i) (\<lambda>_. sbind (type_of i) (\<lambda>t. ret (Some t)))) t
      (\<lambda>x u. field_name (binding t) i = Inr n \<longrightarrow> (\<forall>v. x = Some v \<longrightarrow> (\<exists>i. known u i n v \<and> (\<exists>r \<in> set (r # rs). i \<in> fields_of u r))))" for i t
  proof (rule acts_bind [OF acts_require_field(1)])
    fix w assume b: "below t w"
    have "field_name (binding t) i = Inr n \<Longrightarrow> field_name (binding w) i = Inr n"
      using below_get(1) [OF b] by (auto simp: field_name_def split: option.splits)
    then show "acts (sbind (type_of i) (\<lambda>t. ret (Some t))) w (\<lambda>x u. room t \<longrightarrow> store_wf t \<longrightarrow> room w \<longrightarrow> i \<in> fields_of w r \<longrightarrow>
        field_name (binding t) i = Inr n \<longrightarrow> (\<forall>v. x = Some v \<longrightarrow> (\<exists>i. known u i n v \<and> (\<exists>r \<in> set (r # rs). i \<in> fields_of u r))))"
      by (intro acts_bind [where P = "\<lambda>v u. u = w \<and> field_type (binding w) i = Inr v"])
        (auto intro: knownI)
  qed
  show ?case
    unfolding typeOfSourceField.simps
  proof (rule acts_bind [OF acts_set_fields(1)], rule acts_bind [where P = "\<lambda>x u. \<forall>i. x = Some i \<longrightarrow> field_name (binding u) i = Inr n"])
    fix F t
    show "acts (gets (\<lambda>s. find_named (binding s) n (order F))) t (\<lambda>x u. \<forall>i. x = Some i \<longrightarrow> field_name (binding u) i = Inr n)"
      by (auto dest: find_named_Some)
  next
    fix F t x u assume b: "below s t" "below t u"
    show "acts (case x of Some i \<Rightarrow> sbind (require_field r i) (\<lambda>_. sbind (type_of i) (\<lambda>t. ret (Some t)))
        | None \<Rightarrow> sbind (get_or_add n String) (\<lambda>i. sbind (can_provide r i) (\<lambda>b.
            if b then sbind (require_field r i) (\<lambda>_. ret (Some String)) else typeOfSourceField order rs n))) u
      (\<lambda>y w. room t \<longrightarrow> store_wf t \<longrightarrow> room u \<longrightarrow> (\<forall>i. x = Some i \<longrightarrow> field_name (binding u) i = Inr n) \<longrightarrow>
         room s \<longrightarrow> store_wf s \<longrightarrow> room t \<longrightarrow> (order_ok order \<longrightarrow> F \<subseteq> fields_of t r) \<longrightarrow>
         (\<forall>t. y = Some t \<longrightarrow> (\<exists>i. known w i n t \<and> (\<exists>r \<in> set (r # rs). i \<in> fields_of w r))))"
    proof (cases x)
      case (Some i)
      then show ?thesis by simp (rule acts_weaken [OF hit], simp)
    next
      case None
      have "acts (if b then sbind (require_field r i) (\<lambda>_. ret (Some String)) else typeOfSourceField order rs n) v
          (\<lambda>y w. known v i n String \<longrightarrow> (\<forall>t. y = Some t \<longrightarrow> (\<exists>i. known w i n t \<and> (\<exists>r \<in> set (r # rs). i \<in> fields_of w r))))"
        if "below u v" for b i v
      proof (cases b)
        case True
        then show ?thesis
          by simp (rule acts_bind [OF acts_require_field(1)], auto dest: known_below)
      next
        case False
        then show ?thesis by simp (rule acts_weaken [OF Cons], blast)
      qed
      note rest = this
      show ?thesis
        unfolding None option.case
      proof (rule acts_bind [OF acts_get_or_add], rule acts_bind [OF acts_can_provide(1)])
        fix i v b w
        assume "below u v" "below v w"
        then have "below u w" by (rule below_trans)
        from rest [OF this] show "acts (if b then sbind (require_field r i) (\<lambda>_. ret (Some String)) else typeOfSourceField order rs n) w
          (\<lambda>y x. room v \<longrightarrow> store_wf v \<longrightarrow> room w \<longrightarrow> (b \<longrightarrow> provides w r i) \<and> (provides v r i \<longrightarrow> b) \<longrightarrow>
            room u \<longrightarrow> store_wf u \<longrightarrow> room v \<longrightarrow> known v i n String \<and> cells v = cells u \<longrightarrow>
            room t \<longrightarrow> store_wf t \<longrightarrow> room u \<longrightarrow> (\<forall>i. None = Some i \<longrightarrow> field_name (binding u) i = Inr n) \<longrightarrow>
            room s \<longrightarrow> store_wf s \<longrightarrow> room t \<longrightarrow> (order_ok order \<longrightarrow> F \<subseteq> fields_of t r) \<longrightarrow>
            (\<forall>t. y = Some t \<longrightarrow> (\<exists>i. known x i n t \<and> (\<exists>r \<in> set (r # rs). i \<in> fields_of x r))))"
          by (rule acts_weaken) (use known_below [OF _ \<open>below v w\<close>] in blast)
      qed
    qed
  qed
qed simp

end
