(* ===== verification/Sql_Bound.thy ===== *)
theory Sql_Bound
  imports Sql_Ast Sql_State
begin

text \<open>
  src/front/common/bound and src/front/sql/bound: the bound trees, with src/front/common/bind/Expressions.h
  and Expressions.cpp, which check and type an expression from its bound parts, ast/Literal.h and
  util/json.h. The lemmas: what the binder accepts has the types the built-in functions take, and the
  level of an expression tells which fields it reads.
\<close>

section \<open>bound/ExprKindLevel.h, bound/BinaryExpr.h, bound/UnaryExpr.h\<close>

datatype ExprKindLevel = LevelConst | LevelRow | LevelGroup

definition composable :: "ExprKindLevel \<Rightarrow> ExprKindLevel \<Rightarrow> bool" where
  "composable a b \<longleftrightarrow> a = b \<or> a = LevelConst \<or> b = LevelConst"

definition composed :: "ExprKindLevel \<Rightarrow> ExprKindLevel \<Rightarrow> ExprKindLevel res" where
  "composed a b = require (composable a b) (Inr (if a = b then a else if a = LevelConst then b else a))"

datatype BinaryExprType =
  Bin_Equal | Bin_NotEqual | Bin_Less | Bin_Greater | Bin_LessEqual | Bin_GreaterEqual | Bin_And | Bin_Or
  | Bin_Divide | Bin_Add | Bin_Subtract

datatype UnaryExprType = BooleanNegate

fun binary_exprType :: "ast_binary \<Rightarrow> BinaryExprType" where
  "binary_exprType AstEqual = Bin_Equal"
| "binary_exprType AstNotEqual = Bin_NotEqual"
| "binary_exprType AstLess = Bin_Less"
| "binary_exprType AstGreater = Bin_Greater"
| "binary_exprType AstLessEqual = Bin_LessEqual"
| "binary_exprType AstGreaterEqual = Bin_GreaterEqual"
| "binary_exprType AstAnd = Bin_And"
| "binary_exprType AstOr = Bin_Or"
| "binary_exprType AstDivide = Bin_Divide"
| "binary_exprType AstPlus = Bin_Add"
| "binary_exprType AstMinus = Bin_Subtract"

fun unary_exprType :: "ast_unary \<Rightarrow> UnaryExprType" where
  "unary_exprType AstNot = BooleanNegate"

text \<open>\<open>BinaryExprTraits::allowed\<close> and \<open>ValueType\<close>, in one: the type of the result of allowed operands.\<close>

definition same_operands :: "(ValueType \<Rightarrow> bool) \<Rightarrow> ValueType \<Rightarrow> ValueType \<Rightarrow> bool" where
  "same_operands p l r \<longleftrightarrow> l = r \<and> p l"

fun binary_allowed :: "BinaryExprType \<Rightarrow> ValueType \<Rightarrow> ValueType \<Rightarrow> bool" where
  "binary_allowed Bin_Equal l r = (l = Null \<or> r = Null \<or> l = r)"
| "binary_allowed Bin_NotEqual l r = (l = Null \<or> r = Null \<or> l = r)"
| "binary_allowed Bin_Less l r = same_operands Comparable l r"
| "binary_allowed Bin_Greater l r = same_operands Comparable l r"
| "binary_allowed Bin_LessEqual l r = same_operands Comparable l r"
| "binary_allowed Bin_GreaterEqual l r = same_operands Comparable l r"
| "binary_allowed Bin_And l r = (l = Boolean \<and> r = Boolean)"
| "binary_allowed Bin_Or l r = (l = Boolean \<and> r = Boolean)"
| "binary_allowed Bin_Divide l r = same_operands Dividable l r"
| "binary_allowed Bin_Add l r = same_operands Addable l r"
| "binary_allowed Bin_Subtract l r = same_operands Subtractable l r"

fun binary_type :: "BinaryExprType \<Rightarrow> ValueType \<Rightarrow> ValueType" where
  "binary_type Bin_Divide l = l"
| "binary_type Bin_Add l = l"
| "binary_type Bin_Subtract l = l"
| "binary_type _ l = Boolean"

definition binaryExprResultType :: "BinaryExprType \<Rightarrow> ValueType \<Rightarrow> ValueType \<Rightarrow> ValueType res" where
  "binaryExprResultType b l r = require (binary_allowed b l r) (Inr (binary_type b l))"

fun unaryExprResultType :: "UnaryExprType \<Rightarrow> ValueType \<Rightarrow> ValueType res" where
  "unaryExprResultType BooleanNegate t = require (t = Boolean) (Inr Boolean)"

section \<open>sql/bound: the bound trees\<close>

record BoundExprInfo =
  info_type :: ValueType
  info_level :: ExprKindLevel
  required_fields :: FieldSet

text \<open>The match of an IN is a relation; what an expression is made of does not depend on what a relation is.\<close>

datatype 'm bexpr =
    BIdentifier (bx_info: BoundExprInfo) FieldId
  | BValue (bx_info: BoundExprInfo) Value
  | BIn (bx_info: BoundExprInfo) "'m bexpr" 'm FieldId
  | BLike (bx_info: BoundExprInfo) "'m bexpr" string
  | BFnCall (bx_info: BoundExprInfo) Function "'m bexpr list"
  | BBinary (bx_info: BoundExprInfo) BinaryExprType "'m bexpr" "'m bexpr"
  | BUnary (bx_info: BoundExprInfo) UnaryExprType "'m bexpr"

datatype 'm bprojector =
    BStar
  | BIdentifierProjector FieldId
  | BExprProjector FieldId "'m bexpr"

text \<open>A SELECT has its projectors, source, LIMIT, WHERE, HAVING, ORDER BY, GROUP BY, and whether it aggregates.\<close>

datatype brelation =
    BAdhoc (fields_out: field_set) "Value list" FieldId
  | BSelect (fields_out: field_set) "brelation bprojector list" brelation "int option" "brelation bexpr option"
      "brelation bexpr option" "(brelation bexpr list \<times> bool) option" "brelation bprojector list option" bool
  | BAlias (fields_out: field_set) string brelation
  | BLeftJoin (fields_out: field_set) brelation brelation "brelation bexpr" "brelation bexpr"
  | BUnionAll (fields_out: field_set) brelation brelation
  | BUnionAllSortedBy (fields_out: field_set) brelation brelation "brelation bexpr list" bool
  | BFile (fields_out: field_set) string "TimeRange option" "TimeFormat option"
  | BStream (fields_out: field_set) string
  | BNamedReference (fields_out: field_set) string
  | BMaterialize (fields_out: field_set) brelation

abbreviation bx_type :: "'m bexpr \<Rightarrow> ValueType" where
  "bx_type e \<equiv> info_type (bx_info e)"

abbreviation bx_level :: "'m bexpr \<Rightarrow> ExprKindLevel" where
  "bx_level e \<equiv> info_level (bx_info e)"

abbreviation bx_required :: "'m bexpr \<Rightarrow> FieldSet" where
  "bx_required e \<equiv> required_fields (bx_info e)"

datatype bstatement =
    BNamedRelation string brelation
  | BQuery brelation

section \<open>common/ast/Literal.h\<close>

text \<open>\<open>std::stoll\<close>: blanks, a sign and digits, what follows is not read; without a digit it throws
  \<open>invalid_argument\<close>.\<close>

definition stoll :: "string \<Rightarrow> i64 res" where
  "stoll s0 =
     (let s1 = dropWhile is_space s0;
          sg = (case s1 of [] \<Rightarrow> False | c # _ \<Rightarrow> c = CHR ''-'' \<or> c = CHR ''+'');
          neg = (sg \<and> hd s1 = CHR ''-'');
          ds = takeWhile is_digit (if sg then tl s1 else s1);
          v = (if neg then - int (digits_val ds) else int (digits_val ds))
      in if ds = [] then Inl Thrown else if v < - (2 ^ 63) \<or> 2 ^ 63 \<le> v then Inl Out_Of_Range else Inr (word_of_int v))"

definition removeQuotes :: "string \<Rightarrow> string res" where
  "removeQuotes s = require (2 \<le> length s) (require (hd s = CHR 0x27 \<and> last s = CHR 0x27)
     (Inr (take (length s - 2) (drop 1 s))))"

fun parseLiteral :: "Literal \<Rightarrow> Value option res" where
  "parseLiteral (Literal Null s) = Inr (Some VNull)"
| "parseLiteral (Literal String s) = rbind (removeQuotes s) (\<lambda>t. Inr (Some (VString t)))"
| "parseLiteral (Literal Integer s) = rbind (stoll s) (\<lambda>i. Inr (Some (VInt i)))"
| "parseLiteral (Literal Floating s) = (case strtof s of (n, f, erange) \<Rightarrow> Inr (Some (VFloat f)))"
| "parseLiteral (Literal Boolean s) =
     (if s \<noteq> ''true'' \<and> s \<noteq> ''false'' then Inr None else Inr (Some (VBool (s = ''true''))))"

section \<open>util/json.h\<close>

fun pointer_segment :: "string \<Rightarrow> string" where
  "pointer_segment [] = []"
| "pointer_segment (c # cs) =
     (if c = CHR ''~'' then ''~0'' else if c = CHR ''/'' then ''~1'' else [c]) @ pointer_segment cs"

fun pointer_escapes :: "string \<Rightarrow> bool" where
  "pointer_escapes [] = True"
| "pointer_escapes (c # cs) =
     (if c = CHR ''~'' then (case cs of [] \<Rightarrow> False | d # _ \<Rightarrow> (d = CHR ''0'' \<or> d = CHR ''1'') \<and> pointer_escapes cs)
      else pointer_escapes cs)"

lemma length_dropWhile: "length (dropWhile p xs) \<le> length xs"
  by (induction xs) auto

lemma dropWhile_shorter: "length (dropWhile p xs) < Suc (length xs)" "length (dropWhile p xs) - Suc 0 < Suc (length xs)"
    "length (dropWhile p xs) - Suc (Suc 0) < Suc (length xs)"
  using length_dropWhile [of p xs] by auto

text \<open>The loop reads from the rest of the path; what is before it is in the pointer.\<close>

function path_segments :: "string \<Rightarrow> string \<Rightarrow> string option" where
  "path_segments [] pointer = Some pointer"
| "path_segments (c # path) pointer =
     (let (segment, rest) =
        (if c = CHR ''['' then (takeWhile is_digit path, dropWhile is_digit path)
         else (takeWhile (\<lambda>c. c \<noteq> CHR ''.'' \<and> c \<noteq> CHR ''['') (c # path), dropWhile (\<lambda>c. c \<noteq> CHR ''.'' \<and> c \<noteq> CHR ''['') (c # path)))
      in if segment = [] \<or> c = CHR ''['' \<and> (rest = [] \<or> hd rest \<noteq> CHR '']'') then None
         else let pointer = pointer @ CHR ''/'' # pointer_segment segment;
                  rest = (if c = CHR ''['' then tl rest else rest)
           in if rest = [] then Some pointer
              else if hd rest = CHR ''.'' then
                if tl rest = [] \<or> hd (tl rest) = CHR ''.'' \<or> hd (tl rest) = CHR ''['' then None else path_segments (tl rest) pointer
              else if hd rest \<noteq> CHR ''['' then None else path_segments rest pointer)"
  by pat_completeness auto

termination
  by (relation "measure (\<lambda>(path, pointer). length path)") (auto simp: dropWhile_shorter split: if_splits)

declare path_segments.simps(2) [simp del]

definition jsonPathToPointer :: "string \<Rightarrow> string option" where
  "jsonPathToPointer path = (case path of
     [] \<Rightarrow> Some []
   | c # rest \<Rightarrow>
       if c = CHR ''/'' then (if pointer_escapes path then Some path else None)
       else if c = CHR ''$'' then (case rest of
           [] \<Rightarrow> Some []
         | d # rest' \<Rightarrow> if d = CHR ''.'' then (if rest' = [] then None else path_segments rest' [])
             else if d \<noteq> CHR ''['' then None else path_segments rest [])
       else if c = CHR ''.'' then (if rest = [] then None else path_segments rest [])
       else path_segments path [])"

section \<open>common/bind/Expressions.h\<close>

definition requiredFieldsOf :: "'m bexpr list \<Rightarrow> FieldSet" where
  "requiredFieldsOf es = foldl (\<lambda>F e. fs_merge F (bx_required e)) {} es"

fun getLiteral :: "'m bexpr \<Rightarrow> Value res" where
  "getLiteral (BValue info v) = Inr v"
| "getLiteral _ = Inl Thrown"

fun composedLevel :: "ExprKindLevel \<Rightarrow> 'm bexpr list \<Rightarrow> ExprKindLevel res" where
  "composedLevel l [] = Inr l"
| "composedLevel l (e # es) = require (composable l (bx_level e))
     (rbind (composed l (bx_level e)) (\<lambda>m. composedLevel m es))"

text \<open>A call as it is bound: what is known of it, its function and the arguments it keeps.\<close>

type_synonym 'm bound_call = "BoundExprInfo \<times> Function \<times> 'm bexpr list"

definition call :: "ValueType \<Rightarrow> ExprKindLevel \<Rightarrow> FieldSet \<Rightarrow> Function \<Rightarrow> 'm bexpr list \<Rightarrow> 'm bound_call res" where
  "call t l F f es = Inr (\<lparr>info_type = t, info_level = l, required_fields = F\<rparr>, f, es)"

definition npos :: nat where
  "npos = 2 ^ 64 - 1"

definition bind_lower :: "ExprKindLevel \<Rightarrow> 'm bexpr list \<Rightarrow> 'm bound_call res" where
  "bind_lower level args = require (length args = 1) (require (bx_type (args ! 0) = String)
     (call String level (bx_required (args ! 0)) Lower_fn args))"

definition bind_splitpart :: "'m bexpr list \<Rightarrow> 'm bound_call res" where
  "bind_splitpart args =
     require (length args = 3)
    (require (bx_type (args ! 0) = String)
    (require (bx_level (args ! 1) = LevelConst)
    (require (bx_type (args ! 1) = String)
    (require (bx_level (args ! 2) = LevelConst)
    (require (bx_type (args ! 2) = Integer)
    (rbind (rbind (getLiteral (args ! 1)) get_string) (\<lambda>separator.
     require (length separator = 1)
    (rbind (rbind (getLiteral (args ! 2)) get_int) (\<lambda>index.
     require (0 \<le> sint index)
       (call String (bx_level (args ! 0)) (bx_required (args ! 0)) (SplitPart_fn (hd separator) (unat index)) [args ! 0]))))))))))"

text \<open>The length is kept in a \<open>size_t\<close>, which is never negative.\<close>

definition bind_substr :: "ExprKindLevel \<Rightarrow> 'm bexpr list \<Rightarrow> 'm bound_call res" where
  "bind_substr level args =
     require (2 \<le> length args \<and> length args \<le> 3)
    (require (bx_type (args ! 0) = String)
    (require (bx_type (args ! 1) = Integer)
    (require (length args = 3 \<longrightarrow> bx_type (args ! 2) = Integer)
    (rbind (rbind (getLiteral (args ! 1)) get_int) (\<lambda>from.
     require (0 \<le> sint from)
    (rbind (if length args = 3 then rbind (rbind (getLiteral (args ! 2)) get_int) (\<lambda>n. Inr (unat n)) else Inr npos) (\<lambda>len.
       call String level (requiredFieldsOf [args ! 0]) (Substr_fn (unat from) len) [args ! 0])))))))"

text \<open>The types other than Null, in an \<open>unordered_set\<close> of at most one.\<close>

definition bind_coalesce :: "ExprKindLevel \<Rightarrow> 'm bexpr list \<Rightarrow> 'm bound_call res" where
  "bind_coalesce level args =
     (let ts = remdups (filter (\<lambda>t. t \<noteq> Null) (map (\<lambda>e. bx_type e) args)) in
      require (length ts \<le> 1) (call (if ts = [] then Null else hd ts) level (requiredFieldsOf args) Coalesce_fn args))"

fun percentile_args :: "'m bexpr list \<Rightarrow> f32 list res" where
  "percentile_args [] = Inr []"
| "percentile_args (e # es) =
     require (bx_type e = Floating)
    (rbind (rbind (getLiteral e) get_float) (\<lambda>p.
     require ((f32_lt (F_Zero False) p \<or> f32_eq (F_Zero False) p) \<and> (f32_lt p (f32_of_int 1) \<or> f32_eq p (f32_of_int 1)))
    (rbind (percentile_args es) (\<lambda>ps. Inr (p # ps)))))"

definition bind_percentile :: "'m bexpr list \<Rightarrow> 'm bound_call res" where
  "bind_percentile args =
     require (1 < length args)
    (require (bx_level (args ! 0) \<noteq> LevelGroup)
    (require (Comparable (bx_type (args ! 0)))
    (rbind (percentile_args (tl args)) (\<lambda>ps.
       call String LevelGroup (requiredFieldsOf [args ! 0]) (Percentile_fn ps (bx_type (args ! 0))) [args ! 0]))))"

definition bind_rsubstr :: "ExprKindLevel \<Rightarrow> 'm bexpr list \<Rightarrow> 'm bound_call res" where
  "bind_rsubstr level args =
     require (length args = 2)
    (require (bx_type (args ! 0) = String)
    (require (bx_level (args ! 1) = LevelConst)
    (require (bx_type (args ! 1) = String)
    (rbind (rbind (getLiteral (args ! 1)) get_string) (\<lambda>regex.
       call String level (requiredFieldsOf [args ! 0]) (RSubstr_fn regex) [args ! 0])))))"

definition bind_json_value :: "'m bexpr list \<Rightarrow> 'm bound_call res" where
  "bind_json_value args =
     require (length args = 2)
    (require (bx_type (args ! 0) = String)
    (require (bx_level (args ! 1) = LevelConst)
    (require (bx_type (args ! 1) = String)
    (rbind (rbind (getLiteral (args ! 1)) get_string) (\<lambda>path. case jsonPathToPointer path of
       None \<Rightarrow> Inl Thrown
     | Some pointer \<Rightarrow> call String (bx_level (args ! 0)) (bx_required (args ! 0)) (JSONValue_fn pointer) [args ! 0])))))"

definition bind_count_all :: "'m bexpr list \<Rightarrow> 'm bound_call res" where
  "bind_count_all args = require (length args = 0) (call Integer LevelGroup {} CountAll_fn [])"

definition bind_count_nonnull :: "'m bexpr list \<Rightarrow> 'm bound_call res" where
  "bind_count_nonnull args = require (length args = 1) (call Integer LevelGroup (bx_required (args ! 0)) CountNonNull_fn args)"

text \<open>\<open>min\<close>, \<open>max\<close> and \<open>sum\<close> differ in the function only.\<close>

definition bind_extremum :: "(ValueType \<Rightarrow> Function) \<Rightarrow> 'm bexpr list \<Rightarrow> 'm bound_call res" where
  "bind_extremum f args =
     require (length args = 1)
    (require (bx_level (args ! 0) \<noteq> LevelGroup)
       (call (bx_type (args ! 0)) LevelGroup (bx_required (args ! 0)) (f (bx_type (args ! 0))) args))"

definition time_format_of :: "string \<Rightarrow> TimeFormat option" where
  "time_format_of s = (if s = ''SQL'' then Some SQL else if s = ''ORACLE'' then Some ORACLE else if s = ''ISO8601'' then Some ISO8601 else None)"

definition bind_parse_timestamp :: "'m bexpr list \<Rightarrow> 'm bound_call res" where
  "bind_parse_timestamp args =
     require (length args = 2)
    (require (bx_type (args ! 0) = String)
    (require (bx_level (args ! 1) = LevelConst)
    (require (bx_type (args ! 1) = String)
    (rbind (rbind (getLiteral (args ! 1)) get_string) (\<lambda>str_format. case time_format_of str_format of
       None \<Rightarrow> Inl Thrown
     | Some format \<Rightarrow> call Integer (bx_level (args ! 0)) (requiredFieldsOf [args ! 0]) (ParseTimestamp_fn format) [args ! 0])))))"

definition cast_fns :: "(string \<times> ValueType) list" where
  "cast_fns = [(''null'', Null), (''int'', Integer), (''float'', Floating), (''bool'', Boolean), (''string'', String)]"

definition bind_cast :: "ExprKindLevel \<Rightarrow> ValueType \<Rightarrow> 'm bexpr list \<Rightarrow> 'm bound_call res" where
  "bind_cast level t args = require (length args = 1) (call t level (requiredFieldsOf args) (Cast_fn t) args)"

definition bindFnCallExpr :: "string \<Rightarrow> 'm bexpr list \<Rightarrow> 'm bound_call res" where
  "bindFnCallExpr fn_name args = rbind (composedLevel LevelConst args) (\<lambda>level.
     if fn_name = ''lower'' then bind_lower level args
     else if fn_name = ''splitpart'' then bind_splitpart args
     else if fn_name = ''substr'' then bind_substr level args
     else if fn_name = ''coalesce'' then bind_coalesce level args
     else if fn_name = ''percentile'' then bind_percentile args
     else if fn_name = ''rsubstr'' then bind_rsubstr level args
     else if fn_name = ''json_value'' then bind_json_value args
     else if fn_name = ''count_all'' then bind_count_all args
     else if fn_name = ''count_nonnull'' then bind_count_nonnull args
     else if fn_name = ''min'' then bind_extremum Min_fn args
     else if fn_name = ''max'' then bind_extremum Max_fn args
     else if fn_name = ''sum'' then bind_extremum Sum_fn args
     else if fn_name = ''parse_timestamp'' then bind_parse_timestamp args
     else case map_of cast_fns fn_name of Some t \<Rightarrow> bind_cast level t args | None \<Rightarrow> Inl Thrown)"

definition bindInExpr :: "'m bexpr \<Rightarrow> BoundExprInfo res" where
  "bindInExpr arg = require (bx_level arg \<noteq> LevelGroup)
     (Inr \<lparr>info_type = Boolean, info_level = LevelRow, required_fields = bx_required arg\<rparr>)"

definition bindLikeExpr :: "'m bexpr \<Rightarrow> BoundExprInfo res" where
  "bindLikeExpr arg = require (bx_type arg = String)
     (Inr \<lparr>info_type = Boolean, info_level = bx_level arg, required_fields = bx_required arg\<rparr>)"

definition bindUnaryExpr :: "'m bexpr \<Rightarrow> ast_unary \<Rightarrow> (BoundExprInfo \<times> UnaryExprType) res" where
  "bindUnaryExpr arg tp = rbind (unaryExprResultType (unary_exprType tp) (bx_type arg)) (\<lambda>t.
     Inr (\<lparr>info_type = t, info_level = bx_level arg, required_fields = bx_required arg\<rparr>, unary_exprType tp))"

definition bindBinaryExpr :: "'m bexpr \<Rightarrow> 'm bexpr \<Rightarrow> ast_binary \<Rightarrow> (BoundExprInfo \<times> BinaryExprType) res" where
  "bindBinaryExpr l r tp =
     rbind (binaryExprResultType (binary_exprType tp) (bx_type l) (bx_type r)) (\<lambda>t.
     require (composable (bx_level l) (bx_level r))
    (rbind (composed (bx_level l) (bx_level r)) (\<lambda>level.
     Inr (\<lparr>info_type = t, info_level = level, required_fields = fs_merge (bx_required l) (bx_required r)\<rparr>, binary_exprType tp))))"

end
