(* ===== verification/Sql_Bind.thy ===== *)
theory Sql_Bind
  imports Sql_Bound Log_Op
begin

text \<open>
  src/front/sql/bind: names become field ids, expressions get types, and every relation the set of
  the fields it gives. A chain of sets says what a name may mean at a place of the query; what it
  means is asked of the set, so that a file or stream learns which fields to read. A second walk,
  post\_run.cpp, settles what depends on these sets being complete.
\<close>

section \<open>common/bind/Context.h\<close>

text \<open>The current chain is an argument: the code sets it before it binds an expression.\<close>

record bind_state = field_store +
  named_sets :: "string \<rightharpoonup> field_set"

type_synonym 'a bind = "(bind_state, 'a) act"

section \<open>bind/helpers.h\<close>

fun outputFieldsOf1 :: "brelation bprojector \<Rightarrow> FieldSet" where
  "outputFieldsOf1 BStar = {}"
| "outputFieldsOf1 (BIdentifierProjector i) = {i}"
| "outputFieldsOf1 (BExprProjector i e) = {i}"

definition outputFieldsOf :: "brelation bprojector list \<Rightarrow> FieldSet" where
  "outputFieldsOf ps = foldl (\<lambda>F p. fs_merge F (outputFieldsOf1 p)) {} ps"

text \<open>The keys of \<open>buildMap\<close>.\<close>

definition group_key_map :: "brelation bprojector list \<Rightarrow> FieldSet" where
  "group_key_map ps = \<Union> (set (map outputFieldsOf1 ps))"

section \<open>bind/Expressions.cpp, bind/Relations.cpp\<close>

definition bind_identifier :: "(FieldSet \<Rightarrow> FieldId list) \<Rightarrow> chain \<Rightarrow> string \<Rightarrow> (FieldId \<times> ValueType) bind" where
  "bind_identifier order ch n = sbind (typeOfSourceField order ch n) (\<lambda>maybe_type. case maybe_type of
     None \<Rightarrow> raise Thrown
   | Some t \<Rightarrow> sbind (get_or_add n t) (\<lambda>i. ret (i, t)))"

definition bind_literal :: "Literal \<Rightarrow> Value bind" where
  "bind_literal l = sbind (lift (parseLiteral l)) (\<lambda>v. case v of None \<Rightarrow> raise Thrown | Some v \<Rightarrow> ret v)"

fun bind_literals :: "Value list \<Rightarrow> Literal list \<Rightarrow> Value list bind" where
  "bind_literals vs [] = ret vs"
| "bind_literals vs (l # ls) = sbind (bind_literal l) (\<lambda>v.
     requires (type v = type (hd (vs @ [v]))) (bind_literals (vs @ [v]) ls))"

definition bind_adhoc :: "Literal list \<Rightarrow> brelation bind" where
  "bind_adhoc ls = sbind (bind_literals [] ls) (\<lambda>vs.
     sbind (get_or_add ''anon'' (if vs = [] then Null else type (hd vs))) (\<lambda>i. ret (BAdhoc (FixedFields {i}) vs i)))"

type_synonym bind_exprs = "chain \<Rightarrow> brelation bexpr bind"
type_synonym bind_projectors = "chain \<Rightarrow> brelation bprojector bind"

definition bind_where :: "chain \<Rightarrow> bind_exprs \<Rightarrow> brelation bexpr bind" where
  "bind_where visible condition = sbind (condition visible) (\<lambda>cond.
     requires (bx_type cond = Boolean) (requires (bx_level cond \<noteq> LevelGroup) (ret cond)))"

text \<open>What a SELECT gives: its fields, the chain its ORDER BY sees and its parts.\<close>

record select_output =
  out_fields :: field_set
  order_by_chain :: chain
  projectors :: "brelation bprojector list"
  having :: "brelation bexpr option"
  group_by :: "brelation bprojector list option"
  aggregated :: bool

fun is_star :: "brelation bprojector \<Rightarrow> bool" where
  "is_star BStar = True"
| "is_star _ = False"

fun grouped_projector_ok :: "FieldSet \<Rightarrow> brelation bprojector \<Rightarrow> bool" where
  "grouped_projector_ok keys BStar = True"
| "grouped_projector_ok keys (BIdentifierProjector i) = (i \<in> keys)"
| "grouped_projector_ok keys (BExprProjector i e) = (bx_level e = LevelRow \<longrightarrow> bx_required e \<subseteq> keys)"

definition bind_having :: "FieldSet \<Rightarrow> field_set \<Rightarrow> bind_exprs \<Rightarrow> brelation bexpr bind" where
  "bind_having allowed source condition = sbind (condition [FixedFields allowed, source]) (\<lambda>cond.
     requires (bx_type cond = Boolean)
    (requires (bx_level cond = LevelRow \<longrightarrow> bx_required cond \<subseteq> allowed) (ret cond)))"

definition bind_grouped :: "field_set \<Rightarrow> bind_projectors list \<Rightarrow> bind_projectors list \<Rightarrow> bind_exprs option \<Rightarrow> select_output bind" where
  "bind_grouped source ks ps h = sbind (smap (\<lambda>k. k [source]) ks) (\<lambda>group_key.
     requires (list_all (\<lambda>p. \<not> is_star p) group_key)
    (sbind (smap (\<lambda>p. p [FixedFields (outputFieldsOf group_key), source]) ps) (\<lambda>ps.
     requires (ps \<noteq> [])
    (requires (list_all (grouped_projector_ok (group_key_map group_key)) ps)
    (let allowed = fs_merge (outputFieldsOf ps) (outputFieldsOf group_key) in
     sbind (sopt (bind_having allowed source) h) (\<lambda>h.
     ret \<lparr>out_fields = FixedFields (outputFieldsOf ps), order_by_chain = [FixedFields allowed], projectors = ps,
          having = h, group_by = Some group_key, aggregated = True\<rparr>))))))"

fun is_group_projector :: "brelation bprojector \<Rightarrow> bool" where
  "is_group_projector (BExprProjector i e) = (bx_level e = LevelGroup)"
| "is_group_projector _ = False"

fun aggregate_projector_ok :: "brelation bprojector \<Rightarrow> bool" where
  "aggregate_projector_ok (BExprProjector i e) = (bx_level e \<noteq> LevelRow)"
| "aggregate_projector_ok _ = False"

definition bind_ungrouped :: "field_set \<Rightarrow> bind_projectors list \<Rightarrow> bind_exprs option \<Rightarrow> select_output bind" where
  "bind_ungrouped source ps h = sbind (smap (\<lambda>p. p [source]) ps) (\<lambda>ps.
     requires (ps \<noteq> [])
    (requires (h = None)
    (let fs = FixedFields (outputFieldsOf ps) in
     if list_ex is_group_projector ps then
       requires (list_all aggregate_projector_ok ps)
       (ret \<lparr>out_fields = fs, order_by_chain = [fs], projectors = ps, having = None, group_by = None, aggregated = True\<rparr>)
     else
       ret \<lparr>out_fields = (if list_ex is_star ps then CombinedFields (outputFieldsOf ps) [source] else fs),
            order_by_chain = [fs, source], projectors = ps, having = None, group_by = None, aggregated = False\<rparr>)))"

definition bind_order_by :: "chain \<Rightarrow> bind_exprs list \<times> bool \<Rightarrow> (brelation bexpr list \<times> bool) bind" where
  "bind_order_by ch ob = (case ob of (es, desc) \<Rightarrow> sbind (smap (\<lambda>e. e ch) es) (\<lambda>es.
     requires (list_all (\<lambda>e. bx_level e \<noteq> LevelGroup) es) (ret (es, desc))))"

definition bind_select :: "bind_projectors list \<Rightarrow> brelation bind \<Rightarrow> int option \<Rightarrow> bind_exprs option \<Rightarrow> bind_exprs option \<Rightarrow>
    (bind_exprs list \<times> bool) option \<Rightarrow> bind_projectors list option \<Rightarrow> brelation bind" where
  "bind_select ps r lm w h ob gb = sbind r (\<lambda>source.
     sbind (sopt (bind_where [fields_out source]) w) (\<lambda>w.
     requires (case lm of None \<Rightarrow> True | Some n \<Rightarrow> 0 \<le> n)
    (sbind (case gb of Some ks \<Rightarrow> bind_grouped (fields_out source) ks ps h | None \<Rightarrow> bind_ungrouped (fields_out source) ps h) (\<lambda>out.
     sbind (sopt (bind_order_by (order_by_chain out)) ob) (\<lambda>ob.
       ret (BSelect (out_fields out) (projectors out) source lm w (having out) ob (group_by out) (aggregated out)))))))"

definition bind_left_join :: "field_set \<Rightarrow> brelation \<Rightarrow> brelation \<Rightarrow> brelation bexpr bind \<Rightarrow> brelation bexpr bind \<Rightarrow> brelation bind" where
  "bind_left_join fs left right a b = sbind a (\<lambda>first. sbind b (\<lambda>second.
     requires (bx_level first \<noteq> LevelGroup \<and> bx_level second \<noteq> LevelGroup)
    (sbind (lift (bindBinaryExpr first second AstEqual)) (\<lambda>_. ret (BLeftJoin fs left right first second)))))"

definition bind_file :: "ext \<Rightarrow> string \<Rightarrow> (string \<times> int option) option \<Rightarrow> string option \<Rightarrow> brelation bind" where
  "bind_file X path tr format =
     sbind (sopt (\<lambda>(ts, interval). requires (\<not> isProbablyArchive path)
        (sbind (lift (timestampFromString X ts ISO8601)) (\<lambda>ts_from.
         sbind (lift (case interval of Some k \<Rightarrow> i64_of (sint ts_from + k) | None \<Rightarrow> Inr (word_of_int (2 ^ 63 - 1)))) (\<lambda>ts_to.
           ret \<lparr>range_from = ts_from, range_to = ts_to\<rparr>)))) tr) (\<lambda>r.
     sbind (sopt (\<lambda>f. case time_format_of f of None \<Rightarrow> raise Thrown | Some tf \<Rightarrow> ret tf) format) (\<lambda>tf.
     sbind new_cell (\<lambda>c. ret (BFile c path r tf))))"

fun bind_expr :: "ext \<Rightarrow> (FieldSet \<Rightarrow> FieldId list) \<Rightarrow> ast_expr \<Rightarrow> bind_exprs"
and bind_projector :: "ext \<Rightarrow> (FieldSet \<Rightarrow> FieldId list) \<Rightarrow> ast_projector \<Rightarrow> bind_projectors"
and bind_relation :: "ext \<Rightarrow> (FieldSet \<Rightarrow> FieldId list) \<Rightarrow> ast_relation \<Rightarrow> brelation bind" where
  "bind_expr X order (AstIdentifier n) ch = sbind (bind_identifier order ch n) (\<lambda>(i, t).
     ret (BIdentifier \<lparr>info_type = t, info_level = LevelRow, required_fields = {i}\<rparr> i))"
| "bind_expr X order (AstLiteral l) ch = sbind (bind_literal l) (\<lambda>v.
     ret (BValue \<lparr>info_type = type v, info_level = LevelConst, required_fields = {}\<rparr> v))"
| "bind_expr X order (AstIn e r) ch = sbind (bind_expr X order e ch) (\<lambda>e. sbind (bind_relation X order r) (\<lambda>m.
     sbind (lift (bindInExpr e)) (\<lambda>info. ret (BIn info e m UnknownFieldId))))"
| "bind_expr X order (AstLike e re) ch = sbind (bind_expr X order e ch) (\<lambda>arg.
     sbind (lift (bindLikeExpr arg)) (\<lambda>info. ret (BLike info arg re)))"
| "bind_expr X order (AstFnCall f es) ch = sbind (smap (\<lambda>e. bind_expr X order e ch) es) (\<lambda>args.
     sbind (lift (bindFnCallExpr f args)) (\<lambda>(info, func, dynamic). ret (BFnCall info func dynamic)))"
| "bind_expr X order (AstBinary b l r) ch = sbind (bind_expr X order l ch) (\<lambda>l. sbind (bind_expr X order r ch) (\<lambda>r.
     sbind (lift (bindBinaryExpr l r b)) (\<lambda>(info, t). ret (BBinary info t l r))))"
| "bind_expr X order (AstUnary u e) ch = sbind (bind_expr X order e ch) (\<lambda>arg.
     sbind (lift (bindUnaryExpr arg u)) (\<lambda>(info, t). ret (BUnary info t arg)))"
| "bind_projector X order AstStar ch = ret BStar"
| "bind_projector X order (AstIdentifierProjector n) ch = sbind (bind_identifier order ch n) (\<lambda>(i, t). ret (BIdentifierProjector i))"
| "bind_projector X order (AstExprProjector n e) ch = sbind (bind_expr X order e ch) (\<lambda>e.
     sbind (get_or_add n (bx_type e)) (\<lambda>i. ret (BExprProjector i e)))"
| "bind_relation X order (AstAdhoc ls) = bind_adhoc ls"
| "bind_relation X order (AstSelect ps r lm w h ob gb) =
     bind_select (map (\<lambda>p. bind_projector X order p) ps) (bind_relation X order r) lm
       (map_option (\<lambda>e. bind_expr X order e) w) (map_option (\<lambda>e. bind_expr X order e) h)
       (map_option (\<lambda>(es, desc). (map (\<lambda>e. bind_expr X order e) es, desc)) ob)
       (map_option (map (\<lambda>p. bind_projector X order p)) gb)"
| "bind_relation X order (AstAlias a r) = sbind (bind_relation X order r) (\<lambda>source.
     ret (BAlias (AliasFields (a @ ''.'') (fields_out source)) a source))"
| "bind_relation X order (AstLeftJoin l r c) = sbind (bind_relation X order l) (\<lambda>left. sbind (bind_relation X order r) (\<lambda>right.
     let fs = CombinedFields {} [fields_out left, fields_out right] in
     case c of
       AstBinary AstEqual a b \<Rightarrow> bind_left_join fs left right (bind_expr X order a [fs]) (bind_expr X order b [fs])
     | _ \<Rightarrow> raise Thrown))"
| "bind_relation X order (AstUnionAll l r) = sbind (bind_relation X order l) (\<lambda>left. sbind (bind_relation X order r) (\<lambda>right.
     ret (BUnionAll (CombinedFields {} [fields_out left, fields_out right]) left right)))"
| "bind_relation X order (AstUnionAllSortedBy l r es desc) = sbind (bind_relation X order l) (\<lambda>left. sbind (bind_relation X order r) (\<lambda>right.
     let fs = CombinedFields {} [fields_out left, fields_out right] in
     sbind (smap (\<lambda>e. bind_expr X order e [fs]) es) (\<lambda>order_list.
     requires (order_list \<noteq> []) (ret (BUnionAllSortedBy fs left right order_list desc)))))"
| "bind_relation X order (AstFile path tr format) = bind_file X path tr format"
| "bind_relation X order (AstStream command) = sbind new_cell (\<lambda>c. ret (BStream c command))"
| "bind_relation X order (AstNamedReference n) = sbind (gets (\<lambda>s. Inr (named_sets s n))) (\<lambda>found. case found of
     None \<Rightarrow> raise Thrown | Some fs \<Rightarrow> ret (BNamedReference fs n))"
| "bind_relation X order (AstMaterialize r) = sbind (bind_relation X order r) (\<lambda>arg. ret (BMaterialize (fields_out arg) arg))"

section \<open>bind/post\_run.cpp\<close>

definition post_in :: "(FieldSet \<Rightarrow> FieldId list) \<Rightarrow> BoundExprInfo \<Rightarrow> brelation bexpr \<Rightarrow> brelation \<Rightarrow> brelation bexpr bind" where
  "post_in order info e m = sbind (set_fields order (fields_out m)) (\<lambda>match_fields.
     requires (card match_fields = 1)
    (sbind (type_of (hd (order match_fields))) (\<lambda>t.
     requires (bx_type e = t) (ret (BIn info e m (hd (order match_fields)))))))"

text \<open>The name of a field is read for the message before the check.\<close>

definition overlap_check :: "FieldSet \<Rightarrow> FieldId \<Rightarrow> unit bind" where
  "overlap_check right_fields i = sbind (name_of i) (\<lambda>n. requires (i \<notin> right_fields) (ret ()))"

definition post_left_join :: "(FieldSet \<Rightarrow> FieldId list) \<Rightarrow> field_set \<Rightarrow> brelation \<Rightarrow> brelation \<Rightarrow> brelation bexpr \<Rightarrow> brelation bexpr \<Rightarrow> brelation bind" where
  "post_left_join order fs l r lk rk = sbind (set_fields order (fields_out l)) (\<lambda>left_fields.
     sbind (set_fields order (fields_out r)) (\<lambda>right_fields.
     sbind (smap (overlap_check right_fields) (order left_fields)) (\<lambda>_.
     let forward = (bx_required lk \<subseteq> left_fields \<and> bx_required rk \<subseteq> right_fields);
         reverse = (bx_required rk \<subseteq> left_fields \<and> bx_required lk \<subseteq> right_fields)
     in requires (forward \<or> reverse) (ret (if forward then BLeftJoin fs l r lk rk else BLeftJoin fs l r rk lk)))))"

text \<open>In an expression that is walked, the match of an IN is the walk over it.\<close>

fun post_expr :: "(FieldSet \<Rightarrow> FieldId list) \<Rightarrow> brelation bind bexpr \<Rightarrow> brelation bexpr bind" where
  "post_expr order (BIdentifier info i) = ret (BIdentifier info i)"
| "post_expr order (BValue info v) = ret (BValue info v)"
| "post_expr order (BIn info e m i) = sbind (post_expr order e) (\<lambda>e. sbind m (\<lambda>m. post_in order info e m))"
| "post_expr order (BLike info e re) = sbind (post_expr order e) (\<lambda>e. ret (BLike info e re))"
| "post_expr order (BFnCall info f es) = sbind (smap (\<lambda>e. post_expr order e) es) (\<lambda>es. ret (BFnCall info f es))"
| "post_expr order (BBinary info t l r) = sbind (post_expr order l) (\<lambda>l. sbind (post_expr order r) (\<lambda>r. ret (BBinary info t l r)))"
| "post_expr order (BUnary info t e) = sbind (post_expr order e) (\<lambda>e. ret (BUnary info t e))"

fun post_projector :: "(FieldSet \<Rightarrow> FieldId list) \<Rightarrow> brelation bind bprojector \<Rightarrow> brelation bprojector bind" where
  "post_projector order BStar = ret BStar"
| "post_projector order (BIdentifierProjector i) = ret (BIdentifierProjector i)"
| "post_projector order (BExprProjector i e) = sbind (post_expr order e) (\<lambda>e. ret (BExprProjector i e))"

definition post_order_by :: "(FieldSet \<Rightarrow> FieldId list) \<Rightarrow> brelation bind bexpr list \<times> bool \<Rightarrow> (brelation bexpr list \<times> bool) bind" where
  "post_order_by order ob = (case ob of (es, desc) \<Rightarrow> sbind (smap (post_expr order) es) (\<lambda>es. ret (es, desc)))"

primrec post_relation :: "(FieldSet \<Rightarrow> FieldId list) \<Rightarrow> brelation \<Rightarrow> brelation bind" where
  "post_relation order (BAdhoc fs vs i) = ret (BAdhoc fs vs i)"
| "post_relation order (BSelect fs ps r lm w h ob gb agg) =
     sbind (smap (post_projector order) (map (map_bprojector (post_relation order)) ps)) (\<lambda>ps.
     sbind (post_relation order r) (\<lambda>r.
     sbind (sopt (post_expr order) (map_option (map_bexpr (post_relation order)) w)) (\<lambda>w.
     sbind (sopt (post_expr order) (map_option (map_bexpr (post_relation order)) h)) (\<lambda>h.
     sbind (sopt (post_order_by order) (map_option (map_prod (map (map_bexpr (post_relation order))) id) ob)) (\<lambda>ob.
     sbind (sopt (smap (post_projector order)) (map_option (map (map_bprojector (post_relation order))) gb)) (\<lambda>gb.
       ret (BSelect fs ps r lm w h ob gb agg)))))))"
| "post_relation order (BAlias fs a r) = sbind (post_relation order r) (\<lambda>r. ret (BAlias fs a r))"
| "post_relation order (BLeftJoin fs l r lk rk) = sbind (post_relation order l) (\<lambda>l. sbind (post_relation order r) (\<lambda>r.
     sbind (post_expr order (map_bexpr (post_relation order) lk)) (\<lambda>lk.
     sbind (post_expr order (map_bexpr (post_relation order) rk)) (\<lambda>rk. post_left_join order fs l r lk rk))))"
| "post_relation order (BUnionAll fs l r) = sbind (post_relation order l) (\<lambda>l. sbind (post_relation order r) (\<lambda>r.
     ret (BUnionAll fs l r)))"
| "post_relation order (BUnionAllSortedBy fs l r es desc) = sbind (post_relation order l) (\<lambda>l. sbind (post_relation order r) (\<lambda>r.
     sbind (smap (post_expr order) (map (map_bexpr (post_relation order)) es)) (\<lambda>es. ret (BUnionAllSortedBy fs l r es desc))))"
| "post_relation order (BFile fs path tr tf) = ret (BFile fs path tr tf)"
| "post_relation order (BStream fs command) = ret (BStream fs command)"
| "post_relation order (BNamedReference fs n) = ret (BNamedReference fs n)"
| "post_relation order (BMaterialize fs r) = sbind (post_relation order r) (\<lambda>r. ret (BMaterialize fs r))"

fun post_statement :: "(FieldSet \<Rightarrow> FieldId list) \<Rightarrow> bstatement \<Rightarrow> bstatement bind" where
  "post_statement order (BNamedRelation n r) = sbind (post_relation order r) (\<lambda>r. ret (BNamedRelation n r))"
| "post_statement order (BQuery r) = sbind (post_relation order r) (\<lambda>r. ret (BQuery r))"

section \<open>bind/Statements.cpp, bind/bind.cpp\<close>

definition insert_named :: "string \<Rightarrow> field_set \<Rightarrow> bool bind" where
  "insert_named n fs s = (if named_sets s n \<noteq> None then Inr (False, s)
     else Inr (True, s\<lparr>named_sets := (named_sets s)(n \<mapsto> fs)\<rparr>))"

fun bind_statement :: "ext \<Rightarrow> (FieldSet \<Rightarrow> FieldId list) \<Rightarrow> ast_statement \<Rightarrow> bstatement bind" where
  "bind_statement X order (AstMacroDefinition n ps body) = raise Thrown"
| "bind_statement X order (AstQuery r) = sbind (bind_relation X order r) (\<lambda>r. ret (BQuery r))"
| "bind_statement X order (AstNamedRelation n r) = sbind (bind_relation X order r) (\<lambda>r.
     sbind (insert_named n (fields_out r)) (\<lambda>inserted. requires inserted (ret (BNamedRelation n r))))"

definition empty_state :: bind_state where
  "empty_state = \<lparr>binding = emptyBinding, cells = [], named_sets = Map.empty\<rparr>"

text \<open>A bound program is its statements and the store their ids and sets are in.\<close>

definition bind_program :: "ext \<Rightarrow> (FieldSet \<Rightarrow> FieldId list) \<Rightarrow> ast_program \<Rightarrow> (bstatement list \<times> bind_state) res" where
  "bind_program X order p = rbind (expandMacros p) (\<lambda>p.
     sbind (smap (bind_statement X order) p) (\<lambda>ss. smap (post_statement order) ss) empty_state)"

end
