(* ===== verification/Sql_Lower.thy ===== *)
theory Sql_Lower
  imports Sql_Bind Optimize
begin

text \<open>
  src/front/sql/lower: a bound program becomes IR. The relation that is being built is a part of the
  context: an IN in one of its expressions puts a mark join on top of it.
\<close>

section \<open>lower/Context.h\<close>

record lower_state = field_store +
  curr_relation :: "Relation option"
  named_relations :: "string \<rightharpoonup> Schema"

type_synonym 'a lower = "(lower_state, 'a) act"

definition currRelation :: "Relation lower" where
  "currRelation = gets (\<lambda>s. case curr_relation s of None \<Rightarrow> Inl Panic | Some r \<Rightarrow> Inr r)"

definition pullRelation :: "Relation lower" where
  "pullRelation s = (case curr_relation s of None \<Rightarrow> Inl Panic | Some r \<Rightarrow> Inr (r, s\<lparr>curr_relation := None\<rparr>))"

definition setRelation :: "Relation \<Rightarrow> unit lower" where
  "setRelation r s = verify (curr_relation s = None) (Inr ((), s\<lparr>curr_relation := Some r\<rparr>))"

text \<open>\<open>scopedRelation\<close>: the old relation is back when the scope ends.\<close>

definition scopedRelation :: "Relation \<Rightarrow> 'a lower \<Rightarrow> 'a lower" where
  "scopedRelation r m s = rbind (m (s\<lparr>curr_relation := Some r\<rparr>)) (\<lambda>(x, t). Inr (x, t\<lparr>curr_relation := curr_relation s\<rparr>))"

definition insert_relation :: "string \<Rightarrow> Schema \<Rightarrow> unit lower" where
  "insert_relation n sch s = require (named_relations s n = None) (Inr ((), s\<lparr>named_relations := (named_relations s)(n \<mapsto> sch)\<rparr>))"

definition find_relation :: "string \<Rightarrow> Schema lower" where
  "find_relation n = gets (\<lambda>s. case named_relations s n of None \<Rightarrow> Inl Thrown | Some sch \<Rightarrow> Inr sch)"

section \<open>common/lower/Functions.h\<close>

fun binary_function :: "BinaryExprType \<Rightarrow> ValueType \<Rightarrow> Function" where
  "binary_function Bin_Equal t = Equal_fn"
| "binary_function Bin_NotEqual t = NotEqual_fn"
| "binary_function Bin_Less t = Less_fn t"
| "binary_function Bin_Greater t = Greater_fn t"
| "binary_function Bin_LessEqual t = LessEqual_fn t"
| "binary_function Bin_GreaterEqual t = GreaterEqual_fn t"
| "binary_function Bin_And t = And_fn"
| "binary_function Bin_Or t = Or_fn"
| "binary_function Bin_Divide t = Divide_fn t"
| "binary_function Bin_Add t = Add_fn t"
| "binary_function Bin_Subtract t = Subtract_fn t"

fun unary_function :: "UnaryExprType \<Rightarrow> Function" where
  "unary_function BooleanNegate = BooleanNegate_fn"

section \<open>lower/Expressions.cpp\<close>

text \<open>In an expression that is lowered, the match of an IN is its lowering. The set of the fields
  that can be read, the context's current one, is an argument.\<close>

type_synonym lower_expr = "Relation lower bexpr"

definition lower_call :: "BoundExprInfo \<Rightarrow> Function \<Rightarrow> Scalar list \<Rightarrow> Aggregate list \<Rightarrow> (Scalar \<times> Aggregate list) lower" where
  "lower_call info f scalars aggs = verifies (aggs = [])
     (if isScalar f then ret (FnCallScalar f scalars (info_type info), [])
      else sbind (add_anonymous ''fn_call_aggr'' (info_type info)) (\<lambda>i.
        ret (FieldScalar i (info_type info),
             [\<lparr>agg_node = FnCallAggregate f scalars, output_field_id = i, agg_type = info_type info\<rparr>])))"

definition mark_join :: "FieldId \<Rightarrow> Scalar \<Rightarrow> Relation \<Rightarrow> FieldId \<Rightarrow> (Scalar \<times> Aggregate list) lower" where
  "mark_join out key m match_field = sbind pullRelation (\<lambda>source.
     sbind (lift (append_field (rel_schema source) out)) (\<lambda>sch.
     sbind (setRelation (MarkJoinRelation source m key out match_field sch)) (\<lambda>_.
       ret (FieldScalar out Boolean, []))))"

fun lower_expr :: "FieldSet \<Rightarrow> lower_expr \<Rightarrow> (Scalar \<times> Aggregate list) lower" where
  "lower_expr F (BIdentifier info i) = verifies (i \<in> F) (ret (FieldScalar i (info_type info), []))"
| "lower_expr F (BValue info v) = ret (ValueScalar v (info_type info), [])"
| "lower_expr F (BFnCall info f es) = sbind (smap (\<lambda>e. lower_expr F e) es) (\<lambda>args.
     lower_call info f (map fst args) (concat (map snd args)))"
| "lower_expr F (BIn info e m match_field) = sbind (add_anonymous ''mark_join'' Boolean) (\<lambda>out.
     sbind (lower_expr F e) (\<lambda>(key, aggs). verifies (aggs = []) (sbind m (\<lambda>m. mark_join out key m match_field))))"
| "lower_expr F (BLike info e re) = sbind (lower_expr F e) (\<lambda>(arg, aggs).
     ret (FnCallScalar (Like_fn re) [arg] (info_type info), aggs))"
| "lower_expr F (BBinary info t l r) = sbind (lower_expr F l) (\<lambda>(left, al). sbind (lower_expr F r) (\<lambda>(right, ar).
     ret (FnCallScalar (binary_function t (value_type left)) [left, right] (info_type info), al @ ar)))"
| "lower_expr F (BUnary info t e) = sbind (lower_expr F e) (\<lambda>(arg, aggs).
     ret (FnCallScalar (unary_function t) [arg] (info_type info), aggs))"

definition lower_exprs :: "FieldSet \<Rightarrow> lower_expr list \<Rightarrow> (Scalar list \<times> Aggregate list) lower" where
  "lower_exprs F es = sbind (smap (lower_expr F) es) (\<lambda>rs. ret (map fst rs, concat (map snd rs)))"

text \<open>\<open>extractAggregates\<close>: aggregate calls are lowered, fields take their places.\<close>

definition set_extracted :: "BoundExprInfo \<Rightarrow> FieldSet \<Rightarrow> BoundExprInfo" where
  "set_extracted info F = info\<lparr>required_fields := F,
     info_level := (if info_level info = LevelGroup then LevelRow else info_level info)\<rparr>"

definition extract_call :: "FieldSet \<Rightarrow> lower_expr \<Rightarrow> (Aggregate list \<times> lower_expr) lower" where
  "extract_call F e = sbind (lower_expr F e) (\<lambda>(scalar, aggs). case scalar of
     FieldScalar i t \<Rightarrow> ret (aggs, BIdentifier \<lparr>info_type = t, info_level = LevelRow, required_fields = {i}\<rparr> i)
   | _ \<Rightarrow> raise Bad_Variant)"

fun extractAggregates :: "FieldSet \<Rightarrow> lower_expr \<Rightarrow> (Aggregate list \<times> lower_expr) lower" where
  "extractAggregates F (BIdentifier info i) = ret ([], BIdentifier (set_extracted info {i}) i)"
| "extractAggregates F (BValue info v) = ret ([], BValue (set_extracted info {}) v)"
| "extractAggregates F (BFnCall info f es) = (if \<not> isScalar f then extract_call F (BFnCall info f es)
     else sbind (smap (\<lambda>e. extractAggregates F e) es) (\<lambda>rs.
       ret (concat (map fst rs), BFnCall (set_extracted info (requiredFieldsOf (map snd rs))) f (map snd rs))))"
| "extractAggregates F (BBinary info t l r) = sbind (extractAggregates F l) (\<lambda>(al, l). sbind (extractAggregates F r) (\<lambda>(ar, r).
     ret (al @ ar, BBinary (set_extracted info (requiredFieldsOf [l, r])) t l r)))"
| "extractAggregates F (BIn info e m i) = sbind (extractAggregates F e) (\<lambda>(aggs, e).
     ret (aggs, BIn (set_extracted info (requiredFieldsOf [e])) e m i))"
| "extractAggregates F (BLike info e re) = sbind (extractAggregates F e) (\<lambda>(aggs, e).
     ret (aggs, BLike (set_extracted info (requiredFieldsOf [e])) e re))"
| "extractAggregates F (BUnary info t e) = sbind (extractAggregates F e) (\<lambda>(aggs, e).
     ret (aggs, BUnary (set_extracted info (requiredFieldsOf [e])) t e))"

section \<open>lower/Relations.cpp\<close>

type_synonym lower_projector = "Relation lower bprojector"

text \<open>A projector that hands a field on.\<close>

definition field_projector :: "FieldId \<Rightarrow> Projector lower" where
  "field_projector i = sbind (type_of i) (\<lambda>t. ret \<lparr>alias_field_id = i, expr = FieldScalar i t\<rparr>)"

fun lower_projector :: "(FieldSet \<Rightarrow> FieldId list) \<Rightarrow> FieldSet \<Rightarrow> FieldSet \<Rightarrow> lower_projector \<Rightarrow> (Projector list \<times> Aggregate list) lower" where
  "lower_projector order star_fields F BStar = sbind (smap field_projector (order star_fields)) (\<lambda>ps. ret (ps, []))"
| "lower_projector order star_fields F (BIdentifierProjector i) = sbind (field_projector i) (\<lambda>p. ret ([p], []))"
| "lower_projector order star_fields F (BExprProjector i e) = sbind (lower_expr F e) (\<lambda>(sc, aggs).
     ret ([\<lparr>alias_field_id = i, expr = sc\<rparr>], aggs))"

definition lower_projectors :: "(FieldSet \<Rightarrow> FieldId list) \<Rightarrow> FieldSet \<Rightarrow> FieldSet \<Rightarrow> lower_projector list \<Rightarrow> (Projector list \<times> Aggregate list) lower" where
  "lower_projectors order star_fields F ps = sbind (smap (lower_projector order star_fields F) ps) (\<lambda>rs.
     ret (concat (map fst rs), concat (map snd rs)))"

definition identityProjectorsFor :: "Projector list \<Rightarrow> Projector list lower" where
  "identityProjectorsFor ps = smap (\<lambda>p. field_projector (alias_field_id p)) ps"

fun add_field_scalars :: "FieldId list \<Rightarrow> Schema \<Rightarrow> Projector list \<Rightarrow> Projector list lower" where
  "add_field_scalars [] sch ps = ret ps"
| "add_field_scalars (i # is) sch ps = (if contains sch i then add_field_scalars is sch ps
     else sbind (lift (append_field sch i)) (\<lambda>sch. sbind (field_projector i) (\<lambda>p. add_field_scalars is sch (ps @ [p]))))"

definition addAllAsFieldScalars :: "(FieldSet \<Rightarrow> FieldId list) \<Rightarrow> FieldSet \<Rightarrow> Projector list \<Rightarrow> Projector list lower" where
  "addAllAsFieldScalars order from_fields ps = sbind (lift (schemaFor_projectors ps)) (\<lambda>sch. add_field_scalars (order from_fields) sch ps)"

definition setProjection :: "Projector list \<Rightarrow> unit lower" where
  "setProjection ps = sbind (lift (schemaFor_projectors ps)) (\<lambda>sch. sbind pullRelation (\<lambda>source.
     setRelation (ProjectionRelation source ps sch)))"

definition current_fields :: "FieldSet lower" where
  "current_fields = sbind currRelation (\<lambda>r. lift (fieldSet (rel_schema r)))"

fun lower_condition :: "Schema \<Rightarrow> FieldSet \<Rightarrow> lower_expr \<Rightarrow> unit lower" where
  "lower_condition sch F (BIn info e m match_field) = sbind m (\<lambda>m. verifies (contains (rel_schema m) match_field)
     (sbind (lower_expr F e) (\<lambda>(key, aggs). verifies (aggs = []) (sbind pullRelation (\<lambda>source.
        setRelation (SemiJoinRelation source m key match_field sch))))))"
| "lower_condition sch F condition = sbind (lower_expr F condition) (\<lambda>(c, aggs). verifies (aggs = []) (sbind pullRelation (\<lambda>source.
     setRelation (FilterRelation source c sch))))"

definition lowerWhere :: "lower_expr \<Rightarrow> unit lower" where
  "lowerWhere condition = sbind currRelation (\<lambda>r. sbind (lift (fieldSet (rel_schema r))) (\<lambda>F.
     lower_condition (rel_schema r) F condition))"

definition prepareGroupKeys :: "(FieldSet \<Rightarrow> FieldId list) \<Rightarrow> lower_projector list \<Rightarrow> Projector list lower" where
  "prepareGroupKeys order ks = sbind current_fields (\<lambda>F. sbind (lower_projectors order F F ks) (\<lambda>(keys, aggs).
     verifies (aggs = []) (sbind (identityProjectorsFor keys) (\<lambda>group_keys.
     sbind current_fields (\<lambda>G. sbind (addAllAsFieldScalars order G keys) (\<lambda>keys. sbind (setProjection keys) (\<lambda>_.
       ret group_keys)))))))"

definition lower_sort :: "lower_expr list \<times> bool \<Rightarrow> unit lower" where
  "lower_sort ob = (case ob of (es, desc) \<Rightarrow> sbind current_fields (\<lambda>F. sbind (lower_exprs F es) (\<lambda>(order_list, aggs).
     verifies (aggs = []) (sbind pullRelation (\<lambda>source. setRelation (SortRelation source order_list desc (rel_schema source)))))))"

definition option_required :: "lower_expr option \<Rightarrow> (lower_expr list \<times> bool) option \<Rightarrow> FieldSet" where
  "option_required h ob = fs_merge (case h of None \<Rightarrow> {} | Some e \<Rightarrow> bx_required e)
     (case ob of None \<Rightarrow> {} | Some (es, desc) \<Rightarrow> requiredFieldsOf es)"

definition lowerSelectOutput :: "(FieldSet \<Rightarrow> FieldId list) \<Rightarrow> Projector list \<Rightarrow> lower_expr option \<Rightarrow> (lower_expr list \<times> bool) option \<Rightarrow> unit lower" where
  "lowerSelectOutput order ps h ob = sbind (identityProjectorsFor ps) (\<lambda>final_projectors.
     sbind (addAllAsFieldScalars order (option_required h ob) ps) (\<lambda>ps.
     sbind (setProjection ps) (\<lambda>_.
     sbind (sopt lowerWhere h) (\<lambda>_.
     sbind (sopt lower_sort ob) (\<lambda>_.
       if h \<noteq> None \<or> ob \<noteq> None then setProjection final_projectors else ret ())))))"

definition extract_having :: "FieldSet \<Rightarrow> lower_expr option \<Rightarrow> (Aggregate list \<times> lower_expr option) lower" where
  "extract_having F h = (case h of None \<Rightarrow> ret ([], None)
     | Some e \<Rightarrow> sbind (extractAggregates F e) (\<lambda>(aggs, e). ret (aggs, Some e)))"

definition lowerGroupedSelect :: "(FieldSet \<Rightarrow> FieldId list) \<Rightarrow> lower_projector list \<Rightarrow> lower_projector list \<Rightarrow> lower_expr option \<Rightarrow>
    (lower_expr list \<times> bool) option \<Rightarrow> unit lower" where
  "lowerGroupedSelect order ks ps h ob = sbind (prepareGroupKeys order ks) (\<lambda>group_keys.
     sbind (lift (schemaFor_projectors group_keys)) (\<lambda>group_schema.
     sbind current_fields (\<lambda>F.
     sbind (lift (fieldSet group_schema)) (\<lambda>star_fields.
     sbind (lower_projectors order star_fields F ps) (\<lambda>(ps, aggs).
     sbind (extract_having F h) (\<lambda>(having_aggs, h).
     sbind (lift (schemaFor_aggregates (aggs @ having_aggs))) (\<lambda>agg_schema.
     sbind (lift (concat_schema agg_schema group_schema)) (\<lambda>sch.
     sbind pullRelation (\<lambda>source.
     sbind (setRelation (GroupRelation source (aggs @ having_aggs) group_keys sch)) (\<lambda>_.
       lowerSelectOutput order ps h ob))))))))))"

definition lowerUngroupedSelect :: "(FieldSet \<Rightarrow> FieldId list) \<Rightarrow> lower_projector list \<Rightarrow> (lower_expr list \<times> bool) option \<Rightarrow> bool \<Rightarrow>
    FieldSet \<Rightarrow> unit lower" where
  "lowerUngroupedSelect order ps ob is_aggregate source_fields = sbind current_fields (\<lambda>F.
     sbind (lower_projectors order source_fields F ps) (\<lambda>(ps, aggs).
     sbind (if is_aggregate then verifies (ob = None) (verifies (aggs \<noteq> [])
         (sbind (lift (schemaFor_aggregates aggs)) (\<lambda>sch. sbind pullRelation (\<lambda>source.
            setRelation (AggregateRelation source aggs sch)))))
       else verifies (aggs = []) (ret ())) (\<lambda>_.
     lowerSelectOutput order ps None ob)))"

definition lower_limit :: "int \<Rightarrow> unit lower" where
  "lower_limit n = sbind pullRelation (\<lambda>source. setRelation (LimitRelation source n (rel_schema source)))"

definition lower_select :: "(FieldSet \<Rightarrow> FieldId list) \<Rightarrow> lower_projector list \<Rightarrow> Relation lower \<Rightarrow> int option \<Rightarrow> lower_expr option \<Rightarrow>
    lower_expr option \<Rightarrow> (lower_expr list \<times> bool) option \<Rightarrow> lower_projector list option \<Rightarrow> bool \<Rightarrow> Relation lower" where
  "lower_select order ps r lm w h ob gb is_aggregate = sbind r (\<lambda>source. scopedRelation source (
     sbind current_fields (\<lambda>source_fields.
     sbind (sopt lowerWhere w) (\<lambda>_.
     sbind (case gb of Some ks \<Rightarrow> lowerGroupedSelect order ks ps h ob
            | None \<Rightarrow> lowerUngroupedSelect order ps ob is_aggregate source_fields) (\<lambda>_.
     sbind (sopt lower_limit lm) (\<lambda>_. pullRelation))))))"

definition alias_projector :: "string \<Rightarrow> FieldId \<Rightarrow> Projector lower" where
  "alias_projector a i = sbind (name_of i) (\<lambda>n. sbind (type_of i) (\<lambda>t. sbind (get_or_add (a @ ''.'' @ n) t) (\<lambda>j.
     ret \<lparr>alias_field_id = j, expr = FieldScalar i t\<rparr>)))"

definition lower_alias :: "string \<Rightarrow> Relation \<Rightarrow> Relation lower" where
  "lower_alias a source = sbind (lift (fieldIds (rel_schema source))) (\<lambda>is. sbind (smap (alias_projector a) is) (\<lambda>ps.
     sbind (lift (schemaFor_projectors ps)) (\<lambda>sch. ret (ProjectionRelation source ps sch))))"

definition lower_input :: "Relation lower \<Rightarrow> lower_expr \<Rightarrow> (Relation \<times> Scalar \<times> Schema) lower" where
  "lower_input r e = sbind r (\<lambda>source. scopedRelation source (sbind current_fields (\<lambda>F.
     sbind (lower_expr F e) (\<lambda>(key, aggs). verifies (aggs = []) (sbind pullRelation (\<lambda>r. ret (r, key, rel_schema source)))))))"

definition lower_left_join :: "Relation \<times> Scalar \<times> Schema \<Rightarrow> Relation \<times> Scalar \<times> Schema \<Rightarrow> Relation lower" where
  "lower_left_join l r = (case (l, r) of ((left, left_key, left_output), (right, right_key, right_output)) \<Rightarrow>
     sbind (lift (concat_schema (rel_schema left) (rel_schema right))) (\<lambda>sch.
     sbind (lift (concat_schema left_output right_output)) (\<lambda>output_schema.
     let joined = LeftJoinRelation left right left_key right_key sch in
     if schema_eq sch output_schema then ret joined
     else sbind (lift (fieldIds output_schema)) (\<lambda>is. sbind (smap field_projector is) (\<lambda>ps.
       ret (ProjectionRelation joined ps output_schema))))))"

definition lower_log :: "(FieldSet \<Rightarrow> FieldId list) \<Rightarrow> field_set \<Rightarrow> (Schema \<Rightarrow> Relation) \<Rightarrow> Relation lower" where
  "lower_log order fs r = sbind (set_fields order fs) (\<lambda>F. sbind (lift (fromFieldSet order F)) (\<lambda>sch. ret (r sch)))"

primrec lower_relation :: "(FieldSet \<Rightarrow> FieldId list) \<Rightarrow> brelation \<Rightarrow> Relation lower" where
  "lower_relation order (BAdhoc fs vs i) = sbind (lift (append_field emptySchema i)) (\<lambda>sch. ret (ValuesRelation vs i sch))"
| "lower_relation order (BSelect fs ps r lm w h ob gb agg) =
     lower_select order (map (map_bprojector (lower_relation order)) ps) (lower_relation order r) lm
       (map_option (map_bexpr (lower_relation order)) w) (map_option (map_bexpr (lower_relation order)) h)
       (map_option (map_prod (map (map_bexpr (lower_relation order))) id) ob)
       (map_option (map (map_bprojector (lower_relation order))) gb) agg"
| "lower_relation order (BAlias fs a r) = sbind (lower_relation order r) (lower_alias a)"
| "lower_relation order (BLeftJoin fs l r lk rk) =
     sbind (lower_input (lower_relation order l) (map_bexpr (lower_relation order) lk)) (\<lambda>left.
     sbind (lower_input (lower_relation order r) (map_bexpr (lower_relation order) rk)) (\<lambda>right.
       lower_left_join left right))"
| "lower_relation order (BUnionAll fs l r) = sbind (lower_relation order l) (\<lambda>left. sbind (lower_relation order r) (\<lambda>right.
     verifies (schema_eq (rel_schema left) (rel_schema right)) (ret (UnionAllRelation [left, right] (rel_schema left)))))"
| "lower_relation order (BUnionAllSortedBy fs l r es desc) =
     sbind (lower_relation order l) (\<lambda>left. sbind (lower_relation order r) (\<lambda>right.
     verifies (schema_eq (rel_schema left) (rel_schema right))
    (sbind (lift (fieldSet (rel_schema left))) (\<lambda>F.
     sbind (lower_exprs F (map (map_bexpr (lower_relation order)) es)) (\<lambda>(order_list, aggs).
     verifies (aggs = []) (ret (UnionAllSortedByRelation left right order_list desc (rel_schema left))))))))"
| "lower_relation order (BFile fs path tr tf) = lower_log order fs (FileRelation path tr tf)"
| "lower_relation order (BStream fs command) = lower_log order fs (StreamRelation command)"
| "lower_relation order (BNamedReference fs n) = sbind (find_relation n) (\<lambda>sch. ret (NamedRelationReferenceRelation n sch))"
| "lower_relation order (BMaterialize fs r) = sbind (lower_relation order r) (\<lambda>arg. ret (MaterializeRelation arg (rel_schema arg)))"

section \<open>lower/Statements.cpp, lower/lower.cpp\<close>

fun lower_statement :: "(FieldSet \<Rightarrow> FieldId list) \<Rightarrow> bstatement \<Rightarrow> Statement lower" where
  "lower_statement order (BQuery r) = sbind (lower_relation order r) (\<lambda>r. ret (QueryStatement r))"
| "lower_statement order (BNamedRelation n r) = sbind (lower_relation order r) (\<lambda>r.
     sbind (insert_relation n (rel_schema r)) (\<lambda>_. ret (NamedRelationStatement n r)))"

definition lower_program :: "(FieldSet \<Rightarrow> FieldId list) \<Rightarrow> bstatement list \<times> bind_state \<Rightarrow> (Statement list \<times> FieldBinding) res" where
  "lower_program order bp = (case bp of (ss, b) \<Rightarrow>
     rbind (smap (lower_statement order) ss
       \<lparr>binding = binding b, cells = cells b, curr_relation = None, named_relations = Map.empty\<rparr>) (\<lambda>(ss, s). Inr (ss, binding s)))"

end
