(* ===== verification/Sql_Typing.thy ===== *)
theory Sql_Typing
  imports Sql_Lower
begin

text \<open>
  What the binder establishes: expressions have the types of their functions, aggregate calls stand
  where the level says, and a field that is read is one the source gives.
\<close>

section \<open>Growing actions\<close>

definition growing :: "('x field_store_scheme, 'a) act \<Rightarrow> bool" where
  "growing m \<longleftrightarrow> (\<forall>s. acts m s (\<lambda>_ _. True))"

named_theorems grow \<open>actions that only extend the store\<close>

lemma growing_acts: "(\<And>s. acts m s (P s)) \<Longrightarrow> growing m"
  unfolding growing_def by (blast intro: acts_weaken)

lemma growing_basic [grow]:
  "growing (ret x)" "growing (raise e)" "growing (lift r)" "growing (gets g)"
  by (simp_all add: growing_def)

lemma growing_sbind [grow]: "growing m \<Longrightarrow> (\<And>x. growing (f x)) \<Longrightarrow> growing (sbind m f)"
  unfolding growing_def by (intro allI acts_bind [where P = "\<lambda>_ _. True"]) auto

lemma growing_smap [grow]: "(\<And>x. x \<in> set xs \<Longrightarrow> growing (f x)) \<Longrightarrow> growing (smap f xs)"
  by (induction xs) (auto intro!: grow)

lemma growing_sopt [grow]: "(\<And>x. xo = Some x \<Longrightarrow> growing (f x)) \<Longrightarrow> growing (sopt f xo)"
  by (cases xo) (auto intro!: grow)

lemma growing_if [grow]: "(b \<Longrightarrow> growing m) \<Longrightarrow> (\<not> b \<Longrightarrow> growing n) \<Longrightarrow> growing (if b then m else n)"
  by simp

lemma growing_option [grow]: "(xo = None \<Longrightarrow> growing m) \<Longrightarrow> (\<And>x. xo = Some x \<Longrightarrow> growing (f x)) \<Longrightarrow>
    growing (case xo of None \<Rightarrow> m | Some x \<Rightarrow> f x)"
  by (cases xo) auto

lemma growing_prod [grow]: "(\<And>x y. p = (x, y) \<Longrightarrow> growing (f x y)) \<Longrightarrow> growing (case p of (x, y) \<Rightarrow> f x y)"
  by (cases p) auto

lemma growing_store [grow]:
  "growing (get_or_add n t)" "growing (add_anonymous n t)" "growing new_cell"
  "growing (set_fields order r)" "growing (typeOfSourceField order rs n)"
  by (rule growing_acts, rule acts_get_or_add, rule growing_acts, rule acts_add_anonymous, rule growing_acts,
      rule acts_new_cell, rule growing_acts, rule acts_set_fields, rule growing_acts, rule acts_typeOfSourceField)

lemma actsI: "growing m \<Longrightarrow> (\<And>x t. below s t \<Longrightarrow> room s \<Longrightarrow> store_wf s \<Longrightarrow> room t \<Longrightarrow> store_wf t \<Longrightarrow> m s = Inr (x, t) \<Longrightarrow> Q x t) \<Longrightarrow> acts m s Q"
  unfolding growing_def acts_def post_def by (meson below_room below_wf)

lemma acts_seq:
  assumes "acts m s P" "\<And>x. growing (f x)"
    and "\<And>x t. below s t \<Longrightarrow> room s \<Longrightarrow> store_wf s \<Longrightarrow> room t \<Longrightarrow> store_wf t \<Longrightarrow> P x t \<Longrightarrow> acts (f x) t Q"
  shows "acts (sbind m f) s Q"
proof (rule acts_bind [OF assms(1)])
  fix x t assume b: "below s t"
  show "acts (f x) t (\<lambda>y u. room s \<longrightarrow> store_wf s \<longrightarrow> room t \<longrightarrow> P x t \<longrightarrow> Q y u)"
  proof (cases "room s \<and> store_wf s \<and> room t \<and> P x t")
    case True
    then have "acts (f x) t Q" using b assms(3) below_wf by blast
    then show ?thesis by (rule acts_weaken) simp
  next
    case False
    then show ?thesis using assms(2) by (auto simp: growing_def elim: acts_weaken)
  qed
qed

lemma growing_bind [grow]:
  "growing (bind_identifier order ch n)" "growing (bind_literal l)"
  by (auto simp: bind_identifier_def bind_literal_def intro!: grow)

lemma growing_bind_literals [grow]: "growing (bind_literals vs ls)"
  by (induction ls arbitrary: vs) (auto intro!: grow)

lemma growing_bind_adhoc [grow]: "growing (bind_adhoc ls)"
  by (auto simp: bind_adhoc_def intro!: grow)

lemma growing_bind_select [grow]:
  assumes "\<And>p ch. p \<in> set ps \<Longrightarrow> growing (p ch)" "growing r" "\<And>e ch. w = Some e \<Longrightarrow> growing (e ch)"
    "\<And>e ch. h = Some e \<Longrightarrow> growing (e ch)" "\<And>es d e ch. ob = Some (es, d) \<Longrightarrow> e \<in> set es \<Longrightarrow> growing (e ch)"
    "\<And>ks k ch. gb = Some ks \<Longrightarrow> k \<in> set ks \<Longrightarrow> growing (k ch)"
  shows "growing (bind_select ps r lm w h ob gb)"
  unfolding bind_select_def bind_where_def bind_having_def bind_grouped_def bind_ungrouped_def bind_order_by_def Let_def
  by (intro grow) (use assms in auto)

lemma growing_bind_left_join [grow]: "growing a \<Longrightarrow> growing b \<Longrightarrow> growing (bind_left_join fs l r a b)"
  by (auto simp: bind_left_join_def intro!: grow)

lemma growing_bind_file [grow]: "growing (bind_file X path tr tf)"
  by (auto simp: bind_file_def intro!: grow split: option.splits)

lemma growing_binder [grow]:
  shows "growing (bind_expr X order e ch)"
    and "growing (bind_projector X order p ch)"
    and "growing (bind_relation X order r)"
proof (induction X order e ch and X order p ch and X order r rule: bind_expr_bind_projector_bind_relation.induct)
  case (12 X order ps r lm w h ob gb)
  show ?case
    unfolding bind_relation.simps
    by (rule growing_bind_select) (use 12 in \<open>auto\<close>)
next
  case (14 X order l r c)
  show ?case
    unfolding bind_relation.simps Let_def
  proof (intro grow 14(1,2), goal_cases)
    case (1 x y)
    show ?case
    proof (cases "\<exists>a b. c = AstBinary AstEqual a b")
      case True
      then obtain a b where c: "c = AstBinary AstEqual a b" by blast
      have "growing (bind_expr X order a [CombinedFields {} [fields_out x, fields_out y]])"
        "growing (bind_expr X order b [CombinedFields {} [fields_out x, fields_out y]])"
        using 14(3) [of _ _ _ AstEqual a b] 14(4) [of _ _ _ AstEqual a b] c by auto
      then show ?thesis by (auto simp: c intro!: grow)
    next
      case False
      then show ?thesis by (auto intro: grow split: ast_expr.split ast_binary.split)
    qed
  qed
qed (auto simp: Let_def intro!: grow split: option.splits)

section \<open>What an action leaves alone\<close>

definition frames :: "('s \<Rightarrow> 'b) \<Rightarrow> ('s, 'a) act \<Rightarrow> bool" where
  "frames f m \<longleftrightarrow> (\<forall>s x t. m s = Inr (x, t) \<longrightarrow> f t = f s)"

named_theorems frame \<open>actions that leave a part of the state alone\<close>

lemma framesD: "frames f m \<Longrightarrow> m s = Inr (x, t) \<Longrightarrow> f t = f s"
  by (simp add: frames_def)

lemma frames_basic [frame]: "frames f (ret x)" "frames f (raise e)" "frames f (lift r)" "frames f (gets g)"
  by (auto simp: frames_def ret_def raise_def lift_def gets_def)

lemma frames_sbind [frame]: "frames f m \<Longrightarrow> (\<And>x. frames f (g x)) \<Longrightarrow> frames f (sbind m g)"
  unfolding frames_def sbind_def by (auto simp: rbind_Inr_iff)

lemma frames_smap [frame]: "(\<And>x. x \<in> set xs \<Longrightarrow> frames f (g x)) \<Longrightarrow> frames f (smap g xs)"
  by (induction xs) (auto intro!: frame)

lemma frames_sopt [frame]: "(\<And>x. xo = Some x \<Longrightarrow> frames f (g x)) \<Longrightarrow> frames f (sopt g xo)"
  by (cases xo) (auto intro!: frame)

lemma frames_if [frame]: "(b \<Longrightarrow> frames f m) \<Longrightarrow> (\<not> b \<Longrightarrow> frames f n) \<Longrightarrow> frames f (if b then m else n)"
  by simp

lemma frames_option [frame]: "(xo = None \<Longrightarrow> frames f m) \<Longrightarrow> (\<And>x. xo = Some x \<Longrightarrow> frames f (g x)) \<Longrightarrow>
    frames f (case xo of None \<Rightarrow> m | Some x \<Rightarrow> g x)"
  by (cases xo) auto

lemma frames_prod [frame]: "(\<And>x y. p = (x, y) \<Longrightarrow> frames f (g x y)) \<Longrightarrow> frames f (case p of (x, y) \<Rightarrow> g x y)"
  by (cases p) auto

definition beside_store :: "('x field_store_scheme \<Rightarrow> 'b) \<Rightarrow> bool" where
  "beside_store f \<longleftrightarrow> (\<forall>s b c. f (s\<lparr>binding := b\<rparr>) = f s \<and> f (s\<lparr>cells := c\<rparr>) = f s)"

lemma frames_add [frame]:
  "(\<And>s b. f (s\<lparr>binding := b\<rparr>) = f s) \<Longrightarrow> frames f (get_or_add n t)"
  "(\<And>s b. f (s\<lparr>binding := b\<rparr>) = f s) \<Longrightarrow> frames f (add_anonymous n t)"
  by (auto simp: frames_def get_or_add_def add_anonymous_def rbind_Inr_iff split: prod.splits)

lemma frames_alias_fields [frame]: "(\<And>s b. f (s\<lparr>binding := b\<rparr>) = f s) \<Longrightarrow> frames f (alias_fields prefix is F)"
  by (induction "is" arbitrary: F) (auto intro!: frame)

lemma frames_set_fields [frame]:
  assumes "\<And>s b. f (s\<lparr>binding := b\<rparr>) = f s"
  shows "frames f (set_fields order r)" and "frames f (merge_fields order F rs)"
  by (induction order r and order F rs rule: set_fields_merge_fields.induct)
    (auto simp: get_cell_def intro!: frame assms)

lemma beside_binding: "beside_store f \<Longrightarrow> f (s\<lparr>binding := b\<rparr>) = f s"
  by (simp add: beside_store_def)

lemma frames_can_provide:
  assumes f: "beside_store f"
  shows "frames f (can_provide r i)" and "frames f (any_provides rs i)"
  by (induction r i and rs i rule: can_provide_any_provides.induct)
    (auto simp: source_field_def intro!: frame beside_binding [OF f])

lemma frames_require_field:
  assumes f: "beside_store f"
  shows "frames f (require_field r i)" and "frames f (require_each rs i)"
proof (induction r i and rs i rule: require_field_require_each.induct)
  case (2 k i)
  show ?case using f by (auto simp: add_to_cell_def frames_def sbind_def gets_def rbind_Inr_iff beside_store_def raise_def split: if_splits)
qed (auto simp: source_field_def simp del: can_provide.simps intro!: frame beside_binding [OF f] frames_can_provide [OF f])

lemma frames_typeOfSourceField: "beside_store f \<Longrightarrow> frames f (typeOfSourceField order rs n)"
  by (induction rs) (auto intro!: frame beside_binding frames_can_provide frames_require_field)

text \<open>A step in a state of which \<open>J\<close>, which the step leaves alone, holds.\<close>

lemma frames_of: "frames f m \<Longrightarrow> frames (\<lambda>s. g (f s)) m"
  by (auto simp: frames_def)

lemma acts_step:
  assumes "J s" "frames J m" "acts m s P" "\<And>x. growing (f x)"
    and "\<And>x t. below s t \<Longrightarrow> room t \<Longrightarrow> store_wf t \<Longrightarrow> J t \<Longrightarrow> P x t \<Longrightarrow> acts (f x) t Q"
  shows "acts (sbind m f) s Q"
proof (rule acts_seq [where P = "\<lambda>x t. J t \<and> P x t"])
  show "acts m s (\<lambda>x t. J t \<and> P x t)"
    using assms(1-3) by (auto simp: acts_def post_def frames_def)
qed (use assms(4,5) in auto)

lemma acts_smap:
  assumes "\<And>x s. x \<in> set xs \<Longrightarrow> J s \<Longrightarrow> acts (f x) s P" "\<And>x. x \<in> set xs \<Longrightarrow> growing (f x)" "\<And>x. x \<in> set xs \<Longrightarrow> frames J (f x)"
    and stable: "\<And>y s t. P y s \<Longrightarrow> below s t \<Longrightarrow> P y t" and "J s"
  shows "acts (smap f xs) s (\<lambda>ys t. \<forall>y \<in> set ys. P y t)"
  using assms(1-3,5)
proof (induction xs arbitrary: s)
  case (Cons x xs)
  show ?case
    unfolding smap.simps
  proof (rule acts_step [of J, OF Cons.prems(4) Cons.prems(3) Cons.prems(1)])
    fix y t assume t: "J t" "P y t"
    have "acts (smap f xs) t (\<lambda>ys t. \<forall>y \<in> set ys. P y t)" by (rule Cons.IH) (use Cons.prems t in auto)
    then show "acts (sbind (smap f xs) (\<lambda>ys. ret (y # ys))) t (\<lambda>ys t. \<forall>y \<in> set ys. P y t)"
      by (rule acts_seq) (use t stable in \<open>auto intro: grow\<close>)
  qed (use Cons.prems in \<open>auto intro!: grow\<close>)
qed simp

lemma acts_sopt:
  assumes "\<And>x. xo = Some x \<Longrightarrow> acts (f x) s P"
  shows "acts (sopt f xo) s (\<lambda>yo t. (yo = None \<longleftrightarrow> xo = None) \<and> (\<forall>y. yo = Some y \<longrightarrow> P y t))"
proof (cases xo)
  case (Some x)
  show ?thesis
    unfolding Some sopt.simps by (rule acts_seq [OF assms(1) [OF Some]]) (auto intro: grow)
qed simp

section \<open>Typed expressions\<close>

text \<open>\<open>M\<close> is what an IN relies on of its match and the field it compares with.\<close>

fun expr_wt :: "'x field_store_scheme \<Rightarrow> ('m \<Rightarrow> FieldId \<Rightarrow> bool) \<Rightarrow> 'm bexpr \<Rightarrow> bool" where
  "expr_wt s M (BIdentifier info i) = (types (binding s) i = Some (info_type info))"
| "expr_wt s M (BValue info v) = (type v = info_type info)"
| "expr_wt s M (BIn info e m i) = (expr_wt s M e \<and> M m i \<and> info_type info = Boolean)"
| "expr_wt s M (BLike info e re) = (expr_wt s M e \<and> bx_type e = String \<and> info_type info = Boolean)"
| "expr_wt s M (BFnCall info f es) = ((\<forall>e \<in> set es. expr_wt s M e) \<and>
     (if isScalar f then fn_types f (map (\<lambda>e. bx_type e) es) (info_type info)
      else agg_fn_wt f (map (\<lambda>e. bx_type e) es) (info_type info)))"
| "expr_wt s M (BBinary info t l r) = (expr_wt s M l \<and> expr_wt s M r \<and>
     fn_types (binary_function t (bx_type l)) [bx_type l, bx_type r] (info_type info))"
| "expr_wt s M (BUnary info t e) = (expr_wt s M e \<and> fn_types (unary_function t) [bx_type e] (info_type info))"

text \<open>What stands outside the aggregate calls of an expression: the fields it reads, an IN, an aggregate call.\<close>

fun row_ids :: "'m bexpr \<Rightarrow> FieldSet" where
  "row_ids (BIdentifier info i) = {i}"
| "row_ids (BValue info v) = {}"
| "row_ids (BIn info e m i) = row_ids e"
| "row_ids (BLike info e re) = row_ids e"
| "row_ids (BFnCall info f es) = (if isScalar f then \<Union> (set (map row_ids es)) else {})"
| "row_ids (BBinary info t l r) = row_ids l \<union> row_ids r"
| "row_ids (BUnary info t e) = row_ids e"

fun has_in :: "'m bexpr \<Rightarrow> bool" where
  "has_in (BIn info e m i) = True"
| "has_in (BLike info e re) = has_in e"
| "has_in (BFnCall info f es) = (isScalar f \<and> (\<exists>e \<in> set es. has_in e))"
| "has_in (BBinary info t l r) = (has_in l \<or> has_in r)"
| "has_in (BUnary info t e) = has_in e"
| "has_in _ = False"

fun has_agg :: "'m bexpr \<Rightarrow> bool" where
  "has_agg (BIn info e m i) = has_agg e"
| "has_agg (BLike info e re) = has_agg e"
| "has_agg (BFnCall info f es) = (\<not> isScalar f \<or> (\<exists>e \<in> set es. has_agg e))"
| "has_agg (BBinary info t l r) = (has_agg l \<or> has_agg r)"
| "has_agg (BUnary info t e) = has_agg e"
| "has_agg _ = False"

definition level_ok :: "'m bexpr \<Rightarrow> bool" where
  "level_ok e \<longleftrightarrow> (bx_level e \<noteq> LevelRow \<longrightarrow> row_ids e = {} \<and> \<not> has_in e) \<and>
     (bx_level e \<noteq> LevelGroup \<longrightarrow> \<not> has_agg e) \<and> row_ids e \<subseteq> bx_required e"

lemma expr_wt_below: "below s t \<Longrightarrow> expr_wt s M e \<Longrightarrow> expr_wt t M e"
  by (induction e) (auto dest: below_get(2) split: if_splits)

lemma expr_wt_mono: "expr_wt s M e \<Longrightarrow> (\<And>m i. m \<in> set_bexpr e \<Longrightarrow> M m i \<Longrightarrow> M' m i) \<Longrightarrow> expr_wt s M' e"
proof (induction e)
  case (BFnCall info f es)
  have "expr_wt s M' e" if "e \<in> set es" for e
    by (rule BFnCall.IH [OF that]) (use BFnCall.prems that in auto)
  with BFnCall.prems(1) show ?case by simp
qed auto

lemma info_map [simp]: "bx_info (map_bexpr f e) = bx_info e"
  by (cases e) auto

lemma expr_wt_map [simp]: "expr_wt s M (map_bexpr f e) \<longleftrightarrow> expr_wt s (\<lambda>m. M (f m)) e"
  by (induction e) (auto simp: comp_def cong: map_cong)

lemma map_expr_shape [simp]:
  "row_ids (map_bexpr f e) = row_ids e" "has_in (map_bexpr f e) \<longleftrightarrow> has_in e" "has_agg (map_bexpr f e) \<longleftrightarrow> has_agg e"
  by (induction e) auto

lemma level_ok_map [simp]: "level_ok (map_bexpr f e) \<longleftrightarrow> level_ok e"
  by (simp add: level_ok_def)

subsection \<open>Calls\<close>

lemma composedLevel_levels: "composedLevel l es = Inr m \<Longrightarrow>
    (l = LevelConst \<or> l = m) \<and> (\<forall>e \<in> set es. bx_level e = LevelConst \<or> bx_level e = m)"
proof (induction es arbitrary: l)
  case (Cons e es)
  from Cons.prems obtain k where k: "composed l (bx_level e) = Inr k" "composedLevel k es = Inr m"
    by (auto split: if_splits)
  from Cons.IH [OF k(2)] k(1) show ?case by (auto simp: composed_def composable_def split: if_splits)
qed simp

lemma requiredFieldsOf_Union: "requiredFieldsOf es = \<Union> (set (map (\<lambda>e. bx_required e) es))"
proof -
  have "foldl (\<lambda>F e. fs_merge F (bx_required e)) G es = G \<union> \<Union> (set (map (\<lambda>e. bx_required e) es))" for G
    by (induction es arbitrary: G) (auto simp: fs_merge_def)
  then show ?thesis by (simp add: requiredFieldsOf_def)
qed

text \<open>What holds of a bound call of level \<open>l\<close>.\<close>

definition call_ok :: "'m bexpr list \<Rightarrow> BoundExprInfo \<Rightarrow> Function \<Rightarrow> 'm bexpr list \<Rightarrow> bool" where
  "call_ok args info f es \<longleftrightarrow> set es \<subseteq> set args \<and> required_fields info = \<Union> (set (map (\<lambda>e. bx_required e) es)) \<and>
     (if isScalar f then fn_types f (map (\<lambda>e. bx_type e) es) (info_type info) \<and>
        (\<forall>e \<in> set es. bx_level e = LevelConst \<or> bx_level e = info_level info)
      else agg_fn_wt f (map (\<lambda>e. bx_type e) es) (info_type info) \<and> info_level info = LevelGroup)"

lemma fn_types_1: "fn_wt f [t] u \<Longrightarrow> fn_types f [t] u"
  unfolding fn_types_def by (intro exI [of _ "[t]"]) simp

lemma fn_types_self: "fn_wt f ts u \<Longrightarrow> fn_types f ts u"
  unfolding fn_types_def by (intro exI [of _ ts]) (simp add: list_all2_refl)

lemma bind_coalesce_ok:
  assumes "bind_coalesce level args = Inr (info, f, es)" "\<forall>e \<in> set args. bx_level e = LevelConst \<or> bx_level e = level"
  shows "call_ok args info f es"
proof -
  define ts where "ts = remdups (filter (\<lambda>t. t \<noteq> Null) (map (\<lambda>e. bx_type e) args))"
  have l: "length ts \<le> 1" and r: "info = \<lparr>info_type = if ts = [] then Null else hd ts, info_level = level, required_fields = requiredFieldsOf args\<rparr>"
      "f = Coalesce_fn" "es = args"
    using assms(1) by (auto simp: bind_coalesce_def call_def ts_def [symmetric] Let_def split: if_splits)
  have "bx_type e = Null \<or> bx_type e = (if ts = [] then Null else hd ts)" if "e \<in> set args" for e
  proof (cases "bx_type e = Null")
    case False
    with that have "bx_type e \<in> set ts" by (auto simp: ts_def)
    with l show ?thesis by (cases ts) auto
  qed simp
  then have "fn_types Coalesce_fn (map (\<lambda>e. bx_type e) args) (info_type info)"
    by (intro fn_types_self) (auto simp: r)
  with assms(2) show ?thesis by (simp add: call_ok_def r requiredFieldsOf_Union)
qed

lemma bind_call_ok:
  assumes "bindFnCallExpr fn args = Inr (info, f, es)"
  shows "call_ok args info f es"
proof -
  obtain level where level: "composedLevel LevelConst args = Inr level"
    using assms by (auto simp: bindFnCallExpr_def)
  have l: "\<forall>e \<in> set args. bx_level e = LevelConst \<or> bx_level e = level" using composedLevel_levels [OF level] by simp
  note defs = call_ok_def call_def requiredFieldsOf_Union fn_types_1
  have "bind_lower level args = Inr (info, f, es) \<Longrightarrow> ?thesis"
    using l by (cases args) (auto simp: bind_lower_def defs split: if_splits)
  moreover have "bind_splitpart args = Inr (info, f, es) \<Longrightarrow> ?thesis"
    using l by (auto simp: bind_splitpart_def defs split: if_splits)
  moreover have "bind_substr level args = Inr (info, f, es) \<Longrightarrow> ?thesis"
    using l by (cases args) (auto simp: bind_substr_def defs split: if_splits)
  moreover have "bind_coalesce level args = Inr (info, f, es) \<Longrightarrow> ?thesis"
    using bind_coalesce_ok l by blast
  moreover have "bind_percentile args = Inr (info, f, es) \<Longrightarrow> ?thesis"
    using l by (cases args) (auto simp: bind_percentile_def defs split: if_splits)
  moreover have "bind_rsubstr level args = Inr (info, f, es) \<Longrightarrow> ?thesis"
    using l by (auto simp: bind_rsubstr_def defs split: if_splits)
  moreover have "bind_json_value args = Inr (info, f, es) \<Longrightarrow> ?thesis"
    using l by (auto simp: bind_json_value_def defs split: if_splits option.splits)
  moreover have "bind_count_all args = Inr (info, f, es) \<Longrightarrow> ?thesis"
    using l by (auto simp: bind_count_all_def defs split: if_splits)
  moreover have "bind_count_nonnull args = Inr (info, f, es) \<Longrightarrow> ?thesis"
    using l by (cases args) (auto simp: bind_count_nonnull_def defs split: if_splits)
  moreover have "bind_extremum F args = Inr (info, f, es) \<Longrightarrow> F \<in> {Min_fn, Max_fn, Sum_fn} \<Longrightarrow> ?thesis" for F
    using l by (cases args) (auto simp: bind_extremum_def defs split: if_splits)
  moreover have "bind_parse_timestamp args = Inr (info, f, es) \<Longrightarrow> ?thesis"
    using l by (auto simp: bind_parse_timestamp_def defs split: if_splits option.splits)
  moreover have "bind_cast level t args = Inr (info, f, es) \<Longrightarrow> ?thesis" for t
    using l by (cases args) (auto simp: bind_cast_def defs split: if_splits)
  ultimately show ?thesis
    using assms level by (auto simp: bindFnCallExpr_def split: if_splits option.splits)
qed


section \<open>Typed relations\<close>

definition expr_ok :: "'x field_store_scheme \<Rightarrow> ('m \<Rightarrow> FieldId \<Rightarrow> bool) \<Rightarrow> 'm bexpr \<Rightarrow> bool" where
  "expr_ok s M e \<longleftrightarrow> expr_wt s M e \<and> level_ok e"

fun projector_ok :: "'x field_store_scheme \<Rightarrow> ('m \<Rightarrow> FieldId \<Rightarrow> bool) \<Rightarrow> 'm bprojector \<Rightarrow> bool" where
  "projector_ok s M (BExprProjector i e) = (expr_ok s M e \<and> types (binding s) i = Some (bx_type e))"
| "projector_ok s M _ = True"

text \<open>\<open>src\<close> is the set of the source of a SELECT.\<close>

definition ungrouped_ok :: "'x field_store_scheme \<Rightarrow> field_set \<Rightarrow> field_set \<Rightarrow> brelation bprojector list \<Rightarrow> brelation bexpr option \<Rightarrow>
    (brelation bexpr list \<times> bool) option \<Rightarrow> bool \<Rightarrow> bool" where
  "ungrouped_ok s src fs ps h ob agg \<longleftrightarrow> h = None \<and>
     (fs = FixedFields (outputFieldsOf ps) \<or> BStar \<in> set ps \<and> fs = CombinedFields (outputFieldsOf ps) [src]) \<and>
     (if agg then list_all aggregate_projector_ok ps
      else (\<forall>p \<in> set ps. \<not> is_group_projector p) \<and> (\<forall>i. BIdentifierProjector i \<in> set ps \<longrightarrow> i \<in> fields_of s src) \<and>
        (\<forall>es desc. ob = Some (es, desc) \<longrightarrow> (\<forall>e \<in> set es. bx_required e \<subseteq> outputFieldsOf ps \<union> fields_of s src)))"

definition grouped_ok :: "'x field_store_scheme \<Rightarrow> field_set \<Rightarrow> field_set \<Rightarrow> brelation bprojector list \<Rightarrow>
    brelation bexpr option \<Rightarrow> (brelation bexpr list \<times> bool) option \<Rightarrow> brelation bprojector list \<Rightarrow> bool" where
  "grouped_ok s src fs ps h ob ks \<longleftrightarrow> fs = FixedFields (outputFieldsOf ps) \<and>
     BStar \<notin> set ks \<and> (\<forall>i. BIdentifierProjector i \<in> set ks \<longrightarrow> i \<in> fields_of s src) \<and>
     list_all (grouped_projector_ok (outputFieldsOf ks)) ps \<and>
     (\<forall>e. h = Some e \<longrightarrow> bx_type e = Boolean \<and> (bx_level e = LevelRow \<longrightarrow> bx_required e \<subseteq> outputFieldsOf ps \<union> outputFieldsOf ks)) \<and>
     (\<forall>es desc. ob = Some (es, desc) \<longrightarrow> (\<forall>e \<in> set es. bx_required e \<subseteq> outputFieldsOf ps \<union> outputFieldsOf ks))"

definition select_ok :: "'x field_store_scheme \<Rightarrow> (brelation \<Rightarrow> FieldId \<Rightarrow> bool) \<Rightarrow> field_set \<Rightarrow> field_set \<Rightarrow> brelation bprojector list \<Rightarrow>
    int option \<Rightarrow> brelation bexpr option \<Rightarrow> brelation bexpr option \<Rightarrow> (brelation bexpr list \<times> bool) option \<Rightarrow>
    brelation bprojector list option \<Rightarrow> bool \<Rightarrow> bool" where
  "select_ok s M src fs ps lm w h ob gb agg \<longleftrightarrow>
     (\<forall>p \<in> set ps. projector_ok s M p) \<and> (\<forall>n. lm = Some n \<longrightarrow> 0 \<le> n) \<and>
     (\<forall>e. w = Some e \<longrightarrow> expr_ok s M e \<and> bx_type e = Boolean \<and> bx_level e \<noteq> LevelGroup) \<and>
     (\<forall>e. h = Some e \<longrightarrow> expr_ok s M e) \<and>
     (\<forall>es desc. ob = Some (es, desc) \<longrightarrow> (\<forall>e \<in> set es. expr_ok s M e)) \<and>
     (\<forall>ks. gb = Some ks \<longrightarrow> (\<forall>k \<in> set ks. projector_ok s M k)) \<and>
     (case gb of None \<Rightarrow> ungrouped_ok s src fs ps h ob agg | Some ks \<Rightarrow> grouped_ok s src fs ps h ob ks)"

text \<open>The matches of a walked program give the field they are compared with.\<close>

definition matches :: "bool \<Rightarrow> 'x field_store_scheme \<Rightarrow> brelation \<Rightarrow> FieldId \<Rightarrow> bool" where
  "matches walked s m i \<longleftrightarrow> (walked \<longrightarrow> i \<in> fields_of s (fields_out m))"

definition all_exprs :: "bool bexpr \<Rightarrow> bool" where
  "all_exprs e \<longleftrightarrow> (\<forall>b \<in> set_bexpr e. b)"

definition all_projectors :: "bool bprojector \<Rightarrow> bool" where
  "all_projectors p \<longleftrightarrow> (\<forall>b \<in> set_bprojector p. b)"

text \<open>\<open>N\<close> has the sets of the named relations.\<close>

primrec brel_ok :: "bool \<Rightarrow> 'x field_store_scheme \<Rightarrow> (string \<rightharpoonup> field_set) \<Rightarrow> brelation \<Rightarrow> bool" where
  "brel_ok b s N (BAdhoc fs vs i) = (fs = FixedFields {i} \<and> (\<exists>t. types (binding s) i = Some t \<and> (\<forall>v \<in> set vs. type v = t)))"
| "brel_ok b s N (BSelect fs ps r lm w h ob gb agg) =
     (list_all all_projectors (map (map_bprojector (brel_ok b s N)) ps) \<and> brel_ok b s N r \<and>
      pred_option all_exprs (map_option (map_bexpr (brel_ok b s N)) w) \<and>
      pred_option all_exprs (map_option (map_bexpr (brel_ok b s N)) h) \<and>
      pred_option (\<lambda>(es, desc). list_all all_exprs es) (map_option (map_prod (map (map_bexpr (brel_ok b s N))) id) ob) \<and>
      pred_option (list_all all_projectors) (map_option (map (map_bprojector (brel_ok b s N))) gb) \<and>
      select_ok s (matches b s) (fields_out r) fs ps lm w h ob gb agg)"
| "brel_ok b s N (BAlias fs a r) = (fs = AliasFields (a @ ''.'') (fields_out r) \<and> brel_ok b s N r)"
| "brel_ok b s N (BLeftJoin fs l r lk rk) = (fs = CombinedFields {} [fields_out l, fields_out r] \<and> brel_ok b s N l \<and> brel_ok b s N r \<and>
      all_exprs (map_bexpr (brel_ok b s N) lk) \<and> all_exprs (map_bexpr (brel_ok b s N) rk) \<and>
      expr_ok s (matches b s) lk \<and> expr_ok s (matches b s) rk)"
| "brel_ok b s N (BUnionAll fs l r) = (fs = CombinedFields {} [fields_out l, fields_out r] \<and> brel_ok b s N l \<and> brel_ok b s N r)"
| "brel_ok b s N (BUnionAllSortedBy fs l r es desc) = (fs = CombinedFields {} [fields_out l, fields_out r] \<and> brel_ok b s N l \<and> brel_ok b s N r \<and>
      list_all all_exprs (map (map_bexpr (brel_ok b s N)) es) \<and> (\<forall>e \<in> set es. expr_ok s (matches b s) e))"
| "brel_ok b s N (BFile fs path tr tf) = (\<exists>k. fs = OpenFields k)"
| "brel_ok b s N (BStream fs command) = (\<exists>k. fs = OpenFields k)"
| "brel_ok b s N (BNamedReference fs n) = (N n = Some fs)"
| "brel_ok b s N (BMaterialize fs r) = (fs = fields_out r \<and> brel_ok b s N r)"

text \<open>What holds of the relations in an expression or a projector.\<close>

definition rels_ok :: "bool \<Rightarrow> 'x field_store_scheme \<Rightarrow> (string \<rightharpoonup> field_set) \<Rightarrow> brelation bexpr \<Rightarrow> bool" where
  "rels_ok b s N e \<longleftrightarrow> (\<forall>m \<in> set_bexpr e. brel_ok b s N m)"

definition prels_ok :: "bool \<Rightarrow> 'x field_store_scheme \<Rightarrow> (string \<rightharpoonup> field_set) \<Rightarrow> brelation bprojector \<Rightarrow> bool" where
  "prels_ok b s N p \<longleftrightarrow> (\<forall>m \<in> set_bprojector p. brel_ok b s N m)"

lemma all_exprs_map [simp]: "all_exprs (map_bexpr (brel_ok b s N) e) \<longleftrightarrow> rels_ok b s N e"
  by (auto simp: all_exprs_def rels_ok_def bexpr.set_map)

lemma all_projectors_map [simp]: "all_projectors (map_bprojector (brel_ok b s N) p) \<longleftrightarrow> prels_ok b s N p"
  by (auto simp: all_projectors_def prels_ok_def bprojector.set_map)

lemma brel_ok_select: "brel_ok b s N (BSelect fs ps r lm w h ob gb agg) \<longleftrightarrow>
    (\<forall>p \<in> set ps. prels_ok b s N p) \<and> brel_ok b s N r \<and> (\<forall>e. w = Some e \<longrightarrow> rels_ok b s N e) \<and>
    (\<forall>e. h = Some e \<longrightarrow> rels_ok b s N e) \<and> (\<forall>es desc. ob = Some (es, desc) \<longrightarrow> (\<forall>e \<in> set es. rels_ok b s N e)) \<and>
    (\<forall>ks. gb = Some ks \<longrightarrow> (\<forall>k \<in> set ks. prels_ok b s N k)) \<and>
    select_ok s (matches b s) (fields_out r) fs ps lm w h ob gb agg"
  by (auto simp: list_all_iff option.pred_set split: option.splits)


declare brel_ok.simps(2) [simp del]

subsection \<open>Typing stays\<close>

lemma matches_False [simp]: "matches False s = (\<lambda>m i. True)"
  by (simp add: matches_def fun_eq_iff)

lemma matches_below: "below s t \<Longrightarrow> matches b s m i \<Longrightarrow> matches b t m i"
  by (auto simp: matches_def dest: fields_of_below)

lemma expr_ok_below: "below s t \<Longrightarrow> expr_ok s (matches b s) e \<Longrightarrow> expr_ok t (matches b t) e"
  unfolding expr_ok_def by (meson expr_wt_below expr_wt_mono matches_below)

lemma projector_ok_below: "below s t \<Longrightarrow> projector_ok s (matches b s) p \<Longrightarrow> projector_ok t (matches b t) p"
  by (cases p) (auto dest: expr_ok_below below_get(2))

lemma fields_of_subset: "below s t \<Longrightarrow> fields_of s r \<subseteq> fields_of t r"
  by (blast dest: fields_of_below)

lemma select_ok_below: "below s t \<Longrightarrow> select_ok s (matches b s) src fs ps lm w h ob gb agg \<Longrightarrow>
    select_ok t (matches b t) src fs ps lm w h ob gb agg"
proof -
  assume b: "below s t" and s: "select_ok s (matches b s) src fs ps lm w h ob gb agg"
  note mono = expr_ok_below [OF b] projector_ok_below [OF b] fields_of_below [OF b]
  have u: "ungrouped_ok s src fs ps h ob agg \<Longrightarrow> ungrouped_ok t src fs ps h ob agg"
    using fields_of_subset [OF b, of src] unfolding ungrouped_ok_def by (cases agg) (simp, simp, blast)
  have g: "grouped_ok s src fs ps h ob ks \<Longrightarrow> grouped_ok t src fs ps h ob ks" for ks
    using fields_of_subset [OF b, of src] unfolding grouped_ok_def by blast
  from s show ?thesis
    unfolding select_ok_def
    by (intro conjI allI impI ballI; (elim conjE)?) (auto dest: mono u g split: option.splits)
qed

lemma brel_ok_below: "below s t \<Longrightarrow> brel_ok b s N r \<Longrightarrow> brel_ok b t N r"
proof (induction r)
  case (BSelect fs ps r lm w h ob gb agg)
  have p: "prels_ok b t N p" if "p \<in> set ps" for p
    using BSelect.prems BSelect.IH(1) that by (auto simp: brel_ok_select prels_ok_def)
  have r: "brel_ok b t N r" using BSelect by (simp add: brel_ok_select)
  have w: "rels_ok b t N e" if "w = Some e" for e
    using BSelect.prems BSelect.IH(3) that by (auto simp: brel_ok_select rels_ok_def)
  have h: "rels_ok b t N e" if "h = Some e" for e
    using BSelect.prems BSelect.IH(4) that by (auto simp: brel_ok_select rels_ok_def)
  have ob: "rels_ok b t N e" if "ob = Some (es, desc)" "e \<in> set es" for e es desc
    using BSelect.prems BSelect.IH(5) that by (fastforce simp: brel_ok_select rels_ok_def)
  have gb: "prels_ok b t N k" if "gb = Some ks" "k \<in> set ks" for k ks
    using BSelect.prems BSelect.IH(6) that by (fastforce simp: brel_ok_select prels_ok_def)
  have "select_ok t (matches b t) (fields_out r) fs ps lm w h ob gb agg"
    using select_ok_below BSelect.prems by (auto simp: brel_ok_select)
  with p r w h ob gb show ?case by (auto simp: brel_ok_select)
next
  case (BAdhoc fs vs i)
  then show ?case by (auto dest: below_get(2))
qed (auto simp: rels_ok_def list_all_iff dest: expr_ok_below)

lemma rels_ok_below: "below s t \<Longrightarrow> rels_ok b s N e \<Longrightarrow> rels_ok b t N e"
  by (auto simp: rels_ok_def dest: brel_ok_below)

lemma prels_ok_below: "below s t \<Longrightarrow> prels_ok b s N e \<Longrightarrow> prels_ok b t N e"
  by (auto simp: prels_ok_def dest: brel_ok_below)


section \<open>The binder gives typed relations\<close>

lemma beside_named [simp]: "beside_store named_sets"
  by (simp add: beside_store_def)

lemma frames_bind [frame]:
  "frames named_sets (bind_identifier order ch n)" "frames named_sets (bind_literal l)" "frames named_sets new_cell"
  by (auto simp: bind_identifier_def bind_literal_def intro!: frame frames_typeOfSourceField)
    (simp add: frames_def new_cell_def)

lemma frames_bind_adhoc [frame]: "frames named_sets (bind_adhoc ls)"
proof -
  have "frames named_sets (bind_literals vs ls)" for vs
    by (induction ls arbitrary: vs) (auto intro!: frame)
  then show ?thesis by (auto simp: bind_adhoc_def intro!: frame)
qed

lemma frames_bind_select [frame]:
  assumes "\<And>p ch. p \<in> set ps \<Longrightarrow> frames named_sets (p ch)" "frames named_sets r" "\<And>e ch. w = Some e \<Longrightarrow> frames named_sets (e ch)"
    "\<And>e ch. h = Some e \<Longrightarrow> frames named_sets (e ch)" "\<And>es d e ch. ob = Some (es, d) \<Longrightarrow> e \<in> set es \<Longrightarrow> frames named_sets (e ch)"
    "\<And>ks k ch. gb = Some ks \<Longrightarrow> k \<in> set ks \<Longrightarrow> frames named_sets (k ch)"
  shows "frames named_sets (bind_select ps r lm w h ob gb)"
  unfolding bind_select_def bind_where_def bind_having_def bind_grouped_def bind_ungrouped_def bind_order_by_def Let_def
  by (intro frame) (use assms in auto)

lemma frames_bind_left_join [frame]: "frames f a \<Longrightarrow> frames f b \<Longrightarrow> frames f (bind_left_join fs l r a b)"
  by (auto simp: bind_left_join_def intro!: frame)

lemma frames_binder [frame]:
  shows "frames named_sets (bind_expr X order e ch)"
    and "frames named_sets (bind_projector X order p ch)"
    and "frames named_sets (bind_relation X order r)"
proof (induction X order e ch and X order p ch and X order r rule: bind_expr_bind_projector_bind_relation.induct)
  case (12 X order ps r lm w h ob gb)
  show ?case
    unfolding bind_relation.simps
    by (rule frames_bind_select) (use 12 in \<open>auto\<close>)
next
  case (14 X order l r c)
  show ?case
    unfolding bind_relation.simps Let_def
  proof (intro frame 14(1,2), goal_cases)
    case (1 x y)
    show ?case
    proof (cases "\<exists>a b. c = AstBinary AstEqual a b")
      case True
      then obtain a b where c: "c = AstBinary AstEqual a b" by blast
      have "frames named_sets (bind_expr X order a [CombinedFields {} [fields_out x, fields_out y]])"
        "frames named_sets (bind_expr X order b [CombinedFields {} [fields_out x, fields_out y]])"
        using 14(3) [of _ _ _ AstEqual a b] 14(4) [of _ _ _ AstEqual a b] c by auto
      then show ?thesis by (auto simp: c intro!: frame)
    next
      case False
      then show ?thesis by (auto intro: frame split: ast_expr.split ast_binary.split)
    qed
  qed
qed (auto simp: Let_def bind_file_def intro!: frame split: option.splits)

abbreviation named_are :: "(string \<rightharpoonup> field_set) \<Rightarrow> bind_state \<Rightarrow> bool" where
  "named_are N \<equiv> (\<lambda>s. named_sets s = N)"

lemma frames_named: "frames named_sets m \<Longrightarrow> frames (named_are N) m"
  by (auto simp: frames_def)

definition chain_fields :: "'x field_store_scheme \<Rightarrow> chain \<Rightarrow> FieldSet" where
  "chain_fields s ch = \<Union> (set (map (fields_of s) ch))"

lemma chain_fields_below: "below s t \<Longrightarrow> chain_fields s ch \<subseteq> chain_fields t ch"
  by (auto simp: chain_fields_def dest: fields_of_below)

lemma acts_bind_identifier: "acts (bind_identifier order ch n) s
    (\<lambda>x u. types (binding u) (fst x) = Some (snd x) \<and> fst x \<in> chain_fields u ch)"
  unfolding bind_identifier_def
proof (rule acts_seq [OF acts_typeOfSourceField])
  fix x t
  assume x: "\<forall>v. x = Some v \<longrightarrow> (\<exists>i. known t i n v \<and> (\<exists>r \<in> set ch. i \<in> fields_of t r))"
  show "acts (case x of None \<Rightarrow> raise Thrown | Some v \<Rightarrow> sbind (get_or_add n v) (\<lambda>i. ret (i, v))) t
      (\<lambda>x u. types (binding u) (fst x) = Some (snd x) \<and> fst x \<in> chain_fields u ch)"
  proof (cases x)
    case (Some v)
    with x obtain i where i: "known t i n v" "i \<in> chain_fields t ch" by (auto simp: chain_fields_def)
    show ?thesis
      unfolding Some option.case
    proof (rule acts_seq [OF acts_get_or_add])
      fix j u assume u: "below t u" "known u j n v \<and> cells u = cells t"
      then have "j = i" using i known_below known_unique by blast
      with u i chain_fields_below [OF u(1)] show "acts (ret (j, v)) u
          (\<lambda>x u. types (binding u) (fst x) = Some (snd x) \<and> fst x \<in> chain_fields u ch)" by (auto simp: known_def)
    qed (auto intro: grow)
  qed simp
qed (auto intro!: grow)

text \<open>What the parts of a relation give when they are bound in a chain.\<close>

definition expr_bound :: "(string \<rightharpoonup> field_set) \<Rightarrow> chain \<Rightarrow> brelation bexpr \<Rightarrow> bind_state \<Rightarrow> bool" where
  "expr_bound N ch e s \<longleftrightarrow> expr_ok s (\<lambda>m i. True) e \<and> rels_ok False s N e \<and> bx_required e \<subseteq> chain_fields s ch"

definition projector_bound :: "(string \<rightharpoonup> field_set) \<Rightarrow> chain \<Rightarrow> brelation bprojector \<Rightarrow> bind_state \<Rightarrow> bool" where
  "projector_bound N ch p s \<longleftrightarrow> projector_ok s (\<lambda>m i. True) p \<and> prels_ok False s N p \<and>
     (\<forall>i. p = BIdentifierProjector i \<longrightarrow> i \<in> chain_fields s ch)"

lemma expr_bound_below: "expr_bound N ch e s \<Longrightarrow> below s t \<Longrightarrow> expr_bound N ch e t"
  using expr_ok_below [of s t False e] rels_ok_below [of s t False N e] chain_fields_below [of s t ch]
  by (auto simp: expr_bound_def)

lemma projector_bound_below: "projector_bound N ch p s \<Longrightarrow> below s t \<Longrightarrow> projector_bound N ch p t"
  using projector_ok_below [of s t False p] prels_ok_below [of s t False N p] chain_fields_below [of s t ch]
  by (auto simp: projector_bound_def)

definition binds_expr :: "(string \<rightharpoonup> field_set) \<Rightarrow> bind_exprs \<Rightarrow> bool" where
  "binds_expr N m \<longleftrightarrow> (\<forall>ch s. growing (m ch) \<and> frames named_sets (m ch) \<and> (named_sets s = N \<longrightarrow> acts (m ch) s (expr_bound N ch)))"

definition binds_projector :: "(string \<rightharpoonup> field_set) \<Rightarrow> bind_projectors \<Rightarrow> bool" where
  "binds_projector N m \<longleftrightarrow> (\<forall>ch s. growing (m ch) \<and> frames named_sets (m ch) \<and> (named_sets s = N \<longrightarrow> acts (m ch) s (projector_bound N ch)))"

lemma binds_projectors:
  assumes "\<forall>p \<in> set ps. binds_projector N p" "named_sets s = N"
  shows "acts (smap (\<lambda>p. p ch) ps) s (\<lambda>ps t. \<forall>p \<in> set ps. projector_bound N ch p t)"
  by (rule acts_smap [where J = "named_are N"])
    (use assms in \<open>auto simp: binds_projector_def intro: frames_named projector_bound_below\<close>)

lemma binds_exprs:
  assumes "\<forall>e \<in> set es. binds_expr N e" "named_sets s = N"
  shows "acts (smap (\<lambda>e. e ch) es) s (\<lambda>es t. \<forall>e \<in> set es. expr_bound N ch e t)"
  by (rule acts_smap [where J = "named_are N"])
    (use assms in \<open>auto simp: binds_expr_def intro: frames_named expr_bound_below\<close>)


lemma binds_exprD:
  assumes "binds_expr N m"
  shows "growing (m ch)" "frames named_sets (m ch)" "named_sets s = N \<Longrightarrow> acts (m ch) s (expr_bound N ch)"
  using assms by (auto simp: binds_expr_def)

lemma outputFieldsOf_Union: "outputFieldsOf ps = \<Union> (set (map outputFieldsOf1 ps))"
proof -
  have "foldl (\<lambda>F p. fs_merge F (outputFieldsOf1 p)) G ps = G \<union> \<Union> (set (map outputFieldsOf1 ps))" for G
    by (induction ps arbitrary: G) (auto simp: fs_merge_def)
  then show ?thesis by (simp add: outputFieldsOf_def)
qed

lemma group_key_map_output: "group_key_map ps = outputFieldsOf ps"
  by (simp add: group_key_map_def outputFieldsOf_Union)

lemma chain_fields_simps [simp]:
  "chain_fields s [] = {}" "chain_fields s (r # rs) = fields_of s r \<union> chain_fields s rs"
  by (auto simp: chain_fields_def)

lemma acts_bind_where:
  assumes "binds_expr N m" "named_sets s = N"
  shows "acts (bind_where ch m) s (\<lambda>e t. expr_bound N ch e t \<and> bx_type e = Boolean \<and> bx_level e \<noteq> LevelGroup)"
  unfolding bind_where_def
  by (rule acts_seq [OF binds_exprD(3) [OF assms]]) (auto intro!: grow)

lemma acts_bind_order_by:
  assumes "\<forall>e \<in> set (fst ob). binds_expr N e" "named_sets s = N"
  shows "acts (bind_order_by ch ob) s (\<lambda>ob t. \<forall>e \<in> set (fst ob). expr_bound N ch e t)"
  unfolding bind_order_by_def using assms
  by (cases ob) (auto intro!: grow acts_seq [OF binds_exprs])

text \<open>The output of a SELECT before its ORDER BY is bound.\<close>

definition output_bound :: "(string \<rightharpoonup> field_set) \<Rightarrow> field_set \<Rightarrow> select_output \<Rightarrow> bind_state \<Rightarrow> bool" where
  "output_bound N src out s \<longleftrightarrow>
     (\<forall>p \<in> set (projectors out). projector_ok s (\<lambda>m i. True) p \<and> prels_ok False s N p) \<and>
     (\<forall>e. having out = Some e \<longrightarrow> expr_ok s (\<lambda>m i. True) e \<and> rels_ok False s N e) \<and>
     (\<forall>ks. group_by out = Some ks \<longrightarrow> (\<forall>k \<in> set ks. projector_ok s (\<lambda>m i. True) k \<and> prels_ok False s N k)) \<and>
     (case group_by out of
        None \<Rightarrow> ungrouped_ok s src (out_fields out) (projectors out) (having out) None (aggregated out) \<and>
          (\<not> aggregated out \<longrightarrow> order_by_chain out = [FixedFields (outputFieldsOf (projectors out)), src])
      | Some ks \<Rightarrow> grouped_ok s src (out_fields out) (projectors out) (having out) None ks \<and>
          order_by_chain out = [FixedFields (outputFieldsOf (projectors out) \<union> outputFieldsOf ks)])"

lemma is_star_iff: "is_star p \<longleftrightarrow> p = BStar"
  by (cases p) auto

lemma acts_bind_having:
  assumes "binds_expr N m" "named_sets s = N"
  shows "acts (bind_having allowed src m) s (\<lambda>e t. expr_bound N [FixedFields allowed, src] e t \<and> bx_type e = Boolean \<and>
    (bx_level e = LevelRow \<longrightarrow> bx_required e \<subseteq> allowed))"
  unfolding bind_having_def
  by (rule acts_seq [OF binds_exprD(3) [OF assms]]) (auto intro!: grow)

lemma growing_binds:
  assumes "\<forall>p \<in> set ps. binds_projector N p" "\<forall>m. h = Some m \<longrightarrow> binds_expr N m"
  shows "growing (smap (\<lambda>p. p ch) ps)" "growing (sopt (bind_having allowed src) h)"
    "frames named_sets (smap (\<lambda>p. p ch) ps)"
  using assms by (auto simp: binds_projector_def binds_expr_def bind_having_def intro!: grow frame)

lemma acts_bind_ungrouped:
  assumes ps: "\<forall>p \<in> set ps. binds_projector N p" and N: "named_sets s = N"
  shows "acts (bind_ungrouped src ps h) s (output_bound N src)"
  unfolding bind_ungrouped_def Let_def
  by (rule acts_seq [OF binds_projectors [OF ps N]])
    (auto simp: output_bound_def ungrouped_ok_def projector_bound_def list_ex_iff is_star_iff intro!: grow)

lemma acts_bind_grouped:
  assumes ks: "\<forall>p \<in> set ks. binds_projector N p" and ps: "\<forall>p \<in> set ps. binds_projector N p"
    and h: "\<forall>m. h = Some m \<longrightarrow> binds_expr N m" and N: "named_sets s = N"
  shows "acts (bind_grouped src ks ps h) s (output_bound N src)"
  unfolding bind_grouped_def Let_def
proof (rule acts_step [where J = "named_are N", OF N frames_named [OF growing_binds(3) [OF ks h]] binds_projectors [OF ks N]])
  fix ks' t
  assume ks': "\<forall>k \<in> set ks'. projector_bound N [src] k t" and t: "named_are N t"
  show "acts (requires (list_all (\<lambda>p. \<not> is_star p) ks')
      (sbind (smap (\<lambda>p. p [FixedFields (outputFieldsOf ks'), src]) ps) (\<lambda>ps. requires (ps \<noteq> [])
        (requires (list_all (grouped_projector_ok (group_key_map ks')) ps)
          (sbind (sopt (bind_having (fs_merge (outputFieldsOf ps) (outputFieldsOf ks')) src) h) (\<lambda>h.
             ret \<lparr>out_fields = FixedFields (outputFieldsOf ps), order_by_chain = [FixedFields (fs_merge (outputFieldsOf ps) (outputFieldsOf ks'))],
               projectors = ps, having = h, group_by = Some ks', aggregated = True\<rparr>)))))) t (output_bound N src)"
  proof (cases "list_all (\<lambda>p. \<not> is_star p) ks'")
    case True
    show ?thesis
      unfolding if_P [OF True]
    proof (rule acts_step [where J = "named_are N", OF t frames_named [OF growing_binds(3) [OF ps h]] binds_projectors [OF ps t]])
      fix ps' u
      assume ps': "\<forall>p \<in> set ps'. projector_bound N [FixedFields (outputFieldsOf ks'), src] p u" and u: "named_are N u" "below t u"
      let ?allowed = "fs_merge (outputFieldsOf ps') (outputFieldsOf ks')"
      have "acts (sbind (sopt (bind_having ?allowed src) h) (\<lambda>h.
             ret \<lparr>out_fields = FixedFields (outputFieldsOf ps'), order_by_chain = [FixedFields ?allowed],
               projectors = ps', having = h, group_by = Some ks', aggregated = True\<rparr>)) u (output_bound N src)"
        if g: "list_all (grouped_projector_ok (group_key_map ks')) ps'"
      proof (rule acts_seq [OF acts_sopt [OF acts_bind_having]])
        fix h' v
        assume v: "below u v" and h': "(h' = None \<longleftrightarrow> h = None) \<and> (\<forall>e. h' = Some e \<longrightarrow>
          expr_bound N [FixedFields ?allowed, src] e v \<and> bx_type e = Boolean \<and> (bx_level e = LevelRow \<longrightarrow> bx_required e \<subseteq> ?allowed))"
        have ks'': "\<forall>k \<in> set ks'. projector_bound N [src] k v" using ks' u(2) v projector_bound_below below_trans by blast
        moreover have "\<forall>p \<in> set ps'. projector_bound N [FixedFields (outputFieldsOf ks'), src] p v" using ps' v projector_bound_below by blast
        ultimately show "acts (ret \<lparr>out_fields = FixedFields (outputFieldsOf ps'), order_by_chain = [FixedFields ?allowed],
               projectors = ps', having = h', group_by = Some ks', aggregated = True\<rparr>) v (output_bound N src)"
          using True h' g
          by (auto simp: output_bound_def grouped_ok_def projector_bound_def expr_bound_def fs_merge_def group_key_map_output
              list_all_iff is_star_iff)
      qed (use h u growing_binds(2) [OF ps h] in \<open>auto simp: binds_expr_def bind_having_def intro!: grow\<close>)
      then show "acts (requires (ps' \<noteq> []) (requires (list_all (grouped_projector_ok (group_key_map ks')) ps')
          (sbind (sopt (bind_having ?allowed src) h) (\<lambda>h.
             ret \<lparr>out_fields = FixedFields (outputFieldsOf ps'), order_by_chain = [FixedFields ?allowed],
               projectors = ps', having = h, group_by = Some ks', aggregated = True\<rparr>)))) u (output_bound N src)"
        by simp
    qed (intro growing_sbind growing_if growing_basic growing_binds [OF ps h])
  qed simp
qed (intro growing_sbind growing_if growing_basic growing_binds [OF ps h])


lemma ungrouped_ok_below: "below s t \<Longrightarrow> ungrouped_ok s src fs ps h ob agg \<Longrightarrow> ungrouped_ok t src fs ps h ob agg"
  using fields_of_subset [of s t src] unfolding ungrouped_ok_def by (cases agg) (simp, simp, blast)

lemma grouped_ok_below: "below s t \<Longrightarrow> grouped_ok s src fs ps h ob ks \<Longrightarrow> grouped_ok t src fs ps h ob ks"
  using fields_of_subset [of s t src] unfolding grouped_ok_def by blast

lemma ok_below:
  fixes e :: "brelation bexpr" and p :: "brelation bprojector"
  assumes "below s t"
  shows "expr_ok s (\<lambda>m i. True) e \<Longrightarrow> expr_ok t (\<lambda>m i. True) e" "projector_ok s (\<lambda>m i. True) p \<Longrightarrow> projector_ok t (\<lambda>m i. True) p"
  using expr_ok_below [OF assms, of False e] projector_ok_below [OF assms, of False p] by auto

lemma output_bound_below: "below s t \<Longrightarrow> output_bound N src out s \<Longrightarrow> output_bound N src out t"
  unfolding output_bound_def
  by (auto dest: ok_below rels_ok_below prels_ok_below ungrouped_ok_below grouped_ok_below split: option.splits)

lemma ungrouped_ok_order_by: "ungrouped_ok s src fs ps h None agg \<Longrightarrow>
    (\<And>es desc e. \<not> agg \<Longrightarrow> ob = Some (es, desc) \<Longrightarrow> e \<in> set es \<Longrightarrow> bx_required e \<subseteq> outputFieldsOf ps \<union> fields_of s src) \<Longrightarrow>
    ungrouped_ok s src fs ps h ob agg"
  by (simp add: ungrouped_ok_def)

lemma grouped_ok_order_by: "grouped_ok s src fs ps h None ks \<Longrightarrow>
    (\<And>es desc e. ob = Some (es, desc) \<Longrightarrow> e \<in> set es \<Longrightarrow> bx_required e \<subseteq> outputFieldsOf ps \<union> outputFieldsOf ks) \<Longrightarrow>
    grouped_ok s src fs ps h ob ks"
  by (simp add: grouped_ok_def)

lemma acts_bind_select:
  assumes ps: "\<forall>p \<in> set ps. binds_projector N p"
    and r: "growing r" "frames named_sets r" "\<And>s. named_sets s = N \<Longrightarrow> acts r s (\<lambda>r t. brel_ok False t N r)"
    and w: "\<forall>m. w = Some m \<longrightarrow> binds_expr N m" and h: "\<forall>m. h = Some m \<longrightarrow> binds_expr N m"
    and ob: "\<forall>es d. ob = Some (es, d) \<longrightarrow> (\<forall>e \<in> set es. binds_expr N e)"
    and gb: "\<forall>ks. gb = Some ks \<longrightarrow> (\<forall>k \<in> set ks. binds_projector N k)"
    and N: "named_sets s = N"
  shows "acts (bind_select ps r lm w h ob gb) s (\<lambda>r t. brel_ok False t N r)"
proof -
  define finish where "finish src w out = sbind (sopt (bind_order_by (order_by_chain out)) ob) (\<lambda>ob.
      ret (BSelect (out_fields out) (projectors out) src lm w (having out) ob (group_by out) (aggregated out)))" for src w and out :: select_output
  define select where "select src = (case gb of Some ks \<Rightarrow> bind_grouped src ks ps h | None \<Rightarrow> bind_ungrouped src ps h)" for src
  define body where "body src w = requires (case lm of None \<Rightarrow> True | Some n \<Rightarrow> 0 \<le> n) (sbind (select (fields_out src)) (finish src w))"
    for src w
  have gw: "growing (sopt (bind_where ch) w)" "frames named_sets (sopt (bind_where ch) w)" for ch
    using w by (auto simp: bind_where_def binds_expr_def intro!: grow frame)
  have gs: "growing (select src)" "frames named_sets (select src)" for src
    unfolding select_def bind_grouped_def bind_ungrouped_def bind_having_def Let_def
    by (intro grow; use ps h gb in \<open>auto simp: binds_expr_def binds_projector_def\<close>)
      (intro frame; use ps h gb in \<open>auto simp: binds_expr_def binds_projector_def\<close>)
  have go: "growing (finish src w out)" for src w out
    using ob by (auto simp: finish_def bind_order_by_def binds_expr_def intro!: grow)
  have gb': "growing (body src w)" for src w
    unfolding body_def by (intro growing_if growing_sbind growing_basic gs go)
  have "acts (sbind r (\<lambda>source. sbind (sopt (bind_where [fields_out source]) w) (body source))) s (\<lambda>r t. brel_ok False t N r)"
  proof (rule acts_step [where J = "named_are N", OF N frames_named [OF r(2)] r(3) [OF N]])
    fix source s1 assume s1: "named_are N s1" "brel_ok False s1 N source"
    let ?src = "fields_out source"
    show "acts (sbind (sopt (bind_where [?src]) w) (body source)) s1 (\<lambda>r t. brel_ok False t N r)"
    proof (rule acts_step [where J = "named_are N", OF s1(1) frames_named [OF gw(2)] acts_sopt [OF acts_bind_where]])
      fix w' s2 assume b2: "below s1 s2" and s2: "named_are N s2" and
        w': "(w' = None \<longleftrightarrow> w = None) \<and> (\<forall>e. w' = Some e \<longrightarrow> expr_bound N [?src] e s2 \<and> bx_type e = Boolean \<and> bx_level e \<noteq> LevelGroup)"
      have out: "acts (select ?src) s2 (output_bound N ?src)"
        using acts_bind_grouped [OF _ ps h s2] acts_bind_ungrouped [OF ps s2] gb by (cases gb) (auto simp: select_def)
      have "acts (sbind (select ?src) (finish source w')) s2 (\<lambda>r t. brel_ok False t N r)"
        if lm: "case lm of None \<Rightarrow> True | Some n \<Rightarrow> 0 \<le> n"
      proof (rule acts_step [where J = "named_are N", OF s2 frames_named [OF gs(2)] out])
        fix out s3 assume b3: "below s2 s3" and s3: "named_are N s3" and o3: "output_bound N ?src out s3"
        have ob3: "acts (sopt (bind_order_by (order_by_chain out)) ob) s3
            (\<lambda>ob' t. (ob' = None \<longleftrightarrow> ob = None) \<and> (\<forall>x. ob' = Some x \<longrightarrow> (\<forall>e \<in> set (fst x). expr_bound N (order_by_chain out) e t)))"
          by (rule acts_sopt, rule acts_bind_order_by) (use ob s3 in auto)
        show "acts (finish source w' out) s3 (\<lambda>r t. brel_ok False t N r)"
          unfolding finish_def
        proof (rule acts_seq [OF ob3])
          fix ob' :: "(brelation bexpr list \<times> bool) option" and s4 assume b4: "below s3 s4" and
            ob': "(ob' = None \<longleftrightarrow> ob = None) \<and> (\<forall>x. ob' = Some x \<longrightarrow> (\<forall>e \<in> set (fst x). expr_bound N (order_by_chain out) e s4))"
          have src4: "brel_ok False s4 N source" using s1(2) b2 b3 b4 brel_ok_below below_trans by blast
          have w4: "\<forall>e. w' = Some e \<longrightarrow> expr_bound N [?src] e s4" using w' b3 b4 expr_bound_below by blast
          have o4: "output_bound N ?src out s4" using o3 b4 output_bound_below by blast
          have obc: "bx_required e \<subseteq> chain_fields s4 (order_by_chain out)" "expr_ok s4 (\<lambda>m i. True) e"
            if "ob' = Some (es, desc)" "e \<in> set es" for es desc e
            using ob' that by (auto simp: expr_bound_def)
          have "case group_by out of None \<Rightarrow> ungrouped_ok s4 ?src (out_fields out) (projectors out) (having out) ob' (aggregated out)
              | Some ks \<Rightarrow> grouped_ok s4 ?src (out_fields out) (projectors out) (having out) ob' ks"
          proof (cases "group_by out")
            case None
            with o4 have u: "ungrouped_ok s4 ?src (out_fields out) (projectors out) (having out) None (aggregated out)"
              "\<not> aggregated out \<longrightarrow> order_by_chain out = [FixedFields (outputFieldsOf (projectors out)), ?src]"
              by (simp_all add: output_bound_def)
            show ?thesis unfolding None option.case
              by (rule ungrouped_ok_order_by [OF u(1)]) (use u(2) obc(1) in fastforce)
          next
            case (Some ks)
            with o4 have g: "grouped_ok s4 ?src (out_fields out) (projectors out) (having out) None ks"
              "order_by_chain out = [FixedFields (outputFieldsOf (projectors out) \<union> outputFieldsOf ks)]"
              by (simp_all add: output_bound_def)
            show ?thesis unfolding Some option.case
              by (rule grouped_ok_order_by [OF g(1)]) (use g(2) obc(1) in fastforce)
          qed
          then have "select_ok s4 (\<lambda>m i. True) ?src (out_fields out) (projectors out) lm w' (having out) ob' (group_by out) (aggregated out)"
            using o4 w4 w' obc(2) lm unfolding select_ok_def output_bound_def expr_bound_def
            by (auto split: option.splits)
          moreover have "\<forall>e. w' = Some e \<longrightarrow> rels_ok False s4 N e" using w4 by (auto simp: expr_bound_def)
          moreover have "\<forall>es desc. ob' = Some (es, desc) \<longrightarrow> (\<forall>e \<in> set es. rels_ok False s4 N e)"
            using ob' by (auto simp: expr_bound_def)
          ultimately show "acts (ret (BSelect (out_fields out) (projectors out) source lm w' (having out) ob' (group_by out) (aggregated out))) s4
              (\<lambda>r t. brel_ok False t N r)"
            using src4 o4 by (auto simp: brel_ok_select output_bound_def)
        qed (rule growing_basic)
      qed (rule go)
      then show "acts (body source w') s2 (\<lambda>r t. brel_ok False t N r)" by (simp add: body_def)
    qed (use w s1 gb' in auto)
  qed (intro growing_sbind gw gb')
  then show ?thesis unfolding bind_select_def finish_def [abs_def] select_def [abs_def] body_def [abs_def] .
qed


lemma acts_bind_literal: "acts (bind_literal l) s (\<lambda>v t. True)"
  by (auto simp: bind_literal_def intro!: acts_seq [where P = "\<lambda>_ _. True"] grow split: option.splits)

lemma acts_bind_literals: "\<forall>v \<in> set vs. type v = type (hd vs) \<Longrightarrow> acts (bind_literals vs ls) s (\<lambda>ws t. \<forall>v \<in> set ws. type v = type (hd ws))"
proof (induction ls arbitrary: vs s)
  case (Cons l ls)
  show ?case
    unfolding bind_literals.simps
  proof (rule acts_seq [OF acts_bind_literal])
    fix v t
    show "acts (requires (type v = type (hd (vs @ [v]))) (bind_literals (vs @ [v]) ls)) t (\<lambda>ws t. \<forall>v \<in> set ws. type v = type (hd ws))"
    proof (cases "type v = type (hd (vs @ [v]))")
      case True
      have "\<forall>w \<in> set (vs @ [v]). type w = type (hd (vs @ [v]))" using Cons.prems True by (cases vs) simp_all
      from Cons.IH [OF this] True show ?thesis by simp
    qed simp
  qed (auto intro!: grow)
qed simp

lemma acts_bind_adhoc: "acts (bind_adhoc ls) s (\<lambda>r t. brel_ok False t N r)"
  unfolding bind_adhoc_def
proof (rule acts_seq [OF acts_bind_literals])
  fix vs t assume vs: "\<forall>v \<in> set vs. type v = type (hd vs)"
  show "acts (sbind (get_or_add ''anon'' (if vs = [] then Null else type (hd vs))) (\<lambda>i. ret (BAdhoc (FixedFields {i}) vs i))) t
      (\<lambda>r t. brel_ok False t N r)"
  proof (rule acts_seq [OF acts_get_or_add])
    fix i u assume i: "known u i ''anon'' (if vs = [] then Null else type (hd vs)) \<and> cells u = cells t"
    have "\<exists>v. types (binding u) i = Some v \<and> (\<forall>x \<in> set vs. type x = v)"
    proof (intro exI conjI ballI)
      show "types (binding u) i = Some (if vs = [] then Null else type (hd vs))" using i by (simp add: known_def)
      fix x assume x: "x \<in> set vs"
      with bspec [OF vs x] show "type x = (if vs = [] then Null else type (hd vs))" by (cases "vs = []") simp_all
    qed
    then show "acts (ret (BAdhoc (FixedFields {i}) vs i)) u (\<lambda>r t. brel_ok False t N r)" by (simp only: acts_simps brel_ok.simps) simp
  qed (intro grow)
qed (simp, intro grow)

lemma level_ok_call:
  assumes "call_ok args info f es" "\<forall>e \<in> set args. level_ok e"
  shows "level_ok (BFnCall info f es)"
proof (cases "isScalar f")
  case True
  with assms(1) have c: "set es \<subseteq> set args" "required_fields info = \<Union> (set (map (\<lambda>e. bx_required e) es))"
    "\<forall>e \<in> set es. bx_level e = LevelConst \<or> bx_level e = info_level info" unfolding call_ok_def by simp_all
  have e: "level_ok e" "bx_level e = LevelConst \<or> bx_level e = info_level info" if "e \<in> set es" for e
    using c that assms(2) by blast+
  have "row_ids e = {} \<and> \<not> has_in e" if "info_level info \<noteq> LevelRow" "e \<in> set es" for e
    using e [OF that(2)] that(1) unfolding level_ok_def by (metis ExprKindLevel.distinct)
  moreover have "\<not> has_agg e" if "info_level info \<noteq> LevelGroup" "e \<in> set es" for e
    using e [OF that(2)] that(1) unfolding level_ok_def by (metis ExprKindLevel.distinct)
  moreover have "row_ids e \<subseteq> required_fields info" if "e \<in> set es" for e
    using e(1) [OF that] that unfolding level_ok_def c(2) by fastforce
  ultimately have "info_level info \<noteq> LevelRow \<longrightarrow> row_ids (BFnCall info f es) = {} \<and> \<not> has_in (BFnCall info f es)"
    "info_level info \<noteq> LevelGroup \<longrightarrow> \<not> has_agg (BFnCall info f es)" "row_ids (BFnCall info f es) \<subseteq> required_fields info"
    using True by simp_all blast
  then show ?thesis unfolding level_ok_def by simp
next
  case False
  with assms(1) show ?thesis by (simp add: level_ok_def call_ok_def)
qed

lemma binary_fn_types: "binary_allowed b l r \<Longrightarrow> fn_types (binary_function b l) [l, r] (binary_type b l)"
  by (rule fn_types_self) (cases b; auto simp: same_operands_def)

lemma unary_fn_types: "unaryExprResultType u t = Inr v \<Longrightarrow> fn_types (unary_function u) [t] v"
  by (rule fn_types_self) (cases u; auto split: if_splits)

lemma composed_level: "composed a b = Inr c \<Longrightarrow> (a = LevelConst \<or> a = c) \<and> (b = LevelConst \<or> b = c)"
  by (auto simp: composed_def composable_def split: if_splits)

lemma level_ok_binary:
  assumes "composed (bx_level l) (bx_level r) = Inr (info_level info)" "required_fields info = bx_required l \<union> bx_required r" "level_ok l" "level_ok r"
  shows "level_ok (BBinary info t l r)"
proof -
  have e: "bx_level e = LevelConst \<or> bx_level e = info_level info" "level_ok e" if "e = l \<or> e = r" for e
    using that composed_level [OF assms(1)] assms(3,4) by auto
  have "row_ids e = {} \<and> \<not> has_in e" if "info_level info \<noteq> LevelRow" "e = l \<or> e = r" for e
    using e [OF that(2)] that(1) by (auto simp: level_ok_def)
  moreover have "\<not> has_agg e" if "info_level info \<noteq> LevelGroup" "e = l \<or> e = r" for e
    using e [OF that(2)] that(1) by (auto simp: level_ok_def)
  moreover have "row_ids e \<subseteq> required_fields info" if "e = l \<or> e = r" for e
    using e(2) [OF that] assms(2) that by (auto simp: level_ok_def)
  ultimately show ?thesis by (simp add: level_ok_def)
qed


lemma smap_map: "smap f (map g xs) = smap (\<lambda>x. f (g x)) xs"
  by (induction xs) auto

text \<open>The steps on expressions.\<close>

lemma bind_call_bound:
  assumes "bindFnCallExpr fn args = Inr (info, f, es)" "\<forall>e \<in> set args. expr_bound N ch e s"
  shows "expr_bound N ch (BFnCall info f es) s"
proof -
  from bind_call_ok [OF assms(1)] have c: "call_ok args info f es" .
  then have sub: "set es \<subseteq> set args" by (simp add: call_ok_def)
  have "level_ok (BFnCall info f es)"
    by (rule level_ok_call [OF c]) (use assms(2) in \<open>auto simp: expr_bound_def expr_ok_def\<close>)
  with c sub assms(2) show ?thesis
    by (auto simp: expr_bound_def expr_ok_def rels_ok_def call_ok_def subset_iff; meson)
qed

lemma bind_binary_bound:
  assumes "bindBinaryExpr l r b = Inr (info, t)" "expr_bound N ch l s" "expr_bound N ch r s"
  shows "expr_bound N ch (BBinary info t l r) s"
proof -
  obtain v level where i: "binaryExprResultType (binary_exprType b) (bx_type l) (bx_type r) = Inr v" "t = binary_exprType b"
      "composed (bx_level l) (bx_level r) = Inr level"
      "info = \<lparr>info_type = v, info_level = level, required_fields = fs_merge (bx_required l) (bx_required r)\<rparr>"
    using assms(1) by (auto simp: bindBinaryExpr_def split: if_splits)
  then have "binary_allowed t (bx_type l) (bx_type r)" "v = binary_type t (bx_type l)"
    by (auto simp: binaryExprResultType_def split: if_splits)
  with binary_fn_types have "fn_types (binary_function t (bx_type l)) [bx_type l, bx_type r] (info_type info)" by (simp add: i(4))
  moreover have "level_ok (BBinary info t l r)"
    by (rule level_ok_binary) (use i assms(2,3) in \<open>auto simp: fs_merge_def expr_bound_def expr_ok_def\<close>)
  ultimately show ?thesis using assms(2,3) by (auto simp: expr_bound_def expr_ok_def rels_ok_def i(4) fs_merge_def)
qed

lemma bind_unary_bound:
  assumes "bindUnaryExpr e u = Inr (info, t)" "expr_bound N ch e s"
  shows "expr_bound N ch (BUnary info t e) s"
  using assms unary_fn_types by (auto simp: bindUnaryExpr_def expr_bound_def expr_ok_def level_ok_def rels_ok_def)

lemma bind_like_bound:
  assumes "bindLikeExpr e = Inr info" "expr_bound N ch e s"
  shows "expr_bound N ch (BLike info e re) s"
  using assms by (auto simp: bindLikeExpr_def expr_bound_def expr_ok_def level_ok_def rels_ok_def split: if_splits)

lemma bind_in_bound:
  assumes "bindInExpr e = Inr info" "expr_bound N ch e s" "brel_ok False s N m"
  shows "expr_bound N ch (BIn info e m i) s"
  using assms by (auto simp: bindInExpr_def expr_bound_def expr_ok_def level_ok_def rels_ok_def split: if_splits)


lemma chain_fields_2 [simp]: "chain_fields s [r] = fields_of s r"
  by simp

lemma acts_named:
  fixes m :: "'a bind"
  assumes "\<And>s. named_sets s = N \<Longrightarrow> acts m s P" "frames named_sets m" "named_sets s = N"
    and "\<And>x. growing (f x)"
    and "\<And>x t. below s t \<Longrightarrow> room t \<Longrightarrow> store_wf t \<Longrightarrow> named_sets t = N \<Longrightarrow> P x t \<Longrightarrow> acts (f x) t Q"
  shows "acts (sbind m f) s Q"
  by (rule acts_step [where J = "named_are N", OF assms(3) frames_named [OF assms(2)] assms(1) [OF assms(3)] assms(4)]) (use assms(5) in auto)

lemma acts_bind_left_join:
  assumes a: "\<And>s. named_sets s = N \<Longrightarrow> acts a s (expr_bound N [fs])" "growing a" "frames named_sets a"
    and b: "\<And>s. named_sets s = N \<Longrightarrow> acts b s (expr_bound N [fs])" "growing b" "frames named_sets b"
    and s: "named_sets s = N" "brel_ok False s N left" "brel_ok False s N right"
    and fs: "fs = CombinedFields {} [fields_out left, fields_out right]"
  shows "acts (bind_left_join fs left right a b) s (\<lambda>r t. brel_ok False t N r)"
  unfolding bind_left_join_def
proof (rule acts_named [OF a(1) a(3) s(1)])
  fix first v assume v: "below s v" "named_sets v = N" "expr_bound N [fs] first v"
  show "acts (sbind b (\<lambda>second. requires (bx_level first \<noteq> LevelGroup \<and> bx_level second \<noteq> LevelGroup)
      (sbind (lift (bindBinaryExpr first second AstEqual)) (\<lambda>_. ret (BLeftJoin fs left right first second))))) v (\<lambda>r t. brel_ok False t N r)"
  proof (rule acts_named [OF b(1) b(3) v(2)])
    fix second w assume w: "below v w" "expr_bound N [fs] second w"
    have "brel_ok False w N left" "brel_ok False w N right" using s v(1) w(1) brel_ok_below by (meson below_trans)+
    moreover have "expr_bound N [fs] first w" using v(3) w(1) expr_bound_below by blast
    ultimately have ok: "brel_ok False w N (BLeftJoin fs left right first second)" using w(2) fs by (simp add: expr_bound_def)
    have "acts (sbind (lift (bindBinaryExpr first second AstEqual)) (\<lambda>_. ret (BLeftJoin fs left right first second))) w (\<lambda>r t. brel_ok False t N r)"
      by (rule acts_seq [where P = "\<lambda>_ u. u = w"]) (use ok in \<open>auto intro: grow\<close>)
    then show "acts (requires (bx_level first \<noteq> LevelGroup \<and> bx_level second \<noteq> LevelGroup)
      (sbind (lift (bindBinaryExpr first second AstEqual)) (\<lambda>_. ret (BLeftJoin fs left right first second)))) w (\<lambda>r t. brel_ok False t N r)"
      by simp
  qed (auto intro!: grow)
qed (auto intro!: grow b)

lemma growingD: "growing m \<Longrightarrow> acts m s (\<lambda>_ _. True)"
  by (simp add: growing_def)

lemma acts_new_open: "acts new_cell s (\<lambda>r t. \<exists>k. r = OpenFields k)"
  using acts_new_cell [of s] by (auto simp: acts_def post_def new_cell_def)

lemma binder_typed:
  shows "named_sets s = N \<Longrightarrow> acts (bind_expr X order e ch) s (expr_bound N ch)"
    and "named_sets s = N \<Longrightarrow> acts (bind_projector X order p ch) s (projector_bound N ch)"
    and "named_sets s = N \<Longrightarrow> acts (bind_relation X order r) s (\<lambda>r t. brel_ok False t N r)"
proof (induction X order e ch and X order p ch and X order r arbitrary: s and s and s rule: bind_expr_bind_projector_bind_relation.induct)
  case (1 X order n ch)
  show ?case
    unfolding bind_expr.simps
    by (rule acts_seq [OF acts_bind_identifier]) (auto intro!: grow simp: expr_bound_def expr_ok_def level_ok_def rels_ok_def)
next
  case (2 X order l ch)
  show ?case
    unfolding bind_expr.simps
    by (rule acts_seq [OF acts_bind_literal]) (auto intro!: grow simp: expr_bound_def expr_ok_def level_ok_def rels_ok_def)
next
  case (3 X order e r ch)
  show ?case
    unfolding bind_expr.simps
  proof (rule acts_named [OF 3(1) frames_binder(1) 3(3)])
    fix e' t assume t: "named_sets t = N" "expr_bound N ch e' t"
    show "acts (sbind (bind_relation X order r) (\<lambda>m. sbind (lift (bindInExpr e')) (\<lambda>info. ret (BIn info e' m UnknownFieldId)))) t (expr_bound N ch)"
    proof (rule acts_named [OF 3(2) frames_binder(3) t(1)])
      fix m u assume u: "below t u" "brel_ok False u N m"
      have "expr_bound N ch e' u" using t(2) u(1) expr_bound_below by blast
      with u(2) show "acts (sbind (lift (bindInExpr e')) (\<lambda>info. ret (BIn info e' m UnknownFieldId))) u (expr_bound N ch)"
        by (intro acts_seq [where P = "\<lambda>info v. v = u \<and> bindInExpr e' = Inr info"]) (auto intro: grow bind_in_bound)
    qed (auto intro!: grow)
  qed (auto intro!: grow)
next
  case (4 X order e re ch)
  show ?case
    unfolding bind_expr.simps
  proof (rule acts_named [OF 4(1) frames_binder(1) 4(2)])
    fix e' t assume t: "expr_bound N ch e' t"
    then show "acts (sbind (lift (bindLikeExpr e')) (\<lambda>info. ret (BLike info e' re))) t (expr_bound N ch)"
      by (intro acts_seq [where P = "\<lambda>info v. v = t \<and> bindLikeExpr e' = Inr info"]) (auto intro: grow bind_like_bound)
  qed (auto intro!: grow)
next
  case (5 X order f es ch)
  have "acts (smap (\<lambda>e. bind_expr X order e ch) es) s (\<lambda>es t. \<forall>e \<in> set es. expr_bound N ch e t)"
    by (rule acts_smap [where J = "named_are N"]) (use 5 in \<open>auto intro!: grow frames_named frame intro: expr_bound_below\<close>)
  then show ?case
    unfolding bind_expr.simps
  proof (rule acts_seq)
    fix args t assume t: "\<forall>e \<in> set args. expr_bound N ch e t"
    show "acts (sbind (lift (bindFnCallExpr f args)) (\<lambda>(info, func, dynamic). ret (BFnCall info func dynamic))) t (expr_bound N ch)"
      by (rule acts_seq [where P = "\<lambda>x v. v = t \<and> bindFnCallExpr f args = Inr x"])
        (auto intro!: grow bind_call_bound [OF _ t])
  qed (auto intro!: grow)
next
  case (6 X order b l r ch)
  show ?case
    unfolding bind_expr.simps
  proof (rule acts_named [OF 6(1) frames_binder(1) 6(3)])
    fix l' t assume t: "named_sets t = N" "expr_bound N ch l' t"
    show "acts (sbind (bind_expr X order r ch) (\<lambda>r. sbind (lift (bindBinaryExpr l' r b)) (\<lambda>(info, v). ret (BBinary info v l' r)))) t (expr_bound N ch)"
    proof (rule acts_named [OF 6(2) frames_binder(1) t(1)])
      fix r' u assume u: "below t u" "expr_bound N ch r' u"
      have l: "expr_bound N ch l' u" using t(2) u(1) expr_bound_below by blast
      show "acts (sbind (lift (bindBinaryExpr l' r' b)) (\<lambda>(info, v). ret (BBinary info v l' r'))) u (expr_bound N ch)"
        by (rule acts_seq [where P = "\<lambda>x v. v = u \<and> bindBinaryExpr l' r' b = Inr x"])
          (auto intro!: grow bind_binary_bound [OF _ l u(2)])
    qed (auto intro!: grow)
  qed (auto intro!: grow)
next
  case (7 X order b e ch)
  show ?case
    unfolding bind_expr.simps
  proof (rule acts_named [OF 7(1) frames_binder(1) 7(2)])
    fix e' t assume t: "expr_bound N ch e' t"
    show "acts (sbind (lift (bindUnaryExpr e' b)) (\<lambda>(info, v). ret (BUnary info v e'))) t (expr_bound N ch)"
      by (rule acts_seq [where P = "\<lambda>x v. v = t \<and> bindUnaryExpr e' b = Inr x"]) (auto intro!: grow bind_unary_bound [OF _ t])
  qed (auto intro!: grow)
next
  case (8 X order ch)
  show ?case by (simp add: projector_bound_def prels_ok_def)
next
  case (9 X order n ch)
  show ?case
    unfolding bind_projector.simps
    by (rule acts_seq [OF acts_bind_identifier]) (auto intro!: grow simp: projector_bound_def prels_ok_def)
next
  case (10 X order n e ch)
  show ?case
    unfolding bind_projector.simps
  proof (rule acts_named [OF 10(1) frames_binder(1) 10(2)])
    fix e' t assume t: "expr_bound N ch e' t"
    show "acts (sbind (get_or_add n (bx_type e')) (\<lambda>i. ret (BExprProjector i e'))) t (projector_bound N ch)"
    proof (rule acts_seq [OF acts_get_or_add])
      fix i u assume u: "below t u" "known u i n (bx_type e') \<and> cells u = cells t"
      have "expr_bound N ch e' u" using t u(1) expr_bound_below by blast
      with u(2) show "acts (ret (BExprProjector i e')) u (projector_bound N ch)"
        by (simp add: projector_bound_def expr_bound_def prels_ok_def rels_ok_def known_def)
    qed (auto intro!: grow)
  qed (auto intro!: grow)
next
  case (11 X order ls)
  show ?case by (simp add: acts_bind_adhoc)
next
  case (12 X order ps r lm w h ob gb)
  show ?case
    unfolding bind_relation.simps
    by (rule acts_bind_select) (use 12 in \<open>auto simp: binds_expr_def binds_projector_def intro: grow frame\<close>)
next
  case (13 X order a r)
  show ?case
    unfolding bind_relation.simps by (rule acts_named [OF 13(1) frames_binder(3) 13(2)]) (auto intro!: grow)
next
  case (14 X order l r c)
  show ?case
    unfolding bind_relation.simps Let_def
  proof (rule acts_named [OF 14(1) frames_binder(3) 14(5)])
    fix left :: brelation and t :: bind_state assume t: "named_sets t = N" "brel_ok False t N left"
    show "acts (sbind (bind_relation X order r) (\<lambda>right. case c of
        AstBinary AstEqual a b \<Rightarrow> bind_left_join (CombinedFields {} [fields_out left, fields_out right]) left right
          (bind_expr X order a [CombinedFields {} [fields_out left, fields_out right]])
          (bind_expr X order b [CombinedFields {} [fields_out left, fields_out right]])
      | _ \<Rightarrow> raise Thrown)) t (\<lambda>r t. brel_ok False t N r)"
    proof (rule acts_named [OF 14(2) frames_binder(3) t(1)])
      fix right u assume u: "below t u" "named_sets u = N" "brel_ok False u N right"
      have left: "brel_ok False u N left" using t(2) u(1) brel_ok_below by blast
      show "acts (case c of
        AstBinary AstEqual a b \<Rightarrow> bind_left_join (CombinedFields {} [fields_out left, fields_out right]) left right
          (bind_expr X order a [CombinedFields {} [fields_out left, fields_out right]])
          (bind_expr X order b [CombinedFields {} [fields_out left, fields_out right]])
        | _ \<Rightarrow> raise Thrown) u (\<lambda>r t. brel_ok False t N r)"
      proof (cases "\<exists>a b. c = AstBinary AstEqual a b")
        case True
        then obtain a b where c: "c = AstBinary AstEqual a b" by blast
        show ?thesis
          unfolding c ast_expr.case ast_binary.case
          by (rule acts_bind_left_join [OF _ growing_binder(1) frames_binder(1) _ growing_binder(1) frames_binder(1) u(2) left u(3) refl])
            (use 14(3) [of _ _ _ AstEqual a b] 14(4) [of _ _ _ AstEqual a b] c in auto)
      next
        case False
        then show ?thesis by (auto split: ast_expr.split ast_binary.split)
      qed
    qed (auto intro!: grow split: ast_expr.split ast_binary.split)
  qed (auto intro!: grow split: ast_expr.split ast_binary.split)
next
  case (15 X order l r)
  show ?case
    unfolding bind_relation.simps
  proof (rule acts_named [OF 15(1) frames_binder(3) 15(3)])
    fix left :: brelation and t :: bind_state assume t: "named_sets t = N" "brel_ok False t N left"
    show "acts (sbind (bind_relation X order r) (\<lambda>right. ret (BUnionAll (CombinedFields {} [fields_out left, fields_out right]) left right))) t
        (\<lambda>r t. brel_ok False t N r)"
      by (rule acts_named [OF 15(2) frames_binder(3) t(1)]) (use t(2) in \<open>auto intro!: grow dest: brel_ok_below\<close>)
  qed (auto intro!: grow)
next
  case (16 X order l r es desc)
  show ?case
    unfolding bind_relation.simps Let_def
  proof (rule acts_named [OF 16(1) frames_binder(3) 16(4)])
    fix left :: brelation and t :: bind_state assume t: "named_sets t = N" "brel_ok False t N left"
    show "acts (sbind (bind_relation X order r) (\<lambda>right. sbind (smap (\<lambda>e. bind_expr X order e [CombinedFields {} [fields_out left, fields_out right]]) es)
        (\<lambda>order_list. requires (order_list \<noteq> []) (ret (BUnionAllSortedBy (CombinedFields {} [fields_out left, fields_out right]) left right order_list desc))))) t
        (\<lambda>r t. brel_ok False t N r)"
    proof (rule acts_named [OF 16(2) frames_binder(3) t(1)])
      fix right u assume u: "below t u" "named_sets u = N" "brel_ok False u N right"
      let ?fs = "CombinedFields {} [fields_out left, fields_out right]"
      have left: "brel_ok False u N left" using t(2) u(1) brel_ok_below by blast
      have "acts (smap (\<lambda>e. bind_expr X order e [?fs]) es) u (\<lambda>es t. \<forall>e \<in> set es. expr_bound N [?fs] e t)"
        by (rule acts_smap [where J = "named_are N"]) (use 16(3) u(2) in \<open>auto intro!: grow frames_named frame intro: expr_bound_below\<close>)
      then show "acts (sbind (smap (\<lambda>e. bind_expr X order e [?fs]) es) (\<lambda>order_list. requires (order_list \<noteq> [])
          (ret (BUnionAllSortedBy ?fs left right order_list desc)))) u (\<lambda>r t. brel_ok False t N r)"
        by (rule acts_seq) (use left u(3) in \<open>auto intro!: grow simp: list_all_iff expr_bound_def dest: brel_ok_below\<close>)
    qed (auto intro!: grow)
  qed (auto intro!: grow)
next
  case (17 X order path tr format)
  have "acts (sbind m (\<lambda>r. sbind m' (\<lambda>tf. sbind new_cell (\<lambda>c. ret (BFile c path r tf))))) s (\<lambda>r t. brel_ok False t N r)"
    if "growing m" "growing m'" for m :: "TimeRange option bind" and m' :: "TimeFormat option bind"
    by (intro acts_seq [OF growingD [OF that(1)]] acts_seq [OF growingD [OF that(2)]] acts_seq [OF acts_new_open])
      (auto intro!: grow that)
  note opened = this
  show ?case
    unfolding bind_relation.simps bind_file_def by (rule opened) (auto intro!: grow split: option.splits)
next
  case (18 X order command)
  show ?case
    unfolding bind_relation.simps by (rule acts_seq [OF acts_new_open]) (auto intro!: grow)
next
  case (19 X order n)
  then show ?case
    unfolding bind_relation.simps
    by (intro acts_seq [where P = "\<lambda>x t. x = N n"]) (auto intro!: grow split: option.splits)
next
  case (20 X order r)
  show ?case
    unfolding bind_relation.simps by (rule acts_named [OF 20(1) frames_binder(3) 20(2)]) (auto intro!: grow)
qed

end
