(* ===== verification/Sql_Post.thy ===== *)
theory Sql_Post
  imports Sql_Typing
begin

text \<open>
  post\_run.cpp: the walk over a bound program keeps it typed, gives every IN the one field of its match
  and puts the keys of a join on their sides.
\<close>

section \<open>What the walk keeps\<close>

definition eshape :: "'m bexpr \<Rightarrow> 'n bexpr \<Rightarrow> bool" where
  "eshape e f \<longleftrightarrow> bx_info f = bx_info e \<and> row_ids f = row_ids e \<and> has_in f = has_in e \<and> has_agg f = has_agg e"

fun pshape :: "'m bprojector \<Rightarrow> 'n bprojector \<Rightarrow> bool" where
  "pshape BStar BStar = True"
| "pshape (BIdentifierProjector i) (BIdentifierProjector j) = (i = j)"
| "pshape (BExprProjector i e) (BExprProjector j f) = (i = j \<and> eshape e f)"
| "pshape _ _ = False"

lemma eshape_map [simp]: "eshape e (map_bexpr f e)" "eshape (map_bexpr f e) g \<longleftrightarrow> eshape e g"
  by (simp_all add: eshape_def)

lemma pshape_map [simp]: "pshape (map_bprojector f p) q \<longleftrightarrow> pshape p q"
  by (cases p; cases q) simp_all

lemma eshape_level: "eshape e f \<Longrightarrow> level_ok f \<longleftrightarrow> level_ok e"
  by (simp add: eshape_def level_ok_def)

lemma pshape_simps:
  assumes "pshape p q"
  shows "outputFieldsOf1 q = outputFieldsOf1 p" "is_group_projector q = is_group_projector p"
    "aggregate_projector_ok q = aggregate_projector_ok p" "grouped_projector_ok F q = grouped_projector_ok F p"
    "BIdentifierProjector i = q \<longleftrightarrow> BIdentifierProjector i = p" "BStar = q \<longleftrightarrow> BStar = p"
  using assms by (cases p; cases q; auto simp: eshape_def)+

lemma pshapes_output: "list_all2 pshape ps qs \<Longrightarrow> outputFieldsOf qs = outputFieldsOf ps"
  unfolding outputFieldsOf_Union by (induction rule: list_all2_induct) (auto dest: pshape_simps(1))

lemma pshapes_all:
  assumes "list_all2 pshape ps qs"
  shows "list_all aggregate_projector_ok qs = list_all aggregate_projector_ok ps"
    "list_all (grouped_projector_ok F) qs = list_all (grouped_projector_ok F) ps"
    "(\<forall>q \<in> set qs. \<not> is_group_projector q) \<longleftrightarrow> (\<forall>p \<in> set ps. \<not> is_group_projector p)"
    "BIdentifierProjector i \<in> set qs \<longleftrightarrow> BIdentifierProjector i \<in> set ps" "BStar \<in> set qs \<longleftrightarrow> BStar \<in> set ps"
  using assms by (induction rule: list_all2_induct; simp only: list.simps list.pred_inject insert_iff ball_simps pshape_simps)+

lemma eshapes_required: "list_all2 eshape es fs \<Longrightarrow> (\<forall>e \<in> set fs. bx_required e \<subseteq> F) \<longleftrightarrow> (\<forall>e \<in> set es. bx_required e \<subseteq> F)"
  by (induction rule: list_all2_induct) (auto simp: eshape_def)

lemma order_by_required: "rel_option (rel_prod (list_all2 eshape) (=)) ob ob' \<Longrightarrow>
    (\<forall>es desc. ob' = Some (es, desc) \<longrightarrow> (\<forall>e \<in> set es. bx_required e \<subseteq> F)) \<longleftrightarrow>
    (\<forall>es desc. ob = Some (es, desc) \<longrightarrow> (\<forall>e \<in> set es. bx_required e \<subseteq> F))"
proof (induction rule: option.rel_induct)
  case (Some x y)
  obtain es desc fs desc' where xy: "x = (es, desc)" "y = (fs, desc')" by (cases x, cases y)
  with Some eshapes_required [of es fs F] show ?case by simp
qed simp

lemma ungrouped_ok_shape:
  assumes "list_all2 pshape ps ps'" "rel_option eshape h h'" "rel_option (rel_prod (list_all2 eshape) (=)) ob ob'"
  shows "ungrouped_ok s src fs ps' h' ob' agg \<longleftrightarrow> ungrouped_ok s src fs ps h ob agg"
  unfolding ungrouped_ok_def pshapes_output [OF assms(1)] pshapes_all [OF assms(1)] order_by_required [OF assms(3)]
  using assms(2) by (cases h; cases h') simp_all

lemma grouped_ok_shape:
  assumes "list_all2 pshape ps ps'" "rel_option eshape h h'"
    "rel_option (rel_prod (list_all2 eshape) (=)) ob ob'" "list_all2 pshape ks ks'"
  shows "grouped_ok s src fs ps' h' ob' ks' \<longleftrightarrow> grouped_ok s src fs ps h ob ks"
  unfolding grouped_ok_def pshapes_output [OF assms(1)] pshapes_output [OF assms(4)] pshapes_all [OF assms(1)] pshapes_all [OF assms(4)]
    order_by_required [OF assms(3)]
  using assms(2) by (cases h; cases h') (simp_all add: eshape_def)

section \<open>The walk\<close>

lemma acts_smap_rel:
  assumes "\<And>x s'. x \<in> set xs \<Longrightarrow> below s s' \<Longrightarrow> acts (f x) s' (P x)" "\<And>x. x \<in> set xs \<Longrightarrow> growing (f x)"
    and stable: "\<And>x y s t. P x y s \<Longrightarrow> below s t \<Longrightarrow> P x y t"
  shows "acts (smap f xs) s (\<lambda>ys t. list_all2 (\<lambda>x y. P x y t) xs ys)"
  using assms(1,2)
proof (induction xs arbitrary: s)
  case (Cons x xs)
  show ?case
    unfolding smap.simps
  proof (rule acts_seq [where P = "P x"])
    fix y t assume t: "below s t" "P x y t"
    have "acts (smap f xs) t (\<lambda>ys t. list_all2 (\<lambda>x y. P x y t) xs ys)"
      by (rule Cons.IH) (use Cons.prems below_trans [OF t(1)] in \<open>auto\<close>)
    then show "acts (sbind (smap f xs) (\<lambda>ys. ret (y # ys))) t (\<lambda>ys t. list_all2 (\<lambda>x y. P x y t) (x # xs) ys)"
      by (rule acts_seq) (use t stable in \<open>auto intro: grow\<close>)
  qed (use Cons.prems in \<open>auto intro!: grow\<close>)
qed simp

text \<open>The walk over a relation that the binder gave.\<close>

definition walks :: "(string \<rightharpoonup> field_set) \<Rightarrow> brelation \<Rightarrow> brelation bind \<Rightarrow> bool" where
  "walks N r m \<longleftrightarrow> growing m \<and> (\<forall>s. brel_ok False s N r \<longrightarrow>
     acts m s (\<lambda>q t. brel_ok True t N q \<and> fields_out q = fields_out r))"

definition expr_walked :: "(string \<rightharpoonup> field_set) \<Rightarrow> brelation bexpr \<Rightarrow> brelation bexpr \<Rightarrow> bind_state \<Rightarrow> bool" where
  "expr_walked N e f s \<longleftrightarrow> eshape e f \<and> expr_wt s (matches True s) f \<and> rels_ok True s N f"

lemma expr_walked_below: "expr_walked N e f s \<Longrightarrow> below s t \<Longrightarrow> expr_walked N e f t"
  unfolding expr_walked_def by (meson expr_wt_below expr_wt_mono matches_below rels_ok_below)

lemma growing_post_expr [grow]: "(\<And>m. m \<in> set_bexpr e \<Longrightarrow> growing m) \<Longrightarrow> growing (post_expr order e)"
  by (induction e) (auto simp: post_in_def intro!: grow)

lemma growing_post_projector [grow]: "(\<And>m. m \<in> set_bprojector p \<Longrightarrow> growing m) \<Longrightarrow> growing (post_projector order p)"
  by (cases p) (auto intro!: grow)

lemma order_hd: "order_ok order \<Longrightarrow> card F = 1 \<Longrightarrow> hd (order F) \<in> F"
  by (metis card_0_eq finite hd_in_set order_set set_empty2 zero_neq_one)

lemma acts_post_in:
  assumes "order_ok order" "expr_walked N e f s" "brel_ok True s N m" "info_type info = Boolean"
  shows "acts (post_in order info f m) s (expr_walked N (BIn info e m0 i0))"
  unfolding post_in_def
proof (rule acts_seq [OF acts_set_fields(1)])
  fix F t assume t: "below s t" "order_ok order \<longrightarrow> F \<subseteq> fields_of t (fields_out m)"
  have ok: "expr_walked N e f t" "brel_ok True t N m" using assms(2,3) t(1) expr_walked_below brel_ok_below by blast+
  have "expr_walked N (BIn info e m0 i0) (BIn info f m (hd (order F))) t" if "card F = 1"
    using ok assms(1,4) t(2) order_hd [OF assms(1) that]
    by (auto simp: expr_walked_def eshape_def rels_ok_def matches_def)
  then show "acts (requires (card F = 1) (sbind (type_of (hd (order F))) (\<lambda>ta. requires (bx_type f = ta) (ret (BIn info f m (hd (order F))))))) t
      (expr_walked N (BIn info e m0 i0))"
    by (auto intro!: acts_seq [where P = "\<lambda>_ u. u = t"] grow)
qed (auto intro!: grow)

lemma acts_post_expr:
  assumes order: "order_ok order"
  shows "(\<And>m. m \<in> set_bexpr e \<Longrightarrow> walks N m (W m)) \<Longrightarrow> expr_wt s (\<lambda>m i. True) e \<Longrightarrow> rels_ok False s N e \<Longrightarrow>
    acts (post_expr order (map_bexpr W e)) s (expr_walked N e)"
proof (induction e arbitrary: s)
  case (BIn info e m i)
  have g: "growing (post_expr order (map_bexpr W e))" "growing (W m)"
    using BIn.prems(1) by (auto simp: walks_def bexpr.set_map intro!: grow)
  show ?case
    unfolding bexpr.map post_expr.simps
  proof (rule acts_seq [OF BIn.IH])
    fix f t assume t: "below s t" "expr_walked N e f t"
    have m: "brel_ok False t N m" using BIn.prems(3) t(1) brel_ok_below by (auto simp: rels_ok_def)
    then have "acts (W m) t (\<lambda>q u. brel_ok True u N q)" using BIn.prems(1) [of m] by (auto simp: walks_def intro: acts_weaken)
    then show "acts (sbind (W m) (\<lambda>m. post_in order info f m)) t (expr_walked N (BIn info e m i))"
    proof (rule acts_seq)
      fix q u assume "below t u" "brel_ok True u N q"
      with t(2) BIn.prems(2) show "acts (post_in order info f q) u (expr_walked N (BIn info e m i))"
        by (intro acts_post_in [OF order]) (auto intro: expr_walked_below)
    qed (auto simp: post_in_def intro!: grow)
  qed (use BIn.prems g in \<open>auto simp: rels_ok_def post_in_def intro!: grow\<close>)
next
  case (BLike info e re)
  show ?case
    unfolding bexpr.map post_expr.simps
    by (rule acts_seq [OF BLike.IH]) (use BLike.prems in \<open>auto simp: rels_ok_def expr_walked_def eshape_def intro!: grow\<close>)
next
  case (BUnary info u e)
  show ?case
    unfolding bexpr.map post_expr.simps
    by (rule acts_seq [OF BUnary.IH]) (use BUnary.prems in \<open>auto simp: rels_ok_def expr_walked_def eshape_def intro!: grow\<close>)
next
  case (BBinary info b l r)
  have g: "growing (post_expr order (map_bexpr W r))"
    using BBinary.prems(1) by (auto simp: walks_def bexpr.set_map intro!: grow)
  show ?case
    unfolding bexpr.map post_expr.simps
  proof (rule acts_seq [OF BBinary.IH(1)])
    fix f t assume t: "below s t" "expr_walked N l f t"
    show "acts (sbind (post_expr order (map_bexpr W r)) (\<lambda>r. ret (BBinary info b f r))) t (expr_walked N (BBinary info b l r))"
    proof (rule acts_seq [OF BBinary.IH(2)])
      fix g u assume u: "below t u" "expr_walked N r g u"
      have "expr_walked N l f u" using t(2) u(1) expr_walked_below by blast
      with u(2) BBinary.prems(2) show "acts (ret (BBinary info b f g)) u (expr_walked N (BBinary info b l r))"
        by (auto simp: expr_walked_def eshape_def rels_ok_def)
    qed (use BBinary.prems t(1) in \<open>auto simp: rels_ok_def intro!: grow intro: expr_wt_below brel_ok_below\<close>)
  qed (use BBinary.prems g in \<open>auto simp: rels_ok_def intro!: grow\<close>)
next
  case (BFnCall info fn es)
  have g: "growing (post_expr order (map_bexpr W e))" if "e \<in> set es" for e
    using BFnCall.prems(1) that by (intro growing_post_expr) (force simp: walks_def bexpr.set_map)
  have "acts (smap (\<lambda>e. post_expr order (map_bexpr W e)) es) s (\<lambda>fs t. list_all2 (\<lambda>e f. expr_walked N e f t) es fs)"
  proof (rule acts_smap_rel)
    fix e s' assume e: "e \<in> set es" "below s s'"
    show "acts (post_expr order (map_bexpr W e)) s' (expr_walked N e)"
      by (rule BFnCall.IH [OF e(1)]) (use BFnCall.prems e in \<open>auto simp: rels_ok_def intro: expr_wt_below brel_ok_below\<close>)
  qed (use g expr_walked_below in auto)
  then show ?case
    unfolding bexpr.map post_expr.simps smap_map
  proof (rule acts_seq)
    fix fs t assume t: "below s t" "list_all2 (\<lambda>e f. expr_walked N e f t) es fs"
    have types: "map (\<lambda>e. bx_type e) fs = map (\<lambda>e. bx_type e) es"
      using t(2) by (induction rule: list_all2_induct) (auto simp: expr_walked_def eshape_def)
    have ids: "map row_ids fs = map row_ids es" and shape: "(\<exists>e \<in> set fs. has_in e) \<longleftrightarrow> (\<exists>e \<in> set es. has_in e)"
      "(\<exists>e \<in> set fs. has_agg e) \<longleftrightarrow> (\<exists>e \<in> set es. has_agg e)"
      using t(2) by (induction rule: list_all2_induct) (auto simp: expr_walked_def eshape_def)
    have "eshape (BFnCall info fn es) (BFnCall info fn fs)" using ids shape by (simp add: eshape_def)
    moreover have "\<forall>f \<in> set fs. expr_wt t (matches True t) f \<and> rels_ok True t N f"
      using t(2) by (induction rule: list_all2_induct) (auto simp: expr_walked_def)
    ultimately have "expr_walked N (BFnCall info fn es) (BFnCall info fn fs) t"
      using BFnCall.prems(2) types by (auto simp: expr_walked_def rels_ok_def)
    then show "acts (ret (BFnCall info fn fs)) t (expr_walked N (BFnCall info fn es))" by simp
  qed (auto intro!: grow)
qed (auto simp: expr_walked_def eshape_def rels_ok_def)

definition projector_walked :: "(string \<rightharpoonup> field_set) \<Rightarrow> brelation bprojector \<Rightarrow> brelation bprojector \<Rightarrow> bind_state \<Rightarrow> bool" where
  "projector_walked N p q s \<longleftrightarrow> pshape p q \<and> projector_ok s (matches True s) q \<and> prels_ok True s N q"

lemma projector_walked_below: "projector_walked N p q s \<Longrightarrow> below s t \<Longrightarrow> projector_walked N p q t"
  using projector_ok_below [of s t True q] prels_ok_below [of s t True N q] by (simp add: projector_walked_def)

lemma expr_walked_ok: "expr_walked N e f s \<Longrightarrow> level_ok e \<Longrightarrow> expr_ok s (matches True s) f"
  using eshape_level [of e f] by (simp add: expr_walked_def expr_ok_def)

lemma expr_walkedD: "expr_walked N e f s \<Longrightarrow> level_ok e \<Longrightarrow>
    expr_ok s (matches True s) f \<and> rels_ok True s N f \<and> bx_info f = bx_info e"
  using expr_walked_ok [of N e f s] by (simp add: expr_walked_def eshape_def)

lemma acts_post_projector:
  assumes order: "order_ok order" and W: "\<And>m. m \<in> set_bprojector p \<Longrightarrow> walks N m (W m)"
    and p: "projector_ok s (\<lambda>m i. True) p" "prels_ok False s N p"
  shows "acts (post_projector order (map_bprojector W p)) s (projector_walked N p)"
proof (cases p)
  case (BExprProjector i e)
  have "acts (post_expr order (map_bexpr W e)) s (expr_walked N e)"
    by (rule acts_post_expr [OF order]) (use W p BExprProjector in \<open>auto simp: expr_ok_def prels_ok_def rels_ok_def\<close>)
  then have "acts (sbind (post_expr order (map_bexpr W e)) (\<lambda>e. ret (BExprProjector i e))) s (projector_walked N p)"
  proof (rule acts_seq)
    fix f t assume t: "below s t" "expr_walked N e f t"
    have "projector_ok t (matches True t) (BExprProjector i f)"
      using p(1) t BExprProjector expr_walked_ok [OF t(2)] below_get(2) [OF t(1)] by (auto simp: expr_ok_def expr_walked_def eshape_def)
    with t(2) BExprProjector show "acts (ret (BExprProjector i f)) t (projector_walked N p)"
      by (simp add: projector_walked_def expr_walked_def prels_ok_def rels_ok_def)
  qed (auto intro!: grow)
  then show ?thesis by (simp add: BExprProjector)
qed (simp_all add: projector_walked_def prels_ok_def)

lemma walks_exprs:
  assumes "order_ok order" "\<And>e m. e \<in> set es \<Longrightarrow> m \<in> set_bexpr e \<Longrightarrow> walks N m (W m)"
    "\<And>e. e \<in> set es \<Longrightarrow> expr_wt s (\<lambda>m i. True) e \<and> rels_ok False s N e"
  shows "acts (smap (post_expr order) (map (map_bexpr W) es)) s (\<lambda>fs t. list_all2 (\<lambda>e f. expr_walked N e f t) es fs)"
    "growing (smap (post_expr order) (map (map_bexpr W) es))"
proof -
  have g: "growing (post_expr order (map_bexpr W e))" if "e \<in> set es" for e
    using assms(2) [OF that] by (intro growing_post_expr) (auto simp: walks_def bexpr.set_map)
  then show "growing (smap (post_expr order) (map (map_bexpr W) es))" unfolding smap_map by (rule growing_smap)
  show "acts (smap (post_expr order) (map (map_bexpr W) es)) s (\<lambda>fs t. list_all2 (\<lambda>e f. expr_walked N e f t) es fs)"
    unfolding smap_map
  proof (rule acts_smap_rel)
    fix e s' assume e: "e \<in> set es" "below s s'"
    show "acts (post_expr order (map_bexpr W e)) s' (expr_walked N e)"
      by (rule acts_post_expr [OF assms(1)])
        (use assms(2,3) e in \<open>auto simp: rels_ok_def intro: expr_wt_below brel_ok_below\<close>)
  qed (use g expr_walked_below in auto)
qed

lemma walks_projectors:
  assumes "order_ok order" "\<And>p m. p \<in> set ps \<Longrightarrow> m \<in> set_bprojector p \<Longrightarrow> walks N m (W m)"
    "\<And>p. p \<in> set ps \<Longrightarrow> projector_ok s (\<lambda>m i. True) p \<and> prels_ok False s N p"
  shows "acts (smap (post_projector order) (map (map_bprojector W) ps)) s (\<lambda>qs t. list_all2 (\<lambda>p q. projector_walked N p q t) ps qs)"
    "growing (smap (post_projector order) (map (map_bprojector W) ps))"
proof -
  have g: "growing (post_projector order (map_bprojector W p))" if "p \<in> set ps" for p
    using assms(2) [OF that] by (intro growing_post_projector) (auto simp: walks_def bprojector.set_map)
  then show "growing (smap (post_projector order) (map (map_bprojector W) ps))" unfolding smap_map by (rule growing_smap)
  show "acts (smap (post_projector order) (map (map_bprojector W) ps)) s (\<lambda>qs t. list_all2 (\<lambda>p q. projector_walked N p q t) ps qs)"
    unfolding smap_map
  proof (rule acts_smap_rel)
    fix p s' assume p: "p \<in> set ps" "below s s'"
    show "acts (post_projector order (map_bprojector W p)) s' (projector_walked N p)"
      by (rule acts_post_projector [OF assms(1)])
        (use assms(2,3) p ok_below(2) [OF p(2)] in \<open>auto intro: prels_ok_below\<close>)
  qed (use g projector_walked_below in auto)
qed

lemma acts_sopt_rel:
  assumes "\<And>x. xo = Some x \<Longrightarrow> acts (f x) s (P x)"
  shows "acts (sopt f xo) s (\<lambda>yo t. rel_option (\<lambda>x y. P x y t) xo yo)"
proof (cases xo)
  case (Some x)
  show ?thesis
    unfolding Some sopt.simps by (rule acts_seq [OF assms [OF Some]]) (auto intro: grow)
qed simp

lemma walks_option:
  assumes "order_ok order" "\<And>e m. w = Some e \<Longrightarrow> m \<in> set_bexpr e \<Longrightarrow> walks N m (W m)"
    "\<And>e. w = Some e \<Longrightarrow> expr_wt s (\<lambda>m i. True) e \<and> rels_ok False s N e"
  shows "acts (sopt (post_expr order) (map_option (map_bexpr W) w)) s (\<lambda>w' t. rel_option (\<lambda>e f. expr_walked N e f t) w w')"
    "growing (sopt (post_expr order) (map_option (map_bexpr W) w))"
proof -
  have g: "growing (post_expr order (map_bexpr W e))" if "w = Some e" for e
    using assms(2) [OF that] by (intro growing_post_expr) (auto simp: walks_def bexpr.set_map)
  then show "growing (sopt (post_expr order) (map_option (map_bexpr W) w))" by (cases w) (auto intro: grow)
  have "acts (post_expr order (map_bexpr W e)) s (expr_walked N e)" if "w = Some e" for e
    by (rule acts_post_expr [OF assms(1)]) (use assms(2,3) that in auto)
  then show "acts (sopt (post_expr order) (map_option (map_bexpr W) w)) s (\<lambda>w' t. rel_option (\<lambda>e f. expr_walked N e f t) w w')"
    by (cases w) (auto intro: acts_seq grow)
qed

lemma walks_order_by:
  assumes "order_ok order" "\<And>es d e m. ob = Some (es, d) \<Longrightarrow> e \<in> set es \<Longrightarrow> m \<in> set_bexpr e \<Longrightarrow> walks N m (W m)"
    "\<And>es d e. ob = Some (es, d) \<Longrightarrow> e \<in> set es \<Longrightarrow> expr_wt s (\<lambda>m i. True) e \<and> rels_ok False s N e"
  shows "acts (sopt (post_order_by order) (map_option (map_prod (map (map_bexpr W)) id) ob)) s
      (\<lambda>ob' t. rel_option (rel_prod (list_all2 (\<lambda>e f. expr_walked N e f t)) (=)) ob ob')"
    "growing (sopt (post_order_by order) (map_option (map_prod (map (map_bexpr W)) id) ob))"
proof -
  have es: "acts (smap (post_expr order) (map (map_bexpr W) es)) s (\<lambda>fs t. list_all2 (\<lambda>e f. expr_walked N e f t) es fs)"
    "growing (smap (post_expr order) (map (map_bexpr W) es))" if ob: "ob = Some (es, d)" for es d
    by (rule walks_exprs [OF assms(1)]; rule assms(2) [OF ob] assms(3) [OF ob]; assumption)+
  have g: "growing (post_order_by order (map (map_bexpr W) es, d))" if "ob = Some (es, d)" for es d
    unfolding post_order_by_def prod.case by (rule growing_sbind [OF es(2) [OF that]]) (rule growing_basic)
  then show "growing (sopt (post_order_by order) (map_option (map_prod (map (map_bexpr W)) id) ob))"
    by (intro growing_sopt) (auto simp: map_prod_def split: prod.splits)
  show "acts (sopt (post_order_by order) (map_option (map_prod (map (map_bexpr W)) id) ob)) s
      (\<lambda>ob' t. rel_option (rel_prod (list_all2 (\<lambda>e f. expr_walked N e f t)) (=)) ob ob')"
  proof (cases ob)
    case (Some x)
    obtain es' d where ob: "ob = Some (es', d)" using Some by (cases x) auto
    have "acts (post_order_by order (map (map_bexpr W) es', d)) s (\<lambda>y t. rel_prod (list_all2 (\<lambda>e f. expr_walked N e f t)) (=) (es', d) y)"
      unfolding post_order_by_def prod.case by (rule acts_seq [OF es(1) [OF ob]], rule growing_basic, simp)
    then show ?thesis unfolding ob option.map map_prod_simp id_apply sopt.simps
      by (rule acts_seq, intro growing_basic) simp
  qed simp
qed

lemma walks_group_by:
  assumes "order_ok order" "\<And>ks k m. gb = Some ks \<Longrightarrow> k \<in> set ks \<Longrightarrow> m \<in> set_bprojector k \<Longrightarrow> walks N m (W m)"
    "\<And>ks k. gb = Some ks \<Longrightarrow> k \<in> set ks \<Longrightarrow> projector_ok s (\<lambda>m i. True) k \<and> prels_ok False s N k"
  shows "acts (sopt (smap (post_projector order)) (map_option (map (map_bprojector W)) gb)) s
      (\<lambda>gb' t. rel_option (list_all2 (\<lambda>p q. projector_walked N p q t)) gb gb')"
    "growing (sopt (smap (post_projector order)) (map_option (map (map_bprojector W)) gb))"
proof -
  have ks: "acts (smap (post_projector order) (map (map_bprojector W) ks)) s (\<lambda>qs t. list_all2 (\<lambda>p q. projector_walked N p q t) ks qs)"
    "growing (smap (post_projector order) (map (map_bprojector W) ks))" if "gb = Some ks" for ks
    by (rule walks_projectors [OF assms(1)]; use assms(2,3) that in blast)+
  then show "growing (sopt (smap (post_projector order)) (map_option (map (map_bprojector W)) gb))"
    by (cases gb) (auto intro!: grow)
  show "acts (sopt (smap (post_projector order)) (map_option (map (map_bprojector W)) gb)) s
      (\<lambda>gb' t. rel_option (list_all2 (\<lambda>p q. projector_walked N p q t)) gb gb')"
    using ks by (cases gb) (auto intro: acts_seq grow)
qed

text \<open>A SELECT whose parts are walked.\<close>

lemma select_walked:
  assumes sel: "select_ok s (\<lambda>m i. True) src fs ps lm w h ob gb agg"
    and ps: "list_all2 (\<lambda>p q. projector_walked N p q s) ps ps'"
    and w: "rel_option (\<lambda>e f. expr_walked N e f s) w w'" and h: "rel_option (\<lambda>e f. expr_walked N e f s) h h'"
    and ob: "rel_option (rel_prod (list_all2 (\<lambda>e f. expr_walked N e f s)) (=)) ob ob'"
    and gb: "rel_option (list_all2 (\<lambda>p q. projector_walked N p q s)) gb gb'"
    and r: "brel_ok True s N r'" "fields_out r' = src"
  shows "brel_ok True s N (BSelect fs ps' r' lm w' h' ob' gb' agg)"
proof -
  have pp: "list_all2 pshape ps ps'" "\<forall>q \<in> set ps'. projector_ok s (matches True s) q \<and> prels_ok True s N q"
    if "list_all2 (\<lambda>p q. projector_walked N p q s) ps ps'" for ps ps'
    using that by (induction rule: list_all2_induct) (auto simp: projector_walked_def)
  have ee: "list_all2 eshape es fs" "\<forall>e \<in> set es. level_ok e \<Longrightarrow> \<forall>f \<in> set fs. expr_ok s (matches True s) f \<and> rels_ok True s N f"
    if "list_all2 (\<lambda>e f. expr_walked N e f s) es fs" for es fs
    using that by (induction rule: list_all2_induct) (auto simp: expr_walked_def intro: expr_walked_ok)
  have wf: "rel_option eshape w w'" "rel_option eshape h h'"
    using w h by (auto elim!: option.rel_cases simp: expr_walked_def)
  note walked = expr_walkedD
  have wok: "expr_ok s (matches True s) f \<and> rels_ok True s N f \<and> bx_type f = Boolean \<and> bx_level f \<noteq> LevelGroup" if f: "w' = Some f" for f
  proof -
    obtain e where e: "w = Some e" "expr_walked N e f s" using w f by (auto elim!: option.rel_cases)
    with sel walked [OF e(2)] show ?thesis by (simp add: select_ok_def expr_ok_def)
  qed
  have hok: "expr_ok s (matches True s) f \<and> rels_ok True s N f" if f: "h' = Some f" for f
  proof -
    obtain e where e: "h = Some e" "expr_walked N e f s" using h f by (auto elim!: option.rel_cases)
    with sel walked [OF e(2)] show ?thesis by (simp add: select_ok_def expr_ok_def)
  qed
  have obf: "rel_option (rel_prod (list_all2 eshape) (=)) ob ob'"
    using ob ee(1) by (auto elim!: option.rel_cases)
  have obok: "\<forall>f \<in> set fs. expr_ok s (matches True s) f \<and> rels_ok True s N f" if f: "ob' = Some (fs, desc)" for fs desc
  proof -
    obtain es where es: "ob = Some (es, desc)" "list_all2 (\<lambda>e f. expr_walked N e f s) es fs"
      using ob unfolding f by (cases ob) auto
    with sel ee(2) [OF es(2)] show ?thesis by (auto simp: select_ok_def expr_ok_def)
  qed
  have gbf: "rel_option (list_all2 pshape) gb gb'" "\<And>ks'. gb' = Some ks' \<Longrightarrow> \<forall>k \<in> set ks'. projector_ok s (matches True s) k \<and> prels_ok True s N k"
    using gb pp by (auto elim!: option.rel_cases)
  have "case gb' of None \<Rightarrow> ungrouped_ok s src fs ps' h' ob' agg | Some ks \<Rightarrow> grouped_ok s src fs ps' h' ob' ks"
    using sel gbf(1) ungrouped_ok_shape [OF pp(1) [OF ps] wf(2) obf, where s = s] grouped_ok_shape [OF pp(1) [OF ps] wf(2) obf, where s = s]
    by (auto simp: select_ok_def elim!: option.rel_cases)
  then have "select_ok s (matches True s) src fs ps' lm w' h' ob' gb' agg"
    using sel pp(2) [OF ps] wok hok obok gbf(2) unfolding select_ok_def by blast
  then show ?thesis
    using pp(2) [OF ps] wok hok obok gbf(2) r unfolding brel_ok_select by blast
qed

lemma list_all2_stable: "list_all2 (\<lambda>x y. P x y s) xs ys \<Longrightarrow> (\<And>x y. P x y s \<Longrightarrow> P x y t) \<Longrightarrow> list_all2 (\<lambda>x y. P x y t) xs ys"
  by (erule list_all2_mono) blast

lemma select_parts:
  assumes "brel_ok False s N (BSelect fs ps r lm w h ob gb agg)"
  shows "\<forall>p \<in> set ps. projector_ok s (\<lambda>m i. True) p \<and> prels_ok False s N p" "brel_ok False s N r"
    "\<forall>e. w = Some e \<longrightarrow> expr_wt s (\<lambda>m i. True) e \<and> rels_ok False s N e"
    "\<forall>e. h = Some e \<longrightarrow> expr_wt s (\<lambda>m i. True) e \<and> rels_ok False s N e"
    "\<forall>es d. ob = Some (es, d) \<longrightarrow> (\<forall>e \<in> set es. expr_wt s (\<lambda>m i. True) e \<and> rels_ok False s N e)"
    "\<forall>ks. gb = Some ks \<longrightarrow> (\<forall>k \<in> set ks. projector_ok s (\<lambda>m i. True) k \<and> prels_ok False s N k)"
    "select_ok s (\<lambda>m i. True) (fields_out r) fs ps lm w h ob gb agg"
  using assms by (simp_all add: brel_ok_select select_ok_def expr_ok_def)

lemma walk_select:
  fixes fs :: field_set and lm :: "int option" and agg :: bool
  assumes order: "order_ok order"
    and ps: "\<And>p m. p \<in> set ps \<Longrightarrow> m \<in> set_bprojector p \<Longrightarrow> walks N m (W m)" and r: "walks N r (W r)"
    and w: "\<And>e m. w = Some e \<Longrightarrow> m \<in> set_bexpr e \<Longrightarrow> walks N m (W m)"
    and h: "\<And>e m. h = Some e \<Longrightarrow> m \<in> set_bexpr e \<Longrightarrow> walks N m (W m)"
    and ob: "\<And>es d e m. ob = Some (es, d) \<Longrightarrow> e \<in> set es \<Longrightarrow> m \<in> set_bexpr e \<Longrightarrow> walks N m (W m)"
    and gb: "\<And>ks k m. gb = Some ks \<Longrightarrow> k \<in> set ks \<Longrightarrow> m \<in> set_bprojector k \<Longrightarrow> walks N m (W m)"
  defines "rest1 \<equiv> \<lambda>ps' r' w' h' ob'. sbind (sopt (smap (post_projector order)) (map_option (map (map_bprojector W)) gb)) (\<lambda>gb'.
       ret (BSelect fs ps' r' lm w' h' ob' gb' agg))"
  defines "rest2 \<equiv> \<lambda>ps' r' w' h'. sbind (sopt (post_order_by order) (map_option (map_prod (map (map_bexpr W)) id) ob)) (rest1 ps' r' w' h')"
  defines "rest3 \<equiv> \<lambda>ps' r' w'. sbind (sopt (post_expr order) (map_option (map_bexpr W) h)) (rest2 ps' r' w')"
  defines "rest4 \<equiv> \<lambda>ps' r'. sbind (sopt (post_expr order) (map_option (map_bexpr W) w)) (rest3 ps' r')"
  defines "rest5 \<equiv> \<lambda>ps'. sbind (W r) (rest4 ps')"
  defines "walk \<equiv> sbind (smap (post_projector order) (map (map_bprojector W) ps)) rest5"
  shows "walks N (BSelect fs ps r lm w h ob gb agg) walk"
  unfolding walks_def
proof (intro conjI allI impI)
  note gs = gb [unfolded walks_def, THEN conjunct1] ob [unfolded walks_def, THEN conjunct1]
    w [unfolded walks_def, THEN conjunct1] h [unfolded walks_def, THEN conjunct1] ps [unfolded walks_def, THEN conjunct1]
  have p: "growing (smap (post_projector order) (map (map_bprojector W) qs))"
    if q: "\<And>q m. q \<in> set qs \<Longrightarrow> m \<in> set_bprojector q \<Longrightarrow> growing (W m)" for qs
    unfolding smap_map by (rule growing_smap, rule growing_post_projector) (auto simp: bprojector.set_map intro: q)
  have e: "growing (post_expr order (map_bexpr W e))" if q: "\<And>m. m \<in> set_bexpr e \<Longrightarrow> growing (W m)" for e
    by (rule growing_post_expr) (auto simp: bexpr.set_map intro: q)
  have g5: "growing (sopt (smap (post_projector order)) (map_option (map (map_bprojector W)) gb))"
    by (rule growing_sopt) (use gs(1) p in blast)
  have g4: "growing (sopt (post_order_by order) (map_option (map_prod (map (map_bexpr W)) id) ob))"
  proof (rule growing_sopt)
    fix x assume "map_option (map_prod (map (map_bexpr W)) id) ob = Some x"
    then obtain es d where x: "ob = Some (es, d)" "x = (map (map_bexpr W) es, d)" by (cases ob) auto
    have "growing (smap (post_expr order) (map (map_bexpr W) es))"
      unfolding smap_map by (rule growing_smap, rule e) (rule gs(2) [OF x(1)])
    then show "growing (post_order_by order x)" by (simp add: x post_order_by_def growing_sbind growing_basic)
  qed
  have g3: "growing (sopt (post_expr order) (map_option (map_bexpr W) h))"
    by (rule growing_sopt) (auto simp: bexpr.set_map intro: gs intro!: growing_post_expr)
  have g2: "growing (sopt (post_expr order) (map_option (map_bexpr W) w))"
    by (rule growing_sopt) (auto simp: bexpr.set_map intro: gs intro!: growing_post_expr)
  have g1: "growing (W r)" using r by (simp add: walks_def)
  have g0: "growing (smap (post_projector order) (map (map_bprojector W) ps))"
    unfolding smap_map by (rule growing_smap, rule growing_post_projector) (auto simp: bprojector.set_map intro: gs)
  have r1: "growing (rest1 ps' r' w' h' ob')" for ps' r' w' h' ob' unfolding rest1_def by (intro growing_sbind growing_basic g5)
  have r2: "growing (rest2 ps' r' w' h')" for ps' r' w' h' unfolding rest2_def by (intro growing_sbind g4 r1)
  have r3: "growing (rest3 ps' r' w')" for ps' r' w' unfolding rest3_def by (intro growing_sbind g3 r2)
  have r4: "growing (rest4 ps' r')" for ps' r' unfolding rest4_def by (intro growing_sbind g2 r3)
  have r5: "growing (rest5 ps')" for ps' unfolding rest5_def by (intro growing_sbind g1 r4)
  show "growing walk" unfolding walk_def by (intro growing_sbind g0 r5)
  fix s :: bind_state assume ok: "brel_ok False s N (BSelect fs ps r lm w h ob gb agg)"
  have parts: "\<forall>p \<in> set ps. projector_ok t (\<lambda>m i. True) p \<and> prels_ok False t N p" "brel_ok False t N r"
    "\<forall>e. w = Some e \<longrightarrow> expr_wt t (\<lambda>m i. True) e \<and> rels_ok False t N e"
    "\<forall>e. h = Some e \<longrightarrow> expr_wt t (\<lambda>m i. True) e \<and> rels_ok False t N e"
    "\<forall>es d. ob = Some (es, d) \<longrightarrow> (\<forall>e \<in> set es. expr_wt t (\<lambda>m i. True) e \<and> rels_ok False t N e)"
    "\<forall>ks. gb = Some ks \<longrightarrow> (\<forall>k \<in> set ks. projector_ok t (\<lambda>m i. True) k \<and> prels_ok False t N k)"
    "select_ok t (\<lambda>m i. True) (fields_out r) fs ps lm w h ob gb agg" if "below s t" for t :: bind_state
    by (rule select_parts [OF brel_ok_below [OF that ok]])+
  let ?Q = "\<lambda>q t. brel_ok True t N q \<and> fields_out q = fs"
  have "acts walk s ?Q"
    unfolding walk_def
  proof (rule acts_seq [OF walks_projectors(1) [OF order ps] r5])
    fix ps' t1 assume b1: "below s t1" and ps': "list_all2 (\<lambda>p q. projector_walked N p q t1) ps ps'"
    show "acts (rest5 ps') t1 ?Q"
      unfolding rest5_def
    proof (rule acts_seq [OF r [unfolded walks_def, THEN conjunct2, rule_format, OF parts(2) [OF b1]] r4])
      fix r' t2 assume b2: "below t1 t2" and r': "brel_ok True t2 N r' \<and> fields_out r' = fields_out r"
      have s2: "below s t2" using b1 b2 below_trans by blast
      show "acts (rest4 ps' r') t2 ?Q"
        unfolding rest4_def
      proof (rule acts_seq [OF walks_option(1) [OF order w] r3])
        fix w' t3 assume b3: "below t2 t3" and w': "rel_option (\<lambda>e f. expr_walked N e f t3) w w'"
        have s3: "below s t3" using s2 b3 below_trans by blast
        show "acts (rest3 ps' r' w') t3 ?Q"
          unfolding rest3_def
        proof (rule acts_seq [OF walks_option(1) [OF order h] r2])
          fix h' t4 assume b4: "below t3 t4" and h': "rel_option (\<lambda>e f. expr_walked N e f t4) h h'"
          have s4: "below s t4" using s3 b4 below_trans by blast
          show "acts (rest2 ps' r' w' h') t4 ?Q"
            unfolding rest2_def
          proof (rule acts_seq [OF walks_order_by(1) [OF order ob] r1])
            fix ob' t5 assume b5: "below t4 t5" and ob': "rel_option (rel_prod (list_all2 (\<lambda>e f. expr_walked N e f t5)) (=)) ob ob'"
            have s5: "below s t5" using s4 b5 below_trans by blast
            show "acts (rest1 ps' r' w' h' ob') t5 ?Q"
              unfolding rest1_def
            proof (rule acts_seq [OF walks_group_by(1) [OF order gb]])
              fix gb' t assume b6: "below t5 t" and gb': "rel_option (list_all2 (\<lambda>p q. projector_walked N p q t)) gb gb'"
              have c5: "below t5 t" and c4: "below t4 t" and c3: "below t3 t" and c2: "below t2 t" and c1: "below t1 t" and c0: "below s t"
                using b1 b2 b3 b4 b5 b6 below_trans by blast+
              have ew: "expr_walked N e f u \<Longrightarrow> below u t \<Longrightarrow> expr_walked N e f t" for e f u by (rule expr_walked_below)
              have "list_all2 (\<lambda>p q. projector_walked N p q t) ps ps'"
                by (rule list_all2_mono [OF ps']) (rule projector_walked_below [OF _ c1])
              moreover have "rel_option (\<lambda>e f. expr_walked N e f t) w w'" by (rule option.rel_mono_strong [OF w']) (rule ew [OF _ c3])
              moreover have "rel_option (\<lambda>e f. expr_walked N e f t) h h'" by (rule option.rel_mono_strong [OF h']) (rule ew [OF _ c4])
              moreover have "rel_option (rel_prod (list_all2 (\<lambda>e f. expr_walked N e f t)) (=)) ob ob'"
                by (rule option.rel_mono_strong [OF ob'], erule prod.rel_mono_strong, erule list_all2_mono, rule ew [OF _ c5]) simp_all
              moreover have "brel_ok True t N r'" "fields_out r' = fields_out r" using r' c2 brel_ok_below by blast+
              ultimately have "brel_ok True t N (BSelect fs ps' r' lm w' h' ob' gb' agg)"
                using select_walked [OF parts(7) [OF c0]] gb' by blast
              then show "acts (ret (BSelect fs ps' r' lm w' h' ob' gb' agg)) t ?Q" by simp
            qed (use parts(6) [OF s5] in \<open>auto intro!: grow\<close>)
          qed (use parts(5) [OF s4] in auto)
        qed (use parts(4) [OF s3] in auto)
      qed (use parts(3) [OF s2] in auto)
    qed
  qed (use parts(1) [of s] in auto)
  then show "acts walk s (\<lambda>q t. brel_ok True t N q \<and> fields_out q = fields_out (BSelect fs ps r lm w h ob gb agg))" by simp
qed

lemma walksI: "growing m \<Longrightarrow> (\<And>s. brel_ok False s N r \<Longrightarrow> acts m s (\<lambda>q t. brel_ok True t N q \<and> fields_out q = fields_out r)) \<Longrightarrow> walks N r m"
  by (simp add: walks_def)

lemma walksD: "walks N r m \<Longrightarrow> brel_ok False s N r \<Longrightarrow> acts m s (\<lambda>q t. brel_ok True t N q \<and> fields_out q = fields_out r)"
  by (simp add: walks_def)

lemma walks_growing: "walks N r m \<Longrightarrow> growing m"
  by (simp add: walks_def)

lemma walk_two:
  assumes l: "walks N l (W l)" and r: "walks N r (W r)" and s: "brel_ok False s N l" "brel_ok False s N r"
    and f: "\<And>l' r'. growing (f l' r')"
    and rest: "\<And>l' r' t. below s t \<Longrightarrow> brel_ok True t N l' \<Longrightarrow> fields_out l' = fields_out l \<Longrightarrow> brel_ok True t N r' \<Longrightarrow>
      fields_out r' = fields_out r \<Longrightarrow> acts (f l' r') t Q"
  shows "acts (sbind (W l) (\<lambda>l'. sbind (W r) (f l'))) s Q"
proof (rule acts_seq [OF walksD [OF l s(1)]])
  fix l' t assume t: "below s t" "brel_ok True t N l' \<and> fields_out l' = fields_out l"
  show "acts (sbind (W r) (f l')) t Q"
  proof (rule acts_seq [OF walksD [OF r brel_ok_below [OF t(1) s(2)]] f])
    fix r' u assume u: "below t u" "brel_ok True u N r' \<and> fields_out r' = fields_out r"
    show "acts (f l' r') u Q"
      by (rule rest) (use t u below_trans brel_ok_below in blast)+
  qed
qed (intro growing_sbind walks_growing [OF r] f)

lemma growing_overlap [grow]: "growing (overlap_check F i)"
  by (auto simp: overlap_check_def intro!: grow)

lemma growing_post_left_join [grow]: "growing (post_left_join order fs l r lk rk)"
  by (auto simp: post_left_join_def Let_def intro!: grow)

lemma acts_post_left_join:
  assumes ok: "brel_ok True s N (BLeftJoin fs l r lk rk)"
  shows "acts (post_left_join order fs l r lk rk) s (\<lambda>q t. brel_ok True t N q \<and> fields_out q = fs)"
proof -
  have fin: "acts (requires c (ret (if b then BLeftJoin fs l r lk rk else BLeftJoin fs l r rk lk))) t
      (\<lambda>q t. brel_ok True t N q \<and> fields_out q = fs)" if "below s t" for t :: bind_state and b c
    using brel_ok_below [OF that ok] by simp
  show ?thesis
    unfolding post_left_join_def Let_def
  proof (rule acts_seq [OF growingD [OF growing_store(4)]])
    fix F t assume t: "below s t"
    show "acts (sbind (set_fields order (fields_out r)) (\<lambda>G. sbind (smap (overlap_check G) (order F)) (\<lambda>_.
        requires (bx_required lk \<subseteq> F \<and> bx_required rk \<subseteq> G \<or> bx_required rk \<subseteq> F \<and> bx_required lk \<subseteq> G)
          (ret (if bx_required lk \<subseteq> F \<and> bx_required rk \<subseteq> G then BLeftJoin fs l r lk rk else BLeftJoin fs l r rk lk))))) t
        (\<lambda>q t. brel_ok True t N q \<and> fields_out q = fs)"
      by (rule acts_seq [OF growingD [OF growing_store(4)]], rule growing_sbind, rule growing_smap, rule growing_overlap, rule growing_if,
          rule growing_basic, rule growing_basic, rule acts_seq [OF growingD [OF growing_smap [OF growing_overlap]]],
          rule growing_if, rule growing_basic, rule growing_basic, rule fin)
        (use t below_trans in blast)
  qed (auto intro!: grow)
qed

lemma walk_left_join:
  assumes order: "order_ok order" and l: "walks N l (W l)" and r: "walks N r (W r)"
    and lk: "\<And>m. m \<in> set_bexpr lk \<Longrightarrow> walks N m (W m)" and rk: "\<And>m. m \<in> set_bexpr rk \<Longrightarrow> walks N m (W m)"
  shows "walks N (BLeftJoin fs l r lk rk) (sbind (W l) (\<lambda>l. sbind (W r) (\<lambda>r. sbind (post_expr order (map_bexpr W lk)) (\<lambda>lk.
     sbind (post_expr order (map_bexpr W rk)) (\<lambda>rk. post_left_join order fs l r lk rk)))))"
proof (rule walksI)
  have g: "growing (post_expr order (map_bexpr W lk))" "growing (post_expr order (map_bexpr W rk))"
    by (rule growing_post_expr; use lk rk walks_growing in \<open>fastforce simp: bexpr.set_map\<close>)+
  have gr: "growing (sbind (post_expr order (map_bexpr W rk)) (\<lambda>rk. post_left_join order fs l' r' lk' rk))" for l' r' lk'
    by (intro growing_sbind g growing_post_left_join)
  have gl: "growing (sbind (post_expr order (map_bexpr W lk)) (\<lambda>lk. sbind (post_expr order (map_bexpr W rk)) (\<lambda>rk. post_left_join order fs l' r' lk rk)))" for l' r'
    by (intro growing_sbind g gr)
  show "growing (sbind (W l) (\<lambda>l. sbind (W r) (\<lambda>r. sbind (post_expr order (map_bexpr W lk)) (\<lambda>lk.
     sbind (post_expr order (map_bexpr W rk)) (\<lambda>rk. post_left_join order fs l r lk rk)))))"
    by (intro growing_sbind walks_growing [OF l] walks_growing [OF r] gl)
  fix s :: bind_state assume s: "brel_ok False s N (BLeftJoin fs l r lk rk)"
  let ?Q = "\<lambda>q t. brel_ok True t N q \<and> fields_out q = fs"
  have "acts (sbind (W l) (\<lambda>l. sbind (W r) (\<lambda>r. sbind (post_expr order (map_bexpr W lk)) (\<lambda>lk.
     sbind (post_expr order (map_bexpr W rk)) (\<lambda>rk. post_left_join order fs l r lk rk))))) s ?Q"
  proof (rule walk_two [OF l r _ _ gl])
    fix l' r' and t :: bind_state assume t: "below s t" and l': "brel_ok True t N l'" "fields_out l' = fields_out l"
      and r': "brel_ok True t N r'" "fields_out r' = fields_out r"
    have ok: "brel_ok False u N (BLeftJoin fs l r lk rk)" if "below t u" for u using s t that below_trans brel_ok_below by blast
    show "acts (sbind (post_expr order (map_bexpr W lk)) (\<lambda>lk. sbind (post_expr order (map_bexpr W rk)) (\<lambda>rk. post_left_join order fs l' r' lk rk))) t ?Q"
    proof (rule acts_seq [OF acts_post_expr [OF order lk] gr])
      fix lk' u assume u: "below t u" "expr_walked N lk lk' u"
      show "acts (sbind (post_expr order (map_bexpr W rk)) (\<lambda>rk. post_left_join order fs l' r' lk' rk)) u ?Q"
      proof (rule acts_seq [OF acts_post_expr [OF order rk] growing_post_left_join])
        fix rk' v assume v: "below u v" "expr_walked N rk rk' v"
        have tv: "below t v" using u(1) v(1) below_trans by blast
        have "expr_walked N lk lk' v" using u(2) v(1) expr_walked_below by blast
        moreover have "brel_ok True v N l'" "brel_ok True v N r'" using l' r' tv brel_ok_below by blast+
        ultimately have "brel_ok True v N (BLeftJoin fs l' r' lk' rk')"
          using ok [OF tv] v(2) l' r' expr_walkedD by (auto simp: expr_ok_def)
        from acts_post_left_join [OF this] show "acts (post_left_join order fs l' r' lk' rk') v ?Q" .
      qed (use ok [OF u(1)] in \<open>auto simp: expr_ok_def\<close>)
    qed (use ok [of t] in \<open>auto simp: expr_ok_def\<close>)
  qed (use s in auto)
  then show "acts (sbind (W l) (\<lambda>l. sbind (W r) (\<lambda>r. sbind (post_expr order (map_bexpr W lk)) (\<lambda>lk.
     sbind (post_expr order (map_bexpr W rk)) (\<lambda>rk. post_left_join order fs l r lk rk))))) s
     (\<lambda>q t. brel_ok True t N q \<and> fields_out q = fields_out (BLeftJoin fs l r lk rk))" by simp
qed

lemma post_walks: "order_ok order \<Longrightarrow> walks N r (post_relation order r)"
proof (induction r)
  case (BSelect fs ps r lm w h ob gb agg)
  show ?case
    unfolding post_relation.simps
    by (rule walk_select [OF BSelect.prems]) (use BSelect in \<open>auto\<close>)
next
  case (BLeftJoin fs l r lk rk)
  show ?case
    unfolding post_relation.simps
    by (rule walk_left_join [OF BLeftJoin.prems]) (use BLeftJoin in auto)
next
  case (BAlias fs a r)
  then have r: "walks N r (post_relation order r)" by blast
  show ?case
    unfolding post_relation.simps
    by (rule walksI, intro growing_sbind growing_basic walks_growing [OF r], rule acts_seq [OF walksD [OF r]])
      (auto intro: grow)
next
  case (BMaterialize fs r)
  then have r: "walks N r (post_relation order r)" by blast
  show ?case
    unfolding post_relation.simps
    by (rule walksI, intro growing_sbind growing_basic walks_growing [OF r], rule acts_seq [OF walksD [OF r]])
      (auto intro: grow)
next
  case (BUnionAll fs l r)
  then have l: "walks N l (post_relation order l)" and r: "walks N r (post_relation order r)" by blast+
  show ?case
    unfolding post_relation.simps
    by (rule walksI, intro growing_sbind growing_basic walks_growing [OF l] walks_growing [OF r], rule walk_two [OF l r])
      (auto intro: grow)
next
  case (BUnionAllSortedBy fs l r es desc)
  then have l: "walks N l (post_relation order l)" and r: "walks N r (post_relation order r)" by blast+
  have m: "walks N m (post_relation order m)" if "e \<in> set es" "m \<in> set_bexpr e" for e m
    using BUnionAllSortedBy.IH(3) BUnionAllSortedBy.prems that by blast
  have g: "growing (smap (post_expr order) (map (map_bexpr (post_relation order)) es))"
    unfolding smap_map by (rule growing_smap, rule growing_post_expr) (auto simp: bexpr.set_map intro: walks_growing m)
  have g': "growing (sbind (smap (post_expr order) (map (map_bexpr (post_relation order)) es)) (\<lambda>es. ret (BUnionAllSortedBy fs l' r' es desc)))" for l' r'
    by (intro growing_sbind growing_basic g)
  show ?case
    unfolding post_relation.simps
  proof (rule walksI)
    show "growing (sbind (post_relation order l) (\<lambda>l. sbind (post_relation order r) (\<lambda>r.
       sbind (smap (post_expr order) (map (map_bexpr (post_relation order)) es)) (\<lambda>es. ret (BUnionAllSortedBy fs l r es desc)))))"
      by (intro growing_sbind growing_basic walks_growing [OF l] walks_growing [OF r] g)
    fix s :: bind_state assume s: "brel_ok False s N (BUnionAllSortedBy fs l r es desc)"
    show "acts (sbind (post_relation order l) (\<lambda>l. sbind (post_relation order r) (\<lambda>r.
       sbind (smap (post_expr order) (map (map_bexpr (post_relation order)) es)) (\<lambda>es. ret (BUnionAllSortedBy fs l r es desc))))) s
       (\<lambda>q t. brel_ok True t N q \<and> fields_out q = fields_out (BUnionAllSortedBy fs l r es desc))"
    proof (rule walk_two [OF l r _ _ g'])
      fix l' r' and t :: bind_state assume t: "below s t" and lr: "brel_ok True t N l'" "fields_out l' = fields_out l"
        "brel_ok True t N r'" "fields_out r' = fields_out r"
      have ok: "brel_ok False t N (BUnionAllSortedBy fs l r es desc)" using s t brel_ok_below by blast
      have "acts (smap (post_expr order) (map (map_bexpr (post_relation order)) es)) t (\<lambda>fs u. list_all2 (\<lambda>e f. expr_walked N e f u) es fs)"
        by (rule walks_exprs(1) [OF BUnionAllSortedBy.prems m]) (use ok in \<open>auto simp: expr_ok_def list_all_iff\<close>)
      then show "acts (sbind (smap (post_expr order) (map (map_bexpr (post_relation order)) es)) (\<lambda>es. ret (BUnionAllSortedBy fs l' r' es desc))) t
          (\<lambda>q t. brel_ok True t N q \<and> fields_out q = fields_out (BUnionAllSortedBy fs l r es desc))"
      proof (rule acts_seq)
        fix es' u assume u: "below t u" "list_all2 (\<lambda>e f. expr_walked N e f u) es es'"
        have lev: "\<forall>e \<in> set es. level_ok e" using ok by (simp add: expr_ok_def)
        have "\<forall>f \<in> set es'. expr_ok u (matches True u) f \<and> rels_ok True u N f"
          using u(2) lev by (induction rule: list_all2_induct) (auto dest: expr_walkedD)
        moreover have "brel_ok True u N l'" "brel_ok True u N r'" using lr u(1) brel_ok_below by blast+
        ultimately have "brel_ok True u N (BUnionAllSortedBy fs l' r' es' desc)" using ok lr by (simp add: list_all_iff)
        then show "acts (ret (BUnionAllSortedBy fs l' r' es' desc)) u
          (\<lambda>q t. brel_ok True t N q \<and> fields_out q = fields_out (BUnionAllSortedBy fs l r es desc))" by simp
      qed (rule growing_basic)
    qed (use s in auto)
  qed
qed (auto simp: walks_def intro: grow)

section \<open>Programs\<close>

fun statement_relation_of :: "bstatement \<Rightarrow> brelation" where
  "statement_relation_of (BNamedRelation n r) = r"
| "statement_relation_of (BQuery r) = r"

text \<open>The sets of the named relations after a statement; a name is given once.\<close>

fun named_after :: "(string \<rightharpoonup> field_set) \<Rightarrow> bstatement \<Rightarrow> (string \<rightharpoonup> field_set)" where
  "named_after N (BNamedRelation n r) = N(n \<mapsto> fields_out r)"
| "named_after N (BQuery r) = N"

fun new_name :: "(string \<rightharpoonup> field_set) \<Rightarrow> bstatement \<Rightarrow> bool" where
  "new_name N (BNamedRelation n r) = (N n = None)"
| "new_name N (BQuery r) = True"

fun program_ok :: "bool \<Rightarrow> 'x field_store_scheme \<Rightarrow> (string \<rightharpoonup> field_set) \<Rightarrow> bstatement list \<Rightarrow> bool" where
  "program_ok b s N [] = True"
| "program_ok b s N (st # sts) = (brel_ok b s N (statement_relation_of st) \<and> new_name N st \<and> program_ok b s (named_after N st) sts)"

lemma program_ok_below: "below s t \<Longrightarrow> program_ok b s N sts \<Longrightarrow> program_ok b t N sts"
  by (induction sts arbitrary: N) (auto dest: brel_ok_below)

lemma insert_named_acts: "acts (insert_named n fs) s (\<lambda>b t. b \<longrightarrow> named_sets s n = None \<and> named_sets t = (named_sets s)(n \<mapsto> fs))"
  by (auto simp: acts_def post_def insert_named_def below_def room_def store_wf_def split: if_splits)

lemma growing_insert_named [grow]: "growing (insert_named n fs)"
  by (rule growing_acts [OF insert_named_acts])

lemma growing_bind_statement [grow]: "growing (bind_statement X order st)"
  by (cases st) (auto intro!: grow)

lemma acts_bind_statement:
  assumes N: "named_sets s = N"
  shows "acts (bind_statement X order st) s (\<lambda>b t. brel_ok False t N (statement_relation_of b) \<and> new_name N b \<and> named_sets t = named_after N b)"
proof (cases st)
  case (AstQuery r)
  show ?thesis
    unfolding AstQuery bind_statement.simps
    by (rule acts_named [OF binder_typed(3) frames_binder(3) N]) (auto intro: grow)
next
  case (AstNamedRelation n r)
  show ?thesis
    unfolding AstNamedRelation bind_statement.simps
  proof (rule acts_named [OF binder_typed(3) frames_binder(3) N])
    fix q and t :: bind_state assume t: "named_sets t = N" "brel_ok False t N q"
    show "acts (sbind (insert_named n (fields_out q)) (\<lambda>inserted. requires inserted (ret (BNamedRelation n q)))) t
        (\<lambda>b t. brel_ok False t N (statement_relation_of b) \<and> new_name N b \<and> named_sets t = named_after N b)"
      by (rule acts_seq [OF insert_named_acts]) (use t in \<open>auto intro: grow brel_ok_below\<close>)
  qed (auto intro: grow)
qed simp

lemma bind_statements_typed:
  "named_sets s = N \<Longrightarrow> acts (smap (bind_statement X order) p) s (\<lambda>ss t. program_ok False t N ss)"
proof (induction p arbitrary: s N)
  case (Cons st p)
  show ?case
    unfolding smap.simps
  proof (rule acts_seq [OF acts_bind_statement [OF Cons.prems]])
    fix b and t :: bind_state assume t: "brel_ok False t N (statement_relation_of b) \<and> new_name N b \<and> named_sets t = named_after N b"
    then have "acts (smap (bind_statement X order) p) t (\<lambda>ss u. program_ok False u (named_after N b) ss)" using Cons.IH by blast
    then show "acts (sbind (smap (bind_statement X order) p) (\<lambda>ys. ret (b # ys))) t (\<lambda>ss t. program_ok False t N ss)"
      by (rule acts_seq) (use t in \<open>auto intro: grow brel_ok_below\<close>)
  qed (auto intro!: grow)
qed simp

lemma growing_post_statement [grow]: "order_ok order \<Longrightarrow> growing (post_statement order st)"
  by (cases st) (auto intro!: grow intro: walks_growing [OF post_walks])

lemma post_statements_typed:
  assumes order: "order_ok order"
  shows "program_ok False s N ss \<Longrightarrow> acts (smap (post_statement order) ss) s (\<lambda>ts t. program_ok True t N ts)"
proof (induction ss arbitrary: s N)
  case (Cons st ss)
  have st: "acts (post_statement order st) s (\<lambda>b t. brel_ok True t N (statement_relation_of b) \<and> new_name N b \<and> named_after N b = named_after N st)"
  proof (cases st)
    case (BQuery r)
    show ?thesis
      unfolding BQuery post_statement.simps
      by (rule acts_seq [OF walksD [OF post_walks [OF order]]]) (use Cons.prems BQuery in \<open>auto intro: grow\<close>)
  next
    case (BNamedRelation n r)
    show ?thesis
      unfolding BNamedRelation post_statement.simps
      by (rule acts_seq [OF walksD [OF post_walks [OF order]]]) (use Cons.prems BNamedRelation in \<open>auto intro: grow\<close>)
  qed
  show ?case
    unfolding smap.simps
  proof (rule acts_seq [OF st])
    fix b t assume t: "below s t" "brel_ok True t N (statement_relation_of b) \<and> new_name N b \<and> named_after N b = named_after N st"
    have "program_ok False t (named_after N st) ss" using Cons.prems t(1) program_ok_below by auto
    then have "acts (smap (post_statement order) ss) t (\<lambda>ts u. program_ok True u (named_after N b) ts)" using Cons.IH t(2) by simp
    then show "acts (sbind (smap (post_statement order) ss) (\<lambda>ys. ret (b # ys))) t (\<lambda>ts t. program_ok True t N ts)"
      by (rule acts_seq) (use t in \<open>auto intro: grow brel_ok_below\<close>)
  qed (auto intro!: grow growing_post_statement [OF order])
qed simp

lemma sorted_order_ok: "order_ok sorted_list_of_set"
  by (simp add: order_ok_def)

text \<open>The binding of \<open>SELECT a FROM 'cat' WHERE a LIKE 'b'\<close>.\<close>

lemma bind_example:
  "bind_program X sorted_list_of_set [AstQuery (AstSelect [AstIdentifierProjector ''a''] (AstStream ''cat'') None
       (Some (AstLike (AstIdentifier ''a'') ''b'')) None None None)] =
     Inr ([BQuery (BSelect (FixedFields {1}) [BIdentifierProjector 1] (BStream (OpenFields 0) ''cat'') None
         (Some (BLike \<lparr>info_type = Boolean, info_level = LevelRow, required_fields = {1}\<rparr>
            (BIdentifier \<lparr>info_type = String, info_level = LevelRow, required_fields = {1}\<rparr> 1) ''b'')) None None None False)],
       \<lparr>binding = \<lparr>next_id = 2, names = [1 \<mapsto> ''a''], types = [1 \<mapsto> String], ids = (\<lambda>_. Map.empty)(String := [''a'' \<mapsto> 1])\<rparr>,
        cells = [{1}], named_sets = Map.empty\<rparr>)"
  by (simp add: bind_program_def expandMacros_def select_of_def bind_select_def bind_where_def bind_ungrouped_def bind_identifier_def
      sbind_def ret_def raise_def lift_def gets_def new_cell_def get_cell_def add_to_cell_def get_or_add_def getOrAdd_def addField_def
      emplace_def empty_state_def emptyBinding_def hasField_def UnknownFieldId_def field_type_def field_name_def bindLikeExpr_def
      outputFieldsOf_def fs_merge_def field_id_def Let_def)

section \<open>Properties\<close>



end
